(* ===== verification/Prelude.thy ===== *)
theory Prelude
  imports Main "HOL-Library.Word"
begin

text \<open>
  Shared vocabulary of the development: the machine types of the C sources, byte-array slices,
  the platform's entropy source, and the parts of the C library the sources call (character
  classes, \<open>strtol\<close>, \<open>atoi\<close>, \<open>strtoul\<close>, \<open>strchr\<close>).  Generic lemmas on lists, words and
  filters that several components use are proved here and collected in \<open>bytes_simps\<close>.
\<close>

unbundle bit_operations_syntax

named_theorems bytes_simps \<open>lengths and slices of byte arrays\<close>

section \<open>Machine types\<close>

type_synonym u8 = "8 word"
type_synonym u16 = "16 word"
type_synonym u32 = "32 word"
type_synonym u64 = "64 word"
type_synonym bytes = "u8 list"

text \<open>\<open>p + off\<close> read for \<open>n\<close> bytes, as \<open>memcpy\<close> and pointer arguments use it.\<close>

definition slice :: "nat \<Rightarrow> nat \<Rightarrow> 'a list \<Rightarrow> 'a list" where
  "slice off n xs = take n (drop off xs)"

text \<open>A write of \<open>ys\<close> into the array at \<open>off\<close>.\<close>

definition patch :: "nat \<Rightarrow> 'a list \<Rightarrow> 'a list \<Rightarrow> 'a list" where
  "patch off ys xs = take off xs @ ys @ drop (off + length ys) xs"

text \<open>Bytewise exclusive or of two arrays of the same length.\<close>

definition xor_bytes :: "bytes \<Rightarrow> bytes \<Rightarrow> bytes" where
  "xor_bytes xs ys = map2 (XOR) xs ys"

section \<open>Entropy\<close>

text \<open>
  The platform generator (\<open>randomGet\<close> on Horizon, \<open>arc4random_buf\<close> on the host) is not part of
  the repository.  It is an arbitrary infinite byte sequence, consumed in call order: every
  operation that draws random bytes takes the sequence and returns what is left of it.
\<close>

type_synonym entropy = "nat \<Rightarrow> u8"

definition awg_random_bytes :: "entropy \<Rightarrow> nat \<Rightarrow> bytes \<times> entropy" where
  "awg_random_bytes e n = (map e [0..<n], (\<lambda>i. e (i + n)))"

text \<open>\<open>awg_random_bytes(&v, 4)\<close> into a \<open>uint32_t\<close> on the little-endian targets.\<close>

definition random_u32 :: "entropy \<Rightarrow> u32 \<times> entropy" where
  "random_u32 e =
     (let (b, e') = awg_random_bytes e 4
      in (ucast (b ! 0) OR push_bit 8 (ucast (b ! 1)) OR push_bit 16 (ucast (b ! 2))
            OR push_bit 24 (ucast (b ! 3)), e'))"

text \<open>
  The wall clock: \<open>timeGetCurrentTime\<close> of the three system clocks in the order they are asked, \<open>None\<close>
  for a call that fails, and \<open>time(NULL)\<close> as the last resort.  A clock that reads zero counts as unset.
\<close>

fun awg_now_seconds :: "u64 option list \<Rightarrow> u64 \<Rightarrow> u64" where
  "awg_now_seconds [] fallback = fallback"
| "awg_now_seconds (clock # clocks) fallback =
     (case clock of
        Some ts \<Rightarrow> if ts \<noteq> 0 then ts else awg_now_seconds clocks fallback
      | None \<Rightarrow> awg_now_seconds clocks fallback)"

section \<open>Outcomes\<close>

text \<open>
  The result of a C function that can refuse (-1) or leave its buffers: \<open>Fault\<close> is an access outside the
  memory the function was given.  A definition that yields \<open>Fault\<close> describes the code up to that access.
\<close>

datatype 'a outcome = Done 'a | Rejected | Fault

definition outcome_bind :: "'a outcome \<Rightarrow> ('a \<Rightarrow> 'b outcome) \<Rightarrow> 'b outcome" where
  "outcome_bind r f = (case r of Done x \<Rightarrow> f x | Rejected \<Rightarrow> Rejected | Fault \<Rightarrow> Fault)"

lemma outcome_bind_simps [simp]:
  "outcome_bind (Done x) f = f x" "outcome_bind Rejected f = Rejected" "outcome_bind Fault f = Fault"
  by (simp_all add: outcome_bind_def)

text \<open>A byte of a buffer, and two bytes as a big-endian number.\<close>

definition rd :: "bytes \<Rightarrow> nat \<Rightarrow> nat outcome" where
  "rd b i = (if i < length b then Done (unat (b ! i)) else Fault)"

definition rd16 :: "bytes \<Rightarrow> nat \<Rightarrow> nat outcome" where
  "rd16 b i = outcome_bind (rd b i) (\<lambda>hi. outcome_bind (rd b (i + 1)) (\<lambda>lo. Done (256 * hi + lo)))"

text \<open>Two bytes in network order.\<close>

definition be16 :: "nat \<Rightarrow> bytes" where
  "be16 n = [word_of_nat (n div 256), word_of_nat n]"

text \<open>lwIP's error codes, as its callbacks and calls return them.\<close>

datatype err_t = ERR_OK | ERR_INPROGRESS | ERR_ABRT | ERR_OTHER int

abbreviation ERR_MEM :: err_t where "ERR_MEM \<equiv> ERR_OTHER (-1)"
abbreviation ERR_BUF :: err_t where "ERR_BUF \<equiv> ERR_OTHER (-2)"
abbreviation ERR_IF :: err_t where "ERR_IF \<equiv> ERR_OTHER (-12)"

section \<open>C library\<close>

text \<open>A C string is the characters before the terminating NUL.\<close>

definition cstr :: "string \<Rightarrow> string" where
  "cstr s = takeWhile (\<lambda>c. of_char c \<noteq> (0::nat)) s"

definition isdigit :: "char \<Rightarrow> bool" where
  "isdigit c = (48 \<le> (of_char c :: nat) \<and> of_char c \<le> (57::nat))"

definition isspace :: "char \<Rightarrow> bool" where
  "isspace c = (of_char c = (32::nat) \<or> (9 \<le> (of_char c :: nat) \<and> of_char c \<le> (13::nat)))"

text \<open>\<open>strchr\<close>: what precedes the first occurrence and what follows it.\<close>

fun split_at :: "char \<Rightarrow> string \<Rightarrow> (string \<times> string) option" where
  "split_at c [] = None"
| "split_at c (x # xs) =
     (if x = c then Some ([], xs)
      else map_option (\<lambda>(a, b). (x # a, b)) (split_at c xs))"

text \<open>\<open>strrchr\<close>: the same at the last occurrence.\<close>

definition rsplit_at :: "char \<Rightarrow> string \<Rightarrow> (string \<times> string) option" where
  "rsplit_at c s = map_option (\<lambda>(a, b). (rev b, rev a)) (split_at c (rev s))"

fun digits_val :: "int \<Rightarrow> string \<Rightarrow> int \<times> string" where
  "digits_val acc [] = (acc, [])"
| "digits_val acc (c # cs) =
     (if isdigit c then digits_val (acc * 10 + int (of_char c - 48)) cs else (acc, c # cs))"

text \<open>
  \<open>strtol (s, &end, 10)\<close> on a 64-bit \<open>long\<close>: white space, an optional sign, digits, saturation at
  the type's bounds.  The result carries \<open>end\<close> as the unread suffix; \<open>None\<close> is \<open>end == s\<close>, no
  conversion.
\<close>

definition long_clamp :: "int \<Rightarrow> int" where
  "long_clamp v = max (- (2 ^ 63)) (min (2 ^ 63 - 1) v)"

definition strtol :: "string \<Rightarrow> (int \<times> string) option" where
  "strtol s =
     (let t = dropWhile isspace s;
          neg = (t \<noteq> [] \<and> hd t = CHR ''-'');
          u = (if t \<noteq> [] \<and> (hd t = CHR ''-'' \<or> hd t = CHR ''+'') then tl t else t)
      in if u \<noteq> [] \<and> isdigit (hd u)
         then let (v, r) = digits_val 0 u in Some (long_clamp (if neg then - v else v), r)
         else None)"

text \<open>The value alone, 0 without a conversion, and its conversion to a 32-bit \<open>int\<close>.\<close>

definition strtol_val :: "string \<Rightarrow> int" where
  "strtol_val s = (case strtol s of None \<Rightarrow> 0 | Some (v, _) \<Rightarrow> v)"

definition to_int32 :: "int \<Rightarrow> int" where
  "to_int32 v = (v + 2 ^ 31) mod 2 ^ 32 - 2 ^ 31"

definition atoi :: "string \<Rightarrow> int" where
  "atoi s = to_int32 (strtol_val s)"

text \<open>
  \<open>(uint32_t) strtoul (s, NULL, 10)\<close> on a 64-bit \<open>unsigned long\<close>: a leading minus negates in the
  unsigned type, a magnitude above the maximum saturates there, and the cast keeps the low 32 bits.
\<close>

definition strtoul32 :: "string \<Rightarrow> u32" where
  "strtoul32 s =
     (let t = dropWhile isspace s;
          neg = (t \<noteq> [] \<and> hd t = CHR ''-'');
          u = (if t \<noteq> [] \<and> (hd t = CHR ''-'' \<or> hd t = CHR ''+'') then tl t else t);
          v = fst (digits_val 0 u)
      in if v > 2 ^ 64 - 1 then word_of_int (2 ^ 64 - 1)
         else word_of_int (if neg then - v else v))"

text \<open>\<open>printf\<close> with \<open>%u\<close> and \<open>%d\<close>.\<close>

fun show_nat :: "nat \<Rightarrow> string" where
  "show_nat n = (if n < 10 then [char_of (48 + n)] else show_nat (n div 10) @ [char_of (48 + n mod 10)])"

declare show_nat.simps [simp del]

definition show_int :: "int \<Rightarrow> string" where
  "show_int v = (if v < 0 then CHR ''-'' # show_nat (nat (- v)) else show_nat (nat v))"

section \<open>Filters over sequences\<close>

text \<open>What a stateful accept/reject test lets through, in order.\<close>

fun accepted :: "('s \<Rightarrow> 'c \<Rightarrow> bool \<times> 's) \<Rightarrow> 's \<Rightarrow> 'c list \<Rightarrow> 'c list" where
  "accepted f s [] = []"
| "accepted f s (c # cs) =
     (let (ok, s') = f s c in if ok then c # accepted f s' cs else accepted f s' cs)"

section \<open>Lemmas\<close>

lemma length_slice [bytes_simps]: "off + n \<le> length xs \<Longrightarrow> length (slice off n xs) = n"
  by (simp add: slice_def)

lemma slice_append_left [bytes_simps]:
  "off + n \<le> length xs \<Longrightarrow> slice off n (xs @ ys) = slice off n xs"
  by (simp add: slice_def)

lemma slice_append_right [bytes_simps]:
  "length xs \<le> off \<Longrightarrow> slice off n (xs @ ys) = slice (off - length xs) n ys"
  by (simp add: slice_def)

lemma slice_0_all [bytes_simps]: "length xs = n \<Longrightarrow> slice 0 n xs = xs"
  by (simp add: slice_def)

lemma length_patch [bytes_simps]:
  "off + length ys \<le> length xs \<Longrightarrow> length (patch off ys xs) = length xs"
  by (simp add: patch_def)

lemma slice_patch [bytes_simps]:
  "off + length ys \<le> length xs \<Longrightarrow> n = length ys \<Longrightarrow> slice off n (patch off ys xs) = ys"
  by (simp add: slice_def patch_def)

lemma patch_patch [bytes_simps]:
  "off + length ys \<le> length xs \<Longrightarrow> length zs = length ys \<Longrightarrow>
   patch off ys (patch off zs xs) = patch off ys xs"
  by (simp add: patch_def)

lemma patch_slice [bytes_simps]: "off + n \<le> length xs \<Longrightarrow> patch off (slice off n xs) xs = xs"
  by (simp add: patch_def slice_def min_def add.commute [of off] flip: drop_drop)

lemma take_patch [bytes_simps]:
  "n \<le> off \<Longrightarrow> off + length ys \<le> length xs \<Longrightarrow> take n (patch off ys xs) = take n xs"
  by (simp add: patch_def min_def)

lemma drop_patch [bytes_simps]:
  "off + length ys \<le> n \<Longrightarrow> off + length ys \<le> length xs \<Longrightarrow> drop n (patch off ys xs) = drop n xs"
  by (simp add: patch_def)

lemma length_xor_bytes [bytes_simps]:
  "length ys = length xs \<Longrightarrow> length (xor_bytes xs ys) = length xs"
  by (simp add: xor_bytes_def)

lemma nth_xor_bytes:
  "i < length xs \<Longrightarrow> i < length ys \<Longrightarrow> xor_bytes xs ys ! i = xs ! i XOR ys ! i"
  by (simp add: xor_bytes_def)

lemma xor_bytes_invol [bytes_simps]:
  "length ks = length xs \<Longrightarrow> xor_bytes (xor_bytes xs ks) ks = xs"
  unfolding xor_bytes_def by (induction xs ks rule: list_induct2') (auto simp: xor.assoc)

lemma length_awg_random_bytes [bytes_simps, simp]: "length (fst (awg_random_bytes e n)) = n"
  by (simp add: awg_random_bytes_def)

lemma to_int32_id: "- (2 ^ 31) \<le> v \<Longrightarrow> v < 2 ^ 31 \<Longrightarrow> to_int32 v = v"
  by (simp add: to_int32_def)

lemma to_int32_range: "- (2 ^ 31) \<le> to_int32 v \<and> to_int32 v < 2 ^ 31"
  using pos_mod_bound [of "2 ^ 32" "v + 2 ^ 31"] pos_mod_sign [of "2 ^ 32" "v + 2 ^ 31"]
  by (simp add: to_int32_def)

lemma split_at_Some: "split_at c s = Some (a, b) \<Longrightarrow> s = a @ c # b \<and> c \<notin> set a"
  by (induction s arbitrary: a) (auto split: if_splits)

lemma split_at_None: "split_at c s = None \<longleftrightarrow> c \<notin> set s"
  by (induction s) auto

lemma split_at_append: "c \<notin> set a \<Longrightarrow> split_at c (a @ c # b) = Some (a, b)"
  by (induction a) auto

lemma xor_eq_0_iff: "x XOR y = 0 \<longleftrightarrow> x = (y :: 'a::len word)"
proof
  assume "x XOR y = 0"
  then have "(x XOR y) XOR y = 0 XOR y" by simp
  then show "x = y" by (simp add: xor.assoc)
qed simp

lemma length_LetI: "(\<And>y. length y = length a \<Longrightarrow> length (f y) = n) \<Longrightarrow> length (Let a f) = n"
  by (simp add: Let_def)

lemma u8_lt: "unat (b :: u8) < 256"
  using unsigned_less [of b, where ?'a = nat] by simp

lemma bit_u8_above: "n \<ge> 8 \<Longrightarrow> \<not> bit (b :: u8) n"
  using bit_imp_le_length [of b n] by auto

lemma rd_Done: "i < length b \<Longrightarrow> rd b i = Done (unat (b ! i))"
  by (simp add: rd_def)

lemma rd16_Done: "i + 1 < length b \<Longrightarrow> rd16 b i = Done (256 * unat (b ! i) + unat (b ! (i + 1)))"
  by (simp add: rd16_def rd_def)

lemma length_be16 [simp]: "length (be16 n) = 2"
  by (simp add: be16_def)

lemma rd16_be16:
  assumes "n < 65536" shows "rd16 (xs @ be16 n @ ys) (length xs) = Done n"
proof -
  have "unat (word_of_nat (n div 256) :: u8) = n div 256" "unat (word_of_nat n :: u8) = n mod 256"
    using assms by (simp_all add: unat_of_nat less_mult_imp_div_less)
  then show ?thesis by (simp add: rd16_def rd_def be16_def nth_append)
qed

lemma rd16_be16_at: "n < 65536 \<Longrightarrow> b = xs @ be16 n @ ys \<Longrightarrow> p = length xs \<Longrightarrow> rd16 b p = Done n"
  by (simp add: rd16_be16)

lemma rd_at: "b = xs @ word_of_nat n # ys \<Longrightarrow> p = length xs \<Longrightarrow> n < 256 \<Longrightarrow> rd b p = Done n"
  by (simp add: rd_def unat_of_nat)

section \<open>Numbers in text\<close>

lemma digit_char [simp]:
  "d < 10 \<Longrightarrow> isdigit (char_of (48 + d))" "d < 10 \<Longrightarrow> of_char (char_of (48 + d)) = (48 + d :: nat)"
  by (simp_all add: isdigit_def)

lemma digits_val_digit: "d < 10 \<Longrightarrow> digits_val a (char_of (48 + d) # r) = digits_val (a * 10 + int d) r"
  by simp

lemma digits_val_append_digits:
  "list_all isdigit s \<Longrightarrow> digits_val a (s @ r) = digits_val (fst (digits_val a s)) r"
  by (induction s arbitrary: a) simp_all

lemma show_nat_digits: "list_all isdigit (show_nat n)"
proof (induction n rule: show_nat.induct)
  case (1 n)
  then show ?case by (cases "n < 10") (simp_all add: show_nat.simps [of n])
qed

lemma show_nat_not_Nil: "show_nat n \<noteq> []"
  by (simp add: show_nat.simps [of n])

lemma digits_val_show_nat: "fst (digits_val 0 (show_nat n)) = int n"
proof (induction n rule: show_nat.induct)
  case (1 n)
  show ?case
  proof (cases "n < 10")
    case True
    then show ?thesis by (simp add: show_nat.simps [of n] digits_val_digit)
  next
    case False
    then have "fst (digits_val 0 (show_nat n))
        = fst (digits_val (fst (digits_val 0 (show_nat (n div 10)))) [char_of (48 + n mod 10)])"
      by (simp only: show_nat.simps [of n] if_False digits_val_append_digits show_nat_digits)
    also have "\<dots> = int (n div 10) * 10 + int (n mod 10)"
      using "1.IH" [OF False] by (simp add: digits_val_digit)
    also have "\<dots> = int n" by (metis div_mult_mod_eq of_nat_add of_nat_mult of_nat_numeral)
    finally show ?thesis .
  qed
qed

lemma digits_val_show_nat_rest:
  assumes "r = [] \<or> \<not> isdigit (hd r)" shows "digits_val 0 (show_nat n @ r) = (int n, r)"
proof -
  have "digits_val a r = (a, r)" for a using assms by (cases r) auto
  then show ?thesis
    by (simp add: digits_val_append_digits show_nat_digits digits_val_show_nat)
qed

lemma hd_show_nat: "isdigit (hd (show_nat n))"
  using show_nat_digits [of n] show_nat_not_Nil [of n] by (cases "show_nat n") auto

lemma isdigit_plain: "isdigit c \<Longrightarrow> \<not> isspace c \<and> c \<noteq> CHR ''-'' \<and> c \<noteq> CHR ''+''"
  by (auto simp: isdigit_def isspace_def)

text \<open>\<open>strtol\<close> reads back what \<open>printf\<close> wrote and stops at the first other character.\<close>

lemma strtol_show_int:
  assumes "- (2 ^ 63) \<le> v" "v < 2 ^ 63" and r: "r = [] \<or> \<not> isdigit (hd r)"
  shows "strtol (show_int v @ r) = Some (v, r)"
proof (cases "v < 0")
  case True
  define s where "s = show_nat (nat (- v))"
  have s: "isdigit (hd s)" "s \<noteq> []" "digits_val 0 (s @ r) = (- v, r)"
    using hd_show_nat show_nat_not_Nil digits_val_show_nat_rest [OF r, of "nat (- v)"] True
    by (simp_all add: s_def)
  have "show_int v @ r = CHR ''-'' # s @ r" using True by (simp add: show_int_def s_def)
  with s assms(1,2) True show ?thesis
    by (simp add: strtol_def isspace_def long_clamp_def)
next
  case False
  define s where "s = show_nat (nat v)"
  have s: "isdigit (hd s)" "s \<noteq> []" "digits_val 0 (s @ r) = (v, r)"
    using hd_show_nat show_nat_not_Nil digits_val_show_nat_rest [OF r, of "nat v"] False
    by (simp_all add: s_def)
  then obtain c t where c: "s = c # t" "isdigit c" by (cases s) auto
  have "show_int v @ r = s @ r" using False by (simp add: show_int_def s_def)
  with s c isdigit_plain [OF c(2)] assms(1,2) show ?thesis
    by (simp add: strtol_def long_clamp_def)
qed

end
