(* ===== verification/Power_Events.thy ===== *)
theory Power_Events
  imports Prelude
begin

text \<open>
  Noticing that the console slept (\<open>awg_power.c\<close>).  The play-event log is the platform's: its range and the answer
  to a query are inputs.  The module keeps whether it holds the service session, and the index of the newest entry it
  has read.  The indices of the log are \<open>s32\<close>; every difference taken is between numbers of one sign, so no
  operation leaves the type.
\<close>

datatype play_event = PowerStateChange | OtherEvent int

record power =
  pw_ok :: bool
  pw_last_end :: int
  pw_session :: bool

text \<open>The statics, before the first call.\<close>

definition power_static :: power where
  "power_static = \<lparr>pw_ok = False, pw_last_end = -1, pw_session = False\<rparr>"

definition EVENT_BATCH :: int where
  "EVENT_BATCH = 16"

text \<open>\<open>init\<close> and \<open>cloned\<close>: whether \<open>pdmqryInitialize\<close> and \<open>serviceClone\<close> succeed.  The clone replaces the
  original session, which is closed; \<open>pdmqryExit\<close> gives the session back.\<close>

definition awg_power_start :: "bool \<Rightarrow> bool \<Rightarrow> power \<Rightarrow> power \<times> bool" where
  "awg_power_start init cloned p =
     (if \<not> init then (p, False)
      else
        let p = p\<lparr>pw_session := True\<rparr>
        in if \<not> cloned then (p\<lparr>pw_session := False\<rparr>, False)
           else (p\<lparr>pw_ok := True, pw_last_end := -1\<rparr>, True))"

definition awg_power_stop :: "power \<Rightarrow> power" where
  "awg_power_stop p = (if \<not> pw_ok p then p else p\<lparr>pw_session := False, pw_ok := False\<rparr>)"

text \<open>\<open>rng\<close> is what \<open>pdmqryGetAvailablePlayEventRange\<close> wrote (total, first, last), \<open>query from want\<close> the
  entries \<open>pdmqryQueryPlayEvent\<close> returned; \<open>None\<close> is a failed call.\<close>

definition awg_power_transition ::
  "(int \<times> int \<times> int) option \<Rightarrow> (int \<Rightarrow> int \<Rightarrow> play_event list option) \<Rightarrow> power \<Rightarrow> power \<times> bool" where
  "awg_power_transition rng query p =
     (if \<not> pw_ok p then (p, False)
      else
        (case rng of
           None \<Rightarrow> (p, False)
         | Some (n, first, hi) \<Rightarrow>
             if hi \<le> pw_last_end p then (p, False)
             else if pw_last_end p < 0 then (p\<lparr>pw_last_end := hi\<rparr>, False)
             else
               let from = pw_last_end p + 1;
                   from = (if from < hi - (EVENT_BATCH - 1) then hi - (EVENT_BATCH - 1) else from);
                   from = (if from < first then first else from);
                   from = (if from < 0 then 0 else from);
                   want = hi - from + 1;
                   want = (if want > EVENT_BATCH then EVENT_BATCH else want)
               in if want \<le> 0 then (p\<lparr>pw_last_end := hi\<rparr>, False)
                  else
                    (case query from want of
                       None \<Rightarrow> (p, False)
                     | Some events \<Rightarrow>
                         (p\<lparr>pw_last_end := hi\<rparr>, list_ex (\<lambda>e. e = PowerStateChange) events))))"

section \<open>Properties\<close>

text \<open>Calls that succeed, on a log whose entries never change and are all kept.\<close>

definition power_answers :: "(int \<Rightarrow> play_event) \<Rightarrow> int \<Rightarrow> int \<Rightarrow> play_event list option" where
  "power_answers log from want = Some (map log [from..from + want - 1])"

primrec power_ticks :: "(int \<Rightarrow> play_event) \<Rightarrow> power \<Rightarrow> int list \<Rightarrow> bool list" where
  "power_ticks log p [] = []"
| "power_ticks log p (hi # ls) =
     (case awg_power_transition (Some (hi + 1, 0, hi)) (power_answers log) p of
        (p', b) \<Rightarrow> b # power_ticks log p' ls)"

text \<open>What a watcher of the whole log says at each look: whether a transition was written since the last one.\<close>

fun watch_log :: "(int \<Rightarrow> play_event) \<Rightarrow> int list \<Rightarrow> bool list" where
  "watch_log log (a # b # ls) = list_ex (\<lambda>i. log i = PowerStateChange) [a + 1..b] # watch_log log (b # ls)"
| "watch_log log [_] = []"
| "watch_log log [] = []"

fun slow_log :: "int list \<Rightarrow> bool" where
  "slow_log (a # b # ls) \<longleftrightarrow> a \<le> b \<and> b \<le> a + 16 \<and> slow_log (b # ls)"
| "slow_log [_] \<longleftrightarrow> True"
| "slow_log [] \<longleftrightarrow> True"

lemma power_transition_watches:
  assumes "pw_ok p" "0 \<le> pw_last_end p" "pw_last_end p \<le> hi" "hi \<le> pw_last_end p + 16"
  shows "awg_power_transition (Some (hi + 1, 0, hi)) (power_answers log) p =
    (p\<lparr>pw_last_end := hi\<rparr>, list_ex (\<lambda>i. log i = PowerStateChange) [pw_last_end p + 1..hi])"
proof (cases "hi = pw_last_end p")
  case True
  then show ?thesis using assms by (simp add: awg_power_transition_def)
next
  case False
  have m: "list_ex (\<lambda>e. e = PowerStateChange) (map log xs) = list_ex (\<lambda>i. log i = PowerStateChange) xs" for xs
    by (induction xs) auto
  show ?thesis
    using False assms by (simp add: awg_power_transition_def EVENT_BATCH_def power_answers_def Let_def m)
qed

lemma power_ticks_watch:
  "pw_ok p \<Longrightarrow> 0 \<le> pw_last_end p \<Longrightarrow> slow_log (pw_last_end p # ls) \<Longrightarrow>
   power_ticks log p ls = watch_log log (pw_last_end p # ls)"
proof (induction ls arbitrary: p)
  case (Cons l ls)
  then show ?case using power_transition_watches [of p l log] Cons.IH [of "p\<lparr>pw_last_end := l\<rparr>"] by simp
qed simp



text \<open>A burst of more than sixteen entries hides what lies before its last sixteen.\<close>

lemma power_burst_missed:
  assumes "pw_ok p" "0 \<le> pw_last_end p" "pw_last_end p + 16 < hi"
    "\<And>i. hi - 16 < i \<Longrightarrow> i \<le> hi \<Longrightarrow> log i \<noteq> PowerStateChange"
  shows "snd (awg_power_transition (Some (hi + 1, 0, hi)) (power_answers log) p) = False"
  using assms
  by (auto simp: awg_power_transition_def EVENT_BATCH_def power_answers_def Let_def list_ex_iff eq_commute [of PowerStateChange])

text \<open>The module holds the service session exactly while it is usable.\<close>

lemma power_session_held:
  "pw_session (fst (awg_power_start i c power_static)) = pw_ok (fst (awg_power_start i c power_static))"
  "pw_session p = pw_ok p \<Longrightarrow> pw_session (awg_power_stop p) = pw_ok (awg_power_stop p)"
  "pw_session p = pw_ok p \<Longrightarrow>
     pw_session (fst (awg_power_transition r q p)) = pw_ok (fst (awg_power_transition r q p))"
  by (auto simp: awg_power_start_def power_static_def awg_power_stop_def awg_power_transition_def Let_def
      split: option.split)

end
