(* ===== verification/Crypto_Util.thy ===== *)
theory Crypto_Util
  imports Prelude
begin

text \<open>
  The helpers of \<open>crypto/crypto.h\<close> and \<open>crypto/crypto.c\<close> every primitive uses: little-endian
  loads and stores and the constant-time comparison, with the value of a little-endian byte array
  as a natural number, which the arithmetic proofs are stated in.
\<close>

section \<open>Byte order\<close>

definition U8TO32_LITTLE :: "bytes \<Rightarrow> u32" where
  "U8TO32_LITTLE p =
     ucast (p ! 0) OR push_bit 8 (ucast (p ! 1)) OR push_bit 16 (ucast (p ! 2))
       OR push_bit 24 (ucast (p ! 3))"

definition U8TO64_LITTLE :: "bytes \<Rightarrow> u64" where
  "U8TO64_LITTLE p =
     ucast (p ! 0) OR push_bit 8 (ucast (p ! 1)) OR push_bit 16 (ucast (p ! 2))
       OR push_bit 24 (ucast (p ! 3)) OR push_bit 32 (ucast (p ! 4)) OR push_bit 40 (ucast (p ! 5))
       OR push_bit 48 (ucast (p ! 6)) OR push_bit 56 (ucast (p ! 7))"

definition U32TO8_LITTLE :: "u32 \<Rightarrow> bytes" where
  "U32TO8_LITTLE v =
     [ucast v, ucast (drop_bit 8 v), ucast (drop_bit 16 v), ucast (drop_bit 24 v)]"

definition U64TO8_LITTLE :: "u64 \<Rightarrow> bytes" where
  "U64TO8_LITTLE v =
     [ucast v, ucast (drop_bit 8 v), ucast (drop_bit 16 v), ucast (drop_bit 24 v),
      ucast (drop_bit 32 v), ucast (drop_bit 40 v), ucast (drop_bit 48 v), ucast (drop_bit 56 v)]"

text \<open>The reference reading of a little-endian byte array.\<close>

fun le_val :: "bytes \<Rightarrow> nat" where
  "le_val [] = 0"
| "le_val (b # bs) = unat b + 256 * le_val bs"

section \<open>Constant-time comparison and erasure\<close>

definition crypto_equal :: "bytes \<Rightarrow> bytes \<Rightarrow> nat \<Rightarrow> bool" where
  "crypto_equal x y n = (fold (\<lambda>i diff. diff OR (x ! i XOR y ! i)) [0..<n] 0 = 0)"

definition crypto_zero :: "bytes \<Rightarrow> nat \<Rightarrow> bytes" where
  "crypto_zero dest len = fold (\<lambda>i d. d[i := 0]) [0..<len] dest"

section \<open>The interface of an incremental digest\<close>

text \<open>
  What the callers of a hash or an authenticator rely on: a context represents the bytes fed into
  it, and finishing yields the digest of those bytes, however they were divided.
\<close>

locale incremental_digest =
  fixes valid :: "'k \<Rightarrow> bool"
    and start :: "'k \<Rightarrow> 's"
    and feed :: "'s \<Rightarrow> bytes \<Rightarrow> 's"
    and finish :: "'s \<Rightarrow> 'd"
    and digest :: "'k \<Rightarrow> bytes \<Rightarrow> 'd"
    and rep :: "'k \<Rightarrow> 's \<Rightarrow> bytes \<Rightarrow> bool"
  assumes rep_start: "valid k \<Longrightarrow> rep k (start k) []"
    and rep_feed: "valid k \<Longrightarrow> rep k s m \<Longrightarrow> rep k (feed s x) (m @ x)"
    and rep_finish: "valid k \<Longrightarrow> rep k s m \<Longrightarrow> finish s = digest k m"
begin

lemma rep_fold:
  "valid k \<Longrightarrow> rep k s m \<Longrightarrow> rep k (fold (\<lambda>x s. feed s x) xs s) (m @ concat xs)"
proof (induction xs arbitrary: s m)
  case (Cons x xs)
  from Cons.IH [OF Cons.prems(1) rep_feed [OF Cons.prems, of x]] show ?case by simp
qed simp

lemma finish_fold:
  "valid k \<Longrightarrow> finish (fold (\<lambda>x s. feed s x) xs (start k)) = digest k (concat xs)"
  using rep_fold [OF _ rep_start, of k xs] by (auto intro: rep_finish)

lemma finish_feed: "valid k \<Longrightarrow> finish (feed (start k) x) = digest k x"
  using finish_fold [of k "[x]"] by simp

lemma finish_feed_feed: "valid k \<Longrightarrow> finish (feed (feed (start k) x) y) = digest k (x @ y)"
  using finish_fold [of k "[x, y]"] by simp

lemma division_irrelevant:
  "valid k \<Longrightarrow> concat xs = concat ys \<Longrightarrow>
   finish (fold (\<lambda>x s. feed s x) xs (start k)) = finish (fold (\<lambda>x s. feed s x) ys (start k))"
  by (simp add: finish_fold)

end

section \<open>Lemmas\<close>

lemma length_U32TO8_LITTLE [bytes_simps, simp]: "length (U32TO8_LITTLE v) = 4"
  by (simp add: U32TO8_LITTLE_def)

lemma length_U64TO8_LITTLE [bytes_simps, simp]: "length (U64TO8_LITTLE v) = 8"
  by (simp add: U64TO8_LITTLE_def)

lemma less_4_cases: "q < 4 \<Longrightarrow> q = 0 \<or> q = 1 \<or> q = 2 \<or> q = (3::nat)"
  by linarith

lemma less_8_cases:
  "q < 8 \<Longrightarrow> q = 0 \<or> q = 1 \<or> q = 2 \<or> q = 3 \<or> q = 4 \<or> q = 5 \<or> q = 6 \<or> q = (7::nat)"
  by linarith

lemma bit_U8TO32: "q < 4 \<Longrightarrow> r < 8 \<Longrightarrow> bit (U8TO32_LITTLE p) (8 * q + r) = bit (p ! q) r"
  by (drule less_4_cases, elim disjE)
    (simp_all add: U8TO32_LITTLE_def bit_or_iff bit_push_bit_iff bit_unsigned_iff bit_u8_above)

lemma bit_U8TO64: "q < 8 \<Longrightarrow> r < 8 \<Longrightarrow> bit (U8TO64_LITTLE p) (8 * q + r) = bit (p ! q) r"
  by (drule less_8_cases, elim disjE)
    (simp_all add: U8TO64_LITTLE_def bit_or_iff bit_push_bit_iff bit_unsigned_iff bit_u8_above)

lemma bit_U32TO8: "q < 4 \<Longrightarrow> r < 8 \<Longrightarrow> bit (U32TO8_LITTLE v ! q) r = bit v (8 * q + r)"
  by (drule less_4_cases, elim disjE)
    (simp_all add: U32TO8_LITTLE_def bit_unsigned_iff bit_drop_bit_eq)

lemma bit_U64TO8: "q < 8 \<Longrightarrow> r < 8 \<Longrightarrow> bit (U64TO8_LITTLE v ! q) r = bit v (8 * q + r)"
  by (drule less_8_cases, elim disjE)
    (simp_all add: U64TO8_LITTLE_def bit_unsigned_iff bit_drop_bit_eq)

lemma nat_byte_split: "n < 8 * k \<Longrightarrow> \<exists>q r. n = 8 * q + r \<and> q < k \<and> r < (8::nat)"
  by (rule exI [of _ "n div 8"], rule exI [of _ "n mod 8"]) auto

lemma U8TO32_U32TO8 [simp]: "U8TO32_LITTLE (U32TO8_LITTLE v @ r) = v"
proof (rule bit_word_eqI)
  fix n assume "n < LENGTH(32)"
  then obtain q s where "n = 8 * q + s" "q < 4" "s < 8" using nat_byte_split [of n 4] by auto
  then show "bit (U8TO32_LITTLE (U32TO8_LITTLE v @ r)) n = bit v n"
    by (simp add: bit_U8TO32 bit_U32TO8 nth_append)
qed

lemma U8TO64_U64TO8 [simp]: "U8TO64_LITTLE (U64TO8_LITTLE v @ r) = v"
proof (rule bit_word_eqI)
  fix n assume "n < LENGTH(64)"
  then obtain q s where "n = 8 * q + s" "q < 8" "s < 8" using nat_byte_split [of n 8] by auto
  then show "bit (U8TO64_LITTLE (U64TO8_LITTLE v @ r)) n = bit v n"
    by (simp add: bit_U8TO64 bit_U64TO8 nth_append)
qed

lemma le_val_append: "le_val (xs @ ys) = le_val xs + 256 ^ length xs * le_val ys"
  by (induction xs) (auto simp: algebra_simps)

lemma le_val_bound: "le_val xs < 256 ^ length xs"
proof (induction xs)
  case Nil
  then show ?case by simp
next
  case (Cons b bs)
  have "unat b < 256" by (rule u8_lt)
  with Cons show ?case by simp
qed

lemma le_val_drop: "le_val (drop k xs) = le_val xs div 256 ^ k"
proof (cases "k \<le> length xs")
  case True
  have "le_val xs = le_val (take k xs) + 256 ^ k * le_val (drop k xs)"
    using le_val_append [of "take k xs" "drop k xs"] True by simp
  moreover have "le_val (take k xs) < 256 ^ k" using le_val_bound [of "take k xs"] True by simp
  ultimately show ?thesis by simp
next
  case False
  then have "le_val xs < 256 ^ k"
    using le_val_bound [of xs] by (meson less_le_trans nat_le_linear power_increasing one_le_numeral)
  with False show ?thesis by simp
qed

lemma le_val_take: "le_val (take k xs) = le_val xs mod 256 ^ k"
proof (cases "k \<le> length xs")
  case True
  have "le_val xs = le_val (take k xs) + 256 ^ k * le_val (drop k xs)"
    using le_val_append [of "take k xs" "drop k xs"] True by simp
  moreover have "le_val (take k xs) < 256 ^ k" using le_val_bound [of "take k xs"] True by simp
  ultimately show ?thesis by simp
next
  case False
  then have "le_val xs < 256 ^ k"
    using le_val_bound [of xs] by (meson less_le_trans nat_le_linear power_increasing one_le_numeral)
  with False show ?thesis by simp
qed

lemma le_val_inj: "length xs = length ys \<Longrightarrow> le_val xs = le_val ys \<Longrightarrow> xs = ys"
proof (induction xs ys rule: list_induct2)
  case Nil
  then show ?case by simp
next
  case (Cons x xs y ys)
  have b: "unat x < 256" "unat y < 256" by (rule u8_lt)+
  have "a = c \<and> p = q" if "a < 256" "c < 256" "a + 256 * p = c + 256 * q" for a c p q :: nat
    by (metis add_left_cancel mod_less mod_mult_self2 mult_cancel1 that
        zero_neq_numeral)
  from this [OF b] Cons.prems have "unat x = unat y" "le_val xs = le_val ys" by simp_all
  with Cons.IH show ?case by (simp add: word_unat_eq_iff)
qed

lemma or_fold_zero_iff:
  "fold (\<lambda>i diff. diff OR (x ! i XOR y ! i)) is (d :: u8) = 0
     \<longleftrightarrow> d = 0 \<and> (\<forall>i\<in>set is. x ! i = y ! i)"
proof (induction "is" arbitrary: d)
  case Nil
  then show ?case by simp
next
  case (Cons i "is")
  then show ?case by (auto simp: or_eq_0_iff xor_eq_0_iff)
qed

section \<open>Little-endian words as numbers\<close>

lemma or_push_bit_eq_add:
  assumes "\<And>n. bit a n \<Longrightarrow> n < k" shows "a OR push_bit k b = a + push_bit k (b :: 'a::len word)"
proof -
  have "\<not> bit a n \<or> \<not> k \<le> n" for n using assms [of n] by linarith
  then have "a AND push_bit k b = 0"
    by (intro bit_word_eqI) (auto simp: bit_and_iff bit_push_bit_iff)
  then show ?thesis by (simp add: disjunctive_add_eq_or)
qed

lemma bit_imp_le_length_u8: "bit (b :: u8) n \<Longrightarrow> n < 8"
  using bit_imp_le_length [of b n] by simp

lemma ucast_u8_or: "(ucast (x :: u8) :: 'a::len word) OR push_bit 8 y = ucast x + push_bit 8 y"
  by (rule or_push_bit_eq_add) (auto simp: bit_unsigned_iff dest: bit_imp_le_length_u8)

lemma U8TO32_LITTLE_le_val:
  assumes "4 \<le> length p" shows "U8TO32_LITTLE p = of_nat (le_val (take 4 p))"
proof -
  obtain a b c d q where p: "p = a # b # c # d # q"
    using assms by (auto simp: numeral_eq_Suc Suc_le_length_iff)
  have "U8TO32_LITTLE p = ucast a OR push_bit 8 (ucast b OR push_bit 8 (ucast c OR push_bit 8 (ucast d)))"
    by (simp add: U8TO32_LITTLE_def p push_bit_or)
  also have "\<dots> = ucast a + push_bit 8 (ucast b + push_bit 8 (ucast c + push_bit 8 (ucast d)))"
    by (simp only: ucast_u8_or)
  also have "\<dots> = of_nat (le_val (take 4 p))"
    by (simp add: p push_bit_eq_mult algebra_simps)
  finally show ?thesis .
qed

lemma unat_U8TO32_LITTLE:
  assumes "4 \<le> length p" shows "unat (U8TO32_LITTLE p) = le_val (take 4 p)"
proof -
  have "le_val (take 4 p) < 256 ^ 4" using le_val_bound [of "take 4 p"] assms by (simp add: min.absorb2)
  then show ?thesis unfolding U8TO32_LITTLE_le_val [OF assms] unat_of_nat by simp
qed

lemma le_val_U32TO8_LITTLE: "le_val (U32TO8_LITTLE v) = unat v"
  using unat_U8TO32_LITTLE [of "U32TO8_LITTLE v"] U8TO32_U32TO8 [of v "[]"] by simp

section \<open>Comparison and wiping\<close>

text \<open>\<open>crypto_equal\<close> decides equality of the compared prefix.\<close>

lemma crypto_equal_take:
  assumes "n \<le> length x" and "n \<le> length y"
  shows "crypto_equal x y n \<longleftrightarrow> take n x = take n y"
  using assms by (auto simp: crypto_equal_def or_fold_zero_iff list_eq_iff_nth_eq)

lemma crypto_equal_whole:
  "length x = n \<Longrightarrow> length y = n \<Longrightarrow> crypto_equal x y n \<longleftrightarrow> x = y"
  by (simp add: crypto_equal_take)

lemma crypto_zero_all: "length d = n \<Longrightarrow> crypto_zero d n = replicate n 0"
proof -
  have "fold (\<lambda>i d. d[i := 0]) [0..<k] d = replicate k 0 @ drop k d" if "k \<le> length d" for k
    using that
  proof (induction k)
    case 0
    then show ?case by simp
  next
    case (Suc k)
    then have "drop k d = d ! k # drop (Suc k) d" by (simp add: Cons_nth_drop_Suc)
    with Suc show ?case by (simp add: list_update_append replicate_append_same [symmetric])
  qed
  from this [of n] show "length d = n \<Longrightarrow> ?thesis" by (simp add: crypto_zero_def)
qed

end
