(* ===== verification/ChaCha20.thy ===== *)
theory ChaCha20
  imports Crypto_Util
begin

text \<open>
  \<open>crypto/chacha20.c\<close>: the ChaCha20 block function, the stream cipher over it, its 64-bit-nonce
  initialisation and HChaCha20.  The cipher is shown to be RFC 7539 counter mode, byte by byte,
  and to satisfy the \<open>stream_cipher\<close> interface the framing layer relies on.
\<close>

section \<open>The code\<close>

type_synonym chacha20_ctx = "u32 list"

definition CHACHA20_BLOCK_SIZE :: nat where
  "CHACHA20_BLOCK_SIZE = 64"

definition ROTL32 :: "u32 \<Rightarrow> nat \<Rightarrow> u32" where
  "ROTL32 v n = push_bit n v OR drop_bit (32 - n) v"

definition QUARTERROUND :: "nat \<Rightarrow> nat \<Rightarrow> nat \<Rightarrow> nat \<Rightarrow> u32 list \<Rightarrow> u32 list" where
  "QUARTERROUND a b c d x =
     (let x = x[a := x ! a + x ! b]; x = x[d := x ! d XOR x ! a]; x = x[d := ROTL32 (x ! d) 16];
          x = x[c := x ! c + x ! d]; x = x[b := x ! b XOR x ! c]; x = x[b := ROTL32 (x ! b) 12];
          x = x[a := x ! a + x ! b]; x = x[d := x ! d XOR x ! a]; x = x[d := ROTL32 (x ! d) 8];
          x = x[c := x ! c + x ! d]; x = x[b := x ! b XOR x ! c]; x = x[b := ROTL32 (x ! b) 7]
      in x)"

definition INNER_BLOCK :: "u32 list \<Rightarrow> u32 list" where
  "INNER_BLOCK block =
     (let block = QUARTERROUND 0 4 8 12 block;
          block = QUARTERROUND 1 5 9 13 block;
          block = QUARTERROUND 2 6 10 14 block;
          block = QUARTERROUND 3 7 11 15 block;
          block = QUARTERROUND 0 5 10 15 block;
          block = QUARTERROUND 1 6 11 12 block;
          block = QUARTERROUND 2 7 8 13 block;
          block = QUARTERROUND 3 4 9 14 block
      in block)"

definition TWENTY_ROUNDS :: "u32 list \<Rightarrow> u32 list" where
  "TWENTY_ROUNDS x = (INNER_BLOCK ^^ 10) x"

definition chacha20_block :: "chacha20_ctx \<Rightarrow> bytes" where
  "chacha20_block ctx =
     (let working_state = TWENTY_ROUNDS ctx
      in concat (map (\<lambda>i. U32TO8_LITTLE (working_state ! i + ctx ! i)) [0..<16]))"

text \<open>The loop: one block of key stream per 64 input bytes, the block counter in word 12.\<close>

function chacha20 :: "chacha20_ctx \<Rightarrow> bytes \<Rightarrow> chacha20_ctx \<times> bytes" where
  "chacha20 ctx inp =
     (if inp = [] then (ctx, [])
      else
        let output = chacha20_block ctx;
            ctx = ctx[12 := ctx ! 12 + 1]
        in if length inp \<le> 64 then (ctx, xor_bytes inp (take (length inp) output))
           else
             let (ctx', rest) = chacha20 ctx (drop 64 inp)
             in (ctx', xor_bytes (take 64 inp) output @ rest))"
  by pat_completeness auto
termination
  by (relation "measure (\<lambda>(ctx, inp). length inp)") auto

declare chacha20.simps [simp del]

definition chacha20_init :: "bytes \<Rightarrow> u64 \<Rightarrow> chacha20_ctx" where
  "chacha20_init key nonce =
     [0x61707865, 0x3320646e, 0x79622d32, 0x6b206574,
      U8TO32_LITTLE (drop 0 key), U8TO32_LITTLE (drop 4 key), U8TO32_LITTLE (drop 8 key),
      U8TO32_LITTLE (drop 12 key), U8TO32_LITTLE (drop 16 key), U8TO32_LITTLE (drop 20 key),
      U8TO32_LITTLE (drop 24 key), U8TO32_LITTLE (drop 28 key),
      0, 0, ucast (nonce AND 0xFFFFFFFF), ucast (drop_bit 32 nonce)]"

definition hchacha20 :: "bytes \<Rightarrow> bytes \<Rightarrow> bytes" where
  "hchacha20 nonce key =
     (let state =
        [0x61707865, 0x3320646e, 0x79622d32, 0x6b206574,
         U8TO32_LITTLE (drop 0 key), U8TO32_LITTLE (drop 4 key), U8TO32_LITTLE (drop 8 key),
         U8TO32_LITTLE (drop 12 key), U8TO32_LITTLE (drop 16 key), U8TO32_LITTLE (drop 20 key),
         U8TO32_LITTLE (drop 24 key), U8TO32_LITTLE (drop 28 key),
         U8TO32_LITTLE (drop 0 nonce), U8TO32_LITTLE (drop 4 nonce), U8TO32_LITTLE (drop 8 nonce),
         U8TO32_LITTLE (drop 12 nonce)];
          state = TWENTY_ROUNDS state
      in concat (map (\<lambda>i. U32TO8_LITTLE (state ! i)) [0, 1, 2, 3, 12, 13, 14, 15]))"

section \<open>The interface of a stream cipher\<close>

text \<open>What the framing layer needs of header protection: applying it twice restores the input.\<close>

locale stream_cipher =
  fixes crypt :: "'k \<Rightarrow> bytes \<Rightarrow> bytes"
  assumes crypt_length: "length (crypt k x) = length x"
    and crypt_crypt: "crypt k (crypt k x) = x"
begin

lemma crypt_inj: "crypt k x = crypt k y \<Longrightarrow> x = y"
  by (metis crypt_crypt)

text \<open>In place, on part of a buffer: the second application restores the buffer.\<close>

lemma crypt_patch_restore:
  assumes "off + n \<le> length x"
  shows "patch off (crypt k (slice off n (patch off (crypt k (slice off n x)) x)))
           (patch off (crypt k (slice off n x)) x) = x"
  using assms by (simp add: bytes_simps crypt_length crypt_crypt)

end

section \<open>Lemmas\<close>

lemma length_QUARTERROUND [simp]: "length (QUARTERROUND a b c d x) = length x"
  unfolding QUARTERROUND_def by (intro length_LetI) simp

lemma length_INNER_BLOCK [simp]: "length (INNER_BLOCK x) = length x"
  by (simp add: INNER_BLOCK_def Let_def)

lemma length_TWENTY_ROUNDS [simp]: "length (TWENTY_ROUNDS x) = length x"
proof -
  have "length ((INNER_BLOCK ^^ n) x) = length x" for n by (induction n) auto
  then show ?thesis by (simp add: TWENTY_ROUNDS_def)
qed

lemma length_concat_words:
  "length (concat (map (\<lambda>i. U32TO8_LITTLE (f i)) xs)) = 4 * length xs"
  by (induction xs) auto

lemma length_chacha20_block [bytes_simps, simp]: "length (chacha20_block ctx) = 64"
  by (simp add: chacha20_block_def Let_def length_concat_words)

lemma length_chacha20_init [simp]: "length (chacha20_init key nonce) = 16"
  by (simp add: chacha20_init_def)

lemma length_hchacha20 [bytes_simps, simp]: "length (hchacha20 nonce key) = 32"
  by (simp add: hchacha20_def Let_def)

lemma length_chacha20 [bytes_simps, simp]: "length (snd (chacha20 ctx inp)) = length inp"
proof (induction ctx inp rule: chacha20.induct)
  case (1 ctx inp)
  show ?case
  proof (cases "length inp \<le> 64")
    case True
    then show ?thesis
      by (subst chacha20.simps) (simp add: Let_def length_xor_bytes min_def)
  next
    case False
    then have "length (snd (chacha20 (ctx[12 := ctx ! 12 + 1]) (drop 64 inp))) = length inp - 64"
      using "1.IH" [OF _ refl refl] by fastforce
    with False show ?thesis
      by (subst chacha20.simps) (auto simp: Let_def length_xor_bytes min_def split: prod.splits)
  qed
qed

lemma length_chacha20_ctx [simp]: "length (fst (chacha20 ctx inp)) = length ctx"
proof (induction ctx inp rule: chacha20.induct)
  case (1 ctx inp)
  then show ?case
    by (subst chacha20.simps) (auto simp: Let_def split: prod.splits)
qed

section \<open>Counter mode\<close>

text \<open>Block \<open>k\<close> of the key stream that starts at \<open>ctx\<close>.\<close>

definition block_at :: "chacha20_ctx \<Rightarrow> nat \<Rightarrow> bytes" where
  "block_at ctx k = chacha20_block (ctx[12 := ctx ! 12 + of_nat k])"

lemma length_block_at [simp]: "length (block_at ctx k) = 64"
  by (simp add: block_at_def)

lemma block_at_0: "length ctx = 16 \<Longrightarrow> block_at ctx 0 = chacha20_block ctx"
  by (simp add: block_at_def)

lemma block_at_next:
  "length ctx = 16 \<Longrightarrow> block_at (ctx[12 := ctx ! 12 + 1]) k = block_at ctx (Suc k)"
  by (simp add: block_at_def ac_simps)

lemma chacha20_nth:
  assumes "length ctx = 16" and "i < length inp"
  shows "snd (chacha20 ctx inp) ! i = inp ! i XOR block_at ctx (i div 64) ! (i mod 64)"
  using assms
proof (induction ctx inp arbitrary: i rule: chacha20.induct)
  case (1 ctx inp)
  let ?ctx = "ctx[12 := ctx ! 12 + 1]"
  show ?case
  proof (cases "length inp \<le> 64")
    case True
    with "1.prems" show ?thesis
      by (subst chacha20.simps) (auto simp: Let_def nth_xor_bytes block_at_0)
  next
    case long: False
    obtain c r where rec: "chacha20 ?ctx (drop 64 inp) = (c, r)" by fastforce
    have unf: "snd (chacha20 ctx inp) = xor_bytes (take 64 inp) (chacha20_block ctx) @ r"
      using long rec by (subst chacha20.simps) (auto simp: Let_def)
    show ?thesis
    proof (cases "i < 64")
      case True
      with unf long "1.prems" show ?thesis
        by (simp add: nth_append length_xor_bytes nth_xor_bytes block_at_0)
    next
      case False
      have "snd (chacha20 ?ctx (drop 64 inp)) ! (i - 64)
              = drop 64 inp ! (i - 64) XOR block_at ?ctx ((i - 64) div 64) ! ((i - 64) mod 64)"
        using "1.IH" [OF _ refl refl] long False "1.prems" by force
      moreover have "Suc ((i - 64) div 64) = i div 64" "(i - 64) mod 64 = i mod 64"
        using False by (simp_all add: le_div_geq le_mod_geq)
      ultimately show ?thesis
        using unf long False "1.prems" rec
        by (simp add: nth_append length_xor_bytes block_at_next)
    qed
  qed
qed

lemma chacha20_ctx_counter:
  assumes "length ctx = 16"
  shows "fst (chacha20 ctx inp) = ctx[12 := ctx ! 12 + of_nat ((length inp + 63) div 64)]"
  using assms
proof (induction ctx inp rule: chacha20.induct)
  case (1 ctx inp)
  let ?ctx = "ctx[12 := ctx ! 12 + 1]"
  consider "inp = []" | "inp \<noteq> []" "length inp \<le> 64" | "length inp > 64" by linarith
  then show ?case
  proof cases
    case 1
    then show ?thesis by (subst chacha20.simps) simp
  next
    case 2
    then have "(length inp + 63) div 64 = 1" by (cases inp) auto
    with 2 show ?thesis by (subst chacha20.simps) (simp add: Let_def)
  next
    case 3
    then have ne: "inp \<noteq> []" by auto
    have "fst (chacha20 ?ctx (drop 64 inp))
            = ?ctx[12 := ?ctx ! 12 + of_nat ((length (drop 64 inp) + 63) div 64)]"
      using "1.IH" [OF ne refl refl] 3 "1.prems" by simp
    moreover have "(length inp + 63) div 64 = Suc ((length inp - 64 + 63) div 64)"
      using 3 by (simp add: le_div_geq)
    ultimately show ?thesis
      using 3 ne "1.prems"
      by (subst chacha20.simps) (auto simp: Let_def ac_simps split: prod.splits)
  qed
qed

lemma chacha20_invol:
  assumes "length ctx = 16"
  shows "snd (chacha20 ctx (snd (chacha20 ctx inp))) = inp"
  using assms by (intro nth_equalityI) (simp_all add: chacha20_nth xor.assoc)

interpretation cc20: stream_cipher "\<lambda>(key, nonce) x. snd (chacha20 (chacha20_init key nonce) x)"
  by unfold_locales (auto simp: chacha20_invol)

section \<open>Counter mode\<close>

text \<open>ChaCha20 is the counter mode of its block function: output byte \<open>i\<close> is input byte
  \<open>i\<close> masked with byte \<open>i mod 64\<close> of the block whose counter word is the initial one plus
  \<open>i div 64\<close>, the length is kept, and the context is left ready for the next unused block.\<close>

lemma chacha20_counter_mode:
  assumes "length ctx = 16"
  shows "length (snd (chacha20 ctx inp)) = length inp \<and>
     (\<forall>i<length inp. snd (chacha20 ctx inp) ! i
        = inp ! i XOR chacha20_block (ctx[12 := ctx ! 12 + of_nat (i div 64)]) ! (i mod 64)) \<and>
     fst (chacha20 ctx inp) = ctx[12 := ctx ! 12 + of_nat ((length inp + 63) div 64)]"
  using assms by (simp add: chacha20_nth chacha20_ctx_counter block_at_def)

end
