(* ===== verification/Poly1305_Limbs.thy ===== *)
theory Poly1305_Limbs
  imports Poly1305
begin

text \<open>
  The 26-bit limb arithmetic of Poly1305 over the naturals: the block step multiplies and partially
  reduces without overflowing a 64-bit word, the updates absorb the message in any division, and the
  steps of \<open>poly1305_finish\<close> reduce the accumulator fully and cut it to 128 bits.
\<close>

section \<open>Words as naturals\<close>

lemma unat_of_nat_u64: "n < 2 ^ 64 \<Longrightarrow> unat (of_nat n :: u64) = n"
  by (simp add: unat_of_nat)

lemma of_nat_and26: "(of_nat n :: u64) AND 0x3ffffff = of_nat (n mod 2 ^ 26)"
proof -
  have "(0x3ffffff :: u64) = mask 26" by (simp add: mask_eq_exp_minus_1)
  then have "(of_nat n :: u64) AND 0x3ffffff = take_bit 26 (of_nat n)"
    by (simp add: take_bit_eq_mask)
  also have "\<dots> = of_nat (take_bit 26 n)" by (simp add: take_bit_of_nat)
  finally show ?thesis by (simp add: take_bit_eq_mod)
qed

lemma drop_bit_of_nat_u64:
  assumes "n < 2 ^ 64" shows "drop_bit k (of_nat n :: u64) = of_nat (n div 2 ^ k)"
proof -
  have "n div 2 ^ k < 2 ^ 64" using assms by (meson div_le_dividend le_less_trans)
  then have "unat (drop_bit k (of_nat n :: u64)) = unat (of_nat (n div 2 ^ k) :: u64)"
    using assms unfolding unat_drop_bit_eq by (simp only: unat_of_nat_u64 drop_bit_eq_div)
  then show ?thesis by (simp add: word_unat_eq_iff)
qed

lemma ucast_u8_and_ff: "(ucast (x :: u8) :: u64) AND 0xff = ucast x"
proof -
  have "(ucast x :: u64) AND mask 8 = ucast x"
    by (auto intro!: bit_word_eqI simp: bit_and_iff bit_mask_iff bit_unsigned_iff
        dest: bit_imp_le_length_u8)
  then show ?thesis by (simp add: mask_eq_exp_minus_1)
qed

lemma U8TO32_le_val:
  assumes "4 \<le> length p" shows "U8TO32 p = of_nat (le_val (take 4 p))"
proof -
  obtain a b c d q where p: "p = a # b # c # d # q"
    using assms by (auto simp: numeral_eq_Suc Suc_le_length_iff)
  have "U8TO32 p = ucast a OR push_bit 8 (ucast b OR push_bit 8 (ucast c OR push_bit 8 (ucast d)))"
    by (simp add: U8TO32_def p ucast_u8_and_ff push_bit_or)
  also have "\<dots> = ucast a + push_bit 8 (ucast b + push_bit 8 (ucast c + push_bit 8 (ucast d)))"
    by (simp only: ucast_u8_or)
  also have "\<dots> = of_nat (le_val (take 4 p))"
    by (simp add: p push_bit_eq_mult algebra_simps)
  finally show ?thesis .
qed
section \<open>The limbs as naturals\<close>

type_synonym nlimbs = "nat \<times> nat \<times> nat \<times> nat \<times> nat"

definition limbs_of :: "nlimbs \<Rightarrow> limbs" where
  "limbs_of = (\<lambda>(a, b, c, d, e). (of_nat a, of_nat b, of_nat c, of_nat d, of_nat e))"

definition nval :: "nlimbs \<Rightarrow> nat" where
  "nval = (\<lambda>(a, b, c, d, e). a + 2 ^ 26 * b + 2 ^ 52 * c + 2 ^ 78 * d + 2 ^ 104 * e)"

text \<open>The block step on naturals, after the message was added.\<close>

definition mulred :: "nlimbs \<Rightarrow> nlimbs \<Rightarrow> nlimbs" where
  "mulred = (\<lambda>(r0, r1, r2, r3, r4) (h0, h1, h2, h3, h4).
     let d0 = h0 * r0 + h1 * (r4 * 5) + h2 * (r3 * 5) + h3 * (r2 * 5) + h4 * (r1 * 5);
         d1 = h0 * r1 + h1 * r0 + h2 * (r4 * 5) + h3 * (r3 * 5) + h4 * (r2 * 5) + d0 div 2 ^ 26;
         d2 = h0 * r2 + h1 * r1 + h2 * r0 + h3 * (r4 * 5) + h4 * (r3 * 5) + d1 div 2 ^ 26;
         d3 = h0 * r3 + h1 * r2 + h2 * r1 + h3 * r0 + h4 * (r4 * 5) + d2 div 2 ^ 26;
         d4 = h0 * r4 + h1 * r3 + h2 * r2 + h3 * r1 + h4 * r0 + d3 div 2 ^ 26;
         e0 = d0 mod 2 ^ 26 + d4 div 2 ^ 26 * 5
     in (e0 mod 2 ^ 26, d1 mod 2 ^ 26 + e0 div 2 ^ 26, d2 mod 2 ^ 26, d3 mod 2 ^ 26, d4 mod 2 ^ 26))"

lemma mulred_cong:
  "\<exists>k. nval (mulred (r0, r1, r2, r3, r4) (h0, h1, h2, h3, h4)) + k * P1305
       = nval (h0, h1, h2, h3, h4) * nval (r0, r1, r2, r3, r4)"
proof -
  define d0 where "d0 = h0 * r0 + h1 * (r4 * 5) + h2 * (r3 * 5) + h3 * (r2 * 5) + h4 * (r1 * 5)"
  define d1 where "d1 = h0 * r1 + h1 * r0 + h2 * (r4 * 5) + h3 * (r3 * 5) + h4 * (r2 * 5) + d0 div 2 ^ 26"
  define d2 where "d2 = h0 * r2 + h1 * r1 + h2 * r0 + h3 * (r4 * 5) + h4 * (r3 * 5) + d1 div 2 ^ 26"
  define d3 where "d3 = h0 * r3 + h1 * r2 + h2 * r1 + h3 * r0 + h4 * (r4 * 5) + d2 div 2 ^ 26"
  define d4 where "d4 = h0 * r4 + h1 * r3 + h2 * r2 + h3 * r1 + h4 * r0 + d3 div 2 ^ 26"
  define e0 where "e0 = d0 mod 2 ^ 26 + d4 div 2 ^ 26 * 5"
  define k where "k = d4 div 2 ^ 26
     + (h1 * r4 + h2 * r3 + h3 * r2 + h4 * r1)
     + 2 ^ 26 * (h2 * r4 + h3 * r3 + h4 * r2)
     + 2 ^ 52 * (h3 * r4 + h4 * r3) + 2 ^ 78 * (h4 * r4)"
  have m: "mulred (r0, r1, r2, r3, r4) (h0, h1, h2, h3, h4)
      = (e0 mod 2 ^ 26, d1 mod 2 ^ 26 + e0 div 2 ^ 26, d2 mod 2 ^ 26, d3 mod 2 ^ 26, d4 mod 2 ^ 26)"
    unfolding mulred_def Let_def split_conv e0_def d4_def d3_def d2_def d1_def d0_def by (rule refl)
  have split: "x mod 2 ^ 26 = x - 2 ^ 26 * (x div 2 ^ 26)" "2 ^ 26 * (x div 2 ^ 26) \<le> x" for x :: nat
    by (simp_all add: minus_mult_div_eq_mod)
  have "int (nval (mulred (r0, r1, r2, r3, r4) (h0, h1, h2, h3, h4))) + int k * (2 ^ 130 - 5)
       = int (nval (h0, h1, h2, h3, h4)) * int (nval (r0, r1, r2, r3, r4))"
  proof -
    define c0 c1 c2 c3 c4 c5 where c: "c0 = int (d0 div 2 ^ 26)" "c1 = int (d1 div 2 ^ 26)"
      "c2 = int (d2 div 2 ^ 26)" "c3 = int (d3 div 2 ^ 26)" "c4 = int (d4 div 2 ^ 26)"
      "c5 = int (e0 div 2 ^ 26)"
    have i: "int (x mod 2 ^ 26) = int x - 2 ^ 26 * int (x div 2 ^ 26)" for x :: nat
      by (simp add: zmod_int zdiv_int minus_mult_div_eq_mod)
    have E: "int e0 = int d0 - 2 ^ 26 * c0 + c4 * 5"
      unfolding e0_def of_nat_add of_nat_mult i c by simp
    have D: "int d0 = int h0 * int r0 + int h1 * (int r4 * 5) + int h2 * (int r3 * 5) + int h3 * (int r2 * 5) + int h4 * (int r1 * 5)"
      "int d1 = int h0 * int r1 + int h1 * int r0 + int h2 * (int r4 * 5) + int h3 * (int r3 * 5) + int h4 * (int r2 * 5) + c0"
      "int d2 = int h0 * int r2 + int h1 * int r1 + int h2 * int r0 + int h3 * (int r4 * 5) + int h4 * (int r3 * 5) + c1"
      "int d3 = int h0 * int r3 + int h1 * int r2 + int h2 * int r1 + int h3 * int r0 + int h4 * (int r4 * 5) + c2"
      "int d4 = int h0 * int r4 + int h1 * int r3 + int h2 * int r2 + int h3 * int r1 + int h4 * int r0 + c3"
      unfolding d0_def d1_def d2_def d3_def d4_def of_nat_add of_nat_mult c by simp_all
    show ?thesis
      unfolding m nval_def k_def split_conv of_nat_add of_nat_mult i c [symmetric] E D
      by (simp add: algebra_simps)
  qed
  then have "nval (mulred (r0, r1, r2, r3, r4) (h0, h1, h2, h3, h4)) + k * P1305
      = nval (h0, h1, h2, h3, h4) * nval (r0, r1, r2, r3, r4)"
    unfolding P1305_def by (simp add: of_nat_diff flip: of_nat_eq_iff [where ?'a = int])
  then show ?thesis by blast
qed

lemma nat_field: "j + 26 \<le> 32 \<Longrightarrow> (x mod 2 ^ 32) div 2 ^ j mod 2 ^ 26 = x div 2 ^ j mod (2 ^ 26 :: nat)"
  unfolding take_bit_eq_mod [symmetric] drop_bit_eq_div [symmetric]
  by (rule bit_eqI) (auto simp: bit_take_bit_iff bit_drop_bit_eq)

lemma U8TO32_drop:
  assumes "16 \<le> length m" "k \<le> 12"
  shows "U8TO32 (drop k m) = of_nat (le_val (take 16 m) div 2 ^ (8 * k) mod 2 ^ 32)"
proof -
  have "take 4 (drop k m) = take 4 (drop k (take 16 m))"
    using assms by (simp add: take_drop min_def)
  then have "U8TO32 (drop k m) = of_nat (le_val (take 4 (drop k (take 16 m))))"
    using assms by (simp add: U8TO32_le_val)
  then show ?thesis by (simp add: le_val_take le_val_drop power_mult)
qed

definition block_limbs :: "bytes \<Rightarrow> nat \<Rightarrow> nlimbs" where
  "block_limbs m hb =
     (let L = le_val (take 16 m)
      in (L mod 2 ^ 26, L div 2 ^ 26 mod 2 ^ 26, L div 2 ^ 52 mod 2 ^ 26, L div 2 ^ 78 mod 2 ^ 26,
          L div 2 ^ 104 + hb))"

lemma le_val_16: "le_val (take 16 m) < 2 ^ 128"
proof -
  have "le_val (take 16 m) < 256 ^ length (take 16 m)" by (rule le_val_bound)
  also have "\<dots> \<le> 256 ^ 16" by (rule power_increasing) auto
  finally show ?thesis by simp
qed

lemma nval_block_limbs: "nval (block_limbs m hb) = le_val (take 16 m) + 2 ^ 104 * hb"
proof -
  have horner: "p + B * q + B ^ 2 * r + B ^ 3 * t + B ^ 4 * e = a"
    if "a = p + B * b" "b = q + B * c" "c = r + B * d" "d = t + B * e" for a b c d e p q r t B :: nat
    unfolding that by (simp add: algebra_simps power2_eq_square power3_eq_cube power4_eq_xxxx)
  have st: "x div 2 ^ a = x div 2 ^ a mod 2 ^ 26 + 2 ^ 26 * (x div 2 ^ b)"
    if "b = a + 26" for x a b :: nat
    unfolding that power_add div_mult2_eq by (rule mod_mult_div_eq [symmetric])
  have "x mod 2 ^ 26 + 2 ^ 26 * (x div 2 ^ 26 mod 2 ^ 26) + (2 ^ 26) ^ 2 * (x div 2 ^ 52 mod 2 ^ 26)
     + (2 ^ 26) ^ 3 * (x div 2 ^ 78 mod 2 ^ 26) + (2 ^ 26) ^ 4 * (x div 2 ^ 104) = x" for x :: nat
  proof -
    have s1: "x div 2 ^ 26 = x div 2 ^ 26 mod 2 ^ 26 + 2 ^ 26 * (x div 2 ^ 52)" by (rule st) simp
    have s2: "x div 2 ^ 52 = x div 2 ^ 52 mod 2 ^ 26 + 2 ^ 26 * (x div 2 ^ 78)" by (rule st) simp
    have s3: "x div 2 ^ 78 = x div 2 ^ 78 mod 2 ^ 26 + 2 ^ 26 * (x div 2 ^ 104)" by (rule st) simp
    have s0: "x = x mod 2 ^ 26 + 2 ^ 26 * (x div 2 ^ 26)" by simp
    from horner [OF s0 s1 s2 s3] show ?thesis .
  qed
  note whole = this
  have pw: "(2 ^ 26) ^ 2 = (2 ^ 52 :: nat)" "(2 ^ 26) ^ 3 = (2 ^ 78 :: nat)"
    "(2 ^ 26) ^ 4 = (2 ^ 104 :: nat)" by simp_all
  show ?thesis
    unfolding nval_def block_limbs_def Let_def split_conv distrib_left add.assoc [symmetric]
      whole [unfolded pw] ..
qed

lemma message_limbs:
  assumes "16 \<le> length m" and hb: "hib = of_nat hb" "hb = 0 \<or> hb = 2 ^ 24"
    and bl: "block_limbs m hb = (m0, m1, m2, m3, m4)"
  shows "U8TO32 (drop 0 m) AND 0x3ffffff = of_nat m0"
    and "drop_bit 2 (U8TO32 (drop 3 m)) AND 0x3ffffff = of_nat m1"
    and "drop_bit 4 (U8TO32 (drop 6 m)) AND 0x3ffffff = of_nat m2"
    and "drop_bit 6 (U8TO32 (drop 9 m)) AND 0x3ffffff = of_nat m3"
    and "drop_bit 8 (U8TO32 (drop 12 m)) OR hib = of_nat m4"
    and "m0 < 2 ^ 26" "m1 < 2 ^ 26" "m2 < 2 ^ 26" "m3 < 2 ^ 26" "m4 < 2 ^ 25"
proof -
  define L where "L = le_val (take 16 m)"
  have lt: "x mod 2 ^ 32 < 2 ^ 64" for x :: nat by (rule less_le_trans [of _ "2 ^ 32"]) auto
  have f: "drop_bit j (of_nat (x mod 2 ^ 32) :: u64) AND 0x3ffffff = of_nat (x div 2 ^ j mod 2 ^ 26)"
    if "j + 26 \<le> 32" for x j
    unfolding drop_bit_of_nat_u64 [OF lt] of_nat_and26 nat_field [OF that] ..
  have top: "L div 2 ^ 104 < 2 ^ 24"
    using le_val_16 [of m] by (simp add: L_def less_mult_imp_div_less)
  note m = bl [unfolded block_limbs_def Let_def, folded L_def, symmetric, simplified prod.inject]
  show "U8TO32 (drop 0 m) AND 0x3ffffff = of_nat m0"
    using m U8TO32_drop [OF assms(1), of 0] f [of 0 L] by (simp add: L_def)
  show "drop_bit 2 (U8TO32 (drop 3 m)) AND 0x3ffffff = of_nat m1"
    using m U8TO32_drop [OF assms(1), of 3] f [of 2 "L div 2 ^ 24"]
    by (simp add: L_def flip: div_mult2_eq)
  show "drop_bit 4 (U8TO32 (drop 6 m)) AND 0x3ffffff = of_nat m2"
    using m U8TO32_drop [OF assms(1), of 6] f [of 4 "L div 2 ^ 48"]
    by (simp add: L_def flip: div_mult2_eq)
  show "drop_bit 6 (U8TO32 (drop 9 m)) AND 0x3ffffff = of_nat m3"
    using m U8TO32_drop [OF assms(1), of 9] f [of 6 "L div 2 ^ 72"]
    by (simp add: L_def flip: div_mult2_eq)
  have "L div 2 ^ 96 < 2 ^ 32"
    using le_val_16 [of m] by (simp add: L_def less_mult_imp_div_less)
  then have t: "drop_bit 8 (U8TO32 (drop 12 m)) = of_nat (L div 2 ^ 104)"
    using U8TO32_drop [OF assms(1), of 12] drop_bit_of_nat_u64 [of "L div 2 ^ 96" 8]
    by (simp add: L_def flip: div_mult2_eq)
  have m4: "m4 = L div 2 ^ 104 + hb" using m by blast
  obtain x where x: "x = L div 2 ^ 104" "x < 2 ^ 24" using top by blast
  have "n < 24" if "bit (of_nat x :: u64) n" for n
  proof -
    have "take_bit 24 (of_nat x :: u64) = of_nat x"
      using x(2) by (simp only: take_bit_of_nat take_bit_nat_eq_self)
    with that show ?thesis by (metis bit_take_bit_iff)
  qed
  from or_push_bit_eq_add [of "of_nat x :: u64" 24 1, OF this] hb
  show "drop_bit 8 (U8TO32 (drop 12 m)) OR hib = of_nat m4"
    unfolding t m4 x(1) [symmetric] by auto
  from hb x(2) show "m4 < 2 ^ 25" unfolding m4 x(1) [symmetric] by auto
  from m show "m0 < 2 ^ 26" "m1 < 2 ^ 26" "m2 < 2 ^ 26" "m3 < 2 ^ 26" by (simp_all only:) simp_all
qed

text \<open>Bounds: the limbs of \<open>r\<close>, and of the accumulator between blocks.\<close>

definition r_bound :: "nlimbs \<Rightarrow> bool" where
  "r_bound = (\<lambda>(a, b, c, d, e). a < 2 ^ 26 \<and> b < 2 ^ 26 \<and> c < 2 ^ 26 \<and> d < 2 ^ 26 \<and> e < 2 ^ 26)"

definition h_bound :: "nlimbs \<Rightarrow> bool" where
  "h_bound = (\<lambda>(a, b, c, d, e).
     a < 2 ^ 26 \<and> b < 2 ^ 26 + 2 ^ 16 \<and> c < 2 ^ 26 \<and> d < 2 ^ 26 \<and> e < 2 ^ 26)"

definition limb_add :: "nlimbs \<Rightarrow> nlimbs \<Rightarrow> nlimbs" where
  "limb_add = (\<lambda>(a, b, c, d, e) (a', b', c', d', e'). (a + a', b + b', c + c', d + d', e + e'))"

lemma mulred_word:
  fixes r0 r1 r2 r3 r4 h0 h1 h2 h3 h4 :: nat
  assumes r: "r0 < 2 ^ 26" "r1 < 2 ^ 26" "r2 < 2 ^ 26" "r3 < 2 ^ 26" "r4 < 2 ^ 26"
    and h: "h0 < 2 ^ 28" "h1 < 2 ^ 28" "h2 < 2 ^ 28" "h3 < 2 ^ 28" "h4 < 2 ^ 28"
    and d0: "d0 = h0 * r0 + h1 * (r4 * 5) + h2 * (r3 * 5) + h3 * (r2 * 5) + h4 * (r1 * 5)"
    and d1: "d1 = h0 * r1 + h1 * r0 + h2 * (r4 * 5) + h3 * (r3 * 5) + h4 * (r2 * 5) + d0 div 2 ^ 26"
    and d2: "d2 = h0 * r2 + h1 * r1 + h2 * r0 + h3 * (r4 * 5) + h4 * (r3 * 5) + d1 div 2 ^ 26"
    and d3: "d3 = h0 * r3 + h1 * r2 + h2 * r1 + h3 * r0 + h4 * (r4 * 5) + d2 div 2 ^ 26"
    and d4: "d4 = h0 * r4 + h1 * r3 + h2 * r2 + h3 * r1 + h4 * r0 + d3 div 2 ^ 26"
  shows "d0 < 2 ^ 61" "d1 < 2 ^ 61" "d2 < 2 ^ 61" "d3 < 2 ^ 61" "d4 < 2 ^ 61"
proof -
  define M :: nat where "M = 2 ^ 28 * (2 ^ 26 * 5)"
  have p: "x * y \<le> M" "x * (y * 5) \<le> M" if "x < 2 ^ 28" "y < 2 ^ 26" for x y :: nat
    using mult_le_mono [of x "2 ^ 28" y "2 ^ 26 * 5"] mult_le_mono [of x "2 ^ 28" "y * 5" "2 ^ 26 * 5"]
      that by (simp_all add: M_def)
  have dv: "x div 2 ^ 26 \<le> x" for x :: nat by simp
  have b0: "d0 \<le> 5 * M"
    using p(1) [OF h(1) r(1)] p(2) [OF h(2) r(5)] p(2) [OF h(3) r(4)] p(2) [OF h(4) r(3)]
      p(2) [OF h(5) r(2)] unfolding d0 by linarith
  have b1: "d1 \<le> 10 * M"
    using p(1) [OF h(1) r(2)] p(1) [OF h(2) r(1)] p(2) [OF h(3) r(5)] p(2) [OF h(4) r(4)]
      p(2) [OF h(5) r(3)] b0 dv [of d0] unfolding d1 by linarith
  have b2: "d2 \<le> 15 * M"
    using p(1) [OF h(1) r(3)] p(1) [OF h(2) r(2)] p(1) [OF h(3) r(1)] p(2) [OF h(4) r(5)]
      p(2) [OF h(5) r(4)] b1 dv [of d1] unfolding d2 by linarith
  have b3: "d3 \<le> 20 * M"
    using p(1) [OF h(1) r(4)] p(1) [OF h(2) r(3)] p(1) [OF h(3) r(2)] p(1) [OF h(4) r(1)]
      p(2) [OF h(5) r(5)] b2 dv [of d2] unfolding d3 by linarith
  have b4: "d4 \<le> 25 * M"
    using p(1) [OF h(1) r(5)] p(1) [OF h(2) r(4)] p(1) [OF h(3) r(3)] p(1) [OF h(4) r(2)]
      p(1) [OF h(5) r(1)] b3 dv [of d3] unfolding d4 by linarith
  have "25 * M < 2 ^ 61" by (simp add: M_def)
  with b0 b1 b2 b3 b4 show "d0 < 2 ^ 61" "d1 < 2 ^ 61" "d2 < 2 ^ 61" "d3 < 2 ^ 61" "d4 < 2 ^ 61"
    by linarith+
qed

lemma poly1305_block_nat:
  assumes len: "16 \<le> length m" and hb: "hib = of_nat hb" "hb = 0 \<or> hb = 2 ^ 24"
    and r: "r_bound r" and h: "h_bound h"
  shows "poly1305_block (limbs_of r) hib m (limbs_of h)
           = limbs_of (mulred r (limb_add h (block_limbs m hb)))"
    and "h_bound (mulred r (limb_add h (block_limbs m hb)))"
proof -
  obtain r0 r1 r2 r3 r4 where r': "r = (r0, r1, r2, r3, r4)" by (cases r)
  obtain k0 k1 k2 k3 k4 where h': "h = (k0, k1, k2, k3, k4)" by (cases h)
  obtain m0 m1 m2 m3 m4 where bl: "block_limbs m hb = (m0, m1, m2, m3, m4)"
    by (cases "block_limbs m hb")
  note ml = message_limbs [OF len hb bl]
  define h0 h1 h2 h3 h4 where hs: "h0 = k0 + m0" "h1 = k1 + m1" "h2 = k2 + m2" "h3 = k3 + m3"
    "h4 = k4 + m4"
  define d0 where "d0 = h0 * r0 + h1 * (r4 * 5) + h2 * (r3 * 5) + h3 * (r2 * 5) + h4 * (r1 * 5)"
  define d1 where "d1 = h0 * r1 + h1 * r0 + h2 * (r4 * 5) + h3 * (r3 * 5) + h4 * (r2 * 5) + d0 div 2 ^ 26"
  define d2 where "d2 = h0 * r2 + h1 * r1 + h2 * r0 + h3 * (r4 * 5) + h4 * (r3 * 5) + d1 div 2 ^ 26"
  define d3 where "d3 = h0 * r3 + h1 * r2 + h2 * r1 + h3 * r0 + h4 * (r4 * 5) + d2 div 2 ^ 26"
  define d4 where "d4 = h0 * r4 + h1 * r3 + h2 * r2 + h3 * r1 + h4 * r0 + d3 div 2 ^ 26"
  define e0 where "e0 = d0 mod 2 ^ 26 + d4 div 2 ^ 26 * 5"
  have mr: "mulred r (limb_add h (block_limbs m hb))
      = (e0 mod 2 ^ 26, d1 mod 2 ^ 26 + e0 div 2 ^ 26, d2 mod 2 ^ 26, d3 mod 2 ^ 26, d4 mod 2 ^ 26)"
    unfolding mulred_def limb_add_def r' h' bl Let_def split_conv e0_def d4_def d3_def d2_def d1_def
      d0_def hs by (rule refl)
  have rb: "r0 < 2 ^ 26" "r1 < 2 ^ 26" "r2 < 2 ^ 26" "r3 < 2 ^ 26" "r4 < 2 ^ 26"
    using r by (simp_all add: r_bound_def r')
  have hbd: "h0 < 2 ^ 28" "h1 < 2 ^ 28" "h2 < 2 ^ 28" "h3 < 2 ^ 28" "h4 < 2 ^ 28"
    using h ml(6-10) by (simp_all add: h_bound_def h' hs)
  note db = mulred_word [OF rb hbd d0_def d1_def d2_def d3_def d4_def]
  have lt: "x < 2 ^ 61 \<Longrightarrow> x < 2 ^ 64" for x :: nat by simp
  note c = db [THEN lt, THEN drop_bit_of_nat_u64, of 26]
  have e0b: "e0 < 2 ^ 39"
    using db(5) by (simp add: e0_def)
  then have e0c: "drop_bit 26 (of_nat e0 :: u64) = of_nat (e0 div 2 ^ 26)"
    by (intro drop_bit_of_nat_u64) simp
  have a: "of_nat k0 + of_nat m0 = (of_nat h0 :: u64)" "of_nat k1 + of_nat m1 = (of_nat h1 :: u64)"
    "of_nat k2 + of_nat m2 = (of_nat h2 :: u64)" "of_nat k3 + of_nat m3 = (of_nat h3 :: u64)"
    "of_nat k4 + of_nat m4 = (of_nat h4 :: u64)" by (simp_all add: hs)
  have w: "of_nat h0 * of_nat r0 + of_nat h1 * (of_nat r4 * 5) + of_nat h2 * (of_nat r3 * 5)
      + of_nat h3 * (of_nat r2 * 5) + of_nat h4 * (of_nat r1 * 5) = (of_nat d0 :: u64)"
    "of_nat h0 * of_nat r1 + of_nat h1 * of_nat r0 + of_nat h2 * (of_nat r4 * 5)
      + of_nat h3 * (of_nat r3 * 5) + of_nat h4 * (of_nat r2 * 5) + of_nat (d0 div 2 ^ 26)
      = (of_nat d1 :: u64)"
    "of_nat h0 * of_nat r2 + of_nat h1 * of_nat r1 + of_nat h2 * of_nat r0
      + of_nat h3 * (of_nat r4 * 5) + of_nat h4 * (of_nat r3 * 5) + of_nat (d1 div 2 ^ 26)
      = (of_nat d2 :: u64)"
    "of_nat h0 * of_nat r3 + of_nat h1 * of_nat r2 + of_nat h2 * of_nat r1
      + of_nat h3 * of_nat r0 + of_nat h4 * (of_nat r4 * 5) + of_nat (d2 div 2 ^ 26)
      = (of_nat d3 :: u64)"
    "of_nat h0 * of_nat r4 + of_nat h1 * of_nat r3 + of_nat h2 * of_nat r2
      + of_nat h3 * of_nat r1 + of_nat h4 * of_nat r0 + of_nat (d3 div 2 ^ 26)
      = (of_nat d4 :: u64)"
    "of_nat (d0 mod 2 ^ 26) + of_nat (d4 div 2 ^ 26) * 5 = (of_nat e0 :: u64)"
    unfolding d0_def d1_def d2_def d3_def d4_def e0_def of_nat_add of_nat_mult of_nat_numeral
    by (rule refl)+
  show "poly1305_block (limbs_of r) hib m (limbs_of h)
           = limbs_of (mulred r (limb_add h (block_limbs m hb)))"
    unfolding poly1305_block_def limbs_of_def r' h' mr [unfolded r' h'] split_conv Let_def
      ml(1-5) a w c of_nat_and26 e0c of_nat_add by (rule refl)
  have "e0 div 2 ^ 26 < 2 ^ 16" using e0b by (simp add: less_mult_imp_div_less)
  then show "h_bound (mulred r (limb_add h (block_limbs m hb)))"
    unfolding mr h_bound_def by (simp add: add_less_mono)
qed

section \<open>Whole blocks\<close>

lemma nval_limb_add: "nval (limb_add a b) = nval a + nval b"
  by (cases a; cases b) (simp add: nval_def limb_add_def)

definition hrep :: "limbs \<Rightarrow> nat \<Rightarrow> bool" where
  "hrep l a \<longleftrightarrow> (\<exists>h. l = limbs_of h \<and> h_bound h \<and> nval h mod P1305 = a mod P1305)"

lemma hrep_zero: "hrep (0, 0, 0, 0, 0) 0"
  unfolding hrep_def
  by (rule exI [of _ "(0, 0, 0, 0, 0)"]) (simp add: limbs_of_def h_bound_def nval_def)

lemma hrep_block:
  assumes "hrep l a" and r: "r_bound r" and len: "16 \<le> length m"
    and hb: "hib = of_nat hb" "hb = 0 \<or> hb = 2 ^ 24"
  shows "hrep (poly1305_block (limbs_of r) hib m l)
           ((a + le_val (take 16 m) + 2 ^ 104 * hb) * nval r mod P1305)"
proof -
  from assms(1) obtain h where h: "l = limbs_of h" "h_bound h" "nval h mod P1305 = a mod P1305"
    by (auto simp: hrep_def)
  let ?g = "limb_add h (block_limbs m hb)"
  obtain r0 r1 r2 r3 r4 where r': "r = (r0, r1, r2, r3, r4)" by (cases r)
  obtain g0 g1 g2 g3 g4 where g': "?g = (g0, g1, g2, g3, g4)" by (cases ?g)
  from mulred_cong [of r0 r1 r2 r3 r4 g0 g1 g2 g3 g4]
  obtain k where "nval (mulred r ?g) + k * P1305 = nval ?g * nval r" unfolding r' g' by blast
  then have "nval (mulred r ?g) mod P1305 = nval ?g * nval r mod P1305"
    by (metis mod_mult_self1)
  also have "nval ?g = nval h + (le_val (take 16 m) + 2 ^ 104 * hb)"
    by (simp only: nval_limb_add nval_block_limbs)
  also have "(nval h + (le_val (take 16 m) + 2 ^ 104 * hb)) * nval r mod P1305
      = (a + (le_val (take 16 m) + 2 ^ 104 * hb)) * nval r mod P1305"
    using h(3) by (intro mod_mult_cong mod_add_cong) auto
  finally have "nval (mulred r ?g) mod P1305
      = (a + le_val (take 16 m) + 2 ^ 104 * hb) * nval r mod P1305"
    by (simp only: add.assoc)
  with poly1305_block_nat [OF len hb r h(2)] show ?thesis
    unfolding hrep_def h(1) by (metis mod_mod_trivial)
qed

lemma poly_acc_append:
  "16 dvd length xs \<Longrightarrow> poly_acc r (xs @ ys) a = poly_acc r ys (poly_acc r xs a)"
proof (induction r xs a rule: poly_acc.induct)
  case (1 r xs a)
  show ?case
  proof (cases "xs = []")
    case True
    then show ?thesis by (simp add: poly_acc.simps [of r "[]"])
  next
    case False
    with "1.prems" have l: "16 \<le> length xs" by (simp add: dvd_imp_le)
    then have "16 dvd length (drop 16 xs)" using "1.prems" by (simp add: dvd_diff_nat)
    with "1.IH" [OF False] l False show ?thesis
      by (simp add: poly_acc.simps [of r "xs @ ys"] poly_acc.simps [of r xs])
  qed
qed

lemma hrep_loop:
  assumes "hrep l a" and "r_bound r" and "16 dvd length m"
  shows "hrep (poly1305_loop (limbs_of r) (push_bit 24 1) m l) (poly_acc (nval r) m a)"
  using assms
proof (induction "limbs_of r" "push_bit 24 1 :: u64" m l arbitrary: a rule: poly1305_loop.induct)
  case (1 m l)
  show ?case
  proof (cases "16 \<le> length m")
    case True
    let ?a = "(a + le_val (take 16 m) + 2 ^ 104 * 2 ^ 24) * nval r mod P1305"
    have "hrep (poly1305_block (limbs_of r) (push_bit 24 1) m l) ?a"
      by (rule hrep_block [OF "1.prems"(1,2) True]) simp_all
    moreover have "16 dvd length (drop 16 m)" using "1.prems" True by (simp add: dvd_diff_nat)
    ultimately have "hrep (poly1305_loop (limbs_of r) (push_bit 24 1) (drop 16 m)
        (poly1305_block (limbs_of r) (push_bit 24 1) m l)) (poly_acc (nval r) (drop 16 m) ?a)"
      using "1.hyps" [OF True] "1.prems"(2) by blast
    moreover have "m \<noteq> []" "length (take 16 m) = 16" "(256 :: nat) ^ 16 = 2 ^ 104 * 2 ^ 24"
      using True by auto
    ultimately show ?thesis
      using True by (simp only: poly1305_loop.simps [of _ _ m] poly_acc.simps [of _ m] if_True if_False)
  next
    case False
    with "1.prems" dvd_imp_le [of 16 "length m"] have "m = []" by auto
    with "1.prems" show ?thesis
      by (simp add: poly1305_loop.simps [of _ _ "[]"] poly_acc.simps [of _ "[]"])
  qed
qed

section \<open>The state and its message\<close>

lemma poly1305_blocks_hrep:
  assumes "hrep (p_h st) a" "r_bound r" "p_r st = limbs_of r" "\<not> p_final st" "16 dvd length m"
  shows "hrep (p_h (poly1305_blocks st m)) (poly_acc (nval r) m a)"
  using hrep_loop [OF assms(1,2,5)] assms(3,4) by (simp add: poly1305_blocks_def Let_def)

text \<open>A state that has absorbed \<open>msg\<close>: the accumulator holds its whole blocks, the buffer the rest.\<close>

definition absorbed :: "nlimbs \<Rightarrow> u64 \<times> u64 \<times> u64 \<times> u64 \<Rightarrow> poly1305_state \<Rightarrow> bytes \<Rightarrow> bool" where
  "absorbed r pad st msg \<longleftrightarrow>
     r_bound r \<and> p_r st = limbs_of r \<and> p_pad st = pad \<and> \<not> p_final st \<and>
     p_leftover st < 16 \<and> length (p_buffer st) = 16 \<and>
     (\<exists>full. 16 dvd length full \<and> msg = full @ take (p_leftover st) (p_buffer st) \<and>
             hrep (p_h st) (poly_acc (nval r) full 0))"

lemma poly1305_blocks_simps [simp]:
  "p_r (poly1305_blocks st m) = p_r st" "p_pad (poly1305_blocks st m) = p_pad st"
  "p_final (poly1305_blocks st m) = p_final st" "p_leftover (poly1305_blocks st m) = p_leftover st"
  "p_buffer (poly1305_blocks st m) = p_buffer st"
  by (simp_all add: poly1305_blocks_def Let_def)

text \<open>The part of \<open>poly1305_update\<close> after the buffer was emptied.\<close>

lemma absorbed_tail:
  assumes abs: "absorbed r pad st msg" and lo: "p_leftover st = 0"
    and st': "st' = poly1305_update_rest st m"
  shows "absorbed r pad st' (msg @ m)"
proof -
  define full where "full = (length m div 16) * 16"
  have fl: "full \<le> length m" by (simp add: full_def)
  then have dv: "16 dvd length (take full m)" by (simp add: full_def)
  from abs lo obtain hrp: "hrep (p_h st) (poly_acc (nval r) msg 0)" and d: "16 dvd length msg"
    and b: "r_bound r" "p_r st = limbs_of r" "p_pad st = pad" "\<not> p_final st" "length (p_buffer st) = 16"
    by (auto simp: absorbed_def)
  have short: "length (drop full m) < 16" by (simp add: full_def minus_div_mult_eq_mod)
  define st3 where "st3 = (if length m \<ge> 16 then poly1305_blocks st (take full m) else st)"
  have h3: "hrep (p_h st3) (poly_acc (nval r) (msg @ take full m) 0)"
    using poly1305_blocks_hrep [OF hrp b(1,2,4) dv] hrp d
    by (auto simp: st3_def poly_acc_append full_def poly_acc.simps [of _ "[]"])
  have "st' = (if drop full m \<noteq> []
      then st3\<lparr>p_buffer := patch 0 (drop full m) (p_buffer st3), p_leftover := length (drop full m)\<rparr>
      else st3)"
    unfolding st' poly1305_update_rest_def Let_def
    using lo by (auto simp: st3_def full_def not_le)
  with h3 b lo d dv short show ?thesis
    unfolding absorbed_def
    by (auto simp: st3_def length_patch patch_def intro!: exI [of _ "msg @ take full m"])
qed

lemma absorbed_update:
  assumes abs: "absorbed r pad st msg"
  shows "absorbed r pad (poly1305_update st m) (msg @ m)"
proof (cases "p_leftover st = 0")
  case True
  then show ?thesis using absorbed_tail [OF abs] by (simp add: poly1305_update_def)
next
  case lo: False
  define lf where "lf = p_leftover st"
  define want where "want = min (16 - lf) (length m)"
  define st1 where "st1 = st\<lparr>p_buffer := patch lf (take want m) (p_buffer st), p_leftover := lf + want\<rparr>"
  from abs obtain full where full: "16 dvd length full" "msg = full @ take lf (p_buffer st)"
      "hrep (p_h st) (poly_acc (nval r) full 0)"
    and b: "r_bound r" "p_r st = limbs_of r" "p_pad st = pad" "\<not> p_final st"
      "length (p_buffer st) = 16" "lf < 16"
    by (auto simp: absorbed_def lf_def)
  have wl: "length (take want m) = want" "lf + want \<le> 16" using b by (simp_all add: want_def)
  have buf1: "length (p_buffer st1) = 16" "take (lf + want) (p_buffer st1)
      = take lf (p_buffer st) @ take want m"
    using wl b by (simp_all add: st1_def length_patch patch_def)
  show ?thesis
  proof (cases "lf + want < 16")
    case True
    then have all: "want = length m" by (auto simp: want_def)
    have "poly1305_update st m = st1"
      unfolding poly1305_update_def Let_def
      using lo True by (simp add: lf_def want_def st1_def)
    moreover have "absorbed r pad st1 (msg @ m)"
      unfolding absorbed_def
      using b full True buf1 all
      by (auto simp: st1_def intro!: exI [of _ full])
    ultimately show ?thesis by simp
  next
    case False
    with wl have sum: "lf + want = 16" by simp
    define st2 where "st2 = (poly1305_blocks st1 (p_buffer st1))\<lparr>p_leftover := 0\<rparr>"
    have "poly1305_update st m = poly1305_update_rest st2 (drop want m)"
      unfolding poly1305_update_def Let_def st2_def st1_def want_def lf_def
      using lo False by (simp add: lf_def want_def)
    moreover have "absorbed r pad st2 (msg @ take want m)"
    proof -
      have "hrep (p_h st1) (poly_acc (nval r) full 0)" using full by (simp add: st1_def)
      from poly1305_blocks_hrep [OF this b(1), of "p_buffer st1"] b buf1
      have "hrep (p_h st2) (poly_acc (nval r) (p_buffer st1) (poly_acc (nval r) full 0))"
        by (simp add: st2_def st1_def)
      then have "hrep (p_h st2) (poly_acc (nval r) (full @ p_buffer st1) 0)"
        using full by (simp add: poly_acc_append)
      moreover have "full @ p_buffer st1 = msg @ take want m"
        using buf1 sum full by simp
      ultimately show ?thesis
        unfolding absorbed_def using b full buf1
        by (auto simp: st2_def st1_def intro!: exI [of _ "full @ p_buffer st1"])
    qed
    from absorbed_tail [OF this _ refl, of "drop want m"]
    have "absorbed r pad (poly1305_update_rest st2 (drop want m)) ((msg @ take want m) @ drop want m)"
      by (simp add: st2_def)
    ultimately show ?thesis by simp
  qed
qed

section \<open>The final reduction\<close>

lemma carry_small:
  fixes h0 h1 h2 h3 h4 :: nat
  assumes h: "h0 < 2 ^ 26" "h1 < 2 ^ 26 + 2 ^ 16" "h2 < 2 ^ 26" "h3 < 2 ^ 26" "h4 < 2 ^ 26"
    and e: "h1 = 2 ^ 26 * c1 + b1" "h2 + c1 = 2 ^ 26 * c2 + b2" "h3 + c2 = 2 ^ 26 * c3 + b3"
      "h4 + c3 = 2 ^ 26 * c4 + b4" "h0 + c4 * 5 = 2 ^ 26 * c5 + b0"
    and b: "b0 < 2 ^ 26" "b1 < 2 ^ 26" "b2 < 2 ^ 26" "b3 < 2 ^ 26" "b4 < 2 ^ 26"
  shows "b1 + c5 < 2 ^ 26" "c4 \<le> 1"
proof -
  have c1: "c1 \<le> 1" using h e by simp
  then have c2: "c2 \<le> 1" using h e by simp
  then have c3: "c3 \<le> 1" using h e by simp
  then show c4: "c4 \<le> 1" using h e by simp
  then have c5: "c5 \<le> 1" using h e by simp
  show "b1 + c5 < 2 ^ 26"
  proof (cases "c4 = 0")
    case True
    then have "c5 = 0" using h e b by (cases c5) auto
    then show ?thesis using b by simp
  next
    case False
    with c4 have "c4 = 1" by simp
    then have "c3 = 1" using h e c3 by (cases "c3 = 0") auto
    then have "c2 = 1" using h e c2 by (cases "c2 = 0") auto
    then have "c1 = 1" using h e c1 by (cases "c1 = 0") auto
    with h e c5 show ?thesis by simp
  qed
qed

lemma full_carry:
  assumes h: "h_bound (h0, h1, h2, h3, h4)"
    and c: "c1 = h1 div 2 ^ 26" "c2 = (h2 + c1) div 2 ^ 26" "c3 = (h3 + c2) div 2 ^ 26"
      "c4 = (h4 + c3) div 2 ^ 26" "e0 = h0 + c4 * 5"
    and a: "a0 = e0 mod 2 ^ 26" "a1 = h1 mod 2 ^ 26 + e0 div 2 ^ 26" "a2 = (h2 + c1) mod 2 ^ 26"
      "a3 = (h3 + c2) mod 2 ^ 26" "a4 = (h4 + c3) mod 2 ^ 26"
  shows "a0 < 2 ^ 26" "a1 < 2 ^ 26" "a2 < 2 ^ 26" "a3 < 2 ^ 26" "a4 < 2 ^ 26"
    and "nval (a0, a1, a2, a3, a4) mod P1305 = nval (h0, h1, h2, h3, h4) mod P1305"
    and "c1 \<le> 1" "c2 \<le> 1" "c3 \<le> 1" "c4 \<le> 1"
proof -
  have dm: "x = 2 ^ 26 * (x div 2 ^ 26) + x mod 2 ^ 26" for x :: nat by simp
  have ml: "x mod 2 ^ 26 < 2 ^ 26" for x :: nat by simp
  note hb = h [unfolded h_bound_def split_conv]
  have e: "h1 = 2 ^ 26 * c1 + h1 mod 2 ^ 26" "h2 + c1 = 2 ^ 26 * c2 + a2"
    "h3 + c2 = 2 ^ 26 * c3 + a3" "h4 + c3 = 2 ^ 26 * c4 + a4"
    "h0 + c4 * 5 = 2 ^ 26 * (e0 div 2 ^ 26) + a0"
    using dm [of h1] dm [of "h2 + c1"] dm [of "h3 + c2"] dm [of "h4 + c3"] dm [of e0]
    by (simp_all only: a c(1-4) [symmetric] c(5) [symmetric])
  show bs: "a0 < 2 ^ 26" "a2 < 2 ^ 26" "a3 < 2 ^ 26" "a4 < 2 ^ 26" unfolding a by (rule ml)+
  show "a1 < 2 ^ 26"
    unfolding a(2) using carry_small(1) [OF _ _ _ _ _ e bs(1) ml bs(2-4)] hb by blast
  show "c4 \<le> 1" using carry_small(2) [OF _ _ _ _ _ e bs(1) ml bs(2-4)] hb by blast
  show c1: "c1 \<le> 1" using hb e(1) by simp
  show c2: "c2 \<le> 1" using hb e(2) c1 by simp
  show c3: "c3 \<le> 1" using hb e(3) c2 by simp
  have I: "int (nval (a0, a1, a2, a3, a4)) + int c4 * (2 ^ 130 - 5) = int (nval (h0, h1, h2, h3, h4))"
  proof -
    have i2: "int h2 = 2 ^ 26 * int c2 + int a2 - int c1"
      using arg_cong [OF e(2), of int] by (simp add: algebra_simps del: int_ops(8,9))
    have i3: "int h3 = 2 ^ 26 * int c3 + int a3 - int c2"
      using arg_cong [OF e(3), of int] by (simp add: algebra_simps del: int_ops(8,9))
    have i4: "int h4 = 2 ^ 26 * int c4 + int a4 - int c3"
      using arg_cong [OF e(4), of int] by (simp add: algebra_simps del: int_ops(8,9))
    have i0: "int h0 = 2 ^ 26 * int (e0 div 2 ^ 26) + int a0 - int c4 * 5"
      using arg_cong [OF e(5), of int] by (simp add: algebra_simps del: int_ops(8,9))
    show ?thesis
      unfolding nval_def split_conv of_nat_add of_nat_mult i0 i2 i3 i4 a(2) arg_cong [OF e(1), of int]
      by (simp add: algebra_simps)
  qed
  then have "nval (a0, a1, a2, a3, a4) + c4 * P1305 = nval (h0, h1, h2, h3, h4)"
    unfolding P1305_def by (simp add: of_nat_diff flip: of_nat_eq_iff [where ?'a = int])
  then show "nval (a0, a1, a2, a3, a4) mod P1305 = nval (h0, h1, h2, h3, h4) mod P1305"
    by (metis mod_mult_self1)
qed

text \<open>Subtracting the modulus when the value reaches it, decided by the sign of the top limb.\<close>

lemma select_reduced:
  assumes a: "a0 < 2 ^ 26" "a1 < 2 ^ 26" "a2 < 2 ^ 26" "a3 < 2 ^ 26" "a4 < 2 ^ 26"
    and c: "c0 = (a0 + 5) div 2 ^ 26" "c1 = (a1 + c0) div 2 ^ 26" "c2 = (a2 + c1) div 2 ^ 26"
      "c3 = (a3 + c2) div 2 ^ 26"
    and s: "s = (if a4 + c3 < 2 ^ 26 then (a0, a1, a2, a3, a4)
       else ((a0 + 5) mod 2 ^ 26, (a1 + c0) mod 2 ^ 26, (a2 + c1) mod 2 ^ 26, (a3 + c2) mod 2 ^ 26,
             a4 + c3 - 2 ^ 26))"
  shows "r_bound s" and "nval s = nval (a0, a1, a2, a3, a4) mod P1305"
    and "c0 \<le> 1" "c1 \<le> 1" "c2 \<le> 1" "c3 \<le> 1"
proof -
  define V where "V = nval (a0, a1, a2, a3, a4)"
  have dm: "x = 2 ^ 26 * (x div 2 ^ 26) + x mod 2 ^ 26" for x :: nat by simp
  have ml: "x mod 2 ^ 26 < 2 ^ 26" for x :: nat by simp
  have e: "a0 + 5 = 2 ^ 26 * c0 + (a0 + 5) mod 2 ^ 26" "a1 + c0 = 2 ^ 26 * c1 + (a1 + c0) mod 2 ^ 26"
    "a2 + c1 = 2 ^ 26 * c2 + (a2 + c1) mod 2 ^ 26" "a3 + c2 = 2 ^ 26 * c3 + (a3 + c2) mod 2 ^ 26"
    using dm [of "a0 + 5"] dm [of "a1 + c0"] dm [of "a2 + c1"] dm [of "a3 + c2"]
    by (simp_all only: c [symmetric])
  have div2: "x div 2 ^ 26 \<le> 1" if "x < 2 * 2 ^ 26" for x :: nat
    using less_mult_imp_div_less [OF that] by simp
  show c0: "c0 \<le> 1" unfolding c(1) by (rule div2) (use a in simp)
  show c1: "c1 \<le> 1" unfolding c(2) by (rule div2) (use a c0 in simp)
  show c2: "c2 \<le> 1" unfolding c(3) by (rule div2) (use a c1 in simp)
  show c3: "c3 \<le> 1" unfolding c(4) by (rule div2) (use a c2 in simp)
  define g0 g1 g2 g3 where g: "g0 = (a0 + 5) mod 2 ^ 26" "g1 = (a1 + c0) mod 2 ^ 26"
    "g2 = (a2 + c1) mod 2 ^ 26" "g3 = (a3 + c2) mod 2 ^ 26"
  have gb: "g0 < 2 ^ 26" "g1 < 2 ^ 26" "g2 < 2 ^ 26" "g3 < 2 ^ 26" unfolding g by (rule ml)+
  have sum: "V + 5 = nval (g0, g1, g2, g3, a4 + c3)"
  proof -
    have i: "int a0 = 2 ^ 26 * int c0 + int g0 - 5" "int a1 = 2 ^ 26 * int c1 + int g1 - int c0"
      "int a2 = 2 ^ 26 * int c2 + int g2 - int c1" "int a3 = 2 ^ 26 * int c3 + int g3 - int c2"
      using e [folded g, THEN arg_cong [of _ _ int]] by simp_all
    have "int (V + 5) = int (nval (g0, g1, g2, g3, a4 + c3))"
      unfolding V_def nval_def split_conv of_nat_add of_nat_mult i by (simp add: algebra_simps)
    then show ?thesis by (simp only: of_nat_eq_iff)
  qed
  have low: "nval (w, x, y, z, t) < 2 ^ 104 + 2 ^ 104 * t"
    if "w < 2 ^ 26" "x < 2 ^ 26" "y < 2 ^ 26" "z < 2 ^ 26" for w x y z t :: nat
  proof -
    have "w \<le> 67108863" "x \<le> 67108863" "y \<le> 67108863" "z \<le> 67108863" using that by simp_all
    then show ?thesis unfolding nval_def split_conv by simp
  qed
  have P: "P1305 + 5 = 2 ^ 130" by (simp add: P1305_def)
  have "r_bound s \<and> nval s = V mod P1305"
  proof (cases "a4 + c3 < 2 ^ 26")
    case True
    have m: "2 ^ 104 + 2 ^ 104 * (a4 + c3) \<le> 2 ^ 104 * (2 ^ 26 :: nat)"
      using mult_le_mono2 [OF Suc_leI [OF True], of "2 ^ 104"] by (simp only: mult_Suc_right)
    have "V + 5 < 2 ^ 104 * 2 ^ 26"
      unfolding sum by (rule less_le_trans [OF low [OF gb] m])
    then have "V < P1305" by (simp add: P1305_def)
    with True a s show ?thesis by (simp add: r_bound_def V_def)
  next
    case False
    have "a4 + c3 \<le> 2 ^ 26" using a c3 by simp
    with False have top: "a4 + c3 - 2 ^ 26 = 0" by simp
    with False have eq: "a4 + c3 = 2 ^ 26" by simp
    have "V + 5 = nval (g0, g1, g2, g3, 0) + 2 ^ 130"
      unfolding sum eq nval_def split_conv by simp
    then have v: "V = nval (g0, g1, g2, g3, 0) + P1305" using P by linarith
    moreover have "nval (g0, g1, g2, g3, 0) < P1305"
      using low [OF gb, of 0] by (simp add: P1305_def)
    ultimately have "V mod P1305 = nval (g0, g1, g2, g3, 0)" by simp
    with False s top gb g show ?thesis by (simp add: r_bound_def)
  qed
  then show "r_bound s" "nval s = nval (a0, a1, a2, a3, a4) mod P1305" by (auto simp: V_def)
qed

lemma finish_carry_nat:
  assumes h: "h_bound (h0, h1, h2, h3, h4)"
  obtains a where "finish_carry (limbs_of (h0, h1, h2, h3, h4)) = limbs_of a" "r_bound a"
    "nval a mod P1305 = nval (h0, h1, h2, h3, h4) mod P1305"
proof -
  define c1 where "c1 = h1 div 2 ^ 26"
  define c2 where "c2 = (h2 + c1) div 2 ^ 26"
  define c3 where "c3 = (h3 + c2) div 2 ^ 26"
  define c4 where "c4 = (h4 + c3) div 2 ^ 26"
  define e0 where "e0 = h0 + c4 * 5"
  note fc = full_carry [OF h c1_def c2_def c3_def c4_def e0_def refl refl refl refl refl]
  note hb = h [unfolded h_bound_def split_conv]
  have b: "h1 < 2 ^ 64" "h2 + c1 < 2 ^ 64" "h3 + c2 < 2 ^ 64" "h4 + c3 < 2 ^ 64" "e0 < 2 ^ 64"
    using hb fc(7-10) unfolding e0_def by simp_all
  note d = b [THEN drop_bit_of_nat_u64, of 26]
  have w: "of_nat h2 + of_nat c1 = (of_nat (h2 + c1) :: u64)"
    "of_nat h3 + of_nat c2 = (of_nat (h3 + c2) :: u64)"
    "of_nat h4 + of_nat c3 = (of_nat (h4 + c3) :: u64)"
    "of_nat h0 + of_nat c4 * 5 = (of_nat e0 :: u64)"
    unfolding e0_def by simp_all
  have "finish_carry (limbs_of (h0, h1, h2, h3, h4))
      = limbs_of (e0 mod 2 ^ 26, h1 mod 2 ^ 26 + e0 div 2 ^ 26, (h2 + c1) mod 2 ^ 26,
          (h3 + c2) mod 2 ^ 26, (h4 + c3) mod 2 ^ 26)"
    unfolding finish_carry_def limbs_of_def split_conv Let_def d(1) c1_def [symmetric] w(1)
      d(2) c2_def [symmetric] w(2) d(3) c3_def [symmetric] w(3) d(4) c4_def [symmetric] w(4) d(5)
      of_nat_and26 of_nat_add [of "h1 mod 2 ^ 26"] by (rule refl)
  with that fc(1-6) show ?thesis by (simp add: r_bound_def)
qed

lemma top_bit_below:
  assumes x: "x < 2 ^ 26"
  shows "drop_bit 63 (of_nat x - 2 ^ 26 :: u64) = 1"
proof -
  define N where "N = 2 ^ 64 - 2 ^ 26 + x"
  have e: "(of_nat x - 2 ^ 26 :: u64) = of_nat N" by (simp add: N_def)
  have "N < 2 ^ 64" "N div 2 ^ 63 = 1"
    using x by (simp_all add: N_def div_nat_eqI)
  then show ?thesis unfolding e by (simp only: drop_bit_of_nat_u64) simp
qed

lemma finish_select_nat:
  assumes a: "r_bound (a0, a1, a2, a3, a4)"
  obtains s where "finish_select (limbs_of (a0, a1, a2, a3, a4))
      (finish_minus_p (limbs_of (a0, a1, a2, a3, a4))) = limbs_of s"
    "r_bound s" "nval s = nval (a0, a1, a2, a3, a4) mod P1305"
proof -
  define c0 where "c0 = (a0 + 5) div 2 ^ 26"
  define c1 where "c1 = (a1 + c0) div 2 ^ 26"
  define c2 where "c2 = (a2 + c1) div 2 ^ 26"
  define c3 where "c3 = (a3 + c2) div 2 ^ 26"
  define s where "s = (if a4 + c3 < 2 ^ 26 then (a0, a1, a2, a3, a4)
       else ((a0 + 5) mod 2 ^ 26, (a1 + c0) mod 2 ^ 26, (a2 + c1) mod 2 ^ 26, (a3 + c2) mod 2 ^ 26,
             a4 + c3 - 2 ^ 26))"
  note ab = a [unfolded r_bound_def split_conv]
  from ab have "a0 < 2 ^ 26" "a1 < 2 ^ 26" "a2 < 2 ^ 26" "a3 < 2 ^ 26" "a4 < 2 ^ 26" by auto
  note sr = select_reduced [OF this c0_def c1_def c2_def c3_def s_def]
  have b: "a0 + 5 < 2 ^ 64" "a1 + c0 < 2 ^ 64" "a2 + c1 < 2 ^ 64" "a3 + c2 < 2 ^ 64"
    using ab sr(3-6) by simp_all
  note d = b [THEN drop_bit_of_nat_u64, of 26]
  have w: "of_nat a0 + 5 = (of_nat (a0 + 5) :: u64)" "of_nat a1 + of_nat c0 = (of_nat (a1 + c0) :: u64)"
    "of_nat a2 + of_nat c1 = (of_nat (a2 + c1) :: u64)"
    "of_nat a3 + of_nat c2 = (of_nat (a3 + c2) :: u64)"
    "of_nat a4 + of_nat c3 = (of_nat (a4 + c3) :: u64)" by simp_all
  have g: "finish_minus_p (limbs_of (a0, a1, a2, a3, a4))
      = (of_nat ((a0 + 5) mod 2 ^ 26), of_nat ((a1 + c0) mod 2 ^ 26), of_nat ((a2 + c1) mod 2 ^ 26),
         of_nat ((a3 + c2) mod 2 ^ 26), of_nat (a4 + c3) - push_bit 26 1)"
    unfolding finish_minus_p_def limbs_of_def split_conv Let_def w(1) d(1) c0_def [symmetric] w(2)
      d(2) c1_def [symmetric] w(3) d(3) c2_def [symmetric] w(4) d(4) c3_def [symmetric] w(5)
      of_nat_and26 by (rule refl)
  have p26: "push_bit 26 1 = (2 ^ 26 :: u64)" by (simp add: push_bit_eq_mult)
  have "finish_select (limbs_of (a0, a1, a2, a3, a4))
      (finish_minus_p (limbs_of (a0, a1, a2, a3, a4))) = limbs_of s"
  proof (cases "a4 + c3 < 2 ^ 26")
    case True
    then show ?thesis
      unfolding g p26
      unfolding finish_select_def limbs_of_def split_conv Let_def top_bit_below [OF True] s_def
      by simp
  next
    case False
    then have e: "of_nat (a4 + c3) - 2 ^ 26 = (of_nat (a4 + c3 - 2 ^ 26) :: u64)"
      by (simp add: of_nat_diff)
    have "a4 + c3 - 2 ^ 26 < 2 ^ 63" using ab sr(6) by simp
    then have t: "drop_bit 63 (of_nat (a4 + c3 - 2 ^ 26) :: u64) = 0"
      by (simp add: drop_bit_of_nat_u64)
    from False show ?thesis
      unfolding g p26
      unfolding finish_select_def limbs_of_def split_conv Let_def e t s_def by simp
  qed
  with that sr(1,2) show ?thesis by blast
qed

lemma of_nat_and32: "(of_nat n :: u64) AND 0xffffffff = of_nat (n mod 2 ^ 32)"
proof -
  have "(0xffffffff :: u64) = mask 32" by (simp add: mask_eq_exp_minus_1)
  then have "(of_nat n :: u64) AND 0xffffffff = take_bit 32 (of_nat n)"
    by (simp add: take_bit_eq_mask)
  also have "\<dots> = of_nat (take_bit 32 n)" by (simp add: take_bit_of_nat)
  finally show ?thesis by (simp add: take_bit_eq_mod)
qed

lemma of_nat_or_push:
  assumes "x < 2 ^ k"
  shows "(of_nat x OR push_bit k (of_nat y) :: u64) = of_nat (x + 2 ^ k * y)"
proof -
  have "n < k" if "bit (of_nat x :: u64) n" for n
  proof -
    have "take_bit k (of_nat x :: u64) = of_nat x"
      using assms by (simp only: take_bit_of_nat take_bit_nat_eq_self)
    with that show ?thesis by (metis bit_take_bit_iff)
  qed
  from or_push_bit_eq_add [OF this] show ?thesis by (simp add: push_bit_eq_mult mult.commute)
qed

lemma mod_pack:
  fixes x y :: nat
  assumes "x < 2 ^ k" "k + j = 32"
  shows "(x + 2 ^ k * y) mod 2 ^ 32 = x + 2 ^ k * (y mod 2 ^ j)"
proof -
  have "(2 ^ 32 :: nat) = 2 ^ k * 2 ^ j" using assms(2) by (simp flip: power_add)
  then show ?thesis using assms(1) by (simp only: mod_mult2_eq) simp
qed

definition words4_of :: "nat \<times> nat \<times> nat \<times> nat \<Rightarrow> words4" where
  "words4_of = (\<lambda>(a, b, c, d). (of_nat a, of_nat b, of_nat c, of_nat d))"

definition nval4 :: "nat \<times> nat \<times> nat \<times> nat \<Rightarrow> nat" where
  "nval4 = (\<lambda>(a, b, c, d). a + 2 ^ 32 * b + 2 ^ 64 * c + 2 ^ 96 * d)"

definition b32 :: "nat \<times> nat \<times> nat \<times> nat \<Rightarrow> bool" where
  "b32 = (\<lambda>(a, b, c, d). a < 2 ^ 32 \<and> b < 2 ^ 32 \<and> c < 2 ^ 32 \<and> d < 2 ^ 32)"

lemma finish_mod128_nat:
  assumes s: "r_bound (s0, s1, s2, s3, s4)"
  obtains p where "finish_mod128 (limbs_of (s0, s1, s2, s3, s4)) = words4_of p" "b32 p"
    "nval4 p = nval (s0, s1, s2, s3, s4) mod 2 ^ 128"
proof -
  note sb = s [unfolded r_bound_def split_conv]
  define p where "p = ((s0 + 2 ^ 26 * s1) mod 2 ^ 32, (s1 div 2 ^ 6 + 2 ^ 20 * s2) mod 2 ^ 32,
    (s2 div 2 ^ 12 + 2 ^ 14 * s3) mod 2 ^ 32, (s3 div 2 ^ 18 + 2 ^ 8 * s4) mod 2 ^ 32)"
  have dv: "x div 2 ^ j < 2 ^ k" if "x < 2 ^ 26" "k + j = 26" for x j k :: nat
    using that by (intro less_mult_imp_div_less) (simp flip: power_add)
  have v: "s0 < 2 ^ 26" "s1 div 2 ^ 6 < 2 ^ 20" "s2 div 2 ^ 12 < 2 ^ 14" "s3 div 2 ^ 18 < 2 ^ 8"
    using sb dv [of s1 20 6] dv [of s2 14 12] dv [of s3 8 18] by simp_all
  have "x < 2 ^ 26 \<Longrightarrow> x < 2 ^ 64" for x :: nat by simp
  with sb have d: "drop_bit 6 (of_nat s1 :: u64) = of_nat (s1 div 2 ^ 6)"
    "drop_bit 12 (of_nat s2 :: u64) = of_nat (s2 div 2 ^ 12)"
    "drop_bit 18 (of_nat s3 :: u64) = of_nat (s3 div 2 ^ 18)"
    using drop_bit_of_nat_u64 by blast+
  have 1: "finish_mod128 (limbs_of (s0, s1, s2, s3, s4)) = words4_of p"
    unfolding finish_mod128_def limbs_of_def words4_of_def split_conv p_def d
      of_nat_or_push [OF v(1)] of_nat_or_push [OF v(2)] of_nat_or_push [OF v(3)]
      of_nat_or_push [OF v(4)] of_nat_and32 by (rule refl)
  have 2: "b32 p" unfolding b32_def p_def split_conv by simp
  have sp: "2 ^ a * (x mod 2 ^ b) + 2 ^ c * (x div 2 ^ b) = 2 ^ a * x" if "c = a + b"
    for x a b c :: nat
    unfolding that power_add mult.assoc by (simp flip: distrib_left)
  define low where "low = s0 + 2 ^ 26 * s1 + 2 ^ 52 * s2 + 2 ^ 78 * s3"
  have "low < 2 ^ 104"
    using sb unfolding low_def by simp
  then have nv: "nval (s0, s1, s2, s3, s4) mod 2 ^ 128 = low + 2 ^ 104 * (s4 mod 2 ^ 24)"
    using mod_mult2_eq [of "low + 2 ^ 104 * s4" "2 ^ 104" "2 ^ 24"]
    unfolding nval_def split_conv low_def [symmetric] by simp
  have gen: "(a0 + 2 ^ 26 * b0) + 2 ^ 32 * (a1 + 2 ^ 20 * b1) + 2 ^ 64 * (a2 + 2 ^ 14 * b2)
      + 2 ^ 96 * (a3 + 2 ^ 8 * b3)
      = a0 + (2 ^ 26 * b0 + 2 ^ 32 * a1) + (2 ^ 52 * b1 + 2 ^ 64 * a2) + (2 ^ 78 * b2 + 2 ^ 96 * a3)
        + 2 ^ 104 * b3" for a0 a1 a2 a3 b0 b1 b2 b3 :: nat
    by simp
  have m: "(s0 + 2 ^ 26 * s1) mod 2 ^ 32 = s0 + 2 ^ 26 * (s1 mod 2 ^ 6)"
    "(s1 div 2 ^ 6 + 2 ^ 20 * s2) mod 2 ^ 32 = s1 div 2 ^ 6 + 2 ^ 20 * (s2 mod 2 ^ 12)"
    "(s2 div 2 ^ 12 + 2 ^ 14 * s3) mod 2 ^ 32 = s2 div 2 ^ 12 + 2 ^ 14 * (s3 mod 2 ^ 18)"
    "(s3 div 2 ^ 18 + 2 ^ 8 * s4) mod 2 ^ 32 = s3 div 2 ^ 18 + 2 ^ 8 * (s4 mod 2 ^ 24)"
    by (rule mod_pack [OF v(1)], simp) (rule mod_pack [OF v(2)], simp, rule mod_pack [OF v(3)], simp,
      rule mod_pack [OF v(4)], simp)
  have sp3: "2 ^ 26 * (s1 mod 2 ^ 6) + 2 ^ 32 * (s1 div 2 ^ 6) = 2 ^ 26 * s1"
    "2 ^ 52 * (s2 mod 2 ^ 12) + 2 ^ 64 * (s2 div 2 ^ 12) = 2 ^ 52 * s2"
    "2 ^ 78 * (s3 mod 2 ^ 18) + 2 ^ 96 * (s3 div 2 ^ 18) = 2 ^ 78 * s3"
    by (rule sp, simp)+
  have 3: "nval4 p = nval (s0, s1, s2, s3, s4) mod 2 ^ 128"
    unfolding nv nval4_def p_def split_conv m gen sp3 low_def by (rule refl)
  from that 1 2 3 show ?thesis by blast
qed

end
