(* ===== verification/Poly1305_Correct.thy ===== *)
theory Poly1305_Correct
  imports Poly1305_Limbs
begin

text \<open>
  Poly1305 as a whole: the pad addition, the clamped key and the closing block, put together into
  the equality of the tag with the polynomial of RFC 7539.
\<close>

section \<open>Adding the pad\<close>

lemma unat_byte_u64:
  assumes "n < 2 ^ 64"
  shows "unat (ucast (drop_bit k (of_nat n :: u64) AND 0xff) :: u8) = n div 2 ^ k mod 256"
proof -
  have "(0xff :: u64) = mask 8" by (simp add: mask_eq_exp_minus_1)
  then have a: "drop_bit k (of_nat n :: u64) AND 0xff = take_bit 8 (of_nat (n div 2 ^ k))"
    by (simp only: drop_bit_of_nat_u64 [OF assms] take_bit_eq_mask)
  have "(ucast (take_bit 8 (of_nat (n div 2 ^ k) :: u64)) :: u8) = of_nat (n div 2 ^ k)"
    by (simp only: take_bit_of_nat unsigned_of_nat take_bit_take_bit) (simp add: word_unat_eq_iff unat_of_nat take_bit_eq_mod)
  then show ?thesis unfolding a by (simp add: unat_of_nat)
qed

lemma le_val_U32TO8:
  assumes "n < 2 ^ 64" shows "le_val (U32TO8 (of_nat n)) = n mod 2 ^ 32"
proof -
  note b = unat_byte_u64 [OF assms]
  have b0: "unat (ucast ((of_nat n :: u64) AND 0xff) :: u8) = n mod 256" using b [of 0] by simp
  have h: "n mod 2 ^ 32 = n mod 256 + 256 * (n div 2 ^ 8 mod 256
      + 256 * (n div 2 ^ 16 mod 256 + 256 * (n div 2 ^ 24 mod 256 + 256 * 0)))"
  proof -
    have "n mod 2 ^ (8 + j) = n mod 256 + 256 * (n div 2 ^ 8 mod 2 ^ j)" for n j :: nat
      by (simp add: power_add mod_mult2_eq)
    from this [of n 24] this [of "n div 2 ^ 8" 16] this [of "n div 2 ^ 16" 8] show ?thesis
      by (simp flip: div_mult2_eq)
  qed
  show ?thesis unfolding h U32TO8_def le_val.simps b0 b by (rule refl)
qed

lemma finish_add_pad_nat:
  assumes p: "b32 (p0, p1, p2, p3)" and q: "b32 (q0, q1, q2, q3)"
    and f: "finish_add_pad (words4_of (p0, p1, p2, p3)) (words4_of (q0, q1, q2, q3)) = (w0, w1, w2, w3)"
  shows "le_val (U32TO8 w0 @ U32TO8 w1 @ U32TO8 w2 @ U32TO8 w3)
     = (nval4 (p0, p1, p2, p3) + nval4 (q0, q1, q2, q3)) mod 2 ^ 128"
proof -
  define f0 where "f0 = p0 + q0"
  define f1 where "f1 = p1 + q1 + f0 div 2 ^ 32"
  define f2 where "f2 = p2 + q2 + f1 div 2 ^ 32"
  define f3 where "f3 = p3 + q3 + f2 div 2 ^ 32"
  note pb = p [unfolded b32_def split_conv] and qb = q [unfolded b32_def split_conv]
  have dv: "x div 2 ^ 32 \<le> 4" if "x < 2 ^ 34" for x :: nat
  proof -
    have "x < 4 * 2 ^ 32" using that by simp
    then show ?thesis using less_mult_imp_div_less by fastforce
  qed
  have b0: "f0 < 2 ^ 34" using pb qb by (simp add: f0_def)
  have b1: "f1 < 2 ^ 34" using pb qb dv [OF b0] by (simp add: f1_def)
  have b2: "f2 < 2 ^ 34" using pb qb dv [OF b1] by (simp add: f2_def)
  have b3: "f3 < 2 ^ 34" using pb qb dv [OF b2] by (simp add: f3_def)
  have lt: "x < 2 ^ 34 \<Longrightarrow> x < 2 ^ 64" for x :: nat by simp
  note b = b0 [THEN lt] b1 [THEN lt] b2 [THEN lt] b3 [THEN lt]
  note d = b [THEN drop_bit_of_nat_u64, of 32]
  have w: "of_nat p0 + of_nat q0 = (of_nat f0 :: u64)"
    "of_nat p1 + of_nat q1 + of_nat (f0 div 2 ^ 32) = (of_nat f1 :: u64)"
    "of_nat p2 + of_nat q2 + of_nat (f1 div 2 ^ 32) = (of_nat f2 :: u64)"
    "of_nat p3 + of_nat q3 + of_nat (f2 div 2 ^ 32) = (of_nat f3 :: u64)"
    unfolding f0_def f1_def f2_def f3_def of_nat_add by (rule refl)+
  have ws: "w0 = of_nat f0" "w1 = of_nat f1" "w2 = of_nat f2" "w3 = of_nat f3"
    using f unfolding finish_add_pad_def words4_of_def split_conv Let_def w(1) d(1) w(2) d(2) w(3)
      d(3) w(4) by blast+
  define r0 r1 r2 r3 where r: "r0 = f0 mod 2 ^ 32" "r1 = f1 mod 2 ^ 32" "r2 = f2 mod 2 ^ 32"
    "r3 = f3 mod 2 ^ 32"
  define c0 c1 c2 c3 where c: "c0 = f0 div 2 ^ 32" "c1 = f1 div 2 ^ 32" "c2 = f2 div 2 ^ 32"
    "c3 = f3 div 2 ^ 32"
  have dm: "x = x mod 2 ^ 32 + 2 ^ 32 * (x div 2 ^ 32)" for x :: nat by simp
  have e: "p0 + q0 = r0 + 2 ^ 32 * c0" "p1 + q1 + c0 = r1 + 2 ^ 32 * c1"
    "p2 + q2 + c1 = r2 + 2 ^ 32 * c2" "p3 + q3 + c2 = r3 + 2 ^ 32 * c3"
    using dm [of f0] dm [of f1] dm [of f2] dm [of f3]
    by (simp_all only: r c f0_def [symmetric] f1_def [symmetric] f2_def [symmetric] f3_def [symmetric])
  have "length (U32TO8 v) = 4" for v by (simp add: U32TO8_def)
  then have "le_val (U32TO8 w0 @ U32TO8 w1 @ U32TO8 w2 @ U32TO8 w3)
      = r0 + 256 ^ 4 * (r1 + 256 ^ 4 * (r2 + 256 ^ 4 * r3))"
    unfolding le_val_append ws r by (simp only: le_val_U32TO8 b)
  also have "\<dots> = nval4 (r0, r1, r2, r3)" by (simp add: nval4_def)
  finally have lv: "le_val (U32TO8 w0 @ U32TO8 w1 @ U32TO8 w2 @ U32TO8 w3) = nval4 (r0, r1, r2, r3)" .
  have sum: "nval4 (p0, p1, p2, p3) + nval4 (q0, q1, q2, q3) = nval4 (r0, r1, r2, r3) + 2 ^ 128 * c3"
  proof -
    have "int p0 = int r0 + 2 ^ 32 * int c0 - int q0" "int p1 = int r1 + 2 ^ 32 * int c1 - int q1 - int c0"
      "int p2 = int r2 + 2 ^ 32 * int c2 - int q2 - int c1" "int p3 = int r3 + 2 ^ 32 * int c3 - int q3 - int c2"
      using e [THEN arg_cong [of _ _ int]] by simp_all
    then have "int (nval4 (p0, p1, p2, p3) + nval4 (q0, q1, q2, q3))
        = int (nval4 (r0, r1, r2, r3) + 2 ^ 128 * c3)"
      unfolding nval4_def split_conv of_nat_add of_nat_mult by (simp add: algebra_simps)
    then show ?thesis by (simp only: of_nat_eq_iff)
  qed
  have "r0 < 2 ^ 32" "r1 < 2 ^ 32" "r2 < 2 ^ 32" "r3 < 2 ^ 32" unfolding r by simp_all
  then have "nval4 (r0, r1, r2, r3) < 2 ^ 128" unfolding nval4_def split_conv by simp
  with lv sum show ?thesis by (simp only: mod_mult_self2) (simp only: mod_less)
qed

section \<open>The key\<close>

lemma nat_and_split:
  fixes a b x y :: nat
  assumes "a < 2 ^ k" "b < 2 ^ k"
  shows "(a + 2 ^ k * x) AND (b + 2 ^ k * y) = (a AND b) + 2 ^ k * (x AND y)"
proof -
  let ?m = "a + 2 ^ k * x" and ?n = "b + 2 ^ k * y"
  have t: "take_bit k ?m = a" "take_bit k ?n = b" "drop_bit k ?m = x" "drop_bit k ?n = y"
    using assms by (simp_all add: take_bit_eq_mod drop_bit_eq_div)
  have "?m AND ?n = take_bit k (?m AND ?n) + 2 ^ k * drop_bit k (?m AND ?n)"
    by (simp add: take_bit_eq_mod drop_bit_eq_div)
  then show ?thesis by (simp only: take_bit_and drop_bit_and t)
qed

lemma nat_and_lt:
  assumes "(c :: nat) < 2 ^ k" shows "x mod 2 ^ k AND c = x AND c"
proof -
  have "n < k" if "bit c n" for n
    using that assms by (metis bit_take_bit_iff take_bit_nat_eq_self)
  then show ?thesis
    unfolding take_bit_eq_mod [symmetric] by (auto intro!: bit_eqI simp: bit_and_iff bit_take_bit_iff)
qed

lemma nat_and_bound:
  assumes "(c :: nat) < 2 ^ k" shows "x AND c < 2 ^ k"
proof -
  have "take_bit k (x AND c) = take_bit k x AND c"
    by (simp only: take_bit_and take_bit_nat_eq_self [OF assms])
  then have "take_bit k (x AND c) = x AND c"
    using nat_and_lt [OF assms, of x] by (simp only: take_bit_eq_mod)
  then show ?thesis using take_bit_nat_less_exp [of k "x AND c"] by (simp only:)
qed

lemma and_peel:
  fixes x b y :: nat
  assumes "b < 2 ^ 26" shows "x AND (b + 2 ^ 26 * y) = (x AND b) + 2 ^ 26 * (x div 2 ^ 26 AND y)"
proof -
  have "x = x mod 2 ^ 26 + 2 ^ 26 * (x div 2 ^ 26)" by simp
  then have "x AND (b + 2 ^ 26 * y) = (x mod 2 ^ 26 AND b) + 2 ^ 26 * (x div 2 ^ 26 AND y)"
    using nat_and_split [of "x mod 2 ^ 26" 26 b "x div 2 ^ 26" y] assms by simp
  then show ?thesis by (simp only: nat_and_lt [OF assms])
qed

definition clamped :: "nat \<Rightarrow> nlimbs" where
  "clamped L = (L AND 0x3ffffff, L div 2 ^ 26 AND 0x3ffff03, L div 2 ^ 52 AND 0x3ffc0ff,
     L div 2 ^ 78 AND 0x3f03fff, L div 2 ^ 104 AND 0x00fffff)"

lemma nval_clamped: "nval (clamped L) = clamp_r L"
proof -
  have M: "(0x0ffffffc0ffffffc0ffffffc0fffffff :: nat) = 0x3ffffff + 2 ^ 26 * (0x3ffff03
      + 2 ^ 26 * (0x3ffc0ff + 2 ^ 26 * (0x3f03fff + 2 ^ 26 * 0x00fffff)))" by simp
  have c: "(0x3ffffff :: nat) < 2 ^ 26" "(0x3ffff03 :: nat) < 2 ^ 26" "(0x3ffc0ff :: nat) < 2 ^ 26"
    "(0x3f03fff :: nat) < 2 ^ 26" by simp_all
  have d: "L div 2 ^ 26 div 2 ^ 26 = L div 2 ^ 52" "L div 2 ^ 52 div 2 ^ 26 = L div 2 ^ 78"
    "L div 2 ^ 78 div 2 ^ 26 = L div 2 ^ 104" by (simp_all flip: div_mult2_eq)
  have g: "a + 2 ^ 26 * (b + 2 ^ 26 * (c + 2 ^ 26 * (d + 2 ^ 26 * e)))
      = a + 2 ^ 26 * b + 2 ^ 52 * c + 2 ^ 78 * d + 2 ^ 104 * e" for a b c d e :: nat by simp
  show ?thesis
    unfolding clamp_r_def M c [THEN and_peel] d
    unfolding g nval_def clamped_def split_conv by (rule refl)
qed

lemma r_bound_clamped: "r_bound (clamped L)"
  unfolding r_bound_def clamped_def split_conv by (intro conjI nat_and_bound) simp_all

lemma of_nat_and_u64: "(of_nat a AND of_nat b :: u64) = of_nat (a AND b)"
  by (simp add: of_nat_and_eq)

lemma key_field:
  assumes "j + 26 \<le> 32" "c < 2 ^ 26"
  shows "drop_bit j (of_nat (x mod 2 ^ 32) :: u64) AND of_nat c = of_nat (x div 2 ^ j AND c)"
proof -
  have "x mod 2 ^ 32 < 2 ^ 64" by (rule less_le_trans [of _ "2 ^ 32"]) auto
  then have "drop_bit j (of_nat (x mod 2 ^ 32) :: u64) AND of_nat c
      = of_nat (x mod 2 ^ 32 div 2 ^ j AND c)"
    by (simp only: drop_bit_of_nat_u64 of_nat_and_u64)
  also have "x mod 2 ^ 32 div 2 ^ j AND c = x mod 2 ^ 32 div 2 ^ j mod 2 ^ 26 AND c"
    by (rule nat_and_lt [OF assms(2), symmetric])
  also have "\<dots> = x div 2 ^ j AND c"
    unfolding nat_field [OF assms(1)] by (rule nat_and_lt [OF assms(2)])
  finally show ?thesis .
qed

lemma init_r:
  assumes "16 \<le> length key"
  shows "p_r (poly1305_init key) = limbs_of (clamped (le_val (take 16 key)))"
proof -
  define L where "L = le_val (take 16 key)"
  note u = U8TO32_drop [OF assms, folded L_def]
  have d: "L div 2 ^ (8 * 3) div 2 ^ 2 = L div 2 ^ 26" "L div 2 ^ (8 * 6) div 2 ^ 4 = L div 2 ^ 52"
    "L div 2 ^ (8 * 9) div 2 ^ 6 = L div 2 ^ 78" "L div 2 ^ (8 * 12) div 2 ^ 8 = L div 2 ^ 104"
    by (simp_all flip: div_mult2_eq)
  have f0: "U8TO32 (drop 0 key) AND 0x3ffffff = of_nat (L AND 0x3ffffff)"
    using key_field [of 0 "0x3ffffff" L] u [of 0] by simp
  have f1: "drop_bit 2 (U8TO32 (drop 3 key)) AND 0x3ffff03 = of_nat (L div 2 ^ 26 AND 0x3ffff03)"
    using key_field [of 2 "0x3ffff03" "L div 2 ^ (8 * 3)"] u [of 3] d(1) by simp
  have f2: "drop_bit 4 (U8TO32 (drop 6 key)) AND 0x3ffc0ff = of_nat (L div 2 ^ 52 AND 0x3ffc0ff)"
    using key_field [of 4 "0x3ffc0ff" "L div 2 ^ (8 * 6)"] u [of 6] d(2) by simp
  have f3: "drop_bit 6 (U8TO32 (drop 9 key)) AND 0x3f03fff = of_nat (L div 2 ^ 78 AND 0x3f03fff)"
    using key_field [of 6 "0x3f03fff" "L div 2 ^ (8 * 9)"] u [of 9] d(3) by simp
  have f4: "drop_bit 8 (U8TO32 (drop 12 key)) AND 0x00fffff = of_nat (L div 2 ^ 104 AND 0x00fffff)"
  proof -
    have l: "L div 2 ^ (8 * 12) < 2 ^ 32"
      using le_val_16 [of key] unfolding L_def by (intro less_mult_imp_div_less) simp
    then have "drop_bit 8 (of_nat (L div 2 ^ (8 * 12) mod 2 ^ 32) :: u64) = of_nat (L div 2 ^ 104)"
      by (subst mod_less, assumption, subst drop_bit_of_nat_u64, simp, simp only: d)
    then have "drop_bit 8 (U8TO32 (drop 12 key)) = of_nat (L div 2 ^ 104)"
      using u [of 12] by (simp only: order.refl)
    then show ?thesis using of_nat_and_u64 [of "L div 2 ^ 104" "0x00fffff"] by simp
  qed
  show ?thesis
    unfolding poly1305_init_def poly1305_state.simps f0 f1 f2 f3 f4 clamped_def limbs_of_def split_conv
      L_def by (rule refl)
qed

definition pads :: "bytes \<Rightarrow> nat \<times> nat \<times> nat \<times> nat" where
  "pads key = (let Q = le_val (slice 16 16 key)
     in (Q mod 2 ^ 32, Q div 2 ^ 32 mod 2 ^ 32, Q div 2 ^ 64 mod 2 ^ 32, Q div 2 ^ 96 mod 2 ^ 32))"

lemma init_pad:
  assumes "length key = 32" shows "p_pad (poly1305_init key) = words4_of (pads key)"
proof -
  have "16 \<le> length (drop 16 key)" using assms by simp
  note u = U8TO32_drop [OF this, folded slice_def]
  show ?thesis
    using u [of 0] u [of 4] u [of 8] u [of 12]
    by (simp add: poly1305_init_def pads_def words4_of_def Let_def)
qed

lemma b32_pads: "b32 (pads key)"
  unfolding b32_def pads_def Let_def split_conv by simp

lemma nval4_pads:
  assumes "length key = 32" shows "nval4 (pads key) = le_val (slice 16 16 key)"
proof -
  define Q where "Q = le_val (slice 16 16 key)"
  have "Q < 256 ^ length (slice 16 16 key)" unfolding Q_def by (rule le_val_bound)
  then have "Q < 2 ^ 128" using assms by (simp add: slice_def)
  then have top: "Q div 2 ^ 96 < 2 ^ 32" by (intro less_mult_imp_div_less) simp
  have st: "x div 2 ^ a = x div 2 ^ a mod 2 ^ 32 + 2 ^ 32 * (x div 2 ^ b)"
    if "b = a + 32" for x a b :: nat
    unfolding that power_add div_mult2_eq by (rule mod_mult_div_eq [symmetric])
  have g: "a + 2 ^ 32 * (b + 2 ^ 32 * (c + 2 ^ 32 * d)) = a + 2 ^ 32 * b + 2 ^ 64 * c + 2 ^ 96 * d"
    for a b c d :: nat by simp
  have 0: "Q = Q mod 2 ^ 32 + 2 ^ 32 * (Q div 2 ^ 32)" by simp
  have 1: "Q div 2 ^ 32 = Q div 2 ^ 32 mod 2 ^ 32 + 2 ^ 32 * (Q div 2 ^ 64)" by (rule st) simp
  have 2: "Q div 2 ^ 64 = Q div 2 ^ 64 mod 2 ^ 32 + 2 ^ 32 * (Q div 2 ^ 96)" by (rule st) simp
  have "Q = Q mod 2 ^ 32 + 2 ^ 32 * (Q div 2 ^ 32 mod 2 ^ 32 + 2 ^ 32 * (Q div 2 ^ 64 mod 2 ^ 32
      + 2 ^ 32 * (Q div 2 ^ 96 mod 2 ^ 32)))"
    unfolding mod_less [OF top] 2 [symmetric] 1 [symmetric] 0 [symmetric] by (rule refl)
  then show ?thesis
    unfolding g nval4_def pads_def Q_def Let_def split_conv by (rule sym)
qed

section \<open>Finishing\<close>

lemma hrep_finish:
  assumes "hrep l a" and q: "b32 (q0, q1, q2, q3)"
    and f: "finish_add_pad (finish_mod128 (finish_select (finish_carry l)
      (finish_minus_p (finish_carry l)))) (words4_of (q0, q1, q2, q3)) = (w0, w1, w2, w3)"
  shows "le_val (U32TO8 w0 @ U32TO8 w1 @ U32TO8 w2 @ U32TO8 w3)
     = (a mod P1305 + nval4 (q0, q1, q2, q3)) mod 2 ^ 128"
proof -
  from assms(1) obtain h where h: "l = limbs_of h" "h_bound h" "nval h mod P1305 = a mod P1305"
    by (auto simp: hrep_def)
  obtain h0 h1 h2 h3 h4 where h': "h = (h0, h1, h2, h3, h4)" by (cases h)
  from finish_carry_nat [OF h(2) [unfolded h']] obtain b where
    b: "finish_carry l = limbs_of b" "r_bound b" "nval b mod P1305 = a mod P1305"
    using h h' by metis
  obtain b0 b1 b2 b3 b4 where b': "b = (b0, b1, b2, b3, b4)" by (cases b)
  from finish_select_nat [OF b(2) [unfolded b']] obtain s where
    s: "finish_select (finish_carry l) (finish_minus_p (finish_carry l)) = limbs_of s" "r_bound s"
      "nval s = a mod P1305"
    using b b' by metis
  obtain s0 s1 s2 s3 s4 where s': "s = (s0, s1, s2, s3, s4)" by (cases s)
  from finish_mod128_nat [OF s(2) [unfolded s']] obtain p where
    p: "finish_mod128 (limbs_of s) = words4_of p" "b32 p" "nval4 p = a mod P1305 mod 2 ^ 128"
    using s s' by metis
  obtain p0 p1 p2 p3 where p': "p = (p0, p1, p2, p3)" by (cases p)
  from finish_add_pad_nat [OF p(2) [unfolded p'] q f [unfolded s(1) p(1) p']]
  have "le_val (U32TO8 w0 @ U32TO8 w1 @ U32TO8 w2 @ U32TO8 w3)
      = (nval4 p + nval4 (q0, q1, q2, q3)) mod 2 ^ 128" unfolding p' .
  then show ?thesis unfolding p(3) by (simp only: mod_add_left_eq)
qed

lemma le_val_replicate_0: "le_val (replicate n 0) = 0"
  by (induction n) simp_all

lemma poly_acc_less: "a < P1305 \<Longrightarrow> poly_acc r m a < P1305"
proof (induction r m a rule: poly_acc.induct)
  case (1 r m a)
  then show ?case
    by (cases "m = []") (simp_all add: poly_acc.simps [of r m] poly_acc.simps [of r "[]"] P1305_def)
qed

lemma poly1305_finish_absorbed:
  assumes abs: "absorbed r pad st msg" and pad: "pad = words4_of (q0, q1, q2, q3)"
    and q: "b32 (q0, q1, q2, q3)"
  shows "le_val (fst (poly1305_finish st))
      = (poly_acc (nval r) msg 0 + nval4 (q0, q1, q2, q3)) mod 2 ^ 128"
    and "length (fst (poly1305_finish st)) = 16"
proof -
  define lo where "lo = p_leftover st"
  from abs obtain full where full: "16 dvd length full" "msg = full @ take lo (p_buffer st)"
      "hrep (p_h st) (poly_acc (nval r) full 0)"
    and b: "r_bound r" "p_r st = limbs_of r" "p_pad st = pad" "length (p_buffer st) = 16" "lo < 16"
    by (auto simp: absorbed_def lo_def)
  define st' where "st' = (if lo = 0 then st
     else let b = patch lo (1 # replicate (15 - lo) 0) (p_buffer st);
              st1 = st\<lparr>p_buffer := b, p_final := True\<rparr>
          in poly1305_blocks st1 (p_buffer st1))"
  have pad': "p_pad st' = pad" using b by (simp add: st'_def Let_def)
  have hr: "hrep (p_h st') (poly_acc (nval r) msg 0)"
  proof (cases "lo = 0")
    case True
    then show ?thesis using full by (simp add: st'_def)
  next
    case False
    define rest where "rest = take lo (p_buffer st)"
    have rl: "length rest = lo" using b by (simp add: rest_def)
    define bf where "bf = rest @ 1 # replicate (15 - lo) 0"
    have bl: "length bf = 16" using rl b by (simp add: bf_def)
    have bfp: "patch lo (1 # replicate (15 - lo) 0) (p_buffer st) = bf"
      using b by (simp add: patch_def bf_def rest_def)
    have lv: "le_val bf = le_val rest + 256 ^ lo"
      by (simp add: bf_def le_val_append le_val_replicate_0 rl)
    have "p_h st' = poly1305_loop (limbs_of r) 0 bf (p_h st)"
      using False b by (simp add: st'_def Let_def poly1305_blocks_def bfp)
    also have "\<dots> = poly1305_block (limbs_of r) 0 bf (p_h st)"
      using bl by (simp add: poly1305_loop.simps [of _ _ bf] poly1305_loop.simps [of _ _ "[]"])
    finally have "hrep (p_h st')
        ((poly_acc (nval r) full 0 + le_val (take 16 bf) + 2 ^ 104 * 0) * nval r mod P1305)"
      using hrep_block [OF full(3) b(1), of bf 0 0] bl by simp
    moreover have "poly_acc (nval r) msg 0 = poly_acc (nval r) rest (poly_acc (nval r) full 0)"
      unfolding full(2) rest_def by (rule poly_acc_append [OF full(1)])
    moreover have "rest \<noteq> []" "take 16 rest = rest" "drop 16 rest = []" using False rl b by auto
    ultimately show ?thesis
      using lv bl rl
      by (simp add: poly_acc.simps [of _ rest] poly_acc.simps [of _ "[]"] add.assoc)
  qed
  obtain w0 w1 w2 w3 where w: "finish_add_pad (finish_mod128 (finish_select (finish_carry (p_h st'))
      (finish_minus_p (finish_carry (p_h st'))))) pad = (w0, w1, w2, w3)"
    by (metis surj_pair)
  then have fin: "fst (poly1305_finish st) = U32TO8 w0 @ U32TO8 w1 @ U32TO8 w2 @ U32TO8 w3"
    using pad' unfolding poly1305_finish_def lo_def [symmetric] st'_def [symmetric]
    by (simp add: Let_def)
  show "length (fst (poly1305_finish st)) = 16" unfolding fin by (simp add: U32TO8_def)
  have "poly_acc (nval r) msg 0 < P1305" by (rule poly_acc_less) (simp add: P1305_def)
  then show "le_val (fst (poly1305_finish st))
      = (poly_acc (nval r) msg 0 + nval4 (q0, q1, q2, q3)) mod 2 ^ 128"
    unfolding fin using hrep_finish [OF hr q w [unfolded pad]] by (simp only: mod_less)
qed

lemma absorbed_init:
  assumes "length key = 32"
  shows "absorbed (clamped (le_val (take 16 key))) (words4_of (pads key)) (poly1305_init key) []"
proof -
  have f: "p_leftover (poly1305_init key) = 0" "p_buffer (poly1305_init key) = replicate 16 0"
    "p_final (poly1305_init key) = False" "p_h (poly1305_init key) = (0, 0, 0, 0, 0)"
    by (simp_all add: poly1305_init_def)
  have "16 \<le> length key" using assms by simp
  from init_r [OF this] init_pad [OF assms] f hrep_zero r_bound_clamped show ?thesis
    unfolding absorbed_def by (auto simp: poly_acc.simps [of _ "[]"])
qed

interpretation poly: incremental_digest
  "\<lambda>key. length key = 32" poly1305_init poly1305_update
  "\<lambda>st. (length (fst (poly1305_finish st)), le_val (fst (poly1305_finish st)))"
  "\<lambda>key m. (16, poly1305_ref key m)"
  "\<lambda>key. absorbed (clamped (le_val (take 16 key))) (words4_of (pads key))"
proof
  fix key :: bytes and st m
  assume key: "length key = 32"
    and a: "absorbed (clamped (le_val (take 16 key))) (words4_of (pads key)) st m"
  obtain q0 q1 q2 q3 where q: "pads key = (q0, q1, q2, q3)" by (cases "pads key")
  note fin = poly1305_finish_absorbed [OF a, unfolded q, OF refl b32_pads [of key, unfolded q]]
  have "nval4 (q0, q1, q2, q3) = le_val (slice 16 16 key)" using nval4_pads [OF key] q by simp
  then show "(length (fst (poly1305_finish st)), le_val (fst (poly1305_finish st)))
      = (16, poly1305_ref key m)"
    unfolding fin poly1305_ref_def nval_clamped by simp
qed (auto intro: absorbed_init absorbed_update)

section \<open>Properties\<close>

text \<open>C10.  Poly1305: for every 32-byte key and every division of a message into update calls, the
  limb arithmetic ends in the 16-byte tag whose little-endian value is the polynomial of RFC 7539
  modulo \<open>2 ^ 130 - 5\<close> plus the pad modulo \<open>2 ^ 128\<close>; no intermediate sum or product overflows.\<close>

theorem poly1305_correct:
  assumes "length key = 32"
  shows "length (fst (poly1305_finish (fold (\<lambda>m st. poly1305_update st m) chunks (poly1305_init key))))
      = 16 \<and>
    le_val (fst (poly1305_finish (fold (\<lambda>m st. poly1305_update st m) chunks (poly1305_init key))))
      = poly1305_ref key (concat chunks)"
  using poly.finish_fold [OF assms, of chunks] by simp

theorem poly1305_correct_witness:
  "length (replicate 32 (0 :: u8)) = 32 \<and>
   length (fst (poly1305_finish (poly1305_update (poly1305_update (poly1305_init (replicate 32 0))
     [1, 2]) [3]))) = 16 \<and>
   le_val (fst (poly1305_finish (poly1305_update (poly1305_update (poly1305_init (replicate 32 0))
     [1, 2]) [3]))) = poly1305_ref (replicate 32 0) [1, 2, 3]"
  using poly1305_correct [of "replicate 32 0" "[[1, 2], [3]]"] by simp

end
