(* ===== verification/Aead.thy ===== *)
theory Aead
  imports ChaCha20 Poly1305_Correct
begin

text \<open>
  \<open>crypto/chacha20poly1305.c\<close>: the two AEAD constructions.  Lengths are naturals; the callers'
  buffers are far below \<open>2 ^ 32\<close> bytes, so the conversions of a length to \<open>uint32_t\<close> (the stream
  cipher's argument) and to \<open>int\<close> (\<open>dst_len\<close>) keep it.  The padding is computed with the 64-bit
  arithmetic and the 32-bit mask of the source.  Decryption returns \<open>None\<close> where the C function
  returns \<open>false\<close>; the destination is not written then.
\<close>

section \<open>The code\<close>

definition POLY1305_MAC_SIZE :: nat where
  "POLY1305_MAC_SIZE = 16"

definition generate_poly1305_key :: "bytes \<Rightarrow> u64 \<Rightarrow> poly1305_state \<times> chacha20_ctx" where
  "generate_poly1305_key key nonce =
     (let chacha20_state = chacha20_init key nonce;
          (chacha20_state, block) = chacha20 chacha20_state (replicate 32 0)
      in (poly1305_init block, chacha20_state))"

text \<open>\<open>poly1305_update(&st, zero, padded_len - len)\<close> with \<open>padded_len = (len + 15) & 0xFFFFFFF0\<close>.\<close>

definition poly1305_pad :: "poly1305_state \<Rightarrow> nat \<Rightarrow> poly1305_state" where
  "poly1305_pad st len =
     (let padded_len = (of_nat len + 15) AND 0xFFFFFFF0 :: u64
      in poly1305_update st (replicate (unat (padded_len - of_nat len)) 0))"

text \<open>The sequence of updates both directions run over the additional data and the ciphertext.\<close>

definition poly1305_aead_mac :: "poly1305_state \<Rightarrow> bytes \<Rightarrow> bytes \<Rightarrow> bytes" where
  "poly1305_aead_mac st ad ct =
     (let st = poly1305_update st ad;
          st = poly1305_pad st (length ad);
          st = poly1305_update st ct;
          st = poly1305_pad st (length ct);
          st = poly1305_update st (U64TO8_LITTLE (of_nat (length ad)));
          st = poly1305_update st (U64TO8_LITTLE (of_nat (length ct)))
      in fst (poly1305_finish st))"

definition chacha20poly1305_encrypt :: "bytes \<Rightarrow> bytes \<Rightarrow> u64 \<Rightarrow> bytes \<Rightarrow> bytes" where
  "chacha20poly1305_encrypt src ad nonce key =
     (let (poly1305_state, chacha20_state) = generate_poly1305_key key nonce;
          dst = snd (chacha20 chacha20_state src)
      in dst @ poly1305_aead_mac poly1305_state ad dst)"

definition chacha20poly1305_decrypt :: "bytes \<Rightarrow> bytes \<Rightarrow> u64 \<Rightarrow> bytes \<Rightarrow> bytes option" where
  "chacha20poly1305_decrypt src ad nonce key =
     (if length src \<ge> POLY1305_MAC_SIZE then
        let dst_len = length src - POLY1305_MAC_SIZE;
            (poly1305_state, chacha20_state) = generate_poly1305_key key nonce;
            mac = poly1305_aead_mac poly1305_state ad (take dst_len src)
        in if crypto_equal mac (drop dst_len src) POLY1305_MAC_SIZE
           then Some (snd (chacha20 chacha20_state (take dst_len src)))
           else None
      else None)"

definition xchacha20poly1305_encrypt :: "bytes \<Rightarrow> bytes \<Rightarrow> bytes \<Rightarrow> bytes \<Rightarrow> bytes" where
  "xchacha20poly1305_encrypt src ad nonce key =
     (let new_nonce = U8TO64_LITTLE (drop 16 nonce);
          subkey = hchacha20 nonce key
      in chacha20poly1305_encrypt src ad new_nonce subkey)"

definition xchacha20poly1305_decrypt :: "bytes \<Rightarrow> bytes \<Rightarrow> bytes \<Rightarrow> bytes \<Rightarrow> bytes option" where
  "xchacha20poly1305_decrypt src ad nonce key =
     (let new_nonce = U8TO64_LITTLE (drop 16 nonce);
          subkey = hchacha20 nonce key
      in chacha20poly1305_decrypt src ad new_nonce subkey)"

section \<open>The interface of an AEAD\<close>

text \<open>
  What the handshake and the transport rely on: a sealed message is 16 bytes longer, opens to its
  plaintext under the same key, nonce and additional data, and nothing else opens.
\<close>

locale aead =
  fixes seal :: "'k \<Rightarrow> 'n \<Rightarrow> bytes \<Rightarrow> bytes \<Rightarrow> bytes"
    and unseal :: "'k \<Rightarrow> 'n \<Rightarrow> bytes \<Rightarrow> bytes \<Rightarrow> bytes option"
  assumes seal_length: "length (seal k n ad p) = length p + 16"
    and unseal_seal: "unseal k n ad (seal k n ad p) = Some p"
    and unseal_sound: "unseal k n ad c = Some p \<Longrightarrow> c = seal k n ad p"
begin

lemma unseal_iff: "unseal k n ad c = Some p \<longleftrightarrow> c = seal k n ad p"
  using unseal_seal unseal_sound by metis

lemma seal_inj: "seal k n ad p = seal k n ad q \<longleftrightarrow> p = q"
  using unseal_seal by (metis option.inject)

lemma unseal_length: "unseal k n ad c = Some p \<Longrightarrow> length c = length p + 16"
  by (simp add: unseal_iff seal_length)

lemma unseal_short: "length c < 16 \<Longrightarrow> unseal k n ad c = None"
  using unseal_length by (cases "unseal k n ad c") auto

lemma unseal_tampered: "c \<noteq> seal k n ad p \<Longrightarrow> unseal k n ad c \<noteq> Some p"
  by (simp add: unseal_iff)

end

section \<open>Lemmas\<close>

definition mac_chunks :: "bytes \<Rightarrow> bytes \<Rightarrow> bytes list" where
  "mac_chunks ad ct =
     (let pad = (\<lambda>n. replicate (unat (((of_nat n + 15) AND 0xFFFFFFF0) - of_nat n :: u64)) 0)
      in [ad, pad (length ad), ct, pad (length ct), U64TO8_LITTLE (of_nat (length ad)),
          U64TO8_LITTLE (of_nat (length ct))])"

lemma poly1305_aead_mac_fold:
  "poly1305_aead_mac st ad ct
     = fst (poly1305_finish (fold (\<lambda>m st. poly1305_update st m) (mac_chunks ad ct) st))"
  unfolding poly1305_aead_mac_def poly1305_pad_def mac_chunks_def Let_def by simp

definition one_time_key :: "bytes \<Rightarrow> u64 \<Rightarrow> bytes" where
  "one_time_key key nonce = snd (chacha20 (chacha20_init key nonce) (replicate 32 0))"

definition body_ctx :: "bytes \<Rightarrow> u64 \<Rightarrow> chacha20_ctx" where
  "body_ctx key nonce = fst (chacha20 (chacha20_init key nonce) (replicate 32 0))"

lemma generate_poly1305_key_eq:
  "generate_poly1305_key key nonce = (poly1305_init (one_time_key key nonce), body_ctx key nonce)"
  by (simp add: generate_poly1305_key_def one_time_key_def body_ctx_def Let_def split_beta)

lemma length_one_time_key [simp]: "length (one_time_key key nonce) = 32"
  by (simp add: one_time_key_def)

lemma length_body_ctx [simp]: "length (body_ctx key nonce) = 16"
  by (simp add: body_ctx_def)

definition aead_tag :: "bytes \<Rightarrow> u64 \<Rightarrow> bytes \<Rightarrow> bytes \<Rightarrow> bytes" where
  "aead_tag key nonce ad ct = poly1305_aead_mac (poly1305_init (one_time_key key nonce)) ad ct"

lemma length_aead_tag [simp]: "length (aead_tag key nonce ad ct) = 16"
  unfolding aead_tag_def poly1305_aead_mac_fold using poly.finish_fold [of "one_time_key key nonce"] by simp

lemma encrypt_eq:
  "chacha20poly1305_encrypt src ad nonce key =
     (let ct = snd (chacha20 (body_ctx key nonce) src) in ct @ aead_tag key nonce ad ct)"
  by (simp add: chacha20poly1305_encrypt_def generate_poly1305_key_eq aead_tag_def)

lemma decrypt_eq:
  "chacha20poly1305_decrypt src ad nonce key =
     (let n = length src - 16
      in if 16 \<le> length src \<and> drop n src = aead_tag key nonce ad (take n src)
         then Some (snd (chacha20 (body_ctx key nonce) (take n src))) else None)"
proof (cases "16 \<le> length src")
  case True
  then have "crypto_equal (aead_tag key nonce ad (take (length src - 16) src))
      (drop (length src - 16) src) 16
      \<longleftrightarrow> drop (length src - 16) src = aead_tag key nonce ad (take (length src - 16) src)"
    by (subst crypto_equal_whole) auto
  with True show ?thesis
    by (simp add: chacha20poly1305_decrypt_def POLY1305_MAC_SIZE_def generate_poly1305_key_eq Let_def
        flip: aead_tag_def)
qed (simp add: chacha20poly1305_decrypt_def POLY1305_MAC_SIZE_def)

lemma decrypt_sound:
  assumes "chacha20poly1305_decrypt c ad nonce key = Some p"
  shows "c = chacha20poly1305_encrypt p ad nonce key"
proof -
  define n where "n = length c - 16"
  from assms have *: "16 \<le> length c" "drop n c = aead_tag key nonce ad (take n c)"
    "p = snd (chacha20 (body_ctx key nonce) (take n c))"
    by (auto simp: decrypt_eq n_def Let_def split: if_splits)
  then have "snd (chacha20 (body_ctx key nonce) p) = take n c" by (simp add: chacha20_invol)
  with * have "chacha20poly1305_encrypt p ad nonce key = take n c @ drop n c"
    by (simp only: encrypt_eq Let_def)
  then show ?thesis by simp
qed

interpretation ccp: aead
  "\<lambda>key nonce ad p. chacha20poly1305_encrypt p ad nonce key"
  "\<lambda>key nonce ad c. chacha20poly1305_decrypt c ad nonce key"
proof
  fix key nonce ad p
  show "length (chacha20poly1305_encrypt p ad nonce key) = length p + 16"
    by (simp add: encrypt_eq Let_def)
  show "chacha20poly1305_decrypt (chacha20poly1305_encrypt p ad nonce key) ad nonce key = Some p"
    by (simp add: encrypt_eq decrypt_eq Let_def chacha20_invol)
qed (rule decrypt_sound)

interpretation xccp: aead
  "\<lambda>key nonce ad p. xchacha20poly1305_encrypt p ad nonce key"
  "\<lambda>key nonce ad c. xchacha20poly1305_decrypt c ad nonce key"
  by unfold_locales
    (auto simp: xchacha20poly1305_encrypt_def xchacha20poly1305_decrypt_def ccp.seal_length
      ccp.unseal_iff)

section \<open>The construction of RFC 7539\<close>

definition pad16 :: "bytes \<Rightarrow> bytes" where
  "pad16 m = replicate ((16 - length m mod 16) mod 16) 0"

definition rfc_mac_data :: "bytes \<Rightarrow> bytes \<Rightarrow> bytes" where
  "rfc_mac_data ad ct =
     ad @ pad16 ad @ ct @ pad16 ct @ U64TO8_LITTLE (of_nat (length ad))
       @ U64TO8_LITTLE (of_nat (length ct))"

lemma round_up_16:
  assumes "n < 2 ^ 32 - 16"
  shows "unat (((of_nat n + 15) AND 0xFFFFFFF0) - of_nat n :: u64) = (16 - n mod 16) mod 16"
proof -
  define k where "k = (n + 15) div 16"
  obtain q r where n: "n = 16 * q + r" "r < 16"
    by (metis mod_less_divisor mult_div_mod_eq zero_less_numeral)
  have kq: "k = (if r = 0 then q else q + 1)" using n by (auto simp: k_def intro: div_nat_eqI)
  have k: "16 * k = n + (16 - n mod 16) mod 16" using n by (simp add: kq)
  have kb: "16 * k < 2 ^ 32" using n assms by (simp add: kq)
  have "(n + 15) AND 0xFFFFFFF0 = 16 * k"
  proof -
    have "(n + 15) AND (0 + 2 ^ 4 * 0xFFFFFFF)
        = ((n + 15) mod 16 AND 0) + 2 ^ 4 * ((n + 15) div 16 AND 0xFFFFFFF)"
      using nat_and_split [of "(n + 15) mod 16" 4 0 "(n + 15) div 16" "0xFFFFFFF"] by simp
    moreover have "k AND 0xFFFFFFF = k"
    proof -
      have "k < 2 ^ 28" using kb by simp
      then have "take_bit 28 k = k" by (rule take_bit_nat_eq_self)
      moreover have "(0xFFFFFFF :: nat) = mask 28" by (simp add: mask_eq_exp_minus_1)
      ultimately show ?thesis by (metis take_bit_eq_mask)
    qed
    ultimately show ?thesis by (simp add: k_def)
  qed
  then have "(of_nat n + 15) AND 0xFFFFFFF0 = (of_nat (16 * k) :: u64)"
    using of_nat_and_u64 [of "n + 15" "0xFFFFFFF0"] by simp
  then have "((of_nat n + 15) AND 0xFFFFFFF0) - of_nat n = (of_nat ((16 - n mod 16) mod 16) :: u64)"
    unfolding k by simp
  then show ?thesis by (simp add: unat_of_nat)
qed

lemma mac_chunks_rfc:
  "length ad < 2 ^ 32 - 16 \<Longrightarrow> length ct < 2 ^ 32 - 16 \<Longrightarrow>
   concat (mac_chunks ad ct) = rfc_mac_data ad ct"
  unfolding mac_chunks_def rfc_mac_data_def pad16_def Let_def by (simp only: round_up_16) simp

lemma one_time_key_block: "one_time_key key nonce = take 32 (chacha20_block (chacha20_init key nonce))"
  unfolding one_time_key_def
  by (subst chacha20.simps)
    (auto simp: Let_def xor_bytes_def intro!: nth_equalityI)

lemma body_ctx_counter: "body_ctx key nonce = (chacha20_init key nonce)[12 := 1]"
  by (simp add: body_ctx_def chacha20_ctx_counter chacha20_init_def)

section \<open>Properties\<close>

text \<open>C13.  The AEAD of RFC 7539: the ciphertext is the plaintext masked with the key stream from
  block 1 on, and the 16 bytes after it are the Poly1305 tag, under the first half of block 0, of
  the additional data and the ciphertext, each padded to 16 bytes, and their two lengths.\<close>

theorem encrypt_is_rfc7539:
  assumes "length src < 2 ^ 32 - 16" and "length ad < 2 ^ 32 - 16"
  shows "\<exists>ct tag. chacha20poly1305_encrypt src ad nonce key = ct @ tag \<and>
     length ct = length src \<and> length tag = 16 \<and>
     (\<forall>i<length src. ct ! i = src ! i XOR
        chacha20_block ((chacha20_init key nonce)[12 := 1 + of_nat (i div 64)]) ! (i mod 64)) \<and>
     le_val tag = poly1305_ref (take 32 (chacha20_block (chacha20_init key nonce)))
                    (rfc_mac_data ad ct)"
proof -
  let ?ct = "snd (chacha20 (body_ctx key nonce) src)"
  have "\<forall>i<length src. ?ct ! i = src ! i XOR
      chacha20_block ((chacha20_init key nonce)[12 := 1 + of_nat (i div 64)]) ! (i mod 64)"
    by (simp add: chacha20_nth block_at_def body_ctx_counter)
  moreover have "le_val (aead_tag key nonce ad ?ct)
      = poly1305_ref (one_time_key key nonce) (rfc_mac_data ad ?ct)"
    unfolding aead_tag_def poly1305_aead_mac_fold
    using poly.finish_fold [of "one_time_key key nonce" "mac_chunks ad ?ct"] assms
    by (simp only: mac_chunks_rfc length_chacha20 length_one_time_key prod.inject)
  ultimately show ?thesis
    unfolding one_time_key_block [symmetric]
    by (intro exI [of _ ?ct] exI [of _ "aead_tag key nonce ad ?ct"]) (simp add: encrypt_eq Let_def)
qed

theorem encrypt_is_rfc7539_witness:
  "length [1, 2, 3 :: u8] < 2 ^ 32 - 16 \<and> length ([] :: bytes) < 2 ^ 32 - 16 \<and>
   (\<exists>ct tag. chacha20poly1305_encrypt [1, 2, 3] [] 7 (replicate 32 0) = ct @ tag \<and>
     length ct = 3 \<and> length tag = 16 \<and>
     le_val tag = poly1305_ref (take 32 (chacha20_block (chacha20_init (replicate 32 0) 7)))
                    (rfc_mac_data [] ct))"
proof -
  have "length [1, 2, 3 :: u8] < 2 ^ 32 - 16" "length ([] :: bytes) < 2 ^ 32 - 16" by simp_all
  from encrypt_is_rfc7539 [OF this, of 7 "replicate 32 0"] show ?thesis by fastforce
qed


end
