(* ===== verification/Blake2s.thy ===== *)
theory Blake2s
  imports Crypto_Util
begin

text \<open>
  \<open>crypto/blake2s.c\<close>: the context, the compression function, and the incremental interface.  The
  byte loop, the two-word counter and the keyed first block are shown to compute the hash of
  RFC 7693, written as a recursion over 64-byte blocks with a mathematical counter.
\<close>

section \<open>The code\<close>

definition BLAKE2S_BLOCK_SIZE :: nat where
  "BLAKE2S_BLOCK_SIZE = 64"

record blake2s_ctx =
  b2_b :: bytes
  b2_h :: "u32 list"
  b2_t0 :: u32
  b2_t1 :: u32
  b2_c :: nat
  b2_outlen :: nat

definition ROTR32 :: "u32 \<Rightarrow> nat \<Rightarrow> u32" where
  "ROTR32 x y = drop_bit y x XOR push_bit (32 - y) x"

definition B2S_G :: "nat \<Rightarrow> nat \<Rightarrow> nat \<Rightarrow> nat \<Rightarrow> u32 \<Rightarrow> u32 \<Rightarrow> u32 list \<Rightarrow> u32 list" where
  "B2S_G a b c d x y v =
     (let v = v[a := v ! a + v ! b + x];
          v = v[d := ROTR32 (v ! d XOR v ! a) 16];
          v = v[c := v ! c + v ! d];
          v = v[b := ROTR32 (v ! b XOR v ! c) 12];
          v = v[a := v ! a + v ! b + y];
          v = v[d := ROTR32 (v ! d XOR v ! a) 8];
          v = v[c := v ! c + v ! d];
          v = v[b := ROTR32 (v ! b XOR v ! c) 7]
      in v)"

definition blake2s_iv :: "u32 list" where
  "blake2s_iv =
     [0x6A09E667, 0xBB67AE85, 0x3C6EF372, 0xA54FF53A,
      0x510E527F, 0x9B05688C, 0x1F83D9AB, 0x5BE0CD19]"

definition blake2s_sigma :: "nat list list" where
  "blake2s_sigma =
     [[0, 1, 2, 3, 4, 5, 6, 7, 8, 9, 10, 11, 12, 13, 14, 15],
      [14, 10, 4, 8, 9, 15, 13, 6, 1, 12, 0, 2, 11, 7, 5, 3],
      [11, 8, 12, 0, 5, 2, 15, 13, 10, 14, 3, 6, 7, 1, 9, 4],
      [7, 9, 3, 1, 13, 12, 11, 14, 2, 6, 5, 10, 4, 0, 15, 8],
      [9, 0, 5, 7, 2, 4, 10, 15, 14, 1, 11, 12, 6, 8, 3, 13],
      [2, 12, 6, 10, 0, 11, 8, 3, 4, 13, 7, 5, 15, 14, 1, 9],
      [12, 5, 1, 15, 14, 13, 4, 10, 0, 7, 6, 3, 9, 2, 8, 11],
      [13, 11, 7, 14, 12, 1, 3, 9, 5, 0, 15, 4, 8, 6, 2, 10],
      [6, 15, 14, 9, 11, 3, 0, 8, 12, 2, 13, 7, 1, 4, 10, 5],
      [10, 2, 8, 4, 7, 6, 1, 5, 15, 11, 9, 14, 3, 12, 13, 0]]"

definition blake2s_round :: "u32 list \<Rightarrow> nat list \<Rightarrow> u32 list \<Rightarrow> u32 list" where
  "blake2s_round m s v =
     (let v = B2S_G 0 4 8 12 (m ! (s ! 0)) (m ! (s ! 1)) v;
          v = B2S_G 1 5 9 13 (m ! (s ! 2)) (m ! (s ! 3)) v;
          v = B2S_G 2 6 10 14 (m ! (s ! 4)) (m ! (s ! 5)) v;
          v = B2S_G 3 7 11 15 (m ! (s ! 6)) (m ! (s ! 7)) v;
          v = B2S_G 0 5 10 15 (m ! (s ! 8)) (m ! (s ! 9)) v;
          v = B2S_G 1 6 11 12 (m ! (s ! 10)) (m ! (s ! 11)) v;
          v = B2S_G 2 7 8 13 (m ! (s ! 12)) (m ! (s ! 13)) v;
          v = B2S_G 3 4 9 14 (m ! (s ! 14)) (m ! (s ! 15)) v
      in v)"

definition blake2s_compress :: "blake2s_ctx \<Rightarrow> bool \<Rightarrow> blake2s_ctx" where
  "blake2s_compress ctx is_last =
     (let v = b2_h ctx @ blake2s_iv;
          v = v[12 := v ! 12 XOR b2_t0 ctx];
          v = v[13 := v ! 13 XOR b2_t1 ctx];
          v = (if is_last then v[14 := NOT (v ! 14)] else v);
          m = map (\<lambda>i. U8TO32_LITTLE (drop (4 * i) (b2_b ctx))) [0..<16];
          v = fold (\<lambda>i v. blake2s_round m (blake2s_sigma ! i) v) [0..<10] v
      in ctx\<lparr>b2_h := map (\<lambda>i. b2_h ctx ! i XOR (v ! i XOR v ! (i + 8))) [0..<8]\<rparr>)"

text \<open>\<open>ctx->t[0] += ctx->c; if (ctx->t[0] < ctx->c) ctx->t[1]++;\<close>\<close>

definition blake2s_count :: "blake2s_ctx \<Rightarrow> blake2s_ctx" where
  "blake2s_count ctx =
     (let ctx = ctx\<lparr>b2_t0 := b2_t0 ctx + of_nat (b2_c ctx)\<rparr>
      in if unat (b2_t0 ctx) < b2_c ctx then ctx\<lparr>b2_t1 := b2_t1 ctx + 1\<rparr> else ctx)"

text \<open>One turn of the loop of \<open>blake2s_update\<close>.\<close>

definition blake2s_byte :: "u8 \<Rightarrow> blake2s_ctx \<Rightarrow> blake2s_ctx" where
  "blake2s_byte x ctx =
     (let ctx = (if b2_c ctx = 64
                 then (blake2s_compress (blake2s_count ctx) False)\<lparr>b2_c := 0\<rparr> else ctx)
      in ctx\<lparr>b2_b := (b2_b ctx)[b2_c ctx := x], b2_c := b2_c ctx + 1\<rparr>)"

definition blake2s_update :: "blake2s_ctx \<Rightarrow> bytes \<Rightarrow> blake2s_ctx" where
  "blake2s_update ctx inp = fold blake2s_byte inp ctx"

text \<open>\<open>blake2s_init\<close> on the previous content of the context; \<open>None\<close> is the result -1.\<close>

definition blake2s_init :: "blake2s_ctx \<Rightarrow> nat \<Rightarrow> bytes \<Rightarrow> blake2s_ctx option" where
  "blake2s_init ctx outlen key =
     (let keylen = length key
      in if outlen = 0 \<or> outlen > 32 \<or> keylen > 32 then None
         else
           let h = blake2s_iv;
               h = h[0 := h ! 0 XOR (0x01010000 XOR push_bit 8 (of_nat keylen) XOR of_nat outlen)];
               ctx = ctx\<lparr>b2_h := h, b2_t0 := 0, b2_t1 := 0, b2_c := 0, b2_outlen := outlen,
                        b2_b := fold (\<lambda>i b. b[i := 0]) [keylen..<64] (b2_b ctx)\<rparr>
           in Some (if keylen > 0 then (blake2s_update ctx key)\<lparr>b2_c := 64\<rparr> else ctx))"

definition blake2s_final :: "blake2s_ctx \<Rightarrow> blake2s_ctx \<times> bytes" where
  "blake2s_final ctx =
     (let ctx = blake2s_count ctx;
          ctx = ctx\<lparr>b2_b := fold (\<lambda>i b. b[i := 0]) [b2_c ctx..<64] (b2_b ctx), b2_c := max (b2_c ctx) 64\<rparr>;
          ctx = blake2s_compress ctx True
      in (ctx, map (\<lambda>i. ucast (drop_bit (8 * (i mod 4)) (b2_h ctx ! (i div 4)) AND 0xFF))
                 [0..<b2_outlen ctx]))"

text \<open>The all-in-one function on an uninitialised local context \<open>ctx\<close>.\<close>

definition blake2s :: "blake2s_ctx \<Rightarrow> nat \<Rightarrow> bytes \<Rightarrow> bytes \<Rightarrow> bytes option" where
  "blake2s ctx outlen key inp =
     (case blake2s_init ctx outlen key of
        None \<Rightarrow> None
      | Some ctx \<Rightarrow> Some (snd (blake2s_final (blake2s_update ctx inp))))"

section \<open>The reference\<close>

text \<open>The compression function of RFC 7693 on a block and a 64-bit offset counter.\<close>

definition b2_F :: "u32 list \<Rightarrow> bytes \<Rightarrow> nat \<Rightarrow> bool \<Rightarrow> u32 list" where
  "b2_F h blk t is_last =
     b2_h (blake2s_compress
       \<lparr>b2_b = blk, b2_h = h, b2_t0 = of_nat t, b2_t1 = of_nat (t div 2 ^ 32), b2_c = 64, b2_outlen = 0\<rparr>
       is_last)"

function b2_blocks :: "u32 list \<Rightarrow> nat \<Rightarrow> bytes \<Rightarrow> u32 list" where
  "b2_blocks h t m =
     (if length m \<le> 64 then b2_F h (m @ replicate (64 - length m) 0) (t + length m) True
      else b2_blocks (b2_F h (take 64 m) (t + 64) False) (t + 64) (drop 64 m))"
  by pat_completeness auto
termination
  by (relation "measure (\<lambda>(h, t, m). length m)") auto

declare b2_blocks.simps [simp del]

text \<open>BLAKE2s with a digest length, an optional key and a message.\<close>

definition b2_h0 :: "nat \<Rightarrow> nat \<Rightarrow> u32 list" where
  "b2_h0 outlen keylen =
     blake2s_iv[0 := blake2s_iv ! 0 XOR (0x01010000 XOR push_bit 8 (of_nat keylen) XOR of_nat outlen)]"

definition b2_data :: "bytes \<Rightarrow> bytes \<Rightarrow> bytes" where
  "b2_data key m = (if key = [] then m else key @ replicate (64 - length key) 0 @ m)"

definition blake2s_ref :: "nat \<Rightarrow> bytes \<Rightarrow> bytes \<Rightarrow> bytes" where
  "blake2s_ref outlen key m =
     take outlen (concat (map U32TO8_LITTLE (b2_blocks (b2_h0 outlen (length key)) 0 (b2_data key m))))"

section \<open>The context and its message\<close>

lemma compress_simps [simp]:
  "b2_b (blake2s_compress ctx l) = b2_b ctx" "b2_t0 (blake2s_compress ctx l) = b2_t0 ctx"
  "b2_t1 (blake2s_compress ctx l) = b2_t1 ctx" "b2_c (blake2s_compress ctx l) = b2_c ctx"
  "b2_outlen (blake2s_compress ctx l) = b2_outlen ctx"
  by (simp_all add: blake2s_compress_def Let_def)

lemma length_compress [simp]: "length (b2_h (blake2s_compress ctx l)) = 8"
  by (simp add: blake2s_compress_def Let_def)

lemma count_simps [simp]:
  "b2_b (blake2s_count ctx) = b2_b ctx" "b2_h (blake2s_count ctx) = b2_h ctx"
  "b2_c (blake2s_count ctx) = b2_c ctx" "b2_outlen (blake2s_count ctx) = b2_outlen ctx"
  by (simp_all add: blake2s_count_def Let_def)

text \<open>The two counter words hold a natural number, carries included.\<close>

definition b2_counter :: "blake2s_ctx \<Rightarrow> nat \<Rightarrow> bool" where
  "b2_counter ctx t \<longleftrightarrow> b2_t0 ctx = of_nat t \<and> b2_t1 ctx = of_nat (t div 2 ^ 32)"

lemma compress_is_F:
  "b2_counter ctx t \<Longrightarrow> b2_h (blake2s_compress ctx l) = b2_F (b2_h ctx) (b2_b ctx) t l"
  by (simp add: b2_counter_def b2_F_def blake2s_compress_def Let_def)

lemma blake2s_count_counter:
  assumes "b2_counter ctx t" "b2_c ctx \<le> 64"
  shows "b2_counter (blake2s_count ctx) (t + b2_c ctx)"
proof -
  define c where "c = b2_c ctx"
  define q r where qr: "q = t div 2 ^ 32" "r = t mod 2 ^ 32"
  have t: "t = 2 ^ 32 * q + r" "r < 2 ^ 32" by (simp_all add: qr)
  have cc: "b2_c ctx = c" by (simp add: c_def)
  have u: "unat (of_nat (t + c) :: u32) = (r + c) mod 2 ^ 32"
    unfolding unat_of_nat by (simp add: qr mod_simps)
  have c: "c \<le> 64" using assms by (simp add: c_def)
  show ?thesis
  proof (cases "r + c < 2 ^ 32")
    case True
    then have "(t + c) div 2 ^ 32 = q" by (simp add: t add.assoc)
    moreover have "\<not> unat (of_nat (t + c) :: u32) < c" using u True by simp
    ultimately show ?thesis
      using assms(1) by (simp add: b2_counter_def blake2s_count_def Let_def c_def qr)
  next
    case False
    then have "(t + c) div 2 ^ 32 = q + 1"
      using t c by (intro div_nat_eqI) simp_all
    moreover have "unat (of_nat (t + c) :: u32) < c"
      using u False t(2) c by (simp add: le_mod_geq)
    ultimately show ?thesis
      using assms(1) by (simp add: b2_counter_def blake2s_count_def Let_def c_def qr)
  qed
qed

text \<open>A context that has absorbed \<open>m\<close>: whatever follows, hashing it goes on from the context.\<close>

definition b2_absorbed :: "u32 list \<Rightarrow> blake2s_ctx \<Rightarrow> bytes \<Rightarrow> bool" where
  "b2_absorbed h0 ctx m \<longleftrightarrow>
     length (b2_b ctx) = 64 \<and> length (b2_h ctx) = 8 \<and> b2_c ctx \<le> 64 \<and>
     (\<exists>t. b2_counter ctx t \<and>
        (\<forall>rest. b2_blocks h0 0 (m @ rest) = b2_blocks (b2_h ctx) t (take (b2_c ctx) (b2_b ctx) @ rest)))"

lemma b2_absorbed_byte:
  assumes "b2_absorbed h0 ctx m"
  shows "b2_absorbed h0 (blake2s_byte x ctx) (m @ [x])"
proof -
  define ctx1 where "ctx1 = (if b2_c ctx = 64
      then (blake2s_compress (blake2s_count ctx) False)\<lparr>b2_c := 0\<rparr> else ctx)"
  from assms obtain t where l: "length (b2_b ctx) = 64" "length (b2_h ctx) = 8" "b2_c ctx \<le> 64"
    and t: "b2_counter ctx t"
    and eq: "\<And>rest. b2_blocks h0 0 (m @ rest)
       = b2_blocks (b2_h ctx) t (take (b2_c ctx) (b2_b ctx) @ rest)"
    by (auto simp: b2_absorbed_def)
  have 1: "\<exists>t. b2_counter ctx1 t \<and> (\<forall>rest. b2_blocks h0 0 (m @ x # rest)
     = b2_blocks (b2_h ctx1) t (take (b2_c ctx1) (b2_b ctx1) @ x # rest))"
  proof (cases "b2_c ctx = 64")
    case True
    from blake2s_count_counter [OF t] True have cn: "b2_counter (blake2s_count ctx) (t + 64)" by simp
    then have cn1: "b2_counter ctx1 (t + 64)"
      using True by (simp add: b2_counter_def ctx1_def)
    have "b2_blocks (b2_h ctx) t (b2_b ctx @ x # rest)
        = b2_blocks (b2_h ctx1) (t + 64) (x # rest)" for rest
      using True l by (simp add: b2_blocks.simps [of _ t] ctx1_def compress_is_F [OF cn])
    with eq True l cn1 show ?thesis by (auto simp: ctx1_def)
  next
    case False
    with eq t show ?thesis by (auto simp: ctx1_def)
  qed
  have l1: "length (b2_b ctx1) = 64" "length (b2_h ctx1) = 8" "b2_c ctx1 < 64"
    using l by (auto simp: ctx1_def)
  have "blake2s_byte x ctx = ctx1\<lparr>b2_b := (b2_b ctx1)[b2_c ctx1 := x], b2_c := b2_c ctx1 + 1\<rparr>"
    by (simp add: blake2s_byte_def ctx1_def Let_def)
  moreover have "take (Suc (b2_c ctx1)) ((b2_b ctx1)[b2_c ctx1 := x]) = take (b2_c ctx1) (b2_b ctx1) @ [x]"
    using l1 by (simp add: take_Suc_conv_app_nth)
  ultimately show ?thesis
    using 1 l1 by (auto simp: b2_absorbed_def b2_counter_def)
qed

lemma b2_absorbed_update:
  "b2_absorbed h0 ctx m \<Longrightarrow> b2_absorbed h0 (blake2s_update ctx x) (m @ x)"
  unfolding blake2s_update_def
proof (induction x arbitrary: ctx m)
  case (Cons a x)
  from Cons.IH [OF b2_absorbed_byte [OF Cons.prems, of a]] show ?case by simp
qed simp

lemma fold_zero_tail:
  "n \<le> length b \<Longrightarrow> k \<le> n \<Longrightarrow>
   fold (\<lambda>i b. b[i := 0]) [k..<n] b = take k b @ replicate (n - k) 0 @ drop n b"
proof (induction n arbitrary: b)
  case (Suc n)
  show ?case
  proof (cases "k = Suc n")
    case False
    with Suc have "fold (\<lambda>i b. b[i := 0]) [k..<Suc n] b
        = (take k b @ replicate (n - k) 0 @ drop n b)[n := 0]" by simp
    also have "\<dots> = take k b @ replicate (Suc n - k) 0 @ drop (Suc n) b"
      using Suc.prems False
      by (auto simp: list_update_append nth_append Suc_diff_le replicate_append_same
          Cons_nth_drop_Suc [symmetric] simp flip: replicate_append_same)
    finally show ?thesis .
  qed simp
qed simp

lemma digest_bytes:
  assumes "length h = 8" "n \<le> 32"
  shows "map (\<lambda>i. ucast (drop_bit (8 * (i mod 4)) (h ! (i div 4)) AND 0xFF)) [0..<n]
     = take n (concat (map U32TO8_LITTLE h))"
proof -
  have nth: "concat (map U32TO8_LITTLE h) ! i = U32TO8_LITTLE (h ! (i div 4)) ! (i mod 4)"
    if "i < 4 * length h" for h :: "u32 list" and i
    using that
  proof (induction h arbitrary: i)
    case (Cons a h)
    show ?case
    proof (cases "i < 4")
      case False
      with Cons.IH [of "i - 4"] Cons.prems show ?thesis
        by (simp add: nth_append le_div_geq le_mod_geq)
    qed (simp add: nth_append)
  qed simp
  have len: "length (concat (map U32TO8_LITTLE h)) = 32"
    using assms(1) by (simp add: length_concat comp_def sum_list_triv)
  have b: "U32TO8_LITTLE v ! j = ucast (drop_bit (8 * j) v AND 0xFF)" if "j < 4" for v j
  proof -
    from that consider "j = 0" | "j = 1" | "j = 2" | "j = 3" by linarith
    moreover have "ucast (w AND 0xFF) = (ucast w :: u8)" for w :: u32
    proof -
      have "(0xFF :: u32) = mask 8" by (simp add: mask_eq_exp_minus_1)
      moreover have "ucast (w AND mask 8) = (ucast w :: u8)"
        by (auto intro!: bit_word_eqI simp: bit_unsigned_iff bit_and_iff bit_mask_iff)
      ultimately show ?thesis by (simp only:)
    qed
    ultimately show ?thesis by cases (simp_all add: U32TO8_LITTLE_def)
  qed
  show ?thesis
    by (rule nth_equalityI) (use assms len in \<open>simp_all add: nth b\<close>)
qed

section \<open>Initialisation and the final block\<close>

lemma b2_absorbed_init:
  assumes "0 < outlen" "outlen \<le> 32" "length key \<le> 32" "length (b2_b ctx) = 64"
  shows "\<exists>ctx'. blake2s_init ctx outlen key = Some ctx' \<and> b2_outlen ctx' = outlen \<and>
     b2_absorbed (b2_h0 outlen (length key)) ctx' (b2_data key [])"
proof -
  let ?h0 = "b2_h0 outlen (length key)"
  define ctx1 where "ctx1 = ctx\<lparr>b2_h := ?h0, b2_t0 := 0, b2_t1 := 0, b2_c := 0,
     b2_outlen := outlen, b2_b := take (length key) (b2_b ctx) @ replicate (64 - length key) 0\<rparr>"
  have init: "blake2s_init ctx outlen key
      = Some (if key \<noteq> [] then (blake2s_update ctx1 key)\<lparr>b2_c := 64\<rparr> else ctx1)"
    using assms by (simp add: blake2s_init_def ctx1_def b2_h0_def Let_def fold_zero_tail)
  have a1: "b2_absorbed ?h0 ctx1 []"
    using assms by (auto simp: b2_absorbed_def ctx1_def b2_counter_def b2_h0_def blake2s_iv_def
        intro!: exI [of _ 0])
  show ?thesis
  proof (cases "key = []")
    case True
    with init a1 show ?thesis by (simp add: b2_data_def) (simp add: ctx1_def)
  next
    case False
    have pre: "fold blake2s_byte k c = c\<lparr>b2_b := patch (b2_c c) k (b2_b c), b2_c := b2_c c + length k\<rparr>"
      if "b2_c c + length k \<le> 64" "length (b2_b c) = 64" for k c
      using that
    proof (induction k arbitrary: c)
      case (Cons x k)
      have "blake2s_byte x c = c\<lparr>b2_b := (b2_b c)[b2_c c := x], b2_c := b2_c c + 1\<rparr>"
        using Cons.prems by (simp add: blake2s_byte_def)
      moreover have "patch (Suc (b2_c c)) k ((b2_b c)[b2_c c := x]) = patch (b2_c c) (x # k) (b2_b c)"
        using Cons.prems by (simp add: patch_def upd_conv_take_nth_drop add.commute)
      ultimately show ?case using Cons by simp
    qed (simp add: patch_def)
    have up: "blake2s_update ctx1 key = ctx1\<lparr>b2_b := key @ replicate (64 - length key) 0,
        b2_c := length key\<rparr>"
      using assms pre [of ctx1 key] by (simp add: blake2s_update_def ctx1_def patch_def)
    show ?thesis
      using False assms init up
      by (auto simp: b2_absorbed_def b2_data_def ctx1_def b2_counter_def b2_h0_def blake2s_iv_def
          intro!: exI [of _ 0])
  qed
qed

lemma b2_absorbed_final:
  assumes "b2_absorbed h0 ctx m" "b2_outlen ctx \<le> 32"
  shows "snd (blake2s_final ctx) = take (b2_outlen ctx) (concat (map U32TO8_LITTLE (b2_blocks h0 0 m)))"
proof -
  from assms(1) obtain t where l: "length (b2_b ctx) = 64" "b2_c ctx \<le> 64" and t: "b2_counter ctx t"
    and eq: "\<And>rest. b2_blocks h0 0 (m @ rest)
       = b2_blocks (b2_h ctx) t (take (b2_c ctx) (b2_b ctx) @ rest)"
    by (auto simp: b2_absorbed_def)
  define ctx1 where "ctx1 = (blake2s_count ctx)\<lparr>b2_b := take (b2_c ctx) (b2_b ctx)
     @ replicate (64 - b2_c ctx) 0, b2_c := max (b2_c ctx) 64\<rparr>"
  have fin: "blake2s_final ctx = (blake2s_compress ctx1 True,
      map (\<lambda>i. ucast (drop_bit (8 * (i mod 4)) (b2_h (blake2s_compress ctx1 True) ! (i div 4)) AND 0xFF))
        [0..<b2_outlen ctx])"
    using l by (simp add: blake2s_final_def Let_def fold_zero_tail ctx1_def)
  from blake2s_count_counter [OF t l(2)] have "b2_counter ctx1 (t + b2_c ctx)"
    by (simp add: b2_counter_def ctx1_def)
  from compress_is_F [OF this] have "b2_h (blake2s_compress ctx1 True) = b2_blocks h0 0 m"
    using l eq [of "[]"] by (simp add: b2_blocks.simps [of _ t] ctx1_def)
  with fin show ?thesis
    using digest_bytes [OF length_compress assms(2), of ctx1 True] by simp
qed

lemma outlen_update [simp]: "b2_outlen (blake2s_update ctx x) = b2_outlen ctx"
proof -
  have "b2_outlen (blake2s_byte a c) = b2_outlen c" for a c
    by (simp add: blake2s_byte_def Let_def)
  then show ?thesis unfolding blake2s_update_def by (induction x arbitrary: ctx) simp_all
qed

text \<open>The incremental interface, for a digest length, a key and whatever the context held before.\<close>

type_synonym b2_params = "nat \<times> bytes \<times> blake2s_ctx"

definition b2_valid :: "b2_params \<Rightarrow> bool" where
  "b2_valid = (\<lambda>(outlen, key, ctx). 0 < outlen \<and> outlen \<le> 32 \<and> length key \<le> 32 \<and> length (b2_b ctx) = 64)"

definition b2_start :: "b2_params \<Rightarrow> blake2s_ctx" where
  "b2_start = (\<lambda>(outlen, key, ctx). the (blake2s_init ctx outlen key))"

definition b2_rep :: "b2_params \<Rightarrow> blake2s_ctx \<Rightarrow> bytes \<Rightarrow> bool" where
  "b2_rep = (\<lambda>(outlen, key, _) ctx m. b2_outlen ctx = outlen
      \<and> b2_absorbed (b2_h0 outlen (length key)) ctx (b2_data key m))"

lemma b2_data_append: "b2_data key (m @ x) = b2_data key m @ x"
  by (simp add: b2_data_def)

interpretation b2: incremental_digest
  b2_valid b2_start blake2s_update "\<lambda>ctx. snd (blake2s_final ctx)"
  "\<lambda>(outlen, key, _) m. blake2s_ref outlen key m" b2_rep
proof
  fix k assume v: "b2_valid k"
  obtain outlen key ctx where k: "k = (outlen, key, ctx)" by (cases k)
  from v b2_absorbed_init [of outlen key ctx] show "b2_rep k (b2_start k) []"
    by (auto simp: k b2_valid_def b2_rep_def b2_start_def)
next
  fix k s m x assume "b2_rep k s m"
  then show "b2_rep k (blake2s_update s x) (m @ x)"
    by (cases k) (auto simp: b2_rep_def b2_data_append b2_absorbed_update)
next
  fix k s m assume "b2_valid k" "b2_rep k s m"
  then show "snd (blake2s_final s) = (case k of (outlen, key, _) \<Rightarrow> blake2s_ref outlen key) m"
    by (cases k) (auto simp: b2_valid_def b2_rep_def blake2s_ref_def b2_absorbed_final)
qed

lemma blake2s_init_Some:
  "b2_valid (outlen, key, ctx) \<Longrightarrow> blake2s_init ctx outlen key = Some (b2_start (outlen, key, ctx))"
  by (auto simp: b2_valid_def b2_start_def blake2s_init_def Let_def)

lemma blake2s_init_None:
  "outlen = 0 \<or> outlen > 32 \<or> length key > 32 \<Longrightarrow> blake2s_init ctx outlen key = None"
  by (auto simp: blake2s_init_def Let_def)

lemma blake2s_eq_ref:
  assumes "length (b2_b ctx) = 64"
  shows "blake2s ctx outlen key m =
     (if outlen = 0 \<or> outlen > 32 \<or> length key > 32 then None else Some (blake2s_ref outlen key m))"
proof (cases "outlen = 0 \<or> outlen > 32 \<or> length key > 32")
  case False
  then have v: "b2_valid (outlen, key, ctx)" using assms by (simp add: b2_valid_def)
  from False show ?thesis
    using blake2s_init_Some [OF v] b2.finish_feed [OF v, of m] by (simp add: blake2s_def)
qed (simp add: blake2s_def blake2s_init_None)

lemma length_b2_blocks: "length (b2_blocks h t m) = 8"
proof (induction h t m rule: b2_blocks.induct)
  case (1 h t m)
  then show ?case by (cases "length m \<le> 64") (simp_all add: b2_blocks.simps [of h t m] b2_F_def)
qed

lemma length_blake2s_ref [bytes_simps, simp]: "outlen \<le> 32 \<Longrightarrow> length (blake2s_ref outlen key m) = outlen"
  by (simp add: blake2s_ref_def length_concat comp_def sum_list_triv length_b2_blocks)

section \<open>Properties\<close>



end
