(* ===== verification/X25519.thy ===== *)
theory X25519
  imports Crypto_Util
begin

text \<open>
  \<open>crypto/x25519.c\<close> as the repository builds it: 32-bit limbs, \<open>X25519_MEMCPY_PARAMS\<close> and the
  precomputed power chain, signing and verification compiled out.  A field element is the list of
  its eight limbs, least significant first.  The C functions write their first argument, which may
  alias an operand; every aliasing call of the file reads an operand limb before it writes that
  limb, so the results are those of the pure functions below.
\<close>

section \<open>The code\<close>

type_synonym limb_t = u32
type_synonym fe = "limb_t list"

definition NLIMBS :: nat where
  "NLIMBS = 8"

text \<open>The carry helpers return the result limb and the new carry.\<close>

definition umaal :: "limb_t \<Rightarrow> limb_t \<Rightarrow> limb_t \<Rightarrow> limb_t \<Rightarrow> limb_t \<times> limb_t" where
  "umaal carry acc mand mier =
     (let tmp = ucast mand * ucast mier + ucast acc + ucast carry :: u64
      in (ucast tmp, ucast (drop_bit 32 tmp)))"

definition adc :: "limb_t \<Rightarrow> limb_t \<Rightarrow> limb_t \<Rightarrow> limb_t \<times> limb_t" where
  "adc carry acc mand =
     (let total = ucast carry + ucast acc + ucast mand :: u64
      in (ucast total, ucast (drop_bit 32 total)))"

definition adc0 :: "limb_t \<Rightarrow> limb_t \<Rightarrow> limb_t \<times> limb_t" where
  "adc0 carry acc =
     (let total = ucast carry + ucast acc :: u64 in (ucast total, ucast (drop_bit 32 total)))"

text \<open>The loop over \<open>adc0\<close> that \<open>propagate\<close> and \<open>canon\<close> share.\<close>

fun adc0_loop :: "limb_t \<Rightarrow> fe \<Rightarrow> fe \<times> limb_t" where
  "adc0_loop carry [] = ([], carry)"
| "adc0_loop carry (x # xs) =
     (let (y, carry) = adc0 carry x; (ys, carry) = adc0_loop carry xs in (y # ys, carry))"

definition propagate :: "fe \<Rightarrow> limb_t \<Rightarrow> fe" where
  "propagate x over =
     (let over = drop_bit 31 (x ! (NLIMBS - 1)) OR push_bit 1 over;
          x = x[NLIMBS - 1 := x ! (NLIMBS - 1) AND NOT (push_bit 31 1)];
          carry = over * 19
      in fst (adc0_loop carry x))"

fun adc_loop :: "limb_t \<Rightarrow> fe \<Rightarrow> fe \<Rightarrow> fe \<times> limb_t" where
  "adc_loop carry (a # as) (b # bs) =
     (let (y, carry) = adc carry a b; (ys, carry) = adc_loop carry as bs in (y # ys, carry))"
| "adc_loop carry _ _ = ([], carry)"

definition fe_add :: "fe \<Rightarrow> fe \<Rightarrow> fe" where
  "fe_add a b = (let (out, carry) = adc_loop 0 a b in propagate out carry)"

text \<open>The signed carry is an \<open>int64_t\<close>; the sums stay within it, and \<open>>>\<close> is the floor division.\<close>

fun sbb_loop :: "int \<Rightarrow> fe \<Rightarrow> fe \<Rightarrow> fe \<times> int" where
  "sbb_loop carry (a # as) (b # bs) =
     (let carry = carry + uint a - uint b; y = word_of_int carry;
          (ys, carry) = sbb_loop (carry div 2 ^ 32) as bs in (y # ys, carry))"
| "sbb_loop carry _ _ = ([], carry)"

definition fe_sub :: "fe \<Rightarrow> fe \<Rightarrow> fe" where
  "fe_sub a b = (let (out, carry) = sbb_loop (- 38) a b in propagate out (word_of_int (1 + carry)))"

definition swapin :: "bytes \<Rightarrow> fe" where
  "swapin inp = map (\<lambda>i. U8TO32_LITTLE (drop (4 * i) inp)) [0..<NLIMBS]"

definition swapout :: "fe \<Rightarrow> bytes" where
  "swapout x = concat (map U32TO8_LITTLE x)"

text \<open>One pass over \<open>umaal\<close>: the accumulator slice plus \<open>mand\<close> times the operand.\<close>

fun umaal_loop :: "limb_t \<Rightarrow> limb_t \<Rightarrow> fe \<Rightarrow> fe \<Rightarrow> fe \<times> limb_t" where
  "umaal_loop mand carry (acc # accs) (m # ms) =
     (let (y, carry) = umaal carry acc mand m; (ys, carry) = umaal_loop mand carry accs ms
      in (y # ys, carry))"
| "umaal_loop mand carry _ _ = ([], carry)"

text \<open>The outer loop of \<open>mul\<close> from row \<open>i\<close> over the remaining limbs of \<open>b\<close>.\<close>

fun mul_rows :: "nat \<Rightarrow> fe \<Rightarrow> fe \<Rightarrow> fe \<Rightarrow> fe" where
  "mul_rows i accum a [] = accum"
| "mul_rows i accum a (mand # b) =
     (let (row, carry2) = umaal_loop mand 0 (slice i NLIMBS accum) a
      in mul_rows (Suc i) (patch i (row @ [carry2]) accum) a b)"

definition mul :: "fe \<Rightarrow> fe \<Rightarrow> nat \<Rightarrow> fe" where
  "mul a b nb =
     (let accum = mul_rows 0 (replicate (2 * NLIMBS) 0) a (take nb b);
          (out, carry2) = umaal_loop 38 0 (take NLIMBS accum) (drop NLIMBS accum)
      in propagate out carry2)"

definition sqr :: "fe \<Rightarrow> fe" where
  "sqr a = mul a a NLIMBS"

definition mul1 :: "fe \<Rightarrow> fe \<Rightarrow> fe" where
  "mul1 out a = mul a out NLIMBS"

definition sqr1 :: "fe \<Rightarrow> fe" where
  "sqr1 a = mul1 a a"

definition condswap :: "limb_t list \<Rightarrow> limb_t list \<Rightarrow> limb_t \<Rightarrow> limb_t list \<times> limb_t list" where
  "condswap a b doswap =
     (map2 (\<lambda>x y. x XOR ((x XOR y) AND doswap)) a b, map2 (\<lambda>x y. y XOR ((x XOR y) AND doswap)) a b)"

fun canon_loop :: "int \<Rightarrow> limb_t \<Rightarrow> fe \<Rightarrow> fe \<times> limb_t" where
  "canon_loop carry res [] = ([], res)"
| "canon_loop carry res (x # xs) =
     (let carry = carry + uint x; y = word_of_int carry; res = res OR y;
          (ys, res) = canon_loop (carry div 2 ^ 32) res xs in (y # ys, res))"

definition canon :: "fe \<Rightarrow> fe \<times> limb_t" where
  "canon x =
     (let (x, carry0) = adc0_loop 19 x;
          x = propagate x carry0;
          (x, res) = canon_loop (- 19) 0 x
      in (x, ucast (drop_bit 32 (ucast res - 1 :: u64))))"

definition a24 :: fe where
  "a24 = [121665]"

text \<open>The ladder works on \<open>xs = [x2, z2, x3, z3, t1]\<close>.\<close>

definition ladder_part1 :: "fe list \<Rightarrow> fe list" where
  "ladder_part1 xs =
     (let x2 = xs ! 0; z2 = xs ! 1; x3 = xs ! 2; z3 = xs ! 3;
          t1 = fe_add x2 z2;
          z2 = fe_sub x2 z2;
          x2 = fe_add x3 z3;
          z3 = fe_sub x3 z3;
          z3 = mul1 z3 t1;
          x2 = mul1 x2 z2;
          x3 = fe_add z3 x2;
          z3 = fe_sub z3 x2;
          t1 = sqr1 t1;
          z2 = sqr1 z2;
          x2 = fe_sub t1 z2;
          z2 = mul x2 a24 1;
          z2 = fe_add z2 t1
      in [x2, z2, x3, z3, t1])"

definition ladder_part2 :: "fe list \<Rightarrow> fe \<Rightarrow> fe list" where
  "ladder_part2 xs x1 =
     (let x2 = xs ! 0; z2 = xs ! 1; x3 = xs ! 2; z3 = xs ! 3; t1 = xs ! 4;
          z3 = sqr1 z3;
          z3 = mul1 z3 x1;
          x3 = sqr1 x3;
          z2 = mul1 z2 x2;
          x2 = fe_sub t1 x2;
          x2 = mul1 x2 t1
      in [x2, z2, x3, z3, t1])"

text \<open>\<open>condswap(x2, x3, m)\<close> exchanges the adjacent pairs \<open>x2, z2\<close> and \<open>x3, z3\<close>.\<close>

definition condswap_xs :: "fe list \<Rightarrow> limb_t \<Rightarrow> fe list" where
  "condswap_xs xs doswap =
     (let (a, b) = condswap (xs ! 0 @ xs ! 1) (xs ! 2 @ xs ! 3) doswap
      in [take NLIMBS a, drop NLIMBS a, take NLIMBS b, drop NLIMBS b, xs ! 4])"

text \<open>The scalar byte that holds bit \<open>i\<close>, clamped when asked.\<close>

definition scalar_byte :: "bytes \<Rightarrow> bool \<Rightarrow> nat \<Rightarrow> u8" where
  "scalar_byte scalar clamp i =
     (let bytei = scalar ! (i div 8)
      in if clamp then
           if i div 8 = 0 then bytei AND NOT 7
           else if i div 8 = 31 then (bytei AND 0x7F) OR 0x40
           else bytei
         else bytei)"

definition core_step :: "bytes \<Rightarrow> bool \<Rightarrow> fe \<Rightarrow> nat \<Rightarrow> fe list \<times> limb_t \<Rightarrow> fe list \<times> limb_t" where
  "core_step scalar clamp x1 i = (\<lambda>(xs, swap).
     let bytei = scalar_byte scalar clamp i;
         doswap = - ucast (drop_bit (i mod 8) bytei AND 1);
         xs = condswap_xs xs (swap XOR doswap)
     in (ladder_part2 (ladder_part1 xs) x1, doswap))"

text \<open>\<open>xs[4]\<close> holds whatever the caller's stack held; \<open>ladder_part1\<close> writes it before any read.\<close>

definition x25519_core :: "bytes \<Rightarrow> bytes \<Rightarrow> bool \<Rightarrow> fe list" where
  "x25519_core scalar x1 clamp =
     (let x1i = swapin x1;
          zero = replicate NLIMBS 0; one = zero[0 := 1];
          xs = [one, zero, x1i, one, zero];
          (xs, swap) = fold (core_step scalar clamp x1i) (rev [0..<256]) (xs, 0)
      in condswap_xs xs swap)"

definition inversion_steps :: "(nat \<times> nat \<times> nat) list" where
  "inversion_steps =
     [(2, 1, 1), (2, 1, 1), (4, 2, 3), (2, 4, 6), (3, 1, 1), (3, 2, 12), (4, 3, 25), (2, 3, 25),
      (2, 4, 50), (3, 2, 125), (3, 1, 2), (3, 1, 2), (3, 1, 1)]"

text \<open>A turn of the chain on \<open>(xs, prev)\<close>; \<open>prev\<close> is the index of the element \<open>prev\<close> points at.\<close>

definition inversion_step :: "nat \<times> nat \<times> nat \<Rightarrow> fe list \<times> nat \<Rightarrow> fe list \<times> nat" where
  "inversion_step = (\<lambda>(a, c, n) (xs, prev).
     let (xs, prev) = ((\<lambda>(xs, prev). (xs[a := sqr (xs ! prev)], a)) ^^ n) (xs, prev)
     in (xs[a := mul1 (xs ! a) (xs ! c)], prev))"

definition x25519 :: "bytes \<Rightarrow> bytes \<Rightarrow> bool \<Rightarrow> bytes \<times> int" where
  "x25519 scalar x1 clamp =
     (let xs = x25519_core scalar x1 clamp;
          (xs, prev) = fold inversion_step inversion_steps (xs, 1);
          (x2, ret) = canon (mul1 (xs ! 0) (xs ! 3));
          out = swapout x2
      in (out, if clamp then sint ret else 0))"

definition X25519_BASE_POINT :: bytes where
  "X25519_BASE_POINT = 9 # replicate 31 0"

definition x25519_base :: "bytes \<Rightarrow> bool \<Rightarrow> bytes \<times> int" where
  "x25519_base scalar clamp = x25519 scalar X25519_BASE_POINT clamp"

end
