(* ===== verification/X25519_Field.thy ===== *)
theory X25519_Field
  imports X25519
begin

text \<open>
  The field arithmetic of \<open>crypto/x25519.c\<close> modulo \<open>2 ^ 255 - 19\<close>: every operation returns eight
  limbs below \<open>2 ^ 255\<close> plus one word whose value is the sum, difference or product of the operands'
  values modulo the prime, and \<open>canon\<close> returns the least residue and recognises zero.
\<close>

section \<open>Values\<close>

definition p25519 :: int where
  "p25519 = 2 ^ 255 - 19"

fun fe_val :: "limb_t list \<Rightarrow> nat" where
  "fe_val [] = 0"
| "fe_val (x # xs) = unat x + 2 ^ 32 * fe_val xs"

text \<open>The bound \<open>propagate\<close> establishes, and the value of a field element modulo the prime.\<close>

definition red :: "fe \<Rightarrow> bool" where
  "red x \<longleftrightarrow> length x = 8 \<and> fe_val x < 2 ^ 255 + 2 ^ 32"

definition feq :: "fe \<Rightarrow> int \<Rightarrow> bool" where
  "feq x v \<longleftrightarrow> length x = 8 \<and> int (fe_val x) mod p25519 = v mod p25519"

lemma fe_val_bound: "fe_val xs < 2 ^ (32 * length xs)"
proof (induction xs)
  case (Cons x xs)
  have "unat x < 2 ^ 32" using unsigned_less [of x, where ?'a = nat] by simp
  moreover have "Suc (fe_val xs) \<le> 2 ^ (32 * length xs)" using Cons by simp
  ultimately have "unat x + 2 ^ 32 * fe_val xs < 2 ^ 32 * Suc (fe_val xs)" by simp
  also have "\<dots> \<le> 2 ^ 32 * 2 ^ (32 * length xs)"
    using \<open>Suc (fe_val xs) \<le> _\<close> by (rule mult_le_mono2)
  finally show ?case by (simp add: power_add)
qed simp

lemma fe_val_append: "fe_val (xs @ ys) = fe_val xs + 2 ^ (32 * length xs) * fe_val ys"
  by (induction xs) (simp_all add: algebra_simps power_add)

lemma fe_val_replicate_0 [simp]: "fe_val (replicate n 0) = 0"
  by (induction n) simp_all

lemma u32_lt: "unat (x :: u32) < 2 ^ 32"
  using unsigned_less [of x, where ?'a = nat] by simp

text \<open>A 64-bit total splits into its low limb and its carry.\<close>

lemma split_u64: "unat (ucast t :: u32) + 2 ^ 32 * unat (ucast (drop_bit 32 t) :: u32) = unat (t :: u64)"
proof -
  have l: "unat (ucast t :: u32) = unat t mod 2 ^ 32"
    by (simp add: unsigned_ucast_eq take_bit_eq_mod)
  have "unat t < 2 ^ 64" using unsigned_less [of t, where ?'a = nat] by simp
  then have "unat t div 2 ^ 32 < 2 ^ 32" by (intro less_mult_imp_div_less) simp
  then have "unat (ucast (drop_bit 32 t) :: u32) = unat t div 2 ^ 32"
    unfolding unsigned_ucast_eq unat_drop_bit_eq by (simp add: drop_bit_eq_div take_bit_eq_mod)
  with l show ?thesis by simp
qed

lemma split_total:
  "N < 2 ^ 64 \<Longrightarrow>
   unat (ucast (of_nat N :: u64) :: u32) + 2 ^ 32 * unat (ucast (drop_bit 32 (of_nat N :: u64)) :: u32) = N"
  unfolding split_u64 by (simp add: unat_of_nat)

lemma unat_ucast_u64: "unat (ucast (x :: u32) :: u64) = unat x"
  by (simp add: unsigned_ucast_eq take_bit_eq_mod) (use u32_lt [of x] in simp)

lemma ucast_of_nat: "(ucast (x :: u32) :: u64) = of_nat (unat x)"
  by (simp add: word_unat_eq_iff unat_ucast_u64)

lemma umaal_val:
  assumes "umaal c a m n = (y, c')"
  shows "unat y + 2 ^ 32 * unat c' = unat m * unat n + unat a + unat c"
proof -
  have "unat m * unat n \<le> (2 ^ 32 - 1) * (2 ^ 32 - 1)"
    using u32_lt [of m] u32_lt [of n] by (intro mult_le_mono) simp_all
  then have b: "unat m * unat n + unat a + unat c < 2 ^ 64" using u32_lt [of a] u32_lt [of c] by simp
  have "(ucast m * ucast n + ucast a + ucast c :: u64) = of_nat (unat m * unat n + unat a + unat c)"
    unfolding ucast_of_nat of_nat_add of_nat_mult ..
  with assms split_total [OF b] show ?thesis by (simp only: umaal_def Let_def prod.inject)
qed

lemma adc_val:
  assumes "adc c a m = (y, c')"
  shows "unat y + 2 ^ 32 * unat c' = unat a + unat m + unat c"
proof -
  have b: "unat c + unat a + unat m < 2 ^ 64" using u32_lt [of a] u32_lt [of c] u32_lt [of m] by simp
  have "(ucast c + ucast a + ucast m :: u64) = of_nat (unat c + unat a + unat m)"
    unfolding ucast_of_nat of_nat_add ..
  with assms split_total [OF b] show ?thesis by (simp only: adc_def Let_def prod.inject)
qed

lemma adc0_adc: "adc0 c a = adc c a 0"
  by (simp add: adc0_def adc_def)

section \<open>The loops\<close>

lemma adc0_loop_val:
  "adc0_loop c x = (y, c') \<Longrightarrow>
   length y = length x \<and> fe_val y + 2 ^ (32 * length x) * unat c' = fe_val x + unat c"
proof (induction x arbitrary: c y c')
  case (Cons a x)
  obtain z d where z: "adc0 c a = (z, d)" by fastforce
  obtain ys e where r: "adc0_loop d x = (ys, e)" by fastforce
  from Cons.prems z r have y: "y = z # ys" "c' = e" by auto
  from Cons.IH [OF r] adc_val [OF z [unfolded adc0_adc]] show ?case
    unfolding y by (simp add: power_add algebra_simps)
qed simp

lemma adc_loop_val:
  "length a = length b \<Longrightarrow> adc_loop c a b = (y, c') \<Longrightarrow>
   length y = length a \<and> fe_val y + 2 ^ (32 * length a) * unat c' = fe_val a + fe_val b + unat c"
proof (induction a b arbitrary: c y c' rule: list_induct2)
  case (Cons u a v b)
  obtain z d where z: "adc c u v = (z, d)" by fastforce
  obtain ys e where r: "adc_loop d a b = (ys, e)" by fastforce
  from Cons.prems z r have y: "y = z # ys" "c' = e" by auto
  from Cons.IH [OF r] adc_val [OF z] show ?case
    unfolding y by (simp add: power_add algebra_simps)
qed simp

lemma umaal_loop_val:
  "length a = length b \<Longrightarrow> umaal_loop m c a b = (y, c') \<Longrightarrow>
   length y = length a \<and>
   fe_val y + 2 ^ (32 * length a) * unat c' = fe_val a + unat m * fe_val b + unat c"
proof (induction a b arbitrary: c y c' rule: list_induct2)
  case (Cons u a v b)
  obtain z d where z: "umaal c u m v = (z, d)" by fastforce
  obtain ys e where r: "umaal_loop m d a b = (ys, e)" by fastforce
  from Cons.prems z r have y: "y = z # ys" "c' = e" by auto
  from Cons.IH [OF r] umaal_val [OF z] show ?case
    unfolding y by (simp add: power_add algebra_simps)
qed simp

text \<open>A signed total splits into its low limb and its floor.\<close>

lemma split_signed: "int (unat (word_of_int c :: u32)) + 2 ^ 32 * (c div 2 ^ 32) = c"
  by (simp add: uint_word_of_int flip: uint_nat)

lemma sbb_loop_val:
  "length a = length b \<Longrightarrow> sbb_loop c a b = (y, c') \<Longrightarrow>
   length y = length a \<and>
   int (fe_val y) + 2 ^ (32 * length a) * c' = int (fe_val a) - int (fe_val b) + c"
proof (induction a b arbitrary: c y c' rule: list_induct2)
  case (Cons u a v b)
  define d where "d = c + uint u - uint v"
  obtain ys e where r: "sbb_loop (d div 2 ^ 32) a b = (ys, e)" by fastforce
  from Cons.prems r have y: "y = word_of_int d # ys" "c' = e" by (auto simp: d_def Let_def)
  from Cons.IH [OF r] split_signed [of d] show ?case
    unfolding y d_def by (simp add: power_add algebra_simps)
qed simp

lemma canon_loop_val:
  "canon_loop c r x = (y, r') \<Longrightarrow>
   length y = length x \<and>
   (\<exists>e. int (fe_val y) + 2 ^ (32 * length x) * e = int (fe_val x) + c) \<and>
   (r' = 0 \<longleftrightarrow> r = 0 \<and> fe_val y = 0)"
proof (induction x arbitrary: c r y r')
  case (Cons u x)
  define d where "d = c + uint u"
  define w where "w = (word_of_int d :: u32)"
  obtain ys s where r: "canon_loop (d div 2 ^ 32) (r OR w) x = (ys, s)" by fastforce
  from Cons.prems r have y: "y = w # ys" "r' = s" by (auto simp: d_def w_def Let_def)
  from Cons.IH [OF r] obtain e where e: "length ys = length x"
    "int (fe_val ys) + 2 ^ (32 * length x) * e = int (fe_val x) + d div 2 ^ 32"
    "s = 0 \<longleftrightarrow> r OR w = 0 \<and> fe_val ys = 0" by blast
  have "int (fe_val y) + 2 ^ (32 * length (u # x)) * e = int (fe_val (u # x)) + c"
    using e(2) split_signed [of d] unfolding y w_def [symmetric]
    by (simp add: power_add algebra_simps d_def)
  with e show ?case unfolding y by (auto simp: or_eq_0_iff unat_eq_0)
qed simp

section \<open>Field operations\<close>

lemma high_bit_clear: "unat (h AND NOT (push_bit 31 1) :: u32) = unat h mod 2 ^ 31"
proof -
  have "h AND NOT (push_bit k 1) = take_bit k h" if "31 \<le> k" "k < 32" for k
    by (rule bit_word_eqI)
      (use that in \<open>auto simp: bit_and_iff bit_not_iff bit_push_bit_iff bit_take_bit_iff bit_exp_iff\<close>)
  then have "h AND NOT (push_bit 31 1) = take_bit 31 h" by (rule) simp_all
  then show ?thesis by (simp only: unsigned_take_bit_eq) (simp only: take_bit_eq_mod)
qed

lemma propagate_over:
  assumes "unat ov < 2 ^ 20"
  shows "unat ((drop_bit 31 h OR push_bit 1 ov) * 19 :: u32) = 19 * (unat h div 2 ^ 31 + 2 * unat ov)"
proof -
  have h: "unat h div 2 ^ 31 < 2" using u32_lt [of h] by (intro less_mult_imp_div_less) simp
  have "unat (drop_bit 31 h) = unat h div 2 ^ 31" by (subst unat_drop_bit_eq) (simp add: drop_bit_eq_div)
  then have d: "drop_bit 31 h = of_nat (unat h div 2 ^ 31)" by (metis of_nat_unat ucast_id)
  have "\<not> bit (drop_bit 31 h) n \<or> \<not> bit (push_bit 1 ov) n" for n
    using bit_imp_le_length [of h "31 + n"] unfolding bit_drop_bit_eq bit_push_bit_iff
    by (cases n) auto
  then have "drop_bit 31 h AND push_bit 1 ov = 0"
    by (intro bit_word_eqI) (simp add: bit_and_iff)
  then have "drop_bit 31 h OR push_bit 1 ov = drop_bit 31 h + push_bit 1 ov"
    by (simp add: disjunctive_add_eq_or)
  also have "\<dots> = of_nat (unat h div 2 ^ 31 + 2 * unat ov)"
    unfolding d by (simp add: push_bit_eq_mult mult.commute)
  finally have e: "(drop_bit 31 h OR push_bit 1 ov) * 19 = (of_nat (19 * (unat h div 2 ^ 31 + 2 * unat ov)) :: u32)"
    by (simp add: mult.commute)
  have "19 * (unat h div 2 ^ 31 + 2 * unat ov) < 2 ^ 32" using h assms by simp
  then show ?thesis unfolding e unat_of_nat by simp
qed

text \<open>What \<open>propagate\<close> computes, exactly: the part above \<open>2 ^ 255\<close> comes back times 19.\<close>

lemma propagate_val:
  assumes len: "length x = 8" and ov: "unat ov < 2 ^ 20"
  shows "length (propagate x ov) = 8"
    and "fe_val (propagate x ov) = fe_val x mod 2 ^ 255 + 19 * (fe_val x div 2 ^ 255 + 2 * unat ov)"
proof -
  obtain lo h where x: "x = lo @ [h]" "length lo = 7"
    using len by (cases x rule: rev_cases) auto
  define q r where qr: "q = unat h div 2 ^ 31" "r = unat h mod 2 ^ 31"
  have lo: "fe_val lo < 2 ^ 224" using fe_val_bound [of lo] x by simp
  have r: "r < 2 ^ 31" "q < 2" using u32_lt [of h] by (auto simp: qr intro: less_mult_imp_div_less)
  define L where "L = fe_val lo + 2 ^ 224 * r"
  have L: "L < 2 ^ 255" using lo r unfolding L_def by simp
  have "fe_val x = fe_val lo + 2 ^ 224 * (2 ^ 31 * q + r)" by (simp add: x fe_val_append qr)
  then have v: "fe_val x = L + 2 ^ 255 * q" by (simp add: L_def)
  have md: "fe_val x mod 2 ^ 255 = L" "fe_val x div 2 ^ 255 = q" unfolding v using L by simp_all
  define x' where "x' = lo @ [h AND NOT (push_bit 31 1)]"
  have vx': "fe_val x' = L" "length x' = 8"
    unfolding x'_def fe_val_append fe_val.simps high_bit_clear L_def qr using x by simp_all
  obtain y c where y: "adc0_loop ((drop_bit 31 h OR push_bit 1 ov) * 19) x' = (y, c)" by fastforce
  have pr: "propagate x ov = y"
    using x y by (simp add: propagate_def NLIMBS_def Let_def x'_def nth_append list_update_append)
  note a = adc0_loop_val [OF y, unfolded propagate_over [OF ov] vx' qr(1) [symmetric]]
  have "19 * (q + 2 * unat ov) < 2 ^ 32" using r(2) ov by simp
  with L a have "unat c = 0" by (cases "unat c") simp_all
  with a show "length (propagate x ov) = 8"
    "fe_val (propagate x ov) = fe_val x mod 2 ^ 255 + 19 * (fe_val x div 2 ^ 255 + 2 * unat ov)"
    unfolding pr md by simp_all
qed

lemma propagate_feq:
  assumes len: "length x = 8" and ov: "unat ov < 2 ^ 20"
    and v: "(int (fe_val x) + 2 ^ 256 * int (unat ov)) mod p25519 = v mod p25519"
  shows "red (propagate x ov)" "feq (propagate x ov) v"
proof -
  define q r where qr: "q = fe_val x div 2 ^ 255" "r = fe_val x mod 2 ^ 255"
  note p = propagate_val [OF len ov, folded qr]
  have "fe_val x < 2 ^ 256" using fe_val_bound [of x] len by simp
  then have "q < 2" unfolding qr by (intro less_mult_imp_div_less) simp
  moreover have "r < 2 ^ 255" unfolding qr by simp
  ultimately show "red (propagate x ov)" using p ov unfolding red_def by simp
  have "fe_val x = r + 2 ^ 255 * q" by (simp add: qr)
  then have "int (fe_val x) + 2 ^ 256 * int (unat ov)
      = int (fe_val (propagate x ov)) + p25519 * (int q + 2 * int (unat ov))"
    unfolding p(2) p25519_def by (simp add: algebra_simps)
  with v p(1) show "feq (propagate x ov) v" unfolding feq_def by simp
qed

lemma fe_add_feq:
  assumes "feq a v" "feq b w"
  shows "red (fe_add a b)" "feq (fe_add a b) (v + w)"
proof -
  have l: "length a = 8" "length b = 8" using assms by (auto simp: feq_def)
  obtain y c where y: "adc_loop 0 a b = (y, c)" by fastforce
  have e: "length y = 8" "fe_val y + 2 ^ 256 * unat c = fe_val a + fe_val b"
    using adc_loop_val [OF _ y] l by auto
  have "fe_val a < 2 ^ 256" "fe_val b < 2 ^ 256" using fe_val_bound [of a] fe_val_bound [of b] l by simp_all
  with e have c: "unat c < 2 ^ 20" by (cases "unat c < 2") simp_all
  have "int (fe_val y) + 2 ^ 256 * int (unat c) = int (fe_val a) + int (fe_val b)"
    using e(2) [THEN arg_cong [of _ _ int]] by simp
  moreover have "(int (fe_val a) + int (fe_val b)) mod p25519 = (v + w) mod p25519"
    using assms by (intro mod_add_cong) (auto simp: feq_def)
  ultimately have v: "(int (fe_val y) + 2 ^ 256 * int (unat c)) mod p25519 = (v + w) mod p25519" by simp
  show "red (fe_add a b)" "feq (fe_add a b) (v + w)"
    using propagate_feq [OF e(1) c v] y by (simp_all add: fe_add_def)
qed

lemma fe_sub_feq:
  assumes "feq a v" "feq b w" "red b"
  shows "red (fe_sub a b)" "feq (fe_sub a b) (v - w)"
proof -
  have l: "length a = 8" "length b = 8" using assms by (auto simp: feq_def)
  obtain y c where y: "sbb_loop (- 38) a b = (y, c)" by fastforce
  have e: "length y = 8" "int (fe_val y) + 2 ^ 256 * c = int (fe_val a) - int (fe_val b) - 38"
    using sbb_loop_val [OF _ y] l by auto
  define M where "M = (2 ^ 256 :: int)"
  have "fe_val a < 2 ^ 256" "fe_val y < 2 ^ 256" "fe_val b < 2 ^ 255 + 2 ^ 32"
    using fe_val_bound [of a] fe_val_bound [of y] l e assms(3) by (simp_all add: red_def)
  then have "int (fe_val a) < M" "int (fe_val y) < M" "int (fe_val b) + 38 < M"
    by (simp_all add: M_def)
  with e(2) have "M * c < M * 1" "M * (- 2) < M * c" unfolding M_def [symmetric] by linarith+
  moreover have "0 < M" by (simp add: M_def)
  ultimately have "c < 1" "- 2 < c" by (simp_all only: mult_less_cancel_left_pos)
  then have "c = - 1 \<or> c = 0" by arith
  then have c: "unat (word_of_int (1 + c) :: u32) < 2 ^ 20" "int (unat (word_of_int (1 + c) :: u32)) = 1 + c"
    by auto
  have "int (fe_val y) + 2 ^ 256 * (1 + c) = int (fe_val a) - int (fe_val b) + 2 * p25519"
    using e(2) unfolding p25519_def by (simp add: algebra_simps)
  then have "(int (fe_val y) + 2 ^ 256 * (1 + c)) mod p25519 = (int (fe_val a) - int (fe_val b)) mod p25519"
    by simp
  also have "\<dots> = (v - w) mod p25519"
    using assms by (intro mod_diff_cong) (auto simp: feq_def)
  finally have v: "(int (fe_val y) + 2 ^ 256 * int (unat (word_of_int (1 + c) :: u32))) mod p25519
      = (v - w) mod p25519" unfolding c(2) .
  show "red (fe_sub a b)" "feq (fe_sub a b) (v - w)"
    using propagate_feq [OF e(1) c(1) v] y by (simp_all add: fe_sub_def)
qed

lemma mul_rows_val:
  "length accum = 16 \<Longrightarrow> length a = 8 \<Longrightarrow> i + length b \<le> 8 \<Longrightarrow>
   drop (i + 8) accum = replicate (8 - i) 0 \<Longrightarrow>
   length (mul_rows i accum a b) = 16 \<and>
   fe_val (mul_rows i accum a b) = fe_val accum + 2 ^ (32 * i) * (fe_val a * fe_val b)"
proof (induction b arbitrary: i accum)
  case (Cons m b)
  define P S where PS: "P = take i accum" "S = take 8 (drop i accum)"
  have i: "i < 8" using Cons.prems by simp
  have len: "length P = i" "length S = 8" using Cons.prems by (simp_all add: PS)
  have split: "accum = P @ S @ replicate (8 - i) 0"
    unfolding PS Cons.prems(4) [symmetric] by (metis append_take_drop_id add.commute drop_drop)
  obtain row c where r: "umaal_loop m 0 S a = (row, c)" by fastforce
  have rv: "length row = 8" "fe_val row + 2 ^ 256 * unat c = fe_val S + unat m * fe_val a"
    using umaal_loop_val [OF _ r] len Cons.prems by simp_all
  define acc' where "acc' = P @ row @ [c] @ replicate (7 - i) 0"
  have acc': "patch i (row @ [c]) accum = acc'"
    using i len rv unfolding split patch_def acc'_def by simp
  have l': "length acc' = 16" "drop (Suc i + 8) acc' = replicate (8 - Suc i) 0"
    using i len rv by (simp_all add: acc'_def)
  have "fe_val acc' = fe_val P + 2 ^ (32 * i) * (fe_val row + 2 ^ 256 * unat c)"
    using len rv(1) by (simp add: acc'_def fe_val_append power_add algebra_simps)
  also have "\<dots> = fe_val accum + 2 ^ (32 * i) * (unat m * fe_val a)"
    unfolding rv(2) using len by (subst split) (simp add: fe_val_append algebra_simps)
  finally have v: "fe_val acc' = fe_val accum + 2 ^ (32 * i) * (unat m * fe_val a)" .
  have "mul_rows i accum a (m # b) = mul_rows (Suc i) acc' a b"
    using r acc' by (simp add: slice_def NLIMBS_def PS)
  with Cons.IH [OF l'(1) Cons.prems(2) _ l'(2)] Cons.prems(3) v show ?case
    by (simp add: power_add algebra_simps)
qed simp

lemma mul_feq:
  assumes "feq a v" "int (fe_val (take nb b)) mod p25519 = w mod p25519" "nb \<le> 8"
  shows "red (mul a b nb)" "feq (mul a b nb) (v * w)"
proof -
  have l: "length a = 8" using assms by (simp add: feq_def)
  define ac where "ac = mul_rows 0 (replicate 16 0) a (take nb b)"
  have ac: "length ac = 16" "fe_val ac = fe_val a * fe_val (take nb b)"
    using mul_rows_val [of "replicate 16 0" a 0 "take nb b"] l assms(3) by (simp_all add: ac_def)
  define lo hi where lh: "lo = take 8 ac" "hi = drop 8 ac"
  have len: "length lo = 8" "length hi = 8" using ac by (simp_all add: lh)
  have "fe_val (lo @ hi) = fe_val ac" by (simp add: lh)
  then have sum: "fe_val lo + 2 ^ 256 * fe_val hi = fe_val a * fe_val (take nb b)"
    using len ac by (simp add: fe_val_append)
  obtain y c where y: "umaal_loop 38 0 lo hi = (y, c)" by fastforce
  have e: "length y = 8" "fe_val y + 2 ^ 256 * unat c = fe_val lo + 38 * fe_val hi"
    using umaal_loop_val [OF _ y] len by simp_all
  define M where "M = (2 ^ 256 :: nat)"
  have "fe_val lo < M" "fe_val hi < M" using fe_val_bound [of lo] fe_val_bound [of hi] len by (simp_all add: M_def)
  with e(2) have "M * unat c < M * 39" unfolding M_def [symmetric] by linarith
  then have c: "unat c < 2 ^ 20" by (simp add: M_def)
  have "int (fe_val y) + 2 ^ 256 * int (unat c) = int (fe_val lo) + 38 * int (fe_val hi)"
    using e(2) [THEN arg_cong [of _ _ int]] by simp
  also have "\<dots> = int (fe_val a) * int (fe_val (take nb b)) + p25519 * (- 2 * int (fe_val hi))"
    using sum [THEN arg_cong [of _ _ int]] unfolding p25519_def by (simp add: algebra_simps)
  finally have "(int (fe_val y) + 2 ^ 256 * int (unat c)) mod p25519
      = (int (fe_val a) * int (fe_val (take nb b))) mod p25519" by (simp only: mod_mult_self2)
  also have "\<dots> = (v * w) mod p25519"
    using assms by (intro mod_mult_cong) (auto simp: feq_def)
  finally have v: "(int (fe_val y) + 2 ^ 256 * int (unat c)) mod p25519 = (v * w) mod p25519" .
  have m: "mul a b nb = propagate y c"
    using y by (simp add: mul_def NLIMBS_def ac_def [symmetric] lh)
  show "red (mul a b nb)" "feq (mul a b nb) (v * w)"
    unfolding m using propagate_feq [OF e(1) c v] by simp_all
qed

lemma mul1_feq:
  assumes "feq out w" "feq a v" shows "red (mul1 out a)" "feq (mul1 out a) (v * w)"
  using mul_feq [OF assms(2), of 8 out w] assms(1) by (simp_all add: mul1_def NLIMBS_def feq_def)

lemma sqr1_feq:
  assumes "feq a v" shows "red (sqr1 a)" "feq (sqr1 a) (v * v)"
  using mul1_feq [OF assms assms] by (simp_all add: sqr1_def)

lemma sqr_feq:
  assumes "feq a v" shows "red (sqr a)" "feq (sqr a) (v * v)"
  using mul1_feq [OF assms assms] by (simp_all add: sqr_def mul1_def)

lemmas fe_ops_feq = fe_add_feq fe_sub_feq mul1_feq sqr1_feq sqr_feq

text \<open>The least residue, and the all-ones word exactly for zero.\<close>

lemma canon_val:
  assumes x: "red x" and c: "canon x = (y, r)"
  shows "length y = 8" "int (fe_val y) = int (fe_val x) mod p25519"
    "r = (if fe_val y = 0 then - 1 else 0)"
proof -
  have len: "length x = 8" and b: "fe_val x < 2 ^ 255 + 2 ^ 32" using x by (auto simp: red_def)
  obtain x1 c0 where 1: "adc0_loop 19 x = (x1, c0)" by fastforce
  have x1: "length x1 = 8" "fe_val x1 + 2 ^ 256 * unat c0 = fe_val x + 19"
    using adc0_loop_val [OF 1] len by simp_all
  then have c0: "unat c0 = 0" using b by (cases "unat c0") simp_all
  define q where "q = fe_val x1 div 2 ^ 255"
  define x2 where "x2 = propagate x1 c0"
  have x2: "length x2 = 8" "fe_val x2 = fe_val x1 mod 2 ^ 255 + 19 * q"
    using propagate_val [OF x1(1), of c0] c0 by (simp_all add: x2_def q_def)
  have V: "fe_val x1 = fe_val x + 19" using x1(2) c0 by simp
  have "fe_val x2 < 2 ^ 255 \<and> int (fe_val x2) - 19 = int (fe_val x) mod p25519"
  proof (cases "fe_val x + 19 < 2 ^ 255")
    case True
    then have "fe_val x2 = fe_val x + 19" using x2(2) V by (simp add: q_def)
    moreover have "int (fe_val x) < p25519" using True by (simp add: p25519_def)
    ultimately show ?thesis using True by simp
  next
    case False
    then have "q = 1" unfolding q_def V using b by (intro div_nat_eqI) simp_all
    moreover have "fe_val x1 = 2 ^ 255 * q + fe_val x1 mod 2 ^ 255" by (simp add: q_def)
    ultimately have e: "fe_val x2 + 2 ^ 255 = fe_val x + 19 + 19" using x2(2) V by simp
    have i: "int (fe_val x2) - 19 = int (fe_val x) - p25519"
      using e [THEN arg_cong [of _ _ int]] by (simp add: p25519_def)
    have "0 \<le> int (fe_val x) - p25519" "int (fe_val x) - p25519 < p25519"
      using False b by (simp_all add: p25519_def)
    then have "int (fe_val x2) - 19 = int (fe_val x) mod p25519"
      unfolding i by (metis mod_pos_pos_trivial minus_mod_self2)
    with e b show ?thesis by simp
  qed
  then have key: "fe_val x2 < 2 ^ 255" "int (fe_val x2) - 19 = int (fe_val x) mod p25519" by auto
  obtain res where 3: "canon_loop (- 19) 0 x2 = (y, res)" "r = ucast (drop_bit 32 (ucast res - 1 :: u64))"
    using c 1 by (auto simp: canon_def Let_def x2_def split: prod.splits)
  from canon_loop_val [OF 3(1)] x2(1) obtain e where
    y: "length y = 8" "int (fe_val y) + 2 ^ 256 * e = int (fe_val x2) - 19" "res = 0 \<longleftrightarrow> fe_val y = 0"
    by auto
  define M where "M = (2 ^ 256 :: int)"
  have "fe_val y < 2 ^ 256" using fe_val_bound [of y] y(1) by simp
  then have yb: "int (fe_val y) < M" by (simp add: M_def)
  have pb: "0 \<le> int (fe_val x) mod p25519" "int (fe_val x) mod p25519 < M"
    using pos_mod_bound [of p25519 "int (fe_val x)"] by (simp_all add: p25519_def M_def)
  from y(2) yb pb key(2) have "M * e < M * 1" "M * (- 1) < M * e" unfolding M_def [symmetric] by linarith+
  then have "e = 0" by (simp add: M_def)
  with y(2) key(2) show "int (fe_val y) = int (fe_val x) mod p25519" by simp
  show "length y = 8" by (rule y(1))
  show "r = (if fe_val y = 0 then - 1 else 0)"
  proof (cases "res = 0")
    case False
    then have "0 < unat res" by (simp add: unat_gt_0)
    then have "(ucast res - 1 :: u64) = of_nat (unat res - 1)"
      unfolding ucast_of_nat by (simp add: of_nat_diff)
    moreover have "unat (of_nat (unat res - 1) :: u64) = unat res - 1"
      using u32_lt [of res] by (simp add: unat_of_nat)
    ultimately have "unat (drop_bit 32 (ucast res - 1 :: u64)) = (unat res - 1) div 2 ^ 32"
      by (simp only: unat_drop_bit_eq) (simp only: drop_bit_eq_div)
    then have "drop_bit 32 (ucast res - 1 :: u64) = 0" using u32_lt [of res] by (simp add: unat_eq_0)
    with False y(3) 3(2) show ?thesis by simp
  next
    case True
    have "(ucast (mask 32 :: u64) :: u32) = - 1"
      by (rule bit_word_eqI) (simp add: bit_unsigned_iff bit_mask_iff)
    with True y(3) 3(2) show ?thesis by simp
  qed
qed

end
