(* ===== verification/X25519_Ladder.thy ===== *)
theory X25519_Ladder
  imports X25519_Field
begin

text \<open>
  The Montgomery ladder and the whole of \<open>x25519\<close> against RFC 7748, over the integers modulo
  \<open>2 ^ 255 - 19\<close>: the limb code with its lazy conditional swaps and the inversion chain computes
  \<open>X * Z ^ (p - 2)\<close> for the ladder's result \<open>(X, Z)\<close>, reduced, and reports a zero result.
\<close>

section \<open>The reference ladder\<close>

type_synonym mpair = "int \<times> int"

text \<open>One combined doubling and differential addition of RFC 7748, section 5.\<close>

definition mont_step :: "int \<Rightarrow> mpair \<Rightarrow> mpair \<Rightarrow> mpair \<times> mpair" where
  "mont_step x1 = (\<lambda>(x2, z2) (x3, z3).
     let A = x2 + z2; AA = A * A; B = x2 - z2; BB = B * B; E = AA - BB;
         C = x3 + z3; D = x3 - z3; DA = D * A; CB = C * B
     in ((AA * BB, E * (AA + 121665 * E)),
         ((DA + CB) * (DA + CB), x1 * ((DA - CB) * (DA - CB)))))"

text \<open>A scalar bit decides which of the two points is doubled.\<close>

definition mont_bit :: "int \<Rightarrow> bool \<Rightarrow> mpair \<times> mpair \<Rightarrow> mpair \<times> mpair" where
  "mont_bit x1 b = (\<lambda>(P, Q). if b then prod.swap (mont_step x1 Q P) else mont_step x1 P Q)"

text \<open>The ladder over the scalar's bits, most significant first.\<close>

definition mont_ladder :: "int \<Rightarrow> bool list \<Rightarrow> mpair" where
  "mont_ladder x1 bits = fst (fold (mont_bit x1) bits ((1, 0), (x1, 1)))"

definition scalar_bits :: "bytes \<Rightarrow> bool \<Rightarrow> bool list" where
  "scalar_bits scalar clamp = map (\<lambda>i. bit (scalar_byte scalar clamp i) (i mod 8)) (rev [0..<256])"

text \<open>The clamped scalar of RFC 7748: bits 0 to 2 and 255 clear, bit 254 set.\<close>

definition clamp_scalar :: "nat \<Rightarrow> nat" where
  "clamp_scalar n = push_bit 3 (drop_bit 3 (take_bit 254 n)) OR 2 ^ 254"

section \<open>The ladder step on limbs\<close>

definition pair_feq :: "fe \<Rightarrow> fe \<Rightarrow> mpair \<Rightarrow> bool" where
  "pair_feq x z P \<longleftrightarrow> feq x (fst P) \<and> feq z (snd P) \<and> red z"

definition xs_feq :: "fe list \<Rightarrow> mpair \<times> mpair \<Rightarrow> bool" where
  "xs_feq xs PQ \<longleftrightarrow> length xs = 5 \<and> pair_feq (xs ! 0) (xs ! 1) (fst PQ) \<and> pair_feq (xs ! 2) (xs ! 3) (snd PQ)"

lemma feq_cong: "feq x v \<Longrightarrow> v = w \<Longrightarrow> feq x w"
  by simp

lemma ladder_step:
  assumes "xs_feq xs (P, Q)" and "feq x1i x1"
  shows "xs_feq (ladder_part2 (ladder_part1 xs) x1i) (mont_step x1 P Q)"
proof -
  obtain x2 z2 x3 z3 where PQ: "P = (x2, z2)" "Q = (x3, z3)" by fastforce
  define a b c d where abcd: "a = xs ! 0" "b = xs ! 1" "c = xs ! 2" "d = xs ! 3"
  have i: "feq a x2" "feq b z2" "red b" "feq c x3" "feq d z3" "red d"
    using assms PQ by (auto simp: xs_feq_def pair_feq_def abcd)
  define t1 where "t1 = fe_add a b"
  have t1: "feq t1 (x2 + z2)" unfolding t1_def by (rule fe_add_feq [OF i(1,2)])
  define z2' where "z2' = fe_sub a b"
  have z2': "feq z2' (x2 - z2)" unfolding z2'_def by (rule fe_sub_feq [OF i(1-3)])
  define x2' where "x2' = mul1 (fe_add c d) z2'"
  have x2': "feq x2' ((x2 - z2) * (x3 + z3))" "red x2'"
    unfolding x2'_def by (rule mul1_feq [OF fe_add_feq(2) [OF i(4,5)] z2'])+
  define z3' where "z3' = mul1 (fe_sub c d) t1"
  have z3': "feq z3' ((x2 + z2) * (x3 - z3))"
    unfolding z3'_def by (rule mul1_feq [OF fe_sub_feq(2) [OF i(4-6)] t1])
  define t1' where "t1' = sqr1 t1"
  have t1': "feq t1' ((x2 + z2) * (x2 + z2))" unfolding t1'_def by (rule sqr1_feq [OF t1])
  define z2'' where "z2'' = sqr1 z2'"
  have z2'': "feq z2'' ((x2 - z2) * (x2 - z2))" "red z2''"
    unfolding z2''_def by (rule sqr1_feq [OF z2'])+
  define x2'' where "x2'' = fe_sub t1' z2''"
  have x2'': "feq x2'' ((x2 + z2) * (x2 + z2) - (x2 - z2) * (x2 - z2))" "red x2''"
    unfolding x2''_def by (rule fe_sub_feq [OF t1' z2''])+
  define e24 where "e24 = fe_add (mul x2'' a24 1) t1'"
  have "feq (mul x2'' a24 1) (((x2 + z2) * (x2 + z2) - (x2 - z2) * (x2 - z2)) * 121665)"
    by (rule mul_feq(2) [OF x2''(1)]) (simp_all add: a24_def)
  from fe_add_feq(2) [OF this t1'] have e24: "feq e24
      (((x2 + z2) * (x2 + z2) - (x2 - z2) * (x2 - z2)) * 121665 + (x2 + z2) * (x2 + z2))"
    unfolding e24_def .
  have p1: "ladder_part1 xs = [x2'', e24, fe_add z3' x2', fe_sub z3' x2', t1']"
    unfolding ladder_part1_def Let_def abcd [symmetric] t1_def [symmetric] z2'_def [symmetric]
      x2'_def [symmetric] z3'_def [symmetric] t1'_def [symmetric] z2''_def [symmetric]
      x2''_def [symmetric] e24_def [symmetric] by (rule refl)
  have p2: "ladder_part2 (ladder_part1 xs) x1i
      = [mul1 (fe_sub t1' x2'') t1', mul1 e24 x2'', sqr1 (fe_add z3' x2'),
         mul1 (sqr1 (fe_sub z3' x2')) x1i, t1']"
    unfolding p1 ladder_part2_def Let_def by simp
  have X2: "feq (mul1 (fe_sub t1' x2'') t1') (fst (fst (mont_step x1 P Q)))"
    by (rule feq_cong [OF mul1_feq(2) [OF fe_sub_feq(2) [OF t1' x2''] t1']])
      (simp add: mont_step_def PQ Let_def)
  have Z2: "feq (mul1 e24 x2'') (snd (fst (mont_step x1 P Q)))" "red (mul1 e24 x2'')"
    by (rule feq_cong [OF mul1_feq(2) [OF e24 x2''(1)]])
      (simp add: mont_step_def PQ Let_def algebra_simps, rule mul1_feq [OF e24 x2''(1)])
  have X3: "feq (sqr1 (fe_add z3' x2')) (fst (snd (mont_step x1 P Q)))"
    by (rule feq_cong [OF sqr1_feq(2) [OF fe_add_feq(2) [OF z3' x2'(1)]]])
      (simp add: mont_step_def PQ Let_def mult.commute)
  note dz = sqr1_feq(2) [OF fe_sub_feq(2) [OF z3' x2']]
  have Z3: "feq (mul1 (sqr1 (fe_sub z3' x2')) x1i) (snd (snd (mont_step x1 P Q)))"
    "red (mul1 (sqr1 (fe_sub z3' x2')) x1i)"
    by (rule feq_cong [OF mul1_feq(2) [OF dz assms(2)]])
      (simp add: mont_step_def PQ Let_def mult.commute, rule mul1_feq [OF dz assms(2)])
  show ?thesis
    unfolding xs_feq_def pair_feq_def p2 using X2 Z2 X3 Z3 by simp
qed

section \<open>Conditional swaps\<close>

lemma condswap_0: "length a = length b \<Longrightarrow> condswap a b 0 = (a, b)"
  by (auto simp: condswap_def intro!: nth_equalityI)

lemma condswap_1: "length a = length b \<Longrightarrow> condswap a b (- 1) = (b, a)"
proof -
  have 1: "x XOR (x XOR y) = y" for x y :: u32 by (simp flip: xor.assoc)
  have "x XOR (x XOR y) = y" "y XOR (x XOR y) = x" for x y :: u32
    by (rule 1) (metis 1 xor.commute)
  then show "length a = length b \<Longrightarrow> condswap a b (- 1) = (b, a)"
    by (auto simp: condswap_def intro!: nth_equalityI)
qed

text \<open>The mask of a bit, and what a masked swap does to the related pairs.\<close>

definition swap_mask :: "bool \<Rightarrow> limb_t" where
  "swap_mask b = (if b then - 1 else 0)"

lemma swap_mask_xor: "swap_mask a XOR swap_mask b = swap_mask (a \<noteq> b)"
  by (simp add: swap_mask_def)

lemma condswap_xs_feq:
  assumes "xs_feq xs PQ"
  shows "xs_feq (condswap_xs xs (swap_mask b)) (if b then prod.swap PQ else PQ)"
proof -
  have l: "length (xs ! 0) = 8" "length (xs ! 1) = 8" "length (xs ! 2) = 8" "length (xs ! 3) = 8"
    using assms by (auto simp: xs_feq_def pair_feq_def feq_def)
  then have "condswap_xs xs (swap_mask b) = (if b then [xs ! 2, xs ! 3, xs ! 0, xs ! 1, xs ! 4]
      else [xs ! 0, xs ! 1, xs ! 2, xs ! 3, xs ! 4])"
    by (simp add: condswap_xs_def swap_mask_def condswap_0 condswap_1 NLIMBS_def)
  with assms show ?thesis by (auto simp: xs_feq_def)
qed

lemma doswap_mask: "- ucast (drop_bit k (w :: u8) AND 1) = swap_mask (bit w k)"
  by (simp add: swap_mask_def and_one_eq bit_iff_odd_drop_bit mod_2_eq_odd)

section \<open>The loop over the scalar\<close>

lemma core_step_feq:
  assumes "xs_feq xs (if s then prod.swap PQ else PQ)" and "feq x1i x1"
    and b: "b = bit (scalar_byte scalar clamp i) (i mod 8)"
    and r: "core_step scalar clamp x1i i (xs, swap_mask s) = (xs', m)"
  shows "m = swap_mask b"
    and "xs_feq xs' (if b then prod.swap (mont_bit x1 b PQ) else mont_bit x1 b PQ)"
proof -
  define ys where "ys = condswap_xs xs (swap_mask (s \<noteq> b))"
  have m: "m = swap_mask b" "xs' = ladder_part2 (ladder_part1 ys) x1i"
    using r by (simp_all add: core_step_def Let_def doswap_mask swap_mask_xor b ys_def)
  show "m = swap_mask b" by (rule m)
  have "xs_feq ys (if b then prod.swap PQ else PQ)"
    using condswap_xs_feq [OF assms(1), of "s \<noteq> b"] unfolding ys_def by (cases s; cases b) simp_all
  then have "xs_feq ys (fst (if b then prod.swap PQ else PQ), snd (if b then prod.swap PQ else PQ))" by simp
  from ladder_step [OF this assms(2)]
  show "xs_feq xs' (if b then prod.swap (mont_bit x1 b PQ) else mont_bit x1 b PQ)"
    unfolding m(2) by (cases PQ) (simp add: mont_bit_def split: if_splits)
qed

lemma core_fold_feq:
  assumes "xs_feq xs (if s then prod.swap PQ else PQ)" and "feq x1i x1"
    and "PQ' = fold (mont_bit x1) (map (\<lambda>i. bit (scalar_byte scalar clamp i) (i mod 8)) is) PQ"
  shows "\<exists>xs' s'. fold (core_step scalar clamp x1i) is (xs, swap_mask s) = (xs', swap_mask s') \<and>
     xs_feq xs' (if s' then prod.swap PQ' else PQ')"
  using assms(1,3)
proof (induction "is" arbitrary: xs s PQ)
  case (Cons i "is")
  obtain xs1 m where r: "core_step scalar clamp x1i i (xs, swap_mask s) = (xs1, m)" by fastforce
  from core_step_feq [OF Cons.prems(1) assms(2) refl r] Cons.IH Cons.prems(2) r show ?case by auto
next
  case Nil
  then show ?case by (intro exI [of _ xs] exI [of _ s]) (cases s; simp)
qed

lemma feq_fe_val: "length x = 8 \<Longrightarrow> feq x (int (fe_val x))"
  by (simp add: feq_def)

lemma fe_val_map_U8TO32:
  assumes "length x = 4 * n"
  shows "fe_val (map (\<lambda>i. U8TO32_LITTLE (drop (4 * i) x)) [0..<n]) = le_val x"
  using assms
proof (induction n arbitrary: x)
  case (Suc n)
  have "x = take 4 x @ drop 4 x" by simp
  moreover obtain a b c d where "take 4 x = [a, b, c, d]"
    using Suc.prems by (auto simp: numeral_eq_Suc length_Suc_conv Suc_le_length_iff)
  ultimately obtain y where x: "x = a # b # c # d # y" by simp
  have y: "length y = 4 * n" using Suc.prems x by simp
  have "map (\<lambda>i. U8TO32_LITTLE (drop (4 * i) x)) [0..<Suc n]
      = U8TO32_LITTLE x # map (\<lambda>i. U8TO32_LITTLE (drop (4 * i) y)) [0..<n]"
    by (simp add: map_upt_Suc x drop_Cons' del: upt_Suc)
  moreover have "unat (U8TO32_LITTLE x) = le_val [a, b, c, d]"
    by (simp add: unat_U8TO32_LITTLE x)
  ultimately show ?case using Suc.IH [OF y] by (simp add: x)
qed simp

lemma swapin_val: "length x = 32 \<Longrightarrow> fe_val (swapin x) = le_val x"
  using fe_val_map_U8TO32 [of x 8] by (simp add: swapin_def NLIMBS_def)

lemma length_swapin [simp]: "length (swapin x) = 8"
  by (simp add: swapin_def NLIMBS_def)

lemma swapout_val: "le_val (swapout x) = fe_val x" "length (swapout x) = 4 * length x"
  by (induction x) (simp_all add: swapout_def le_val_append le_val_U32TO8_LITTLE)

lemma x25519_core_feq:
  assumes "length x1 = 32"
  shows "\<exists>Q. xs_feq (x25519_core scalar x1 clamp)
     (mont_ladder (int (le_val x1)) (scalar_bits scalar clamp), Q)"
proof -
  define x1i where "x1i = swapin x1"
  define zero where "zero = replicate NLIMBS (0 :: limb_t)"
  define one where "one = zero[0 := 1]"
  define xs where "xs = [one, zero, x1i, one, zero]"
  have z: "feq zero 0" "red zero" by (simp_all add: zero_def NLIMBS_def feq_def red_def)
  have "replicate 8 (0 :: limb_t) = 0 # replicate 7 0" by (simp add: numeral_eq_Suc)
  then have "one = 1 # replicate 7 0" by (simp add: one_def zero_def NLIMBS_def)
  then have "fe_val one = 1" "length one = 8" by simp_all
  then have o: "feq one 1" "red one" by (simp_all add: feq_def red_def)
  have x1: "feq x1i (int (le_val x1))"
    using feq_fe_val [of x1i] assms by (simp add: x1i_def swapin_val)
  have i: "xs_feq xs (if False then prod.swap ((1, 0), (int (le_val x1), 1)) else ((1, 0), (int (le_val x1), 1)))"
    using z o x1 by (simp add: xs_feq_def pair_feq_def xs_def)
  define PQ where "PQ = fold (mont_bit (int (le_val x1))) (scalar_bits scalar clamp)
    ((1, 0), (int (le_val x1), 1))"
  from core_fold_feq [OF i x1 PQ_def [unfolded scalar_bits_def]] obtain xs' s' where
    f: "fold (core_step scalar clamp x1i) (rev [0..<256]) (xs, swap_mask False) = (xs', swap_mask s')"
      "xs_feq xs' (if s' then prod.swap PQ else PQ)" by blast
  have "x25519_core scalar x1 clamp = condswap_xs xs' (swap_mask s')"
    using f(1) by (simp add: x25519_core_def Let_def x1i_def xs_def zero_def one_def swap_mask_def)
  moreover have "xs_feq (condswap_xs xs' (swap_mask s')) PQ"
    using condswap_xs_feq [OF f(2), of s'] by (cases s') simp_all
  moreover have "PQ = (mont_ladder (int (le_val x1)) (scalar_bits scalar clamp), snd PQ)"
    by (simp add: mont_ladder_def PQ_def)
  ultimately show ?thesis by metis
qed

section \<open>The inversion chain\<close>

text \<open>The chain on exponents: \<open>Some k\<close> for a register that holds the \<open>k\<close>-th power of \<open>z2\<close>.\<close>

definition chain_step :: "nat \<times> nat \<times> nat \<Rightarrow> nat option list \<times> nat \<Rightarrow> nat option list \<times> nat" where
  "chain_step = (\<lambda>(a, c, n) (E, prev).
     (E[a := Some (the (E ! prev) * 2 ^ n + the (E ! c))], a))"

definition powers :: "int \<Rightarrow> fe list \<Rightarrow> nat option list \<Rightarrow> bool" where
  "powers z xs E \<longleftrightarrow> length xs = 5 \<and> length E = 5 \<and>
     (\<forall>j<5. \<forall>k. E ! j = Some k \<longrightarrow> feq (xs ! j) (z ^ k))"

lemma sqr_iter:
  assumes "length xs = 5" "prev < 5" "a < 5" "feq (xs ! prev) (z ^ k)"
  shows "\<exists>xs'. ((\<lambda>(xs, prev). (xs[a := sqr (xs ! prev)], a)) ^^ Suc n) (xs, prev) = (xs', a) \<and>
    length xs' = 5 \<and> feq (xs' ! a) (z ^ (k * 2 ^ Suc n)) \<and> (\<forall>j. j \<noteq> a \<longrightarrow> xs' ! j = xs ! j)"
proof (induction n)
  case 0
  have "feq (sqr (xs ! prev)) (z ^ (k * 2))"
    using sqr_feq(2) [OF assms(4)] by (simp add: power_mult power2_eq_square)
  then show ?case using assms by simp
next
  case (Suc n)
  then obtain xs' where s: "((\<lambda>(xs, prev). (xs[a := sqr (xs ! prev)], a)) ^^ Suc n) (xs, prev) = (xs', a)"
    "length xs' = 5" "feq (xs' ! a) (z ^ (k * 2 ^ Suc n))" "\<forall>j. j \<noteq> a \<longrightarrow> xs' ! j = xs ! j" by blast
  have e: "k * 2 ^ Suc (Suc n) = k * 2 ^ Suc n + k * 2 ^ Suc n" by simp
  have "feq (sqr (xs' ! a)) (z ^ (k * 2 ^ Suc (Suc n)))"
    unfolding e power_add by (rule sqr_feq(2) [OF s(3)])
  with s assms show ?case
    unfolding funpow.simps(2) [of "Suc n"] comp_def s(1) by simp
qed

lemma inversion_step_powers:
  assumes "powers z xs E" "prev < 5" "E ! prev = Some k" "c < 5" "E ! c = Some l" "a < 5" "a \<noteq> c" "0 < n"
  shows "\<exists>xs'. inversion_step (a, c, n) (xs, prev) = (xs', a) \<and> powers z xs' (fst (chain_step (a, c, n) (E, prev)))
     \<and> (\<forall>j. j \<noteq> a \<longrightarrow> xs' ! j = xs ! j)"
proof -
  obtain n' where n: "n = Suc n'" using assms(8) by (cases n) auto
  have len: "length xs = 5" and p: "feq (xs ! prev) (z ^ k)" "feq (xs ! c) (z ^ l)"
    using assms by (auto simp: powers_def)
  from sqr_iter [OF len assms(2,6) p(1), of n'] obtain xs' where
    s: "((\<lambda>(xs, prev). (xs[a := sqr (xs ! prev)], a)) ^^ n) (xs, prev) = (xs', a)" "length xs' = 5"
      "feq (xs' ! a) (z ^ (k * 2 ^ n))" "\<forall>j. j \<noteq> a \<longrightarrow> xs' ! j = xs ! j"
    unfolding n by blast
  have "feq (mul1 (xs' ! a) (xs' ! c)) (z ^ (k * 2 ^ n + l))"
    by (rule feq_cong [OF mul1_feq(2) [OF s(3), of "xs' ! c" "z ^ l"]])
      (use p s assms in \<open>simp_all add: power_add mult.commute\<close>)
  moreover have "inversion_step (a, c, n) (xs, prev) = (xs'[a := mul1 (xs' ! a) (xs' ! c)], a)"
    unfolding inversion_step_def split_conv s(1) by simp
  ultimately show ?thesis
    using assms s by (auto simp: powers_def chain_step_def nth_list_update)
qed

fun chain_ok :: "(nat \<times> nat \<times> nat) list \<Rightarrow> nat option list \<times> nat \<Rightarrow> bool" where
  "chain_ok [] s = True"
| "chain_ok ((a, c, n) # steps) (E, prev) =
     (prev < 5 \<and> E ! prev \<noteq> None \<and> c < 5 \<and> E ! c \<noteq> None \<and> a < 5 \<and> a \<noteq> c \<and> a \<noteq> 0 \<and> 0 < n \<and>
      chain_ok steps (chain_step (a, c, n) (E, prev)))"

lemma inversion_fold_powers:
  "powers z xs E \<Longrightarrow> chain_ok steps (E, prev) \<Longrightarrow>
   \<exists>xs' p. fold inversion_step steps (xs, prev) = (xs', p) \<and>
     powers z xs' (fst (fold chain_step steps (E, prev))) \<and> xs' ! 0 = xs ! 0"
proof (induction steps arbitrary: xs E prev)
  case (Cons s steps)
  obtain a c n where s: "s = (a, c, n)" by (cases s)
  from Cons.prems(2) s obtain k l where *: "prev < 5" "E ! prev = Some k" "c < 5" "E ! c = Some l" "a < 5"
    "a \<noteq> c" "a \<noteq> 0" "0 < n" "chain_ok steps (chain_step (a, c, n) (E, prev))" by auto
  from inversion_step_powers [OF Cons.prems(1) *(1-6,8)] obtain xs' where
    1: "inversion_step (a, c, n) (xs, prev) = (xs', a)"
      "powers z xs' (fst (chain_step (a, c, n) (E, prev)))" "\<forall>j. j \<noteq> a \<longrightarrow> xs' ! j = xs ! j" by blast
  have 2: "chain_step (a, c, n) (E, prev) = (fst (chain_step (a, c, n) (E, prev)), a)"
    by (simp add: chain_step_def)
  from Cons.IH [OF 1(2), of a] *(9) 2 1 *(7) show ?case unfolding s by fastforce
qed simp

lemma inversion_chain_exponent:
  "chain_ok inversion_steps ([None, Some 1, None, None, None], 1)"
  "fst (fold chain_step inversion_steps ([None, Some 1, None, None, None], 1)) ! 3 = Some (2 ^ 255 - 21)"
  by (simp_all add: inversion_steps_def chain_step_def)

lemma x25519_val:
  assumes "length x1 = 32" and XZ: "(X, Z) = mont_ladder (int (le_val x1)) (scalar_bits scalar clamp)"
    and r: "x25519 scalar x1 clamp = (out, ret)"
  shows "length out = 32" "int (le_val out) = X * Z ^ (2 ^ 255 - 21) mod p25519"
    "ret = (if clamp \<and> le_val out = 0 then - 1 else 0)"
proof -
  define xs where "xs = x25519_core scalar x1 clamp"
  from x25519_core_feq [OF assms(1), of scalar clamp] XZ obtain Q where "xs_feq xs ((X, Z), Q)"
    by (auto simp: xs_def)
  then have xs: "length xs = 5" "feq (xs ! 0) X" "feq (xs ! 1) Z"
    by (auto simp: xs_feq_def pair_feq_def)
  have "E = [None, Some (1 :: nat), None, None, None] \<Longrightarrow> powers Z xs E" for E
    using xs by (auto simp: powers_def less_Suc_eq numeral_eq_Suc)
  from inversion_fold_powers [OF this [OF refl] inversion_chain_exponent(1)] obtain xs' p where
    f: "fold inversion_step inversion_steps (xs, 1) = (xs', p)" "xs' ! 0 = xs ! 0"
      and pw: "powers Z xs' (fst (fold chain_step inversion_steps ([None, Some 1, None, None, None], 1)))"
    by blast
  have "3 < (5 :: nat)" by simp
  with pw inversion_chain_exponent(2) have f3: "feq (xs' ! 3) (Z ^ (2 ^ 255 - 21))"
    unfolding powers_def by blast
  obtain y w where y: "canon (mul1 (xs' ! 0) (xs' ! 3)) = (y, w)" by fastforce
  have m: "red (mul1 (xs' ! 0) (xs' ! 3))" "feq (mul1 (xs' ! 0) (xs' ! 3)) (Z ^ (2 ^ 255 - 21) * X)"
    using mul1_feq [OF xs(2) f3] unfolding f(2) by blast+
  note c = canon_val [OF m(1) y]
  have o: "out = swapout y" "ret = (if clamp then sint w else 0)"
    using r f(1) y unfolding x25519_def xs_def [symmetric] by simp_all
  show "length out = 32" using c(1) o swapout_val(2) by simp
  show "int (le_val out) = X * Z ^ (2 ^ 255 - 21) mod p25519"
    unfolding o(1) swapout_val(1) c(2) using m(2) unfolding feq_def by (simp only: mult.commute)
  show "ret = (if clamp \<and> le_val out = 0 then - 1 else 0)"
    unfolding o swapout_val(1) using c(3) by simp
qed

section \<open>The scalar's bits\<close>

lemma bit_le_val: "bit (le_val s) i \<longleftrightarrow> i div 8 < length s \<and> bit (s ! (i div 8)) (i mod 8)"
proof (induction s arbitrary: i)
  case (Cons b s)
  have "le_val (b # s) = unat b + 2 ^ 8 * le_val s" by simp
  have lt: "unat b < 2 ^ 8" using u8_lt [of b] by simp
  show ?case
  proof (cases "i < 8")
    case True
    have "take_bit 8 (le_val (b # s)) = unat b" using lt by (simp add: take_bit_eq_mod)
    then have "bit (le_val (b # s)) i = bit (unat b) i"
      using True bit_take_bit_iff [of 8 "le_val (b # s)" i] by (simp only: simp_thms)
    with True show ?thesis by (simp add: bit_unsigned_iff)
  next
    case False
    have "drop_bit 8 (le_val (b # s)) = le_val s" using lt by (simp add: drop_bit_eq_div)
    then have "bit (le_val (b # s)) i = bit (le_val s) (i - 8)"
      using False bit_drop_bit_eq [of 8 "le_val (b # s)"] by (simp add: fun_eq_iff del: le_val.simps)
    with Cons.IH [of "i - 8"] False show ?thesis by (simp add: le_div_geq le_mod_geq)
  qed
qed simp

lemma bit_clamp_scalar: "bit (clamp_scalar n) i \<longleftrightarrow> i = 254 \<or> (3 \<le> i \<and> i < 254 \<and> bit n i)"
  unfolding clamp_scalar_def bit_or_iff bit_push_bit_iff bit_drop_bit_eq bit_take_bit_iff bit_exp_iff
  by auto

lemma bit_byte_masks:
  "bit (b AND NOT 7 :: u8) k \<longleftrightarrow> bit b k \<and> 3 \<le> k"
  "k < 8 \<Longrightarrow> bit ((b AND 0x7F) OR 0x40 :: u8) k \<longleftrightarrow> k = 6 \<or> (bit b k \<and> k < 7)"
proof -
  have m: "(7 :: u8) = mask 3" "(0x7F :: u8) = mask 7" "(0x40 :: u8) = 2 ^ 6"
    by (simp_all add: mask_eq_exp_minus_1)
  show "bit (b AND NOT 7 :: u8) k \<longleftrightarrow> bit b k \<and> 3 \<le> k"
    unfolding m by (auto simp: bit_and_iff bit_not_iff bit_mask_iff dest: bit_imp_le_length_u8)
  show "k < 8 \<Longrightarrow> bit ((b AND 0x7F) OR 0x40 :: u8) k \<longleftrightarrow> k = 6 \<or> (bit b k \<and> k < 7)"
    unfolding m(2,3) bit_and_iff bit_or_iff bit_mask_iff bit_exp_iff by auto
qed

lemma scalar_bits_number:
  assumes "length scalar = 32"
  shows "scalar_bits scalar clamp
     = map (bit (if clamp then clamp_scalar (le_val scalar) else le_val scalar)) (rev [0..<256])"
proof -
  have "bit (scalar_byte scalar clamp i) (i mod 8)
      = bit (if clamp then clamp_scalar (le_val scalar) else le_val scalar) i" if "i < 256" for i
  proof (cases clamp)
    case True
    consider "i div 8 = 0" | "i div 8 = 31" | "i div 8 \<noteq> 0" "i div 8 \<noteq> 31" by blast
    then show ?thesis
    proof cases
      case 1
      then have i: "i mod 8 = i" "i < 8" by auto
      have b: "scalar_byte scalar clamp i = scalar ! 0 AND NOT 7"
        using 1 True by (simp add: scalar_byte_def)
      show ?thesis
        unfolding b bit_byte_masks if_P [OF True] bit_clamp_scalar bit_le_val using i assms by auto
    next
      case 2
      then have e: "i = 248 + i mod 8" "i mod 8 < 8" using div_mult_mod_eq [of i 8] by simp_all
      have "i = 254 \<longleftrightarrow> i mod 8 = 6" "i < 254 \<longleftrightarrow> i mod 8 < 6" using e by linarith+
      note i = this
      have b: "scalar_byte scalar clamp i = (scalar ! 31 AND 0x7F) OR 0x40"
        using 2 True by (simp add: scalar_byte_def)
      show ?thesis
        unfolding b bit_byte_masks(2) [OF e(2)] if_P [OF True] bit_clamp_scalar bit_le_val
        using i e 2 assms by auto
    next
      case 3
      then have "3 \<le> i" "i < 254" using that by auto
      with 3 True assms that show ?thesis
        by (auto simp: scalar_byte_def bit_clamp_scalar bit_le_val)
    qed
  next
    case False
    have "i div 8 < 32" using that by (intro less_mult_imp_div_less) simp
    with False assms show ?thesis by (simp add: scalar_byte_def bit_le_val)
  qed
  then show ?thesis unfolding scalar_bits_def by simp
qed

section \<open>Properties\<close>

text \<open>C9.  X25519: on a 32-byte scalar and point, the limb code with its lazy swaps computes the
  Montgomery ladder of RFC 7748 over the 256 bits of the (clamped) scalar and divides by the power
  \<open>p - 2\<close>: the output is the 32-byte encoding of the least residue modulo \<open>2 ^ 255 - 19\<close>, and -1 is
  returned exactly for a clamped call whose result is zero.\<close>

theorem x25519_is_montgomery_ladder:
  assumes "length scalar = 32" and "length x1 = 32"
    and "n = (if clamp then clamp_scalar (le_val scalar) else le_val scalar)"
    and "(X, Z) = mont_ladder (int (le_val x1)) (map (bit n) (rev [0..<256]))"
    and "x25519 scalar x1 clamp = (out, ret)"
  shows "length out = 32 \<and> int (le_val out) = X * Z ^ (2 ^ 255 - 21) mod p25519 \<and>
     ret = (if clamp \<and> le_val out = 0 then - 1 else 0)"
proof -
  have "(X, Z) = mont_ladder (int (le_val x1)) (scalar_bits scalar clamp)"
    using assms(3,4) by (simp only: scalar_bits_number [OF assms(1)])
  from x25519_val [OF assms(2) this assms(5)] show ?thesis by blast
qed

theorem x25519_is_montgomery_ladder_witness:
  "\<exists>X Z out ret. length (replicate 32 (0 :: u8)) = 32 \<and> length X25519_BASE_POINT = 32 \<and>
     (X, Z) = mont_ladder 9 (map (bit (clamp_scalar 0)) (rev [0..<256])) \<and>
     x25519 (replicate 32 0) X25519_BASE_POINT True = (out, ret) \<and>
     length out = 32 \<and> int (le_val out) = X * Z ^ (2 ^ 255 - 21) mod p25519 \<and>
     ret = (if le_val out = 0 then - 1 else 0)"
proof -
  have z: "le_val (replicate k 0) = 0" for k by (induction k) simp_all
  have l: "length (replicate 32 (0 :: u8)) = 32" "length X25519_BASE_POINT = 32"
    by (simp_all add: X25519_BASE_POINT_def)
  have b: "le_val X25519_BASE_POINT = 9" by (simp add: X25519_BASE_POINT_def z)
  obtain X Z where XZ: "(X, Z) = mont_ladder 9 (map (bit (clamp_scalar 0)) (rev [0..<256]))"
    by (metis surj_pair)
  obtain out ret where r: "x25519 (replicate 32 0) X25519_BASE_POINT True = (out, ret)" by fastforce
  have "(X, Z) = mont_ladder (int (le_val X25519_BASE_POINT))
      (map (bit (if True then clamp_scalar (le_val (replicate 32 0)) else le_val (replicate 32 0))) (rev [0..<256]))"
    using XZ by (simp only: b z if_True of_nat_numeral)
  from x25519_is_montgomery_ladder [OF l refl this r]
  have "length out = 32 \<and> int (le_val out) = X * Z ^ (2 ^ 255 - 21) mod p25519 \<and>
      ret = (if le_val out = 0 then - 1 else 0)" by (simp only: simp_thms)
  with XZ r l show ?thesis by blast
qed

end
