(* ===== verification/Obf.thy ===== *)
theory Obf
  imports Crypto_Util
begin

text \<open>
  The data model of \<open>awg.h\<close> and the obfuscation templates of \<open>awg_obf.c\<close>: base64, the template
  parser, the renderer and the range draw.  A template is parsed into a chain of tags; each tag
  contributes a run of bytes to the packet.  Allocation outcomes are an arbitrary sequence, consumed
  in call order, so that every out-of-memory branch of the parser is a branch of the model.
\<close>

section \<open>Data of awg.h\<close>

definition AWG_KEY_LEN :: nat where
  "AWG_KEY_LEN = 32"

definition AWG_MAX_I :: nat where
  "AWG_MAX_I = 5"

datatype awg_obf_kind =
  AWG_OBF_BYTES | AWG_OBF_RAND | AWG_OBF_RANDCHARS | AWG_OBF_RANDDIGITS | AWG_OBF_TIMESTAMP
  | AWG_OBF_DATA | AWG_OBF_DATASTRING | AWG_OBF_DATASIZE

text \<open>\<open>data_len\<close> is the length of \<open>data\<close>; a tag without literal bytes has the empty list.\<close>

record awg_obf =
  o_kind :: awg_obf_kind
  o_len :: int
  o_data :: bytes

record awg_obf_chain =
  c_items :: "awg_obf list"
  c_spec :: "string option"

record awg_range =
  r_min :: int
  r_max :: int

section \<open>Allocation\<close>

text \<open>The outcome of each \<open>malloc\<close>, \<open>calloc\<close> and \<open>realloc\<close>, in call order.\<close>

type_synonym heap = "nat \<Rightarrow> bool"

definition malloc_ok :: "heap \<Rightarrow> bool \<times> heap" where
  "malloc_ok h = (h 0, \<lambda>i. h (Suc i))"

section \<open>Base64\<close>

definition CHARS52 :: string where
  "CHARS52 = ''abcdefghijklmnopqrstuvwxyzABCDEFGHIJKLMNOPQRSTUVWXYZ''"

definition DIGITS10 :: string where
  "DIGITS10 = ''0123456789''"

definition B64 :: string where
  "B64 = ''ABCDEFGHIJKLMNOPQRSTUVWXYZabcdefghijklmnopqrstuvwxyz0123456789+/''"

text \<open>One turn of the encoder: up to three bytes give up to four characters.\<close>

definition b64_unit :: "bytes \<Rightarrow> string" where
  "b64_unit inp =
     (let rem = length inp;
          v = push_bit 16 (ucast (inp ! 0)) :: u32;
          v = (if rem > 1 then v OR push_bit 8 (ucast (inp ! 1)) else v);
          v = (if rem > 2 then v OR ucast (inp ! 2) else v);
          units = (if rem \<ge> 3 then 4 else rem + 1)
      in map (\<lambda>k. B64 ! unat (drop_bit (18 - 6 * k) v AND 0x3F)) [0..<units])"

function awg_b64_encode_raw :: "bytes \<Rightarrow> nat \<Rightarrow> string option" where
  "awg_b64_encode_raw inp out_cap =
     (if inp = [] then Some []
      else
        let unit = b64_unit (take 3 inp)
        in if length unit > out_cap then None
           else map_option (\<lambda>r. unit @ r) (awg_b64_encode_raw (drop 3 inp) (out_cap - length unit)))"
  by pat_completeness auto
termination
  by (relation "measure (\<lambda>(inp, out_cap). length inp)") auto

declare awg_b64_encode_raw.simps [simp del]

definition b64_val :: "char \<Rightarrow> int" where
  "b64_val c =
     (let n = of_char c :: int
      in if n \<ge> 65 \<and> n \<le> 90 then n - 65
         else if n \<ge> 97 \<and> n \<le> 122 then n - 97 + 26
         else if n \<ge> 48 \<and> n \<le> 57 then n - 48 + 52
         else if c = CHR ''+'' then 62
         else if c = CHR ''/'' then 63
         else - 1)"

fun b64_decode_loop :: "string \<Rightarrow> u32 \<Rightarrow> nat \<Rightarrow> bytes \<Rightarrow> nat \<Rightarrow> bytes option" where
  "b64_decode_loop [] acc bits out out_cap = Some out"
| "b64_decode_loop (p # ps) acc bits out out_cap =
     (if p = CHR ''='' \<or> of_char p = (10 :: nat) \<or> of_char p = (13 :: nat) \<or> p = CHR '' ''
      then b64_decode_loop ps acc bits out out_cap
      else
        let v = b64_val p
        in if v < 0 then None
           else
             let acc = push_bit 6 acc OR word_of_int v; bits = bits + 6
             in if bits \<ge> 8 then
                  if length out \<ge> out_cap then None
                  else b64_decode_loop ps acc (bits - 8) (out @ [ucast (drop_bit (bits - 8) acc)]) out_cap
                else b64_decode_loop ps acc bits out out_cap)"

definition awg_b64_decode :: "string \<Rightarrow> nat \<Rightarrow> bytes option" where
  "awg_b64_decode s out_cap = b64_decode_loop s 0 0 [] out_cap"

section \<open>The template parser\<close>

definition hex_val :: "char \<Rightarrow> int" where
  "hex_val c =
     (let n = of_char c :: int
      in if n \<ge> 48 \<and> n \<le> 57 then n - 48
         else if n \<ge> 97 \<and> n \<le> 102 then n - 97 + 10
         else if n \<ge> 65 \<and> n \<le> 70 then n - 65 + 10
         else - 1)"

text \<open>The messages the parser writes to \<open>err\<close>, as constructors.\<close>

datatype obf_err =
  Out_of_memory | Missing_close | B_without_bytes | B_odd_hex | B_bad_hex | Unknown_tag string
  | Without_length string | Bad_length string string

text \<open>The hex loop of \<open>build_tag\<close> over an even number of digits; \<open>None\<close> at a bad digit.\<close>

fun hex_bytes :: "string \<Rightarrow> bytes option" where
  "hex_bytes (a # b # r) =
     (let hi = hex_val a; lo = hex_val b
      in if hi < 0 \<or> lo < 0 then None
         else map_option (\<lambda>bs. word_of_int (hi * 16 + lo) # bs) (hex_bytes r))"
| "hex_bytes _ = Some []"

definition obf_tag :: "awg_obf_kind \<Rightarrow> int \<Rightarrow> bytes \<Rightarrow> awg_obf" where
  "obf_tag k n d = \<lparr>o_kind = k, o_len = n, o_data = d\<rparr>"

definition skip_0x :: "string \<Rightarrow> string" where
  "skip_0x v =
     (case v of a # x # r \<Rightarrow> if a = CHR ''0'' \<and> (x = CHR ''x'' \<or> x = CHR ''X'') then r else v
      | _ \<Rightarrow> v)"

definition count_kind :: "string \<Rightarrow> awg_obf_kind option" where
  "count_kind key =
     (if key = ''r'' then Some AWG_OBF_RAND
      else if key = ''rc'' then Some AWG_OBF_RANDCHARS
      else if key = ''rd'' then Some AWG_OBF_RANDDIGITS
      else if key = ''dz'' then Some AWG_OBF_DATASIZE
      else None)"

definition build_tag :: "heap \<Rightarrow> string \<Rightarrow> string \<Rightarrow> (obf_err + awg_obf) \<times> heap" where
  "build_tag h key val =
     (if key = ''b'' then
        if val = [] then (Inl B_without_bytes, h)
        else
          let val = skip_0x val; sl = length val
          in if sl = 0 \<or> odd sl then (Inl B_odd_hex, h)
             else
               let (ok, h) = malloc_ok h
               in if \<not> ok then (Inl Out_of_memory, h)
                  else (case hex_bytes val of
                          None \<Rightarrow> (Inl B_bad_hex, h)
                        | Some d \<Rightarrow> (Inr (obf_tag AWG_OBF_BYTES 0 d), h))
      else if key = ''t'' then (Inr (obf_tag AWG_OBF_TIMESTAMP 0 []), h)
      else if key = ''d'' then (Inr (obf_tag AWG_OBF_DATA 0 []), h)
      else if key = ''ds'' then (Inr (obf_tag AWG_OBF_DATASTRING 0 []), h)
      else
        case count_kind key of
          None \<Rightarrow> (Inl (Unknown_tag key), h)
        | Some k \<Rightarrow>
            if val = [] then (Inl (Without_length key), h)
            else
              case strtol val of
                None \<Rightarrow> (Inl (Bad_length key val), h)
              | Some (n, rest) \<Rightarrow>
                  if rest \<noteq> [] \<or> n < 0 \<or> n > 2 ^ 20 then (Inl (Bad_length key val), h)
                  else (Inr (obf_tag k n []), h))"

text \<open>Splitting a tag body into key and argument.\<close>

definition tag_key_val :: "string \<Rightarrow> string \<times> string" where
  "tag_key_val tag =
     (let body = dropWhile (\<lambda>c. c = CHR '' '') tag;
          key = takeWhile (\<lambda>c. c \<noteq> CHR '' '') body;
          val = dropWhile (\<lambda>c. c = CHR '' '') (dropWhile (\<lambda>c. c \<noteq> CHR '' '') body)
      in (key, val))"

lemma split_at_length: "split_at c s = Some (a, b) \<Longrightarrow> length b < length s"
  by (drule split_at_Some) auto

text \<open>One turn of the loop on the text between \<open><\<close> and \<open>>\<close>: the copy of the tag, the array that
  grows by doubling when its \<open>cap\<close> slots are taken, the tag itself.\<close>

definition obf_parse_tag ::
  "heap \<Rightarrow> nat \<Rightarrow> nat \<Rightarrow> string \<Rightarrow> (obf_err + nat \<times> awg_obf) \<times> heap" where
  "obf_parse_tag h n cap tag =
     (let (ok, h) = malloc_ok h
      in if \<not> ok then (Inl Out_of_memory, h)
         else
           let (key, val) = tag_key_val tag;
               (ok, h) = (if n = cap then malloc_ok h else (True, h));
               cap = (if n = cap then cap * 2 else cap)
           in if \<not> ok then (Inl Out_of_memory, h)
              else case build_tag h key val of (Inl e, h) \<Rightarrow> (Inl e, h) | (Inr t, h) \<Rightarrow> (Inr (cap, t), h))"

function obf_parse_loop ::
  "heap \<Rightarrow> string \<Rightarrow> nat \<Rightarrow> awg_obf list \<Rightarrow> (obf_err + awg_obf list) \<times> heap" where
  "obf_parse_loop h p cap items =
     (case split_at (CHR ''<'') p of
        None \<Rightarrow> (Inr items, h)
      | Some (_, lt) \<Rightarrow>
          (case split_at (CHR ''>'') lt of
             None \<Rightarrow> (Inl Missing_close, h)
           | Some (tag, gt) \<Rightarrow>
               (case obf_parse_tag h (length items) cap tag of
                  (Inl e, h) \<Rightarrow> (Inl e, h)
                | (Inr (cap, t), h) \<Rightarrow> obf_parse_loop h gt cap (items @ [t]))))"
  by pat_completeness auto
termination
  by (relation "measure (\<lambda>(h, p, cap, items). length p)") (auto dest!: split_at_length)

declare obf_parse_loop.simps [simp del]

text \<open>\<open>Inl None\<close> is NULL with an empty \<open>err\<close> (no template), \<open>Inl (Some e)\<close> NULL with a reason.\<close>

definition awg_obf_parse :: "heap \<Rightarrow> string \<Rightarrow> (obf_err option + awg_obf_chain) \<times> heap" where
  "awg_obf_parse h spec =
     (if spec = [] then (Inl None, h)
      else
        let (ok, h) = malloc_ok h
        in if \<not> ok then (Inl (Some Out_of_memory), h)
           else
             let (ok, h) = malloc_ok h
             in if \<not> ok then (Inl (Some Out_of_memory), h)
                else
                  case obf_parse_loop h spec 8 [] of
                    (Inl e, h) \<Rightarrow> (Inl (Some e), h)
                  | (Inr items, h) \<Rightarrow>
                      if items = [] then (Inl None, h)
                      else
                        let (ok, h) = malloc_ok h
                        in (Inr \<lparr>c_items = items, c_spec = (if ok then Some spec else None)\<rparr>, h))"

section \<open>The renderer\<close>

text \<open>
  Lengths are C ints: a tag emits at most \<open>2 ^ 20\<close> bytes or half a line of the configuration, and a
  line holds fewer than 8192 characters, so the sum over a chain stays below \<open>2 ^ 31\<close>.
\<close>

definition tag_out_len :: "awg_obf \<Rightarrow> int \<Rightarrow> int" where
  "tag_out_len t src_len =
     (case o_kind t of
        AWG_OBF_BYTES \<Rightarrow> int (length (o_data t))
      | AWG_OBF_RAND \<Rightarrow> o_len t
      | AWG_OBF_RANDCHARS \<Rightarrow> o_len t
      | AWG_OBF_RANDDIGITS \<Rightarrow> o_len t
      | AWG_OBF_TIMESTAMP \<Rightarrow> 4
      | AWG_OBF_DATA \<Rightarrow> src_len
      | AWG_OBF_DATASIZE \<Rightarrow> o_len t
      | AWG_OBF_DATASTRING \<Rightarrow>
          src_len div 3 * 4 + (if src_len mod 3 \<noteq> 0 then src_len mod 3 + 1 else 0))"

definition awg_obf_out_len :: "awg_obf_chain option \<Rightarrow> int \<Rightarrow> int" where
  "awg_obf_out_len c src_len =
     (case c of None \<Rightarrow> 0 | Some c \<Rightarrow> fold (\<lambda>t total. total + tag_out_len t src_len) (c_items c) 0)"

definition fill_random_from :: "entropy \<Rightarrow> nat \<Rightarrow> string \<Rightarrow> nat \<Rightarrow> bytes \<times> entropy" where
  "fill_random_from e n alphabet m =
     (let (b, e) = awg_random_bytes e n
      in (map (\<lambda>x. of_char (alphabet ! (unat x mod m))) b, e))"

text \<open>The low \<open>n\<close> bytes of \<open>v\<close>, most significant first: the loop of \<open>AWG_OBF_DATASIZE\<close>.\<close>

primrec be_bytes :: "nat \<Rightarrow> u32 \<Rightarrow> bytes" where
  "be_bytes 0 v = []"
| "be_bytes (Suc n) v = be_bytes n (drop_bit 8 v) @ [ucast (v AND 0xFF)]"

text \<open>What one tag writes at \<open>dst + w\<close>, which may be nothing; \<open>src\<close> is \<open>None\<close> for a NULL pointer and
  \<open>now\<close> is \<open>time(NULL)\<close>.\<close>

definition render_tag ::
  "entropy \<Rightarrow> u64 \<Rightarrow> awg_obf \<Rightarrow> bytes option \<Rightarrow> int \<Rightarrow> bytes \<times> entropy" where
  "render_tag e now t src src_len =
     (case o_kind t of
        AWG_OBF_BYTES \<Rightarrow> (o_data t, e)
      | AWG_OBF_RAND \<Rightarrow> awg_random_bytes e (nat (o_len t))
      | AWG_OBF_RANDCHARS \<Rightarrow> fill_random_from e (nat (o_len t)) CHARS52 52
      | AWG_OBF_RANDDIGITS \<Rightarrow> fill_random_from e (nat (o_len t)) DIGITS10 10
      | AWG_OBF_TIMESTAMP \<Rightarrow> (be_bytes 4 (ucast now), e)
      | AWG_OBF_DATA \<Rightarrow>
          (case src of Some s \<Rightarrow> (if src_len > 0 then take (nat src_len) s else [], e) | None \<Rightarrow> ([], e))
      | AWG_OBF_DATASTRING \<Rightarrow>
          (case src of
             Some s \<Rightarrow>
               (if src_len > 0
                then (case awg_b64_encode_raw (take (nat src_len) s) (nat (tag_out_len t src_len)) of
                        Some cs \<Rightarrow> map of_char cs | None \<Rightarrow> [])
                else [], e)
           | None \<Rightarrow> ([], e))
      | AWG_OBF_DATASIZE \<Rightarrow> (be_bytes (nat (o_len t)) (word_of_int src_len), e))"

fun render_loop ::
  "entropy \<Rightarrow> u64 \<Rightarrow> awg_obf list \<Rightarrow> nat \<Rightarrow> bytes \<Rightarrow> bytes option \<Rightarrow> int \<Rightarrow> bytes \<times> entropy" where
  "render_loop e now [] w dst src src_len = (dst, e)"
| "render_loop e now (t # ts) w dst src src_len =
     (let (b, e) = render_tag e now t src src_len
      in render_loop e now ts (w + nat (tag_out_len t src_len)) (patch w b dst) src src_len)"

definition awg_obf_render ::
  "entropy \<Rightarrow> u64 \<Rightarrow> awg_obf_chain option \<Rightarrow> bytes \<Rightarrow> bytes option \<Rightarrow> int \<Rightarrow> bytes \<times> entropy" where
  "awg_obf_render e now c dst src src_len =
     (case c of None \<Rightarrow> (dst, e) | Some c \<Rightarrow> render_loop e now (c_items c) 0 dst src src_len)"

section \<open>Ranges\<close>

definition awg_range_pick :: "entropy \<Rightarrow> awg_range \<Rightarrow> int \<times> entropy" where
  "awg_range_pick e r =
     (if r_max r \<le> r_min r then (r_min r, e)
      else
        let (v, e) = random_u32 e
        in (r_min r + sint (v mod word_of_int (r_max r - r_min r + 1)), e))"

end
