(* ===== verification/Obf_Correct.thy ===== *)
theory Obf_Correct
  imports Obf
begin

text \<open>
  Properties of the obfuscation templates: base64 round trip, the parser against a printer of
  templates, well-formedness of parsed chains, exactness of the renderer and of range draws.
\<close>

section \<open>Base64 round trip\<close>

definition b64_len :: "nat \<Rightarrow> nat" where
  "b64_len n = n div 3 * 4 + (if n mod 3 \<noteq> 0 then n mod 3 + 1 else 0)"

lemma length_b64_unit: "length (b64_unit inp) = (if length inp \<ge> 3 then 4 else length inp + 1)"
  by (simp add: b64_unit_def Let_def)

lemma b64_len_step: "0 < n \<Longrightarrow> b64_len n = (if n \<ge> 3 then 4 else n + 1) + b64_len (n - 3)"
proof (cases "n \<ge> 3")
  case True
  then show ?thesis by (simp add: b64_len_def le_div_geq le_mod_geq)
next
  assume "0 < n" and "\<not> 3 \<le> n"
  then have "n = 1 \<or> n = 2" by linarith
  then show ?thesis by (auto simp: b64_len_def)
qed

text \<open>The encoder fails only when the output does not fit.\<close>

lemma encode_raw_fits:
  "b64_len (length inp) \<le> cap \<Longrightarrow>
   \<exists>cs. awg_b64_encode_raw inp cap = Some cs \<and> length cs = b64_len (length inp)"
proof (induction inp cap rule: awg_b64_encode_raw.induct)
  case (1 inp cap)
  show ?case
  proof (cases "inp = []")
    case True
    then show ?thesis by (simp add: awg_b64_encode_raw.simps b64_len_def)
  next
    case False
    define u where "u = b64_unit (take 3 inp)"
    have lu: "length u = (if length inp \<ge> 3 then 4 else length inp + 1)"
      by (auto simp: u_def length_b64_unit)
    have st: "b64_len (length inp) = length u + b64_len (length (drop 3 inp))"
      using b64_len_step [of "length inp"] False by (simp add: lu)
    with "1.prems" have fits: "\<not> length u > cap" "b64_len (length (drop 3 inp)) \<le> cap - length u" by auto
    from "1.IH" [OF False u_def fits] obtain cs where
      "awg_b64_encode_raw (drop 3 inp) (cap - length u) = Some cs"
      "length cs = b64_len (length (drop 3 inp))" by blast
    with False fits st show ?thesis
      by (subst awg_b64_encode_raw.simps) (simp add: u_def)
  qed
qed

lemma b64_alphabet:
  "list_all (\<lambda>k. b64_val (B64 ! k) = int k \<and> B64 ! k \<noteq> CHR ''='' \<and> of_char (B64 ! k) \<noteq> (10 :: nat)
     \<and> of_char (B64 ! k) \<noteq> (13 :: nat) \<and> B64 ! k \<noteq> CHR '' '') [0..<64]"
  by code_simp

definition sextet :: "u32 \<Rightarrow> nat \<Rightarrow> u32" where
  "sextet v k = drop_bit (18 - 6 * k) v AND 0x3F"

lemma bit_sextet: "bit (sextet v k) j \<longleftrightarrow> j < 6 \<and> bit v (18 - 6 * k + j)"
proof -
  have m: "(0x3F :: u32) = mask 6" by (simp add: mask_eq_exp_minus_1)
  show ?thesis unfolding sextet_def m by (auto simp: bit_and_iff bit_mask_iff bit_drop_bit_eq)
qed

lemma sextet_lt: "unat (sextet v k) < 64"
proof -
  have "sextet v k = take_bit 6 (sextet v k)"
    by (rule bit_word_eqI) (auto simp: bit_take_bit_iff bit_sextet)
  then have "unat (sextet v k) = take_bit 6 (unat (sextet v k))" by (metis unsigned_take_bit_eq)
  then show ?thesis using take_bit_nat_less_exp [of 6 "unat (sextet v k)"] by simp
qed

text \<open>One encoded character decodes to its sextet.\<close>

definition shift_in :: "u32 \<Rightarrow> u32 \<Rightarrow> u32" where
  "shift_in acc x = push_bit 6 acc OR x"

lemma decode_sextet:
  "b64_decode_loop (B64 ! unat (sextet v k) # ps) acc bits out cap =
     (let acc = shift_in acc (sextet v k)
      in if bits + 6 \<ge> 8 then
           if length out \<ge> cap then None
           else b64_decode_loop ps acc (bits - 2) (out @ [ucast (drop_bit (bits - 2) acc)]) cap
         else b64_decode_loop ps acc (bits + 6) out cap)"
proof -
  have "b64_val (B64 ! unat (sextet v k)) = int (unat (sextet v k)) \<and> B64 ! unat (sextet v k) \<noteq> CHR ''=''
     \<and> of_char (B64 ! unat (sextet v k)) \<noteq> (10 :: nat) \<and> of_char (B64 ! unat (sextet v k)) \<noteq> (13 :: nat)
     \<and> B64 ! unat (sextet v k) \<noteq> CHR '' ''"
    using b64_alphabet sextet_lt [of v k] by (simp add: list_all_iff)
  then show ?thesis by (simp add: Let_def shift_in_def)
qed

lemma byte_cases: "n < 8 \<Longrightarrow> (n :: nat) \<in> {0, 1, 2, 3, 4, 5, 6, 7}"
  by auto

lemma sextets_to_bytes:
  "(ucast (drop_bit 4 (shift_in (shift_in acc (sextet v 0)) (sextet v 1))) :: u8) = ucast (drop_bit 16 v)"
  "(ucast (drop_bit 2 (shift_in (shift_in (shift_in acc (sextet v 0)) (sextet v 1)) (sextet v 2))) :: u8)
     = ucast (drop_bit 8 v)"
  "(ucast (shift_in (shift_in (shift_in (shift_in acc (sextet v 0)) (sextet v 1)) (sextet v 2)) (sextet v 3)) :: u8)
     = ucast v"
  unfolding shift_in_def
  by (rule bit_word_eqI,
      auto simp: bit_unsigned_iff bit_drop_bit_eq bit_or_iff bit_push_bit_iff bit_sextet dest!: byte_cases)+

definition b64_word :: "bytes \<Rightarrow> u32" where
  "b64_word inp =
     (let v = push_bit 16 (ucast (inp ! 0)) :: u32;
          v = (if length inp > 1 then v OR push_bit 8 (ucast (inp ! 1)) else v)
      in if length inp > 2 then v OR ucast (inp ! 2) else v)"

lemma b64_word_bytes:
  "(ucast (drop_bit 16 (b64_word inp)) :: u8) = inp ! 0"
  "length inp > 1 \<Longrightarrow> (ucast (drop_bit 8 (b64_word inp)) :: u8) = inp ! 1"
  "length inp > 2 \<Longrightarrow> (ucast (b64_word inp) :: u8) = inp ! 2"
  unfolding b64_word_def Let_def
  by (rule bit_word_eqI;
      auto simp: bit_unsigned_iff bit_drop_bit_eq bit_or_iff bit_push_bit_iff dest: bit_imp_le_length_u8)+

lemma b64_unit_sextets:
  "b64_unit inp = map (\<lambda>k. B64 ! unat (sextet (b64_word inp) k))
     [0..<(if length inp \<ge> 3 then 4 else length inp + 1)]"
  by (simp add: b64_unit_def b64_word_def sextet_def Let_def)

lemma upt_small: "[0..<2] = [0, 1 :: nat]" "[0..<3] = [0, 1, 2 :: nat]" "[0..<4] = [0, 1, 2, 3 :: nat]"
  by (simp_all add: numeral_eq_Suc)

lemma decode_unit_full:
  assumes "length inp = 3" "length out + 3 \<le> cap"
  shows "\<exists>acc'. b64_decode_loop (b64_unit inp @ ps) acc 0 out cap = b64_decode_loop ps acc' 0 (out @ inp) cap"
proof -
  obtain x y z where inp: "inp = [x, y, z]" using assms(1) by (auto simp: numeral_eq_Suc length_Suc_conv)
  have "b64_decode_loop (b64_unit inp @ ps) acc 0 out cap
      = b64_decode_loop ps (shift_in (shift_in (shift_in (shift_in acc (sextet (b64_word inp) 0))
          (sextet (b64_word inp) 1)) (sextet (b64_word inp) 2)) (sextet (b64_word inp) 3)) 0
        (out @ [inp ! 0, inp ! 1, inp ! 2]) cap"
    unfolding b64_unit_sextets using assms
    by (simp add: upt_small decode_sextet Let_def sextets_to_bytes [unfolded One_nat_def] b64_word_bytes del: b64_decode_loop.simps)
  then show ?thesis by (auto simp: inp)
qed

lemma decode_unit_last:
  assumes "length inp = 1 \<or> length inp = 2" "length out + length inp \<le> cap"
  shows "b64_decode_loop (b64_unit inp) acc 0 out cap = Some (out @ inp)"
proof -
  from assms(1) consider x where "inp = [x]" | x y where "inp = [x, y]"
    by (auto simp: numeral_eq_Suc length_Suc_conv)
  then show ?thesis
  proof cases
    case 1
    then show ?thesis
      unfolding b64_unit_sextets using assms b64_word_bytes(1) [of inp]
      by (simp add: upt_small decode_sextet Let_def sextets_to_bytes [unfolded One_nat_def]
          del: b64_decode_loop.simps(2))
  next
    case 2
    then show ?thesis
      unfolding b64_unit_sextets using assms b64_word_bytes(1,2) [of inp]
      by (simp add: upt_small decode_sextet Let_def sextets_to_bytes [unfolded One_nat_def]
          del: b64_decode_loop.simps(2) flip: numeral_2_eq_2)
  qed
qed

lemma decode_encode_loop:
  "awg_b64_encode_raw inp c = Some cs \<Longrightarrow> length out + length inp \<le> cap \<Longrightarrow>
   b64_decode_loop cs acc 0 out cap = Some (out @ inp)"
proof (induction inp c arbitrary: cs acc out rule: awg_b64_encode_raw.induct)
  case (1 inp c)
  show ?case
  proof (cases "inp = []")
    case True
    with "1.prems" show ?thesis by (simp add: awg_b64_encode_raw.simps)
  next
    case False
    define u where "u = b64_unit (take 3 inp)"
    from "1.prems"(1) False obtain r where r: "awg_b64_encode_raw (drop 3 inp) (c - length u) = Some r"
      "\<not> length u > c" "cs = u @ r"
      by (subst (asm) awg_b64_encode_raw.simps) (auto simp: u_def Let_def split: if_splits)
    show ?thesis
    proof (cases "length inp \<ge> 3")
      case True
      from decode_unit_full [of "take 3 inp" out cap r acc] True "1.prems"(2) obtain acc' where
        "b64_decode_loop (u @ r) acc 0 out cap = b64_decode_loop r acc' 0 (out @ take 3 inp) cap"
        by (auto simp: u_def)
      with "1.IH" [OF False u_def r(2,1), of "out @ take 3 inp" acc'] r True "1.prems"(2)
      show ?thesis by simp
    next
      case short: False
      moreover have "length inp \<noteq> 0" using False by simp
      ultimately have l: "length inp = 1 \<or> length inp = 2" by linarith
      from short r(1) have "r = []" by (simp add: awg_b64_encode_raw.simps)
      with decode_unit_last [OF l "1.prems"(2)] short r(3) show ?thesis by (simp add: u_def)
    qed
  qed
qed

section \<open>Rendering\<close>

text \<open>A tag with a nonnegative count writes exactly the bytes its length announces.\<close>

lemma length_be_bytes [simp]: "length (be_bytes n v) = n"
  by (induction n arbitrary: v) simp_all

definition obf_wf :: "awg_obf \<Rightarrow> bool" where
  "obf_wf t \<longleftrightarrow> 0 \<le> o_len t \<and> o_len t \<le> 2 ^ 20 \<and> (o_kind t = AWG_OBF_BYTES \<longrightarrow> o_data t \<noteq> [])"

lemma tag_out_len_nonneg: "obf_wf t \<Longrightarrow> 0 \<le> n \<Longrightarrow> 0 \<le> tag_out_len t n"
  by (auto simp: obf_wf_def tag_out_len_def split: awg_obf_kind.splits)

lemma length_render_tag:
  assumes "obf_wf t" "render_tag e now t (Some s) (int (length s)) = (b, e')"
  shows "int (length b) = tag_out_len t (int (length s))"
proof (cases "o_kind t = AWG_OBF_DATASTRING")
  case True
  have ol: "tag_out_len t (int (length s)) = int (b64_len (length s))"
    using True by (simp add: tag_out_len_def b64_len_def zdiv_int zmod_int)
      (simp add: flip: zmod_int [of _ 3, unfolded of_nat_numeral])
  from encode_raw_fits [of s "b64_len (length s)"] obtain cs where
    "awg_b64_encode_raw s (b64_len (length s)) = Some cs" "length cs = b64_len (length s)" by blast
  with assms(2) True ol show ?thesis
    by (cases "s = []") (simp add: render_tag_def b64_len_def, auto simp: render_tag_def)
next
  case False
  with assms show ?thesis
    by (auto simp: render_tag_def tag_out_len_def obf_wf_def fill_random_from_def awg_random_bytes_def
        split: awg_obf_kind.splits)
qed

text \<open>The tags rendered one after the other.\<close>

fun render_all :: "entropy \<Rightarrow> u64 \<Rightarrow> awg_obf list \<Rightarrow> bytes \<Rightarrow> bytes \<times> entropy" where
  "render_all e now [] s = ([], e)"
| "render_all e now (t # ts) s =
     (let (b, e) = render_tag e now t (Some s) (int (length s)); (bs, e) = render_all e now ts s
      in (b @ bs, e))"

lemma fold_out_len:
  "fold (\<lambda>t total. total + tag_out_len t n) ts k = k + sum_list (map (\<lambda>t. tag_out_len t n) ts)"
  by (induction ts arbitrary: k) simp_all

lemma length_render_all:
  "list_all obf_wf ts \<Longrightarrow> render_all e now ts s = (b, e') \<Longrightarrow>
   int (length b) = sum_list (map (\<lambda>t. tag_out_len t (int (length s))) ts)"
proof (induction ts arbitrary: e b e')
  case (Cons t ts)
  obtain b1 e1 where 1: "render_tag e now t (Some s) (int (length s)) = (b1, e1)" by fastforce
  obtain b2 e2 where 2: "render_all e1 now ts s = (b2, e2)" by fastforce
  from Cons.prems 1 2 have "b = b1 @ b2" by simp
  with length_render_tag [OF _ 1] Cons.IH [OF _ 2] Cons.prems(1) show ?case by simp
qed simp

lemma render_loop_exact:
  assumes "list_all obf_wf ts" "w + length (fst (render_all e now ts s)) \<le> length dst"
  shows "render_loop e now ts w dst (Some s) (int (length s))
     = (patch w (fst (render_all e now ts s)) dst, snd (render_all e now ts s))"
  using assms
proof (induction ts arbitrary: e w dst)
  case Nil
  then show ?case by (simp add: patch_def)
next
  case (Cons t ts)
  obtain b1 e1 where 1: "render_tag e now t (Some s) (int (length s)) = (b1, e1)" by fastforce
  obtain b2 e2 where 2: "render_all e1 now ts s = (b2, e2)" by fastforce
  have l: "nat (tag_out_len t (int (length s))) = length b1"
    using length_render_tag [OF _ 1] Cons.prems(1) by simp
  have w: "w + length b1 + length b2 \<le> length dst" using Cons.prems(2) 1 2 by simp
  then have "patch (w + length b1) b2 (patch w b1 dst) = patch w (b1 @ b2) dst"
    by (simp add: patch_def ac_simps)
  with Cons.IH [of "w + length b1" e1 "patch w b1 dst"] Cons.prems(1) w 1 2 l show ?case
    by (simp add: length_patch)
qed

section \<open>Parsing\<close>

lemma hex_bytes_not_Nil: "hex_bytes s = Some d \<Longrightarrow> s \<noteq> [] \<Longrightarrow> even (length s) \<Longrightarrow> d \<noteq> []"
  by (induction s arbitrary: d rule: hex_bytes.induct) (auto simp: Let_def split: if_splits)

lemma build_tag_wf:
  assumes "build_tag h key val = (Inr t, h')" shows "obf_wf t"
proof (cases "key = ''b''")
  case True
  with assms show ?thesis
    by (auto simp: build_tag_def obf_wf_def obf_tag_def Let_def dest!: hex_bytes_not_Nil
        split: if_splits prod.splits option.splits)
next
  case False
  with assms show ?thesis
    by (auto simp: build_tag_def obf_wf_def obf_tag_def count_kind_def Let_def
        split: if_splits prod.splits option.splits)
qed

lemma obf_parse_tag_wf: "obf_parse_tag h n cap tag = (Inr (cap', t), h') \<Longrightarrow> obf_wf t"
  by (auto simp: obf_parse_tag_def Let_def dest: build_tag_wf split: prod.splits if_splits sum.splits)

lemma obf_parse_loop_wf:
  "obf_parse_loop h p cap items = (Inr r, h') \<Longrightarrow> list_all obf_wf items \<Longrightarrow> list_all obf_wf r"
proof (induction "length p" arbitrary: h p cap items rule: less_induct)
  case less
  show ?case
  proof (cases "split_at (CHR ''<'') p")
    case None
    with less.prems show ?thesis by (simp add: obf_parse_loop.simps)
  next
    case (Some x)
    with less.prems(1) obtain pre lt tag gt cap' t h1 where *: "split_at (CHR ''<'') p = Some (pre, lt)"
      "split_at (CHR ''>'') lt = Some (tag, gt)" "obf_parse_tag h (length items) cap tag = (Inr (cap', t), h1)"
      "obf_parse_loop h1 gt cap' (items @ [t]) = (Inr r, h')"
      by (subst (asm) obf_parse_loop.simps) (auto split: option.splits sum.splits prod.splits)
    then have "length gt < length p" by (meson less_trans split_at_length)
    from less.hyps [OF this *(4)] less.prems(2) obf_parse_tag_wf [OF *(3)] show ?thesis by simp
  qed
qed

lemma awg_obf_parse_wf:
  assumes "awg_obf_parse h spec = (Inr c, h')"
  shows "c_items c \<noteq> [] \<and> list_all obf_wf (c_items c) \<and> (c_spec c = None \<or> c_spec c = Some spec)"
  using assms
  by (auto simp: awg_obf_parse_def Let_def dest!: obf_parse_loop_wf
      split: if_splits prod.splits sum.splits)

subsection \<open>A template printed from its tags parses back\<close>

definition hex_digit :: "nat \<Rightarrow> char" where
  "hex_digit n = ''0123456789abcdef'' ! n"

definition show_hex :: "bytes \<Rightarrow> string" where
  "show_hex bs = concat (map (\<lambda>b. [hex_digit (unat b div 16), hex_digit (unat b mod 16)]) bs)"

definition show_tag :: "awg_obf \<Rightarrow> string" where
  "show_tag t =
     (case o_kind t of
        AWG_OBF_BYTES \<Rightarrow> ''<b 0x'' @ show_hex (o_data t) @ ''>''
      | AWG_OBF_RAND \<Rightarrow> ''<r '' @ show_int (o_len t) @ ''>''
      | AWG_OBF_RANDCHARS \<Rightarrow> ''<rc '' @ show_int (o_len t) @ ''>''
      | AWG_OBF_RANDDIGITS \<Rightarrow> ''<rd '' @ show_int (o_len t) @ ''>''
      | AWG_OBF_TIMESTAMP \<Rightarrow> ''<t>''
      | AWG_OBF_DATA \<Rightarrow> ''<d>''
      | AWG_OBF_DATASTRING \<Rightarrow> ''<ds>''
      | AWG_OBF_DATASIZE \<Rightarrow> ''<dz '' @ show_int (o_len t) @ ''>'')"

text \<open>A tag as the parser builds it: unused fields are zero.\<close>

definition obf_canonical :: "awg_obf \<Rightarrow> bool" where
  "obf_canonical t \<longleftrightarrow> obf_wf t \<and>
     (o_kind t = AWG_OBF_BYTES \<longrightarrow> o_len t = 0) \<and> (o_kind t \<noteq> AWG_OBF_BYTES \<longrightarrow> o_data t = []) \<and>
     (o_kind t \<in> {AWG_OBF_TIMESTAMP, AWG_OBF_DATA, AWG_OBF_DATASTRING} \<longrightarrow> o_len t = 0)"

lemma hex_alphabet:
  "list_all (\<lambda>n. hex_val (hex_digit n) = int n \<and> hex_digit n \<noteq> CHR ''>'' \<and> hex_digit n \<noteq> CHR '' '') [0..<16]"
  by code_simp

lemma hex_digit_val: "n < 16 \<Longrightarrow> hex_val (hex_digit n) = int n"
  and hex_digit_plain: "n < 16 \<Longrightarrow> hex_digit n \<noteq> CHR ''>'' \<and> hex_digit n \<noteq> CHR '' ''"
  using hex_alphabet by (simp_all add: list_all_iff)

lemma hex_bytes_show_hex: "hex_bytes (show_hex bs) = Some bs"
proof (induction bs)
  case (Cons b bs)
  have lt: "unat b div 16 < 16" using u8_lt [of b] by (intro less_mult_imp_div_less) simp
  have "of_nat (unat b div 16 * 16 + unat b mod 16) = b"
    by (simp only: div_mult_mod_eq) simp
  then have "of_nat (unat b div 16) * 16 + of_nat (unat b mod 16) = b"
    unfolding of_nat_add of_nat_mult of_nat_numeral .
  with Cons lt show ?case by (simp add: show_hex_def hex_digit_val Let_def)
qed (simp add: show_hex_def)

lemma set_show_hex: "set (show_hex bs) \<inter> {CHR ''>'', CHR '' ''} = {}"
  "length (show_hex bs) = 2 * length bs"
proof (induction bs)
  case (Cons b bs)
  have "unat b div 16 < 16" using u8_lt [of b] by (intro less_mult_imp_div_less) simp
  then show "set (show_hex (b # bs)) \<inter> {CHR ''>'', CHR '' ''} = {}"
    "length (show_hex (b # bs)) = 2 * length (b # bs)"
    using Cons hex_digit_plain [of "unat b div 16"] hex_digit_plain [of "unat b mod 16"]
    by (auto simp: show_hex_def)
qed (simp_all add: show_hex_def)

lemma set_show_nat: "c \<in> set (show_nat n) \<Longrightarrow> isdigit c"
  using show_nat_digits [of n] by (simp add: list_all_iff)

lemma set_show_int: "0 \<le> v \<Longrightarrow> CHR ''>'' \<notin> set (show_int v) \<and> CHR '' '' \<notin> set (show_int v) \<and> show_int v \<noteq> []"
  by (auto simp: show_int_def show_nat_not_Nil dest!: set_show_nat) (simp_all add: isdigit_def)

lemma dropWhile_hd: "s \<noteq> [] \<Longrightarrow> \<not> P (hd s) \<Longrightarrow> dropWhile P s = s"
  by (cases s) auto

text \<open>Splitting a printed body.\<close>

lemma tag_key_val_one: "CHR '' '' \<notin> set key \<Longrightarrow> tag_key_val key = (key, [])"
proof -
  assume k: "CHR '' '' \<notin> set key"
  then have "dropWhile (\<lambda>c. c = CHR '' '') key = key" by (cases key) auto
  moreover have "takeWhile (\<lambda>c. c \<noteq> CHR '' '') key = key" "dropWhile (\<lambda>c. c \<noteq> CHR '' '') key = []"
    using k by (auto simp: takeWhile_eq_all_conv dropWhile_eq_Nil_conv)
  ultimately show ?thesis unfolding tag_key_val_def Let_def by (simp only: dropWhile.simps)
qed

lemma tag_key_val_two:
  assumes "CHR '' '' \<notin> set key" "key \<noteq> []" "CHR '' '' \<notin> set val" "val \<noteq> []"
  shows "tag_key_val (key @ CHR '' '' # val) = (key, val)"
proof -
  have "dropWhile (\<lambda>c. c = CHR '' '') (key @ CHR '' '' # val) = key @ CHR '' '' # val"
    using assms by (cases key) auto
  moreover have "takeWhile (\<lambda>c. c \<noteq> CHR '' '') (key @ CHR '' '' # val) = key"
    "dropWhile (\<lambda>c. c \<noteq> CHR '' '') (key @ CHR '' '' # val) = CHR '' '' # val"
    using assms(1) by (subst takeWhile_append2, auto, subst dropWhile_append2, auto)
  moreover have "dropWhile (\<lambda>c. c = CHR '' '') val = val" using assms by (cases val) auto
  ultimately show ?thesis by (simp add: tag_key_val_def Let_def)
qed

definition tag_body :: "awg_obf \<Rightarrow> string" where
  "tag_body t = butlast (tl (show_tag t))"

definition tag_key :: "awg_obf \<Rightarrow> string" where
  "tag_key t =
     (case o_kind t of
        AWG_OBF_BYTES \<Rightarrow> ''b'' | AWG_OBF_RAND \<Rightarrow> ''r'' | AWG_OBF_RANDCHARS \<Rightarrow> ''rc''
      | AWG_OBF_RANDDIGITS \<Rightarrow> ''rd'' | AWG_OBF_TIMESTAMP \<Rightarrow> ''t'' | AWG_OBF_DATA \<Rightarrow> ''d''
      | AWG_OBF_DATASTRING \<Rightarrow> ''ds'' | AWG_OBF_DATASIZE \<Rightarrow> ''dz'')"

definition tag_val :: "awg_obf \<Rightarrow> string" where
  "tag_val t =
     (case o_kind t of
        AWG_OBF_BYTES \<Rightarrow> ''0x'' @ show_hex (o_data t)
      | AWG_OBF_TIMESTAMP \<Rightarrow> [] | AWG_OBF_DATA \<Rightarrow> [] | AWG_OBF_DATASTRING \<Rightarrow> []
      | _ \<Rightarrow> show_int (o_len t))"

lemma tag_body_key_val:
  "tag_body t = (if tag_val t = [] then tag_key t else tag_key t @ CHR '' '' # tag_val t)"
  if "0 \<le> o_len t"
  using that set_show_int [of "o_len t"]
  by (simp add: tag_body_def show_tag_def tag_key_def tag_val_def butlast_append split: awg_obf_kind.split)

lemma tag_key_plain: "CHR '' '' \<notin> set (tag_key t)" "tag_key t \<noteq> []" "CHR ''>'' \<notin> set (tag_key t)"
  by (simp_all add: tag_key_def split: awg_obf_kind.split)

lemma tag_val_plain:
  "0 \<le> o_len t \<Longrightarrow> CHR '' '' \<notin> set (tag_val t)" "0 \<le> o_len t \<Longrightarrow> CHR ''>'' \<notin> set (tag_val t)"
  using set_show_int [of "o_len t"] set_show_hex(1) [of "o_data t"]
  by (auto simp: tag_val_def split: awg_obf_kind.split)

lemma show_tag_body: "show_tag t = CHR ''<'' # tag_body t @ ''>''"
  by (simp add: tag_body_def show_tag_def butlast_append split: awg_obf_kind.split)

lemma tag_key_val_body: "0 \<le> o_len t \<Longrightarrow> tag_key_val (tag_body t) = (tag_key t, tag_val t)"
  using tag_key_val_one [OF tag_key_plain(1)] tag_key_val_two [OF tag_key_plain(1,2) tag_val_plain(1)]
  by (simp add: tag_body_key_val)

lemma tag_body_no_gt: "0 \<le> o_len t \<Longrightarrow> CHR ''>'' \<notin> set (tag_body t)"
  using tag_key_plain(3) [of t] tag_val_plain(2) [of t] by (simp add: tag_body_key_val)

abbreviation heap_ok :: heap where
  "heap_ok \<equiv> \<lambda>_. True"

lemma malloc_heap_ok [simp]: "malloc_ok heap_ok = (True, heap_ok)"
  by (simp add: malloc_ok_def)

lemma build_tag_show:
  assumes "obf_canonical t" shows "build_tag heap_ok (tag_key t) (tag_val t) = (Inr t, heap_ok)"
proof -
  have b: "0 \<le> o_len t" "o_len t \<le> 2 ^ 20" using assms by (simp_all add: obf_canonical_def obf_wf_def)
  then have s: "strtol (show_int (o_len t)) = Some (o_len t, [])" "show_int (o_len t) \<noteq> []"
    using strtol_show_int [of "o_len t" "[]"] set_show_int by simp_all
  have t: "t = obf_tag (o_kind t) (o_len t) (o_data t)" by (simp add: obf_tag_def)
  show ?thesis
  proof (cases "o_kind t")
    case AWG_OBF_BYTES
    with assms have "o_data t \<noteq> []" "o_len t = 0" by (auto simp: obf_canonical_def obf_wf_def)
    moreover from this(1) have "show_hex (o_data t) \<noteq> []"
      using set_show_hex(2) [of "o_data t"] by auto
    ultimately show ?thesis
      using AWG_OBF_BYTES t
      by (simp add: build_tag_def tag_key_def tag_val_def skip_0x_def set_show_hex(2) hex_bytes_show_hex
          Let_def)
  qed (use assms s b t in \<open>auto simp: build_tag_def tag_key_def tag_val_def count_kind_def obf_canonical_def\<close>)
qed

lemma obf_parse_loop_show:
  "list_all obf_canonical ts \<Longrightarrow>
   obf_parse_loop heap_ok (concat (map show_tag ts)) cap items = (Inr (items @ ts), heap_ok)"
proof (induction ts arbitrary: cap items)
  case Nil
  then show ?case by (simp add: obf_parse_loop.simps)
next
  case (Cons t ts)
  have l: "0 \<le> o_len t" using Cons.prems by (simp add: obf_canonical_def obf_wf_def)
  define rest where "rest = concat (map show_tag ts)"
  have p: "concat (map show_tag (t # ts)) = CHR ''<'' # tag_body t @ CHR ''>'' # rest"
    by (simp add: show_tag_body rest_def)
  have "obf_parse_tag heap_ok (length items) cap (tag_body t)
      = (Inr (if length items = cap then cap * 2 else cap, t), heap_ok)"
    using build_tag_show [of t] Cons.prems by (simp add: obf_parse_tag_def tag_key_val_body [OF l])
  with Cons.IH [of "if length items = cap then cap * 2 else cap" "items @ [t]"] Cons.prems show ?case
    unfolding p by (subst obf_parse_loop.simps)
      (simp add: split_at_append [OF tag_body_no_gt [OF l]] flip: rest_def)
qed

section \<open>Properties\<close>

text \<open>Base64: decoding what the raw encoder wrote returns the bytes, for every input that fits
  the decoder's capacity.\<close>

lemma b64_roundtrip:
  assumes "b64_len (length inp) \<le> cap" and "length inp \<le> cap'"
  shows "\<exists>cs. awg_b64_encode_raw inp cap = Some cs \<and> length cs = b64_len (length inp) \<and>
     awg_b64_decode cs cap' = Some inp"
  using encode_raw_fits [OF assms(1)] decode_encode_loop [of inp cap _ "[]" cap' 0] assms(2)
  by (auto simp: awg_b64_decode_def)

text \<open>C23.  A template printed from its tags parses back to the same tags, whatever their number,
  counts up to \<open>2 ^ 20\<close> and literal bytes, when allocation succeeds.\<close>

theorem obf_parse_roundtrip:
  assumes "ts \<noteq> []" and "list_all obf_canonical ts"
  shows "awg_obf_parse heap_ok (concat (map show_tag ts))
     = (Inr \<lparr>c_items = ts, c_spec = Some (concat (map show_tag ts))\<rparr>, heap_ok)"
proof -
  have "concat (map show_tag ts) \<noteq> []" using assms(1) by (cases ts) (simp_all add: show_tag_body)
  with obf_parse_loop_show [OF assms(2), of 8 "[]"] assms(1) show ?thesis
    by (simp add: awg_obf_parse_def)
qed

theorem obf_parse_roundtrip_witness:
  "fst (awg_obf_parse heap_ok ''<b 0xc700><r 640>'')
     = Inr \<lparr>c_items = [obf_tag AWG_OBF_BYTES 0 [0xc7, 0], obf_tag AWG_OBF_RAND 640 []],
            c_spec = Some ''<b 0xc700><r 640>''\<rparr>"
proof -
  have s: "show_tag (obf_tag AWG_OBF_BYTES 0 [0xc7, 0]) = ''<b 0xc700>''"
    "show_tag (obf_tag AWG_OBF_RAND 640 []) = ''<r 640>''"
    by code_simp+
  show ?thesis
    using obf_parse_roundtrip [of "[obf_tag AWG_OBF_BYTES 0 [0xc7, 0], obf_tag AWG_OBF_RAND 640 []]"] s
    by (simp add: obf_canonical_def obf_wf_def obf_tag_def)
qed

text \<open>Whatever the template and whatever allocation does, a chain that is returned has at least
  one tag, and every tag has a count between 0 and \<open>2 ^ 20\<close> and, if literal, bytes; so a rendered
  packet's length is never negative.\<close>

lemma obf_parse_result_wf:
  assumes "awg_obf_parse h spec = (Inr c, h')"
  shows "c_items c \<noteq> [] \<and> list_all obf_wf (c_items c) \<and>
     (\<forall>n. 0 \<le> n \<longrightarrow> 0 \<le> awg_obf_out_len (Some c) n)"
proof -
  have wf: "c_items c \<noteq> []" "list_all obf_wf (c_items c)" using awg_obf_parse_wf [OF assms] by auto
  have "0 \<le> n \<Longrightarrow> 0 \<le> sum_list (map (\<lambda>t. tag_out_len t n) (c_items c))" for n
    using wf(2) by (intro sum_list_nonneg) (auto simp: list_all_iff tag_out_len_nonneg)
  with wf show ?thesis by (simp add: awg_obf_out_len_def fold_out_len)
qed

text \<open>C24.  Rendering a well-formed chain over a payload writes exactly \<open>awg_obf_out_len\<close> bytes at the
  start of the buffer, the tags' bytes one after the other, and nothing behind them.\<close>

theorem obf_render_exact:
  assumes "list_all obf_wf (c_items c)" and "src_len = int (length src)"
    and "awg_obf_out_len (Some c) src_len \<le> int (length dst)"
  shows "\<exists>b e'. render_all e now (c_items c) src = (b, e') \<and>
     int (length b) = awg_obf_out_len (Some c) src_len \<and>
     awg_obf_render e now (Some c) dst (Some src) src_len = (b @ drop (length b) dst, e')"
proof -
  obtain b e' where r: "render_all e now (c_items c) src = (b, e')" by fastforce
  have l: "int (length b) = awg_obf_out_len (Some c) src_len"
    using length_render_all [OF assms(1) r] assms(2) by (simp add: awg_obf_out_len_def fold_out_len)
  with assms(3) have "0 + length (fst (render_all e now (c_items c) src)) \<le> length dst" using r by simp
  from render_loop_exact [OF assms(1) this] r assms(2) l show ?thesis
    by (auto simp: awg_obf_render_def patch_def)
qed

theorem obf_render_exact_witness:
  "\<exists>b e'. int (length b) = 3 \<and>
     awg_obf_render (\<lambda>i. of_nat i) 0 (Some \<lparr>c_items = [obf_tag AWG_OBF_RAND 1 [], obf_tag AWG_OBF_DATA 0 []],
       c_spec = None\<rparr>) [9, 9, 9, 9] (Some [5, 6]) 2 = (b @ [9], e')"
proof -
  let ?c = "\<lparr>c_items = [obf_tag AWG_OBF_RAND 1 [], obf_tag AWG_OBF_DATA 0 []], c_spec = None\<rparr>"
  have a: "list_all obf_wf (c_items ?c)" "(2 :: int) = int (length [5, 6 :: u8])"
    "awg_obf_out_len (Some ?c) 2 \<le> int (length [9, 9, 9, 9 :: u8])"
    by (simp_all add: obf_wf_def obf_tag_def awg_obf_out_len_def tag_out_len_def)
  have n: "awg_obf_out_len (Some ?c) 2 = 3"
    by (simp add: obf_tag_def awg_obf_out_len_def tag_out_len_def)
  from obf_render_exact [OF a, of "\<lambda>i. of_nat i" 0] obtain b e' where
    "int (length b) = 3" "awg_obf_render (\<lambda>i. of_nat i) 0 (Some ?c) [9, 9, 9, 9] (Some [5, 6]) 2
       = (b @ drop (length b) [9, 9, 9, 9], e')"
    unfolding n by blast
  moreover from this(1) have "length b = 3" by simp
  ultimately show ?thesis by (auto simp: eval_nat_numeral)
qed

text \<open>A draw from a range lies in it: the single value of a degenerate range, otherwise
  between the two ends inclusive.\<close>

lemma range_pick_in_range:
  assumes "r_max r - r_min r < 2 ^ 31 - 1"
  shows "fst (awg_range_pick e r)
     \<in> (if r_max r \<le> r_min r then {r_min r} else {r_min r .. r_max r})"
proof (cases "r_max r \<le> r_min r")
  case False
  define n where "n = r_max r - r_min r + 1"
  define v where "v = fst (random_u32 e)"
  have n: "0 < n" "n < 2 ^ 31" using False assms by (simp_all add: n_def)
  then have un: "uint (word_of_int n :: u32) = n" by (simp add: uint_word_of_int)
  have "uint (v mod word_of_int n) = uint v mod n" by (simp add: uint_mod un)
  with n have m: "0 \<le> uint (v mod word_of_int n)" "uint (v mod word_of_int n) < n" by simp_all
  then have "- (2 ^ 31) \<le> uint (v mod word_of_int n)" "uint (v mod word_of_int n) < 2 ^ 31"
    using n by linarith+
  then have "sint (v mod word_of_int n) = uint (v mod word_of_int n)"
    by (simp add: sint_uint signed_take_bit_int_eq_self del: uint_ge_0)
  with m False show ?thesis
    by (simp add: awg_range_pick_def split_beta v_def n_def)
qed (simp add: awg_range_pick_def)

end
