(* ===== verification/Config.thy ===== *)
theory Config
  imports Obf_Correct
begin

text \<open>
  \<open>awg_config.c\<close>: the configuration record of \<open>awg.h\<close> and the \<open>.conf\<close> parser, line by line.  A file
  that cannot be opened is \<open>None\<close>; an open file is its characters, read by \<open>fgets\<close> in pieces of at
  most \<open>LINE_MAX - 1\<close>.  A failed load is \<open>Inl\<close> with the reason (the chains parsed so far are
  released and no caller reads the record); a successful one is the record.
\<close>

section \<open>The record\<close>

record awg_config =
  cfg_private_key :: bytes
  cfg_have_private_key :: bool
  cfg_address :: u32
  cfg_address_cidr :: int
  cfg_dns :: "u32 list"
  cfg_jc :: int
  cfg_jmin :: int
  cfg_jmax :: int
  cfg_s1 :: int
  cfg_s2 :: int
  cfg_s3 :: int
  cfg_s4 :: int
  cfg_h1 :: u32
  cfg_h2 :: u32
  cfg_h3 :: u32
  cfg_h4 :: u32
  cfg_header_protection_key :: bytes
  cfg_have_header_protection :: bool
  cfg_rekey_after_time :: awg_range
  cfg_rekey_timeout :: awg_range
  cfg_reject_after_time :: awg_range
  cfg_keepalive_timeout :: awg_range
  cfg_max_handshake_attempts :: awg_range
  cfg_content_padding_addition :: awg_range
  cfg_i :: "awg_obf_chain option list"
  cfg_peer_public_key :: bytes
  cfg_have_peer_public_key :: bool
  cfg_preshared_key :: bytes
  cfg_have_preshared_key :: bool
  cfg_endpoint_host :: string
  cfg_endpoint_port :: int
  cfg_persistent_keepalive :: awg_range

section \<open>Text helpers\<close>

definition LINE_MAX :: nat where
  "LINE_MAX = 8192"

definition tab :: char where "tab = CHR 0x09"
definition newline :: char where "newline = CHR 0x0A"
definition carriage :: char where "carriage = CHR 0x0D"

definition trim :: "string \<Rightarrow> string" where
  "trim s =
     dropWhile (\<lambda>c. c = CHR '' '' \<or> c = tab)
       (rev (dropWhile (\<lambda>c. c = newline \<or> c = carriage \<or> c = CHR '' '' \<or> c = tab) (rev s)))"

text \<open>The loop over the characters and the terminating NUL, which is the end of the list.\<close>

fun ipv4_loop :: "string \<Rightarrow> u32 \<Rightarrow> nat \<Rightarrow> nat \<Rightarrow> nat \<Rightarrow> u32 option" where
  "ipv4_loop [] v octet digits parts =
     (if digits = 0 then None
      else if parts + 1 \<noteq> 4 then None else Some (push_bit 8 v OR of_nat octet))"
| "ipv4_loop (p # ps) v octet digits parts =
     (if isdigit p then
        let octet = octet * 10 + (of_char p - 48); digits = digits + 1
        in if digits > 3 \<or> octet > 255 then None else ipv4_loop ps v octet digits parts
      else if p = CHR ''.'' then
        if digits = 0 then None
        else
          let v = push_bit 8 v OR of_nat octet; parts = parts + 1
          in if parts = 4 then None else ipv4_loop ps v 0 0 parts
      else None)"

definition parse_ipv4 :: "string \<Rightarrow> u32 option" where
  "parse_ipv4 s =
     map_option
       (\<lambda>v. push_bit 24 (v AND 0xFF) OR push_bit 8 (v AND 0xFF00) OR (drop_bit 8 v AND 0xFF00)
             OR (drop_bit 24 v AND 0xFF))
       (ipv4_loop s 0 0 0 0)"

definition parse_range :: "string \<Rightarrow> awg_range" where
  "parse_range s =
     (let (a, rest) = (case strtol s of None \<Rightarrow> (0, s) | Some (a, rest) \<Rightarrow> (a, rest));
          r = \<lparr>r_min = to_int32 a, r_max = to_int32 a\<rparr>
      in if rest \<noteq> [] \<and> hd rest = CHR ''-'' then
           let b = strtol_val (tl rest) in if b \<ge> a then r\<lparr>r_max := to_int32 b\<rparr> else r
         else r)"

definition parse_key :: "string \<Rightarrow> bytes option" where
  "parse_key b64 =
     (case awg_b64_decode b64 AWG_KEY_LEN of
        None \<Rightarrow> None
      | Some k \<Rightarrow> if length k \<noteq> AWG_KEY_LEN then None else Some k)"

text \<open>\<open>strtok (v, ", ")\<close>: the maximal runs without a comma or a blank.\<close>

function strtok_all :: "string \<Rightarrow> string list" where
  "strtok_all s =
     (let s = dropWhile (\<lambda>c. c = CHR '','' \<or> c = CHR '' '') s
      in if s = [] then []
         else takeWhile (\<lambda>c. c \<noteq> CHR '','' \<and> c \<noteq> CHR '' '') s
                # strtok_all (dropWhile (\<lambda>c. c \<noteq> CHR '','' \<and> c \<noteq> CHR '' '') s))"
  by pat_completeness auto
termination
proof (relation "measure length")
  fix s x :: string
  assume x: "x = dropWhile (\<lambda>c. c = CHR '','' \<or> c = CHR '' '') s" and ne: "x \<noteq> []"
  from ne obtain a y where ay: "x = a # y" by (cases x) auto
  have "\<not> (hd x = CHR '','' \<or> hd x = CHR '' '')" using ne unfolding x by (rule hd_dropWhile)
  then have "\<not> (a = CHR '','' \<or> a = CHR '' '')" by (simp add: ay)
  then have "length (dropWhile (\<lambda>c. c \<noteq> CHR '','' \<and> c \<noteq> CHR '' '') x) \<le> length y"
    using ay by (simp add: length_dropWhile_le)
  moreover have "length x \<le> length s" unfolding x by (rule length_dropWhile_le)
  ultimately show "(dropWhile (\<lambda>c. c \<noteq> CHR '','' \<and> c \<noteq> CHR '' '') x, s) \<in> measure length"
    using ay by simp
qed simp

declare strtok_all.simps [simp del]

definition add_dns :: "string \<Rightarrow> u32 list \<Rightarrow> u32 list" where
  "add_dns tok dns =
     (if length dns < 4 then
        case parse_ipv4 tok of None \<Rightarrow> dns | Some ip \<Rightarrow> dns @ [ip]
      else dns)"

section \<open>The parser\<close>

datatype line_err = Not_a_key string | Not_IPv4 | Bad_template obf_err | No_port

datatype config_err =
  Cannot_open | Config_out_of_memory | Bad_line nat string line_err
  | No_PrivateKey | No_peer_PublicKey | No_Endpoint

definition degenerate :: "int \<Rightarrow> awg_range" where
  "degenerate v = \<lparr>r_min = v, r_max = v\<rparr>"

definition config_defaults :: awg_config where
  "config_defaults =
     \<lparr>cfg_private_key = replicate 32 0, cfg_have_private_key = False, cfg_address = 0,
      cfg_address_cidr = 0, cfg_dns = [], cfg_jc = 0, cfg_jmin = 0, cfg_jmax = 0, cfg_s1 = 0,
      cfg_s2 = 0, cfg_s3 = 0, cfg_s4 = 0, cfg_h1 = 1, cfg_h2 = 2, cfg_h3 = 3, cfg_h4 = 4,
      cfg_header_protection_key = replicate 32 0, cfg_have_header_protection = False,
      cfg_rekey_after_time = degenerate 120, cfg_rekey_timeout = degenerate 5,
      cfg_reject_after_time = degenerate 180, cfg_keepalive_timeout = degenerate 10,
      cfg_max_handshake_attempts = degenerate 18, cfg_content_padding_addition = degenerate 0,
      cfg_i = replicate AWG_MAX_I None, cfg_peer_public_key = replicate 32 0,
      cfg_have_peer_public_key = False, cfg_preshared_key = replicate 32 0,
      cfg_have_preshared_key = False, cfg_endpoint_host = [], cfg_endpoint_port = 0,
      cfg_persistent_keepalive = degenerate 0\<rparr>"

text \<open>The keys of \<open>[Interface]\<close> with a plain number or a range, in the order of the source.\<close>

definition interface_number :: "awg_config \<Rightarrow> string \<Rightarrow> string \<Rightarrow> awg_config" where
  "interface_number cfg k v =
     (if k = ''Jc'' then cfg\<lparr>cfg_jc := atoi v\<rparr>
      else if k = ''Jmin'' then cfg\<lparr>cfg_jmin := atoi v\<rparr>
      else if k = ''Jmax'' then cfg\<lparr>cfg_jmax := atoi v\<rparr>
      else if k = ''S1'' then cfg\<lparr>cfg_s1 := atoi v\<rparr>
      else if k = ''S2'' then cfg\<lparr>cfg_s2 := atoi v\<rparr>
      else if k = ''S3'' then cfg\<lparr>cfg_s3 := atoi v\<rparr>
      else if k = ''S4'' then cfg\<lparr>cfg_s4 := atoi v\<rparr>
      else if k = ''H1'' then cfg\<lparr>cfg_h1 := strtoul32 v\<rparr>
      else if k = ''H2'' then cfg\<lparr>cfg_h2 := strtoul32 v\<rparr>
      else if k = ''H3'' then cfg\<lparr>cfg_h3 := strtoul32 v\<rparr>
      else if k = ''H4'' then cfg\<lparr>cfg_h4 := strtoul32 v\<rparr>
      else if k = ''RekeyAfterTime'' then cfg\<lparr>cfg_rekey_after_time := parse_range v\<rparr>
      else if k = ''RekeyTimeout'' then cfg\<lparr>cfg_rekey_timeout := parse_range v\<rparr>
      else if k = ''RejectAfterTime'' then cfg\<lparr>cfg_reject_after_time := parse_range v\<rparr>
      else if k = ''KeepaliveTimeout'' then cfg\<lparr>cfg_keepalive_timeout := parse_range v\<rparr>
      else if k = ''MaxHandshakeAttempts'' then cfg\<lparr>cfg_max_handshake_attempts := parse_range v\<rparr>
      else if k = ''ContentPaddingAddition'' then cfg\<lparr>cfg_content_padding_addition := parse_range v\<rparr>
      else cfg)"

text \<open>The index of a key \<open>I1\<close> to \<open>I5\<close>.\<close>

definition i_index :: "string \<Rightarrow> nat option" where
  "i_index k =
     (if k = ''I1'' then Some 0 else if k = ''I2'' then Some 1 else if k = ''I3'' then Some 2
      else if k = ''I4'' then Some 3 else if k = ''I5'' then Some 4 else None)"

definition interface_key ::
  "heap \<Rightarrow> awg_config \<Rightarrow> string \<Rightarrow> string \<Rightarrow> (line_err + awg_config) \<times> heap" where
  "interface_key h cfg k v =
     (if k = ''PrivateKey'' then
        (case parse_key v of
           None \<Rightarrow> (Inl (Not_a_key k), h)
         | Some x \<Rightarrow> (Inr (cfg\<lparr>cfg_private_key := x, cfg_have_private_key := True\<rparr>), h))
      else if k = ''HeaderProtectionKey'' then
        (case parse_key v of
           None \<Rightarrow> (Inl (Not_a_key k), h)
         | Some x \<Rightarrow> (Inr (cfg\<lparr>cfg_header_protection_key := x, cfg_have_header_protection := True\<rparr>), h))
      else if k = ''Address'' then
        let (v, cidr) = (case split_at (CHR ''/'') v of None \<Rightarrow> (v, 32) | Some (a, b) \<Rightarrow> (a, atoi b));
            cfg = cfg\<lparr>cfg_address_cidr := cidr\<rparr>
        in (case parse_ipv4 v of
              None \<Rightarrow> (Inl Not_IPv4, h)
            | Some ip \<Rightarrow> (Inr (cfg\<lparr>cfg_address := ip\<rparr>), h))
      else if k = ''DNS'' then (Inr (cfg\<lparr>cfg_dns := fold add_dns (strtok_all v) (cfg_dns cfg)\<rparr>), h)
      else
        case i_index k of
          Some idx \<Rightarrow>
            (case awg_obf_parse h v of
               (Inl None, h) \<Rightarrow> (Inr (cfg\<lparr>cfg_i := (cfg_i cfg)[idx := None]\<rparr>), h)
             | (Inl (Some e), h) \<Rightarrow> (Inl (Bad_template e), h)
             | (Inr c, h) \<Rightarrow> (Inr (cfg\<lparr>cfg_i := (cfg_i cfg)[idx := Some c]\<rparr>), h))
        | None \<Rightarrow> (Inr (interface_number cfg k v), h))"

text \<open>\<open>AllowedIPs\<close> and any other key of \<open>[Peer]\<close> are accepted and ignored.\<close>

definition peer_key :: "awg_config \<Rightarrow> string \<Rightarrow> string \<Rightarrow> line_err + awg_config" where
  "peer_key cfg k v =
     (if k = ''PublicKey'' then
        (case parse_key v of
           None \<Rightarrow> Inl (Not_a_key k)
         | Some x \<Rightarrow> Inr (cfg\<lparr>cfg_peer_public_key := x, cfg_have_peer_public_key := True\<rparr>))
      else if k = ''PresharedKey'' then
        (case parse_key v of
           None \<Rightarrow> Inl (Not_a_key k)
         | Some x \<Rightarrow> Inr (cfg\<lparr>cfg_preshared_key := x, cfg_have_preshared_key := True\<rparr>))
      else if k = ''Endpoint'' then
        (case rsplit_at (CHR '':'') v of
           None \<Rightarrow> Inl No_port
         | Some (host, port) \<Rightarrow>
             Inr (cfg\<lparr>cfg_endpoint_port := atoi port, cfg_endpoint_host := take 127 host\<rparr>))
      else if k = ''PersistentKeepalive'' then Inr (cfg\<lparr>cfg_persistent_keepalive := parse_range v\<rparr>)
      else Inr cfg)"

text \<open>One line: comment, section header, \<open>key = value\<close>.  An error carries the key.\<close>

definition config_line ::
  "heap \<Rightarrow> bool \<Rightarrow> awg_config \<Rightarrow> string \<Rightarrow> (string \<times> line_err + bool \<times> awg_config) \<times> heap" where
  "config_line h in_peer cfg line =
     (let line = (case split_at (CHR ''#'') line of None \<Rightarrow> line | Some (a, _) \<Rightarrow> a);
          line = trim line
      in if line = [] then (Inr (in_peer, cfg), h)
         else if hd line = CHR ''['' then (Inr (take 5 line = ''[Peer'', cfg), h)
         else
           case split_at (CHR ''='') line of
             None \<Rightarrow> (Inr (in_peer, cfg), h)
           | Some (k, v) \<Rightarrow>
               let k = trim k; v = trim v
               in if k = [] then (Inr (in_peer, cfg), h)
                  else
                    let (r, h) = (if in_peer then (peer_key cfg k v, h) else interface_key h cfg k v)
                    in (case r of Inl e \<Rightarrow> Inl (k, e) | Inr cfg \<Rightarrow> Inr (in_peer, cfg), h))"

text \<open>\<open>fgets\<close>: up to \<open>LINE_MAX - 1\<close> characters, a newline included; the line is a C string.\<close>

definition fgets_len :: "string \<Rightarrow> nat" where
  "fgets_len s =
     (case split_at newline (take (LINE_MAX - 1) s) of
        None \<Rightarrow> length (take (LINE_MAX - 1) s)
      | Some (a, _) \<Rightarrow> length a + 1)"

function config_loop ::
  "heap \<Rightarrow> bool \<Rightarrow> awg_config \<Rightarrow> nat \<Rightarrow> string \<Rightarrow> (config_err + awg_config) \<times> heap" where
  "config_loop h in_peer cfg lineno s =
     (if s = [] then (Inr cfg, h)
      else
        let lineno = lineno + 1
        in (case config_line h in_peer cfg (cstr (take (fgets_len s) s)) of
              (Inl (k, e), h) \<Rightarrow> (Inl (Bad_line lineno k e), h)
            | (Inr (in_peer, cfg), h) \<Rightarrow> config_loop h in_peer cfg lineno (drop (fgets_len s) s)))"
  by pat_completeness auto
termination
proof (relation "measure (\<lambda>(h, in_peer, cfg, lineno, s). length s)")
  have "0 < fgets_len s" if "s \<noteq> []" for s
    using that by (auto simp: fgets_len_def LINE_MAX_def split: option.splits)
  then show "\<And>h in_peer cfg lineno s x a b aa ba. s \<noteq> [] \<Longrightarrow>
    ((b, aa, ba, x, drop (fgets_len s) s), h, in_peer, cfg, lineno, s)
      \<in> measure (\<lambda>(h, in_peer, cfg, lineno, s). length s)" by simp
qed auto

declare config_loop.simps [simp del]

definition awg_config_load :: "heap \<Rightarrow> string option \<Rightarrow> (config_err + awg_config) \<times> heap" where
  "awg_config_load h file =
     (case file of
        None \<Rightarrow> (Inl Cannot_open, h)
      | Some s \<Rightarrow>
          let (ok, h) = malloc_ok h
          in if \<not> ok then (Inl Config_out_of_memory, h)
             else
               case config_loop h False config_defaults 0 s of
                 (Inl e, h) \<Rightarrow> (Inl e, h)
               | (Inr cfg, h) \<Rightarrow>
                   if \<not> cfg_have_private_key cfg then (Inl No_PrivateKey, h)
                   else if \<not> cfg_have_peer_public_key cfg then (Inl No_peer_PublicKey, h)
                   else if cfg_endpoint_host cfg = [] then (Inl No_Endpoint, h)
                   else (Inr cfg, h))"

section \<open>The dump\<close>

text \<open>The bytes of a network-order address in memory order.\<close>

definition ip_str :: "u32 \<Rightarrow> string" where
  "ip_str ip =
     show_nat (unat (ip AND 0xFF)) @ ''.'' @ show_nat (unat (drop_bit 8 ip AND 0xFF)) @ ''.''
       @ show_nat (unat (drop_bit 16 ip AND 0xFF)) @ ''.'' @ show_nat (unat (drop_bit 24 ip AND 0xFF))"

definition range_str :: "awg_range \<Rightarrow> string" where
  "range_str r =
     (if r_max r > r_min r then show_int (r_min r) @ ''-'' @ show_int (r_max r) else show_int (r_min r))"

definition nl :: string where "nl = [newline]"

definition awg_config_dump :: "awg_config \<Rightarrow> string" where
  "awg_config_dump cfg =
     ''interface'' @ nl
     @ ''  address        '' @ ip_str (cfg_address cfg) @ ''/'' @ show_int (cfg_address_cidr cfg) @ nl
     @ concat (map (\<lambda>i. ''  dns['' @ show_nat i @ '']         '' @ ip_str (cfg_dns cfg ! i) @ nl)
         [0..<length (cfg_dns cfg)])
     @ ''  private key    '' @ (if cfg_have_private_key cfg then ''loaded'' else ''MISSING'') @ nl
     @ ''  junk packets   Jc='' @ show_int (cfg_jc cfg) @ '' Jmin='' @ show_int (cfg_jmin cfg)
       @ '' Jmax='' @ show_int (cfg_jmax cfg) @ nl
     @ ''  header junk    S1='' @ show_int (cfg_s1 cfg) @ '' S2='' @ show_int (cfg_s2 cfg)
       @ '' S3='' @ show_int (cfg_s3 cfg) @ '' S4='' @ show_int (cfg_s4 cfg) @ nl
     @ ''  msg types      H1='' @ show_nat (unat (cfg_h1 cfg)) @ '' H2='' @ show_nat (unat (cfg_h2 cfg))
       @ '' H3='' @ show_nat (unat (cfg_h3 cfg)) @ '' H4='' @ show_nat (unat (cfg_h4 cfg)) @ nl
     @ ''  header protect '' @ (if cfg_have_header_protection cfg then ''on (ChaCha20)'' else ''off'') @ nl
     @ ''  rekey          after '' @ range_str (cfg_rekey_after_time cfg) @ ''s, timeout ''
       @ range_str (cfg_rekey_timeout cfg) @ ''s'' @ nl
     @ ''  reject after   '' @ range_str (cfg_reject_after_time cfg) @ ''s, keepalive timeout ''
       @ range_str (cfg_keepalive_timeout cfg) @ ''s'' @ nl
     @ ''  handshakes     max '' @ range_str (cfg_max_handshake_attempts cfg) @ '', content padding ''
       @ range_str (cfg_content_padding_addition cfg) @ '' B'' @ nl
     @ concat (map (\<lambda>i. case cfg_i cfg ! i of None \<Rightarrow> []
         | Some c \<Rightarrow> ''  I'' @ show_nat (i + 1) @ ''             '' @ show_nat (length (c_items c)) @ '' tags, ''
             @ show_int (awg_obf_out_len (Some c) 0) @ '' bytes on the wire'' @ nl) [0..<AWG_MAX_I])
     @ ''peer'' @ nl
     @ ''  public key     '' @ (if cfg_have_peer_public_key cfg then ''loaded'' else ''MISSING'') @ nl
     @ ''  preshared key  '' @ (if cfg_have_preshared_key cfg then ''loaded'' else ''none'') @ nl
     @ ''  endpoint       '' @ cfg_endpoint_host cfg @ '':'' @ show_int (cfg_endpoint_port cfg) @ nl
     @ ''  keepalive      '' @ range_str (cfg_persistent_keepalive cfg) @ ''s'' @ nl"

section \<open>Well-formedness of what is loaded\<close>

definition chain_wf :: "awg_obf_chain option \<Rightarrow> bool" where
  "chain_wf c = (case c of None \<Rightarrow> True | Some c \<Rightarrow> c_items c \<noteq> [] \<and> list_all obf_wf (c_items c))"

definition config_wf :: "awg_config \<Rightarrow> bool" where
  "config_wf cfg \<longleftrightarrow>
     length (cfg_private_key cfg) = 32 \<and> length (cfg_header_protection_key cfg) = 32 \<and>
     length (cfg_peer_public_key cfg) = 32 \<and> length (cfg_preshared_key cfg) = 32 \<and>
     length (cfg_dns cfg) \<le> 4 \<and> length (cfg_i cfg) = 5 \<and> list_all chain_wf (cfg_i cfg) \<and>
     length (cfg_endpoint_host cfg) \<le> 127"

lemma config_wf_defaults: "config_wf config_defaults"
  by (simp add: config_wf_def config_defaults_def AWG_MAX_I_def chain_wf_def list_all_iff)

lemma parse_key_length: "parse_key s = Some k \<Longrightarrow> length k = 32"
  by (auto simp: parse_key_def AWG_KEY_LEN_def split: option.splits if_splits)

lemma fold_add_dns_length: "length dns \<le> 4 \<Longrightarrow> length (fold add_dns toks dns) \<le> 4"
  by (induction toks arbitrary: dns) (auto simp: add_dns_def split: option.splits)

lemma list_all_update: "list_all P xs \<Longrightarrow> P x \<Longrightarrow> list_all P (xs[i := x])"
  by (auto simp: list_all_iff dest!: subsetD [OF set_update_subset_insert])

lemma interface_number_wf: "config_wf cfg \<Longrightarrow> config_wf (interface_number cfg k v)"
  by (simp add: interface_number_def config_wf_def)

lemma interface_key_wf:
  assumes "config_wf cfg" "interface_key h cfg k v = (Inr cfg', h')" shows "config_wf cfg'"
proof -
  consider "k = ''PrivateKey''" | "k = ''HeaderProtectionKey''" | "k = ''Address''" | "k = ''DNS''"
    | "k \<notin> {''PrivateKey'', ''HeaderProtectionKey'', ''Address'', ''DNS''}" by blast
  then show ?thesis
  proof cases
    case 5
    then have ik: "interface_key h cfg k v = (case i_index k of
        Some idx \<Rightarrow> (case awg_obf_parse h v of
            (Inl None, h) \<Rightarrow> (Inr (cfg\<lparr>cfg_i := (cfg_i cfg)[idx := None]\<rparr>), h)
          | (Inl (Some e), h) \<Rightarrow> (Inl (Bad_template e), h)
          | (Inr c, h) \<Rightarrow> (Inr (cfg\<lparr>cfg_i := (cfg_i cfg)[idx := Some c]\<rparr>), h))
      | None \<Rightarrow> (Inr (interface_number cfg k v), h))"
      by (simp only: interface_key_def insert_iff simp_thms if_False de_Morgan_disj empty_iff)
    show ?thesis
    proof (cases "i_index k")
      case None
      with assms ik interface_number_wf [OF assms(1)] show ?thesis by auto
    next
      case (Some idx)
      with assms(2) ik obtain c where "cfg' = cfg\<lparr>cfg_i := (cfg_i cfg)[idx := c]\<rparr>" "chain_wf c"
        using awg_obf_parse_wf [of h v]
        by (auto simp: chain_wf_def split: sum.splits option.splits prod.splits)
      with assms(1) show ?thesis by (simp add: config_wf_def list_all_update)
    qed
  qed (use assms in \<open>auto simp: interface_key_def config_wf_def parse_key_length fold_add_dns_length
      split: option.splits prod.splits\<close>)
qed

lemma peer_key_wf: "config_wf cfg \<Longrightarrow> peer_key cfg k v = Inr cfg' \<Longrightarrow> config_wf cfg'"
  by (auto simp: peer_key_def config_wf_def parse_key_length split: option.splits if_splits)

lemma config_line_wf:
  "config_wf cfg \<Longrightarrow> config_line h in_peer cfg line = (Inr (in_peer', cfg'), h') \<Longrightarrow> config_wf cfg'"
  by (auto simp: config_line_def Let_def dest: interface_key_wf peer_key_wf
      split: if_splits option.splits sum.splits prod.splits)

lemma config_loop_wf:
  "config_wf cfg \<Longrightarrow> config_loop h in_peer cfg n s = (Inr cfg', h') \<Longrightarrow> config_wf cfg'"
proof (induction h in_peer cfg n s rule: config_loop.induct)
  case (1 h in_peer cfg n s)
  show ?case
  proof (cases "s = []")
    case True
    with 1 show ?thesis by (simp add: config_loop.simps)
  next
    case False
    obtain r h1 where l: "config_line h in_peer cfg (cstr (take (fgets_len s) s)) = (r, h1)" by fastforce
    show ?thesis
    proof (cases r)
      case (Inl a)
      with l False "1.prems"(2) show ?thesis by (cases a) (simp add: config_loop.simps)
    next
      case (Inr a)
      obtain ip c where a: "a = (ip, c)" by (cases a)
      from l Inr a "1.prems"(1) have wf: "config_wf c" by (auto dest: config_line_wf)
      from l Inr a False "1.prems"(2)
      have "config_loop h1 ip c (n + 1) (drop (fgets_len s) s) = (Inr cfg', h')"
        by (subst (asm) config_loop.simps) simp
      with "1.IH" [OF False refl l [symmetric] Inr a [symmetric] wf] show ?thesis by simp
    qed
  qed
qed

section \<open>Addresses and ranges in text\<close>

lemma show_nat_small:
  "n < 10 \<Longrightarrow> show_nat n = [char_of (48 + n)]"
  "10 \<le> n \<Longrightarrow> n < 100 \<Longrightarrow> show_nat n = [char_of (48 + n div 10), char_of (48 + n mod 10)]"
  "100 \<le> n \<Longrightarrow> n < 1000 \<Longrightarrow>
   show_nat n = [char_of (48 + n div 100), char_of (48 + n div 10 mod 10), char_of (48 + n mod 10)]"
proof -
  show "n < 10 \<Longrightarrow> show_nat n = [char_of (48 + n)]" for n by (simp add: show_nat.simps [of n])
  note 1 = this
  show "10 \<le> n \<Longrightarrow> n < 100 \<Longrightarrow> show_nat n = [char_of (48 + n div 10), char_of (48 + n mod 10)]" for n
    using less_mult_imp_div_less [of n 10 10] by (simp add: show_nat.simps [of n] 1)
  note 2 = this
  assume n: "100 \<le> n" "n < 1000"
  then have "10 \<le> n div 10" "n div 10 < 100"
    using less_mult_imp_div_less [of n 100 10] by (simp_all add: less_eq_div_iff_mult_less_eq)
  with n show "show_nat n = [char_of (48 + n div 100), char_of (48 + n div 10 mod 10), char_of (48 + n mod 10)]"
    by (simp add: show_nat.simps [of n] 2 flip: div_mult2_eq)
qed

lemma ipv4_digit:
  "d < 10 \<Longrightarrow> ipv4_loop (char_of (48 + d) # ps) v octet digits parts =
     (if digits + 1 > 3 \<or> octet * 10 + d > 255 then None
      else ipv4_loop ps v (octet * 10 + d) (digits + 1) parts)"
  by (simp add: Let_def)

lemma ipv4_octet:
  assumes "n < 256"
  shows "\<exists>digits > 0. ipv4_loop (show_nat n @ ps) v 0 0 parts = ipv4_loop ps v n digits parts"
proof -
  consider "n < 10" | "10 \<le> n" "n < 100" | "100 \<le> n" by linarith
  then show ?thesis
  proof cases
    case 1
    then show ?thesis
      by (intro exI [of _ 1]) (simp add: show_nat_small ipv4_digit del: ipv4_loop.simps)
  next
    case 2
    then have "n div 10 < 10" by (intro less_mult_imp_div_less) simp
    with 2 show ?thesis
      by (intro exI [of _ "Suc (Suc 0)"]) (simp add: show_nat_small ipv4_digit del: ipv4_loop.simps)
  next
    case 3
    have e: "n div 100 * 10 + n div 10 mod 10 = n div 10"
    proof -
      have "n div 100 = n div 10 div 10" by (simp flip: div_mult2_eq)
      then show ?thesis by simp
    qed
    have "n div 100 < 10" using assms by (intro less_mult_imp_div_less) simp
    moreover have "n div 10 \<le> 255" using assms by linarith
    ultimately show ?thesis
      using 3 assms e by (intro exI [of _ "Suc (Suc (Suc 0))"]) (simp add: show_nat_small ipv4_digit del: ipv4_loop.simps)
  qed
qed

lemma octets_swap:
  fixes ip :: u32
  defines "v \<equiv> push_bit 8 (push_bit 8 (push_bit 8 (ip AND 0xFF) OR (drop_bit 8 ip AND 0xFF))
    OR (drop_bit 16 ip AND 0xFF)) OR (drop_bit 24 ip AND 0xFF)"
  shows "push_bit 24 (v AND 0xFF) OR push_bit 8 (v AND 0xFF00) OR (drop_bit 8 v AND 0xFF00)
    OR (drop_bit 24 v AND 0xFF) = ip"
proof -
  have m: "(0xFF :: u32) = mask 8" "(0xFF00 :: u32) = push_bit 8 (mask 8)"
    by (simp_all add: mask_eq_exp_minus_1)
  have v: "bit v j = (if j < 8 then bit ip (24 + j) else if j < 16 then bit ip (8 + j)
      else if j < 24 then bit ip (j - 8) else j < 32 \<and> bit ip (j - 24))" for j
    unfolding v_def m(1)
    by (auto simp: bit_or_iff bit_and_iff bit_push_bit_iff bit_drop_bit_eq bit_mask_iff
        simp del: push_bit_or dest: bit_imp_le_length)
  show ?thesis
    unfolding m
    by (rule bit_word_eqI)
      (auto simp: v bit_or_iff bit_and_iff bit_push_bit_iff bit_drop_bit_eq bit_mask_iff
        dest: bit_imp_le_length)
qed

lemma ipv4_dotted:
  assumes "n < 256" "parts < 3"
  shows "ipv4_loop (show_nat n @ CHR ''.'' # ps) v 0 0 parts = ipv4_loop ps (push_bit 8 v OR of_nat n) 0 0 (parts + 1)"
proof -
  from ipv4_octet [OF assms(1), of "CHR ''.'' # ps" v parts] obtain k where
    "k > 0" "ipv4_loop (show_nat n @ CHR ''.'' # ps) v 0 0 parts = ipv4_loop (CHR ''.'' # ps) v n k parts"
    by blast
  with assms(2) show ?thesis by (simp add: isdigit_def)
qed

lemma ipv4_last: "n < 256 \<Longrightarrow> ipv4_loop (show_nat n) v 0 0 3 = Some (push_bit 8 v OR of_nat n)"
  using ipv4_octet [of n "[]" v 3] by auto

lemma byte_of_u32: "unat (x AND 0xFF :: u32) < 256" "of_nat (unat (x AND 0xFF :: u32)) = x AND 0xFF"
proof -
  have "(0xFF :: u32) = mask 8" by (simp add: mask_eq_exp_minus_1)
  then have "x AND 0xFF = take_bit 8 x" by (simp only: take_bit_eq_mask)
  then have "unat (x AND 0xFF) = take_bit 8 (unat x)" by (simp only: unsigned_take_bit_eq)
  then show "unat (x AND 0xFF :: u32) < 256" using take_bit_nat_less_exp [of 8 "unat x"] by simp
  show "of_nat (unat (x AND 0xFF :: u32)) = x AND 0xFF" by simp
qed

section \<open>Reading line by line, and a minimal file\<close>

lemma fgets_len_line:
  assumes "newline \<notin> set l" "length l < 8191" shows "fgets_len (l @ newline # s) = length l + 1"
proof -
  have "take 8191 (l @ newline # s) = l @ newline # take (8190 - length l) s"
    using assms(2) by (simp add: take_Cons')
  then show ?thesis using assms(1) by (simp add: fgets_len_def LINE_MAX_def split_at_append)
qed

lemma fgets_len_last:
  assumes "newline \<notin> set l" "length l < 8191" shows "fgets_len l = length l"
  using assms by (simp add: fgets_len_def LINE_MAX_def split_at_None [THEN iffD2])

lemma config_loop_line:
  assumes "newline \<notin> set l" "length l < 8191"
    "config_line h ip cfg (cstr (l @ [newline])) = (Inr (ip', cfg'), h')"
  shows "config_loop h ip cfg n (l @ newline # s) = config_loop h' ip' cfg' (n + 1) s"
  using assms by (subst config_loop.simps) (simp add: fgets_len_line)

lemma config_loop_last:
  assumes "newline \<notin> set l" "length l < 8191" "l \<noteq> []"
    "config_line h ip cfg (cstr l) = (Inr (ip', cfg'), h')"
  shows "config_loop h ip cfg n l = (Inr cfg', h')"
  using assms by (subst config_loop.simps) (simp add: fgets_len_last config_loop.simps [of _ _ _ _ "[]"])

definition sample_key :: string where
  "sample_key = replicate 43 (CHR ''A'') @ ''=''"

lemma parse_sample_key: "parse_key sample_key = Some (replicate 32 0)"
  by code_simp

definition sample_conf :: string where
  "sample_conf = (''PrivateKey='' @ sample_key) @ newline # ''[Peer]'' @ newline #
     (''PublicKey='' @ sample_key) @ newline # ''Endpoint=h:1''"

lemma sample_lines:
  "config_line h False config_defaults (cstr ((''PrivateKey='' @ sample_key) @ [newline]))
     = (Inr (False, config_defaults\<lparr>cfg_have_private_key := True\<rparr>), h)"
  "config_line h False cfg (cstr (''[Peer]'' @ [newline])) = (Inr (True, cfg), h)"
  "config_line h True cfg (cstr ((''PublicKey='' @ sample_key) @ [newline]))
     = (Inr (True, cfg\<lparr>cfg_peer_public_key := replicate 32 0, cfg_have_peer_public_key := True\<rparr>), h)"
  "config_line h True cfg (cstr ''Endpoint=h:1'')
     = (Inr (True, cfg\<lparr>cfg_endpoint_port := 1, cfg_endpoint_host := ''h''\<rparr>), h)"
proof -
  show "config_line h False cfg (cstr (''[Peer]'' @ [newline])) = (Inr (True, cfg), h)"
    by (simp add: config_line_def cstr_def newline_def trim_def carriage_def tab_def)
  show  "config_line h True cfg (cstr ''Endpoint=h:1'')
     = (Inr (True, cfg\<lparr>cfg_endpoint_port := 1, cfg_endpoint_host := ''h''\<rparr>), h)"
    by (simp add: config_line_def cstr_def newline_def trim_def carriage_def tab_def peer_key_def rsplit_at_def
      atoi_def strtol_val_def strtol_def isspace_def isdigit_def long_clamp_def to_int32_def)
  have e: "sample_key = ''AAAAAAAAAAAAAAAAAAAAAAAAAAAAAAAAAAAAAAAAAAA=''"
    by (simp add: sample_key_def numeral_eq_Suc)
  show "config_line h False config_defaults (cstr ((''PrivateKey='' @ sample_key) @ [newline]))
     = (Inr (False, config_defaults\<lparr>cfg_have_private_key := True\<rparr>), h)"
    using parse_sample_key unfolding e
    by (simp add: config_line_def cstr_def newline_def trim_def carriage_def tab_def interface_key_def)
      (simp add: config_defaults_def)
  show "config_line h True cfg (cstr ((''PublicKey='' @ sample_key) @ [newline]))
     = (Inr (True, cfg\<lparr>cfg_peer_public_key := replicate 32 0, cfg_have_peer_public_key := True\<rparr>), h)"
    using parse_sample_key unfolding e
    by (simp add: config_line_def cstr_def newline_def trim_def carriage_def tab_def peer_key_def)
qed

section \<open>Properties\<close>

text \<open>C22.  A configuration that loads is usable: it has a private key, a peer key and an endpoint
  host; every key is 32 bytes, the host and the resolver list fit their arrays, and every
  obfuscation chain is well-formed, whatever the file holds and whatever allocation does.\<close>

theorem config_load_ok:
  assumes "awg_config_load h file = (Inr cfg, h')"
  shows "config_wf cfg \<and> cfg_have_private_key cfg \<and> cfg_have_peer_public_key cfg \<and>
     cfg_endpoint_host cfg \<noteq> []"
  using assms config_loop_wf [OF config_wf_defaults]
  by (auto simp: awg_config_load_def split: option.splits if_splits prod.splits sum.splits)

theorem config_load_ok_witness:
  "\<exists>cfg. awg_config_load heap_ok (Some sample_conf) = (Inr cfg, heap_ok) \<and> config_wf cfg \<and>
     cfg_have_private_key cfg \<and> cfg_have_peer_public_key cfg \<and> cfg_endpoint_host cfg = ''h''"
proof -
  let ?cfg = "config_defaults\<lparr>cfg_have_private_key := True, cfg_peer_public_key := replicate 32 0,
     cfg_have_peer_public_key := True, cfg_endpoint_port := 1, cfg_endpoint_host := ''h''\<rparr>"
  have n: "newline \<notin> set (''PrivateKey='' @ sample_key)" "newline \<notin> set ''[Peer]''"
    "newline \<notin> set (''PublicKey='' @ sample_key)" "newline \<notin> set ''Endpoint=h:1''"
    by (simp_all add: newline_def sample_key_def)
  have l: "length (''PrivateKey='' @ sample_key) < 8191" "length ''[Peer]'' < 8191"
    "length (''PublicKey='' @ sample_key) < 8191" "length ''Endpoint=h:1'' < 8191"
    by (simp_all add: sample_key_def)
  have "config_loop heap_ok False config_defaults 0 sample_conf = (Inr ?cfg, heap_ok)"
    unfolding sample_conf_def
    using config_loop_line [OF n(1) l(1) sample_lines(1)] config_loop_line [OF n(2) l(2) sample_lines(2)]
      config_loop_line [OF n(3) l(3) sample_lines(3)] config_loop_last [OF n(4) l(4) _ sample_lines(4)]
    by simp
  then have "awg_config_load heap_ok (Some sample_conf) = (Inr ?cfg, heap_ok)"
    by (simp add: awg_config_load_def)
  from config_load_ok [OF this] this show ?thesis by auto
qed

text \<open>Addresses: the parser reads back every address the dump prints.\<close>

lemma ipv4_roundtrip: "parse_ipv4 (ip_str ip) = Some ip"
proof -
  have "ipv4_loop (ip_str ip) 0 0 0 0
      = Some (push_bit 8 (push_bit 8 (push_bit 8 (ip AND 0xFF) OR (drop_bit 8 ip AND 0xFF))
          OR (drop_bit 16 ip AND 0xFF)) OR (drop_bit 24 ip AND 0xFF))"
    unfolding ip_str_def by (simp only: append_Cons append_Nil ipv4_dotted byte_of_u32 ipv4_last)
      (simp add: ipv4_dotted byte_of_u32 ipv4_last [unfolded numeral_3_eq_3] del: push_bit_or)
  then show ?thesis unfolding parse_ipv4_def by (simp only: option.map octets_swap)
qed

text \<open>Ranges: the parser reads back every range of C integers the dump prints; a degenerate or
  reversed one comes back as its lower value.\<close>

lemma range_roundtrip:
  assumes "- (2 ^ 31) \<le> r_min r" and "r_min r < 2 ^ 31" and "- (2 ^ 31) \<le> r_max r" and "r_max r < 2 ^ 31"
  shows "parse_range (range_str r) = \<lparr>r_min = r_min r, r_max = max (r_min r) (r_max r)\<rparr>"
proof (cases "r_max r > r_min r")
  case True
  have "strtol (show_int (r_min r) @ CHR ''-'' # show_int (r_max r)) = Some (r_min r, CHR ''-'' # show_int (r_max r))"
    using assms by (intro strtol_show_int) (simp_all add: isdigit_def)
  moreover have "strtol (show_int (r_max r)) = Some (r_max r, [])"
    using strtol_show_int [of "r_max r" "[]"] assms by simp
  ultimately show ?thesis
    using True assms by (simp add: parse_range_def range_str_def strtol_val_def to_int32_id)
next
  case False
  have "strtol (show_int (r_min r)) = Some (r_min r, [])"
    using strtol_show_int [of "r_min r" "[]"] assms by simp
  with False assms show ?thesis by (simp add: parse_range_def range_str_def to_int32_id)
qed

end
