(* ===== verification/Noise.thy ===== *)
theory Noise
  imports Aead Blake2s X25519_Ladder Config
begin

text \<open>
  \<open>awg_noise.c\<close>: the Noise_IKpsk2 handshake, the AmneziaWG framing and the transport packets.
  Functions that return -1 after having written part of their handshake return that partly written
  handshake here too.  Packets are worked on in place in the source; the model returns the buffer
  as it is left.  The clock (\<open>awg_now_seconds\<close>) is an argument.
\<close>

section \<open>Primitives\<close>

definition AWG_MSG_INIT_SIZE :: nat where
  "AWG_MSG_INIT_SIZE = 148"

definition AWG_MSG_RESP_SIZE :: nat where
  "AWG_MSG_RESP_SIZE = 92"

definition ascii :: "string \<Rightarrow> bytes" where
  "ascii s = map of_char s"

definition CONSTRUCTION :: bytes where
  "CONSTRUCTION = ascii ''Noise_IKpsk2_25519_ChaChaPoly_BLAKE2s''"

definition IDENTIFIER :: bytes where
  "IDENTIFIER = ascii ''WireGuard v1 zx2c4 Jason@zx2c4.com''"

definition LABEL_MAC1 :: bytes where
  "LABEL_MAC1 = ascii ''mac1----''"

text \<open>A context on the stack; \<open>blake2s_init\<close>'s result is ignored by every caller in this file.\<close>

definition stack_ctx :: blake2s_ctx where
  "stack_ctx = \<lparr>b2_b = replicate 64 0, b2_h = [], b2_t0 = 0, b2_t1 = 0, b2_c = 0, b2_outlen = 0\<rparr>"

definition blake2s_start :: "nat \<Rightarrow> bytes \<Rightarrow> blake2s_ctx" where
  "blake2s_start outlen key =
     (case blake2s_init stack_ctx outlen key of None \<Rightarrow> stack_ctx | Some c \<Rightarrow> c)"

definition hash2 :: "bytes \<Rightarrow> bytes \<Rightarrow> bytes" where
  "hash2 a b =
     (let c = blake2s_start 32 [];
          c = (if a \<noteq> [] then blake2s_update c a else c);
          c = (if b \<noteq> [] then blake2s_update c b else c)
      in snd (blake2s_final c))"

definition mix_hash :: "bytes \<Rightarrow> bytes \<Rightarrow> bytes" where
  "mix_hash h data = hash2 h data"

definition hmac_blake2s :: "bytes \<Rightarrow> bytes \<Rightarrow> bytes" where
  "hmac_blake2s key inp =
     (let k = replicate BLAKE2S_BLOCK_SIZE 0;
          k = (if length key > BLAKE2S_BLOCK_SIZE
               then (case blake2s stack_ctx 32 [] key of None \<Rightarrow> k | Some d \<Rightarrow> patch 0 d k)
               else patch 0 key k);
          ipad = map (\<lambda>x. x XOR 0x36) k;
          opad = map (\<lambda>x. x XOR 0x5c) k;
          c = blake2s_start 32 [];
          c = blake2s_update c ipad;
          c = (if inp \<noteq> [] then blake2s_update c inp else c);
          inner = snd (blake2s_final c);
          c = blake2s_start 32 [];
          c = blake2s_update c opad;
          c = blake2s_update c inner
      in snd (blake2s_final c))"

text \<open>\<open>kdf\<close> with one, two and three outputs.\<close>

definition kdf1 :: "bytes \<Rightarrow> bytes \<Rightarrow> bytes" where
  "kdf1 ck data = (let t0 = hmac_blake2s ck data in hmac_blake2s t0 [1])"

definition kdf2 :: "bytes \<Rightarrow> bytes \<Rightarrow> bytes \<times> bytes" where
  "kdf2 ck data =
     (let t0 = hmac_blake2s ck data;
          t1 = hmac_blake2s t0 [1];
          t2 = hmac_blake2s t0 (t1 @ [2])
      in (t1, t2))"

definition kdf3 :: "bytes \<Rightarrow> bytes \<Rightarrow> bytes \<times> bytes \<times> bytes" where
  "kdf3 ck data =
     (let t0 = hmac_blake2s ck data;
          t1 = hmac_blake2s t0 [1];
          t2 = hmac_blake2s t0 (t1 @ [2]);
          t3 = hmac_blake2s t0 (t2 @ [3])
      in (t1, t2, t3))"

definition put_u32_le :: "u32 \<Rightarrow> bytes" where
  "put_u32_le v = [ucast v, ucast (drop_bit 8 v), ucast (drop_bit 16 v), ucast (drop_bit 24 v)]"

definition get_u32_le :: "bytes \<Rightarrow> u32" where
  "get_u32_le p =
     ucast (p ! 0) OR push_bit 8 (ucast (p ! 1)) OR push_bit 16 (ucast (p ! 2))
       OR push_bit 24 (ucast (p ! 3))"

text \<open>The loop \<open>out[i] = secs & 0xFF; secs >>= 8\<close> from the last byte to the first.\<close>

primrec be_bytes64 :: "nat \<Rightarrow> u64 \<Rightarrow> bytes" where
  "be_bytes64 0 v = []"
| "be_bytes64 (Suc n) v = be_bytes64 n (drop_bit 8 v) @ [ucast (v AND 0xFF)]"

definition tai64n :: "u64 \<Rightarrow> entropy \<Rightarrow> bytes \<times> entropy" where
  "tai64n now e =
     (let secs = now + 0x400000000000000a;
          (nanos, e) = random_u32 e;
          nanos = nanos mod 1000000000
      in (be_bytes64 8 secs
            @ [ucast (drop_bit 24 nanos), ucast (drop_bit 16 nanos), ucast (drop_bit 8 nanos), ucast nanos],
          e))"

definition mac1 :: "bytes \<Rightarrow> bytes \<Rightarrow> bytes" where
  "mac1 recv_pub msg =
     (let c = blake2s_start 32 [];
          c = blake2s_update c LABEL_MAC1;
          c = blake2s_update c recv_pub;
          key = snd (blake2s_final c)
      in case blake2s stack_ctx 16 key msg of None \<Rightarrow> [] | Some m \<Rightarrow> m)"

section \<open>Keys\<close>

definition awg_public_from_private :: "bytes \<Rightarrow> bytes" where
  "awg_public_from_private priv = fst (x25519_base priv True)"

definition awg_generate_private :: "entropy \<Rightarrow> bytes \<times> entropy" where
  "awg_generate_private e =
     (let (priv, e) = awg_random_bytes e 32;
          priv = priv[0 := priv ! 0 AND 248];
          priv = priv[31 := priv ! 31 AND 127];
          priv = priv[31 := priv ! 31 OR 64]
      in (priv, e))"

section \<open>The handshake\<close>

record awg_handshake =
  hs_ck :: bytes
  hs_h :: bytes
  hs_s_priv :: bytes
  hs_s_pub :: bytes
  hs_e_priv :: bytes
  hs_e_pub :: bytes
  hs_peer_pub :: bytes
  hs_peer_eph :: bytes
  hs_psk :: bytes
  hs_local_index :: u32
  hs_remote_index :: u32
  hs_send_key :: bytes
  hs_recv_key :: bytes
  hs_established :: bool

definition zero32 :: bytes where
  "zero32 = replicate 32 0"

definition handshake_zero :: awg_handshake where
  "handshake_zero =
     \<lparr>hs_ck = zero32, hs_h = zero32, hs_s_priv = zero32, hs_s_pub = zero32, hs_e_priv = zero32,
      hs_e_pub = zero32, hs_peer_pub = zero32, hs_peer_eph = zero32, hs_psk = zero32,
      hs_local_index = 0, hs_remote_index = 0, hs_send_key = zero32, hs_recv_key = zero32,
      hs_established = False\<rparr>"

definition awg_handshake_begin ::
  "bytes \<Rightarrow> bytes option \<Rightarrow> bytes option \<Rightarrow> u32 \<Rightarrow> awg_handshake" where
  "awg_handshake_begin s_priv peer_pub psk local_index =
     (let hs = handshake_zero\<lparr>hs_s_priv := s_priv, hs_s_pub := awg_public_from_private s_priv\<rparr>;
          hs = (case peer_pub of None \<Rightarrow> hs | Some p \<Rightarrow> hs\<lparr>hs_peer_pub := p\<rparr>);
          hs = (case psk of None \<Rightarrow> hs | Some p \<Rightarrow> hs\<lparr>hs_psk := p\<rparr>)
      in hs\<lparr>hs_local_index := local_index\<rparr>)"

definition chain_start :: "awg_handshake \<Rightarrow> bytes \<Rightarrow> awg_handshake" where
  "chain_start hs responder_pub =
     (let ck = hash2 CONSTRUCTION [];
          h = hash2 ck IDENTIFIER
      in hs\<lparr>hs_ck := ck, hs_h := mix_hash h responder_pub\<rparr>)"

text \<open>The result \<open>None\<close> is -1, with the handshake as far as it was written.\<close>

definition awg_create_initiation ::
  "awg_handshake \<Rightarrow> u64 \<Rightarrow> entropy \<Rightarrow> awg_handshake \<times> bytes option \<times> entropy" where
  "awg_create_initiation hs now e =
     (let hs = chain_start hs (hs_peer_pub hs);
          (e_priv, e) = awg_generate_private e;
          hs = hs\<lparr>hs_e_priv := e_priv, hs_e_pub := awg_public_from_private e_priv\<rparr>;
          out = put_u32_le 1 @ put_u32_le (hs_local_index hs) @ hs_e_pub hs;
          hs = hs\<lparr>hs_ck := kdf1 (hs_ck hs) (hs_e_pub hs), hs_h := mix_hash (hs_h hs) (hs_e_pub hs)\<rparr>;
          (dh, rc) = x25519 (hs_e_priv hs) (hs_peer_pub hs) True
      in if rc \<noteq> 0 then (hs, None, e)
         else
           let (ck, k) = kdf2 (hs_ck hs) dh;
               sealed = chacha20poly1305_encrypt (hs_s_pub hs) (hs_h hs) 0 k;
               out = out @ sealed;
               hs = hs\<lparr>hs_ck := ck, hs_h := mix_hash (hs_h hs) sealed\<rparr>;
               (dh, rc) = x25519 (hs_s_priv hs) (hs_peer_pub hs) True
           in if rc \<noteq> 0 then (hs, None, e)
              else
                let (ck, k) = kdf2 (hs_ck hs) dh;
                    (stamp, e) = tai64n now e;
                    sealed = chacha20poly1305_encrypt stamp (hs_h hs) 0 k;
                    out = out @ sealed;
                    hs = hs\<lparr>hs_ck := ck, hs_h := mix_hash (hs_h hs) sealed\<rparr>;
                    out = out @ mac1 (hs_peer_pub hs) out @ replicate 16 0
                in (hs, Some out, e))"

definition awg_consume_initiation :: "awg_handshake \<Rightarrow> bytes \<Rightarrow> awg_handshake \<times> bool" where
  "awg_consume_initiation hs inp =
     (if get_u32_le inp \<noteq> 1 then (hs, False)
      else
        let hs = chain_start hs (hs_s_pub hs);
            expect = mac1 (hs_s_pub hs) (take 116 inp)
        in if \<not> crypto_equal expect (drop 116 inp) 16 then (hs, False)
           else
             let hs = hs\<lparr>hs_remote_index := get_u32_le (drop 4 inp), hs_peer_eph := slice 8 32 inp\<rparr>;
                 hs = hs\<lparr>hs_ck := kdf1 (hs_ck hs) (hs_peer_eph hs),
                         hs_h := mix_hash (hs_h hs) (hs_peer_eph hs)\<rparr>;
                 (dh, rc) = x25519 (hs_s_priv hs) (hs_peer_eph hs) True
             in if rc \<noteq> 0 then (hs, False)
                else
                  let (ck, k) = kdf2 (hs_ck hs) dh;
                      hs = hs\<lparr>hs_ck := ck\<rparr>
                  in case chacha20poly1305_decrypt (slice 40 48 inp) (hs_h hs) 0 k of
                       None \<Rightarrow> (hs, False)
                     | Some pub \<Rightarrow>
                         let hs = hs\<lparr>hs_peer_pub := pub, hs_h := mix_hash (hs_h hs) (slice 40 48 inp)\<rparr>;
                             (dh, rc) = x25519 (hs_s_priv hs) (hs_peer_pub hs) True
                         in if rc \<noteq> 0 then (hs, False)
                            else
                              let (ck, k) = kdf2 (hs_ck hs) dh;
                                  hs = hs\<lparr>hs_ck := ck\<rparr>
                              in case chacha20poly1305_decrypt (slice 88 28 inp) (hs_h hs) 0 k of
                                   None \<Rightarrow> (hs, False)
                                 | Some stamp \<Rightarrow>
                                     (hs\<lparr>hs_h := mix_hash (hs_h hs) (slice 88 28 inp)\<rparr>, True))"

definition awg_create_response ::
  "awg_handshake \<Rightarrow> entropy \<Rightarrow> awg_handshake \<times> bytes option \<times> entropy" where
  "awg_create_response hs e =
     (let (e_priv, e) = awg_generate_private e;
          hs = hs\<lparr>hs_e_priv := e_priv, hs_e_pub := awg_public_from_private e_priv\<rparr>;
          out = put_u32_le 2 @ put_u32_le (hs_local_index hs) @ put_u32_le (hs_remote_index hs)
                  @ hs_e_pub hs;
          hs = hs\<lparr>hs_ck := kdf1 (hs_ck hs) (hs_e_pub hs), hs_h := mix_hash (hs_h hs) (hs_e_pub hs)\<rparr>;
          (dh, rc) = x25519 (hs_e_priv hs) (hs_peer_eph hs) True
      in if rc \<noteq> 0 then (hs, None, e)
         else
           let hs = hs\<lparr>hs_ck := kdf1 (hs_ck hs) dh\<rparr>;
               (dh, rc) = x25519 (hs_e_priv hs) (hs_peer_pub hs) True
           in if rc \<noteq> 0 then (hs, None, e)
              else
                let hs = hs\<lparr>hs_ck := kdf1 (hs_ck hs) dh\<rparr>;
                    (ck, t, k) = kdf3 (hs_ck hs) (hs_psk hs);
                    hs = hs\<lparr>hs_ck := ck, hs_h := mix_hash (hs_h hs) t\<rparr>;
                    sealed = chacha20poly1305_encrypt [] (hs_h hs) 0 k;
                    out = out @ sealed;
                    hs = hs\<lparr>hs_h := mix_hash (hs_h hs) sealed\<rparr>;
                    out = out @ mac1 (hs_peer_pub hs) out @ replicate 16 0;
                    (recv, send) = kdf2 (hs_ck hs) []
                in (hs\<lparr>hs_recv_key := recv, hs_send_key := send, hs_established := True\<rparr>, Some out, e))"

definition awg_consume_response :: "awg_handshake \<Rightarrow> bytes \<Rightarrow> awg_handshake \<times> bool" where
  "awg_consume_response hs inp =
     (if get_u32_le inp \<noteq> 2 then (hs, False)
      else if get_u32_le (drop 8 inp) \<noteq> hs_local_index hs then (hs, False)
      else
        let expect = mac1 (hs_s_pub hs) (take 60 inp)
        in if \<not> crypto_equal expect (drop 60 inp) 16 then (hs, False)
           else
             let hs = hs\<lparr>hs_remote_index := get_u32_le (drop 4 inp), hs_peer_eph := slice 12 32 inp\<rparr>;
                 hs = hs\<lparr>hs_ck := kdf1 (hs_ck hs) (hs_peer_eph hs),
                         hs_h := mix_hash (hs_h hs) (hs_peer_eph hs)\<rparr>;
                 (dh, rc) = x25519 (hs_e_priv hs) (hs_peer_eph hs) True
             in if rc \<noteq> 0 then (hs, False)
                else
                  let hs = hs\<lparr>hs_ck := kdf1 (hs_ck hs) dh\<rparr>;
                      (dh, rc) = x25519 (hs_s_priv hs) (hs_peer_eph hs) True
                  in if rc \<noteq> 0 then (hs, False)
                     else
                       let hs = hs\<lparr>hs_ck := kdf1 (hs_ck hs) dh\<rparr>;
                           (ck, t, k) = kdf3 (hs_ck hs) (hs_psk hs);
                           hs = hs\<lparr>hs_ck := ck, hs_h := mix_hash (hs_h hs) t\<rparr>
                       in case chacha20poly1305_decrypt (slice 44 16 inp) (hs_h hs) 0 k of
                            None \<Rightarrow> (hs, False)
                          | Some _ \<Rightarrow>
                              let hs = hs\<lparr>hs_h := mix_hash (hs_h hs) (slice 44 16 inp)\<rparr>;
                                  (send, recv) = kdf2 (hs_ck hs) []
                              in (hs\<lparr>hs_send_key := send, hs_recv_key := recv, hs_established := True\<rparr>,
                                  True))"

section \<open>Framing\<close>

datatype awg_kind = AWG_KIND_INIT | AWG_KIND_RESPONSE | AWG_KIND_COOKIE | AWG_KIND_TRANSPORT

definition padding_for :: "awg_config \<Rightarrow> awg_kind \<Rightarrow> int" where
  "padding_for cfg kind =
     (case kind of AWG_KIND_INIT \<Rightarrow> cfg_s1 cfg | AWG_KIND_RESPONSE \<Rightarrow> cfg_s2 cfg
      | AWG_KIND_COOKIE \<Rightarrow> cfg_s3 cfg | AWG_KIND_TRANSPORT \<Rightarrow> cfg_s4 cfg)"

definition header_cipher_init :: "bytes \<Rightarrow> bytes \<Rightarrow> chacha20_ctx" where
  "header_cipher_init key nonce =
     (let ctx = chacha20_init key 0;
          ctx = ctx[12 := 0]
      in fold (\<lambda>w ctx. ctx[13 + w := get_u32_le (drop (4 * w) nonce)]) [0..<3] ctx)"

text \<open>The header pass in place: \<open>n\<close> bytes at \<open>off\<close> under the nonce at the start of the buffer.\<close>

definition header_pass :: "awg_config \<Rightarrow> nat \<Rightarrow> nat \<Rightarrow> bytes \<Rightarrow> bytes" where
  "header_pass cfg off n buf =
     patch off
       (snd (chacha20 (header_cipher_init (cfg_header_protection_key cfg) buf) (slice off n buf))) buf"

text \<open>\<open>awg_wrap\<close>: the datagram written to \<open>out\<close>, or \<open>None\<close> for -1.\<close>

definition awg_wrap ::
  "awg_config \<Rightarrow> awg_kind \<Rightarrow> entropy \<Rightarrow> bytes \<Rightarrow> int \<Rightarrow> bytes option \<times> entropy" where
  "awg_wrap cfg kind e msg out_cap =
     (let pad = padding_for cfg kind
      in if cfg_have_header_protection cfg \<and> pad < 12 then (None, e)
         else if pad < 0 \<or> pad + int (length msg) > out_cap then (None, e)
         else
           let (prefix, e) = awg_random_bytes e (nat pad);
               out = prefix @ msg;
               out = (if cfg_have_header_protection cfg
                      then header_pass cfg (nat pad) (length msg) out else out)
           in (Some out, e))"

text \<open>\<open>awg_unwrap\<close>: the buffer as it is left, and offset and length of the message.  With header
  protection off a negative padding is not rejected here; the length then exceeds the packet.\<close>

definition awg_unwrap ::
  "awg_config \<Rightarrow> awg_kind \<Rightarrow> bytes \<Rightarrow> bytes \<times> (int \<times> int) option" where
  "awg_unwrap cfg kind pkt =
     (let pad = padding_for cfg kind
      in if cfg_have_header_protection cfg \<and> pad < 12 then (pkt, None)
         else if int (length pkt) \<le> pad then (pkt, None)
         else
           let msg_len = int (length pkt) - pad;
               pkt = (if cfg_have_header_protection cfg
                      then header_pass cfg (nat pad) (nat msg_len) pkt else pkt)
           in (pkt, Some (pad, msg_len)))"

section \<open>Transport\<close>

definition TRANSPORT_HDR :: nat where
  "TRANSPORT_HDR = 16"

definition AEAD_TAG :: nat where
  "AEAD_TAG = 16"

primrec le_bytes64 :: "nat \<Rightarrow> u64 \<Rightarrow> bytes" where
  "le_bytes64 0 v = []"
| "le_bytes64 (Suc n) v = ucast v # le_bytes64 n (drop_bit 8 v)"

definition put_u64_le :: "u64 \<Rightarrow> bytes" where
  "put_u64_le v = le_bytes64 8 v"

definition get_u64_le :: "bytes \<Rightarrow> u64" where
  "get_u64_le p = fold (\<lambda>i v. push_bit 8 v OR ucast (p ! i)) (rev [0..<8]) 0"

text \<open>
  Outcomes of the transport functions.  \<open>Fault\<close> is a memory access outside the buffers: without
  header protection neither function rejects a negative \<open>S4\<close>, and the sealing one then asks for
  \<open>(size_t) pad\<close> random bytes, the opening one reads in front of the packet.
\<close>

definition awg_transport_seal ::
  "awg_config \<Rightarrow> awg_handshake \<Rightarrow> entropy \<Rightarrow> u64 \<Rightarrow> bytes \<Rightarrow> int \<Rightarrow> bytes outcome \<times> entropy" where
  "awg_transport_seal cfg hs e counter payload out_cap =
     (let pad = cfg_s4 cfg
      in if cfg_have_header_protection cfg \<and> pad < 12 then (Rejected, e)
         else
           let padded = (int (length payload) + 15) AND NOT 15;
               total = pad + int TRANSPORT_HDR + padded + int AEAD_TAG
           in if total > out_cap then (Rejected, e)
              else if pad < 0 then (Fault, e)
              else
                let (prefix, e) = awg_random_bytes e (nat pad);
                    hdr = put_u32_le (cfg_h4 cfg) @ put_u32_le (hs_remote_index hs) @ put_u64_le counter;
                    body = payload @ replicate (nat padded - length payload) 0;
                    body = chacha20poly1305_encrypt body [] counter (hs_send_key hs);
                    out = prefix @ hdr @ body;
                    out = (if cfg_have_header_protection cfg
                           then header_pass cfg (nat pad) TRANSPORT_HDR out else out)
                in (Done out, e))"

text \<open>The packet as it is left, and payload and counter.\<close>

definition awg_transport_open ::
  "awg_config \<Rightarrow> awg_handshake \<Rightarrow> bytes \<Rightarrow> int \<Rightarrow> bytes \<times> (bytes \<times> u64) outcome" where
  "awg_transport_open cfg hs pkt out_cap =
     (let pad = cfg_s4 cfg
      in if cfg_have_header_protection cfg \<and> pad < 12 then (pkt, Rejected)
         else if int (length pkt) < pad + int TRANSPORT_HDR + int AEAD_TAG then (pkt, Rejected)
         else if pad < 0 then (pkt, Fault)
         else
           let hp = (\<lambda>buf. if cfg_have_header_protection cfg
                           then header_pass cfg (nat pad) TRANSPORT_HDR buf else buf);
               pkt = hp pkt;
               hdr = drop (nat pad) pkt
           in if get_u32_le hdr \<noteq> cfg_h4 cfg then (hp pkt, Rejected)
              else if get_u32_le (drop 4 hdr) \<noteq> hs_local_index hs then (hp pkt, Rejected)
              else
                let ctr = get_u64_le (drop 8 hdr);
                    cipher_len = int (length pkt) - pad - int TRANSPORT_HDR;
                    plain_len = cipher_len - int AEAD_TAG
                in if plain_len < 0 \<or> plain_len > out_cap then (hp pkt, Rejected)
                   else
                     case chacha20poly1305_decrypt (slice TRANSPORT_HDR (nat cipher_len) hdr) [] ctr
                            (hs_recv_key hs) of
                       None \<Rightarrow> (hp pkt, Rejected)
                     | Some plain \<Rightarrow> (pkt, Done (plain, ctr)))"

text \<open>The junk datagrams, each in its own slot of \<open>cap\<close> bytes.\<close>

definition junk_one :: "awg_config \<Rightarrow> int \<Rightarrow> entropy \<Rightarrow> bytes \<times> entropy" where
  "junk_one cfg cap e =
     (let span = cfg_jmax cfg - cfg_jmin cfg;
          (r, e) = (if span > 0
                    then let (r, e) = random_u32 e in (r mod word_of_int span, e)
                    else (0, e));
          len = cfg_jmin cfg + sint r;
          len = (if len > cap then cap else len);
          len = (if len < 0 then 0 else len)
      in awg_random_bytes e (nat len))"

primrec junk_loop :: "nat \<Rightarrow> awg_config \<Rightarrow> int \<Rightarrow> entropy \<Rightarrow> bytes list \<times> entropy" where
  "junk_loop 0 cfg cap e = ([], e)"
| "junk_loop (Suc n) cfg cap e =
     (let (b, e) = junk_one cfg cap e; (bs, e) = junk_loop n cfg cap e in (b # bs, e))"

definition awg_junk_packets :: "awg_config \<Rightarrow> int \<Rightarrow> int \<Rightarrow> entropy \<Rightarrow> bytes list \<times> entropy" where
  "awg_junk_packets cfg cap max_packets e =
     (let n = cfg_jc cfg;
          n = (if n > max_packets then max_packets else n)
      in if n \<le> 0 then ([], e) else junk_loop (nat n) cfg cap e)"

end
