(* ===== verification/Noise_Correct.thy ===== *)
theory Noise_Correct
  imports Noise
begin

text \<open>
  The handshake of \<open>awg_noise.c\<close>: its hashes and MACs as plain hashes of concatenations, HMAC as RFC
  2104 has it, what each message contains when it is made, what consuming it yields, and the
  agreement of the two sides.
\<close>

section \<open>Hashes, MACs and integers\<close>

lemma b2_valid_stack: "0 < n \<Longrightarrow> n \<le> 32 \<Longrightarrow> length key \<le> 32 \<Longrightarrow> b2_valid (n, key, stack_ctx)"
  by (simp add: b2_valid_def stack_ctx_def)

lemma blake2s_start_eq: "blake2s_start 32 [] = b2_start (32, [], stack_ctx)"
  using blake2s_init_Some [OF b2_valid_stack [of 32 "[]"]] by (simp add: blake2s_start_def)

lemma hash_fold:
  "snd (blake2s_final (blake2s_update (blake2s_start 32 []) a)) = blake2s_ref 32 [] a"
  "snd (blake2s_final (blake2s_update (blake2s_update (blake2s_start 32 []) a) b)) = blake2s_ref 32 [] (a @ b)"
  "snd (blake2s_final (blake2s_start 32 [])) = blake2s_ref 32 [] []"
  using b2.finish_feed [OF b2_valid_stack, of 32 "[]" a] b2.finish_feed_feed [OF b2_valid_stack, of 32 "[]" a b]
    b2.finish_fold [OF b2_valid_stack, of 32 "[]" "[]"]
  by (simp_all add: blake2s_start_eq)

lemma hash2_ref: "hash2 a b = blake2s_ref 32 [] (a @ b)"
  by (simp add: hash2_def hash_fold Let_def)

lemma mac1_ref:
  "mac1 recv_pub msg = blake2s_ref 16 (blake2s_ref 32 [] (LABEL_MAC1 @ recv_pub)) msg"
  by (simp add: mac1_def hash_fold Let_def blake2s_eq_ref stack_ctx_def)

lemma length_hash2 [simp]: "length (hash2 a b) = 32"
  by (simp add: hash2_ref)

lemma length_mac1 [simp]: "length (mac1 p m) = 16"
  by (simp add: mac1_ref)

text \<open>HMAC of RFC 2104 over BLAKE2s.\<close>

definition hmac_ref :: "bytes \<Rightarrow> bytes \<Rightarrow> bytes" where
  "hmac_ref key m =
     (let key = (if length key > 64 then blake2s_ref 32 [] key else key);
          k = key @ replicate (64 - length key) 0
      in blake2s_ref 32 [] (map (\<lambda>x. x XOR 0x5c) k @ blake2s_ref 32 [] (map (\<lambda>x. x XOR 0x36) k @ m)))"

lemma hmac_blake2s_ref: "hmac_blake2s key m = hmac_ref key m"
  by (simp add: hmac_blake2s_def hmac_ref_def Let_def hash_fold blake2s_eq_ref stack_ctx_def
      BLAKE2S_BLOCK_SIZE_def patch_def)

lemma length_hmac [simp]: "length (hmac_blake2s key m) = 32"
  by (simp add: hmac_blake2s_ref hmac_ref_def Let_def)

text \<open>\<open>hmac_blake2s\<close> is HMAC of RFC 2104 with BLAKE2s-256: a key longer than the 64-byte block is
  hashed first, the key is padded with zeros, and the two nested hashes are of the masked key and the
  message; this holds for every key and message, the empty message the code skips included.\<close>

lemma hmac_is_rfc2104:
  "hmac_blake2s key m =
     (let key = (if length key > 64 then blake2s_ref 32 [] key else key);
          k = key @ replicate (64 - length key) 0
      in blake2s_ref 32 [] (map (\<lambda>x. x XOR 0x5c) k @ blake2s_ref 32 [] (map (\<lambda>x. x XOR 0x36) k @ m)))"
  unfolding hmac_blake2s_ref hmac_ref_def ..

lemma put_u32_le_eq: "put_u32_le = U32TO8_LITTLE"
  by (simp add: fun_eq_iff put_u32_le_def U32TO8_LITTLE_def)

lemma get_u32_le_eq: "get_u32_le = U8TO32_LITTLE"
  by (simp add: fun_eq_iff get_u32_le_def U8TO32_LITTLE_def)

lemma length_put_u32_le [simp]: "length (put_u32_le v) = 4"
  by (simp add: put_u32_le_eq)

lemma get_put_u32 [simp]: "get_u32_le (put_u32_le v @ r) = v"
  by (simp add: put_u32_le_eq get_u32_le_eq)

lemma put_u64_le_eq: "put_u64_le = U64TO8_LITTLE"
  by (simp add: fun_eq_iff put_u64_le_def U64TO8_LITTLE_def numeral_eq_Suc drop_bit_drop_bit)

lemma get_u64_le_eq: "get_u64_le = U8TO64_LITTLE"
proof -
  have "rev [0..<8] = [7, 6, 5, 4, 3, 2, 1, 0 :: nat]" by code_simp
  then show ?thesis
    by (simp add: fun_eq_iff get_u64_le_def U8TO64_LITTLE_def push_bit_or push_bit_push_bit ac_simps)
qed

lemma length_put_u64_le [simp]: "length (put_u64_le v) = 8"
  by (simp add: put_u64_le_eq)

lemma get_put_u64 [simp]: "get_u64_le (put_u64_le v @ r) = v"
  by (simp add: put_u64_le_eq get_u64_le_eq)

lemma length_be_bytes64 [simp]: "length (be_bytes64 n v) = n"
  by (induction n arbitrary: v) simp_all

lemma length_tai64n [simp]: "length (fst (tai64n now e)) = 12"
  by (simp add: tai64n_def Let_def split_beta)

lemma length_x25519: "length x1 = 32 \<Longrightarrow> length (fst (x25519 s x1 c)) = 32"
  using x25519_val(1) [of x1 _ _ s c] by (metis surj_pair fst_conv)

lemma length_public [simp]: "length (awg_public_from_private p) = 32"
  by (simp add: awg_public_from_private_def x25519_base_def length_x25519 X25519_BASE_POINT_def)

section \<open>The initiation\<close>

definition init_ck :: bytes where
  "init_ck = hash2 CONSTRUCTION []"

definition init_h :: "bytes \<Rightarrow> bytes" where
  "init_h p = mix_hash (hash2 init_ck IDENTIFIER) p"

lemma chain_start_eq: "chain_start hs p = hs\<lparr>hs_ck := init_ck, hs_h := init_h p\<rparr>"
  by (simp add: chain_start_def init_ck_def init_h_def Let_def)

lemma create_initiation_Some:
  assumes "awg_create_initiation hs now e = (hs', Some msg, e')"
  obtains e_priv e1 dh1 dh2 ck2 ck3 k1 k2 stamp where
    "awg_generate_private e = (e_priv, e1)"
    "x25519 e_priv (hs_peer_pub hs) True = (dh1, 0)"
    "x25519 (hs_s_priv hs) (hs_peer_pub hs) True = (dh2, 0)"
    "let e_pub = awg_public_from_private e_priv;
         h1 = mix_hash (init_h (hs_peer_pub hs)) e_pub; c1 = chacha20poly1305_encrypt (hs_s_pub hs) h1 0 k1;
         h2 = mix_hash h1 c1; c2 = chacha20poly1305_encrypt stamp h2 0 k2;
         pre = put_u32_le 1 @ put_u32_le (hs_local_index hs) @ e_pub @ c1 @ c2
     in kdf2 (kdf1 init_ck e_pub) dh1 = (ck2, k1) \<and> kdf2 ck2 dh2 = (ck3, k2) \<and> length stamp = 12 \<and>
        msg = pre @ mac1 (hs_peer_pub hs) pre @ replicate 16 0 \<and>
        hs' = hs\<lparr>hs_e_priv := e_priv, hs_e_pub := e_pub, hs_ck := ck3, hs_h := mix_hash h2 c2\<rparr>"
proof -
  obtain e_priv e1 where g: "awg_generate_private e = (e_priv, e1)" by fastforce
  obtain dh1 r1 where d1: "x25519 e_priv (hs_peer_pub hs) True = (dh1, r1)" by fastforce
  obtain dh2 r2 where d2: "x25519 (hs_s_priv hs) (hs_peer_pub hs) True = (dh2, r2)" by fastforce
  obtain ck2 k1 where k1: "kdf2 (kdf1 init_ck (awg_public_from_private e_priv)) dh1 = (ck2, k1)" by fastforce
  obtain ck3 k2 where k2: "kdf2 ck2 dh2 = (ck3, k2)" by fastforce
  obtain stamp e2 where st: "tai64n now e1 = (stamp, e2)" by fastforce
  have z: "r1 = 0" "r2 = 0"
    using assms unfolding awg_create_initiation_def Let_def g
    by (auto simp: d1 d2 k1 chain_start_eq split: if_splits prod.splits)
  show ?thesis
  proof (rule that [OF g])
    show "x25519 e_priv (hs_peer_pub hs) True = (dh1, 0)" "x25519 (hs_s_priv hs) (hs_peer_pub hs) True = (dh2, 0)"
      using d1 d2 z by simp_all
    have "length stamp = 12" using length_tai64n [of now e1] st by simp
    with assms g d1 d2 k1 k2 st z show "let e_pub = awg_public_from_private e_priv;
         h1 = mix_hash (init_h (hs_peer_pub hs)) e_pub; c1 = chacha20poly1305_encrypt (hs_s_pub hs) h1 0 k1;
         h2 = mix_hash h1 c1; c2 = chacha20poly1305_encrypt stamp h2 0 k2;
         pre = put_u32_le 1 @ put_u32_le (hs_local_index hs) @ e_pub @ c1 @ c2
     in kdf2 (kdf1 init_ck e_pub) dh1 = (ck2, k1) \<and> kdf2 ck2 dh2 = (ck3, k2) \<and> length stamp = 12 \<and>
        msg = pre @ mac1 (hs_peer_pub hs) pre @ replicate 16 0 \<and>
        hs' = hs\<lparr>hs_e_priv := e_priv, hs_e_pub := e_pub, hs_ck := ck3, hs_h := mix_hash h2 c2\<rparr>"
      unfolding awg_create_initiation_def Let_def
      by (simp add: chain_start_eq)
  qed
qed

lemma consume_initiation_ok:
  assumes msg: "msg = pre @ mac1 (hs_s_pub r) pre @ replicate 16 0"
    and pre: "pre = put_u32_le 1 @ put_u32_le idx @ e_pub @ c1 @ c2"
    and len: "length e_pub = 32" "length c1 = 48" "length c2 = 28"
    and dh1: "x25519 (hs_s_priv r) e_pub True = (dh1, 0)"
    and k1: "kdf2 (kdf1 init_ck e_pub) dh1 = (ck2, k1)"
    and h1: "h1 = mix_hash (init_h (hs_s_pub r)) e_pub"
    and c1: "chacha20poly1305_decrypt c1 h1 0 k1 = Some ipub"
    and dh2: "x25519 (hs_s_priv r) ipub True = (dh2, 0)"
    and k2: "kdf2 ck2 dh2 = (ck3, k2)"
    and c2: "chacha20poly1305_decrypt c2 (mix_hash h1 c1) 0 k2 = Some stamp"
  shows "awg_consume_initiation r msg =
    (r\<lparr>hs_remote_index := idx, hs_peer_eph := e_pub, hs_peer_pub := ipub, hs_ck := ck3,
       hs_h := mix_hash (mix_hash h1 c1) c2\<rparr>, True)"
proof -
  have lp: "length pre = 116" using len by (simp add: pre)
  have t: "take 116 msg = pre" using lp by (simp add: msg)
  have m: "crypto_equal (mac1 (hs_s_pub r) pre) (drop 116 msg) 16"
    using lp by (subst crypto_equal_take) (simp_all add: msg)
  have f: "get_u32_le msg = 1" "get_u32_le (drop 4 msg) = idx" "slice 8 32 msg = e_pub"
    "slice 40 48 msg = c1" "slice 88 28 msg = c2"
    using len by (simp_all add: msg pre slice_def)
  show ?thesis
    unfolding awg_consume_initiation_def Let_def
    by (simp add: f t m chain_start_eq dh1 k1 c1 [unfolded h1] dh2 k2 c2 [unfolded h1] h1)
qed

section \<open>The response\<close>

lemma create_response_Some:
  assumes "awg_create_response hs e = (hs', Some msg, e')"
  obtains e_priv e1 dh1 dh2 ck3 t k recv send where
    "awg_generate_private e = (e_priv, e1)"
    "x25519 e_priv (hs_peer_eph hs) True = (dh1, 0)"
    "x25519 e_priv (hs_peer_pub hs) True = (dh2, 0)"
    "let e_pub = awg_public_from_private e_priv; h1 = mix_hash (hs_h hs) e_pub;
         h2 = mix_hash h1 t; c = chacha20poly1305_encrypt [] h2 0 k;
         pre = put_u32_le 2 @ put_u32_le (hs_local_index hs) @ put_u32_le (hs_remote_index hs) @ e_pub @ c
     in kdf3 (kdf1 (kdf1 (kdf1 (hs_ck hs) e_pub) dh1) dh2) (hs_psk hs) = (ck3, t, k) \<and>
        kdf2 ck3 [] = (recv, send) \<and>
        msg = pre @ mac1 (hs_peer_pub hs) pre @ replicate 16 0 \<and>
        hs' = hs\<lparr>hs_e_priv := e_priv, hs_e_pub := e_pub, hs_ck := ck3, hs_h := mix_hash h2 c,
                 hs_recv_key := recv, hs_send_key := send, hs_established := True\<rparr>"
proof -
  obtain e_priv e1 where g: "awg_generate_private e = (e_priv, e1)" by fastforce
  obtain dh1 r1 where d1: "x25519 e_priv (hs_peer_eph hs) True = (dh1, r1)" by fastforce
  obtain dh2 r2 where d2: "x25519 e_priv (hs_peer_pub hs) True = (dh2, r2)" by fastforce
  obtain ck3 t k where k: "kdf3 (kdf1 (kdf1 (kdf1 (hs_ck hs) (awg_public_from_private e_priv)) dh1) dh2)
    (hs_psk hs) = (ck3, t, k)" by (metis surj_pair)
  obtain recv send where rs: "kdf2 ck3 [] = (recv, send)" by fastforce
  have z: "r1 = 0" "r2 = 0"
    using assms unfolding awg_create_response_def Let_def g
    by (auto simp: d1 d2 split: if_splits prod.splits)
  show ?thesis
  proof (rule that [OF g])
    show "x25519 e_priv (hs_peer_eph hs) True = (dh1, 0)" "x25519 e_priv (hs_peer_pub hs) True = (dh2, 0)"
      using d1 d2 z by simp_all
    from assms g d1 d2 k rs z show "let e_pub = awg_public_from_private e_priv; h1 = mix_hash (hs_h hs) e_pub;
         h2 = mix_hash h1 t; c = chacha20poly1305_encrypt [] h2 0 k;
         pre = put_u32_le 2 @ put_u32_le (hs_local_index hs) @ put_u32_le (hs_remote_index hs) @ e_pub @ c
     in kdf3 (kdf1 (kdf1 (kdf1 (hs_ck hs) e_pub) dh1) dh2) (hs_psk hs) = (ck3, t, k) \<and>
        kdf2 ck3 [] = (recv, send) \<and>
        msg = pre @ mac1 (hs_peer_pub hs) pre @ replicate 16 0 \<and>
        hs' = hs\<lparr>hs_e_priv := e_priv, hs_e_pub := e_pub, hs_ck := ck3, hs_h := mix_hash h2 c,
                 hs_recv_key := recv, hs_send_key := send, hs_established := True\<rparr>"
      unfolding awg_create_response_def Let_def by simp
  qed
qed

lemma consume_response_ok:
  assumes msg: "msg = pre @ mac1 (hs_s_pub i) pre @ replicate 16 0"
    and pre: "pre = put_u32_le 2 @ put_u32_le idx @ put_u32_le (hs_local_index i) @ e_pub @ c"
    and len: "length e_pub = 32" "length c = 16"
    and dh1: "x25519 (hs_e_priv i) e_pub True = (dh1, 0)"
    and dh2: "x25519 (hs_s_priv i) e_pub True = (dh2, 0)"
    and k: "kdf3 (kdf1 (kdf1 (kdf1 (hs_ck i) e_pub) dh1) dh2) (hs_psk i) = (ck3, t, k)"
    and h2: "h2 = mix_hash (mix_hash (hs_h i) e_pub) t"
    and c: "chacha20poly1305_decrypt c h2 0 k = Some x"
    and sr: "kdf2 ck3 [] = (send, recv)"
  shows "awg_consume_response i msg =
    (i\<lparr>hs_remote_index := idx, hs_peer_eph := e_pub, hs_ck := ck3, hs_h := mix_hash h2 c,
       hs_send_key := send, hs_recv_key := recv, hs_established := True\<rparr>, True)"
proof -
  have lp: "length pre = 60" using len by (simp add: pre)
  have tk: "take 60 msg = pre" using lp by (simp add: msg)
  have m: "crypto_equal (mac1 (hs_s_pub i) pre) (drop 60 msg) 16"
    using lp by (subst crypto_equal_take) (simp_all add: msg)
  have f: "get_u32_le msg = 2" "get_u32_le (drop 4 msg) = idx" "get_u32_le (drop 8 msg) = hs_local_index i"
    "slice 12 32 msg = e_pub" "slice 44 16 msg = c"
    using len by (simp_all add: msg pre slice_def)
  show ?thesis
    unfolding awg_consume_response_def Let_def
    by (simp add: f tk m dh1 dh2 k c [unfolded h2] h2 sr)
qed

section \<open>Both roles together\<close>

lemma create_initiation_None:
  assumes "awg_create_initiation hs now e = (hs', None, e')"
  shows "snd (x25519 (fst (awg_generate_private e)) (hs_peer_pub hs) True) \<noteq> 0
     \<or> snd (x25519 (hs_s_priv hs) (hs_peer_pub hs) True) \<noteq> 0"
  using assms unfolding awg_create_initiation_def Let_def
  by (auto simp: chain_start_eq split: if_splits prod.splits)

lemma create_response_None:
  assumes "awg_create_response hs e = (hs', None, e')"
  shows "snd (x25519 (fst (awg_generate_private e)) (hs_peer_eph hs) True) \<noteq> 0
     \<or> snd (x25519 (fst (awg_generate_private e)) (hs_peer_pub hs) True) \<noteq> 0"
  using assms unfolding awg_create_response_def Let_def
  by (auto split: if_splits prod.splits)

text \<open>Diffie-Hellman between two private keys gives the same value, and the same code, both ways.\<close>

definition dh_commutes :: "bytes \<Rightarrow> bytes \<Rightarrow> bool" where
  "dh_commutes a b \<longleftrightarrow>
     x25519 a (awg_public_from_private b) True = x25519 b (awg_public_from_private a) True"

lemma begin_simps [simp]:
  "hs_s_priv (awg_handshake_begin s p k i) = s"
  "hs_s_pub (awg_handshake_begin s p k i) = awg_public_from_private s"
  "hs_peer_pub (awg_handshake_begin s (Some q) k i) = q"
  "hs_local_index (awg_handshake_begin s p k i) = i"
  "hs_psk (awg_handshake_begin s p k i) = (case k of None \<Rightarrow> zero32 | Some x \<Rightarrow> x)"
  by (simp_all add: awg_handshake_begin_def handshake_zero_def Let_def split: option.split)

text \<open>The responder's handshake after an initiation was consumed, and what the two sides share.\<close>

lemma initiation_agreement:
  assumes c: "awg_create_initiation i now e = (i1, Some m, e')"
    and peer: "hs_peer_pub i = hs_s_pub r" and pubs: "hs_s_pub i = awg_public_from_private (hs_s_priv i)"
      "hs_s_pub r = awg_public_from_private (hs_s_priv r)"
    and dh: "dh_commutes (fst (awg_generate_private e)) (hs_s_priv r)" "dh_commutes (hs_s_priv i) (hs_s_priv r)"
  obtains r1 where "awg_consume_initiation r m = (r1, True)" "length m = 148"
    "hs_peer_pub r1 = hs_s_pub i" "hs_peer_eph r1 = hs_e_pub i1" "hs_remote_index r1 = hs_local_index i"
    "hs_ck r1 = hs_ck i1" "hs_h r1 = hs_h i1" "hs_psk r1 = hs_psk r" "hs_local_index r1 = hs_local_index r"
    "hs_e_priv i1 = fst (awg_generate_private e)" "hs_e_pub i1 = awg_public_from_private (hs_e_priv i1)"
    "hs_s_priv i1 = hs_s_priv i" "hs_s_pub i1 = hs_s_pub i" "hs_psk i1 = hs_psk i"
    "hs_local_index i1 = hs_local_index i"
proof -
  obtain ep e1 dh1 dh2 ck2 ck3 k1 k2 stamp where
    g: "awg_generate_private e = (ep, e1)" and d1: "x25519 ep (hs_peer_pub i) True = (dh1, 0)"
    and d2: "x25519 (hs_s_priv i) (hs_peer_pub i) True = (dh2, 0)"
    and L: "let e_pub = awg_public_from_private ep; h1 = mix_hash (init_h (hs_peer_pub i)) e_pub;
         c1 = chacha20poly1305_encrypt (hs_s_pub i) h1 0 k1;
         h2 = mix_hash h1 c1; c2 = chacha20poly1305_encrypt stamp h2 0 k2;
         pre = put_u32_le 1 @ put_u32_le (hs_local_index i) @ e_pub @ c1 @ c2
     in kdf2 (kdf1 init_ck e_pub) dh1 = (ck2, k1) \<and> kdf2 ck2 dh2 = (ck3, k2) \<and> length stamp = 12 \<and>
        m = pre @ mac1 (hs_peer_pub i) pre @ replicate 16 0 \<and>
        i1 = i\<lparr>hs_e_priv := ep, hs_e_pub := e_pub, hs_ck := ck3, hs_h := mix_hash h2 c2\<rparr>"
    using create_initiation_Some [OF c] .
  define e_pub where "e_pub = awg_public_from_private ep"
  define h1 where "h1 = mix_hash (init_h (hs_s_pub r)) e_pub"
  define c1 where "c1 = chacha20poly1305_encrypt (hs_s_pub i) h1 0 k1"
  define c2 where "c2 = chacha20poly1305_encrypt stamp (mix_hash h1 c1) 0 k2"
  define pre where "pre = put_u32_le 1 @ put_u32_le (hs_local_index i) @ e_pub @ c1 @ c2"
  note F = L [unfolded Let_def peer, folded e_pub_def, folded h1_def, folded c1_def, folded c2_def,
    folded pre_def]
  have len: "length e_pub = 32" "length c1 = 48" "length c2 = 28"
    using F by (simp_all add: e_pub_def c1_def c2_def ccp.seal_length pubs)
  have r1: "x25519 (hs_s_priv r) e_pub True = (dh1, 0)"
    using d1 dh(1) g peer pubs by (simp add: dh_commutes_def e_pub_def)
  have r2: "x25519 (hs_s_priv r) (hs_s_pub i) True = (dh2, 0)"
    using d2 dh(2) peer pubs by (simp add: dh_commutes_def)
  have o1: "chacha20poly1305_decrypt c1 h1 0 k1 = Some (hs_s_pub i)"
    "chacha20poly1305_decrypt c2 (mix_hash h1 c1) 0 k2 = Some stamp"
    unfolding c1_def c2_def by (rule ccp.unseal_seal)+
  have "awg_consume_initiation r m = (r\<lparr>hs_remote_index := hs_local_index i, hs_peer_eph := e_pub,
      hs_peer_pub := hs_s_pub i, hs_ck := ck3, hs_h := mix_hash (mix_hash h1 c1) c2\<rparr>, True)"
    using consume_initiation_ok [OF _ pre_def len r1 _ h1_def o1(1) r2 _ o1(2)] F by blast
  moreover have "length m = 148" using F len by (simp add: pre_def)
  ultimately show ?thesis using that F g by (simp add: e_pub_def)
qed

lemma response_agreement:
  assumes c: "awg_create_response r1 e = (r2, Some m, e')"
    and peer: "hs_peer_pub r1 = hs_s_pub i1" "hs_peer_eph r1 = hs_e_pub i1" "hs_remote_index r1 = hs_local_index i1"
      "hs_ck r1 = hs_ck i1" "hs_h r1 = hs_h i1" "hs_psk r1 = hs_psk i1"
    and pubs: "hs_s_pub i1 = awg_public_from_private (hs_s_priv i1)"
      "hs_e_pub i1 = awg_public_from_private (hs_e_priv i1)"
    and dh: "dh_commutes (fst (awg_generate_private e)) (hs_e_priv i1)"
      "dh_commutes (fst (awg_generate_private e)) (hs_s_priv i1)"
  obtains i2 where "awg_consume_response i1 m = (i2, True)" "length m = 92"
    "hs_established i2" "hs_established r2" "hs_send_key i2 = hs_recv_key r2"
    "hs_recv_key i2 = hs_send_key r2" "hs_remote_index i2 = hs_local_index r1"
    "hs_remote_index r2 = hs_local_index i1"
proof -
  obtain ep e1 dh1 dh2 ck3 t k recv send where
    g: "awg_generate_private e = (ep, e1)" and d1: "x25519 ep (hs_peer_eph r1) True = (dh1, 0)"
    and d2: "x25519 ep (hs_peer_pub r1) True = (dh2, 0)"
    and L: "let e_pub = awg_public_from_private ep; h1 = mix_hash (hs_h r1) e_pub;
         h2 = mix_hash h1 t; c = chacha20poly1305_encrypt [] h2 0 k;
         pre = put_u32_le 2 @ put_u32_le (hs_local_index r1) @ put_u32_le (hs_remote_index r1) @ e_pub @ c
     in kdf3 (kdf1 (kdf1 (kdf1 (hs_ck r1) e_pub) dh1) dh2) (hs_psk r1) = (ck3, t, k) \<and>
        kdf2 ck3 [] = (recv, send) \<and>
        m = pre @ mac1 (hs_peer_pub r1) pre @ replicate 16 0 \<and>
        r2 = r1\<lparr>hs_e_priv := ep, hs_e_pub := e_pub, hs_ck := ck3, hs_h := mix_hash h2 c,
                 hs_recv_key := recv, hs_send_key := send, hs_established := True\<rparr>"
    using create_response_Some [OF c] .
  define e_pub where "e_pub = awg_public_from_private ep"
  define h2 where "h2 = mix_hash (mix_hash (hs_h i1) e_pub) t"
  define c where "c = chacha20poly1305_encrypt [] h2 0 k"
  define pre where "pre = put_u32_le 2 @ put_u32_le (hs_local_index r1) @ put_u32_le (hs_local_index i1) @ e_pub @ c"
  note F = L [unfolded Let_def peer, folded e_pub_def, folded h2_def, folded c_def, folded pre_def]
  have len: "length e_pub = 32" "length c = 16"
    by (simp_all add: e_pub_def c_def ccp.seal_length)
  have x: "x25519 (hs_e_priv i1) e_pub True = (dh1, 0)" "x25519 (hs_s_priv i1) e_pub True = (dh2, 0)"
    using d1 d2 dh g peer pubs by (simp_all add: dh_commutes_def e_pub_def)
  have o: "chacha20poly1305_decrypt c h2 0 k = Some []" unfolding c_def by (rule ccp.unseal_seal)
  have "awg_consume_response i1 m =
    (i1\<lparr>hs_remote_index := hs_local_index r1, hs_peer_eph := e_pub, hs_ck := ck3, hs_h := mix_hash h2 c,
       hs_send_key := recv, hs_recv_key := send, hs_established := True\<rparr>, True)"
    using consume_response_ok [OF _ pre_def len x _ h2_def o] F by blast
  moreover have "length m = 92" using F len by (simp add: pre_def)
  ultimately show ?thesis using that F peer by simp
qed

text \<open>C3.  The two sides of the handshake agree.  Whenever Diffie-Hellman commutes on the four pairs of
  keys it is used on, the initiation made by \<open>awg_create_initiation\<close> is 148 bytes and is consumed by the
  responder, who learns the initiator's static key; the response is 92 bytes and is consumed by the
  initiator; both end established, the sending key of each is the receiving key of the other, and each
  addresses the other's index.  A message is refused only when a Diffie-Hellman returned its error.\<close>

theorem handshake_agreement:
  fixes si sr :: bytes and e e' :: entropy
  defines "ei \<equiv> fst (awg_generate_private e)" and "er \<equiv> fst (awg_generate_private e')"
  assumes dh: "dh_commutes ei sr" "dh_commutes si sr" "dh_commutes er ei" "dh_commutes er si"
  shows "case awg_create_initiation (awg_handshake_begin si (Some (awg_public_from_private sr)) psk ii) now e of
      (i1, None, _) \<Rightarrow> snd (x25519 ei (awg_public_from_private sr) True) \<noteq> 0 \<or>
        snd (x25519 si (awg_public_from_private sr) True) \<noteq> 0
    | (i1, Some m1, _) \<Rightarrow> length m1 = AWG_MSG_INIT_SIZE \<and>
      (case awg_consume_initiation (awg_handshake_begin sr None psk ri) m1 of (r1, ok1) \<Rightarrow>
        ok1 \<and> hs_peer_pub r1 = awg_public_from_private si \<and>
        (case awg_create_response r1 e' of
            (r2, None, _) \<Rightarrow> snd (x25519 er (awg_public_from_private ei) True) \<noteq> 0 \<or>
              snd (x25519 er (awg_public_from_private si) True) \<noteq> 0
          | (r2, Some m2, _) \<Rightarrow> length m2 = AWG_MSG_RESP_SIZE \<and>
            (case awg_consume_response i1 m2 of (i2, ok2) \<Rightarrow>
              ok2 \<and> hs_established i2 \<and> hs_established r2 \<and>
              hs_send_key i2 = hs_recv_key r2 \<and> hs_recv_key i2 = hs_send_key r2 \<and>
              hs_remote_index i2 = ri \<and> hs_remote_index r2 = ii)))"
proof -
  let ?i = "awg_handshake_begin si (Some (awg_public_from_private sr)) psk ii"
  let ?r = "awg_handshake_begin sr None psk ri"
  obtain i1 om1 x1 where c1: "awg_create_initiation ?i now e = (i1, om1, x1)" by (rule prod_cases3)
  show ?thesis
  proof (cases om1)
    case None
    then show ?thesis
      using create_initiation_None [of ?i now e i1 x1] c1 by (simp add: ei_def)
  next
    case (Some m1)
    have d: "dh_commutes (fst (awg_generate_private e)) (hs_s_priv ?r)" "dh_commutes (hs_s_priv ?i) (hs_s_priv ?r)"
      using dh by (simp_all add: ei_def)
    obtain r1 where r1: "awg_consume_initiation ?r m1 = (r1, True)" and l1: "length m1 = 148"
      and f: "hs_peer_pub r1 = hs_s_pub ?i" "hs_peer_eph r1 = hs_e_pub i1" "hs_remote_index r1 = hs_local_index ?i"
        "hs_ck r1 = hs_ck i1" "hs_h r1 = hs_h i1" "hs_psk r1 = hs_psk ?r" "hs_local_index r1 = hs_local_index ?r"
        "hs_e_priv i1 = fst (awg_generate_private e)" "hs_e_pub i1 = awg_public_from_private (hs_e_priv i1)"
        "hs_s_priv i1 = hs_s_priv ?i" "hs_s_pub i1 = hs_s_pub ?i" "hs_psk i1 = hs_psk ?i"
        "hs_local_index i1 = hs_local_index ?i"
      using initiation_agreement [OF c1 [unfolded Some] _ _ _ d] by auto
    obtain r2 om2 x2 where c2: "awg_create_response r1 e' = (r2, om2, x2)" by (rule prod_cases3)
    show ?thesis
    proof (cases om2)
      case None
      then show ?thesis
        using create_response_None [of r1 e' r2 x2] c1 c2 r1 l1 f \<open>om1 = Some m1\<close>
        by (simp add: AWG_MSG_INIT_SIZE_def er_def ei_def)
    next
      case (Some m2)
      have d: "dh_commutes (fst (awg_generate_private e')) (hs_e_priv i1)"
        "dh_commutes (fst (awg_generate_private e')) (hs_s_priv i1)"
        using dh f by (simp_all add: er_def ei_def)
      obtain i2 where "awg_consume_response i1 m2 = (i2, True)" "length m2 = 92"
        "hs_established i2" "hs_established r2" "hs_send_key i2 = hs_recv_key r2"
        "hs_recv_key i2 = hs_send_key r2" "hs_remote_index i2 = hs_local_index r1"
        "hs_remote_index r2 = hs_local_index i1"
        using response_agreement [OF c2 [unfolded Some] _ _ _ _ _ _ _ _ d] f by auto
      then show ?thesis
        using c1 c2 r1 l1 f \<open>om1 = Some m1\<close> Some by (simp add: AWG_MSG_INIT_SIZE_def AWG_MSG_RESP_SIZE_def)
    qed
  qed
qed

definition sample_private :: bytes where
  "sample_private = fst (awg_generate_private (\<lambda>_. 0))"

theorem handshake_agreement_witness:
  "case awg_create_initiation (awg_handshake_begin sample_private (Some (awg_public_from_private sample_private)) None 7)
       0 (\<lambda>_. 0) of
      (i1, None, _) \<Rightarrow> snd (x25519 sample_private (awg_public_from_private sample_private) True) \<noteq> 0
    | (i1, Some m1, _) \<Rightarrow> length m1 = AWG_MSG_INIT_SIZE \<and>
      (case awg_consume_initiation (awg_handshake_begin sample_private None None 9) m1 of (r1, ok1) \<Rightarrow>
        ok1 \<and> hs_peer_pub r1 = awg_public_from_private sample_private \<and>
        (case awg_create_response r1 (\<lambda>_. 0) of
            (r2, None, _) \<Rightarrow> snd (x25519 sample_private (awg_public_from_private sample_private) True) \<noteq> 0
          | (r2, Some m2, _) \<Rightarrow> length m2 = AWG_MSG_RESP_SIZE \<and>
            (case awg_consume_response i1 m2 of (i2, ok2) \<Rightarrow>
              ok2 \<and> hs_established i2 \<and> hs_established r2 \<and>
              hs_send_key i2 = hs_recv_key r2 \<and> hs_recv_key i2 = hs_send_key r2 \<and>
              hs_remote_index i2 = 9 \<and> hs_remote_index r2 = 7)))"
proof -
  have "dh_commutes a a" for a by (simp add: dh_commutes_def)
  then show ?thesis
    using handshake_agreement [where e = "\<lambda>_. 0" and e' = "\<lambda>_. 0" and si = sample_private and sr = sample_private
      and psk = None and ii = 7 and ri = 9 and now = 0]
    unfolding sample_private_def by (simp only: disj_absorb)
qed

end
