(* ===== verification/Transport.thy ===== *)
theory Transport
  imports Noise_Correct
begin

text \<open>
  Framing and transport packets of \<open>awg_noise.c\<close>: header protection undoes itself, wrapping and
  unwrapping are inverse, the opening side accepts exactly the packets of the sealing side's form, and a
  packet it rejects is left as it was received.
\<close>

section \<open>Header protection\<close>

lemma header_cipher_init_eq:
  "header_cipher_init key nonce = (chacha20_init key 0)[12 := 0, 13 := get_u32_le nonce,
     14 := get_u32_le (drop 4 nonce), 15 := get_u32_le (drop 8 nonce)]"
  by (simp add: header_cipher_init_def numeral_eq_Suc)

lemma length_header_cipher_init [simp]: "length (header_cipher_init key nonce) = 16"
  by (simp add: header_cipher_init_eq)

interpretation hp: stream_cipher "\<lambda>(key, nonce) x. snd (chacha20 (header_cipher_init key nonce) x)"
  by unfold_locales (auto simp: chacha20_invol)

lemma header_cipher_init_cong:
  assumes "take 12 a = take 12 b" "12 \<le> length a" "12 \<le> length b"
  shows "header_cipher_init key a = header_cipher_init key b"
proof -
  have "a ! i = b ! i" if "i < 12" for i using assms that by (metis nth_take)
  then show ?thesis using assms by (simp add: header_cipher_init_eq get_u32_le_def)
qed

lemma length_header_pass [simp]:
  "off + n \<le> length buf \<Longrightarrow> length (header_pass cfg off n buf) = length buf"
  by (simp add: header_pass_def length_patch length_slice)

lemma take_header_pass:
  "m \<le> off \<Longrightarrow> off + n \<le> length buf \<Longrightarrow> take m (header_pass cfg off n buf) = take m buf"
  by (simp add: header_pass_def take_patch length_slice)

lemma header_pass_invol:
  assumes "12 \<le> off" "off + n \<le> length buf"
  shows "header_pass cfg off n (header_pass cfg off n buf) = buf"
proof -
  let ?k = "cfg_header_protection_key cfg"
  have "header_cipher_init ?k (header_pass cfg off n buf) = header_cipher_init ?k buf"
    using assms by (intro header_cipher_init_cong take_header_pass) simp_all
  then show ?thesis
    unfolding header_pass_def [of cfg off n "header_pass cfg off n buf"]
    using hp.crypt_patch_restore [of off n buf "(?k, buf)"] assms
    by (simp add: header_pass_def)
qed

section \<open>Wrapping\<close>

definition wrap_pass :: "awg_config \<Rightarrow> nat \<Rightarrow> nat \<Rightarrow> bytes \<Rightarrow> bytes" where
  "wrap_pass cfg off n buf = (if cfg_have_header_protection cfg then header_pass cfg off n buf else buf)"

lemma length_wrap_pass [simp]:
  "off + n \<le> length buf \<Longrightarrow> length (wrap_pass cfg off n buf) = length buf"
  by (simp add: wrap_pass_def)

lemma wrap_pass_invol:
  "(cfg_have_header_protection cfg \<longrightarrow> 12 \<le> off) \<Longrightarrow> off + n \<le> length buf \<Longrightarrow>
   wrap_pass cfg off n (wrap_pass cfg off n buf) = buf"
  by (simp add: wrap_pass_def header_pass_invol)

lemma awg_wrap_Some:
  assumes "awg_wrap cfg kind e msg cap = (Some pkt, e')"
  obtains prefix where "length prefix = nat (padding_for cfg kind)" "0 \<le> padding_for cfg kind"
    "cfg_have_header_protection cfg \<longrightarrow> 12 \<le> padding_for cfg kind"
    "padding_for cfg kind + int (length msg) \<le> cap"
    "pkt = wrap_pass cfg (length prefix) (length msg) (prefix @ msg)"
  using assms that [of "fst (awg_random_bytes e (nat (padding_for cfg kind)))"]
  by (auto simp: awg_wrap_def Let_def wrap_pass_def split_beta split: if_splits)

lemma unwrap_wrapped:
  assumes "awg_wrap cfg kind e msg cap = (Some pkt, e')" "msg \<noteq> []"
  obtains prefix where "awg_unwrap cfg kind pkt = (prefix @ msg, Some (padding_for cfg kind, int (length msg)))"
    "int (length prefix) = padding_for cfg kind" "int (length pkt) = padding_for cfg kind + int (length msg)"
    "int (length pkt) \<le> cap"
proof -
  obtain prefix where p: "length prefix = nat (padding_for cfg kind)" "0 \<le> padding_for cfg kind"
    "cfg_have_header_protection cfg \<longrightarrow> 12 \<le> padding_for cfg kind"
    "padding_for cfg kind + int (length msg) \<le> cap"
    "pkt = wrap_pass cfg (length prefix) (length msg) (prefix @ msg)"
    by (rule awg_wrap_Some [OF assms(1)])
  have "wrap_pass cfg (length prefix) (length msg) pkt = prefix @ msg"
    unfolding p(5) using p(1-3) by (intro wrap_pass_invol) auto
  with p assms(2) show ?thesis
    by (intro that [of prefix]) (auto simp: awg_unwrap_def Let_def wrap_pass_def)
qed

text \<open>What \<open>awg_wrap\<close> sends, \<open>awg_unwrap\<close> recovers: the datagram is the padding and the message long
  and fits the buffer, and unwrapping it with the same configuration finds the message, unchanged,
  behind the padding, for every message that is not empty.\<close>

lemma wrap_unwrap_roundtrip:
  assumes "awg_wrap cfg kind e msg cap = (Some pkt, e')" and "msg \<noteq> []"
  shows "\<exists>prefix. awg_unwrap cfg kind pkt
           = (prefix @ msg, Some (padding_for cfg kind, int (length msg))) \<and>
         int (length prefix) = padding_for cfg kind \<and>
         int (length pkt) = padding_for cfg kind + int (length msg) \<and> int (length pkt) \<le> cap"
  by (rule unwrap_wrapped [OF assms]) blast

text \<open>A configuration with header protection and 12 bytes of padding for every kind.\<close>

definition sample_config :: awg_config where
  "sample_config = config_defaults
     \<lparr>cfg_have_header_protection := True, cfg_header_protection_key := replicate 32 7,
      cfg_s1 := 12, cfg_s2 := 12, cfg_s3 := 12, cfg_s4 := 12, cfg_h4 := 0x1234\<rparr>"

section \<open>Transport packets\<close>

lemma put_get_u32: "4 \<le> length b \<Longrightarrow> put_u32_le (get_u32_le b) = take 4 b"
  by (rule le_val_inj)
    (simp_all add: put_u32_le_eq get_u32_le_eq le_val_U32TO8_LITTLE unat_U8TO32_LITTLE)

lemma put_get_u64:
  assumes "8 \<le> length b" shows "put_u64_le (get_u64_le b) = take 8 b"
proof (rule nth_equalityI)
  fix i assume "i < length (put_u64_le (get_u64_le b))"
  then have i: "i < 8" by simp
  show "put_u64_le (get_u64_le b) ! i = take 8 b ! i"
  proof (rule bit_word_eqI)
    fix r assume "r < LENGTH(8)"
    then show "bit (put_u64_le (get_u64_le b) ! i) r = bit (take 8 b ! i) r"
      using i by (simp add: put_u64_le_eq get_u64_le_eq bit_U64TO8 bit_U8TO64)
  qed
qed (use assms in simp)

text \<open>The header of a transport packet and the whole packet, header protection included.\<close>

definition transport_hdr :: "awg_config \<Rightarrow> u32 \<Rightarrow> u64 \<Rightarrow> bytes" where
  "transport_hdr cfg idx ctr = put_u32_le (cfg_h4 cfg) @ put_u32_le idx @ put_u64_le ctr"

definition transport_packet :: "awg_config \<Rightarrow> u32 \<Rightarrow> bytes \<Rightarrow> u64 \<Rightarrow> bytes \<Rightarrow> bytes \<Rightarrow> bytes" where
  "transport_packet cfg idx key ctr prefix plain =
     wrap_pass cfg (length prefix) 16
       (prefix @ transport_hdr cfg idx ctr @ chacha20poly1305_encrypt plain [] ctr key)"

lemma length_transport_hdr [simp]: "length (transport_hdr cfg idx ctr) = 16"
  by (simp add: transport_hdr_def)

lemma length_transport_packet [simp]:
  "length (transport_packet cfg idx key ctr prefix plain) = length prefix + 32 + length plain"
  by (simp add: transport_packet_def ccp.seal_length)

text \<open>The parameters under which either side works at all.\<close>

definition s4_ok :: "awg_config \<Rightarrow> bool" where
  "s4_ok cfg \<longleftrightarrow> 0 \<le> cfg_s4 cfg \<and> (cfg_have_header_protection cfg \<longrightarrow> 12 \<le> cfg_s4 cfg)"

lemma transport_open_eq:
  assumes ok: "s4_ok cfg" and len: "nat (cfg_s4 cfg) + 32 \<le> length pkt"
  shows "awg_transport_open cfg hs pkt cap =
    (let pass = wrap_pass cfg (nat (cfg_s4 cfg)) 16; clear = pass pkt; hdr = drop (nat (cfg_s4 cfg)) clear;
         ctr = get_u64_le (drop 8 hdr)
     in if get_u32_le hdr = cfg_h4 cfg \<and> get_u32_le (drop 4 hdr) = hs_local_index hs \<and>
           int (length pkt) - cfg_s4 cfg - 32 \<le> cap
        then (case chacha20poly1305_decrypt (drop 16 hdr) [] ctr (hs_recv_key hs) of
                None \<Rightarrow> (pass clear, Rejected) | Some plain \<Rightarrow> (clear, Done (plain, ctr)))
        else (pass clear, Rejected))"
proof -
  let ?c = "wrap_pass cfg (nat (cfg_s4 cfg)) 16 pkt"
  have l: "length ?c = length pkt" using len by simp
  have "slice 16 (nat (int (length pkt) - cfg_s4 cfg - 16)) (drop (nat (cfg_s4 cfg)) ?c) =
      drop 16 (drop (nat (cfg_s4 cfg)) ?c)"
    unfolding slice_def using l len ok by (simp add: s4_ok_def nat_diff_distrib)
  note sl = this
  have g: "\<not> (cfg_have_header_protection cfg \<and> cfg_s4 cfg < 12)"
    "\<not> int (length pkt) < cfg_s4 cfg + 16 + 16" "\<not> cfg_s4 cfg < 0"
    "\<not> int (length pkt) - cfg_s4 cfg - 32 < 0"
    "int (length pkt) - cfg_s4 cfg - 16 - 16 = int (length pkt) - cfg_s4 cfg - 32"
    using ok len by (auto simp: s4_ok_def)
  show ?thesis
    unfolding awg_transport_open_def Let_def TRANSPORT_HDR_def AEAD_TAG_def wrap_pass_def [symmetric]
    by (simp only: g l sl if_False simp_thms not_less [symmetric] of_nat_numeral)
      (simp split: option.split)
qed

lemma open_packet:
  assumes ok: "s4_ok cfg" and p: "length prefix = nat (cfg_s4 cfg)" and cap: "int (length plain) \<le> cap"
  shows "awg_transport_open cfg hs
      (transport_packet cfg (hs_local_index hs) (hs_recv_key hs) ctr prefix plain) cap =
    (prefix @ transport_hdr cfg (hs_local_index hs) ctr
       @ chacha20poly1305_encrypt plain [] ctr (hs_recv_key hs), Done (plain, ctr))"
proof -
  let ?body = "chacha20poly1305_encrypt plain [] ctr (hs_recv_key hs)"
  let ?clear = "prefix @ transport_hdr cfg (hs_local_index hs) ctr @ ?body"
  let ?pkt = "transport_packet cfg (hs_local_index hs) (hs_recv_key hs) ctr prefix plain"
  have c: "wrap_pass cfg (nat (cfg_s4 cfg)) 16 ?pkt = ?clear"
    unfolding transport_packet_def p
    using ok by (intro wrap_pass_invol) (auto simp: s4_ok_def p ccp.seal_length)
  have f: "get_u32_le (drop (nat (cfg_s4 cfg)) ?clear) = cfg_h4 cfg"
    "get_u32_le (drop 4 (drop (nat (cfg_s4 cfg)) ?clear)) = hs_local_index hs"
    "get_u64_le (drop 8 (drop (nat (cfg_s4 cfg)) ?clear)) = ctr"
    "drop 16 (drop (nat (cfg_s4 cfg)) ?clear) = ?body"
    by (simp_all add: p [symmetric] transport_hdr_def)
  have l: "int (length ?pkt) - cfg_s4 cfg - 32 \<le> cap" using cap ok p by (simp add: s4_ok_def)
  show ?thesis
    by (subst transport_open_eq [OF ok])
      (use p ok cap in \<open>simp_all only: Let_def c f ccp.unseal_seal length_transport_packet, simp_all add: s4_ok_def\<close>)
qed

lemma transport_open_s4:
  "snd (awg_transport_open cfg hs pkt cap) = Done r \<Longrightarrow> s4_ok cfg \<and> nat (cfg_s4 cfg) + 32 \<le> length pkt"
  by (auto simp: awg_transport_open_def Let_def s4_ok_def TRANSPORT_HDR_def AEAD_TAG_def split: if_splits)

text \<open>The clear bytes of an accepted packet, taken apart.\<close>

lemma clear_parts:
  assumes "n + 32 \<le> length c" "get_u32_le (drop n c) = cfg_h4 cfg" "get_u32_le (drop 4 (drop n c)) = idx"
  shows "c = take n c @ transport_hdr cfg idx (get_u64_le (drop 8 (drop n c))) @ drop 16 (drop n c)"
proof -
  have "put_u32_le (cfg_h4 cfg) = take 4 (drop n c)" "put_u32_le idx = take 4 (drop 4 (drop n c))"
    "put_u64_le (get_u64_le (drop 8 (drop n c))) = take 8 (drop 8 (drop n c))"
    using assms put_get_u32 [of "drop n c"] put_get_u32 [of "drop 4 (drop n c)"]
      put_get_u64 [of "drop 8 (drop n c)"] by simp_all
  then have "transport_hdr cfg idx (get_u64_le (drop 8 (drop n c))) = take 16 (drop n c)"
    unfolding transport_hdr_def
    using take_add [of 4 4 "drop n c"] take_add [of 8 8 "drop n c"] by (simp add: add.commute)
  then show ?thesis by (metis append_take_drop_id)
qed

lemma transport_open_Done:
  assumes "snd (awg_transport_open cfg hs pkt cap) = Done (plain, ctr)"
  shows "s4_ok cfg \<and> int (length plain) \<le> cap \<and>
    (\<exists>prefix. length prefix = nat (cfg_s4 cfg) \<and>
       pkt = transport_packet cfg (hs_local_index hs) (hs_recv_key hs) ctr prefix plain)"
proof -
  from transport_open_s4 [OF assms] have ok: "s4_ok cfg" and len: "nat (cfg_s4 cfg) + 32 \<le> length pkt"
    by simp_all
  define n where "n = nat (cfg_s4 cfg)"
  define c where "c = wrap_pass cfg n 16 pkt"
  have lc: "length c = length pkt" using len by (simp add: c_def n_def)
  have pkt: "pkt = wrap_pass cfg n 16 c"
    unfolding c_def using ok len by (subst wrap_pass_invol) (auto simp: s4_ok_def n_def)
  from assms [unfolded transport_open_eq [OF ok len] Let_def, folded n_def, folded c_def]
  have h: "get_u32_le (drop n c) = cfg_h4 cfg" "get_u32_le (drop 4 (drop n c)) = hs_local_index hs"
    "int (length pkt) - cfg_s4 cfg - 32 \<le> cap"
    and d: "chacha20poly1305_decrypt (drop 16 (drop n c)) [] ctr (hs_recv_key hs) = Some plain"
    and ctr: "ctr = get_u64_le (drop 8 (drop n c))"
    by (auto split: if_splits option.splits)
  have e: "drop 16 (drop n c) = chacha20poly1305_encrypt plain [] ctr (hs_recv_key hs)"
    using d by (simp only: ccp.unseal_iff)
  have "c = take n c @ transport_hdr cfg (hs_local_index hs) ctr
      @ chacha20poly1305_encrypt plain [] ctr (hs_recv_key hs)"
    using clear_parts [OF _ h(1,2), folded ctr, unfolded e] len lc by (simp add: n_def)
  moreover have "length (take n c) = n" using len lc by (simp add: n_def)
  ultimately have p: "pkt = transport_packet cfg (hs_local_index hs) (hs_recv_key hs) ctr (take n c) plain"
    unfolding transport_packet_def using pkt by metis
  moreover have "int (length plain) \<le> cap"
    using h(3) arg_cong [OF p, of length] \<open>length (take n c) = n\<close> ok by (simp add: n_def s4_ok_def)
  ultimately show ?thesis using ok \<open>length (take n c) = n\<close> n_def by blast
qed

lemma and_not_15: "(x :: int) AND NOT 15 = 16 * (x div 16)"
proof -
  have "x AND NOT (mask 4) = push_bit 4 (drop_bit 4 x)"
    by (rule bit_eqI) (auto simp: bit_and_iff bit_not_iff bit_mask_iff bit_push_bit_iff bit_drop_bit_eq)
  then show ?thesis by (simp add: mask_eq_exp_minus_1 push_bit_eq_mult drop_bit_eq_div)
qed

lemma padded_length:
  "(int n + 15) AND NOT 15 = int (n + (16 - n mod 16) mod 16)"
proof -
  obtain q r where n: "n = 16 * q + r" "r < 16"
    by (metis mod_less_divisor mult_div_mod_eq zero_less_numeral)
  then have "(n + 15) div 16 = (if r = 0 then q else q + 1)" by (auto intro: div_nat_eqI)
  with n have "16 * ((n + 15) div 16) = n + (16 - n mod 16) mod 16" by simp
  then have "int (16 * ((n + 15) div 16)) = int (n + (16 - n mod 16) mod 16)" by (rule arg_cong)
  then show ?thesis unfolding and_not_15 by (simp add: zdiv_int)
qed

lemma transport_seal_Done:
  assumes "awg_transport_seal cfg hs e ctr payload cap = (Done pkt, e')"
  obtains prefix where "s4_ok cfg" "length prefix = nat (cfg_s4 cfg)" "int (length pkt) \<le> cap"
    "pkt = transport_packet cfg (hs_remote_index hs) (hs_send_key hs) ctr prefix
             (payload @ replicate ((16 - length payload mod 16) mod 16) 0)"
proof -
  let ?r = "(16 - length payload mod 16) mod 16"
  let ?p = "fst (awg_random_bytes e (nat (cfg_s4 cfg)))"
  let ?pkt = "transport_packet cfg (hs_remote_index hs) (hs_send_key hs) ctr ?p (payload @ replicate ?r 0)"
  have g: "\<not> (cfg_have_header_protection cfg \<and> cfg_s4 cfg < 12)" "\<not> cfg_s4 cfg < 0"
    "\<not> cfg_s4 cfg + 16 + int (length payload + ?r) + 16 > cap"
    using assms unfolding awg_transport_seal_def Let_def padded_length TRANSPORT_HDR_def AEAD_TAG_def
    by (auto simp only: of_nat_numeral prod.inject outcome.distinct split: if_splits)
  have "pkt = ?pkt"
    using assms g
    unfolding awg_transport_seal_def Let_def padded_length TRANSPORT_HDR_def AEAD_TAG_def nat_int
      wrap_pass_def [symmetric] transport_packet_def transport_hdr_def
    by (simp add: split_beta)
  then show ?thesis
    using that [of ?p] g by (simp add: s4_ok_def not_less)
qed

section \<open>Properties of the transport packets\<close>

text \<open>What \<open>awg_transport_seal\<close> makes fits the buffer, is a multiple of 16 behind the padding, and is
  opened by a peer with the matching index and key: the peer gets the payload, padded with zeros to a
  multiple of 16, and the counter it was sealed under.\<close>

lemma transport_roundtrip:
  assumes "awg_transport_seal cfg hs e ctr payload cap = (Done pkt, e')"
    and "hs_local_index peer = hs_remote_index hs" "hs_recv_key peer = hs_send_key hs"
    and "length payload + 15 \<le> nat out_cap"
  shows "snd (awg_transport_open cfg peer pkt out_cap)
           = Done (payload @ replicate ((16 - length payload mod 16) mod 16) 0, ctr) \<and>
         int (length pkt) \<le> cap \<and>
         int (length pkt) = cfg_s4 cfg + 32 + int (length payload + (16 - length payload mod 16) mod 16)"
proof -
  obtain prefix where p: "s4_ok cfg" "length prefix = nat (cfg_s4 cfg)" "int (length pkt) \<le> cap"
    "pkt = transport_packet cfg (hs_remote_index hs) (hs_send_key hs) ctr prefix
             (payload @ replicate ((16 - length payload mod 16) mod 16) 0)"
    by (rule transport_seal_Done [OF assms(1)])
  have "(16 - length payload mod 16) mod 16 \<le> 15"
    using mod_less_divisor [of 16 "16 - length payload mod 16"] by linarith
  with assms(4) have "int (length (payload @ replicate ((16 - length payload mod 16) mod 16) (0 :: u8))) \<le> out_cap"
    by simp
  from open_packet [OF p(1,2) this, of peer ctr] p assms(2,3) show ?thesis
    by (simp add: s4_ok_def)
qed

text \<open>C14.  \<open>awg_transport_open\<close> accepts exactly the packets of the protocol: it returns \<open>plain\<close> and
  \<open>ctr\<close> if and only if \<open>S4\<close> is usable, the plaintext fits the output buffer, and the datagram is
  \<open>S4\<close> bytes of padding followed by the (masked) header with the configured type word, our index and
  that counter, and the encryption of that plaintext under the receiving key and that counter.\<close>

theorem transport_open_accepts_exactly:
  "snd (awg_transport_open cfg hs pkt cap) = Done (plain, ctr) \<longleftrightarrow>
     s4_ok cfg \<and> int (length plain) \<le> cap \<and>
     (\<exists>prefix. length prefix = nat (cfg_s4 cfg) \<and>
        pkt = transport_packet cfg (hs_local_index hs) (hs_recv_key hs) ctr prefix plain)"
  using transport_open_Done [of cfg hs pkt cap plain ctr] open_packet [of cfg _ plain cap hs ctr] by force

text \<open>C15.  A datagram that is not opened is left exactly as it came: the header pass, undone in place to
  look at the header, is redone before every rejection.\<close>

theorem transport_open_reject_restores:
  assumes "awg_transport_open cfg hs pkt cap = (pkt', r)" and "\<forall>x. r \<noteq> Done x"
  shows "pkt' = pkt"
proof (cases "s4_ok cfg \<and> nat (cfg_s4 cfg) + 32 \<le> length pkt")
  case True
  then have ok: "s4_ok cfg" and len: "nat (cfg_s4 cfg) + 32 \<le> length pkt" by simp_all
  have "wrap_pass cfg (nat (cfg_s4 cfg)) 16 (wrap_pass cfg (nat (cfg_s4 cfg)) 16 pkt) = pkt"
    using ok len by (intro wrap_pass_invol) (auto simp: s4_ok_def)
  with assms transport_open_eq [OF ok len, of hs cap] show ?thesis
    by (auto simp: Let_def split: if_splits option.splits)
next
  case False
  with assms(1) show ?thesis
    by (auto simp: awg_transport_open_def s4_ok_def TRANSPORT_HDR_def AEAD_TAG_def Let_def split: if_splits)
qed

theorem transport_open_reject_restores_witness:
  "awg_transport_open sample_config handshake_zero (replicate 60 9) 10 = (replicate 60 9, Rejected)"
proof -
  have s: "snd (awg_transport_open sample_config handshake_zero (replicate 60 9) 10) = Rejected"
    by (simp add: awg_transport_open_def sample_config_def TRANSPORT_HDR_def AEAD_TAG_def Let_def)
  obtain p where p: "awg_transport_open sample_config handshake_zero (replicate 60 9) 10 = (p, Rejected)"
    using s by (metis surj_pair snd_conv)
  from transport_open_reject_restores [OF p] p show ?thesis by simp
qed

section \<open>Responses that are refused, and accepted\<close>

text \<open>A response that is refused never installs keys: whatever the bytes, the sending and receiving
  keys, the established flag, our own keys, the preshared key and our index are as before; and if the type
  word, the receiver index or the MAC is wrong the handshake is not touched at all.\<close>

lemma consume_response_reject_keeps_keys:
  assumes "awg_consume_response hs m = (hs', False)"
  shows "hs_send_key hs' = hs_send_key hs \<and> hs_recv_key hs' = hs_recv_key hs \<and>
     hs_established hs' = hs_established hs \<and> hs_s_priv hs' = hs_s_priv hs \<and>
     hs_e_priv hs' = hs_e_priv hs \<and> hs_psk hs' = hs_psk hs \<and> hs_local_index hs' = hs_local_index hs \<and>
     (get_u32_le m = 2 \<and> get_u32_le (drop 8 m) = hs_local_index hs \<and>
        crypto_equal (mac1 (hs_s_pub hs) (take 60 m)) (drop 60 m) 16 \<or> hs' = hs)"
  using assms unfolding awg_consume_response_def Let_def
  by (auto simp: split_beta split: if_splits option.splits)

text \<open>Exactly the authentic responses are accepted: the message has the response type and our index
  and the MAC of its first 60 bytes, both Diffie-Hellman computations succeed, and its 16 sealed bytes are
  the encryption of the empty string under the key the whole chain yields (both shared values, the
  preshared key and the transcript); the transport keys are then the two outputs of the chain.\<close>

lemma consume_response_accepts_exactly:
  "awg_consume_response hs m = (hs', True) \<longleftrightarrow>
     get_u32_le m = 2 \<and> get_u32_le (drop 8 m) = hs_local_index hs \<and>
     crypto_equal (mac1 (hs_s_pub hs) (take 60 m)) (drop 60 m) 16 \<and>
     (\<exists>eph dh1 dh2 ck t k send recv. eph = slice 12 32 m \<and>
        x25519 (hs_e_priv hs) eph True = (dh1, 0) \<and> x25519 (hs_s_priv hs) eph True = (dh2, 0) \<and>
        kdf3 (kdf1 (kdf1 (kdf1 (hs_ck hs) eph) dh1) dh2) (hs_psk hs) = (ck, t, k) \<and>
        slice 44 16 m = chacha20poly1305_encrypt [] (mix_hash (mix_hash (hs_h hs) eph) t) 0 k \<and>
        kdf2 ck [] = (send, recv) \<and>
        hs' = hs\<lparr>hs_remote_index := get_u32_le (drop 4 m), hs_peer_eph := eph, hs_ck := ck,
                 hs_h := mix_hash (mix_hash (mix_hash (hs_h hs) eph) t) (slice 44 16 m),
                 hs_send_key := send, hs_recv_key := recv, hs_established := True\<rparr>)"
  (is "?L \<longleftrightarrow> ?R")
proof -
  define eph where "eph = slice 12 32 m"
  obtain dh1 r1 where d1: "x25519 (hs_e_priv hs) eph True = (dh1, r1)" by fastforce
  obtain dh2 r2 where d2: "x25519 (hs_s_priv hs) eph True = (dh2, r2)" by fastforce
  obtain ck t k where k: "kdf3 (kdf1 (kdf1 (kdf1 (hs_ck hs) eph) dh1) dh2) (hs_psk hs) = (ck, t, k)"
    by (rule prod_cases3)
  define h2 where "h2 = mix_hash (mix_hash (hs_h hs) eph) t"
  obtain sk rk where sr: "kdf2 ck [] = (sk, rk)" by fastforce
  have "length (slice 44 16 m) \<le> 16" by (simp add: slice_def)
  then have un: "chacha20poly1305_decrypt (slice 44 16 m) h2 0 k = Some x \<longleftrightarrow>
      x = [] \<and> slice 44 16 m = chacha20poly1305_encrypt [] h2 0 k" for x
    by (metis add_le_same_cancel2 ccp.seal_length ccp.unseal_iff le_zero_eq length_0_conv)
  define d where "d = chacha20poly1305_decrypt (slice 44 16 m) h2 0 k"
  have "?L \<longleftrightarrow> get_u32_le m = 2 \<and> get_u32_le (drop 8 m) = hs_local_index hs \<and>
      crypto_equal (mac1 (hs_s_pub hs) (take 60 m)) (drop 60 m) 16 \<and> r1 = 0 \<and> r2 = 0 \<and>
      d \<noteq> None \<and>
      hs' = hs\<lparr>hs_remote_index := get_u32_le (drop 4 m), hs_peer_eph := eph, hs_ck := ck,
                 hs_h := mix_hash h2 (slice 44 16 m),
                 hs_send_key := sk, hs_recv_key := rk, hs_established := True\<rparr>"
    unfolding awg_consume_response_def Let_def
    by (auto simp: d1 d2 k sr simp flip: eph_def h2_def d_def split: option.split)
  moreover have "d \<noteq> None \<longleftrightarrow> slice 44 16 m = chacha20poly1305_encrypt [] h2 0 k"
    unfolding d_def by (metis un not_None_eq)
  ultimately show ?thesis
    unfolding eph_def [symmetric] by (auto simp: d1 d2 k sr h2_def)
qed

section \<open>Junk\<close>

lemma sint_mod_span:
  assumes "0 < n" "n < 2 ^ 31"
  shows "0 \<le> sint (v mod word_of_int n :: u32) \<and> sint (v mod word_of_int n :: u32) < n"
proof -
  have "uint (word_of_int n :: u32) = n" using assms by (simp add: uint_word_of_int)
  with assms have m: "0 \<le> uint (v mod word_of_int n)" "uint (v mod word_of_int n) < n"
    by (simp_all add: uint_mod)
  then have "- (2 ^ 31) \<le> uint (v mod word_of_int n)" "uint (v mod word_of_int n) < 2 ^ 31"
    using assms by linarith+
  then have "sint (v mod word_of_int n) = uint (v mod word_of_int n)"
    by (simp add: sint_uint signed_take_bit_int_eq_self del: uint_ge_0)
  with m show ?thesis by simp
qed

lemma junk_one_bounds:
  assumes "0 \<le> cfg_jmin cfg" "cfg_jmin cfg \<le> cfg_jmax cfg" "cfg_jmax cfg \<le> cap" "cfg_jmax cfg < 2 ^ 31"
    and "junk_one cfg cap e = (b, e')"
  shows "cfg_jmin cfg \<le> int (length b) \<and> int (length b) < max (cfg_jmax cfg) (cfg_jmin cfg + 1)"
proof (cases "cfg_jmin cfg = cfg_jmax cfg")
  case True
  with assms show ?thesis
    by (auto simp: junk_one_def awg_random_bytes_def Let_def)
next
  case False
  let ?n = "cfg_jmax cfg - cfg_jmin cfg" and ?v = "fst (random_u32 e)"
  have "0 \<le> sint (?v mod word_of_int ?n) \<and> sint (?v mod word_of_int ?n) < ?n"
    using False assms by (intro sint_mod_span) auto
  with False assms show ?thesis
    by (auto simp: junk_one_def awg_random_bytes_def split_beta Let_def split: if_splits)
qed

lemma junk_loop_bounds:
  assumes "0 \<le> cfg_jmin cfg" "cfg_jmin cfg \<le> cfg_jmax cfg" "cfg_jmax cfg \<le> cap" "cfg_jmax cfg < 2 ^ 31"
  shows "junk_loop n cfg cap e = (bs, e') \<Longrightarrow> length bs = n \<and>
    (\<forall>b\<in>set bs. cfg_jmin cfg \<le> int (length b) \<and> int (length b) < max (cfg_jmax cfg) (cfg_jmin cfg + 1))"
proof (induction n arbitrary: e bs)
  case (Suc n)
  then show ?case
    using junk_one_bounds [OF assms] by (fastforce split: prod.splits)
qed simp

text \<open>The junk train has exactly the configured number of datagrams, capped by what the caller has
  room for, and each is at least \<open>Jmin\<close> and less than \<open>Jmax\<close> bytes long (exactly \<open>Jmin\<close> when the two are
  equal): \<open>Jmax\<close> itself is never reached.\<close>

lemma junk_packets_bounds:
  assumes "0 \<le> cfg_jmin cfg" "cfg_jmin cfg \<le> cfg_jmax cfg" "cfg_jmax cfg \<le> cap" "cfg_jmax cfg < 2 ^ 31"
    and "awg_junk_packets cfg cap max_packets e = (bs, e')"
  shows "length bs = nat (min (cfg_jc cfg) max_packets) \<and>
    (\<forall>b\<in>set bs. cfg_jmin cfg \<le> int (length b) \<and> int (length b) < max (cfg_jmax cfg) (cfg_jmin cfg + 1))"
  using assms(5) junk_loop_bounds [OF assms(1-4)]
  by (auto simp: awg_junk_packets_def Let_def min_def split: if_splits)

text \<open>Without header protection a negative \<open>S4\<close>, which the configuration parser accepts, is not refused by
  \<open>awg_transport_seal\<close>: it goes on to ask for \<open>(size_t) pad\<close> random bytes.\<close>

lemma negative_s4_faults:
  assumes "\<not> cfg_have_header_protection cfg" "cfg_s4 cfg < 0" "int (length payload) + 47 \<le> cap"
  shows "awg_transport_seal cfg hs e ctr payload cap = (Fault, e)"
proof -
  have "(int (length payload) + 15) AND NOT 15 \<le> int (length payload) + 15"
    unfolding and_not_15 by presburger
  then have "\<not> cfg_s4 cfg + 16 + ((int (length payload) + 15) AND NOT 15) + 16 > cap" using assms by linarith
  with assms(1,2) show ?thesis
    unfolding awg_transport_seal_def Let_def TRANSPORT_HDR_def AEAD_TAG_def of_nat_numeral by simp
qed

end
