(* ===== verification/Replay.thy ===== *)
theory Replay
  imports Prelude
begin

text \<open>
  The anti-replay window of \<open>awg_session.c\<close> (\<open>replay_ok\<close>): two 64-bit words per keypair, the
  highest counter accepted and a bitmap of the 64 counters below it.  The window refines an
  abstract filter that remembers every counter accepted so far.
\<close>

section \<open>The code\<close>

definition REPLAY_WINDOW :: u64 where
  "REPLAY_WINDOW = 64"

text \<open>The two file-level variables a drop writes.\<close>

record replay_globals =
  g_replay_behind :: u64
  g_replay_too_old :: bool

definition replay_ok ::
  "replay_globals \<Rightarrow> u64 \<Rightarrow> u64 \<Rightarrow> u64 \<Rightarrow> bool \<times> u64 \<times> u64 \<times> replay_globals" where
  "replay_ok g mx bits ctr =
     (if ctr > mx then
        let shift = ctr - mx;
            bits = (if shift \<ge> REPLAY_WINDOW then 0 else push_bit (unat shift) bits);
            bits = bits OR 1
        in (True, ctr, bits, g)
      else
        let behind = mx - ctr;
            g = g\<lparr>g_replay_behind := behind\<rparr>
        in if behind \<ge> REPLAY_WINDOW then (False, mx, bits, g\<lparr>g_replay_too_old := True\<rparr>)
           else
             let b = push_bit (unat behind) 1
             in if bits AND b \<noteq> 0 then (False, mx, bits, g\<lparr>g_replay_too_old := False\<rparr>)
                else (True, mx, bits OR b, g))"

section \<open>The abstract filter and its interface\<close>

text \<open>
  What a receiver relies on: a filter whose state is related to the set of counters it has
  accepted, which accepts only counters outside that set.
\<close>

locale replay_filter =
  fixes step :: "'s \<Rightarrow> 'c \<Rightarrow> bool \<times> 's"
    and seen :: "'s \<Rightarrow> 'c set \<Rightarrow> bool"
  assumes accept_fresh: "seen s S \<Longrightarrow> step s c = (True, s') \<Longrightarrow> c \<notin> S \<and> seen s' (insert c S)"
    and reject_keeps: "seen s S \<Longrightarrow> step s c = (False, s') \<Longrightarrow> seen s' S"
begin

lemma accepted_distinct_disjoint:
  "seen s S \<Longrightarrow> distinct (accepted step s cs) \<and> set (accepted step s cs) \<inter> S = {}"
proof (induction cs arbitrary: s S)
  case Nil
  then show ?case by simp
next
  case (Cons c cs)
  obtain ok s' where step: "step s c = (ok, s')" by (cases "step s c") auto
  show ?case
  proof (cases ok)
    case True
    with Cons.prems step have "c \<notin> S" "seen s' (insert c S)" by (auto dest: accept_fresh)
    with Cons.IH [of s' "insert c S"] True step show ?thesis by auto
  next
    case False
    with Cons.prems step have "seen s' S" by (auto dest: reject_keeps)
    with Cons.IH [of s' S] False step show ?thesis by auto
  qed
qed

end

text \<open>The reference filter: the whole set of accepted counters, judged against a 64-wide window.\<close>

definition window_accepts :: "nat set \<Rightarrow> nat \<Rightarrow> nat \<Rightarrow> bool" where
  "window_accepts S hi c = (hi < c \<or> (hi - c < 64 \<and> c \<notin> S))"

text \<open>
  The relation between the two words and the accepted set: \<open>mx\<close> bounds the set and is reached by
  it once anything was accepted; bit \<open>i\<close> records counter \<open>mx - i\<close>.
\<close>

definition window_rel :: "u64 \<Rightarrow> u64 \<Rightarrow> nat set \<Rightarrow> bool" where
  "window_rel mx bits S \<longleftrightarrow>
     (\<forall>c\<in>S. c \<le> unat mx) \<and>
     (\<forall>i<64. bit bits i \<longleftrightarrow> (i \<le> unat mx \<and> unat mx - i \<in> S))"

section \<open>Refinement\<close>

lemma REPLAY_WINDOW_le: "REPLAY_WINDOW \<le> w \<longleftrightarrow> 64 \<le> unat w"
  by (simp add: REPLAY_WINDOW_def word_le_nat_alt)

lemma window_rel_empty: "window_rel 0 0 {}"
  by (simp add: window_rel_def)

lemma window_rel_shift:
  assumes rel: "window_rel mx bits S" and gt: "mx < ctr"
  shows "window_rel ctr ((if unat (ctr - mx) \<ge> 64 then 0 else push_bit (unat (ctr - mx)) bits) OR 1)
           (insert (unat ctr) S)"
proof -
  have lt: "unat mx < unat ctr" using gt by (simp add: word_less_nat_alt)
  have sh: "unat (ctr - mx) = unat ctr - unat mx" using gt by (simp add: unat_sub)
  have old: "bit bits i \<longleftrightarrow> i \<le> unat mx \<and> unat mx - i \<in> S" if "i < 64" for i
    using rel that by (simp add: window_rel_def)
  have le: "c \<le> unat mx" if "c \<in> S" for c using rel that by (simp add: window_rel_def)
  have "bit ((if unat ctr - unat mx \<ge> 64 then 0 else push_bit (unat ctr - unat mx) bits) OR 1) i
          \<longleftrightarrow> i \<le> unat ctr \<and> unat ctr - i \<in> insert (unat ctr) S" if i: "i < 64" for i
  proof (cases "i < unat ctr - unat mx")
    case True
    then have "unat ctr - i \<notin> S" using le by fastforce
    with True i lt show ?thesis
      by (auto simp: bit_or_iff bit_push_bit_iff bit_1_iff)
  next
    case False
    then have "i \<noteq> 0" "unat ctr - unat mx < 64" using lt i by auto
    with False i lt old [of "i - (unat ctr - unat mx)"] show ?thesis
      by (auto simp: bit_or_iff bit_push_bit_iff bit_1_iff)
  qed
  with le lt show ?thesis by (fastforce simp: window_rel_def sh)
qed

lemma window_rel_mark:
  assumes rel: "window_rel mx bits S" and le: "ctr \<le> mx" and win: "unat (mx - ctr) < 64"
  shows "window_rel mx (bits OR push_bit (unat (mx - ctr)) 1) (insert (unat ctr) S)"
proof -
  have le': "unat ctr \<le> unat mx" using le by (simp add: word_le_nat_alt)
  have bh: "unat (mx - ctr) = unat mx - unat ctr" using le by (simp add: unat_sub)
  have "bit (bits OR push_bit (unat mx - unat ctr) 1) i
          \<longleftrightarrow> i \<le> unat mx \<and> unat mx - i \<in> insert (unat ctr) S" if i: "i < 64" for i
    using rel i le' win bh
    by (auto simp: window_rel_def bit_or_iff bit_exp_iff)
  with rel le' show ?thesis by (simp add: window_rel_def bh)
qed

text \<open>One call of \<open>replay_ok\<close> is one step of the reference filter, on every branch.\<close>

lemma replay_ok_simulates:
  assumes rel: "window_rel mx bits S" and call: "replay_ok g mx bits ctr = (ok, mx', bits', g')"
  shows "ok = window_accepts S (unat mx) (unat ctr)"
    and "window_rel mx' bits' (if ok then insert (unat ctr) S else S)"
proof -
  have "ok = window_accepts S (unat mx) (unat ctr) \<and>
        window_rel mx' bits' (if ok then insert (unat ctr) S else S)"
  proof (cases "mx < ctr")
    case True
    then show ?thesis
      using call window_rel_shift [OF rel True]
      by (auto simp: replay_ok_def Let_def REPLAY_WINDOW_le window_accepts_def word_less_nat_alt
          split: if_splits)
  next
    case False
    then have le: "ctr \<le> mx" by simp
    then have bh: "unat (mx - ctr) = unat mx - unat ctr" and le': "unat ctr \<le> unat mx"
      by (simp_all add: unat_sub word_le_nat_alt)
    show ?thesis
    proof (cases "unat (mx - ctr) < 64")
      case True
      have seen: "bits AND push_bit (unat (mx - ctr)) 1 \<noteq> 0 \<longleftrightarrow> unat ctr \<in> S"
        using rel True bh le' by (simp add: and_exp_eq_0_iff_not_bit window_rel_def)
      from call False True seen rel window_rel_mark [OF rel le True] show ?thesis
        by (auto simp: replay_ok_def Let_def REPLAY_WINDOW_le window_accepts_def
            word_less_nat_alt bh split: if_splits)
    next
      case outside: False
      with call False rel le' show ?thesis
        by (auto simp: replay_ok_def Let_def REPLAY_WINDOW_le window_accepts_def
            word_less_nat_alt bh split: if_splits)
    qed
  qed
  then show "ok = window_accepts S (unat mx) (unat ctr)"
    and "window_rel mx' bits' (if ok then insert (unat ctr) S else S)" by auto
qed

text \<open>The window as a filter over its whole state, the drop globals included.\<close>

definition replay_step ::
  "u64 \<times> u64 \<times> replay_globals \<Rightarrow> u64 \<Rightarrow> bool \<times> u64 \<times> u64 \<times> replay_globals" where
  "replay_step = (\<lambda>(mx, bits, g) ctr. replay_ok g mx bits ctr)"

definition replay_seen :: "u64 \<times> u64 \<times> replay_globals \<Rightarrow> u64 set \<Rightarrow> bool" where
  "replay_seen = (\<lambda>(mx, bits, g) S. window_rel mx bits (unat ` S))"

interpretation rw: replay_filter replay_step replay_seen
proof
  fix s :: "u64 \<times> u64 \<times> replay_globals" and S c s'
  assume "replay_seen s S" "replay_step s c = (True, s')"
  then obtain mx bits g mx' bits' g' where *: "s = (mx, bits, g)" "s' = (mx', bits', g')"
    "window_rel mx bits (unat ` S)" "replay_ok g mx bits c = (True, mx', bits', g')"
    by (cases s; cases s') (auto simp: replay_seen_def replay_step_def)
  from replay_ok_simulates [OF *(3,4)]
  have "window_accepts (unat ` S) (unat mx) (unat c)" "window_rel mx' bits' (insert (unat c) (unat ` S))"
    by auto
  moreover have "unat c \<notin> unat ` S"
    using calculation(1) *(3) by (fastforce simp: window_accepts_def window_rel_def)
  ultimately show "c \<notin> S \<and> replay_seen s' (insert c S)"
    using *(2) by (auto simp: replay_seen_def)
next
  fix s :: "u64 \<times> u64 \<times> replay_globals" and S c s'
  assume "replay_seen s S" "replay_step s c = (False, s')"
  then obtain mx bits g mx' bits' g' where *: "s = (mx, bits, g)" "s' = (mx', bits', g')"
    "window_rel mx bits (unat ` S)" "replay_ok g mx bits c = (False, mx', bits', g')"
    by (cases s; cases s') (auto simp: replay_seen_def replay_step_def)
  from replay_ok_simulates(2) [OF *(3,4)] *(2) show "replay_seen s' S"
    by (simp add: replay_seen_def)
qed

section \<open>Properties\<close>

text \<open>Replay protection: starting from the zeroed window of a new keypair, whatever sequence
  of authenticated counters arrives, the counters the window lets through are pairwise distinct.\<close>

lemma replay_never_accepts_twice:
  "distinct (accepted replay_step (0, 0, g) ctrs)"
  using rw.accepted_distinct_disjoint [of "(0, 0, g)" "{}" ctrs]
  by (simp add: replay_seen_def window_rel_empty)

text \<open>C18.  The window refines the reference filter: with the two words related to the set of
  counters accepted so far, a call accepts exactly the counters above the maximum and the unseen
  ones less than 64 behind it, and leaves words related to the updated set.\<close>

theorem replay_ok_refines_window:
  assumes "window_rel mx bits S" and "replay_ok g mx bits ctr = (ok, mx', bits', g')"
  shows "ok = window_accepts S (unat mx) (unat ctr) \<and>
         window_rel mx' bits' (if ok then insert (unat ctr) S else S)"
  using replay_ok_simulates [OF assms] by blast

theorem replay_ok_refines_window_witness:
  "window_rel 0 0 {} \<and>
   replay_ok \<lparr>g_replay_behind = 0, g_replay_too_old = False\<rparr> 0 0 5
     = (True, 5, 1, \<lparr>g_replay_behind = 0, g_replay_too_old = False\<rparr>) \<and>
   window_accepts {} 0 5 \<and> window_rel 5 1 {5}"
proof -
  let ?g = "\<lparr>g_replay_behind = 0, g_replay_too_old = False\<rparr>"
  have call: "replay_ok ?g 0 0 5 = (True, 5, 1, ?g)"
    by (simp add: replay_ok_def REPLAY_WINDOW_def Let_def)
  from replay_ok_refines_window [OF window_rel_empty call] call window_rel_empty
  show ?thesis by simp
qed

end
