(* ===== verification/Session.thy ===== *)
theory Session
  imports Transport Replay
begin

text \<open>
  \<open>awg_session.c\<close>: the timers, the key rotation and the receive path of a tunnel.  The struct is a record
  with the source's fields; the counters for the log are 32 bits wide and wrap as they do there.  \<open>out\<close>
  and \<open>payload\<close> buffers are results; the drop globals of \<open>replay_ok\<close> are threaded through.
\<close>

section \<open>State\<close>

datatype awg_rx_result = AWG_RX_IGNORED | AWG_RX_HANDLED | AWG_RX_PAYLOAD | AWG_RX_ESTABLISHED

definition AWG_PREV_KEEP_MS :: u64 where
  "AWG_PREV_KEEP_MS = 180 * 1000"

record awg_session =
  s_cur :: awg_handshake
  s_established :: bool
  s_prev :: awg_handshake
  s_have_prev :: bool
  s_pending :: awg_handshake
  s_handshaking :: bool
  s_handshake_sent_ms :: u64
  s_handshake_tries :: int
  s_tx_counter :: u64
  s_rx_counter_max :: u64
  s_rx_window_max :: u64
  s_rx_window_bits :: u64
  s_prev_window_max :: u64
  s_prev_window_bits :: u64
  s_prev_since_ms :: u64
  s_replays_dropped :: u32
  s_last_replay_ctr :: u64
  s_last_replay_behind :: u64
  s_last_replay_old :: bool
  s_last_replay_prev :: bool
  s_established_ms :: u64
  s_last_tx_ms :: u64
  s_last_rx_ms :: u64
  s_rekey_after_s :: int
  s_reject_after_s :: int
  s_keepalive_s :: int
  s_rekey_timeout_s :: int
  s_max_tries :: int
  s_handshakes_done :: u32
  s_rekeys :: u32
  s_packets_tx :: u32
  s_packets_rx :: u32
  s_keepalives_tx :: u32

text \<open>The zeroed struct, which \<open>awg_session_wipe\<close> leaves and \<open>awg_session_init\<close> starts from.\<close>

definition awg_session_wipe :: awg_session where
  "awg_session_wipe =
     \<lparr>s_cur = handshake_zero, s_established = False, s_prev = handshake_zero, s_have_prev = False,
      s_pending = handshake_zero, s_handshaking = False, s_handshake_sent_ms = 0, s_handshake_tries = 0,
      s_tx_counter = 0, s_rx_counter_max = 0, s_rx_window_max = 0, s_rx_window_bits = 0,
      s_prev_window_max = 0, s_prev_window_bits = 0, s_prev_since_ms = 0, s_replays_dropped = 0,
      s_last_replay_ctr = 0, s_last_replay_behind = 0, s_last_replay_old = False,
      s_last_replay_prev = False, s_established_ms = 0, s_last_tx_ms = 0, s_last_rx_ms = 0,
      s_rekey_after_s = 0, s_reject_after_s = 0, s_keepalive_s = 0, s_rekey_timeout_s = 0,
      s_max_tries = 0, s_handshakes_done = 0, s_rekeys = 0, s_packets_tx = 0, s_packets_rx = 0,
      s_keepalives_tx = 0\<rparr>"

section \<open>Operations\<close>

definition awg_session_init :: "awg_config \<Rightarrow> entropy \<Rightarrow> awg_session \<times> entropy" where
  "awg_session_init cfg e =
     (let s = awg_session_wipe;
          (v, e) = awg_range_pick e (cfg_rekey_after_time cfg); s = s\<lparr>s_rekey_after_s := v\<rparr>;
          (v, e) = awg_range_pick e (cfg_reject_after_time cfg); s = s\<lparr>s_reject_after_s := v\<rparr>;
          (v, e) = awg_range_pick e (cfg_rekey_timeout cfg); s = s\<lparr>s_rekey_timeout_s := v\<rparr>;
          (v, e) = awg_range_pick e (cfg_persistent_keepalive cfg); s = s\<lparr>s_keepalive_s := v\<rparr>;
          (v, e) = awg_range_pick e (cfg_max_handshake_attempts cfg); s = s\<lparr>s_max_tries := v\<rparr>;
          s = s\<lparr>s_rekey_after_s := (if s_rekey_after_s s \<le> 0 then 120 else s_rekey_after_s s)\<rparr>;
          s = s\<lparr>s_reject_after_s := (if s_reject_after_s s \<le> 0 then 180 else s_reject_after_s s)\<rparr>;
          s = s\<lparr>s_rekey_timeout_s := (if s_rekey_timeout_s s \<le> 0 then 5 else s_rekey_timeout_s s)\<rparr>;
          s = s\<lparr>s_keepalive_s := (if s_keepalive_s s \<le> 0 then 25 else s_keepalive_s s)\<rparr>;
          s = s\<lparr>s_max_tries := (if s_max_tries s \<le> 0 then 18 else s_max_tries s)\<rparr>
      in (s, e))"

definition awg_session_needs_handshake :: "awg_session \<Rightarrow> u64 \<Rightarrow> bool" where
  "awg_session_needs_handshake s now_ms =
     (if s_handshaking s
      then now_ms - s_handshake_sent_ms s \<ge> word_of_int (s_rekey_timeout_s s) * 1000
      else if \<not> s_established s then True
      else now_ms - s_established_ms s \<ge> word_of_int (s_rekey_after_s s) * 1000)"

definition awg_session_needs_keepalive :: "awg_session \<Rightarrow> u64 \<Rightarrow> bool" where
  "awg_session_needs_keepalive s now_ms =
     (if \<not> s_established s then False
      else now_ms - s_last_tx_ms s \<ge> word_of_int (s_keepalive_s s) * 1000)"

text \<open>\<open>now\<close> is the wall clock \<open>awg_now_seconds\<close> reads for the time stamp, \<open>now_ms\<close> the caller's clock.\<close>

definition awg_session_build_initiation ::
  "awg_session \<Rightarrow> awg_config \<Rightarrow> int \<Rightarrow> u64 \<Rightarrow> u64 \<Rightarrow> entropy \<Rightarrow> awg_session \<times> bytes option \<times> entropy" where
  "awg_session_build_initiation s cfg out_cap now_ms now e =
     (let (idx, e) = random_u32 e;
          s = s\<lparr>s_pending := awg_handshake_begin (cfg_private_key cfg) (Some (cfg_peer_public_key cfg))
                 (if cfg_have_preshared_key cfg then Some (cfg_preshared_key cfg) else None) idx\<rparr>;
          (pending, msg, e) = awg_create_initiation (s_pending s) now e;
          s = s\<lparr>s_pending := pending\<rparr>
      in case msg of
           None \<Rightarrow> (s, None, e)
         | Some msg \<Rightarrow>
             (case awg_wrap cfg AWG_KIND_INIT e msg out_cap of
                (None, e) \<Rightarrow> (s, None, e)
              | (Some out, e) \<Rightarrow>
                  (s\<lparr>s_handshaking := True, s_handshake_sent_ms := now_ms,
                     s_handshake_tries := s_handshake_tries s + 1\<rparr>, Some out, e)))"

definition awg_session_build_data ::
  "awg_session \<Rightarrow> awg_config \<Rightarrow> bytes \<Rightarrow> int \<Rightarrow> u64 \<Rightarrow> entropy \<Rightarrow> awg_session \<times> bytes outcome \<times> entropy" where
  "awg_session_build_data s cfg payload out_cap now_ms e =
     (if \<not> s_established s then (s, Rejected, e)
      else
        case awg_transport_seal cfg (s_cur s) e (s_tx_counter s) payload out_cap of
          (Done out, e) \<Rightarrow>
            (s\<lparr>s_tx_counter := s_tx_counter s + 1, s_packets_tx := s_packets_tx s + 1,
               s_last_tx_ms := now_ms\<rparr>, Done out, e)
        | (r, e) \<Rightarrow> (s, r, e))"

definition awg_session_build_keepalive ::
  "awg_session \<Rightarrow> awg_config \<Rightarrow> int \<Rightarrow> u64 \<Rightarrow> entropy \<Rightarrow> awg_session \<times> bytes outcome \<times> entropy" where
  "awg_session_build_keepalive s cfg out_cap now_ms e =
     (case awg_session_build_data s cfg [] out_cap now_ms e of
        (s, Done out, e) \<Rightarrow>
          if length out > 0
          then (s\<lparr>s_keepalives_tx := s_keepalives_tx s + 1, s_packets_tx := s_packets_tx s - 1\<rparr>, Done out, e)
          else (s, Done out, e)
      | (s, r, e) \<Rightarrow> (s, r, e))"

text \<open>The promotion of the pending handshake, after its response was consumed.\<close>

definition session_promote :: "awg_session \<Rightarrow> u64 \<Rightarrow> awg_session" where
  "session_promote s now_ms =
     (let s = (if s_established s
               then s\<lparr>s_rekeys := s_rekeys s + 1, s_prev := s_cur s, s_have_prev := True,
                      s_prev_window_max := s_rx_window_max s, s_prev_window_bits := s_rx_window_bits s,
                      s_prev_since_ms := now_ms\<rparr>
               else s)
      in s\<lparr>s_cur := s_pending s, s_established := True, s_handshaking := False, s_handshake_tries := 0,
            s_tx_counter := 0, s_rx_counter_max := 0, s_rx_window_max := 0, s_rx_window_bits := 0,
            s_established_ms := now_ms, s_last_rx_ms := now_ms, s_last_tx_ms := now_ms,
            s_handshakes_done := s_handshakes_done s + 1\<rparr>)"

text \<open>The retired keypair is erased once it is older than \<open>AWG_PREV_KEEP_MS\<close>.\<close>

definition session_expire_prev :: "awg_session \<Rightarrow> u64 \<Rightarrow> awg_session" where
  "session_expire_prev s now_ms =
     (if s_have_prev s \<and> now_ms - s_prev_since_ms s > AWG_PREV_KEEP_MS
      then s\<lparr>s_have_prev := False, s_prev := handshake_zero, s_prev_window_max := 0,
             s_prev_window_bits := 0\<rparr>
      else s)"

text \<open>Opening under the live keypair, then under the retired one: the packet as it is left, the result and
  \<open>on_prev\<close>.\<close>

definition session_open ::
  "awg_session \<Rightarrow> awg_config \<Rightarrow> bytes \<Rightarrow> int \<Rightarrow> bytes \<times> (bytes \<times> u64) outcome \<times> bool" where
  "session_open s cfg pkt payload_cap =
     (case awg_transport_open cfg (s_cur s) pkt payload_cap of
        (pkt, Rejected) \<Rightarrow>
          if s_have_prev s
          then (case awg_transport_open cfg (s_prev s) pkt payload_cap of
                  (pkt, Done r) \<Rightarrow> (pkt, Done r, True)
                | (pkt, r) \<Rightarrow> (pkt, r, False))
          else (pkt, Rejected, False)
      | (pkt, r) \<Rightarrow> (pkt, r, False))"

text \<open>What happens to an authenticated packet: the window of its keypair, then the bookkeeping.\<close>

definition session_deliver ::
  "replay_globals \<Rightarrow> awg_session \<Rightarrow> bytes \<Rightarrow> u64 \<Rightarrow> bool \<Rightarrow> u64 \<Rightarrow>
   awg_session \<times> replay_globals \<times> awg_rx_result \<times> bytes" where
  "session_deliver g s plain ctr on_prev now_ms =
     (let (fresh, s, g) =
            (if on_prev
             then (case replay_ok g (s_prev_window_max s) (s_prev_window_bits s) ctr of
                     (ok, mx, bits, g) \<Rightarrow>
                       (ok, s\<lparr>s_prev_window_max := mx, s_prev_window_bits := bits\<rparr>, g))
             else (case replay_ok g (s_rx_window_max s) (s_rx_window_bits s) ctr of
                     (ok, mx, bits, g) \<Rightarrow>
                       (ok, s\<lparr>s_rx_window_max := mx, s_rx_window_bits := bits\<rparr>, g)))
      in if \<not> fresh
         then (s\<lparr>s_replays_dropped := s_replays_dropped s + 1, s_last_replay_ctr := ctr,
                 s_last_replay_behind := g_replay_behind g, s_last_replay_old := g_replay_too_old g,
                 s_last_replay_prev := on_prev\<rparr>, g, AWG_RX_IGNORED, [])
         else
           let s = s\<lparr>s_last_rx_ms := now_ms\<rparr>;
               s = s\<lparr>s_rx_counter_max := (if ctr > s_rx_counter_max s then ctr else s_rx_counter_max s)\<rparr>
           in if plain = [] then (s, g, AWG_RX_HANDLED, [])
              else (s\<lparr>s_packets_rx := s_packets_rx s + 1\<rparr>, g, AWG_RX_PAYLOAD, plain))"

text \<open>
  The whole receive path.  The result is the session, the drop globals, the packet as it is left, and what
  the caller is told with the payload; \<open>None\<close> stands for reading in front of the packet, which a
  negative \<open>S2\<close> or \<open>S4\<close> leads to when header protection is off.
\<close>

definition awg_session_on_datagram ::
  "replay_globals \<Rightarrow> awg_session \<Rightarrow> awg_config \<Rightarrow> bytes \<Rightarrow> int \<Rightarrow> u64 \<Rightarrow>
   awg_session \<times> replay_globals \<times> bytes \<times> (awg_rx_result \<times> bytes) option" where
  "awg_session_on_datagram g s cfg pkt payload_cap now_ms =
     (if s_handshaking s \<and> int (length pkt) = cfg_s2 cfg + int AWG_MSG_RESP_SIZE
      then
        case awg_unwrap cfg AWG_KIND_RESPONSE pkt of
          (pkt, None) \<Rightarrow> (s, g, pkt, Some (AWG_RX_IGNORED, []))
        | (pkt, Some (off, mlen)) \<Rightarrow>
            if mlen \<noteq> int AWG_MSG_RESP_SIZE then (s, g, pkt, Some (AWG_RX_IGNORED, []))
            else if off < 0 then (s, g, pkt, None)
            else
              let (pending, ok) = awg_consume_response (s_pending s) (drop (nat off) pkt);
                  s = s\<lparr>s_pending := pending\<rparr>
              in if \<not> ok then (s, g, pkt, Some (AWG_RX_IGNORED, []))
                 else (session_promote s now_ms, g, pkt, Some (AWG_RX_ESTABLISHED, []))
      else if \<not> s_established s then (s, g, pkt, Some (AWG_RX_IGNORED, []))
      else
        let s = session_expire_prev s now_ms
        in case session_open s cfg pkt payload_cap of
             (pkt, Fault, _) \<Rightarrow> (s, g, pkt, None)
           | (pkt, Rejected, _) \<Rightarrow> (s, g, pkt, Some (AWG_RX_IGNORED, []))
           | (pkt, Done (plain, ctr), on_prev) \<Rightarrow>
               (case session_deliver g s plain ctr on_prev now_ms of
                  (s, g, r) \<Rightarrow> (s, g, pkt, Some r)))"

definition awg_session_age_s :: "awg_session \<Rightarrow> u64 \<Rightarrow> u32" where
  "awg_session_age_s s now_ms =
     (if \<not> s_established s then 0 else ucast ((now_ms - s_established_ms s) div 1000))"

end
