(* ===== verification/Netif.thy ===== *)
theory Netif
  imports Session
begin

text \<open>
  The tunnel as an lwIP interface (\<open>awg_netif.c\<close>).  lwIP hands out finished IP packets as pbuf chains and takes
  packets in; the stack itself is an input of the model.  The configuration and the session are the caller's
  objects, which the interface keeps pointers to, so they are passed in.
\<close>

section \<open>Clocks\<close>

text \<open>The port of lwIP (\<open>lwip_port/sys_arch.c\<close>) and the main program read the same counter, in nanoseconds: the stack's clock
  is its milliseconds cut to 32 bits, the program's keeps all of them.\<close>

definition sys_now :: "u64 \<Rightarrow> u32" where
  "sys_now ns = ucast (ns div 1000000)"

definition now_ms :: "u64 \<Rightarrow> u64" where
  "now_ms ns = ns div 1000000"

definition lwip_port_rand :: "entropy \<Rightarrow> u32 \<times> entropy" where
  "lwip_port_rand e = random_u32 e"

section \<open>The interface\<close>

definition TUNNEL_MTU :: nat where
  "TUNNEL_MTU = 1400"

text \<open>A pbuf chain: the total length in its head, and the data of its parts.\<close>

record pbuf =
  tot_len :: nat
  pb_parts :: "bytes list"

text \<open>The statics: \<open>g_ready\<close>, \<open>g_fd\<close>, \<open>g_peer\<close> with its length, whether \<open>g_sess\<close> is set, and of \<open>g_netif\<close> the fields
  that are written: name, MTU, flags and address.\<close>

record netif =
  nif_ready :: bool
  nif_fd :: int
  nif_peer :: bytes
  nif_bound :: bool
  nif_name :: string
  nif_mtu :: nat
  nif_flags :: u8
  nif_addr :: u32

definition netif_static :: netif where
  "netif_static = \<lparr>nif_ready = False, nif_fd = -1, nif_peer = [], nif_bound = False, nif_name = [], nif_mtu = 0,
     nif_flags = 0, nif_addr = 0\<rparr>"

fun pbuf_copy_partial :: "bytes list \<Rightarrow> nat \<Rightarrow> nat \<Rightarrow> bytes" where
  "pbuf_copy_partial [] len offset = []"
| "pbuf_copy_partial (p # next) len offset =
     (if len = 0 then []
      else if offset \<noteq> 0 \<and> offset \<ge> length p then pbuf_copy_partial next len (offset - length p)
      else
        let n = min (length p - offset) len
        in slice offset n p @ pbuf_copy_partial next (len - n) 0)"

lemma pbuf_copy_partial_take: "pbuf_copy_partial ps len offset = take len (drop offset (concat ps))"
  by (induction ps len offset rule: pbuf_copy_partial.induct) (auto simp: slice_def min_def)

text \<open>
  \<open>tunnel_output\<close>: \<open>clock\<close> is \<open>sys_now()\<close>, \<open>sent\<close> whether \<open>sendto\<close> succeeded.  The result has the datagram handed
  to \<open>sendto\<close> with the descriptor, if it was called; \<open>None\<close> for the error code stands for the fault of
  \<open>awg_transport_seal\<close> on a negative \<open>S4\<close>.
\<close>

definition tunnel_output ::
  "netif \<Rightarrow> awg_session \<Rightarrow> awg_config \<Rightarrow> pbuf \<Rightarrow> u32 \<Rightarrow> bool \<Rightarrow> entropy \<Rightarrow>
   awg_session \<times> (int \<times> bytes) option \<times> err_t option \<times> entropy" where
  "tunnel_output n s cfg p clock sent e =
     (if \<not> nif_bound n \<or> \<not> s_established s then (s, None, Some ERR_IF, e)
      else if tot_len p > TUNNEL_MTU then (s, None, Some ERR_MEM, e)
      else
        let inner = pbuf_copy_partial (pb_parts p) (tot_len p) 0
        in if length inner \<noteq> tot_len p then (s, None, Some ERR_BUF, e)
           else
             (case awg_session_build_data s cfg inner 2048 (ucast clock) e of
                (s, Done out, e) \<Rightarrow> (s, Some (nif_fd n, out), Some (if sent then ERR_OK else ERR_IF), e)
              | (s, Rejected, e) \<Rightarrow> (s, None, Some ERR_MEM, e)
              | (s, Fault, e) \<Rightarrow> (s, None, None, e)))"

text \<open>The flags are \<open>NETIF_FLAG_UP\<close> and \<open>NETIF_FLAG_LINK_UP\<close>.\<close>

definition tunnel_netif_init :: "netif \<Rightarrow> netif" where
  "tunnel_netif_init n = n\<lparr>nif_name := ''aw'', nif_mtu := TUNNEL_MTU, nif_flags := 0x01 OR 0x04\<rparr>"

text \<open>\<open>awg_netif_start\<close>: \<open>added\<close> is whether \<open>netif_add\<close> succeeded; it stores the address and calls
  \<open>tunnel_netif_init\<close>.  \<open>sizeof(struct sockaddr_storage)\<close> is 128.\<close>

definition awg_netif_start :: "awg_config \<Rightarrow> int \<Rightarrow> bytes \<Rightarrow> bool \<Rightarrow> netif \<Rightarrow> netif \<times> bool" where
  "awg_netif_start cfg fd peer added n =
     (if length peer = 0 \<or> length peer > 128 then (n, False)
      else
        let n = n\<lparr>nif_bound := True, nif_fd := fd, nif_peer := peer\<rparr>
        in if \<not> added then (n, False)
           else ((tunnel_netif_init (n\<lparr>nif_addr := cfg_address cfg\<rparr>))\<lparr>nif_ready := True\<rparr>, True))"

definition awg_netif_set_fd :: "int \<Rightarrow> netif \<Rightarrow> netif" where
  "awg_netif_set_fd fd n = n\<lparr>nif_fd := fd\<rparr>"

text \<open>\<open>alloc\<close> and \<open>taken\<close>: whether a pbuf was found and filled.  The result is the packet the stack was given.\<close>

definition awg_netif_input :: "netif \<Rightarrow> bytes \<Rightarrow> bool \<Rightarrow> bool \<Rightarrow> bytes option" where
  "awg_netif_input n packet alloc taken =
     (if \<not> nif_ready n \<or> length packet = 0 then None
      else if \<not> alloc then None
      else if \<not> taken then None
      else Some packet)"

text \<open>Whether the stack's timers are run.\<close>

definition awg_netif_poll :: "netif \<Rightarrow> bool" where
  "awg_netif_poll n = nif_ready n"

definition awg_netif_ready :: "netif \<Rightarrow> bool" where
  "awg_netif_ready n = nif_ready n"

section \<open>The two clocks meet\<close>

lemma unat_sys_now: "unat (ucast (sys_now ns) :: u64) = unat (now_ms ns) mod 2 ^ 32"
  by (simp add: sys_now_def now_ms_def unsigned_ucast_eq take_bit_eq_mod unat_mod)

text \<open>Once the counter has passed \<open>2^32\<close> milliseconds, every packet of lwIP makes a keepalive due at once: the time of the
  packet is stored with its upper half lost, and the session's timer compares it with the full clock.\<close>

lemma truncated_clock_keepalive:
  assumes "tunnel_output n s cfg p (sys_now ns) sent e = (s', Some out, r, e')"
    and late: "2 ^ 32 \<le> unat (now_ms ns)" and k: "0 \<le> s_keepalive_s s" "s_keepalive_s s * 1000 \<le> 2 ^ 32"
  shows "awg_session_needs_keepalive s' (now_ms ns)"
proof -
  have s': "s_established s'" "s_last_tx_ms s' = ucast (sys_now ns)" "s_keepalive_s s' = s_keepalive_s s"
    using assms(1) by (auto simp: tunnel_output_def awg_session_build_data_def Let_def split: if_splits prod.splits outcome.splits)
  define t where "t = unat (now_ms ns)"
  have "ucast (sys_now ns) \<le> now_ms ns" by (simp add: word_le_nat_alt unat_sys_now)
  then have "unat (now_ms ns - ucast (sys_now ns)) = t - t mod 2 ^ 32" by (simp add: unat_sub unat_sys_now t_def)
  moreover have "2 ^ 32 \<le> t - t mod 2 ^ 32"
  proof -
    have "1 \<le> t div 2 ^ 32" using late by (simp add: t_def div_greater_zero_iff Suc_le_eq)
    then show ?thesis using minus_mod_eq_mult_div [of t "2 ^ 32"] by simp
  qed
  moreover have "unat (word_of_int (s_keepalive_s s) * 1000 :: u64) \<le> 2 ^ 32"
  proof -
    obtain m where m: "s_keepalive_s s = int m" using k(1) by (rule nonneg_int_cases)
    have "unat (word_of_nat (m * 1000) :: u64) \<le> m * 1000" unfolding unat_of_nat by (rule mod_less_eq_dividend)
    moreover have "m * 1000 \<le> 2 ^ 32" using k(2) by (simp add: m)
    moreover have "(word_of_int (s_keepalive_s s) * 1000 :: u64) = word_of_nat (m * 1000)" by (simp add: m)
    ultimately show ?thesis by simp
  qed
  ultimately show ?thesis using s' by (simp add: awg_session_needs_keepalive_def word_le_nat_alt)
qed

end
