(* ===== verification/Sni.thy ===== *)
theory Sni
  imports Prelude "HOL-Library.Sublist"
begin

text \<open>
  The server name of a TLS ClientHello as \<open>awg_proxy.c\<close> finds it, the normalisation of the name and the deny
  list.  Every read of the buffer goes through \<open>rd\<close>, so a read behind the bytes received would show as
  \<open>Fault\<close>.
\<close>

section \<open>ClientHello\<close>

text \<open>The server_name extension at \<open>q\<close>: offset and length of the host name.\<close>

definition sni_entry :: "bytes \<Rightarrow> nat \<Rightarrow> nat \<Rightarrow> (nat \<times> nat) outcome" where
  "sni_entry b endp p =
     (let q = p
      in if q + 2 > endp then Rejected
         else
           let q = q + 2
           in if q + 3 > endp then Rejected
              else outcome_bind (rd b q) (\<lambda>t.
                     if t \<noteq> 0 then Rejected
                     else outcome_bind (rd16 b (q + 1)) (\<lambda>nlen.
                            let q = q + 3
                            in if q + nlen > endp \<or> nlen \<le> 0 then Rejected else Done (q, nlen))))"

function sni_exts :: "bytes \<Rightarrow> nat \<Rightarrow> nat \<Rightarrow> (nat \<times> nat) outcome" where
  "sni_exts b endp p =
     (if p + 4 \<le> endp
      then outcome_bind (rd16 b p) (\<lambda>t. outcome_bind (rd16 b (p + 2)) (\<lambda>elen.
             let p' = p + 4
             in if p' + elen > endp then Rejected
                else if t = 0 then sni_entry b endp p'
                else sni_exts b endp (p' + elen)))
      else Rejected)"
  by pat_completeness auto
termination by (relation "measure (\<lambda>(b, endp, p). endp - p)") auto

declare sni_exts.simps [simp del]

definition find_sni :: "bytes \<Rightarrow> (nat \<times> nat) outcome" where
  "find_sni b =
     (if length b < 45 then Rejected
      else outcome_bind (rd b 0) (\<lambda>t. if t \<noteq> 0x16 then Rejected
      else outcome_bind (rd b 5) (\<lambda>t. if t \<noteq> 0x01 then Rejected
      else
        let p = 43
        in if p + 1 > length b then Rejected
      else outcome_bind (rd b p) (\<lambda>n.
        let p = p + (1 + n)
        in if p + 2 > length b then Rejected
      else outcome_bind (rd16 b p) (\<lambda>n.
        let p = p + (2 + n)
        in if p + 1 > length b then Rejected
      else outcome_bind (rd b p) (\<lambda>n.
        let p = p + (1 + n)
        in if p + 2 > length b then Rejected
      else outcome_bind (rd16 b p) (\<lambda>ext_total.
        let p = p + 2;
            endp = p + ext_total;
            endp = (if endp > length b then length b else endp)
        in sni_exts b endp p)))))))"

text \<open>The name written to \<open>out\<close>, \<open>cap\<close> bytes with the terminating NUL.\<close>

definition sni_hostname :: "bytes \<Rightarrow> nat \<Rightarrow> bytes outcome" where
  "sni_hostname b cap =
     outcome_bind (find_sni b) (\<lambda>(off, nlen).
       if nlen \<ge> cap then Rejected
       else if off + nlen \<le> length b then Done (slice off nlen b) else Fault)"

section \<open>Host names\<close>

definition label_char :: "char \<Rightarrow> bool" where
  "label_char c =
     (let n = of_char c :: nat
      in 97 \<le> n \<and> n \<le> 122 \<or> 65 \<le> n \<and> n \<le> 90 \<or> 48 \<le> n \<and> n \<le> 57 \<or> c = CHR ''-'' \<or> c = CHR ''_'')"

fun labels_ok :: "bool \<Rightarrow> string \<Rightarrow> bool" where
  "labels_ok label_empty [] = (\<not> label_empty)"
| "labels_ok label_empty (c # cs) =
     (if c = CHR ''.'' then (if label_empty then False else labels_ok True cs)
      else if \<not> label_char c then False
      else labels_ok False cs)"

text \<open>\<open>host_normalise\<close>: the name without its trailing dots, or \<open>None\<close> when it is refused.\<close>

definition strip_dots :: "string \<Rightarrow> string" where
  "strip_dots h = rev (dropWhile (\<lambda>c. c = CHR ''.'') (rev h))"

definition host_normalise :: "string \<Rightarrow> string option" where
  "host_normalise h =
     (let h = strip_dots h; n = length h
      in if n = 0 \<or> n > 253 then None else if labels_ok True h then Some h else None)"

definition g_deny_suffix :: "string list" where
  "g_deny_suffix = [''nintendo.net'', ''nintendo.com'', ''nintendo.co.jp'']"

text \<open>\<open>tolower\<close> of the C locale, as \<open>strcasecmp\<close> compares.\<close>

definition to_lower :: "char \<Rightarrow> char" where
  "to_lower c = (let n = of_char c :: nat in if 65 \<le> n \<and> n \<le> 90 then char_of (n + 32) else c)"

definition strcaseeq :: "string \<Rightarrow> string \<Rightarrow> bool" where
  "strcaseeq s t = (map to_lower s = map to_lower t)"

definition host_denied :: "string \<Rightarrow> bool" where
  "host_denied host =
     list_ex (\<lambda>suf.
       let hl = length host; sl = length suf
       in if hl < sl then False
          else if \<not> strcaseeq (drop (hl - sl) host) suf then False
          else hl = sl \<or> host ! (hl - sl - 1) = CHR ''.'') g_deny_suffix"

section \<open>Reading stays inside the buffer\<close>

definition sni_good :: "bytes \<Rightarrow> (nat \<times> nat) outcome \<Rightarrow> bool" where
  "sni_good b r = (case r of Done (q, n) \<Rightarrow> 0 < n \<and> q + n \<le> length b | Rejected \<Rightarrow> True | Fault \<Rightarrow> False)"

lemma sni_good_simps [simp]:
  "sni_good b (Done (q, n)) \<longleftrightarrow> 0 < n \<and> q + n \<le> length b" "sni_good b Rejected" "\<not> sni_good b Fault"
  by (simp_all add: sni_good_def)

lemma sni_entry_good: "endp \<le> length b \<Longrightarrow> sni_good b (sni_entry b endp p)"
  by (auto simp: sni_entry_def Let_def rd_Done rd16_Done)

lemma sni_exts_good: "endp \<le> length b \<Longrightarrow> sni_good b (sni_exts b endp p)"
proof (induction b endp p rule: sni_exts.induct)
  case (1 b endp p)
  show ?case
    using 1 by (subst sni_exts.simps) (auto simp: Let_def rd16_Done sni_entry_good not_le)
qed

lemma sni_good_rd:
  assumes "i < length b" and "\<And>v. sni_good b (f v)" shows "sni_good b (outcome_bind (rd b i) f)"
  using assms by (simp add: rd_Done)

lemma sni_good_rd16:
  assumes "i + 1 < length b" and "\<And>v. sni_good b (f v)" shows "sni_good b (outcome_bind (rd16 b i) f)"
  using assms by (simp add: rd16_Done)

lemma sni_good_guard:
  assumes "\<not> P \<Longrightarrow> sni_good b r" shows "sni_good b (if P then Rejected else r)"
  using assms by simp

lemma find_sni_good: "sni_good b (find_sni b)"
  unfolding find_sni_def Let_def
  by (intro sni_good_guard sni_good_rd sni_good_rd16 sni_exts_good) auto

section \<open>More bytes do not change the name\<close>

text \<open>\<open>r'\<close> yields what \<open>r\<close> yields, if \<open>r\<close> yields anything.\<close>

definition keeps :: "'a outcome \<Rightarrow> 'a outcome \<Rightarrow> bool" where
  "keeps r r' \<longleftrightarrow> (\<forall>x. r = Done x \<longrightarrow> r' = Done x)"

lemma keeps_rd: "keeps (rd b i) (rd (b @ c) i)"
  by (simp add: keeps_def rd_def nth_append)

lemma keeps_bind:
  assumes "keeps r r'" "\<And>x. keeps (f x) (f' x)" shows "keeps (outcome_bind r f) (outcome_bind r' f')"
  using assms by (cases r) (auto simp: keeps_def)

lemma keeps_rd16: "keeps (rd16 b i) (rd16 (b @ c) i)"
  unfolding rd16_def by (intro keeps_bind keeps_rd) (simp add: keeps_def)

lemma keeps_guard:
  assumes "P' \<Longrightarrow> P" "\<not> P \<Longrightarrow> keeps r r'"
  shows "keeps (if P then Rejected else r) (if P' then Rejected else r')"
  using assms by (auto simp: keeps_def)

lemmas keeps_intros = keeps_guard keeps_bind keeps_rd keeps_rd16

lemma keeps_refl: "keeps r r"
  by (simp add: keeps_def)

lemma keeps_sni_entry: "endp \<le> endp' \<Longrightarrow> keeps (sni_entry b endp p) (sni_entry (b @ c) endp' p)"
  unfolding sni_entry_def Let_def by (intro keeps_intros keeps_refl) auto

lemma keeps_sni_exts: "endp \<le> endp' \<Longrightarrow> keeps (sni_exts b endp p) (sni_exts (b @ c) endp' p)"
proof (induction b endp p rule: sni_exts.induct)
  case (1 b endp p)
  show ?case
  proof (cases "p + 4 \<le> endp")
    case True
    have "keeps (if p + 4 + elen > endp then Rejected else if t = 0 then sni_entry b endp (p + 4)
                 else sni_exts b endp (p + 4 + elen))
        (if p + 4 + elen > endp' then Rejected else if t = 0 then sni_entry (b @ c) endp' (p + 4)
         else sni_exts (b @ c) endp' (p + 4 + elen))" for t elen
      using 1(1) [OF True refl _ _ 1(2)] 1(2) by (intro keeps_guard) (auto intro: keeps_sni_entry)
    with True 1(2) show ?thesis
      by (subst (1 2) sni_exts.simps) (auto simp: Let_def intro!: keeps_bind keeps_rd16)
  next
    case False
    then show ?thesis by (subst sni_exts.simps) (simp add: keeps_def)
  qed
qed

lemma keeps_find_sni: "keeps (find_sni b) (find_sni (b @ c))"
  unfolding find_sni_def Let_def by (intro keeps_intros keeps_sni_exts) auto

section \<open>The name of a ClientHello\<close>

definition tls_ext :: "nat \<times> bytes \<Rightarrow> bytes" where
  "tls_ext = (\<lambda>(t, d). be16 t @ be16 (length d) @ d)"

definition server_name :: "bytes \<Rightarrow> bytes" where
  "server_name name = be16 (length name + 3) @ [0] @ be16 (length name) @ name"

definition client_hello :: "bytes \<Rightarrow> bytes \<Rightarrow> bytes \<Rightarrow> bytes \<Rightarrow> bytes \<Rightarrow> bytes" where
  "client_hello head sid ciphers compr exts =
     head @ word_of_nat (length sid) # sid @ be16 (length ciphers) @ ciphers
       @ word_of_nat (length compr) # compr @ be16 (length exts) @ exts"

lemma length_tls_ext [simp]: "length (tls_ext (t, d)) = 4 + length d"
  by (simp add: tls_ext_def)

lemma sni_entry_server_name:
  assumes "0 < length name" "length name < 65536"
  shows "sni_entry (xs @ server_name name @ ys) (length (xs @ server_name name @ ys)) (length xs)
    = Done (length xs + 5, length name)"
proof -
  let ?b = "xs @ server_name name @ ys"
  have "rd ?b (length xs + 2) = Done 0"
    by (rule rd_at [where xs = "xs @ be16 (length name + 3)" and ys = "be16 (length name) @ name @ ys"])
      (simp_all add: server_name_def)
  moreover have "rd16 ?b (length xs + 2 + 1) = Done (length name)"
    by (rule rd16_be16_at [where xs = "xs @ be16 (length name + 3) @ [0]" and ys = "name @ ys"])
      (simp_all add: server_name_def assms)
  ultimately show ?thesis
    using assms by (simp add: sni_entry_def server_name_def Let_def)
qed

lemma sni_exts_skip:
  assumes "t < 65536" "length d < 65536"
  shows "sni_exts (xs @ tls_ext (t, d) @ ys) (length (xs @ tls_ext (t, d) @ ys)) (length xs) =
    (if t = 0 then sni_entry ((xs @ be16 t @ be16 (length d)) @ d @ ys) (length (xs @ tls_ext (t, d) @ ys)) (length xs + 4)
     else sni_exts ((xs @ tls_ext (t, d)) @ ys) (length ((xs @ tls_ext (t, d)) @ ys)) (length (xs @ tls_ext (t, d))))"
proof -
  let ?b = "xs @ tls_ext (t, d) @ ys"
  have "rd16 ?b (length xs) = Done t"
    by (rule rd16_be16_at [where ys = "be16 (length d) @ d @ ys"]) (simp_all add: tls_ext_def assms)
  moreover have "rd16 ?b (length xs + 2) = Done (length d)"
    by (rule rd16_be16_at [where xs = "xs @ be16 t" and ys = "d @ ys"]) (simp_all add: tls_ext_def assms)
  ultimately show ?thesis
    by (subst sni_exts.simps) (simp add: Let_def tls_ext_def add.assoc del: add_2_eq_Suc add_2_eq_Suc')
qed

definition ext_skipped :: "nat \<times> bytes \<Rightarrow> bool" where
  "ext_skipped = (\<lambda>(t, d). 0 < t \<and> t < 65536 \<and> length d < 65536)"

lemma sni_exts_server_name:
  assumes "list_all ext_skipped pre" "0 < length name" "length name + 5 < 65536"
  shows "sni_exts (xs @ concat (map tls_ext pre) @ tls_ext (0, server_name name) @ ys)
      (length (xs @ concat (map tls_ext pre) @ tls_ext (0, server_name name) @ ys)) (length xs)
    = Done (length xs + length (concat (map tls_ext pre)) + 9, length name)"
  using assms(1)
proof (induction pre arbitrary: xs)
  case Nil
  have "sni_exts (xs @ tls_ext (0, server_name name) @ ys) (length (xs @ tls_ext (0, server_name name) @ ys)) (length xs)
      = sni_entry ((xs @ be16 0 @ be16 (length (server_name name))) @ server_name name @ ys)
          (length (xs @ tls_ext (0, server_name name) @ ys)) (length xs + 4)"
    using assms(3) by (subst sni_exts_skip) (simp_all add: server_name_def)
  also have "\<dots> = Done (length (xs @ be16 0 @ be16 (length (server_name name))) + 5, length name)"
    using sni_entry_server_name [of name "xs @ be16 0 @ be16 (length (server_name name))" ys] assms
    by (simp add: ac_simps del: add_2_eq_Suc add_2_eq_Suc')
  finally show ?case by simp
next
  case (Cons e pre)
  obtain t d where e: "e = (t, d)" by fastforce
  from Cons.prems have td: "0 < t" "t < 65536" "length d < 65536" "list_all ext_skipped pre"
    by (simp_all add: e ext_skipped_def)
  from Cons.IH [OF td(4), of "xs @ tls_ext (t, d)"] show ?case
    using sni_exts_skip [OF td(2,3), of xs "concat (map tls_ext pre) @ tls_ext (0, server_name name) @ ys"] td(1)
    by (simp add: e ac_simps)
qed

lemma find_sni_client_hello:
  assumes head: "length head = 43" "head ! 0 = 0x16" "head ! 5 = 0x01"
    and len: "length sid < 256" "length ciphers < 65536" "length compr < 256"
    and exts: "exts = concat (map tls_ext pre) @ tls_ext (0, server_name name) @ post" "length exts < 65536"
    and pre: "list_all ext_skipped pre" and name: "0 < length name" "length name + 5 < 65536"
  shows "find_sni (client_hello head sid ciphers compr exts) =
    Done (length (client_hello head sid ciphers compr []) + length (concat (map tls_ext pre)) + 9, length name)"
proof -
  define b where "b = client_hello head sid ciphers compr exts"
  note bd = b_def client_hello_def
  have "rd b 0 = Done 0x16" "rd b 5 = Done 0x01"
    using head by (simp_all add: rd_def bd nth_append)
  moreover have "rd b 43 = Done (length sid)"
    by (rule rd_at [where xs = head]) (simp_all add: bd head len)
  moreover have "rd16 b (43 + (1 + length sid)) = Done (length ciphers)"
    by (rule rd16_be16_at [where xs = "head @ word_of_nat (length sid) # sid"]) (simp_all add: bd head len)
  moreover have "rd b (43 + (1 + length sid) + (2 + length ciphers)) = Done (length compr)"
    by (rule rd_at [where xs = "head @ word_of_nat (length sid) # sid @ be16 (length ciphers) @ ciphers"])
      (simp_all add: bd head len)
  moreover have "rd16 b (43 + (1 + length sid) + (2 + length ciphers) + (1 + length compr)) = Done (length exts)"
    by (rule rd16_be16_at [where ys = exts and xs = "head @ word_of_nat (length sid) # sid @ be16 (length ciphers) @ ciphers
          @ word_of_nat (length compr) # compr"]) (simp_all add: bd head len exts(2))
  moreover have lb: "length b = 43 + (1 + length sid) + (2 + length ciphers) + (1 + length compr) + 2 + length exts"
    by (simp add: bd head)
  moreover have "2 \<le> length exts" by (simp add: exts)
  ultimately have "find_sni b = sni_exts b (length b)
      (43 + (1 + length sid) + (2 + length ciphers) + (1 + length compr) + 2)"
    by (simp add: find_sni_def Let_def)
  also have "\<dots> = Done (length (client_hello head sid ciphers compr []) + length (concat (map tls_ext pre)) + 9, length name)"
  proof -
    define xs where "xs = head @ word_of_nat (length sid) # sid @ be16 (length ciphers) @ ciphers
      @ word_of_nat (length compr) # compr @ be16 (length exts)"
    have "b = xs @ concat (map tls_ext pre) @ tls_ext (0, server_name name) @ post"
      by (simp add: bd xs_def exts)
    moreover have "length xs = 43 + (1 + length sid) + (2 + length ciphers) + (1 + length compr) + 2"
      "length (client_hello head sid ciphers compr []) = length xs"
      by (simp_all add: xs_def head client_hello_def)
    ultimately show ?thesis
      using sni_exts_server_name [OF pre name, of xs post] by simp
  qed
  finally show ?thesis by (simp add: b_def)
qed

section \<open>Names and labels\<close>

fun host_labels :: "string \<Rightarrow> string list" where
  "host_labels [] = [[]]"
| "host_labels (c # cs) =
     (if c = CHR ''.'' then [] # host_labels cs
      else (case host_labels cs of [] \<Rightarrow> [[c]] | l # ls \<Rightarrow> (c # l) # ls))"

lemma host_labels_Cons: "\<exists>l ls. host_labels s = l # ls"
  by (induction s) (auto split: list.split)

lemma labels_ok_iff:
  "labels_ok e s \<longleftrightarrow> (e \<longrightarrow> hd (host_labels s) \<noteq> []) \<and>
     list_all label_char (hd (host_labels s)) \<and>
     list_all (\<lambda>l. l \<noteq> [] \<and> list_all label_char l) (tl (host_labels s))"
proof (induction e s rule: labels_ok.induct)
  case (2 e c cs)
  obtain l ls where h: "host_labels cs = l # ls" using host_labels_Cons by blast
  show ?case
  proof (cases "c = CHR ''.''")
    case True
    with 2(1) h show ?thesis by (cases e) auto
  next
    case False
    with 2(2) h show ?thesis by (cases "label_char c") auto
  qed
qed auto

lemma labels_ok_spec:
  "labels_ok True s \<longleftrightarrow> list_all (\<lambda>l. l \<noteq> [] \<and> list_all label_char l) (host_labels s)"
  using host_labels_Cons [of s] by (auto simp: labels_ok_iff)

lemma host_normalise_iff:
  "host_normalise h = Some g \<longleftrightarrow>
     g = strip_dots h \<and> length g \<le> 253 \<and> list_all (\<lambda>l. l \<noteq> [] \<and> list_all label_char l) (host_labels g)"
  by (auto simp: host_normalise_def Let_def labels_ok_spec)

lemma to_lower_dot: "to_lower c = CHR ''.'' \<longleftrightarrow> c = CHR ''.''"
proof -
  have "char_of (n + 32) \<noteq> CHR ''.''" if "65 \<le> n" "n \<le> 90" for n :: nat
  proof
    assume "char_of (n + 32) = CHR ''.''"
    then have "of_char (char_of (n + 32) :: char) = (of_char (CHR ''.'') :: nat)" by simp
    with that show False by simp
  qed
  then show ?thesis by (auto simp: to_lower_def Let_def)
qed

lemma to_lower_deny: "s \<in> set g_deny_suffix \<Longrightarrow> map to_lower s = s"
  by (auto simp: g_deny_suffix_def to_lower_def)

lemma denied_iff:
  assumes "map to_lower s = s"
  shows "(let hl = length host; sl = length s
       in if hl < sl then False
          else if \<not> strcaseeq (drop (hl - sl) host) s then False
          else hl = sl \<or> host ! (hl - sl - 1) = CHR ''.'') \<longleftrightarrow>
     map to_lower host = s \<or> suffix (CHR ''.'' # s) (map to_lower host)"
proof (cases "length host \<le> length s")
  case True
  then show ?thesis
    using assms by (auto simp: strcaseeq_def Let_def dest: suffix_length_le)
next
  case False
  define k where "k = length host - length s"
  have k: "0 < k" "k \<le> length host" using False by (simp_all add: k_def)
  have "suffix (CHR ''.'' # s) (map to_lower host) \<longleftrightarrow> drop (k - 1) (map to_lower host) = CHR ''.'' # s"
  proof
    assume "suffix (CHR ''.'' # s) (map to_lower host)"
    then obtain zs where z: "map to_lower host = zs @ CHR ''.'' # s" by (auto simp: suffix_def)
    then have "length (map to_lower host) = length (zs @ CHR ''.'' # s)" by (rule arg_cong)
    then have "k - 1 = length zs" by (simp add: k_def)
    with z show "drop (k - 1) (map to_lower host) = CHR ''.'' # s" by simp
  qed (metis suffix_drop)
  also have "drop (k - 1) (map to_lower host) = to_lower (host ! (k - 1)) # drop k (map to_lower host)"
    using k by (subst Cons_nth_drop_Suc [symmetric]) simp_all
  finally show ?thesis
    using False assms by (auto simp: strcaseeq_def Let_def k_def drop_map to_lower_dot)
qed

lemma host_denied_iff:
  "host_denied host \<longleftrightarrow>
     list_ex (\<lambda>s. map to_lower host = s \<or> suffix (CHR ''.'' # s) (map to_lower host)) g_deny_suffix"
  unfolding host_denied_def
  by (simp add: list_ex_iff denied_iff [OF to_lower_deny] cong: bex_cong)

lemma sni_hostname_hello:
  assumes "length head = 43" "head ! 0 = 0x16" "head ! 5 = 0x01"
    and "length sid < 256" "length ciphers < 65536" "length compr < 256"
    and "exts = concat (map tls_ext pre) @ tls_ext (0, server_name name) @ post" "length exts < 65536"
    and "list_all ext_skipped pre" "0 < length name" "length name < cap" "cap \<le> 128"
  shows "sni_hostname (client_hello head sid ciphers compr exts @ tail) cap = Done name \<and>
     sni_hostname (take k (client_hello head sid ciphers compr exts @ tail)) cap \<in> {Done name, Rejected}"
proof -
  define b where "b = client_hello head sid ciphers compr exts @ tail"
  define q where "q = length (client_hello head sid ciphers compr []) + length (concat (map tls_ext pre)) + 9"
  have "find_sni (client_hello head sid ciphers compr exts) = Done (q, length name)"
    unfolding q_def using assms by (intro find_sni_client_hello) auto
  then have f: "find_sni b = Done (q, length name)"
    using keeps_find_sni [of "client_hello head sid ciphers compr exts" tail] by (simp add: b_def keeps_def)
  define xs where "xs = head @ word_of_nat (length sid) # sid @ be16 (length ciphers) @ ciphers
    @ word_of_nat (length compr) # compr @ be16 (length exts) @ concat (map tls_ext pre) @ be16 0
    @ be16 (length (server_name name)) @ be16 (length name + 3) @ [0] @ be16 (length name)"
  have bx: "b = xs @ name @ post @ tail"
    by (simp add: b_def xs_def client_hello_def assms(7) tls_ext_def server_name_def)
  have qx: "q = length xs" by (simp add: q_def xs_def client_hello_def)
  have whole: "sni_hostname b cap = Done name"
    unfolding sni_hostname_def f using assms(11) by (simp add: qx bx slice_def)
  have "sni_hostname (take k b) cap \<in> {Done name, Rejected}"
  proof (cases "find_sni (take k b)")
    case (Done r)
    with keeps_find_sni [of "take k b" "drop k b"] f have r: "find_sni (take k b) = Done (q, length name)"
      by (simp add: keeps_def)
    with find_sni_good [of "take k b"] have "q + length name \<le> length (take k b)" by simp
    moreover from this have "slice q (length name) (take k b) = slice q (length name) b"
      by (auto simp: slice_def drop_take min_def split: if_splits)
    moreover have "slice q (length name) b = name" by (simp add: qx bx slice_def)
    ultimately show ?thesis
      unfolding sni_hostname_def r using assms(11) by simp
  next
    case Fault
    with find_sni_good [of "take k b"] show ?thesis by simp
  qed (simp add: sni_hostname_def)
  with whole show ?thesis by (simp add: b_def)
qed

section \<open>Properties\<close>

text \<open>C29.  \<open>find_sni\<close> is safe on arbitrary bytes: whatever a client sends, no byte behind what was received is
  read, and the name it reports lies inside the bytes received and is not empty.\<close>

theorem sni_reads_inside:
  "case find_sni b of Done (q, n) \<Rightarrow> 0 < n \<and> q + n \<le> length b | Rejected \<Rightarrow> True | Fault \<Rightarrow> False"
  using find_sni_good [of b] by (simp add: sni_good_def)

text \<open>C30.  The name of a ClientHello is found, however the client's bytes are split.  For a ClientHello with any
  session id, cipher suites and compression methods, any extensions before the server name and any bytes
  after it, the proxy reads exactly that name once enough has arrived, and on every shorter prefix it reads
  the same name or none.\<close>

theorem sni_name_found:
  assumes "length head = 43" "head ! 0 = 0x16" "head ! 5 = 0x01"
    and "length sid < 256" "length ciphers < 65536" "length compr < 256"
    and "exts = concat (map tls_ext pre) @ tls_ext (0, server_name name) @ post" "length exts < 65536"
    and "list_all ext_skipped pre" "0 < length name" "length name < cap" "cap \<le> 128"
  shows "sni_hostname (client_hello head sid ciphers compr exts @ tail) cap = Done name \<and>
     sni_hostname (take k (client_hello head sid ciphers compr exts @ tail)) cap \<in> {Done name, Rejected}"
  using sni_hostname_hello [OF assms] .

text \<open>A ClientHello for \<open>a.b\<close> with one other extension in front.\<close>

definition sample_head :: bytes where
  "sample_head = (replicate 43 0)[0 := 0x16, 5 := 1]"

theorem sni_name_found_witness:
  "sni_hostname (client_hello sample_head [] [19, 1] [0] (tls_ext (10, [1]) @ tls_ext (0, server_name [97, 46, 98])) @ [5]) 128
     = Done [97, 46, 98] \<and>
   sni_hostname (take 60 (client_hello sample_head [] [19, 1] [0] (tls_ext (10, [1]) @ tls_ext (0, server_name [97, 46, 98])) @ [5])) 128
     \<in> {Done [97, 46, 98], Rejected}"
  using sni_name_found [of sample_head "[]" "[19, 1]" "[0]" "tls_ext (10, [1]) @ tls_ext (0, server_name [97, 46, 98])"
      "[(10, [1])]" "[97, 46, 98]" "[]" 128 "[5]" 60]
  by (simp add: sample_head_def ext_skipped_def server_name_def)

text \<open>Host names are taken for what DNS takes them for.  A name is accepted exactly when, without its trailing
  dots, it is at most 253 characters of non-empty labels made of letters, digits, hyphens and underscores (so no
  control character reaches the log or the resolver), and the deny list catches exactly the listed domains and
  everything below them, at a label boundary and in any case.\<close>

lemma host_rules:
  "(host_normalise h = Some g \<longleftrightarrow>
      g = strip_dots h \<and> length g \<le> 253 \<and> list_all (\<lambda>l. l \<noteq> [] \<and> list_all label_char l) (host_labels g)) \<and>
   (host_denied g \<longleftrightarrow>
      list_ex (\<lambda>s. map to_lower g = s \<or> suffix (CHR ''.'' # s) (map to_lower g)) g_deny_suffix)"
  using host_normalise_iff host_denied_iff by blast

end
