(* ===== verification/Proxy.thy ===== *)
theory Proxy
  imports Sni
begin

text \<open>
  \<open>awg_proxy.c\<close>: the table of connections between the console's sockets and lwIP.  The globals of the file are
  a record; what the sockets and lwIP answer (data read, bytes taken, send window, error codes) are arguments,
  so every theorem holds whatever they answer.  The calls made to them are recorded in \<open>p_out\<close>, in order: this
  is how what reaches the application, the resolver and the tunnel is stated.  Logging is left out.
\<close>

section \<open>State\<close>

definition MAX_CONN :: nat where
  "MAX_CONN = 16"

definition BUF_SIZE :: nat where
  "BUF_SIZE = 8192"

definition SNIFF_LIMIT :: nat where
  "SNIFF_LIMIT = 2048"

definition SNIFF_TIMEOUT_MS :: u32 where
  "SNIFF_TIMEOUT_MS = 5000"

definition IDLE_TIMEOUT_MS :: u32 where
  "IDLE_TIMEOUT_MS = 120000"

datatype cstate = ST_FREE | ST_SNIFF | ST_RESOLVING | ST_CONNECTING | ST_RELAY

text \<open>\<open>c_up\<close> is \<open>up[0 .. up_len)\<close>; \<open>c_rx\<close> is the pbuf chain at \<open>rx_head\<close>, one list per link, empty for \<open>NULL\<close>.\<close>

record conn_t =
  c_st :: cstate
  c_cfd :: int
  c_pcb :: "nat option"
  c_host :: string
  c_last_ms :: u32
  c_up :: bytes
  c_rx :: "bytes list"
  c_rx_off :: nat
  c_peer_closed :: bool

record awg_proxy_stats =
  n_accepted :: u32
  n_denied :: u32
  n_refused :: u32
  n_timed_out :: u32
  n_closed :: u32
  n_resolved :: u32
  n_connected :: u32
  n_completed :: u32
  n_failed :: u32
  n_bytes_up :: u64
  n_bytes_down :: u64

text \<open>The calls to the outside, with the slot of the connection where there is one.\<close>

datatype call =
    Opened nat int
  | Refused_fd int
  | Got nat bytes
  | Arrived nat "bytes list"
  | Wrote nat bytes
  | Sent_down nat bytes
  | Recved nat nat
  | Shut_tx nat
  | Ask_dns nat string
  | Connect nat nat u32
  | Aborted nat nat
  | Closed_fd nat int
  | Poll_wait "int list" int
  | Set_dns u32
  | Closed_listener int

record proxy =
  p_conn :: "conn_t list"
  p_listen :: int
  p_dns_server :: u32
  p_stats :: awg_proxy_stats
  p_out :: "call list"

definition stats_zero :: awg_proxy_stats where
  "stats_zero = \<lparr>n_accepted = 0, n_denied = 0, n_refused = 0, n_timed_out = 0, n_closed = 0, n_resolved = 0,
     n_connected = 0, n_completed = 0, n_failed = 0, n_bytes_up = 0, n_bytes_down = 0\<rparr>"

text \<open>A zeroed slot with \<open>cfd = -1\<close>.\<close>

definition conn_zero :: conn_t where
  "conn_zero = \<lparr>c_st = ST_FREE, c_cfd = -1, c_pcb = None, c_host = [], c_last_ms = 0, c_up = [], c_rx = [],
     c_rx_off = 0, c_peer_closed = False\<rparr>"

definition emit :: "call list \<Rightarrow> proxy \<Rightarrow> proxy" where
  "emit cs p = p\<lparr>p_out := p_out p @ cs\<rparr>"

definition put_conn :: "nat \<Rightarrow> conn_t \<Rightarrow> proxy \<Rightarrow> proxy" where
  "put_conn i c p = p\<lparr>p_conn := (p_conn p)[i := c]\<rparr>"

abbreviation conn_at :: "proxy \<Rightarrow> nat \<Rightarrow> conn_t" where
  "conn_at p i \<equiv> p_conn p ! i"

definition stat :: "(awg_proxy_stats \<Rightarrow> awg_proxy_stats) \<Rightarrow> proxy \<Rightarrow> proxy" where
  "stat f p = p\<lparr>p_stats := f (p_stats p)\<rparr>"

definition count_failed :: "proxy \<Rightarrow> proxy" where
  "count_failed = stat (\<lambda>s. s\<lparr>n_failed := n_failed s + 1\<rparr>)"

definition count_denied :: "proxy \<Rightarrow> proxy" where
  "count_denied = stat (\<lambda>s. s\<lparr>n_denied := n_denied s + 1\<rparr>)"

section \<open>Connections\<close>

text \<open>\<open>conn_close\<close>; \<open>why\<close> says whether a reason was given, in which case the close is counted.\<close>

definition conn_close :: "nat \<Rightarrow> bool \<Rightarrow> proxy \<Rightarrow> proxy" where
  "conn_close i why p =
     (let c = conn_at p i
      in if c_st c = ST_FREE then p
         else
           let p = (case c_pcb c of None \<Rightarrow> p | Some b \<Rightarrow> emit [Aborted i b] p);
               p = (if c_cfd c \<ge> 0 then emit [Closed_fd i (c_cfd c)] p else p);
               p = (if why then stat (\<lambda>s. s\<lparr>n_closed := n_closed s + 1\<rparr>) p else p)
           in put_conn i conn_zero p)"

text \<open>The first free slot, cleared.\<close>

definition conn_alloc :: "proxy \<Rightarrow> (nat \<times> proxy) option" where
  "conn_alloc p =
     (case find (\<lambda>i. c_st (conn_at p i) = ST_FREE) [0..<MAX_CONN] of
        None \<Rightarrow> None | Some i \<Rightarrow> Some (i, put_conn i conn_zero p))"

section \<open>Callbacks from lwIP\<close>

definition on_recv :: "nat option \<Rightarrow> bytes list option \<Rightarrow> err_t \<Rightarrow> proxy \<Rightarrow> proxy \<times> err_t" where
  "on_recv arg pb err p =
     (case arg of
        None \<Rightarrow> (p, ERR_OK)
      | Some i \<Rightarrow>
          (case pb of
             None \<Rightarrow> (put_conn i ((conn_at p i)\<lparr>c_peer_closed := True\<rparr>) p, ERR_OK)
           | Some ps \<Rightarrow>
               if err \<noteq> ERR_OK then (p, err)
               else (put_conn i ((conn_at p i)\<lparr>c_rx := c_rx (conn_at p i) @ ps\<rparr>) (emit [Arrived i ps] p), ERR_OK)))"

definition on_err :: "nat option \<Rightarrow> proxy \<Rightarrow> proxy" where
  "on_err arg p =
     (case arg of
        None \<Rightarrow> p
      | Some i \<Rightarrow> conn_close i False (count_failed (put_conn i ((conn_at p i)\<lparr>c_pcb := None\<rparr>) p)))"

definition on_connected :: "nat option \<Rightarrow> err_t \<Rightarrow> proxy \<Rightarrow> proxy \<times> err_t" where
  "on_connected arg err p =
     (case arg of
        None \<Rightarrow> (p, ERR_ABRT)
      | Some i \<Rightarrow>
          if err \<noteq> ERR_OK then (conn_close i True (count_failed p), err)
          else (stat (\<lambda>s. s\<lparr>n_connected := n_connected s + 1\<rparr>)
                  (put_conn i ((conn_at p i)\<lparr>c_st := ST_RELAY\<rparr>) p), ERR_OK))"

text \<open>\<open>new_pcb\<close> and \<open>connect\<close> are the results of \<open>tcp_new\<close> and \<open>tcp_connect\<close>; the name is not looked at.\<close>

definition on_resolved ::
  "string \<Rightarrow> u32 option \<Rightarrow> nat option \<Rightarrow> nat option \<Rightarrow> err_t \<Rightarrow> proxy \<Rightarrow> proxy" where
  "on_resolved name ip arg new_pcb connect p =
     (case arg of
        None \<Rightarrow> p
      | Some i \<Rightarrow>
          if c_st (conn_at p i) \<noteq> ST_RESOLVING then p
          else
            (case ip of
               None \<Rightarrow> conn_close i True (count_failed p)
             | Some a \<Rightarrow>
                 let p = stat (\<lambda>s. s\<lparr>n_resolved := n_resolved s + 1\<rparr>) p
                 in case new_pcb of
                      None \<Rightarrow> conn_close i True (count_failed (put_conn i ((conn_at p i)\<lparr>c_pcb := None\<rparr>) p))
                    | Some b \<Rightarrow>
                        let p = put_conn i ((conn_at p i)\<lparr>c_pcb := Some b, c_st := ST_CONNECTING\<rparr>) p;
                            p = emit [Connect i b a] p
                        in if connect \<noteq> ERR_OK then conn_close i True (count_failed p) else p))"

section \<open>Moving bytes\<close>

text \<open>\<open>room\<close> is \<open>tcp_sndbuf\<close>, \<open>ok\<close> whether \<open>tcp_write\<close> returned \<open>ERR_OK\<close>.\<close>

definition pump_up :: "nat \<Rightarrow> nat \<Rightarrow> bool \<Rightarrow> u32 \<Rightarrow> proxy \<Rightarrow> proxy" where
  "pump_up i room ok now p =
     (let c = conn_at p i
      in if c_up c = [] \<or> c_pcb c = None then p
         else if room = 0 then p
         else
           let n = (if length (c_up c) < room then length (c_up c) else room)
           in if \<not> ok then p
              else
                let p = emit [Wrote i (take n (c_up c))] p;
                    p = put_conn i (c\<lparr>c_up := drop n (c_up c), c_last_ms := now\<rparr>) p
                in stat (\<lambda>s. s\<lparr>n_bytes_up := n_bytes_up s + of_nat n\<rparr>) p)"

text \<open>What \<open>send\<close> on the client's socket returned: a number of bytes taken (at most what was offered),
  \<open>EAGAIN\<close>, or another error.  When the list ends the socket would block.\<close>

datatype send_result = Took nat | Would_block | Broken

text \<open>The loop of \<open>pump_down\<close>: the chain and offset left, the pieces sent, and whether the socket failed.\<close>

function pump_down_loop ::
  "bytes list \<Rightarrow> nat \<Rightarrow> send_result list \<Rightarrow> bytes list \<times> nat \<times> bytes list \<times> bool" where
  "pump_down_loop rx off rs =
     (case rx of
        [] \<Rightarrow> ([], off, [], False)
      | b # next \<Rightarrow>
          if length b \<le> off then pump_down_loop next 0 rs
          else
            (case rs of
               [] \<Rightarrow> (rx, off, [], False)
             | Would_block # rs \<Rightarrow> (rx, off, [], False)
             | Broken # rs \<Rightarrow> (rx, off, [], True)
             | Took k # rs \<Rightarrow>
                 let avail = length b - off;
                     n = min k avail
                 in if n = 0 then (rx, off, [], True)
                    else
                      (case pump_down_loop rx (off + n) rs of
                         (rx', off', sent, failed) \<Rightarrow> (rx', off', slice off n b # sent, failed))))"
  by pat_completeness auto
termination by (relation "measure (\<lambda>(rx, off, rs). length rx + length rs)") auto

declare pump_down_loop.simps [simp del]

definition down_calls :: "nat \<Rightarrow> nat option \<Rightarrow> bytes \<Rightarrow> call list" where
  "down_calls i pcb b = Sent_down i b # (case pcb of None \<Rightarrow> [] | Some _ \<Rightarrow> [Recved i (length b)])"

definition pump_down :: "nat \<Rightarrow> send_result list \<Rightarrow> u32 \<Rightarrow> proxy \<Rightarrow> proxy" where
  "pump_down i rs now p =
     (let c = conn_at p i
      in case pump_down_loop (c_rx c) (c_rx_off c) rs of
           (rx, off, sent, failed) \<Rightarrow>
             let p = emit (concat (map (down_calls i (c_pcb c)) sent)) p;
                 p = put_conn i (c\<lparr>c_rx := rx, c_rx_off := off,
                                   c_last_ms := (if sent = [] then c_last_ms c else now)\<rparr>) p;
                 p = stat (\<lambda>s. s\<lparr>n_bytes_down := n_bytes_down s + of_nat (length (concat sent))\<rparr>) p
             in if failed then conn_close i True p else p)"

section \<open>Reading from the client\<close>

text \<open>What \<open>recv\<close> returned: data (cut to the space offered), end of file, \<open>EAGAIN\<close>, or another error.\<close>

datatype recv_result = Data bytes | Eof | Read_again | Read_broken

text \<open>What the resolver and the stack answer: \<open>dns_gethostbyname\<close> with the address it wrote, and the results of
  \<open>tcp_new\<close> and \<open>tcp_connect\<close> for an answer that is there at once.\<close>

record dns_env =
  de_err :: err_t
  de_ip :: u32
  de_pcb :: "nat option"
  de_connect :: err_t

text \<open>The \<open>ST_SNIFF\<close> branch, after new bytes were appended.\<close>

definition sniff :: "nat \<Rightarrow> dns_env \<Rightarrow> proxy \<Rightarrow> proxy" where
  "sniff i d p =
     (case sni_hostname (c_up (conn_at p i)) 128 of
        Done name \<Rightarrow>
          (case host_normalise (cstr (map (\<lambda>b. char_of (unat b)) name)) of
             None \<Rightarrow>
               conn_close i True (put_conn i ((conn_at p i)\<lparr>c_host := []\<rparr>) (count_denied p))
           | Some host \<Rightarrow>
               let p = put_conn i ((conn_at p i)\<lparr>c_host := host\<rparr>) p
               in if host_denied host then conn_close i True (count_denied p)
                  else
                    let p = put_conn i ((conn_at p i)\<lparr>c_st := ST_RESOLVING\<rparr>) p;
                        p = emit [Ask_dns i host] p
                    in case de_err d of
                         ERR_OK \<Rightarrow> on_resolved host (Some (de_ip d)) (Some i) (de_pcb d) (de_connect d) p
                       | ERR_INPROGRESS \<Rightarrow> p
                       | _ \<Rightarrow> conn_close i True (count_failed p))
      | _ \<Rightarrow> if length (c_up (conn_at p i)) \<ge> SNIFF_LIMIT then conn_close i True p else p)"

definition handle_client_readable :: "nat \<Rightarrow> recv_result \<Rightarrow> dns_env \<Rightarrow> u32 \<Rightarrow> proxy \<Rightarrow> proxy" where
  "handle_client_readable i r d now p =
     (let c = conn_at p i; space = int BUF_SIZE - int (length (c_up c))
      in if space \<le> 0 then p
         else
           (case r of
              Eof \<Rightarrow> (if c_pcb c \<noteq> None \<and> c_up c = [] then emit [Shut_tx i] p else p)
            | Read_again \<Rightarrow> p
            | Read_broken \<Rightarrow> conn_close i True p
            | Data b \<Rightarrow>
                let b = take (nat space) b
                in if b = [] then (if c_pcb c \<noteq> None \<and> c_up c = [] then emit [Shut_tx i] p else p)
                   else
                     let p = emit [Got i b] p;
                         p = put_conn i (c\<lparr>c_up := c_up c @ b, c_last_ms := now\<rparr>) p
                     in if c_st c = ST_SNIFF then sniff i d p else p))"

section \<open>The interface\<close>

text \<open>\<open>fd\<close> is the listener \<open>open_listener\<close> returned, -1 when \<open>socket\<close>, \<open>bind\<close> or \<open>listen\<close> failed.\<close>

definition awg_proxy_start :: "u32 \<Rightarrow> int \<Rightarrow> proxy \<Rightarrow> proxy \<times> bool" where
  "awg_proxy_start dns_server fd p =
     (let p = p\<lparr>p_dns_server := dns_server, p_stats := stats_zero\<rparr>;
          p = p\<lparr>p_conn := map (\<lambda>c. c\<lparr>c_st := ST_FREE, c_cfd := -1\<rparr>) (p_conn p)\<rparr>;
          p = emit [Set_dns dns_server] p;
          p = p\<lparr>p_listen := fd\<rparr>
      in (p, fd \<ge> 0))"

definition idle_limit :: "conn_t \<Rightarrow> u32" where
  "idle_limit c = (if c_st c = ST_SNIFF then SNIFF_TIMEOUT_MS else IDLE_TIMEOUT_MS)"

definition sweep_one :: "u32 \<Rightarrow> nat \<Rightarrow> proxy \<Rightarrow> proxy" where
  "sweep_one now i p =
     (let c = conn_at p i
      in if c_st c = ST_FREE then p
         else if now - c_last_ms c < idle_limit c then p
         else conn_close i True (stat (\<lambda>s. s\<lparr>n_timed_out := n_timed_out s + 1\<rparr>) p))"

definition sweep_idle :: "u32 \<Rightarrow> proxy \<Rightarrow> proxy" where
  "sweep_idle now p = fold (sweep_one now) [0..<MAX_CONN] p"

text \<open>
  What one call of \<open>poll\<close> and the calls after it answer, by slot: \<open>pe_ready\<close> whether \<open>poll\<close> returned a positive
  number, the events of the listener, of the caller's descriptor (verbatim) and of each connection (error or
  hang-up, writable, readable), the new descriptor, and the results of the socket and lwIP calls of the event
  loop and of the final pass.
\<close>

record poll_env =
  pe_ready :: bool
  pe_extra :: int
  pe_listen :: bool
  pe_accept :: int
  pe_revents :: "nat \<Rightarrow> bool \<times> bool \<times> bool"
  pe_recv :: "nat \<Rightarrow> recv_result"
  pe_dns :: "nat \<Rightarrow> dns_env"
  pe_sends :: "nat \<Rightarrow> send_result list"
  pe_room :: "nat \<Rightarrow> nat"
  pe_write :: "nat \<Rightarrow> bool"
  pe_sends2 :: "nat \<Rightarrow> send_result list"
  pe_now :: u32
  pe_now_sweep :: u32
  pe_now_pump :: u32

definition wants_in :: "conn_t \<Rightarrow> bool" where
  "wants_in c \<longleftrightarrow> int BUF_SIZE - int (length (c_up c)) > 0"

definition wants_out :: "conn_t \<Rightarrow> bool" where
  "wants_out c \<longleftrightarrow> c_rx c \<noteq> []"

text \<open>The slots whose descriptors are polled.\<close>

definition poll_owner :: "proxy \<Rightarrow> nat list" where
  "poll_owner p =
     filter (\<lambda>i. let c = conn_at p i
                 in c_st c \<noteq> ST_FREE \<and> c_cfd c \<ge> 0 \<and> (wants_in c \<or> wants_out c)) [0..<MAX_CONN]"

definition poll_timeout :: "proxy \<Rightarrow> int \<Rightarrow> int" where
  "poll_timeout p timeout_ms =
     (if list_ex (\<lambda>i. c_st (conn_at p i) \<noteq> ST_FREE \<and> c_up (conn_at p i) \<noteq> []) [0..<MAX_CONN] \<and> timeout_ms > 5
      then 5 else timeout_ms)"

definition poll_accept :: "poll_env \<Rightarrow> proxy \<Rightarrow> proxy" where
  "poll_accept e p =
     (if \<not> pe_listen e then p
      else if pe_accept e < 0 then p
      else
        (case conn_alloc p of
           None \<Rightarrow> stat (\<lambda>s. s\<lparr>n_refused := n_refused s + 1\<rparr>) (emit [Refused_fd (pe_accept e)] p)
         | Some (i, p) \<Rightarrow>
             let p = put_conn i ((conn_at p i)\<lparr>c_cfd := pe_accept e, c_st := ST_SNIFF, c_last_ms := pe_now e\<rparr>) p
             in stat (\<lambda>s. s\<lparr>n_accepted := n_accepted s + 1\<rparr>) (emit [Opened i (pe_accept e)] p)))"

text \<open>One polled connection; \<open>poll\<close> reports readable and writable only where they were asked for, which is as
  the connection stood before the wait.\<close>

definition poll_event :: "poll_env \<Rightarrow> nat \<times> bool \<times> bool \<Rightarrow> proxy \<Rightarrow> proxy" where
  "poll_event e w p =
     (case (w, pe_revents e (fst w)) of ((i, want_in, want_out), (bad, out, inp)) \<Rightarrow>
        if c_st (conn_at p i) = ST_FREE then p
        else if bad then conn_close i True p
        else
          let p = (if out \<and> want_out then pump_down i (pe_sends e i) (pe_now e) p else p)
          in if c_st (conn_at p i) \<noteq> ST_FREE \<and> inp \<and> want_in
             then handle_client_readable i (pe_recv e i) (pe_dns e i) (pe_now e) p else p)"

text \<open>The final pass over the table.\<close>

definition poll_pump :: "poll_env \<Rightarrow> nat \<Rightarrow> proxy \<Rightarrow> proxy" where
  "poll_pump e i p =
     (if c_st (conn_at p i) = ST_FREE then p
      else
        let p = (if c_st (conn_at p i) = ST_RELAY
                 then pump_up i (pe_room e i) (pe_write e i) (pe_now_pump e) p else p);
            p = (if c_rx (conn_at p i) \<noteq> [] then pump_down i (pe_sends2 e i) (pe_now_pump e) p else p)
        in if c_peer_closed (conn_at p i) \<and> c_rx (conn_at p i) = []
           then conn_close i False (stat (\<lambda>s. s\<lparr>n_completed := n_completed s + 1\<rparr>) p)
           else p)"

definition awg_proxy_poll :: "int \<Rightarrow> int \<Rightarrow> poll_env \<Rightarrow> proxy \<Rightarrow> proxy \<times> int" where
  "awg_proxy_poll timeout_ms extra_fd e p =
     (if p_listen p < 0 then
        (if extra_fd < 0 then (p, 0)
         else (emit [Poll_wait [extra_fd] timeout_ms] p, if pe_ready e then pe_extra e else 0))
      else
        let owner = poll_owner p;
            watch = map (\<lambda>i. (i, wants_in (conn_at p i), wants_out (conn_at p i))) owner;
            fds = p_listen p # (if extra_fd \<ge> 0 then [extra_fd] else []) @ map (\<lambda>i. c_cfd (conn_at p i)) owner;
            p = emit [Poll_wait fds (poll_timeout p timeout_ms)] p;
            extra = (if pe_ready e \<and> extra_fd \<ge> 0 then pe_extra e else 0);
            p = (if pe_ready e then fold (poll_event e) watch (poll_accept e p) else p);
            p = sweep_idle (pe_now_sweep e) p
        in (fold (poll_pump e) [0..<MAX_CONN] p, extra))"

definition awg_proxy_stop :: "proxy \<Rightarrow> proxy" where
  "awg_proxy_stop p =
     (let p = fold (\<lambda>i. conn_close i False) [0..<MAX_CONN] p
      in if p_listen p \<ge> 0 then (emit [Closed_listener (p_listen p)] p)\<lparr>p_listen := -1\<rparr> else p)"

definition awg_proxy_live :: "proxy \<Rightarrow> u32" where
  "awg_proxy_live p =
     fold (\<lambda>i n. if c_st (conn_at p i) \<noteq> ST_FREE then n + 1 else n) [0..<MAX_CONN] 0"

definition awg_proxy_get_stats :: "proxy \<Rightarrow> awg_proxy_stats" where
  "awg_proxy_get_stats p = p_stats p"

end
