(* ===== verification/Main_Loop.thy ===== *)
theory Main_Loop
  imports Power_Events Netif Proxy
begin

text \<open>
  The module's main loop (\<open>main_switch.c\<close>): it owns the UDP socket, the session, the interface and the proxy, and
  drives them once per pass.  What the platform answers in a pass (clocks, the play-event log, sockets, lwIP)
  is the environment; the system calls whose effect matters are recorded in \<open>w_acts\<close>.  lwIP runs only inside
  calls of the loop, and what it does there (packets it wants out, callbacks it makes) is a list of stack events.
\<close>

section \<open>Sockets and the network\<close>

datatype errno =
  EPIPE | EBADF | ENOTCONN | ENOTSOCK | ENETRESET | ECONNABORTED | ECONNRESET | ENETUNREACH | ENETDOWN | E_OTHER int

fun sock_is_dead :: "errno \<Rightarrow> bool" where
  "sock_is_dead EPIPE = True"
| "sock_is_dead EBADF = True"
| "sock_is_dead ENOTCONN = True"
| "sock_is_dead ENOTSOCK = True"
| "sock_is_dead ENETRESET = True"
| "sock_is_dead ECONNABORTED = True"
| "sock_is_dead ECONNRESET = True"
| "sock_is_dead _ = False"

text \<open>The wait for the network before the loop: the number of two-second sleeps, given what each query of the status
  says.  \<open>i\<close> counts the attempts left, 150 at the start.\<close>

fun wait_for_network :: "nat \<Rightarrow> (nat \<Rightarrow> bool) \<Rightarrow> nat" where
  "wait_for_network 0 connected = 0"
| "wait_for_network (Suc i) connected =
     (if connected 0 then 0 else Suc (wait_for_network i (\<lambda>k. connected (Suc k))))"

section \<open>The HTTP probe\<close>

datatype http_state = HTTP_IDLE | HTTP_CONNECTING | HTTP_SENT | HTTP_GOT_DATA | HTTP_DONE | HTTP_FAILED

datatype http_call = Http_abort nat | Http_connect nat | Http_get nat | Http_recved nat nat

record http =
  h_state :: http_state
  h_pcb :: "nat option"
  h_bytes :: u32
  h_started :: u64
  h_ms :: u32
  h_line :: string
  h_err :: int
  h_calls :: "http_call list"

definition http_static :: http where
  "http_static = \<lparr>h_state = HTTP_IDLE, h_pcb = None, h_bytes = 0, h_started = 0, h_ms = 0, h_line = [], h_err = 0,
     h_calls = []\<rparr>"

fun err_code :: "err_t \<Rightarrow> int" where
  "err_code ERR_OK = 0"
| "err_code ERR_INPROGRESS = -5"
| "err_code ERR_ABRT = -13"
| "err_code (ERR_OTHER e) = e"

definition http_reset :: "http \<Rightarrow> http" where
  "http_reset h =
     (case h_pcb h of None \<Rightarrow> h | Some b \<Rightarrow> h\<lparr>h_pcb := None, h_calls := h_calls h @ [Http_abort b]\<rparr>)"

text \<open>The status line: the first 63 bytes up to the first line end.\<close>

definition http_line_of :: "bytes \<Rightarrow> string" where
  "http_line_of d =
     takeWhile (\<lambda>c. c \<noteq> CHR 0x0D \<and> c \<noteq> CHR 0x0A) (cstr (map (\<lambda>b. char_of (unat b)) (take 63 d)))"

definition http_on_recv :: "nat \<Rightarrow> bytes option \<Rightarrow> err_t \<Rightarrow> u64 \<Rightarrow> http \<Rightarrow> http \<times> err_t" where
  "http_on_recv pcb p err now h =
     (case p of
        None \<Rightarrow>
          (h\<lparr>h_state := (if h_bytes h > 0 then HTTP_DONE else HTTP_FAILED), h_ms := ucast (now - h_started h)\<rparr>, ERR_OK)
      | Some d \<Rightarrow>
          if err \<noteq> ERR_OK then (h\<lparr>h_state := HTTP_FAILED\<rparr>, err)
          else
            let h = (if h_bytes h = 0 then h\<lparr>h_line := http_line_of d\<rparr> else h);
                h = h\<lparr>h_bytes := h_bytes h + of_nat (length d), h_state := HTTP_GOT_DATA,
                      h_ms := ucast (now - h_started h)\<rparr>
            in (h\<lparr>h_calls := h_calls h @ [Http_recved pcb (length d)]\<rparr>, ERR_OK))"

definition http_on_err :: "err_t \<Rightarrow> http \<Rightarrow> http" where
  "http_on_err err h = h\<lparr>h_pcb := None, h_err := err_code err, h_state := HTTP_FAILED\<rparr>"

text \<open>\<open>wrote\<close>: whether \<open>tcp_write\<close> returned \<open>ERR_OK\<close>.\<close>

definition http_on_connected :: "nat \<Rightarrow> err_t \<Rightarrow> bool \<Rightarrow> http \<Rightarrow> http \<times> err_t" where
  "http_on_connected pcb err wrote h =
     (if err \<noteq> ERR_OK then (h\<lparr>h_state := HTTP_FAILED, h_err := err_code err\<rparr>, err)
      else if \<not> wrote then (h\<lparr>h_state := HTTP_FAILED\<rparr>, ERR_MEM)
      else (h\<lparr>h_state := HTTP_SENT, h_calls := h_calls h @ [Http_get pcb]\<rparr>, ERR_OK))"

definition http_start :: "u64 \<Rightarrow> nat option \<Rightarrow> err_t \<Rightarrow> http \<Rightarrow> http \<times> bool" where
  "http_start now new_pcb connect h =
     (let h = http_reset h;
          h = h\<lparr>h_bytes := 0, h_err := 0, h_line := [], h_started := now, h_pcb := new_pcb\<rparr>
      in case new_pcb of
           None \<Rightarrow> (h\<lparr>h_state := HTTP_FAILED\<rparr>, False)
         | Some b \<Rightarrow>
             let h = h\<lparr>h_state := HTTP_CONNECTING, h_calls := h_calls h @ [Http_connect b]\<rparr>
             in if connect \<noteq> ERR_OK then (h\<lparr>h_state := HTTP_FAILED\<rparr>, False) else (h, True))"

definition http_busy :: "http \<Rightarrow> bool" where
  "http_busy h = (h_state h = HTTP_CONNECTING \<or> h_state h = HTTP_SENT \<or> h_state h = HTTP_GOT_DATA)"

section \<open>The state of the loop\<close>

datatype act =
    Sendto int bytes
  | Close_sock int
  | New_sock int
  | To_stack bytes
  | Alive_mark u64 u64 u64 bool
  | Sleep_100ms

text \<open>\<open>w_fault\<close> is set where the C code reads or writes outside its buffers; nothing is claimed after it.\<close>

record world =
  w_fd :: int
  w_sess :: awg_session
  w_globals :: replay_globals
  w_entropy :: entropy
  w_power :: power
  w_netif :: netif
  w_proxy :: proxy
  w_http :: http
  w_netif_up :: bool
  w_tunnel_lost :: bool
  w_unreachable_since :: u64
  w_next_rebuild :: u64
  w_next_power :: u64
  w_next_fetch :: u64
  w_next_status :: u64
  w_next_alive :: u64
  w_loops :: u64
  w_rebuilds :: u32
  w_suspends :: u32
  w_fetches :: u32
  w_fetches_ok :: u32
  w_stray :: u32
  w_last_rx_pkts :: u32
  w_last_down_kb :: u32
  w_reported :: u32
  w_fault :: bool
  w_acts :: "act list"

definition do_act :: "act list \<Rightarrow> world \<Rightarrow> world" where
  "do_act as w = w\<lparr>w_acts := w_acts w @ as\<rparr>"

text \<open>What lwIP does while it runs: a packet for \<open>tunnel_output\<close>, or a callback into the probe or the proxy.\<close>

datatype stack_event =
    Out pbuf u32 bool
  | Http_recv nat "bytes option" err_t u64
  | Http_err err_t
  | Http_conn nat err_t bool
  | Proxy_recv "nat option" "bytes list option" err_t
  | Proxy_err "nat option"
  | Proxy_conn "nat option" err_t
  | Proxy_dns string "u32 option" "nat option" "nat option" err_t

definition stack_out :: "awg_config \<Rightarrow> pbuf \<Rightarrow> u32 \<Rightarrow> bool \<Rightarrow> world \<Rightarrow> world" where
  "stack_out cfg p clock sent w =
     (case tunnel_output (w_netif w) (w_sess w) cfg p clock sent (w_entropy w) of
        (s, out, err, e) \<Rightarrow>
          let w = w\<lparr>w_sess := s, w_entropy := e, w_fault := (w_fault w \<or> err = None)\<rparr>
          in case out of None \<Rightarrow> w | Some (fd, b) \<Rightarrow> do_act [Sendto fd b] w)"

fun run_event :: "awg_config \<Rightarrow> stack_event \<Rightarrow> world \<Rightarrow> world" where
  "run_event cfg (Out p clock sent) w = stack_out cfg p clock sent w"
| "run_event cfg (Http_recv pcb p err now) w = w\<lparr>w_http := fst (http_on_recv pcb p err now (w_http w))\<rparr>"
| "run_event cfg (Http_err err) w = w\<lparr>w_http := http_on_err err (w_http w)\<rparr>"
| "run_event cfg (Http_conn pcb err wrote) w = w\<lparr>w_http := fst (http_on_connected pcb err wrote (w_http w))\<rparr>"
| "run_event cfg (Proxy_recv arg pb err) w = w\<lparr>w_proxy := fst (on_recv arg pb err (w_proxy w))\<rparr>"
| "run_event cfg (Proxy_err arg) w = w\<lparr>w_proxy := on_err arg (w_proxy w)\<rparr>"
| "run_event cfg (Proxy_conn arg err) w = w\<lparr>w_proxy := fst (on_connected arg err (w_proxy w))\<rparr>"
| "run_event cfg (Proxy_dns name ip arg pcb connect) w =
     w\<lparr>w_proxy := on_resolved name ip arg pcb connect (w_proxy w)\<rparr>"

definition stack_runs :: "awg_config \<Rightarrow> stack_event list \<Rightarrow> world \<Rightarrow> world" where
  "stack_runs cfg evs w = fold (run_event cfg) evs w"

section \<open>The environment of a pass\<close>

text \<open>A datagram \<open>recvfrom\<close> returned: its bytes, whether the whole source address was filled in, the address and port,
  the clock, whether lwIP had a pbuf for it, and what the stack did with it.\<close>

record rx_datagram =
  rx_bytes :: bytes
  rx_from_full :: bool
  rx_addr :: u32
  rx_port :: u16
  rx_now :: u64
  rx_alloc :: bool
  rx_taken :: bool
  rx_events :: "stack_event list"

record main_env =
  me_now :: u64
  me_log_range :: "(int \<times> int \<times> int) option"
  me_log_query :: "int \<Rightarrow> int \<Rightarrow> play_event list option"
  me_socket :: int
  me_listen :: int
  me_wall :: u64
  me_time :: u64
  me_send :: "errno option"
  me_added :: bool
  me_listen_up :: int
  me_http_now :: u64
  me_pcb :: "nat option"
  me_connect :: err_t
  me_fetch_events :: "stack_event list"
  me_poll :: poll_env
  me_poll_events :: "stack_event list"
  me_plain_ready :: bool
  me_plain_revents :: int
  me_rx :: "rx_datagram list"
  me_timer_events :: "stack_event list"
  me_status_check :: u64
  me_status_now :: u64

section \<open>The passes of the loop\<close>

definition power_step :: "main_env \<Rightarrow> world \<Rightarrow> world" where
  "power_step m w =
     (let now = me_now m
      in if now \<ge> w_next_power w then
           let w = w\<lparr>w_next_power := now + 1000\<rparr>;
               (p, slept) = awg_power_transition (me_log_range m) (me_log_query m) (w_power w);
               w = w\<lparr>w_power := p\<rparr>
           in if slept then
                let w = w\<lparr>w_unreachable_since := 0\<rparr>
                in if s_established (w_sess w) \<and> \<not> w_tunnel_lost w then
                     let w = w\<lparr>w_suspends := w_suspends w + 1, w_proxy := awg_proxy_stop (w_proxy w)\<rparr>;
                         w = (if w_fd w \<ge> 0 then do_act [Close_sock (w_fd w)] w else w);
                         w = w\<lparr>w_fd := -1, w_netif := awg_netif_set_fd (-1) (w_netif w)\<rparr>
                     in w\<lparr>w_sess := awg_session_wipe, w_tunnel_lost := True\<rparr>
                   else w
              else w
         else w)"

text \<open>The resolver given to the proxy; \<open>dns\<close> is an array of zeros beyond its \<open>dns_n\<close> entries.\<close>

definition resolver :: "awg_config \<Rightarrow> u32" where
  "resolver cfg =
     (case cfg_dns cfg of a # b # _ \<Rightarrow> b | [a] \<Rightarrow> a | [] \<Rightarrow> 0)"

definition rebuild_step :: "awg_config \<Rightarrow> main_env \<Rightarrow> world \<Rightarrow> world" where
  "rebuild_step cfg m w =
     (let now = me_now m
      in if w_tunnel_lost w \<and> now \<ge> w_next_rebuild w then
           let w = w\<lparr>w_next_rebuild := now + 3000\<rparr>;
               w = w\<lparr>w_proxy := awg_proxy_stop (w_proxy w)\<rparr>;
               w = (if w_fd w \<ge> 0 then do_act [Close_sock (w_fd w)] w else w);
               w = do_act [New_sock (me_socket m)] (w\<lparr>w_fd := me_socket m\<rparr>)
           in if w_fd w < 0 then w
              else
                let w = w\<lparr>w_rebuilds := w_rebuilds w + 1, w_netif := awg_netif_set_fd (w_fd w) (w_netif w)\<rparr>;
                    (s, e) = awg_session_init cfg (w_entropy w);
                    w = w\<lparr>w_sess := s, w_entropy := e, w_http := (http_reset (w_http w))\<lparr>h_state := HTTP_IDLE\<rparr>,
                          w_next_fetch := 0, w_tunnel_lost := False, w_unreachable_since := 0\<rparr>
                in if w_netif_up w
                   then w\<lparr>w_proxy := fst (awg_proxy_start (resolver cfg) (me_listen m) (w_proxy w))\<rparr>
                   else w
         else w)"

definition alive_step :: "main_env \<Rightarrow> world \<Rightarrow> world" where
  "alive_step m w =
     (if me_now m \<ge> w_next_alive w
      then do_act [Alive_mark (me_now m) (me_wall m) (w_loops w) (w_netif_up w)] (w\<lparr>w_next_alive := me_now m + 1000\<rparr>)
      else w)"

text \<open>What the result of the initiation's \<open>sendto\<close> leads to.\<close>

definition send_verdict :: "main_env \<Rightarrow> world \<Rightarrow> world" where
  "send_verdict m w =
     (case me_send m of
        None \<Rightarrow> w\<lparr>w_unreachable_since := 0\<rparr>
      | Some e \<Rightarrow>
          if sock_is_dead e then (if \<not> w_tunnel_lost w then w\<lparr>w_tunnel_lost := True\<rparr> else w)
          else if e = ENETUNREACH \<or> e = ENETDOWN then
            (if w_unreachable_since w = 0 then w\<lparr>w_unreachable_since := me_now m\<rparr>
             else if me_now m - w_unreachable_since w > 30000 \<and> \<not> w_tunnel_lost w
                  then w\<lparr>w_tunnel_lost := True, w_unreachable_since := 0\<rparr>
                  else w)
          else w)"

definition handshake_step :: "awg_config \<Rightarrow> main_env \<Rightarrow> world \<Rightarrow> world" where
  "handshake_step cfg m w =
     (if w_fd w < 0 then w
      else if awg_session_needs_handshake (w_sess w) (me_now m) then
        (case awg_session_build_initiation (w_sess w) cfg 4096 (me_now m) (me_time m) (w_entropy w) of
           (s, out, e) \<Rightarrow>
             let w = w\<lparr>w_sess := s, w_entropy := e\<rparr>
             in case out of
                  None \<Rightarrow> w
                | Some msg \<Rightarrow>
                    if msg = [] then w
                    else
                      let (junk, e) = awg_junk_packets cfg 128 16 (w_entropy w);
                          w = do_act (map (Sendto (w_fd w)) junk @ [Sendto (w_fd w) msg]) (w\<lparr>w_entropy := e\<rparr>)
                      in send_verdict m w)
      else if awg_session_needs_keepalive (w_sess w) (me_now m) then
        (case awg_session_build_keepalive (w_sess w) cfg 4096 (me_now m) (w_entropy w) of
           (s, r, e) \<Rightarrow>
             let w = w\<lparr>w_sess := s, w_entropy := e\<rparr>
             in case r of
                  Done out \<Rightarrow> (if out \<noteq> [] then do_act [Sendto (w_fd w) out] w else w)
                | Rejected \<Rightarrow> w
                | Fault \<Rightarrow> w\<lparr>w_fault := True\<rparr>)
      else w)"

text \<open>\<open>peer\<close> is the endpoint's address as \<open>sockaddr_in\<close> bytes.\<close>

definition bring_up_step :: "awg_config \<Rightarrow> bytes \<Rightarrow> main_env \<Rightarrow> world \<Rightarrow> world" where
  "bring_up_step cfg peer m w =
     (if s_established (w_sess w) \<and> \<not> w_netif_up w then
        (case awg_netif_start cfg (w_fd w) peer (me_added m) (w_netif w) of
           (n, ok) \<Rightarrow>
             let w = w\<lparr>w_netif := n\<rparr>
             in if ok then
                  w\<lparr>w_netif_up := True,
                    w_proxy := fst (awg_proxy_start (resolver cfg) (me_listen_up m) (w_proxy w))\<rparr>
                else w)
      else w)"

definition FETCH_EVERY_MS :: u64 where
  "FETCH_EVERY_MS = 300000"

definition fetch_step :: "awg_config \<Rightarrow> main_env \<Rightarrow> world \<Rightarrow> world" where
  "fetch_step cfg m w =
     (if w_netif_up w \<and> s_established (w_sess w) \<and> \<not> http_busy (w_http w) \<and> me_now m \<ge> w_next_fetch w then
        let w = w\<lparr>w_fetches := w_fetches w + 1\<rparr>;
            w = w\<lparr>w_http := fst (http_start (me_http_now m) (me_pcb m) (me_connect m) (w_http w))\<rparr>;
            w = stack_runs cfg (me_fetch_events m) w
        in w\<lparr>w_next_fetch := me_now m + FETCH_EVERY_MS\<rparr>
      else w)"

definition report_step :: "world \<Rightarrow> world" where
  "report_step w =
     (if h_state (w_http w) = HTTP_DONE \<or> h_state (w_http w) = HTTP_FAILED then
        let w = (if h_state (w_http w) = HTTP_DONE then w\<lparr>w_fetches_ok := w_fetches_ok w + 1\<rparr> else w)
        in w\<lparr>w_http := (http_reset (w_http w))\<lparr>h_state := HTTP_IDLE\<rparr>\<rparr>
      else w)"

text \<open>The wait, and \<open>udp_revents\<close>.\<close>

definition wait_step :: "awg_config \<Rightarrow> main_env \<Rightarrow> world \<Rightarrow> world \<times> int" where
  "wait_step cfg m w =
     (if w_fd w < 0 then (do_act [Sleep_100ms] w, 0)
      else if w_netif_up w then
        (case awg_proxy_poll 100 (w_fd w) (me_poll m) (w_proxy w) of
           (p, r) \<Rightarrow> (stack_runs cfg (me_poll_events m) (w\<lparr>w_proxy := p\<rparr>), r))
      else (w, if me_plain_ready m then me_plain_revents m else 0))"

definition POLLIN :: int where "POLLIN = 0x01"

definition POLL_BAD :: int where
  "POLL_BAD = 0x08 OR 0x10 OR 0x20"

definition dead_step :: "int \<Rightarrow> world \<Rightarrow> world" where
  "dead_step revents w =
     (if revents AND POLL_BAD \<noteq> 0 then (if \<not> w_tunnel_lost w then w\<lparr>w_tunnel_lost := True\<rparr> else w) else w)"

text \<open>\<open>from_peer\<close>: the source check of the receive loop; \<open>dst\<close> is the endpoint.\<close>

definition from_peer :: "u32 \<times> u16 \<Rightarrow> rx_datagram \<Rightarrow> bool" where
  "from_peer dst d \<longleftrightarrow> \<not> (\<not> rx_from_full d \<or> rx_addr d \<noteq> fst dst \<or> rx_port d \<noteq> snd dst)"

definition recv_one :: "awg_config \<Rightarrow> u32 \<times> u16 \<Rightarrow> rx_datagram \<Rightarrow> world \<Rightarrow> world" where
  "recv_one cfg dst d w =
     (if \<not> from_peer dst d then w\<lparr>w_stray := w_stray w + 1\<rparr>
      else
        (case awg_session_on_datagram (w_globals w) (w_sess w) cfg (rx_bytes d) 2048 (rx_now d) of
           (s, g, _, r) \<Rightarrow>
             let w = w\<lparr>w_sess := s, w_globals := g\<rparr>
             in case r of
                  None \<Rightarrow> w\<lparr>w_fault := True\<rparr>
                | Some (res, payload) \<Rightarrow>
                    if res = AWG_RX_PAYLOAD then
                      (case awg_netif_input (w_netif w) payload (rx_alloc d) (rx_taken d) of
                         None \<Rightarrow> w
                       | Some pkt \<Rightarrow> stack_runs cfg (rx_events d) (do_act [To_stack pkt] w))
                    else w))"

text \<open>At most 64 datagrams; an empty one ends the loop, as an error or an empty queue does.  \<open>recvfrom\<close> cuts
  a datagram at the size of \<open>g_rx\<close>.\<close>

definition recv_batch :: "rx_datagram list \<Rightarrow> rx_datagram list" where
  "recv_batch ds =
     takeWhile (\<lambda>d. rx_bytes d \<noteq> []) (take 64 (map (\<lambda>d. d\<lparr>rx_bytes := take 4096 (rx_bytes d)\<rparr>) ds))"

definition recv_step :: "awg_config \<Rightarrow> u32 \<times> u16 \<Rightarrow> int \<Rightarrow> main_env \<Rightarrow> world \<Rightarrow> world" where
  "recv_step cfg dst revents m w =
     (if revents AND POLLIN \<noteq> 0 then fold (recv_one cfg dst) (recv_batch (me_rx m)) w else w)"

definition timer_step :: "awg_config \<Rightarrow> main_env \<Rightarrow> world \<Rightarrow> world" where
  "timer_step cfg m w = (if awg_netif_poll (w_netif w) then stack_runs cfg (me_timer_events m) w else w)"

text \<open>A rate from two readings of a counter that may have started over.\<close>

definition rate_since :: "u32 \<Rightarrow> u32 \<Rightarrow> u32" where
  "rate_since before now = (if now \<ge> before then now - before else 0)"

text \<open>The status line: what it reads and keeps.  The result has the two rates and whether a new replay is reported.\<close>

definition status_step :: "main_env \<Rightarrow> world \<Rightarrow> world \<times> (u32 \<times> u32 \<times> bool) option" where
  "status_step m w =
     (if me_status_check m \<ge> w_next_status w then
        let now_pkts = s_packets_rx (w_sess w);
            now_kb = ucast (n_bytes_down (awg_proxy_get_stats (w_proxy w)) div 1024);
            d_pkts = rate_since (w_last_rx_pkts w) now_pkts;
            d_kb = rate_since (w_last_down_kb w) now_kb;
            w = w\<lparr>w_last_rx_pkts := now_pkts, w_last_down_kb := now_kb\<rparr>;
            news = s_replays_dropped (w_sess w) > w_reported w;
            w = w\<lparr>w_reported := s_replays_dropped (w_sess w)\<rparr>
        in (w\<lparr>w_next_status := me_status_now m + 15000\<rparr>, Some (d_kb div 15, d_pkts div 15, news))
      else (w, None))"

definition main_pass :: "awg_config \<Rightarrow> bytes \<Rightarrow> u32 \<times> u16 \<Rightarrow> main_env \<Rightarrow> world \<Rightarrow> world" where
  "main_pass cfg peer dst m w =
     (let w = w\<lparr>w_loops := w_loops w + 1\<rparr>;
          w = power_step m w;
          w = rebuild_step cfg m w;
          w = alive_step m w;
          w = handshake_step cfg m w;
          w = bring_up_step cfg peer m w;
          w = fetch_step cfg m w;
          w = report_step w;
          (w, revents) = wait_step cfg m w;
          w = dead_step revents w;
          w = recv_step cfg dst revents m w;
          w = timer_step cfg m w;
          (w, _) = status_step m w
      in w)"

text \<open>The state when the loop is entered: \<open>p\<close> is what \<open>__appInit\<close> left of the power module, \<open>prx\<close> the proxy's statics,
  \<open>fd\<close> the first socket.\<close>

definition main_start :: "awg_config \<Rightarrow> power \<Rightarrow> proxy \<Rightarrow> int \<Rightarrow> replay_globals \<Rightarrow> entropy \<Rightarrow> world option" where
  "main_start cfg p prx fd g e =
     (if fd < 0 then None
      else
        let (s, e) = awg_session_init cfg e
        in Some \<lparr>w_fd = fd, w_sess = s, w_globals = g, w_entropy = e, w_power = p, w_netif = netif_static, w_proxy = prx,
             w_http = http_static, w_netif_up = False, w_tunnel_lost = False, w_unreachable_since = 0, w_next_rebuild = 0,
             w_next_power = 0, w_next_fetch = 0, w_next_status = 0, w_next_alive = 0, w_loops = 0, w_rebuilds = 0,
             w_suspends = 0, w_fetches = 0, w_fetches_ok = 0, w_stray = 0, w_last_rx_pkts = 0, w_last_down_kb = 0,
             w_reported = 0, w_fault = False, w_acts = [New_sock fd]\<rparr>)"

end
