(* ===== verification/Proxy_Correct.thy ===== *)
theory Proxy_Correct
  imports Proxy
begin

text \<open>
  Correctness of the proxy.  One connection's life is an abstract step relation on its slot; every operation of
  the code is shown to be a sequence of such steps (the refinement), and what holds along the steps of a slot,
  with the calls made for it, then holds of every reachable table.  Three such invariants are established:
  the shape of a slot with the host names it may have, the two byte streams, and the client's descriptor.
\<close>

section \<open>The life of a slot\<close>

definition good_host :: "string \<Rightarrow> bool" where
  "good_host h \<longleftrightarrow> (\<exists>raw. host_normalise raw = Some h) \<and> \<not> host_denied h"

inductive conn_step :: "nat \<Rightarrow> conn_t \<Rightarrow> call list \<Rightarrow> conn_t \<Rightarrow> bool" where
  open_slot: "c_st c = ST_FREE \<Longrightarrow> fd \<ge> 0 \<Longrightarrow>
     conn_step i c [Opened i fd] (conn_zero\<lparr>c_cfd := fd, c_st := ST_SNIFF, c_last_ms := t\<rparr>)"
| close_slot: "c_st c \<noteq> ST_FREE \<Longrightarrow>
     conn_step i c (aborts @ (if c_cfd c \<ge> 0 then [Closed_fd i (c_cfd c)] else [])) conn_zero"
  if "aborts = [] \<or> (\<exists>b. aborts = [Aborted i b])"
| got: "c_st c \<noteq> ST_FREE \<Longrightarrow> length (c_up c) + length b \<le> BUF_SIZE \<Longrightarrow>
     conn_step i c [Got i b] (c\<lparr>c_up := c_up c @ b, c_last_ms := t\<rparr>)"
| shut_tx: "c_st c \<noteq> ST_FREE \<Longrightarrow> conn_step i c [Shut_tx i] c"
| named: "c_st c = ST_SNIFF \<Longrightarrow> good_host h \<Longrightarrow>
     conn_step i c [Ask_dns i h] (c\<lparr>c_host := h, c_st := ST_RESOLVING\<rparr>)"
| connecting: "c_st c = ST_RESOLVING \<Longrightarrow>
     conn_step i c [Connect i b a] (c\<lparr>c_pcb := Some b, c_st := ST_CONNECTING\<rparr>)"
| connected: "c_st c = ST_CONNECTING \<Longrightarrow> conn_step i c [] (c\<lparr>c_st := ST_RELAY\<rparr>)"
| arrived: "c_st c = ST_RELAY \<Longrightarrow> conn_step i c [Arrived i ps] (c\<lparr>c_rx := c_rx c @ ps\<rparr>)"
| finished: "c_st c = ST_RELAY \<Longrightarrow> conn_step i c [] (c\<lparr>c_peer_closed := True\<rparr>)"
| wrote: "c_st c \<noteq> ST_FREE \<Longrightarrow> c_pcb c \<noteq> None \<Longrightarrow> n \<le> length (c_up c) \<Longrightarrow>
     conn_step i c [Wrote i (take n (c_up c))] (c\<lparr>c_up := drop n (c_up c), c_last_ms := t\<rparr>)"
| drained: "c_st c \<noteq> ST_FREE \<Longrightarrow> pump_down_loop (c_rx c) (c_rx_off c) rs = (rx, off, sent, failed) \<Longrightarrow>
     conn_step i c (concat (map (down_calls i (c_pcb c)) sent)) (c\<lparr>c_rx := rx, c_rx_off := off, c_last_ms := t\<rparr>)"

text \<open>A step of the table: one slot moves and its calls are made, or a call is made that belongs to no slot.\<close>

fun call_slot :: "call \<Rightarrow> nat option" where
  "call_slot (Opened i _) = Some i" | "call_slot (Got i _) = Some i" | "call_slot (Arrived i _) = Some i"
| "call_slot (Wrote i _) = Some i" | "call_slot (Sent_down i _) = Some i" | "call_slot (Recved i _) = Some i"
| "call_slot (Shut_tx i) = Some i" | "call_slot (Ask_dns i _) = Some i" | "call_slot (Connect i _ _) = Some i"
| "call_slot (Aborted i _) = Some i" | "call_slot (Closed_fd i _) = Some i" | "call_slot (Refused_fd _) = None"
| "call_slot (Poll_wait _ _) = None" | "call_slot (Set_dns _) = None" | "call_slot (Closed_listener _) = None"

type_synonym table = "conn_t list \<times> call list"

inductive tstep :: "table \<Rightarrow> table \<Rightarrow> bool" where
  slot: "i < length cs \<Longrightarrow> conn_step i (cs ! i) calls c' \<Longrightarrow> tstep (cs, out) (cs[i := c'], out @ calls)"
| other: "list_all (\<lambda>c. call_slot c = None) calls \<Longrightarrow> tstep (cs, out) (cs, out @ calls)"

definition table_of :: "proxy \<Rightarrow> table" where
  "table_of p = (p_conn p, p_out p)"

abbreviation tsteps :: "table \<Rightarrow> table \<Rightarrow> bool" where
  "tsteps \<equiv> tstep\<^sup>*\<^sup>*"

lemma table_simps [simp]:
  "p_conn (emit cs p) = p_conn p" "p_out (emit cs p) = p_out p @ cs"
  "p_conn (put_conn i c p) = (p_conn p)[i := c]" "p_out (put_conn i c p) = p_out p"
  "p_conn (stat f p) = p_conn p" "p_out (stat f p) = p_out p"
  "p_listen (emit cs p) = p_listen p" "p_listen (put_conn i c p) = p_listen p" "p_listen (stat f p) = p_listen p"
  "p_conn (count_failed p) = p_conn p" "p_out (count_failed p) = p_out p"
  "p_conn (count_denied p) = p_conn p" "p_out (count_denied p) = p_out p"
  by (simp_all add: emit_def put_conn_def stat_def count_failed_def count_denied_def)

lemma slot_steps:
  assumes "conn_step i (conn_at p i) calls c'" "i < length (p_conn p)"
    and "p_conn p' = (p_conn p)[i := c']" "p_out p' = p_out p @ calls"
  shows "tsteps (table_of p) (table_of p')"
  using tstep.slot [OF assms(2,1), of "p_out p"] assms(3,4) by (simp add: table_of_def r_into_rtranclp)

lemma same_steps: "p_conn p' = p_conn p \<Longrightarrow> p_out p' = p_out p \<Longrightarrow> tsteps (table_of p) (table_of p')"
  by (simp add: table_of_def)

lemma tsteps_length: "tsteps a b \<Longrightarrow> length (fst b) = length (fst a)"
  by (induction rule: rtranclp_induct) (auto elim!: tstep.cases)

section \<open>Each operation is a sequence of steps\<close>

lemma close_steps:
  assumes "i < length (p_conn p)" shows "tsteps (table_of p) (table_of (conn_close i why p))"
proof (cases "c_st (conn_at p i) = ST_FREE")
  case False
  show ?thesis
  proof (rule slot_steps [OF conn_step.close_slot [OF _ False] assms])
    show "(case c_pcb (conn_at p i) of None \<Rightarrow> [] | Some b \<Rightarrow> [Aborted i b]) = [] \<or>
        (\<exists>b. (case c_pcb (conn_at p i) of None \<Rightarrow> [] | Some b \<Rightarrow> [Aborted i b]) = [Aborted i b])"
      by (cases "c_pcb (conn_at p i)") auto
  qed (use False in \<open>auto simp: conn_close_def Let_def split: option.split\<close>)
qed (simp add: conn_close_def)

text \<open>A close through a slot that was only relabelled: host and pcb changed, nothing else.\<close>

lemma relabel_close_steps:
  assumes i: "i < length (p_conn p)" and st: "c_st (conn_at p i) \<noteq> ST_FREE"
    and q: "p_conn q = (p_conn p)[i := c']" "p_out q = p_out p" "c_st c' \<noteq> ST_FREE" "c_cfd c' = c_cfd (conn_at p i)"
  shows "tsteps (table_of p) (table_of (conn_close i why q))"
proof (rule slot_steps [OF conn_step.close_slot [OF _ st] i])
  show "(case c_pcb c' of None \<Rightarrow> [] | Some b \<Rightarrow> [Aborted i b]) = [] \<or>
      (\<exists>b. (case c_pcb c' of None \<Rightarrow> [] | Some b \<Rightarrow> [Aborted i b]) = [Aborted i b])"
    by (cases "c_pcb c'") auto
qed (use i st q in \<open>auto simp: conn_close_def Let_def split: option.split\<close>)

lemma then_close:
  assumes "tsteps (table_of p) (table_of q)" "i < length (p_conn p)"
  shows "tsteps (table_of p) (table_of (conn_close i why q))"
  using assms close_steps [of i q why] tsteps_length [OF assms(1)]
  by (auto simp: table_of_def intro: rtranclp_trans)

lemma steps_trans: "tsteps (table_of p) (table_of q) \<Longrightarrow> tsteps (table_of q) (table_of r) \<Longrightarrow> tsteps (table_of p) (table_of r)"
  by (rule rtranclp_trans)

lemma recv_steps:
  assumes "i < length (p_conn p)" "c_st (conn_at p i) = ST_RELAY"
  shows "tsteps (table_of p) (table_of (fst (on_recv (Some i) pb err p)))"
proof (cases pb)
  case None
  show ?thesis
    by (rule slot_steps [OF conn_step.finished [OF assms(2)] assms(1)]) (simp_all add: None on_recv_def)
next
  case (Some ps)
  show ?thesis
  proof (cases "err = ERR_OK")
    case True
    show ?thesis
      by (rule slot_steps [OF conn_step.arrived [OF assms(2), of i ps] assms(1)]) (simp_all add: True Some on_recv_def)
  qed (simp add: Some on_recv_def)
qed

lemma err_steps:
  assumes "i < length (p_conn p)" "c_st (conn_at p i) \<noteq> ST_FREE"
  shows "tsteps (table_of p) (table_of (on_err (Some i) p))"
  unfolding on_err_def
  by (simp, rule relabel_close_steps [OF assms, where c' = "(conn_at p i)\<lparr>c_pcb := None\<rparr>"]) (use assms in simp_all)

lemma connected_steps:
  assumes "i < length (p_conn p)" "c_st (conn_at p i) = ST_CONNECTING"
  shows "tsteps (table_of p) (table_of (fst (on_connected (Some i) err p)))"
proof (cases "err = ERR_OK")
  case True
  show ?thesis
    by (rule slot_steps [OF conn_step.connected [OF assms(2)] assms(1)]) (simp_all add: True on_connected_def)
next
  case False
  then show ?thesis
    using then_close [OF same_steps [of "count_failed p" p] assms(1)] by (simp add: on_connected_def)
qed

lemma resolved_steps:
  assumes i: "i < length (p_conn p)"
  shows "tsteps (table_of p) (table_of (on_resolved name ip (Some i) pcb conn p))"
proof (cases "c_st (conn_at p i) = ST_RESOLVING")
  case True
  then have st: "c_st (conn_at p i) \<noteq> ST_FREE" by simp
  show ?thesis
  proof (cases ip)
    case None
    with True show ?thesis
      using then_close [OF same_steps [of "count_failed p" p] i] by (simp add: on_resolved_def)
  next
    case (Some a)
    show ?thesis
    proof (cases pcb)
      case None
      show ?thesis
        unfolding on_resolved_def None Some using True
        by (simp add: Let_def, intro relabel_close_steps [OF i st, where c' = "(conn_at p i)\<lparr>c_pcb := None\<rparr>"])
          (use i True in simp_all)
    next
      case (Some b)
      define q where "q = emit [Connect i b a] (put_conn i ((conn_at p i)\<lparr>c_pcb := Some b, c_st := ST_CONNECTING\<rparr>)
        (stat (\<lambda>s. s\<lparr>n_resolved := n_resolved s + 1\<rparr>) p))"
      have pq: "tsteps (table_of p) (table_of q)"
        by (rule slot_steps [OF conn_step.connecting [OF True, of i b a] i]) (simp_all add: q_def)
      have "on_resolved name ip (Some i) pcb conn p = (if conn \<noteq> ERR_OK then conn_close i True (count_failed q) else q)"
        using True Some \<open>ip = Some a\<close> by (simp add: on_resolved_def q_def Let_def)
      with pq then_close [OF steps_trans [OF pq same_steps [of "count_failed q"]] i] show ?thesis by simp
    qed
  qed
qed (simp add: on_resolved_def)

lemma pump_up_steps:
  assumes i: "i < length (p_conn p)" and st: "c_st (conn_at p i) \<noteq> ST_FREE"
  shows "tsteps (table_of p) (table_of (pump_up i room ok now p))"
proof (cases "c_up (conn_at p i) = [] \<or> c_pcb (conn_at p i) = None \<or> room = 0 \<or> \<not> ok")
  case False
  let ?c = "conn_at p i"
  have "conn_step i ?c [Wrote i (take (if length (c_up ?c) < room then length (c_up ?c) else room) (c_up ?c))]
      (?c\<lparr>c_up := drop (if length (c_up ?c) < room then length (c_up ?c) else room) (c_up ?c), c_last_ms := now\<rparr>)"
    using False st by (intro conn_step.wrote) auto
  then show ?thesis
    by (rule slot_steps [OF _ i]) (use False in \<open>auto simp: pump_up_def Let_def\<close>)
qed (auto simp: pump_up_def Let_def)

lemma pump_down_steps:
  assumes i: "i < length (p_conn p)" and st: "c_st (conn_at p i) \<noteq> ST_FREE"
  shows "tsteps (table_of p) (table_of (pump_down i rs now p))"
proof -
  let ?c = "conn_at p i"
  obtain rx off sent failed where l: "pump_down_loop (c_rx ?c) (c_rx_off ?c) rs = (rx, off, sent, failed)"
    by (metis surj_pair)
  define q where "q = stat (\<lambda>s. s\<lparr>n_bytes_down := n_bytes_down s + of_nat (length (concat sent))\<rparr>)
    (put_conn i (?c\<lparr>c_rx := rx, c_rx_off := off, c_last_ms := (if sent = [] then c_last_ms ?c else now)\<rparr>)
      (emit (concat (map (down_calls i (c_pcb ?c)) sent)) p))"
  have pq: "tsteps (table_of p) (table_of q)"
    by (rule slot_steps [OF conn_step.drained [OF st l, of i "if sent = [] then c_last_ms ?c else now"] i])
      (simp_all add: q_def)
  have "pump_down i rs now p = (if failed then conn_close i True q else q)"
    unfolding pump_down_def Let_def l q_def by simp
  with pq then_close [OF pq i] show ?thesis by simp
qed

lemma sniff_steps:
  assumes i: "i < length (p_conn p)" and st: "c_st (conn_at p i) = ST_SNIFF"
  shows "tsteps (table_of p) (table_of (sniff i d p))"
proof (cases "sni_hostname (c_up (conn_at p i)) 128")
  case (Done name)
  have st': "c_st (conn_at p i) \<noteq> ST_FREE" using st by simp
  show ?thesis
  proof (cases "host_normalise (cstr (map (\<lambda>b. char_of (unat b)) name))")
    case None
    show ?thesis
      unfolding sniff_def Done outcome.case None option.case
      by (rule relabel_close_steps [OF i st', where c' = "(conn_at p i)\<lparr>c_host := []\<rparr>"]) (use i st in simp_all)
  next
    case (Some host)
    show ?thesis
    proof (cases "host_denied host")
      case True
      show ?thesis
        unfolding sniff_def Done outcome.case Some option.case Let_def if_P [OF True]
        by (rule relabel_close_steps [OF i st', where c' = "(conn_at p i)\<lparr>c_host := host\<rparr>"]) (use i st in simp_all)
    next
      case False
      define q where "q = emit [Ask_dns i host] (put_conn i ((conn_at p i)\<lparr>c_host := host, c_st := ST_RESOLVING\<rparr>) p)"
      have pp: "put_conn i ((conn_at (put_conn i ((conn_at p i)\<lparr>c_host := host\<rparr>) p) i)\<lparr>c_st := ST_RESOLVING\<rparr>)
          (put_conn i ((conn_at p i)\<lparr>c_host := host\<rparr>) p) =
        put_conn i ((conn_at p i)\<lparr>c_host := host, c_st := ST_RESOLVING\<rparr>) p"
        using i by (simp add: put_conn_def)
      have good: "good_host host" using Some False by (auto simp: good_host_def)
      have pq: "tsteps (table_of p) (table_of q)"
        by (rule slot_steps [OF conn_step.named [OF st good] i]) (simp_all add: q_def)
      have li: "i < length (p_conn q)" using i by (simp add: q_def)
      have "sniff i d p = (case de_err d of
          ERR_OK \<Rightarrow> on_resolved host (Some (de_ip d)) (Some i) (de_pcb d) (de_connect d) q
        | ERR_INPROGRESS \<Rightarrow> q | _ \<Rightarrow> conn_close i True (count_failed q))"
        unfolding sniff_def Done outcome.case Some option.case Let_def if_not_P [OF False] q_def pp ..
      with pq steps_trans [OF pq resolved_steps [OF li]] then_close [OF steps_trans [OF pq same_steps [of "count_failed q"]] i]
      show ?thesis by (cases "de_err d") auto
    qed
  qed
qed (simp_all add: sniff_def close_steps i)

lemma readable_steps:
  assumes i: "i < length (p_conn p)" and st: "c_st (conn_at p i) \<noteq> ST_FREE"
  shows "tsteps (table_of p) (table_of (handle_client_readable i r d now p))"
proof -
  let ?c = "conn_at p i"
  have shut: "tsteps (table_of p) (table_of (emit [Shut_tx i] p))"
    by (rule slot_steps [OF conn_step.shut_tx [OF st] i]) (use i in simp_all)
  show ?thesis
  proof (cases "int BUF_SIZE - int (length (c_up ?c)) \<le> 0")
    case True
    then show ?thesis by (simp add: handle_client_readable_def Let_def)
  next
    case room: False
    show ?thesis
    proof (cases r)
      case (Data b0)
      define b where "b = take (nat (int BUF_SIZE - int (length (c_up ?c)))) b0"
      define q where "q = put_conn i (?c\<lparr>c_up := c_up ?c @ b, c_last_ms := now\<rparr>) (emit [Got i b] p)"
      have "length (c_up ?c) + length b \<le> BUF_SIZE" using room by (simp add: b_def)
      then have pq: "tsteps (table_of p) (table_of q)"
        by (rule slot_steps [OF conn_step.got [OF st, of b i now] i]) (simp_all add: q_def)
      have "tsteps (table_of p) (table_of (sniff i d q))" if "c_st ?c = ST_SNIFF"
        by (rule steps_trans [OF pq sniff_steps]) (use i that in \<open>simp_all add: q_def\<close>)
      moreover have "handle_client_readable i r d now p =
          (if b = [] then (if c_pcb ?c \<noteq> None \<and> c_up ?c = [] then emit [Shut_tx i] p else p)
           else if c_st ?c = ST_SNIFF then sniff i d q else q)"
        unfolding handle_client_readable_def Let_def Data recv_result.case if_not_P [OF room] b_def [symmetric] q_def ..
      ultimately show ?thesis using pq shut by simp
    qed (use room shut close_steps [OF i] in \<open>simp_all add: handle_client_readable_def Let_def\<close>)
  qed
qed

lemma fold_steps:
  assumes "\<And>x q. x \<in> set xs \<Longrightarrow> length (p_conn q) = length (p_conn p) \<Longrightarrow> tsteps (table_of q) (table_of (f x q))"
  shows "tsteps (table_of p) (table_of (fold f xs p))"
  using assms
proof (induction xs arbitrary: p)
  case (Cons x xs)
  have s: "tsteps (table_of p) (table_of (f x p))" using Cons.prems by simp
  then have "length (p_conn (f x p)) = length (p_conn p)" using tsteps_length by (fastforce simp: table_of_def)
  with Cons.IH [of "f x p"] Cons.prems s show ?case by (auto intro: rtranclp_trans)
qed simp

lemma conn_alloc_Some:
  assumes "conn_alloc p = Some (i, q)"
  shows "i < MAX_CONN \<and> c_st (conn_at p i) = ST_FREE \<and> q = put_conn i conn_zero p"
  using assms by (auto simp: conn_alloc_def find_Some_iff split: option.splits)

lemma accept_steps:
  assumes "length (p_conn p) = MAX_CONN" shows "tsteps (table_of p) (table_of (poll_accept e p))"
proof (cases "pe_listen e \<and> pe_accept e \<ge> 0")
  case True
  show ?thesis
  proof (cases "conn_alloc p")
    case None
    have "tsteps (table_of p) (table_of (emit [Refused_fd (pe_accept e)] p))"
      using tstep.other [of "[Refused_fd (pe_accept e)]" "p_conn p" "p_out p"] by (auto simp: table_of_def)
    with True None show ?thesis
      using steps_trans [OF _ same_steps] by (simp add: poll_accept_def)
  next
    case (Some r)
    obtain i q where r: "r = (i, q)" by fastforce
    note a = conn_alloc_Some [OF Some [unfolded r]]
    from True have fd: "pe_accept e \<ge> 0" by simp
    have i: "i < length (p_conn p)" using a assms by simp
    from a have st: "c_st (conn_at p i) = ST_FREE" by simp
    show ?thesis
      by (rule slot_steps [OF conn_step.open_slot [OF st fd, of i "pe_now e"] i])
        (use a assms True Some r in \<open>simp_all add: poll_accept_def Let_def\<close>)
  qed
qed (auto simp: poll_accept_def)

lemma event_steps:
  assumes "fst w < length (p_conn p)" shows "tsteps (table_of p) (table_of (poll_event e w p))"
proof -
  obtain i wi wo where w: "w = (i, wi, wo)" by (rule prod_cases3)
  obtain bad out inp where r: "pe_revents e i = (bad, out, inp)" by (rule prod_cases3)
  have i: "i < length (p_conn p)" using assms w by simp
  define q where "q = (if out \<and> wo then pump_down i (pe_sends e i) (pe_now e) p else p)"
  have pq: "tsteps (table_of p) (table_of q)" if "c_st (conn_at p i) \<noteq> ST_FREE"
    using pump_down_steps [OF i that] by (simp add: q_def)
  have iq: "i < length (p_conn q)" if "c_st (conn_at p i) \<noteq> ST_FREE"
    using tsteps_length [OF pq [OF that]] i by (simp add: table_of_def)
  have e: "poll_event e w p = (if c_st (conn_at p i) = ST_FREE then p else if bad then conn_close i True p
      else if c_st (conn_at q i) \<noteq> ST_FREE \<and> inp \<and> wi
        then handle_client_readable i (pe_recv e i) (pe_dns e i) (pe_now e) q else q)"
    by (simp add: poll_event_def w r q_def Let_def)
  show ?thesis
  proof (cases "c_st (conn_at p i) = ST_FREE")
    case False
    note pq = pq [OF False] and iq = iq [OF False]
    show ?thesis
      using e False close_steps [OF i] pq steps_trans [OF pq readable_steps [OF iq]] by (auto split: if_splits)
  qed (simp add: e)
qed

lemma sweep_steps:
  assumes "length (p_conn p) = MAX_CONN" shows "tsteps (table_of p) (table_of (sweep_idle now p))"
  unfolding sweep_idle_def
proof (rule fold_steps)
  fix i and q :: proxy assume "i \<in> set [0..<MAX_CONN]" "length (p_conn q) = length (p_conn p)"
  then have i: "i < length (p_conn q)" using assms by simp
  show "tsteps (table_of q) (table_of (sweep_one now i q))"
    using then_close [OF same_steps [of "stat (\<lambda>s. s\<lparr>n_timed_out := n_timed_out s + 1\<rparr>) q" q] i]
    by (simp add: sweep_one_def Let_def)
qed

lemma pump_steps:
  assumes i: "i < length (p_conn p)" shows "tsteps (table_of p) (table_of (poll_pump e i p))"
proof (cases "c_st (conn_at p i) = ST_FREE")
  case False
  define q where "q = (if c_st (conn_at p i) = ST_RELAY
    then pump_up i (pe_room e i) (pe_write e i) (pe_now_pump e) p else p)"
  define r where "r = (if c_rx (conn_at q i) \<noteq> [] then pump_down i (pe_sends2 e i) (pe_now_pump e) q else q)"
  have pq: "tsteps (table_of p) (table_of q)" using pump_up_steps [OF i False] by (simp add: q_def)
  have iq: "i < length (p_conn q)" using tsteps_length [OF pq] i by (simp add: table_of_def)
  have sq: "c_st (conn_at q i) \<noteq> ST_FREE"
    using False i by (simp add: q_def pump_up_def Let_def)
  have qr: "tsteps (table_of q) (table_of r)" using pump_down_steps [OF iq sq] by (simp add: r_def)
  have "poll_pump e i p = (if c_peer_closed (conn_at r i) \<and> c_rx (conn_at r i) = []
      then conn_close i False (stat (\<lambda>s. s\<lparr>n_completed := n_completed s + 1\<rparr>) r) else r)"
    using False by (simp add: poll_pump_def Let_def q_def [symmetric] r_def [symmetric])
  with steps_trans [OF pq qr] then_close [OF steps_trans [OF steps_trans [OF pq qr]
        same_steps [of "stat (\<lambda>s. s\<lparr>n_completed := n_completed s + 1\<rparr>) r"]] i] show ?thesis by simp
qed (simp add: poll_pump_def)

lemma poll_steps:
  assumes n: "length (p_conn p) = MAX_CONN"
  shows "tsteps (table_of p) (table_of (fst (awg_proxy_poll t x e p)))"
proof -
  have w: "tsteps (table_of p) (table_of (emit [Poll_wait fds t'] p))" for fds t'
    using tstep.other [of "[Poll_wait fds t']" "p_conn p" "p_out p"] by (auto simp: table_of_def)
  show ?thesis
  proof (cases "p_listen p < 0")
    case True
    then show ?thesis using w by (simp add: awg_proxy_poll_def)
  next
    case False
    define ws where "ws = map (\<lambda>i. (i, wants_in (conn_at p i), wants_out (conn_at p i))) (poll_owner p)"
    define fds where "fds = p_listen p # (if x \<ge> 0 then [x] else []) @ map (\<lambda>i. c_cfd (conn_at p i)) (poll_owner p)"
    define q where "q = emit [Poll_wait fds (poll_timeout p t)] p"
    define r where "r = (if pe_ready e then fold (poll_event e) ws (poll_accept e q) else q)"
    define u where "u = sweep_idle (pe_now_sweep e) r"
    have ln: "length (p_conn b) = MAX_CONN" if "tsteps (table_of a) (table_of b)" "length (p_conn a) = MAX_CONN" for a b
      using tsteps_length [OF that(1)] that(2) by (simp add: table_of_def)
    have pq: "tsteps (table_of p) (table_of q)" by (simp add: q_def w)
    note nq = ln [OF pq n]
    have qa: "tsteps (table_of q) (table_of (poll_accept e q))" by (rule accept_steps [OF nq])
    have "tsteps (table_of (poll_accept e q)) (table_of (fold (poll_event e) ws (poll_accept e q)))"
      using ln [OF qa nq] by (intro fold_steps event_steps) (auto simp: ws_def poll_owner_def)
    then have qr: "tsteps (table_of q) (table_of r)" using steps_trans [OF qa] by (simp add: r_def)
    have ru: "tsteps (table_of r) (table_of u)"
      unfolding u_def by (rule sweep_steps [OF ln [OF qr nq]])
    have "tsteps (table_of u) (table_of (fold (poll_pump e) [0..<MAX_CONN] u))"
      using ln [OF ru ln [OF qr nq]] by (intro fold_steps pump_steps) auto
    moreover have "fst (awg_proxy_poll t x e p) = fold (poll_pump e) [0..<MAX_CONN] u"
      using False by (simp add: awg_proxy_poll_def Let_def u_def r_def q_def fds_def ws_def)
    ultimately show ?thesis
      using steps_trans [OF pq steps_trans [OF qr steps_trans [OF ru]]] by simp
  qed
qed

lemma stop_steps:
  assumes "length (p_conn p) = MAX_CONN" shows "tsteps (table_of p) (table_of (awg_proxy_stop p))"
proof -
  define q where "q = fold (\<lambda>i. conn_close i False) [0..<MAX_CONN] p"
  have pq: "tsteps (table_of p) (table_of q)"
    unfolding q_def using assms by (intro fold_steps close_steps) auto
  have "tsteps (table_of q) (table_of ((emit [Closed_listener (p_listen q)] q)\<lparr>p_listen := -1\<rparr>))"
    using tstep.other [of "[Closed_listener (p_listen q)]" "p_conn q" "p_out q"] by (auto simp: table_of_def)
  with pq steps_trans [OF pq this] show ?thesis
    by (simp add: awg_proxy_stop_def q_def [symmetric] Let_def)
qed

section \<open>Invariants of a slot\<close>

abbreviation slot_calls :: "nat \<Rightarrow> call list \<Rightarrow> call list" where
  "slot_calls i out \<equiv> filter (\<lambda>c. call_slot c = Some i) out"

lemma conn_step_calls: "conn_step i c calls c' \<Longrightarrow> list_all (\<lambda>x. call_slot x = Some i) calls"
proof (induction rule: conn_step.induct)
  case (drained c rs rx off sent failed i t)
  show ?case by (induction sent) (auto simp: down_calls_def split: option.split)
qed auto

definition table_init :: table where
  "table_init = (replicate MAX_CONN conn_zero, [])"

text \<open>What holds of a fresh slot and is kept by every step of a slot, with the calls made for the slot, holds of
  every slot of every table the steps lead to.\<close>

locale slot_invariant =
  fixes I :: "nat \<Rightarrow> conn_t \<Rightarrow> call list \<Rightarrow> bool"
  assumes fresh: "I i conn_zero []"
    and step: "conn_step i c calls c' \<Longrightarrow> I i c h \<Longrightarrow> I i c' (h @ calls)"
begin

lemma table_invariant:
  assumes "tsteps table_init t" "i < MAX_CONN"
  shows "I i (fst t ! i) (slot_calls i (snd t))"
  using assms(1)
proof (induction rule: rtranclp_induct)
  case base
  then show ?case using assms(2) by (simp add: table_init_def fresh)
next
  case (step t u)
  from step(2) show ?case
  proof cases
    case (slot j cs calls c' out)
    from conn_step_calls [OF slot(4)] have "slot_calls i calls = (if i = j then calls else [])"
      by (induction calls) auto
    with slot step(3) slot_invariant.step [OF slot_invariant_axioms slot(4)] show ?thesis
      by (cases "i = j") auto
  next
    case (other calls cs out)
    from other(3) have "slot_calls i calls = []" by (induction calls) auto
    with other step(3) show ?thesis by simp
  qed
qed

end

subsection \<open>Shape and host names\<close>

definition names_good :: "call list \<Rightarrow> bool" where
  "names_good h \<longleftrightarrow> list_all (\<lambda>c. case c of Ask_dns _ n \<Rightarrow> good_host n | _ \<Rightarrow> True) h"

definition slot_shape :: "nat \<Rightarrow> conn_t \<Rightarrow> call list \<Rightarrow> bool" where
  "slot_shape i c h \<longleftrightarrow>
     (c_st c = ST_FREE \<longrightarrow> c = conn_zero) \<and> (c_st c \<noteq> ST_FREE \<longrightarrow> 0 \<le> c_cfd c) \<and> length (c_up c) \<le> BUF_SIZE \<and>
     (c_st c \<in> {ST_SNIFF, ST_RESOLVING} \<longrightarrow> c_pcb c = None \<and> c_rx c = []) \<and>
     (c_st c = ST_CONNECTING \<longrightarrow> c_rx c = []) \<and>
     (c_st c \<in> {ST_CONNECTING, ST_RELAY} \<longrightarrow> c_pcb c \<noteq> None) \<and>
     (c_st c \<in> {ST_RESOLVING, ST_CONNECTING, ST_RELAY} \<longrightarrow> good_host (c_host c)) \<and> names_good h"

lemma names_good_append [simp]: "names_good (a @ b) \<longleftrightarrow> names_good a \<and> names_good b"
  by (simp add: names_good_def)

lemma names_good_down: "names_good (concat (map (down_calls i pcb) sent))"
  by (induction sent) (auto simp: names_good_def down_calls_def split: option.split)

lemma pump_down_loop_Nil [simp]: "pump_down_loop [] off rs = ([], off, [], False)"
  by (simp add: pump_down_loop.simps)

interpretation shape: slot_invariant slot_shape
proof
  show "slot_shape i conn_zero []" for i by (simp add: slot_shape_def conn_zero_def names_good_def)
next
  fix i c calls c' h assume "conn_step i c calls c'" "slot_shape i c h"
  then show "slot_shape i c' (h @ calls)"
  proof (induction rule: conn_step.induct)
    case (drained c rs rx off sent failed i t)
    have "c_rx c = [] \<longrightarrow> rx = []" using drained(2) by auto
    with drained(1,3) show ?case by (cases "c_st c") (simp_all add: slot_shape_def names_good_down)
  next
    case (close_slot aborts i c)
    have "names_good aborts" using close_slot(1) by (auto simp: names_good_def)
    with close_slot show ?case by (simp add: slot_shape_def conn_zero_def names_good_def)
  next
    case (wrote c n i t)
    then have "length (c_up c) \<le> BUF_SIZE" by (simp add: slot_shape_def)
    then have "length (c_up c) - n \<le> BUF_SIZE" by linarith
    with wrote show ?case by (simp add: slot_shape_def names_good_def)
  qed (simp_all add: slot_shape_def conn_zero_def names_good_def)
qed

subsection \<open>The two byte streams\<close>

text \<open>What a slot's calls since it was last opened carried: bytes read from the client and written to the tunnel,
  bytes that arrived from the tunnel and that the client took, and bytes acknowledged to the peer.\<close>

definition got_bytes :: "call list \<Rightarrow> bytes" where
  "got_bytes h = fold (\<lambda>c a. case c of Opened _ _ \<Rightarrow> [] | Got _ b \<Rightarrow> a @ b | _ \<Rightarrow> a) h []"

definition wrote_bytes :: "call list \<Rightarrow> bytes" where
  "wrote_bytes h = fold (\<lambda>c a. case c of Opened _ _ \<Rightarrow> [] | Wrote _ b \<Rightarrow> a @ b | _ \<Rightarrow> a) h []"

definition arrived_bytes :: "call list \<Rightarrow> bytes" where
  "arrived_bytes h = fold (\<lambda>c a. case c of Opened _ _ \<Rightarrow> [] | Arrived _ ps \<Rightarrow> a @ concat ps | _ \<Rightarrow> a) h []"

definition sent_bytes :: "call list \<Rightarrow> bytes" where
  "sent_bytes h = fold (\<lambda>c a. case c of Opened _ _ \<Rightarrow> [] | Sent_down _ b \<Rightarrow> a @ b | _ \<Rightarrow> a) h []"

definition acked :: "call list \<Rightarrow> nat" where
  "acked h = fold (\<lambda>c a. case c of Opened _ _ \<Rightarrow> 0 | Recved _ n \<Rightarrow> a + n | _ \<Rightarrow> a) h 0"

lemmas stream_defs = got_bytes_def wrote_bytes_def arrived_bytes_def sent_bytes_def acked_def

lemma stream_down:
  "got_bytes (h @ concat (map (down_calls i pcb) sent)) = got_bytes h"
  "wrote_bytes (h @ concat (map (down_calls i pcb) sent)) = wrote_bytes h"
  "arrived_bytes (h @ concat (map (down_calls i pcb) sent)) = arrived_bytes h"
  "sent_bytes (h @ concat (map (down_calls i pcb) sent)) = sent_bytes h @ concat sent"
  "pcb \<noteq> None \<Longrightarrow> acked (h @ concat (map (down_calls i pcb) sent)) = acked h + length (concat sent)"
proof -
  show "got_bytes (h @ concat (map (down_calls i pcb) sent)) = got_bytes h"
    "wrote_bytes (h @ concat (map (down_calls i pcb) sent)) = wrote_bytes h"
    "arrived_bytes (h @ concat (map (down_calls i pcb) sent)) = arrived_bytes h"
    "sent_bytes (h @ concat (map (down_calls i pcb) sent)) = sent_bytes h @ concat sent"
    by (induction sent arbitrary: h rule: rev_induct)
      (auto simp: stream_defs down_calls_def split: option.split)
  show "acked (h @ concat (map (down_calls i pcb) sent)) = acked h + length (concat sent)" if "pcb \<noteq> None"
    using that by (induction sent rule: rev_induct) (auto simp: stream_defs down_calls_def)
qed

definition off_ok :: "bytes list \<Rightarrow> nat \<Rightarrow> bool" where
  "off_ok rx off \<longleftrightarrow> (case rx of [] \<Rightarrow> off = 0 | b # _ \<Rightarrow> off \<le> length b)"

lemma pump_down_loop_stream:
  assumes "pump_down_loop rx off rs = (rx', off', sent, failed)" "off_ok rx off"
  shows "drop off (concat rx) = concat sent @ drop off' (concat rx') \<and> off_ok rx' off'"
  using assms
proof (induction rx off rs arbitrary: rx' off' sent failed rule: pump_down_loop.induct)
  case (1 rx off rs)
  show ?case
  proof (cases rx)
    case Nil
    with 1 show ?thesis by (simp add: off_ok_def)
  next
    case (Cons b nx)
    show ?thesis
    proof (cases "length b \<le> off")
      case True
      with 1(4) Cons have "off = length b" by (simp add: off_ok_def)
      with True 1(1) [OF Cons True] 1(3) Cons show ?thesis
        by (subst (asm) pump_down_loop.simps) (auto simp: off_ok_def split: list.splits)
    next
      case False
      have stay: ?thesis if "(rx', off', sent) = (rx, off, [])" using that 1(4) by simp
      show ?thesis
      proof (cases rs)
        case (Cons r rs')
        note rs = this
        show ?thesis
        proof (cases r)
          case (Took k)
          define n where "n = min k (length b - off)"
          obtain rx1 off1 sent1 failed1 where l: "pump_down_loop rx (off + n) rs' = (rx1, off1, sent1, failed1)"
            by (metis surj_pair)
          show ?thesis
          proof (cases "n = 0")
            case True
            with 1(3) \<open>rx = b # nx\<close> False rs Took show ?thesis
              by (intro stay) (subst (asm) pump_down_loop.simps, simp add: n_def [symmetric])
          next
            case nz: False
            have e: "rx' = rx1" "off' = off1" "sent = slice off n b # sent1"
              using 1(3) \<open>rx = b # nx\<close> False rs Took l nz
              by (subst (asm) pump_down_loop.simps, simp add: n_def [symmetric])+
            have "off_ok rx (off + n)" using False \<open>rx = b # nx\<close> by (simp add: off_ok_def n_def)
            with 1(2) [OF \<open>rx = b # nx\<close> False rs Took refl, unfolded n_def [symmetric], OF refl nz l]
            have ih: "drop (off + n) (concat rx) = concat sent1 @ drop off1 (concat rx1) \<and> off_ok rx1 off1" by simp
            have "drop off (concat rx) = slice off n b @ drop (off + n) (concat rx)"
              using \<open>rx = b # nx\<close> False
              by (simp add: slice_def n_def add.commute [of off] flip: drop_drop append_assoc)
            with ih e show ?thesis by simp
          qed
        qed (use 1(3) \<open>rx = b # nx\<close> False rs in \<open>(intro stay, subst (asm) pump_down_loop.simps, simp)+\<close>)
      qed (use 1(3) \<open>rx = b # nx\<close> False in \<open>(intro stay, subst (asm) pump_down_loop.simps, simp)\<close>)
    qed
  qed
qed

definition slot_streams :: "nat \<Rightarrow> conn_t \<Rightarrow> call list \<Rightarrow> bool" where
  "slot_streams i c h \<longleftrightarrow>
     (c_st c \<noteq> ST_FREE \<longrightarrow>
        got_bytes h = wrote_bytes h @ c_up c \<and>
        arrived_bytes h = sent_bytes h @ drop (c_rx_off c) (concat (c_rx c)) \<and> off_ok (c_rx c) (c_rx_off c) \<and>
        acked h = length (sent_bytes h) \<and> (c_st c \<in> {ST_CONNECTING, ST_RELAY} \<longrightarrow> c_pcb c \<noteq> None) \<and>
        (c_st c \<notin> {ST_CONNECTING, ST_RELAY} \<longrightarrow> c_rx c = []))"

interpretation streams: slot_invariant slot_streams
proof
  show "slot_streams i conn_zero []" for i by (simp add: slot_streams_def conn_zero_def)
next
  fix i c calls c' h assume "conn_step i c calls c'" "slot_streams i c h"
  then show "slot_streams i c' (h @ calls)"
  proof (induction rule: conn_step.induct)
    case (drained c rs rx off sent failed i t)
    then have "drop (c_rx_off c) (concat (c_rx c)) = concat sent @ drop off (concat rx) \<and> off_ok rx off"
      by (intro pump_down_loop_stream) (auto simp: slot_streams_def)
    moreover have "c_rx c = [] \<longrightarrow> rx = [] \<and> sent = []" using drained(2) by auto
    ultimately show ?case
      using drained(1,3) by (cases "c_st c") (simp_all add: slot_streams_def stream_down)
  next
    case (arrived c i ps)
    then show ?case
      by (cases "c_rx c") (auto simp: slot_streams_def stream_defs off_ok_def split: list.splits)
  qed (auto simp: slot_streams_def conn_zero_def stream_defs off_ok_def)
qed

subsection \<open>The client's descriptor\<close>

text \<open>The descriptor a slot holds after its calls: \<open>None\<close> if a descriptor was opened over another one, or one was
  closed that is not held.\<close>

fun fd_call :: "call \<Rightarrow> int option option \<Rightarrow> int option option" where
  "fd_call (Opened _ fd) (Some None) = Some (Some fd)"
| "fd_call (Opened _ fd) _ = None"
| "fd_call (Closed_fd _ fd) (Some (Some fd')) = (if fd = fd' then Some None else None)"
| "fd_call (Closed_fd _ fd) _ = None"
| "fd_call _ s = s"

definition fd_held :: "call list \<Rightarrow> int option option" where
  "fd_held h = fold fd_call h (Some None)"

definition slot_fd :: "nat \<Rightarrow> conn_t \<Rightarrow> call list \<Rightarrow> bool" where
  "slot_fd i c h \<longleftrightarrow>
     fd_held h = Some (if c_st c = ST_FREE then None else Some (c_cfd c)) \<and> (c_st c \<noteq> ST_FREE \<longrightarrow> 0 \<le> c_cfd c)"

lemma fd_held_down: "fd_held (h @ concat (map (down_calls i pcb) sent)) = fd_held h"
  by (induction sent arbitrary: h rule: rev_induct) (auto simp: fd_held_def down_calls_def split: option.split)

interpretation fds: slot_invariant slot_fd
proof
  show "slot_fd i conn_zero []" for i by (simp add: slot_fd_def fd_held_def conn_zero_def)
next
  fix i c calls c' h assume "conn_step i c calls c'" "slot_fd i c h"
  then show "slot_fd i c' (h @ calls)"
  proof (induction rule: conn_step.induct)
    case (drained c rs rx off sent failed i t)
    then show ?case by (simp add: slot_fd_def fd_held_down)
  qed (auto simp: slot_fd_def fd_held_def conn_zero_def)
qed

section \<open>Reachable states\<close>

text \<open>The file's statics before the first start.\<close>

definition proxy_static :: proxy where
  "proxy_static = \<lparr>p_conn = replicate MAX_CONN (conn_zero\<lparr>c_cfd := 0\<rparr>), p_listen = -1, p_dns_server = 0,
     p_stats = stats_zero, p_out = []\<rparr>"

text \<open>
  Any sequence of calls.  lwIP calls back with the argument that was set for the pcb, and not at all after the
  pcb was aborted: so the connected callback comes for a slot that is connecting, received data for one that is
  relaying, an error for one that is in use.  An answer of the resolver may come at any time, also for a slot
  that has been closed or reused since.
\<close>

inductive proxy_reach :: "proxy \<Rightarrow> bool" where
  start: "proxy_reach (fst (awg_proxy_start dns fd proxy_static))"
| poll: "proxy_reach p \<Longrightarrow> proxy_reach (fst (awg_proxy_poll t x e p))"
| recv: "proxy_reach p \<Longrightarrow> i < MAX_CONN \<Longrightarrow> c_st (conn_at p i) = ST_RELAY \<Longrightarrow>
    proxy_reach (fst (on_recv (Some i) pb err p))"
| conn: "proxy_reach p \<Longrightarrow> i < MAX_CONN \<Longrightarrow> c_st (conn_at p i) = ST_CONNECTING \<Longrightarrow>
    proxy_reach (fst (on_connected (Some i) err p))"
| err: "proxy_reach p \<Longrightarrow> i < MAX_CONN \<Longrightarrow> c_st (conn_at p i) \<noteq> ST_FREE \<Longrightarrow> proxy_reach (on_err (Some i) p)"
| dns: "proxy_reach p \<Longrightarrow> i < MAX_CONN \<Longrightarrow> proxy_reach (on_resolved name ip (Some i) pcb r p)"
| stop: "proxy_reach p \<Longrightarrow> proxy_reach (awg_proxy_stop p)"
| restart: "proxy_reach p \<Longrightarrow> proxy_reach (fst (awg_proxy_start dns fd (awg_proxy_stop p)))"

inductive_cases proxy_reachE: "proxy_reach p"

lemma fold_close_other:
  assumes "j \<notin> set xs" shows "conn_at (fold (\<lambda>i. conn_close i why) xs p) j = conn_at p j"
  using assms
proof (induction xs arbitrary: p)
  case (Cons x xs)
  then show ?case by (simp add: conn_close_def Let_def split: option.split)
qed simp

lemma stop_frees:
  assumes "length (p_conn p) = MAX_CONN" "j < MAX_CONN"
  shows "c_st (conn_at (awg_proxy_stop p) j) = ST_FREE"
proof -
  define q where "q = fold (\<lambda>i. conn_close i False) [0..<j] p"
  have "tsteps (table_of p) (table_of q)"
    unfolding q_def using assms by (intro fold_steps close_steps) auto
  from tsteps_length [OF this] have "length (p_conn q) = MAX_CONN" using assms by (simp add: table_of_def)
  then have "c_st (conn_at (conn_close j False q) j) = ST_FREE"
    using assms(2) by (simp add: conn_close_def Let_def conn_zero_def split: option.split)
  moreover have "[0..<MAX_CONN] = [0..<j] @ j # [Suc j..<MAX_CONN]"
    using assms(2) upt_add_eq_append [of 0 j "MAX_CONN - j"] by (simp add: upt_conv_Cons)
  then have "conn_at (fold (\<lambda>i. conn_close i False) [0..<MAX_CONN] p) j = conn_at (conn_close j False q) j"
    by (simp add: q_def fold_close_other)
  ultimately show ?thesis by (simp add: awg_proxy_stop_def Let_def)
qed

lemma start_steps:
  assumes "list_all (\<lambda>c. c = conn_zero) (p_conn p)"
  shows "tsteps (table_of p) (table_of (fst (awg_proxy_start dns fd p)))"
proof -
  have "map (\<lambda>c. c\<lparr>c_st := ST_FREE, c_cfd := -1\<rparr>) (p_conn p) = p_conn p"
    using assms by (intro map_idI) (auto simp: list_all_iff conn_zero_def)
  then show ?thesis
    using tstep.other [of "[Set_dns dns]" "p_conn p" "p_out p"]
    by (auto simp: awg_proxy_start_def table_of_def Let_def)
qed

definition tabled :: "proxy \<Rightarrow> bool" where
  "tabled p \<longleftrightarrow> tsteps table_init (table_of p) \<and> length (p_conn p) = MAX_CONN"

lemma tabled_steps: "tabled p \<Longrightarrow> tsteps (table_of p) (table_of q) \<Longrightarrow> tabled q"
  using tsteps_length [of "table_of p" "table_of q"] unfolding tabled_def
  by (auto simp: table_of_def intro: rtranclp_trans)

lemma tabled_length: "tabled p \<Longrightarrow> length (p_conn p) = MAX_CONN"
  by (simp add: tabled_def)

lemma tabled_restart:
  assumes "tabled p" shows "tabled (fst (awg_proxy_start dns fd (awg_proxy_stop p)))"
proof -
  define q where "q = awg_proxy_stop p"
  have q: "tabled q" unfolding q_def by (rule tabled_steps [OF assms stop_steps [OF tabled_length [OF assms]]])
  have "conn_at q j = conn_zero" if "j < MAX_CONN" for j
    using shape.table_invariant [of "table_of q" j] stop_frees [OF tabled_length [OF assms] that] q that
    by (simp add: slot_shape_def q_def table_of_def tabled_def)
  then have "list_all (\<lambda>c. c = conn_zero) (p_conn q)"
    using tabled_length [OF q] by (auto simp: list_all_iff in_set_conv_nth)
  from tabled_steps [OF q start_steps [OF this]] show ?thesis by (simp add: q_def)
qed

lemma reach_tabled: "proxy_reach p \<Longrightarrow> tabled p"
proof (induction rule: proxy_reach.induct)
  case (start dns fd)
  then show ?case
    using tstep.other [of "[Set_dns dns]" "replicate MAX_CONN conn_zero" "[]"]
    by (auto simp: awg_proxy_start_def proxy_static_def table_init_def table_of_def Let_def conn_zero_def emit_def
        tabled_def)
next
  case (poll p t x e)
  then show ?case by (blast intro: tabled_steps poll_steps tabled_length)
next
  case (recv p i pb err)
  then show ?case by (metis tabled_steps recv_steps tabled_length)
next
  case (conn p i err)
  then show ?case by (metis tabled_steps connected_steps tabled_length)
next
  case (err p i)
  then show ?case by (metis tabled_steps err_steps tabled_length)
next
  case (dns p i name ip pcb r)
  then show ?case by (metis tabled_steps resolved_steps tabled_length)
next
  case (stop p)
  then show ?case by (blast intro: tabled_steps stop_steps tabled_length)
next
  case (restart p dns fd)
  then show ?case by (blast intro: tabled_restart)
qed

section \<open>One slot at a time\<close>

lemma conn_close_other [simp]: "i \<noteq> j \<Longrightarrow> conn_at (conn_close i why p) j = conn_at p j"
  by (simp add: conn_close_def Let_def split: option.split)

lemma conn_close_own:
  "i < length (p_conn p) \<Longrightarrow> c_st (conn_at p i) \<noteq> ST_FREE \<Longrightarrow> conn_at (conn_close i why p) i = conn_zero"
  by (simp add: conn_close_def Let_def split: option.split)

lemma length_conn_close [simp]: "length (p_conn (conn_close i why p)) = length (p_conn p)"
  by (simp add: conn_close_def Let_def split: option.split)

text \<open>A pass over the table that treats each slot by itself.\<close>

lemma fold_slots:
  assumes "\<And>i j p. i \<noteq> j \<Longrightarrow> conn_at (f i p) j = conn_at p j"
    and "\<And>i p. i < length (p_conn p) \<Longrightarrow> conn_at (f i p) i = g (conn_at p i)"
    and "\<And>i p. length (p_conn (f i p)) = length (p_conn p)"
    and "distinct xs" "j \<in> set xs" "j < length (p_conn p)"
  shows "conn_at (fold f xs p) j = g (conn_at p j)"
  using assms(4-6)
proof (induction xs arbitrary: p)
  case (Cons x xs)
  have keep: "conn_at (fold f ys q) j = conn_at q j" if "j \<notin> set ys" for ys q
    using that by (induction ys arbitrary: q) (auto simp: assms(1))
  show ?case
  proof (cases "x = j")
    case True
    with Cons.prems assms(2) keep [of xs "f x p"] show ?thesis by simp
  next
    case False
    with Cons.prems Cons.IH [of "f x p"] assms(1,3) show ?thesis by simp
  qed
qed simp

lemma pump_other:
  assumes "i \<noteq> j"
  shows "conn_at (pump_up i room ok now p) j = conn_at p j" "conn_at (pump_down i rs now p) j = conn_at p j"
  using assms by (simp_all add: pump_up_def pump_down_def Let_def split: prod.split)

lemma poll_pump_other: "i \<noteq> j \<Longrightarrow> conn_at (poll_pump e i p) j = conn_at p j"
  by (simp add: poll_pump_def pump_other Let_def)

lemma sweep_idle_slot:
  assumes "length (p_conn p) = MAX_CONN" "j < MAX_CONN"
  shows "conn_at (sweep_idle now p) j =
    (if c_st (conn_at p j) = ST_FREE \<or> now - c_last_ms (conn_at p j) < idle_limit (conn_at p j)
     then conn_at p j else conn_zero)"
  unfolding sweep_idle_def
  by (rule fold_slots [where g = "\<lambda>c. if c_st c = ST_FREE \<or> now - c_last_ms c < idle_limit c then c else conn_zero"])
    (use assms in \<open>auto simp: sweep_one_def Let_def conn_close_own\<close>)

section \<open>Properties\<close>

lemma reach_slot:
  assumes "proxy_reach p" "i < MAX_CONN"
  shows "slot_shape i (conn_at p i) (slot_calls i (p_out p))" "slot_streams i (conn_at p i) (slot_calls i (p_out p))"
    "slot_fd i (conn_at p i) (slot_calls i (p_out p))"
  using reach_tabled [OF assms(1)] shape.table_invariant [of "table_of p" i] streams.table_invariant [of "table_of p" i]
    fds.table_invariant [of "table_of p" i] assms(2)
  by (simp_all add: tabled_def table_of_def)

text \<open>C26.  The connection table stays well-formed: in every reachable state it has sixteen slots; a free slot is all
  zero; a slot in use has the client's descriptor and at most 8192 bytes buffered; it has a pcb exactly from
  connecting on, received data only while relaying; and from resolving on its host name is a normalised name that
  is not on the deny list.\<close>

theorem proxy_table_wf:
  assumes "proxy_reach p" "i < MAX_CONN"
  shows "length (p_conn p) = MAX_CONN \<and>
    (case c_st (conn_at p i) of
       ST_FREE \<Rightarrow> conn_at p i = conn_zero
     | ST_SNIFF \<Rightarrow> c_pcb (conn_at p i) = None \<and> c_rx (conn_at p i) = []
     | ST_RESOLVING \<Rightarrow> c_pcb (conn_at p i) = None \<and> c_rx (conn_at p i) = [] \<and> good_host (c_host (conn_at p i))
     | ST_CONNECTING \<Rightarrow> c_pcb (conn_at p i) \<noteq> None \<and> c_rx (conn_at p i) = [] \<and> good_host (c_host (conn_at p i))
     | ST_RELAY \<Rightarrow> c_pcb (conn_at p i) \<noteq> None \<and> good_host (c_host (conn_at p i))) \<and>
    (c_st (conn_at p i) = ST_FREE \<or> 0 \<le> c_cfd (conn_at p i)) \<and> length (c_up (conn_at p i)) \<le> BUF_SIZE"
  using reach_slot(1) [OF assms] tabled_length [OF reach_tabled [OF assms(1)]]
  by (cases "c_st (conn_at p i)") (auto simp: slot_shape_def)

abbreviation proxy_started :: proxy where
  "proxy_started \<equiv> fst (awg_proxy_start 0x08080808 5 proxy_static)"

theorem proxy_table_wf_witness:
  "proxy_reach proxy_started \<and> (3 :: nat) < MAX_CONN \<and> conn_at proxy_started 3 = conn_zero"
proof -
  have "c_st (conn_at proxy_started 3) = ST_FREE"
    by (simp add: awg_proxy_start_def proxy_static_def MAX_CONN_def emit_def Let_def)
  with proxy_table_wf [OF proxy_reach.start, of 3 "0x08080808" 5] show ?thesis
    by (simp add: MAX_CONN_def proxy_reach.start)
qed

text \<open>C25.  The proxy is a faithful pipe.  For every connection of every reachable state, the bytes read from the
  application are exactly the bytes handed to the tunnel followed by those still buffered; the bytes that arrived
  from the tunnel are exactly the bytes the application took followed by those still held; and the peer was told
  about exactly the bytes the application took.  Nothing is lost, doubled or reordered, however the sockets and
  the stack behave.\<close>

theorem proxy_relays_faithfully:
  assumes "proxy_reach p" "i < MAX_CONN" "c_st (conn_at p i) \<noteq> ST_FREE"
  shows "got_bytes (slot_calls i (p_out p)) = wrote_bytes (slot_calls i (p_out p)) @ c_up (conn_at p i) \<and>
    arrived_bytes (slot_calls i (p_out p)) =
      sent_bytes (slot_calls i (p_out p)) @ drop (c_rx_off (conn_at p i)) (concat (c_rx (conn_at p i))) \<and>
    acked (slot_calls i (p_out p)) = length (sent_bytes (slot_calls i (p_out p)))"
  using reach_slot(2) [OF assms(1,2)] assms(3) by (simp add: slot_streams_def)

text \<open>A poll in which one client is accepted and nothing else happens.\<close>

definition accept_env :: poll_env where
  "accept_env = \<lparr>pe_ready = True, pe_extra = 0, pe_listen = True, pe_accept = 7,
     pe_revents = (\<lambda>_. (False, False, False)), pe_recv = (\<lambda>_. Read_again),
     pe_dns = (\<lambda>_. \<lparr>de_err = ERR_INPROGRESS, de_ip = 0, de_pcb = None, de_connect = ERR_OK\<rparr>),
     pe_sends = (\<lambda>_. []), pe_room = (\<lambda>_. 0), pe_write = (\<lambda>_. False), pe_sends2 = (\<lambda>_. []),
     pe_now = 100, pe_now_sweep = 100, pe_now_pump = 100\<rparr>"

abbreviation proxy_opened :: proxy where
  "proxy_opened \<equiv> fst (awg_proxy_poll 10 (-1) accept_env proxy_started)"

lemma listen_close [simp]: "p_listen (conn_close i why p) = p_listen p"
  by (simp add: conn_close_def Let_def split: option.split)

lemma listen_pump [simp]:
  "p_listen (pump_up i room ok now p) = p_listen p" "p_listen (pump_down i rs now p) = p_listen p"
  by (simp_all add: pump_up_def pump_down_def Let_def split: prod.split)

lemma listen_passes [simp]:
  "p_listen (sweep_one now i p) = p_listen p" "p_listen (poll_pump e i p) = p_listen p"
  by (simp_all add: sweep_one_def poll_pump_def Let_def)

lemma listen_fold: "(\<And>i p. p_listen (f i p) = p_listen p) \<Longrightarrow> p_listen (fold f xs p) = p_listen p"
  by (induction xs arbitrary: p) auto

lemma proxy_opened_slot:
  "conn_at proxy_opened 0 = conn_zero\<lparr>c_cfd := 7, c_st := ST_SNIFF, c_last_ms := 100\<rparr>" "p_listen proxy_opened = 5"
proof -
  define q where "q = poll_accept accept_env (emit [Poll_wait [5] 10] proxy_started)"
  have f: "conn_alloc (emit [Poll_wait [5] 10] proxy_started) =
      Some (0, put_conn 0 conn_zero (emit [Poll_wait [5] 10] proxy_started))"
    by (simp add: conn_alloc_def awg_proxy_start_def proxy_static_def MAX_CONN_def upt_rec [of 0])
  have q0: "conn_at q 0 = conn_zero\<lparr>c_cfd := 7, c_st := ST_SNIFF, c_last_ms := 100\<rparr>"
    by (simp add: q_def poll_accept_def f accept_env_def)
      (simp add: awg_proxy_start_def proxy_static_def MAX_CONN_def)
  have nq: "length (p_conn q) = MAX_CONN"
    by (simp add: q_def poll_accept_def f accept_env_def)
      (simp add: awg_proxy_start_def proxy_static_def)
  have free: "c_st (conn_at proxy_started i) = ST_FREE" if "i < MAX_CONN" for i
    using that by (simp add: awg_proxy_start_def proxy_static_def Let_def)
  have o: "poll_owner proxy_started = []" "poll_timeout proxy_started 10 = 10" "p_listen proxy_started = 5"
    using free by (auto simp: poll_owner_def poll_timeout_def list_ex_iff Let_def filter_empty_conv)
      (simp add: awg_proxy_start_def Let_def)
  have "fst (awg_proxy_poll 10 (-1) accept_env proxy_started)
      = fold (poll_pump accept_env) [0..<MAX_CONN] (sweep_idle 100 q)"
    unfolding awg_proxy_poll_def Let_def o by (simp add: q_def accept_env_def)
  also have "\<dots> = fold (poll_pump accept_env) [1..<MAX_CONN] (poll_pump accept_env 0 (sweep_idle 100 q))"
    by (simp add: MAX_CONN_def upt_rec [of 0])
  also have "poll_pump accept_env 0 (sweep_idle 100 q) = sweep_idle 100 q"
    using sweep_idle_slot [OF nq, of 0 100] q0
    by (simp add: poll_pump_def MAX_CONN_def idle_limit_def SNIFF_TIMEOUT_MS_def conn_zero_def)
  finally have e: "proxy_opened = fold (poll_pump accept_env) [1..<MAX_CONN] (sweep_idle 100 q)" .
  have "conn_at (fold (poll_pump accept_env) xs r) 0 = conn_at r 0" if "0 \<notin> set xs" for xs r
    using that by (induction xs arbitrary: r) (auto simp: poll_pump_other)
  then have "conn_at proxy_opened 0 = conn_at (sweep_idle 100 q) 0" by (simp add: e)
  with sweep_idle_slot [OF nq, of 0 100] q0
  show "conn_at proxy_opened 0 = conn_zero\<lparr>c_cfd := 7, c_st := ST_SNIFF, c_last_ms := 100\<rparr>"
    by (simp add: MAX_CONN_def idle_limit_def SNIFF_TIMEOUT_MS_def)
  have "p_listen q = 5"
    by (simp add: q_def poll_accept_def f accept_env_def) (simp add: o(3))
  then show "p_listen proxy_opened = 5" unfolding e by (simp add: listen_fold sweep_idle_def)
qed

theorem proxy_relays_faithfully_witness:
  "proxy_reach proxy_opened \<and> c_st (conn_at proxy_opened 0) \<noteq> ST_FREE \<and>
   got_bytes (slot_calls 0 (p_out proxy_opened)) =
     wrote_bytes (slot_calls 0 (p_out proxy_opened)) @ c_up (conn_at proxy_opened 0)"
proof -
  have r: "proxy_reach proxy_opened" by (intro proxy_reach.poll proxy_reach.start)
  have "(0 :: nat) < MAX_CONN" by (simp add: MAX_CONN_def)
  from proxy_relays_faithfully [OF r this] r proxy_opened_slot show ?thesis by simp
qed

text \<open>C28.  No descriptor leaks or is closed twice.  In every reachable state the descriptors a slot's calls opened
  and closed alternate and match, and the one still open is the one the slot holds; a free slot holds none.\<close>

theorem proxy_descriptors_balanced:
  assumes "proxy_reach p" "i < MAX_CONN"
  shows "fd_held (slot_calls i (p_out p)) =
    Some (if c_st (conn_at p i) = ST_FREE then None else Some (c_cfd (conn_at p i)))"
  using reach_slot(3) [OF assms] by (simp add: slot_fd_def)

theorem proxy_descriptors_balanced_witness:
  "proxy_reach proxy_started \<and> (0 :: nat) < MAX_CONN \<and> fd_held (slot_calls 0 (p_out proxy_started)) = Some None"
  using proxy_descriptors_balanced [OF proxy_reach.start, of 0 "0x08080808" 5]
  by (simp add: MAX_CONN_def proxy_reach.start)
    (simp add: awg_proxy_start_def proxy_static_def MAX_CONN_def emit_def Let_def)

text \<open>Dead connections are reclaimed.  After the sweep every slot still in use moved a byte less than its limit ago
  (five seconds while the ClientHello is awaited, two minutes afterwards, in 32-bit clock arithmetic that survives the
  wrap of the clock); every slot over its limit has been cleared, and every other slot is untouched.\<close>

lemma sweep_reclaims_idle:
  assumes "proxy_reach p" "i < MAX_CONN"
  shows "conn_at (sweep_idle now p) i =
    (if c_st (conn_at p i) = ST_FREE \<or>
        now - c_last_ms (conn_at p i) < (if c_st (conn_at p i) = ST_SNIFF then 5000 else 120000)
     then conn_at p i else conn_zero)"
  using sweep_idle_slot [OF tabled_length [OF reach_tabled [OF assms(1)]] assms(2), of now]
  by (simp add: idle_limit_def SNIFF_TIMEOUT_MS_def IDLE_TIMEOUT_MS_def)


text \<open>The client of the accepted connection sends a ClientHello for \<open>a.b\<close>.\<close>

definition sample_hello :: bytes where
  "sample_hello = client_hello sample_head [] [19, 1] [0] (tls_ext (0, server_name [97, 46, 98]))"

definition hello_env :: poll_env where
  "hello_env = accept_env\<lparr>pe_listen := False, pe_revents := (\<lambda>_. (False, False, True)), pe_recv := (\<lambda>_. Data sample_hello)\<rparr>"

lemma sample_hello_name: "sni_hostname sample_hello 128 = Done [97, 46, 98]"
  using sni_hostname_hello [of sample_head "[]" "[19, 1]" "[0]" "tls_ext (0, server_name [97, 46, 98])"
      "[]" "[97, 46, 98]" "[]" 128 "[]"]
  by (simp add: sample_hello_def sample_head_def server_name_def)

lemma sample_host: "host_normalise (cstr (map (\<lambda>b. char_of (unat b)) [97, 46, 98 :: u8])) = Some ''a.b''"
  "\<not> host_denied ''a.b''"
  by code_simp+

lemma tsteps_out: "tsteps a b \<Longrightarrow> set (snd a) \<subseteq> set (snd b)"
  by (induction rule: rtranclp_induct) (auto elim!: tstep.cases)

lemma hello_asks:
  assumes c: "conn_at p 0 = conn_zero\<lparr>c_cfd := 7, c_st := ST_SNIFF, c_last_ms := 100\<rparr>" and n: "length (p_conn p) = MAX_CONN"
  shows "Ask_dns 0 ''a.b'' \<in> set (p_out (poll_event hello_env (0, True, False) p))"
proof -
  have "length sample_hello \<le> BUF_SIZE"
    by (simp add: sample_hello_def client_hello_def sample_head_def server_name_def BUF_SIZE_def)
  then have t: "take 8192 sample_hello = sample_hello" by (simp add: BUF_SIZE_def)
  have ne: "sample_hello \<noteq> []" by (simp add: sample_hello_def client_hello_def)
  define q where "q = put_conn 0 (conn_zero\<lparr>c_cfd := 7, c_st := ST_SNIFF, c_last_ms := 100, c_up := sample_hello\<rparr>)
    (emit [Got 0 sample_hello] p)"
  have "poll_event hello_env (0, True, False) p = sniff 0 (pe_dns accept_env 0) q"
    using ne by (simp add: poll_event_def hello_env_def accept_env_def handle_client_readable_def c t q_def Let_def
        conn_zero_def BUF_SIZE_def)
  moreover have "c_up (conn_at q 0) = sample_hello" using n by (simp add: q_def MAX_CONN_def)
  ultimately show ?thesis
    using sample_host unfolding sniff_def by (simp add: sample_hello_name Let_def accept_env_def)
qed

lemma watched_first:
  assumes "conn_at p 0 = conn_zero\<lparr>c_cfd := 7, c_st := ST_SNIFF, c_last_ms := 100\<rparr>"
  obtains ws where "poll_owner p = 0 # ws" "set ws \<subseteq> {..<MAX_CONN}"
proof -
  have "[0..<MAX_CONN] = 0 # [1..<MAX_CONN]" by (simp add: MAX_CONN_def upt_rec [of 0])
  with assms that show ?thesis
    unfolding poll_owner_def by (auto simp: wants_in_def BUF_SIZE_def conn_zero_def)
qed

abbreviation proxy_asked :: proxy where
  "proxy_asked \<equiv> fst (awg_proxy_poll 10 (-1) hello_env proxy_opened)"

lemma hello_polled:
  assumes c: "conn_at p 0 = conn_zero\<lparr>c_cfd := 7, c_st := ST_SNIFF, c_last_ms := 100\<rparr>"
    and l: "p_listen p = 5" and n: "length (p_conn p) = MAX_CONN"
  shows "Ask_dns 0 ''a.b'' \<in> set (p_out (fst (awg_proxy_poll 10 (-1) hello_env p)))"
proof -
  obtain ws where o: "poll_owner p = 0 # ws" "set ws \<subseteq> {..<MAX_CONN}"
    by (rule watched_first [OF c])
  define fds where "fds = p_listen p # map (\<lambda>i. c_cfd (conn_at p i)) (poll_owner p)"
  define q where "q = emit [Poll_wait fds (poll_timeout p 10)] p"
  define w where "w = map (\<lambda>i. (i, wants_in (conn_at p i), wants_out (conn_at p i))) ws"
  have w0: "wants_in (conn_at p 0)" "\<not> wants_out (conn_at p 0)"
    by (simp_all add: c wants_in_def wants_out_def BUF_SIZE_def conn_zero_def)
  have "Ask_dns 0 ''a.b'' \<in> set (p_out (poll_event hello_env (0, True, False) q))"
    by (rule hello_asks) (simp_all add: q_def c n)
  moreover have "fst (awg_proxy_poll 10 (-1) hello_env p) = fold (poll_pump hello_env) [0..<MAX_CONN] (sweep_idle 100
      (fold (poll_event hello_env) w (poll_event hello_env (0, True, False) q)))"
    unfolding awg_proxy_poll_def Let_def o
    by (simp add: q_def fds_def w_def o w0 l hello_env_def accept_env_def poll_accept_def)
  moreover define a where "a = poll_event hello_env (0, True, False) q"
  moreover define u where "u = sweep_idle 100 (fold (poll_event hello_env) w a)"
  have la: "length (p_conn a) = MAX_CONN"
    using tsteps_length [OF event_steps [of "(0, True, False)" q hello_env]] n
    by (simp add: a_def q_def MAX_CONN_def table_of_def)
  have au: "tsteps (table_of a) (table_of (fold (poll_event hello_env) w a))"
    using la o(2) by (intro fold_steps event_steps) (auto simp: w_def)
  have uv: "tsteps (table_of (fold (poll_event hello_env) w a)) (table_of u)"
    unfolding u_def using tsteps_length [OF au] la by (intro sweep_steps) (simp add: table_of_def)
  have "tsteps (table_of u) (table_of (fold (poll_pump hello_env) [0..<MAX_CONN] u))"
    using tsteps_length [OF steps_trans [OF au uv]] la by (intro fold_steps pump_steps) (auto simp: table_of_def)
  from tsteps_out [OF steps_trans [OF steps_trans [OF au uv] this]]
  have "set (p_out a) \<subseteq> set (p_out (fold (poll_pump hello_env) [0..<MAX_CONN] u))" by (simp add: table_of_def)
  ultimately show ?thesis by (auto simp: u_def)
qed

lemma proxy_asked_name: "Ask_dns 0 ''a.b'' \<in> set (p_out proxy_asked)"
  by (rule hello_polled [OF proxy_opened_slot tabled_length [OF reach_tabled]]) (intro proxy_reach.poll proxy_reach.start)


section \<open>Where the code surprises\<close>

text \<open>An answer of the resolver is not matched with the name that was asked: one that comes for a name asked before the slot
  was closed and given to another client connects that client, whatever name it sent.\<close>

lemma stale_answer_connects:
  assumes "i < length (p_conn p)" "c_st (conn_at p i) = ST_RESOLVING"
  shows "p_out (on_resolved stale (Some a) (Some i) (Some b) ERR_OK p) = p_out p @ [Connect i b a]"
    "c_host (conn_at (on_resolved stale (Some a) (Some i) (Some b) ERR_OK p) i) = c_host (conn_at p i)"
  using assms by (simp_all add: on_resolved_def Let_def)

text \<open>A lookup that fails counts its connection twice, as failed and as closed.\<close>

lemma failed_lookup_counts_twice:
  assumes "c_st (conn_at p i) = ST_RESOLVING"
  shows "n_failed (p_stats (on_resolved nm None (Some i) pcb r p)) = n_failed (p_stats p) + 1"
    "n_closed (p_stats (on_resolved nm None (Some i) pcb r p)) = n_closed (p_stats p) + 1"
  using assms by (simp_all add: on_resolved_def conn_close_def count_failed_def stat_def put_conn_def emit_def Let_def split: option.split)

text \<open>When the client has closed its side, reading changes nothing in the slot: it is polled for reading again, and the
  wait returns at once, until the connection ends some other way.\<close>

lemma client_eof_keeps_polling:
  "p_conn (handle_client_readable i Eof d now p) = p_conn p"
  "poll_owner (handle_client_readable i Eof d now p) = poll_owner p"
  by (simp_all add: handle_client_readable_def Let_def emit_def poll_owner_def)

end
