(* ===== verification/Session_Correct.thy ===== *)
theory Session_Correct
  imports Session
begin

text \<open>
  Correctness of the session layer over arbitrary sequences of its operations: the counters under which
  packets are sealed never repeat for a keypair, no packet is delivered twice, also across key rotations,
  the retired keypair still serves packets in flight and is erased when its time is over, and the
  timers of the handshake and the keepalive.
\<close>

section \<open>Sequences of operations\<close>

datatype session_op =
    Build_initiation int u64 u64
  | Build_data bytes int u64
  | Build_keepalive int u64
  | On_datagram bytes int u64

text \<open>What an operation did, as far as keys and counters go: a packet sealed under the live keypair with a
  counter, a packet accepted (under the retired keypair or the live one), a new keypair, or nothing.\<close>

datatype session_event = Sealed u64 | Accepted bool u64 | Rekeyed | Quiet

definition data_event :: "awg_session \<Rightarrow> bytes outcome \<Rightarrow> session_event" where
  "data_event s r = (case r of Done _ \<Rightarrow> Sealed (s_tx_counter s) | _ \<Rightarrow> Quiet)"

definition datagram_event ::
  "awg_session \<Rightarrow> awg_config \<Rightarrow> bytes \<Rightarrow> int \<Rightarrow> u64 \<Rightarrow> (awg_rx_result \<times> bytes) option \<Rightarrow> session_event" where
  "datagram_event s cfg pkt cap now r =
     (case r of
        Some (AWG_RX_ESTABLISHED, _) \<Rightarrow> Rekeyed
      | Some (AWG_RX_IGNORED, _) \<Rightarrow> Quiet
      | Some _ \<Rightarrow>
          (case session_open (session_expire_prev s now) cfg pkt cap of
             (_, Done (_, ctr), on_prev) \<Rightarrow> Accepted on_prev ctr | _ \<Rightarrow> Quiet)
      | None \<Rightarrow> Quiet)"

type_synonym session_world = "awg_session \<times> replay_globals \<times> entropy"

fun session_step :: "awg_config \<Rightarrow> session_op \<Rightarrow> session_world \<Rightarrow> session_world \<times> session_event" where
  "session_step cfg (Build_initiation cap now_ms now) (s, g, e) =
     (case awg_session_build_initiation s cfg cap now_ms now e of (s', _, e') \<Rightarrow> ((s', g, e'), Quiet))"
| "session_step cfg (Build_data payload cap now_ms) (s, g, e) =
     (case awg_session_build_data s cfg payload cap now_ms e of
        (s', r, e') \<Rightarrow> ((s', g, e'), data_event s r))"
| "session_step cfg (Build_keepalive cap now_ms) (s, g, e) =
     (case awg_session_build_keepalive s cfg cap now_ms e of
        (s', r, e') \<Rightarrow> ((s', g, e'), data_event s r))"
| "session_step cfg (On_datagram pkt cap now_ms) (s, g, e) =
     (case awg_session_on_datagram g s cfg pkt cap now_ms of
        (s', g', _, r) \<Rightarrow> ((s', g', e), datagram_event s cfg pkt cap now_ms r))"

primrec session_trace :: "awg_config \<Rightarrow> session_op list \<Rightarrow> session_world \<Rightarrow> session_event list" where
  "session_trace cfg [] w = []"
| "session_trace cfg (op # ops) w = (case session_step cfg op w of (w', ev) \<Rightarrow> ev # session_trace cfg ops w')"

text \<open>The keypairs are numbered by the rotations before them; the retired one is the one before the live
  one.\<close>

fun sealed_under :: "nat \<Rightarrow> session_event list \<Rightarrow> (nat \<times> u64) list" where
  "sealed_under n [] = []"
| "sealed_under n (Sealed c # es) = (n, c) # sealed_under n es"
| "sealed_under n (Rekeyed # es) = sealed_under (Suc n) es"
| "sealed_under n (_ # es) = sealed_under n es"

fun accepted_under :: "nat \<Rightarrow> session_event list \<Rightarrow> (nat \<times> u64) list" where
  "accepted_under n [] = []"
| "accepted_under n (Accepted on_prev c # es) = (if on_prev then n - 1 else n, c) # accepted_under n es"
| "accepted_under n (Rekeyed # es) = accepted_under (Suc n) es"
| "accepted_under n (_ # es) = accepted_under n es"

section \<open>Frames\<close>

lemma build_initiation_frame:
  assumes "awg_session_build_initiation s cfg cap now_ms now e = (s', r, e')"
  shows "s_tx_counter s' = s_tx_counter s" "s_rx_window_max s' = s_rx_window_max s"
    "s_rx_window_bits s' = s_rx_window_bits s" "s_prev_window_max s' = s_prev_window_max s"
    "s_prev_window_bits s' = s_prev_window_bits s" "s_have_prev s' = s_have_prev s"
    "s_established s' = s_established s" "s_cur s' = s_cur s" "s_prev s' = s_prev s"
  using assms by (auto simp: awg_session_build_initiation_def Let_def split: prod.splits option.splits)

lemma build_data_frame:
  assumes "awg_session_build_data s cfg p cap now_ms e = (s', r, e')"
  shows "s_rx_window_max s' = s_rx_window_max s"
    "s_rx_window_bits s' = s_rx_window_bits s" "s_prev_window_max s' = s_prev_window_max s"
    "s_prev_window_bits s' = s_prev_window_bits s" "s_have_prev s' = s_have_prev s"
    "s_established s' = s_established s" "s_cur s' = s_cur s" "s_prev s' = s_prev s"
    "s_tx_counter s' = s_tx_counter s + (case r of Done _ \<Rightarrow> 1 | _ \<Rightarrow> 0)"
  using assms
  by (auto simp: awg_session_build_data_def split: prod.splits outcome.splits if_splits)

lemma build_keepalive_frame:
  assumes "awg_session_build_keepalive s cfg cap now_ms e = (s', r, e')"
  shows "s_rx_window_max s' = s_rx_window_max s"
    "s_rx_window_bits s' = s_rx_window_bits s" "s_prev_window_max s' = s_prev_window_max s"
    "s_prev_window_bits s' = s_prev_window_bits s" "s_have_prev s' = s_have_prev s"
    "s_established s' = s_established s" "s_cur s' = s_cur s" "s_prev s' = s_prev s"
    "s_tx_counter s' = s_tx_counter s + (case r of Done _ \<Rightarrow> 1 | _ \<Rightarrow> 0)"
proof -
  obtain s1 r1 e1 where b: "awg_session_build_data s cfg [] cap now_ms e = (s1, r1, e1)" by (rule prod_cases3)
  have "r = r1 \<and> (s' = s1 \<or> s' = s1\<lparr>s_keepalives_tx := s_keepalives_tx s1 + 1, s_packets_tx := s_packets_tx s1 - 1\<rparr>)"
    using assms b by (cases r1) (auto simp: awg_session_build_keepalive_def split: if_splits)
  then show "s_rx_window_max s' = s_rx_window_max s"
    "s_rx_window_bits s' = s_rx_window_bits s" "s_prev_window_max s' = s_prev_window_max s"
    "s_prev_window_bits s' = s_prev_window_bits s" "s_have_prev s' = s_have_prev s"
    "s_established s' = s_established s" "s_cur s' = s_cur s" "s_prev s' = s_prev s"
    "s_tx_counter s' = s_tx_counter s + (case r of Done _ \<Rightarrow> 1 | _ \<Rightarrow> 0)"
    using build_data_frame [OF b] by auto
qed

text \<open>The receive path by its outcome.\<close>

lemma on_datagram_cases:
  assumes "awg_session_on_datagram g s cfg pkt cap now = (s', g', pkt', r)"
  obtains (promoted) pending where "s' = session_promote (s\<lparr>s_pending := pending\<rparr>) now" "g' = g"
      "r = Some (AWG_RX_ESTABLISHED, [])"
  | (refused) pending where "s' = s\<lparr>s_pending := pending\<rparr>" "g' = g"
      "r = None \<or> r = Some (AWG_RX_IGNORED, [])"
  | (closed) "s' = session_expire_prev s now" "g' = g" "r = None \<or> r = Some (AWG_RX_IGNORED, [])"
      "s_established s"
  | (opened) plain ctr on_prev q where "s_established s"
      "session_open (session_expire_prev s now) cfg pkt cap = (pkt', Done (plain, ctr), on_prev)"
      "session_deliver g (session_expire_prev s now) plain ctr on_prev now = (s', g', q)" "r = Some q"
proof (cases "s_handshaking s \<and> int (length pkt) = cfg_s2 cfg + int AWG_MSG_RESP_SIZE")
  case True
  show ?thesis
  proof (cases "\<exists>pending. s' = session_promote (s\<lparr>s_pending := pending\<rparr>) now \<and> g' = g \<and> r = Some (AWG_RX_ESTABLISHED, [])")
    case True
    then show ?thesis using promoted by blast
  next
    case False
    with assms True have "\<exists>pending. s' = s\<lparr>s_pending := pending\<rparr> \<and> g' = g \<and> (r = None \<or> r = Some (AWG_RX_IGNORED, []))"
      unfolding awg_session_on_datagram_def Let_def
      by (auto split: prod.splits option.splits if_splits intro: exI [of _ "s_pending s"])
    then show ?thesis using refused by blast
  qed
next
  case False
  note F = this
  show ?thesis
  proof (cases "s_established s")
    case False
    with assms F have "s' = s\<lparr>s_pending := s_pending s\<rparr>" "g' = g" "r = Some (AWG_RX_IGNORED, [])"
      by (auto simp: awg_session_on_datagram_def)
    then show ?thesis using refused by blast
  next
    case True
    obtain p o1 b where o: "session_open (session_expire_prev s now) cfg pkt cap = (p, o1, b)"
      by (rule prod_cases3)
    show ?thesis
    proof (cases o1)
      case (Done x)
      with assms True F o opened closed show ?thesis
        by (cases x) (auto simp: awg_session_on_datagram_def Let_def split: prod.splits)
    qed (use assms True F o closed in \<open>auto simp: awg_session_on_datagram_def Let_def\<close>)
  qed
qed

section \<open>The windows along a sequence\<close>

text \<open>The two windows against the counters accepted under the live and the retired keypair.\<close>

definition rx_inv :: "awg_session \<Rightarrow> replay_globals \<Rightarrow> u64 set \<Rightarrow> u64 set \<Rightarrow> bool" where
  "rx_inv s g A P \<longleftrightarrow>
     replay_seen (s_rx_window_max s, s_rx_window_bits s, g) A \<and>
     (s_have_prev s \<longrightarrow> replay_seen (s_prev_window_max s, s_prev_window_bits s, g) P) \<and>
     (s_have_prev s \<longrightarrow> s_established s)"

lemma replay_seen_globals: "replay_seen (mx, bits, g) S \<Longrightarrow> replay_seen (mx, bits, g') S"
  by (simp add: replay_seen_def)

lemma rx_inv_cong:
  assumes "rx_inv s g A P" "s_rx_window_max s' = s_rx_window_max s"
    "s_rx_window_bits s' = s_rx_window_bits s" "s_prev_window_max s' = s_prev_window_max s"
    "s_prev_window_bits s' = s_prev_window_bits s" "s_have_prev s' = s_have_prev s"
    "s_established s' = s_established s"
  shows "rx_inv s' g' A P"
  using assms by (auto simp: rx_inv_def intro: replay_seen_globals)

lemma rx_inv_expire: "rx_inv s g A P \<Longrightarrow> rx_inv (session_expire_prev s now) g A P"
  by (auto simp: rx_inv_def session_expire_prev_def)

lemma rx_inv_promote: "rx_inv s g A P \<Longrightarrow> rx_inv (session_promote s now) g {} A"
  by (auto simp: rx_inv_def session_promote_def Let_def replay_seen_def window_rel_empty)

lemma session_open_prev:
  "session_open s cfg pkt cap = (pkt', Done r, True) \<Longrightarrow> s_have_prev s"
  by (auto simp: session_open_def split: prod.splits outcome.splits if_splits)

lemma deliver_inv:
  assumes inv: "rx_inv s g A P" and prev: "on_prev \<longrightarrow> s_have_prev s"
    and d: "session_deliver g s plain ctr on_prev now = (s', g', q, p)"
  shows "if q = AWG_RX_IGNORED then rx_inv s' g' A P
    else q \<noteq> AWG_RX_ESTABLISHED \<and>
      (if on_prev then ctr \<notin> P \<and> rx_inv s' g' A (insert ctr P) else ctr \<notin> A \<and> rx_inv s' g' (insert ctr A) P)"
proof -
  define w where "w = (if on_prev then (s_prev_window_max s, s_prev_window_bits s, g)
    else (s_rx_window_max s, s_rx_window_bits s, g))"
  define S where "S = (if on_prev then P else A)"
  have seen: "replay_seen w S" using inv prev by (auto simp: w_def S_def rx_inv_def)
  obtain ok mx bits g1 where st: "replay_step w ctr = (ok, mx, bits, g1)" by (metis surj_pair)
  have w': "if ok then ctr \<notin> S \<and> replay_seen (mx, bits, g1) (insert ctr S) else replay_seen (mx, bits, g1) S"
    using rw.accept_fresh [OF seen, of ctr] rw.reject_keeps [OF seen, of ctr] st by (cases ok) auto
  have fr: "g' = g1" "q = AWG_RX_IGNORED \<longleftrightarrow> \<not> ok" "q \<noteq> AWG_RX_ESTABLISHED"
    "s_rx_window_max s' = (if on_prev then s_rx_window_max s else mx)"
    "s_rx_window_bits s' = (if on_prev then s_rx_window_bits s else bits)"
    "s_prev_window_max s' = (if on_prev then mx else s_prev_window_max s)"
    "s_prev_window_bits s' = (if on_prev then bits else s_prev_window_bits s)"
    "s_have_prev s' = s_have_prev s" "s_established s' = s_established s"
    using d st by (auto simp: session_deliver_def w_def replay_step_def Let_def split: if_splits prod.splits)
  show ?thesis
    using w' inv fr(3) unfolding rx_inv_def fr S_def
    by (auto intro: replay_seen_globals)
qed

text \<open>One operation against the counters accepted so far.\<close>

definition rx_after :: "session_event \<Rightarrow> u64 set \<Rightarrow> u64 set \<Rightarrow> u64 set \<times> u64 set" where
  "rx_after ev A P =
     (case ev of Accepted False c \<Rightarrow> (insert c A, P) | Accepted True c \<Rightarrow> (A, insert c P)
      | Rekeyed \<Rightarrow> ({}, A) | _ \<Rightarrow> (A, P))"

lemma session_step_rx:
  assumes inv: "rx_inv s g A P" and st: "session_step cfg op (s, g, e) = ((s', g', e'), ev)"
  shows "rx_inv s' g' (fst (rx_after ev A P)) (snd (rx_after ev A P)) \<and>
    (\<forall>c. (ev = Accepted False c \<longrightarrow> c \<notin> A) \<and> (ev = Accepted True c \<longrightarrow> c \<notin> P))"
proof (cases op)
  case (On_datagram pkt cap now)
  obtain r pkt' where o: "awg_session_on_datagram g s cfg pkt cap now = (s', g', pkt', r)"
    and ev: "ev = datagram_event s cfg pkt cap now r"
    using st On_datagram by (auto split: prod.splits)
  from o show ?thesis
  proof (cases rule: on_datagram_cases)
    case (promoted pending)
    have "rx_inv (s\<lparr>s_pending := pending\<rparr>) g A P" using inv by (rule rx_inv_cong) simp_all
    from rx_inv_promote [OF this, of now] promoted ev show ?thesis by (simp add: datagram_event_def rx_after_def)
  next
    case (refused pending)
    have "rx_inv s' g' A P" using inv by (rule rx_inv_cong) (simp_all add: refused)
    with refused ev show ?thesis by (auto simp: datagram_event_def rx_after_def)
  next
    case closed
    with rx_inv_expire [OF inv] ev show ?thesis by (auto simp: datagram_event_def rx_after_def)
  next
    case (opened plain ctr on_prev q)
    obtain q1 p where q: "q = (q1, p)" by fastforce
    have "on_prev \<longrightarrow> s_have_prev (session_expire_prev s now)"
      using session_open_prev [of _ cfg pkt cap] opened(2) by (cases on_prev) auto
    from deliver_inv [OF rx_inv_expire [OF inv] this opened(3) [unfolded q]] opened q ev show ?thesis
      by (cases q1; cases on_prev) (auto simp: datagram_event_def rx_after_def)
  qed
next
  case (Build_initiation cap now_ms now)
  with st obtain r where b: "awg_session_build_initiation s cfg cap now_ms now e = (s', r, e')" "ev = Quiet" "g' = g"
    by (auto split: prod.splits)
  have "rx_inv s' g' A P" using inv by (rule rx_inv_cong) (simp_all add: build_initiation_frame [OF b(1)])
  with b show ?thesis by (simp add: rx_after_def)
next
  case (Build_data payload cap now_ms)
  with st obtain r where b: "awg_session_build_data s cfg payload cap now_ms e = (s', r, e')" "ev = data_event s r"
    by (auto split: prod.splits)
  have "rx_inv s' g' A P" using inv by (rule rx_inv_cong) (simp_all add: build_data_frame [OF b(1)])
  with b show ?thesis by (simp add: rx_after_def data_event_def split: outcome.split)
next
  case (Build_keepalive cap now_ms)
  with st obtain r where b: "awg_session_build_keepalive s cfg cap now_ms e = (s', r, e')" "ev = data_event s r"
    by (auto split: prod.splits)
  have "rx_inv s' g' A P" using inv by (rule rx_inv_cong) (simp_all add: build_keepalive_frame [OF b(1)])
  with b show ?thesis by (simp add: rx_after_def data_event_def split: outcome.split)
qed

lemma accepted_under_ge: "(k, c) \<in> set (accepted_under n es) \<Longrightarrow> n - 1 \<le> k"
  by (induction n es rule: accepted_under.induct) (force split: if_splits)+

lemma session_trace_rx:
  assumes "rx_inv s g A P" "0 < n"
  shows "distinct (accepted_under n (session_trace cfg ops (s, g, e))) \<and>
    (\<forall>(k, c) \<in> set (accepted_under n (session_trace cfg ops (s, g, e))).
       (k = n \<longrightarrow> c \<notin> A) \<and> (k = n - 1 \<longrightarrow> c \<notin> P))"
  using assms
proof (induction ops arbitrary: s g e A P n)
  case (Cons op ops)
  obtain s' g' e' ev where st: "session_step cfg op (s, g, e) = ((s', g', e'), ev)" by (metis surj_pair)
  define A' P' where "A' = fst (rx_after ev A P)" and "P' = snd (rx_after ev A P)"
  have inv: "rx_inv s' g' A' P'"
    and fresh: "\<And>c. ev = Accepted False c \<Longrightarrow> c \<notin> A" "\<And>c. ev = Accepted True c \<Longrightarrow> c \<notin> P"
    using session_step_rx [OF Cons.prems(1) st] by (auto simp: A'_def P'_def)
  have tr: "session_trace cfg (op # ops) (s, g, e) = ev # session_trace cfg ops (s', g', e')"
    by (simp add: st)
  show ?case
  proof (cases ev)
    case Rekeyed
    have ge: "n \<le> k" if "(k, c) \<in> set (accepted_under (Suc n) es)" for k c es
      using accepted_under_ge [OF that] by simp
    from Cons.IH [OF inv, of "Suc n" e'] Cons.prems(2) show ?thesis
      unfolding tr by (fastforce simp: Rekeyed A'_def P'_def rx_after_def dest: ge)
  next
    case (Accepted on_prev c)
    with Cons.IH [OF inv Cons.prems(2), of e'] fresh Cons.prems(2) show ?thesis
      unfolding tr by (cases on_prev) (fastforce simp: A'_def P'_def rx_after_def)+
  qed (use Cons.IH [OF inv Cons.prems(2), of e'] in \<open>simp_all add: st A'_def P'_def rx_after_def\<close>)
qed simp

section \<open>The sending counter along a sequence\<close>

lemma session_step_tx:
  assumes st: "session_step cfg op (s, g, e) = ((s', g', e'), ev)"
  shows "(case ev of Sealed c \<Rightarrow> c = s_tx_counter s \<and> s_tx_counter s' = s_tx_counter s + 1
    | Rekeyed \<Rightarrow> s_tx_counter s' = 0 | _ \<Rightarrow> s_tx_counter s' = s_tx_counter s)"
proof (cases op)
  case (On_datagram pkt cap now)
  obtain r pkt' where o: "awg_session_on_datagram g s cfg pkt cap now = (s', g', pkt', r)"
    and ev: "ev = datagram_event s cfg pkt cap now r"
    using st On_datagram by (auto split: prod.splits)
  have ex: "s_tx_counter (session_expire_prev s now) = s_tx_counter s" by (simp add: session_expire_prev_def)
  from o show ?thesis
  proof (cases rule: on_datagram_cases)
    case (opened plain ctr on_prev q)
    have "s_tx_counter s' = s_tx_counter (session_expire_prev s now)" "fst q \<noteq> AWG_RX_ESTABLISHED"
      using opened(3) by (auto simp: session_deliver_def Let_def split: if_splits prod.splits)
    with opened ev ex show ?thesis
      by (cases q; cases "fst q") (simp_all add: datagram_event_def)
  qed (use ev ex in \<open>auto simp: datagram_event_def session_promote_def Let_def\<close>)
next
  case (Build_initiation cap now_ms now)
  with st show ?thesis by (auto simp: build_initiation_frame split: prod.splits)
next
  case (Build_data payload cap now_ms)
  with st obtain r where b: "awg_session_build_data s cfg payload cap now_ms e = (s', r, e')" "ev = data_event s r"
    by (auto split: prod.splits)
  with build_data_frame(9) [OF b(1)] show ?thesis by (simp add: data_event_def split: outcome.split)
next
  case (Build_keepalive cap now_ms)
  with st obtain r where b: "awg_session_build_keepalive s cfg cap now_ms e = (s', r, e')" "ev = data_event s r"
    by (auto split: prod.splits)
  with build_keepalive_frame(9) [OF b(1)] show ?thesis by (simp add: data_event_def split: outcome.split)
qed

lemma sealed_under_ge: "(k, c) \<in> set (sealed_under n es) \<Longrightarrow> n \<le> k"
  by (induction n es rule: sealed_under.induct) force+

lemma session_trace_tx:
  assumes "unat (s_tx_counter s) + length ops < 2 ^ 64"
  shows "distinct (sealed_under n (session_trace cfg ops (s, g, e))) \<and>
    (\<forall>(k, c) \<in> set (sealed_under n (session_trace cfg ops (s, g, e))). k = n \<longrightarrow> s_tx_counter s \<le> c)"
  using assms
proof (induction ops arbitrary: s g e n)
  case (Cons op ops)
  obtain s' g' e' ev where st: "session_step cfg op (s, g, e) = ((s', g', e'), ev)" by (metis surj_pair)
  have tr: "session_trace cfg (op # ops) (s, g, e) = ev # session_trace cfg ops (s', g', e')"
    by (simp add: st)
  note tx = session_step_tx [OF st]
  show ?case
  proof (cases ev)
    case Rekeyed
    with tx Cons.prems Cons.IH [of s' "Suc n" g' e'] sealed_under_ge [of _ _ "Suc n"] show ?thesis
      unfolding tr by (fastforce simp: Rekeyed)
  next
    case (Sealed c)
    have u: "unat (s_tx_counter s + 1) = unat (s_tx_counter s) + 1"
      using Cons.prems by (simp add: unat_word_ariths)
    then have "s_tx_counter s < s_tx_counter s + 1" by (simp add: word_less_nat_alt)
    moreover have "unat (s_tx_counter s') + length ops < 2 ^ 64" using Cons.prems u tx Sealed by simp
    ultimately show ?thesis
      using Cons.IH [of s' n g' e'] tx unfolding tr by (fastforce simp: Sealed)
  qed (use tx Cons.prems Cons.IH [of s' n g' e'] st in simp_all)
qed simp

section \<open>The receive path on given packets\<close>

lemma open_other_index:
  assumes ok: "s4_ok cfg" and p: "length prefix = nat (cfg_s4 cfg)" and "idx \<noteq> hs_local_index hs"
  shows "awg_transport_open cfg hs (transport_packet cfg idx key ctr prefix plain) cap =
    (transport_packet cfg idx key ctr prefix plain, Rejected)"
proof -
  let ?pkt = "transport_packet cfg idx key ctr prefix plain"
  let ?clear = "prefix @ transport_hdr cfg idx ctr @ chacha20poly1305_encrypt plain [] ctr key"
  have c: "wrap_pass cfg (nat (cfg_s4 cfg)) 16 ?pkt = ?clear"
    unfolding transport_packet_def p
    using ok by (intro wrap_pass_invol) (auto simp: s4_ok_def p ccp.seal_length)
  have pk: "wrap_pass cfg (nat (cfg_s4 cfg)) 16 ?clear = ?pkt" by (simp add: transport_packet_def p)
  have "get_u32_le (drop 4 (drop (nat (cfg_s4 cfg)) ?clear)) = idx"
    by (simp add: p [symmetric] transport_hdr_def)
  with assms(3) have n: "\<not> get_u32_le (drop 4 (drop (nat (cfg_s4 cfg)) ?clear)) = hs_local_index hs" by simp
  have l: "nat (cfg_s4 cfg) + 32 \<le> length ?pkt" using p by simp
  show ?thesis
    unfolding transport_open_eq [OF ok l] Let_def c pk by (simp only: n simp_thms if_False)
qed

lemma deliver_new_counter:
  assumes "(if on_prev then s_prev_window_max s else s_rx_window_max s) < ctr"
  obtains s' where "session_deliver g s plain ctr on_prev now =
      (s', g, if plain = [] then AWG_RX_HANDLED else AWG_RX_PAYLOAD, plain)"
    "s_packets_rx s' = s_packets_rx s + (if plain = [] then 0 else 1)" "s_last_rx_ms s' = now"
    "s_cur s' = s_cur s" "s_prev s' = s_prev s" "s_established s' = s_established s"
    "s_replays_dropped s' = s_replays_dropped s"
proof -
  obtain s' r where d: "session_deliver g s plain ctr on_prev now = (s', r)" by (metis surj_pair)
  have n: "\<exists>bits'. replay_ok g mx bits ctr = (True, ctr, bits', g)" if "mx < ctr" for mx bits
    using that by (simp add: replay_ok_def Let_def)
  have "r = (g, if plain = [] then AWG_RX_HANDLED else AWG_RX_PAYLOAD, plain) \<and>
    s_packets_rx s' = s_packets_rx s + (if plain = [] then 0 else 1) \<and> s_last_rx_ms s' = now \<and>
    s_cur s' = s_cur s \<and> s_prev s' = s_prev s \<and> s_established s' = s_established s \<and>
    s_replays_dropped s' = s_replays_dropped s"
    using assms d n [of "s_prev_window_max s" "s_prev_window_bits s"] n [of "s_rx_window_max s" "s_rx_window_bits s"]
    by (cases on_prev; cases "plain = []") (auto simp: session_deliver_def Let_def)
  with d that show ?thesis by simp
qed

text \<open>The condition under which the length of a datagram makes it a handshake response.\<close>

definition response_sized :: "awg_session \<Rightarrow> awg_config \<Rightarrow> bytes \<Rightarrow> bool" where
  "response_sized s cfg pkt \<longleftrightarrow>
     s_handshaking s \<and> int (length pkt) = cfg_s2 cfg + int AWG_MSG_RESP_SIZE"

lemma on_datagram_open:
  assumes "s_established s" "\<not> response_sized s cfg pkt"
    and "session_open (session_expire_prev s now) cfg pkt cap = (pkt', Done (plain, ctr), on_prev)"
    and "session_deliver g (session_expire_prev s now) plain ctr on_prev now = (s', g', q)"
  shows "awg_session_on_datagram g s cfg pkt cap now = (s', g', pkt', Some q)"
  using assms by (auto simp: awg_session_on_datagram_def response_sized_def)

lemma expire_prev_frame [simp]:
  "s_cur (session_expire_prev s now) = s_cur s" "s_established (session_expire_prev s now) = s_established s"
  "s_rx_window_max (session_expire_prev s now) = s_rx_window_max s"
  "s_packets_rx (session_expire_prev s now) = s_packets_rx s"
  "s_replays_dropped (session_expire_prev s now) = s_replays_dropped s"
  by (simp_all add: session_expire_prev_def)

lemma on_datagram_transport:
  assumes "s_established s" "\<not> response_sized s cfg pkt"
  shows "awg_session_on_datagram g s cfg pkt cap now =
    (let s = session_expire_prev s now
     in case session_open s cfg pkt cap of
          (pkt, Fault, _) \<Rightarrow> (s, g, pkt, None)
        | (pkt, Rejected, _) \<Rightarrow> (s, g, pkt, Some (AWG_RX_IGNORED, []))
        | (pkt, Done (plain, ctr), on_prev) \<Rightarrow>
            (case session_deliver g s plain ctr on_prev now of (s, g, r) \<Rightarrow> (s, g, pkt, Some r)))"
  using assms by (simp only: awg_session_on_datagram_def response_sized_def if_False if_True simp_thms)

lemma deliver_frame:
  assumes "session_deliver g s plain ctr on_prev now = (s', g', q)"
  shows "s_have_prev s' = s_have_prev s" "s_prev s' = s_prev s"
  using assms by (auto simp: session_deliver_def Let_def split: prod.splits if_splits)

text \<open>A packet of the live keypair with a counter its window has not seen.\<close>

lemma current_packet_delivered:
  assumes est: "s_established s" and sz: "\<not> response_sized s cfg pkt"
    and pkt: "pkt = transport_packet cfg (hs_local_index (s_cur s)) (hs_recv_key (s_cur s)) ctr prefix plain"
    and ok: "s4_ok cfg" "length prefix = nat (cfg_s4 cfg)" "int (length plain) \<le> cap"
    and ctr: "fst (replay_ok g (s_rx_window_max s) (s_rx_window_bits s) ctr)"
  obtains s' g' pkt' where "awg_session_on_datagram g s cfg pkt cap now =
      (s', g', pkt', Some (if plain = [] then AWG_RX_HANDLED else AWG_RX_PAYLOAD, plain))"
proof -
  let ?x = "session_expire_prev s now"
  have w: "s_rx_window_max ?x = s_rx_window_max s" "s_rx_window_bits ?x = s_rx_window_bits s"
    by (simp_all add: session_expire_prev_def)
  obtain pkt' where o: "session_open ?x cfg pkt cap = (pkt', Done (plain, ctr), False)"
    by (simp add: session_open_def pkt open_packet [OF ok])
  obtain mx bits g' where r: "replay_ok g (s_rx_window_max s) (s_rx_window_bits s) ctr = (True, mx, bits, g')"
    using ctr by (metis fst_conv prod_cases4)
  have "\<exists>s'. session_deliver g ?x plain ctr False now =
      (s', g', if plain = [] then AWG_RX_HANDLED else AWG_RX_PAYLOAD, plain)"
    by (cases "plain = []") (simp_all add: session_deliver_def w r Let_def)
  then obtain s' where "session_deliver g ?x plain ctr False now =
      (s', g', if plain = [] then AWG_RX_HANDLED else AWG_RX_PAYLOAD, plain)" by blast
  from on_datagram_open [OF est sz o this] that show ?thesis by blast
qed

section \<open>Properties\<close>

lemma session_init_facts:
  assumes "awg_session_init cfg e = (s, e')"
  shows "0 < s_rekey_after_s s" "0 < s_reject_after_s s" "0 < s_rekey_timeout_s s" "0 < s_keepalive_s s"
    "0 < s_max_tries s" "\<not> s_established s" "\<not> s_handshaking s" "\<not> s_have_prev s" "s_tx_counter s = 0"
    "s_rx_window_max s = 0" "s_rx_window_bits s = 0"
  using assms
  by (simp_all add: awg_session_init_def awg_session_wipe_def Let_def split_beta) force+

text \<open>C1.  No packet is delivered twice.  From a new session on, whatever operations are called, in whatever
  order, with whatever datagrams, no counter is accepted twice under the same keypair: neither while the
  keypair is live, nor after a rotation has retired it, nor across the two.\<close>

theorem no_packet_delivered_twice:
  "distinct (accepted_under 1 (session_trace cfg ops (fst (awg_session_init cfg e), g, e')))"
proof -
  have "rx_inv (fst (awg_session_init cfg e)) g {} {}"
    using session_init_facts [of cfg e "fst (awg_session_init cfg e)" "snd (awg_session_init cfg e)"]
    by (simp add: rx_inv_def replay_seen_def window_rel_empty)
  from session_trace_rx [OF this, of 1 cfg ops e'] show ?thesis by simp
qed



text \<open>C16.  Packets in flight during a rotation are not lost.  For \<open>AWG_PREV_KEEP_MS\<close> after the rotation a
  packet the peer sealed under the retired keypair, with a counter above what that keypair has seen, is still
  delivered, and the live keypair is not disturbed.\<close>

theorem late_packet_delivered:
  assumes "s_established s" "s_have_prev s" "now - s_prev_since_ms s \<le> AWG_PREV_KEEP_MS"
    and "\<not> response_sized s cfg pkt"
    and "pkt = transport_packet cfg (hs_local_index (s_prev s)) (hs_recv_key (s_prev s)) ctr prefix plain"
    and "hs_local_index (s_prev s) \<noteq> hs_local_index (s_cur s)"
    and "s4_ok cfg" "length prefix = nat (cfg_s4 cfg)" "int (length plain) \<le> cap" "plain \<noteq> []"
    and "s_prev_window_max s < ctr"
  shows "\<exists>s' pkt'. awg_session_on_datagram g s cfg pkt cap now = (s', g, pkt', Some (AWG_RX_PAYLOAD, plain)) \<and>
     s_cur s' = s_cur s \<and> s_prev s' = s_prev s \<and> s_packets_rx s' = s_packets_rx s + 1"
proof -
  have x: "session_expire_prev s now = s" using assms(3) by (auto simp: session_expire_prev_def)
  obtain pkt' where o: "session_open s cfg pkt cap = (pkt', Done (plain, ctr), True)"
    using assms by (simp add: session_open_def open_other_index open_packet)
  have c: "(if True then s_prev_window_max s else s_rx_window_max s) < ctr" using assms by simp
  obtain s' where s': "session_deliver g s plain ctr True now = (s', g, AWG_RX_PAYLOAD, plain)"
    "s_packets_rx s' = s_packets_rx s + 1" "s_cur s' = s_cur s" "s_prev s' = s_prev s"
    by (rule deliver_new_counter [OF c, of g plain now]) (use assms(10) in simp)
  from on_datagram_open [of s cfg pkt now cap, unfolded x, OF assms(1,4) o s'(1)] s' show ?thesis by blast
qed

definition sample_session :: awg_session where
  "sample_session = awg_session_wipe
     \<lparr>s_established := True, s_cur := handshake_zero\<lparr>hs_local_index := 8\<rparr>, s_have_prev := True,
      s_prev_since_ms := 1000\<rparr>"

lemma sample_facts:
  "s_established sample_session" "s_have_prev sample_session" "s4_ok sample_config"
  "cfg_s4 sample_config = 12" "hs_local_index (s_prev sample_session) = 0"
  "hs_local_index (s_cur sample_session) = 8" "hs_recv_key (s_prev sample_session) = zero32"
  "\<not> response_sized sample_session cfg pkt" "s_prev_window_max sample_session = 0"
  "s_packets_rx sample_session = 0"
  by (simp_all add: sample_session_def awg_session_wipe_def response_sized_def handshake_zero_def
      sample_config_def s4_ok_def)

theorem late_packet_delivered_witness:
  "\<exists>s' pkt'. awg_session_on_datagram \<lparr>g_replay_behind = 0, g_replay_too_old = False\<rparr> sample_session sample_config
       (transport_packet sample_config 0 zero32 3 (replicate 12 1) [69, 0]) 100 2000
     = (s', \<lparr>g_replay_behind = 0, g_replay_too_old = False\<rparr>, pkt', Some (AWG_RX_PAYLOAD, [69, 0])) \<and>
     s_packets_rx s' = 1"
proof -
  let ?pkt = "transport_packet sample_config 0 zero32 3 (replicate 12 1) [69, 0]"
  have "2000 - s_prev_since_ms sample_session \<le> AWG_PREV_KEEP_MS"
    by (simp add: sample_session_def AWG_PREV_KEEP_MS_def)
  from late_packet_delivered [OF sample_facts(1,2) this sample_facts(8) _ _ sample_facts(3), of ?pkt 3 "replicate 12 1" "[69, 0]" 100]
  show ?thesis by (simp add: sample_facts) blast
qed

text \<open>C17.  Retired keys are erased.  The first datagram that is not a handshake response and comes more than
  \<open>AWG_PREV_KEEP_MS\<close> after a rotation wipes the retired keypair before anything is decrypted: whatever the
  datagram is, no retired key is left afterwards, and a packet sealed under the retired keypair for an index
  other than the live one is ignored.\<close>

theorem retired_keys_erased:
  assumes "s_established s" "s_have_prev s" "now - s_prev_since_ms s > AWG_PREV_KEEP_MS"
    and "\<not> response_sized s cfg pkt" "awg_session_on_datagram g s cfg pkt cap now = (s', g', pkt', r)"
  shows "\<not> s_have_prev s' \<and> s_prev s' = handshake_zero \<and>
    (s4_ok cfg \<and> length prefix = nat (cfg_s4 cfg) \<and> hs_local_index (s_prev s) \<noteq> hs_local_index (s_cur s) \<and>
     pkt = transport_packet cfg (hs_local_index (s_prev s)) (hs_recv_key (s_prev s)) ctr prefix plain
     \<longrightarrow> r = Some (AWG_RX_IGNORED, []))"
proof -
  have x: "\<not> s_have_prev (session_expire_prev s now)" "s_prev (session_expire_prev s now) = handshake_zero"
    using assms(2,3) by (simp_all add: session_expire_prev_def)
  have ig: "r = Some (AWG_RX_IGNORED, [])"
    if "s4_ok cfg" "length prefix = nat (cfg_s4 cfg)" "hs_local_index (s_prev s) \<noteq> hs_local_index (s_cur s)"
      "pkt = transport_packet cfg (hs_local_index (s_prev s)) (hs_recv_key (s_prev s)) ctr prefix plain"
  proof -
    have "awg_transport_open cfg (s_cur (session_expire_prev s now)) pkt cap = (pkt, Rejected)"
      using that by (simp add: open_other_index)
    with x have "session_open (session_expire_prev s now) cfg pkt cap = (pkt, Rejected, False)"
      by (simp add: session_open_def)
    with assms(5) on_datagram_transport [OF assms(1,4), of g cap now] show ?thesis by simp
  qed
  obtain p d b where o: "session_open (session_expire_prev s now) cfg pkt cap = (p, d, b)" by (rule prod_cases3)
  have "s' = session_expire_prev s now \<or>
      (\<exists>plain ctr q. session_deliver g (session_expire_prev s now) plain ctr b now = (s', g', q))"
    using assms(5) on_datagram_transport [OF assms(1,4), of g cap now] o
    by (cases d) (auto simp: Let_def split: prod.splits)
  then have "\<not> s_have_prev s' \<and> s_prev s' = handshake_zero"
    using x deliver_frame by metis
  with ig show ?thesis by blast
qed

text \<open>An established session whose retired keypair is more than three minutes old.\<close>

theorem retired_keys_erased_witness:
  "\<exists>s' g' pkt'. awg_session_on_datagram \<lparr>g_replay_behind = 0, g_replay_too_old = False\<rparr> sample_session sample_config
       (transport_packet sample_config 0 zero32 3 (replicate 12 1) [69, 0]) 100 182000
     = (s', g', pkt', Some (AWG_RX_IGNORED, [])) \<and> \<not> s_have_prev s'"
proof -
  let ?pkt = "transport_packet sample_config 0 zero32 3 (replicate 12 1) [69, 0]"
  obtain s' g' pkt' r where d: "awg_session_on_datagram \<lparr>g_replay_behind = 0, g_replay_too_old = False\<rparr>
      sample_session sample_config ?pkt 100 182000 = (s', g', pkt', r)" by (metis surj_pair)
  have "182000 - s_prev_since_ms sample_session > AWG_PREV_KEEP_MS"
    by (simp add: sample_session_def AWG_PREV_KEEP_MS_def)
  from retired_keys_erased [OF sample_facts(1,2) this sample_facts(8) d, of "replicate 12 1" 3 "[69, 0]"] d
  show ?thesis by (simp add: sample_facts)
qed

lemma create_initiation_length:
  assumes "awg_create_initiation hs now e = (hs', Some msg, e')" "length (hs_s_pub hs) = 32"
  shows "length msg = 148"
  by (rule create_initiation_Some [OF assms(1)]) (simp add: Let_def ccp.seal_length assms(2))

lemma awg_wrap_length:
  assumes "awg_wrap cfg kind e msg cap = (Some pkt, e')"
  shows "int (length pkt) = padding_for cfg kind + int (length msg)" "int (length pkt) \<le> cap"
  by (rule awg_wrap_Some [OF assms], simp)+

text \<open>The retry timer.  When an initiation could be built, the datagram is the \<open>S1\<close> padding and 148 bytes
  long and fits the buffer, the attempt is counted and the timer armed: no further handshake is asked for
  until the configured timeout has passed, and one is from then on (reading the clock difference as the 64-bit
  number it is).  When it could not, only the pending handshake was touched, and nothing is armed.\<close>

lemma initiation_arms_retry:
  assumes "0 < s_rekey_timeout_s s" "s_rekey_timeout_s s < 2 ^ 31"
  shows "case awg_session_build_initiation s cfg cap t now e of
      (s', None, _) \<Rightarrow> s' = s\<lparr>s_pending := s_pending s'\<rparr>
    | (s', Some out, _) \<Rightarrow>
        (awg_session_needs_handshake s' t' \<longleftrightarrow> 1000 * s_rekey_timeout_s s \<le> uint (t' - t)) \<and>
        s_handshaking s' \<and> s_handshake_tries s' = s_handshake_tries s + 1 \<and>
        int (length out) = cfg_s1 cfg + 148 \<and> int (length out) \<le> cap"
proof -
  obtain s' r e' where b: "awg_session_build_initiation s cfg cap t now e = (s', r, e')" by (rule prod_cases3)
  have u: "uint (word_of_int (s_rekey_timeout_s s) * 1000 :: u64) = s_rekey_timeout_s s * 1000"
    using assms by (simp add: uint_word_ariths uint_word_of_int)
  show ?thesis
  proof (cases r)
    case None
    with b show ?thesis
      by (auto simp: awg_session_build_initiation_def Let_def split: prod.splits option.splits)
  next
    case (Some out)
    with b obtain hs now' e1 hs' msg e2 e3 where c: "awg_create_initiation hs now' e1 = (hs', Some msg, e2)"
      and w: "awg_wrap cfg AWG_KIND_INIT e2 msg cap = (Some out, e3)" and p: "length (hs_s_pub hs) = 32"
      and f: "s_handshaking s'" "s_handshake_sent_ms s' = t" "s_rekey_timeout_s s' = s_rekey_timeout_s s"
        "s_handshake_tries s' = s_handshake_tries s + 1"
      by (auto simp: awg_session_build_initiation_def Let_def split: prod.splits option.splits)
    from awg_wrap_length [OF w] create_initiation_length [OF c p] f u b Some show ?thesis
      by (simp add: awg_session_needs_handshake_def word_le_def mult.commute padding_for_def)
  qed
qed

end
