(* ===== verification/Main_Correct.thy ===== *)
theory Main_Correct
  imports Main_Loop Proxy_Correct Session_Correct
begin

text \<open>
  Properties of the main loop: strangers' datagrams change nothing but a counter, rebuilds are spaced, a sleep erases the
  keys and silences the module, the tunnel's sockets are opened and closed in pairs, and what the loop keeps of the
  components' invariants.
\<close>

section \<open>What each step leaves alone\<close>

definition sends :: "act list \<Rightarrow> (int \<times> bytes) list" where
  "sends as = concat (map (\<lambda>a. case a of Sendto fd b \<Rightarrow> [(fd, b)] | _ \<Rightarrow> []) as)"

definition sock_acts :: "act list \<Rightarrow> act list" where
  "sock_acts as = filter (\<lambda>a. case a of New_sock _ \<Rightarrow> True | Close_sock _ \<Rightarrow> True | _ \<Rightarrow> False) as"

lemma acts_append [simp]:
  "sends (xs @ ys) = sends xs @ sends ys" "sock_acts (xs @ ys) = sock_acts xs @ sock_acts ys"
  "sends [] = []" "sock_acts [] = []"
  by (simp_all add: sends_def sock_acts_def)

lemma acts_one [simp]:
  "sends [Sendto fd b] = [(fd, b)]" "sends [Close_sock fd] = []" "sends [New_sock fd] = []" "sends [To_stack b] = []"
  "sends [Alive_mark a b' c u] = []" "sends [Sleep_100ms] = []"
  "sock_acts [Sendto fd b] = []" "sock_acts [Close_sock fd] = [Close_sock fd]" "sock_acts [New_sock fd] = [New_sock fd]"
  "sock_acts [To_stack b] = []" "sock_acts [Alive_mark a b' c u] = []" "sock_acts [Sleep_100ms] = []"
  by (simp_all add: sends_def sock_acts_def)

lemma sock_acts_sends [simp]: "sock_acts (map (Sendto fd) bs) = []"
  by (simp add: sock_acts_def filter_empty_conv)

lemma do_act_simps [simp]:
  "w_fd (do_act as w) = w_fd w" "w_sess (do_act as w) = w_sess w" "w_netif (do_act as w) = w_netif w"
  "w_proxy (do_act as w) = w_proxy w" "w_http (do_act as w) = w_http w" "w_netif_up (do_act as w) = w_netif_up w"
  "w_tunnel_lost (do_act as w) = w_tunnel_lost w" "w_next_rebuild (do_act as w) = w_next_rebuild w"
  "w_acts (do_act as w) = w_acts w @ as" "w_entropy (do_act as w) = w_entropy w" "w_globals (do_act as w) = w_globals w"
  by (simp_all add: do_act_def)

text \<open>The part of the state that only the loop itself changes.\<close>

definition loop_core :: "world \<Rightarrow> int \<times> netif \<times> bool \<times> bool \<times> u64 \<times> act list" where
  "loop_core w = (w_fd w, w_netif w, w_netif_up w, w_tunnel_lost w, w_next_rebuild w, sock_acts (w_acts w))"

lemma core_event [simp]: "loop_core (run_event cfg ev w) = loop_core w"
  by (cases ev) (simp_all add: loop_core_def stack_out_def Let_def split: prod.split option.split)

lemma core_runs [simp]: "loop_core (stack_runs cfg evs w) = loop_core w"
  unfolding stack_runs_def by (induction evs arbitrary: w) simp_all

lemma core_do_act: "sock_acts as = [] \<Longrightarrow> loop_core (do_act as w) = loop_core w"
  by (simp add: loop_core_def)

lemma core_alive [simp]: "loop_core (alive_step m w) = loop_core w"
  by (simp add: alive_step_def loop_core_def)

lemma core_report [simp]: "loop_core (report_step w) = loop_core w"
  by (simp add: report_step_def loop_core_def Let_def)

lemma core_fetch [simp]: "loop_core (fetch_step cfg m w) = loop_core w"
proof -
  have "loop_core (w'\<lparr>w_next_fetch := x\<rparr>) = loop_core w'" "loop_core (w'\<lparr>w_fetches := y, w_http := h\<rparr>) = loop_core w'" for w' x y h
    by (simp_all add: loop_core_def)
  then show ?thesis by (simp add: fetch_step_def Let_def)
qed

lemma core_recv_one [simp]: "loop_core (recv_one cfg dst d w) = loop_core w"
proof -
  have a: "loop_core (w'\<lparr>w_sess := s, w_globals := g\<rparr>) = loop_core w'"
    "loop_core (w'\<lparr>w_sess := s, w_globals := g, w_fault := f\<rparr>) = loop_core w'"
    "loop_core (w'\<lparr>w_stray := x\<rparr>) = loop_core w'" "loop_core (do_act [To_stack b] w') = loop_core w'" for w' s g f x b
    by (simp_all add: loop_core_def)
  show ?thesis by (simp add: recv_one_def Let_def a split: prod.split option.split)
qed

lemma core_recv [simp]: "loop_core (recv_step cfg dst r m w) = loop_core w"
proof -
  have "loop_core (fold (recv_one cfg dst) ds w) = loop_core w" for ds
    by (induction ds arbitrary: w) simp_all
  then show ?thesis by (simp add: recv_step_def)
qed

lemma core_timer [simp]: "loop_core (timer_step cfg m w) = loop_core w"
  by (simp add: timer_step_def)

lemma core_status [simp]: "loop_core (fst (status_step m w)) = loop_core w"
  by (simp add: status_step_def loop_core_def Let_def)

lemma core_wait [simp]: "loop_core (fst (wait_step cfg m w)) = loop_core w"
proof -
  have "loop_core (w'\<lparr>w_proxy := p\<rparr>) = loop_core w'" for w' p by (simp add: loop_core_def)
  then show ?thesis by (simp add: wait_step_def core_do_act split: prod.split)
qed

text \<open>The steps that do change it.\<close>

lemma verdict_frame:
  "w_fd (send_verdict m w) = w_fd w" "w_netif (send_verdict m w) = w_netif w" "w_netif_up (send_verdict m w) = w_netif_up w"
  "w_next_rebuild (send_verdict m w) = w_next_rebuild w" "w_acts (send_verdict m w) = w_acts w"
  "w_sess (send_verdict m w) = w_sess w" "w_proxy (send_verdict m w) = w_proxy w"
  by (simp_all add: send_verdict_def split: option.split)

lemma handshake_frame:
  "w_fd (handshake_step cfg m w) = w_fd w" "w_netif (handshake_step cfg m w) = w_netif w"
  "w_netif_up (handshake_step cfg m w) = w_netif_up w" "w_next_rebuild (handshake_step cfg m w) = w_next_rebuild w"
  "sock_acts (w_acts (handshake_step cfg m w)) = sock_acts (w_acts w)" "w_proxy (handshake_step cfg m w) = w_proxy w"
  by (simp_all add: handshake_step_def Let_def verdict_frame split: prod.split option.split outcome.split)

lemma dead_frame:
  "w_fd (dead_step r w) = w_fd w" "w_netif (dead_step r w) = w_netif w" "w_netif_up (dead_step r w) = w_netif_up w"
  "w_next_rebuild (dead_step r w) = w_next_rebuild w" "w_acts (dead_step r w) = w_acts w" "w_sess (dead_step r w) = w_sess w"
  "w_proxy (dead_step r w) = w_proxy w"
  by (simp_all add: dead_step_def)

lemma bring_up_frame:
  "w_fd (bring_up_step cfg peer m w) = w_fd w" "w_next_rebuild (bring_up_step cfg peer m w) = w_next_rebuild w"
  "w_acts (bring_up_step cfg peer m w) = w_acts w" "w_sess (bring_up_step cfg peer m w) = w_sess w"
  "w_tunnel_lost (bring_up_step cfg peer m w) = w_tunnel_lost w"
  by (simp_all add: bring_up_step_def Let_def split: prod.split)

text \<open>A pass, as far as the socket goes: what follows the rebuild does not touch it.\<close>

definition pass_tail :: "awg_config \<Rightarrow> bytes \<Rightarrow> u32 \<times> u16 \<Rightarrow> main_env \<Rightarrow> world \<Rightarrow> world" where
  "pass_tail cfg peer dst m w =
     (let w = report_step (fetch_step cfg m (bring_up_step cfg peer m (handshake_step cfg m (alive_step m w))));
          (w, revents) = wait_step cfg m w
      in fst (status_step m (timer_step cfg m (recv_step cfg dst revents m (dead_step revents w)))))"

lemma main_pass_split:
  "main_pass cfg peer dst m w = pass_tail cfg peer dst m (rebuild_step cfg m (power_step m (w\<lparr>w_loops := w_loops w + 1\<rparr>)))"
  by (simp add: main_pass_def pass_tail_def Let_def split: prod.split)

lemma core_fields:
  assumes "loop_core a = loop_core b"
  shows "w_fd a = w_fd b" "w_netif a = w_netif b" "w_netif_up a = w_netif_up b" "w_tunnel_lost a = w_tunnel_lost b"
    "w_next_rebuild a = w_next_rebuild b" "sock_acts (w_acts a) = sock_acts (w_acts b)"
  using assms by (simp_all add: loop_core_def)

lemma tail_socket:
  "w_fd (pass_tail cfg peer dst m w) = w_fd w" "w_next_rebuild (pass_tail cfg peer dst m w) = w_next_rebuild w"
  "sock_acts (w_acts (pass_tail cfg peer dst m w)) = sock_acts (w_acts w)"
proof -
  define a where "a = report_step (fetch_step cfg m (bring_up_step cfg peer m (handshake_step cfg m (alive_step m w))))"
  obtain b r where b: "wait_step cfg m a = (b, r)" by fastforce
  define t where "t = pass_tail cfg peer dst m w"
  have t: "t = fst (status_step m (timer_step cfg m (recv_step cfg dst r m (dead_step r b))))"
    by (simp add: t_def pass_tail_def a_def [symmetric] b Let_def)
  have "loop_core t = loop_core (dead_step r b)" unfolding t by simp
  note t = core_fields [OF this]
  have "loop_core b = loop_core a" using core_wait [of cfg m a] by (simp add: b)
  note b' = core_fields [OF this]
  have "loop_core a = loop_core (bring_up_step cfg peer m (handshake_step cfg m (alive_step m w)))" unfolding a_def by simp
  note a' = core_fields [OF this]
  note w' = core_fields [OF core_alive [of m w]]
  show "w_fd (pass_tail cfg peer dst m w) = w_fd w" "w_next_rebuild (pass_tail cfg peer dst m w) = w_next_rebuild w"
    "sock_acts (w_acts (pass_tail cfg peer dst m w)) = sock_acts (w_acts w)"
    unfolding t_def [symmetric] t dead_frame b' a' bring_up_frame handshake_frame w' by (rule refl)+
qed

section \<open>Sockets\<close>

text \<open>The descriptor a sequence of calls leaves open; \<open>None\<close> when one was opened while another was open, or one was
  closed that was not open.\<close>

fun sock_act :: "act \<Rightarrow> int option option \<Rightarrow> int option option" where
  "sock_act (New_sock fd) h = (if fd < 0 then h else if h = Some None then Some (Some fd) else None)"
| "sock_act (Close_sock fd) h = (if h = Some (Some fd) then Some None else None)"
| "sock_act _ h = h"

definition sock_held :: "act list \<Rightarrow> int option option" where
  "sock_held as = fold sock_act as (Some None)"

definition fd_state :: "int \<Rightarrow> int option option" where
  "fd_state fd = Some (if 0 \<le> fd then Some fd else None)"

lemma sock_held_acts: "sock_held as = sock_held (sock_acts as)"
proof -
  have "fold sock_act as h = fold sock_act (sock_acts as) h" for h
  proof (induction as arbitrary: h)
    case (Cons a as)
    then show ?case by (cases a) (simp_all add: sock_acts_def)
  qed simp
  then show ?thesis by (simp add: sock_held_def)
qed

lemma sock_held_append: "sock_held (as @ bs) = fold sock_act bs (sock_held as)"
  by (simp add: sock_held_def)

definition socks_ok :: "world \<Rightarrow> bool" where
  "socks_ok w \<longleftrightarrow> sock_held (w_acts w) = fd_state (w_fd w)"

lemma power_socks: "socks_ok w \<Longrightarrow> socks_ok (power_step m w)"
  by (auto simp: socks_ok_def power_step_def Let_def sock_held_append fd_state_def split: prod.split)

lemma rebuild_socks: "socks_ok w \<Longrightarrow> socks_ok (rebuild_step cfg m w)"
  by (auto simp: socks_ok_def rebuild_step_def Let_def sock_held_append fd_state_def split: prod.split)

lemma tail_socks: "socks_ok w \<Longrightarrow> socks_ok (pass_tail cfg peer dst m w)"
  unfolding socks_ok_def
  using sock_held_acts [of "w_acts w"] sock_held_acts [of "w_acts (pass_tail cfg peer dst m w)"] by (simp add: tail_socket)

lemma pass_socks: "socks_ok w \<Longrightarrow> socks_ok (main_pass cfg peer dst m w)"
  unfolding main_pass_split by (intro tail_socks rebuild_socks power_socks) (simp add: socks_ok_def)

lemma start_socks: "main_start cfg p prx fd g e = Some w \<Longrightarrow> socks_ok w"
  by (auto simp: main_start_def socks_ok_def sock_held_def fd_state_def Let_def split: if_splits prod.splits)

section \<open>Rebuilds\<close>

definition new_socks :: "act list \<Rightarrow> act list" where
  "new_socks as = filter (\<lambda>a. case a of New_sock _ \<Rightarrow> True | _ \<Rightarrow> False) as"

lemma new_socks_acts: "new_socks as = new_socks (sock_acts as)"
  unfolding new_socks_def sock_acts_def by (induction as) (auto split: act.split)

lemma power_rebuild:
  "w_next_rebuild (power_step m w) = w_next_rebuild w" "new_socks (w_acts (power_step m w)) = new_socks (w_acts w)"
  by (simp_all add: power_step_def Let_def new_socks_def split: prod.split)

lemma rebuild_rebuild:
  "rebuild_step cfg m w = w \<or>
   w_next_rebuild w \<le> me_now m \<and> w_next_rebuild (rebuild_step cfg m w) = me_now m + 3000 \<and>
   new_socks (w_acts (rebuild_step cfg m w)) = new_socks (w_acts w) @ [New_sock (me_socket m)]"
  by (simp add: rebuild_step_def Let_def new_socks_def split: prod.split)

lemma pass_rebuild:
  assumes w'_def: "w' = main_pass cfg peer dst m w"
  shows "w_next_rebuild w' = w_next_rebuild w \<and> new_socks (w_acts w') = new_socks (w_acts w) \<or>
   w_next_rebuild w \<le> me_now m \<and> w_next_rebuild w' = me_now m + 3000 \<and>
   new_socks (w_acts w') = new_socks (w_acts w) @ [New_sock (me_socket m)]"
proof -
  define v where "v = power_step m (w\<lparr>w_loops := w_loops w + 1\<rparr>)"
  have v: "w_next_rebuild v = w_next_rebuild w" "new_socks (w_acts v) = new_socks (w_acts w)"
    by (simp_all add: v_def power_rebuild)
  have t: "w_next_rebuild w' = w_next_rebuild (rebuild_step cfg m v)"
    "new_socks (w_acts w') = new_socks (w_acts (rebuild_step cfg m v))"
    using tail_socket(2,3) [of cfg peer dst m "rebuild_step cfg m v"]
    by (simp_all add: w'_def main_pass_split v_def) (metis new_socks_acts)
  show ?thesis using rebuild_rebuild [of cfg m v] unfolding t v by (metis v)
qed

text \<open>The times of the passes in which a new socket was asked for.\<close>

primrec rebuild_times :: "awg_config \<Rightarrow> bytes \<Rightarrow> u32 \<times> u16 \<Rightarrow> main_env list \<Rightarrow> world \<Rightarrow> nat list" where
  "rebuild_times cfg peer dst [] w = []"
| "rebuild_times cfg peer dst (m # ms) w =
     (let w' = main_pass cfg peer dst m w
      in (if new_socks (w_acts w') = new_socks (w_acts w) then [] else [unat (me_now m)]) @ rebuild_times cfg peer dst ms w')"

lemma rebuild_times_spaced:
  assumes "list_all (\<lambda>m. unat (me_now m) + 3000 < 2 ^ 64) ms"
  shows "sorted_wrt (\<lambda>a b. a + 3000 \<le> b) (rebuild_times cfg peer dst ms w) \<and>
    (\<forall>t\<in>set (rebuild_times cfg peer dst ms w). unat (w_next_rebuild w) \<le> t)"
  using assms
proof (induction ms arbitrary: w)
  case (Cons m ms)
  define w' where "w' = main_pass cfg peer dst m w"
  define ts where "ts = rebuild_times cfg peer dst ms w'"
  have ih: "sorted_wrt (\<lambda>a b. a + 3000 \<le> b) ts" "\<And>t. t \<in> set ts \<Longrightarrow> unat (w_next_rebuild w') \<le> t"
    using Cons.IH [of w'] Cons.prems by (auto simp: ts_def)
  have n: "unat (me_now m + 3000) = unat (me_now m) + 3000" using Cons.prems by (simp add: unat_word_ariths)
  consider "w_next_rebuild w' = w_next_rebuild w" "new_socks (w_acts w') = new_socks (w_acts w)"
    | "w_next_rebuild w \<le> me_now m" "w_next_rebuild w' = me_now m + 3000" "new_socks (w_acts w') \<noteq> new_socks (w_acts w)"
    using pass_rebuild [OF w'_def] by auto
  then show ?case
  proof cases
    case 1
    then have "rebuild_times cfg peer dst (m # ms) w = ts" by (simp add: w'_def [symmetric] ts_def)
    with ih 1 show ?thesis by simp
  next
    case 2
    then have r: "rebuild_times cfg peer dst (m # ms) w = unat (me_now m) # ts" by (simp add: w'_def [symmetric] ts_def)
    have le: "unat (w_next_rebuild w) \<le> unat (me_now m)" using 2(1) by (simp add: word_le_nat_alt)
    have "unat (me_now m) + 3000 \<le> t" if "t \<in> set ts" for t using ih(2) [OF that] 2(2) n by simp
    with le ih(1) show ?thesis unfolding r by fastforce
  qed
qed simp

section \<open>Strangers\<close>

lemma event_stray: "run_event cfg ev (w\<lparr>w_stray := x\<rparr>) = (run_event cfg ev w)\<lparr>w_stray := x\<rparr>"
  by (cases ev) (simp_all add: stack_out_def do_act_def Let_def split: prod.split option.split)

lemma runs_stray: "stack_runs cfg evs (w\<lparr>w_stray := x\<rparr>) = (stack_runs cfg evs w)\<lparr>w_stray := x\<rparr>"
  unfolding stack_runs_def by (induction evs arbitrary: w) (simp_all add: event_stray)

lemma event_keeps_stray: "w_stray (run_event cfg ev w) = w_stray w"
  by (cases ev) (simp_all add: stack_out_def do_act_def Let_def split: prod.split option.split)

lemma runs_keep_stray: "w_stray (stack_runs cfg evs w) = w_stray w"
  unfolding stack_runs_def by (induction evs arbitrary: w) (simp_all add: event_keeps_stray)

lemma recv_one_stray:
  "from_peer dst d \<Longrightarrow> recv_one cfg dst d (w\<lparr>w_stray := x\<rparr>) = (recv_one cfg dst d w)\<lparr>w_stray := x\<rparr>"
  "from_peer dst d \<Longrightarrow> w_stray (recv_one cfg dst d w) = w_stray w"
proof -
  have c: "w'\<lparr>w_stray := x, w_sess := s, w_globals := g\<rparr> = w'\<lparr>w_sess := s, w_globals := g\<rparr>\<lparr>w_stray := x\<rparr>"
    "do_act as (w'\<lparr>w_stray := x\<rparr>) = (do_act as w')\<lparr>w_stray := x\<rparr>" for w' s g as
    by (simp_all add: do_act_def)
  have k: "w_stray (do_act as w') = w_stray w'" for as w' by (simp add: do_act_def)
  assume p: "from_peer dst d"
  obtain s g q r where o: "awg_session_on_datagram (w_globals w) (w_sess w) cfg (rx_bytes d) 2048 (rx_now d) = (s, g, q, r)"
    by (rule prod_cases4)
  show "recv_one cfg dst d (w\<lparr>w_stray := x\<rparr>) = (recv_one cfg dst d w)\<lparr>w_stray := x\<rparr>"
    using p o by (simp add: recv_one_def Let_def c runs_stray split: option.split prod.split)
  show "w_stray (recv_one cfg dst d w) = w_stray w"
    using p o by (simp add: recv_one_def Let_def runs_keep_stray k split: option.split prod.split)
qed

lemma fold_recv_stray:
  "list_all (from_peer dst) ds \<Longrightarrow> fold (recv_one cfg dst) ds (w\<lparr>w_stray := x\<rparr>) = (fold (recv_one cfg dst) ds w)\<lparr>w_stray := x\<rparr>"
  by (induction ds arbitrary: w) (simp_all add: recv_one_stray)

lemma fold_recv_keeps: "list_all (from_peer dst) ds \<Longrightarrow> w_stray (fold (recv_one cfg dst) ds w) = w_stray w"
  by (induction ds arbitrary: w) (simp_all add: recv_one_stray)

lemma fold_recv_filter:
  "fold (recv_one cfg dst) ds w =
   (fold (recv_one cfg dst) (filter (from_peer dst) ds) w)
     \<lparr>w_stray := w_stray w + of_nat (length (filter (\<lambda>d. \<not> from_peer dst d) ds))\<rparr>"
proof (induction ds arbitrary: w)
  case Nil
  then show ?case by simp
next
  case (Cons d ds)
  define ps where "ps = filter (from_peer dst) ds"
  have ps: "list_all (from_peer dst) ps" by (simp add: ps_def list_all_iff)
  show ?case
  proof (cases "from_peer dst d")
    case True
    then show ?thesis using Cons [of "recv_one cfg dst d w"] by (simp add: recv_one_stray)
  next
    case False
    then have "recv_one cfg dst d w = w\<lparr>w_stray := w_stray w + 1\<rparr>" by (simp add: recv_one_def)
    then show ?thesis
      using Cons [of "w\<lparr>w_stray := w_stray w + 1\<rparr>"] fold_recv_stray [OF ps, where cfg = cfg and w = w] False
      by (simp add: ps_def add.assoc)
  qed
qed

section \<open>Asleep\<close>

text \<open>The tunnel is down: no keys, no descriptor, neither here nor under lwIP.\<close>

definition down :: "world \<Rightarrow> bool" where
  "down w \<longleftrightarrow> w_sess w = awg_session_wipe \<and> w_fd w < 0 \<and> nif_fd (w_netif w) = -1"

lemma wipe_not_established [simp]: "\<not> s_established awg_session_wipe"
  by (simp add: awg_session_wipe_def)

lemma event_down:
  assumes "w_sess w = awg_session_wipe"
  shows "w_sess (run_event cfg ev w) = w_sess w" "sends (w_acts (run_event cfg ev w)) = sends (w_acts w)"
  using assms by (cases ev, simp_all add: stack_out_def tunnel_output_def Let_def)+

lemma runs_down:
  assumes "w_sess w = awg_session_wipe"
  shows "w_sess (stack_runs cfg evs w) = w_sess w" "sends (w_acts (stack_runs cfg evs w)) = sends (w_acts w)"
  using assms unfolding stack_runs_def by (induction evs arbitrary: w) (simp_all add: event_down)

lemma tail_down:
  assumes d: "down w"
  shows "down (pass_tail cfg peer dst m w)" "sends (w_acts (pass_tail cfg peer dst m w)) = sends (w_acts w)"
proof -
  have s: "w_sess w = awg_session_wipe" "w_fd w < 0" using d by (simp_all add: down_def)
  define a where "a = alive_step m w"
  have a: "w_sess a = awg_session_wipe" "w_fd a < 0" "w_netif a = w_netif w" "sends (w_acts a) = sends (w_acts w)"
    using s by (simp_all add: a_def alive_step_def)
  have h: "handshake_step cfg m a = a" "bring_up_step cfg peer m a = a" "fetch_step cfg m a = a"
    using a by (simp_all add: handshake_step_def bring_up_step_def fetch_step_def)
  define b where "b = report_step a"
  have b: "w_sess b = awg_session_wipe" "w_fd b < 0" "w_netif b = w_netif w" "sends (w_acts b) = sends (w_acts w)"
    using a by (simp_all add: b_def report_step_def Let_def)
  define c where "c = do_act [Sleep_100ms] b"
  have c: "w_sess c = awg_session_wipe" "w_fd c < 0" "w_netif c = w_netif w" "sends (w_acts c) = sends (w_acts w)"
    using b by (simp_all add: c_def)
  have t: "pass_tail cfg peer dst m w = fst (status_step m (timer_step cfg m c))"
    using b by (simp add: pass_tail_def a_def [symmetric] h b_def [symmetric] wait_step_def c_def Let_def dead_step_def recv_step_def)
  define e where "e = timer_step cfg m c"
  have e: "w_sess e = awg_session_wipe" "sends (w_acts e) = sends (w_acts w)" "w_fd e < 0" "w_netif e = w_netif w"
    using c runs_down [OF c(1)] core_fields [OF core_timer [of cfg m c]] by (simp_all add: e_def timer_step_def)
  have "w_sess (fst (status_step m e)) = w_sess e" "w_acts (fst (status_step m e)) = w_acts e"
    "w_fd (fst (status_step m e)) = w_fd e" "w_netif (fst (status_step m e)) = w_netif e"
    by (simp_all add: status_step_def Let_def)
  with e d show "down (pass_tail cfg peer dst m w)" "sends (w_acts (pass_tail cfg peer dst m w)) = sends (w_acts w)"
    unfolding t e_def [symmetric] by (simp_all add: down_def)
qed

lemma rebuild_down:
  assumes "down w" "me_now m < w_next_rebuild w \<or> me_socket m < 0"
  shows "down (rebuild_step cfg m w)" "sends (w_acts (rebuild_step cfg m w)) = sends (w_acts w)"
  using assms by (auto simp: rebuild_step_def Let_def down_def)

lemma power_drops:
  assumes "awg_power_transition (me_log_range m) (me_log_query m) (w_power w) = (p, True)" "w_next_power w \<le> me_now m"
    "s_established (w_sess w)" "\<not> w_tunnel_lost w"
  shows "down (power_step m w)" "sends (w_acts (power_step m w)) = sends (w_acts w)" "w_tunnel_lost (power_step m w)"
    "w_next_rebuild (power_step m w) = w_next_rebuild w"
  using assms by (auto simp: power_step_def Let_def down_def awg_netif_set_fd_def)

section \<open>The descriptor under lwIP\<close>

definition lwip_live :: "world \<Rightarrow> bool" where
  "lwip_live w \<longleftrightarrow> (nif_bound (w_netif w) \<longrightarrow> nif_fd (w_netif w) = w_fd w)"

lemma power_live: "lwip_live w \<Longrightarrow> lwip_live (power_step m w)"
  by (simp add: lwip_live_def power_step_def Let_def awg_netif_set_fd_def split: prod.split)

lemma rebuild_live: "lwip_live w \<Longrightarrow> 0 \<le> me_socket m \<Longrightarrow> lwip_live (rebuild_step cfg m w)"
  by (simp add: lwip_live_def rebuild_step_def Let_def awg_netif_set_fd_def split: prod.split)

lemma bring_up_live: "lwip_live w \<Longrightarrow> lwip_live (bring_up_step cfg peer m w)"
  by (simp add: lwip_live_def bring_up_step_def awg_netif_start_def tunnel_netif_init_def Let_def)

lemma live_core: "loop_core a = loop_core b \<Longrightarrow> lwip_live a = lwip_live b"
  by (simp add: lwip_live_def loop_core_def)

lemma tail_live:
  assumes "lwip_live w" shows "lwip_live (pass_tail cfg peer dst m w)"
proof -
  define a where "a = report_step (fetch_step cfg m (bring_up_step cfg peer m (handshake_step cfg m (alive_step m w))))"
  have "lwip_live (handshake_step cfg m (alive_step m w))"
    using assms live_core [OF core_alive] by (simp add: lwip_live_def handshake_frame)
  from bring_up_live [OF this] have a: "lwip_live a" unfolding a_def using live_core [OF core_report] live_core [OF core_fetch] by blast
  obtain b r where b: "wait_step cfg m a = (b, r)" by fastforce
  have "lwip_live b" using a live_core [OF core_wait [of cfg m a]] by (simp add: b)
  then have "lwip_live (dead_step r b)" by (simp add: lwip_live_def dead_frame)
  moreover have "loop_core (pass_tail cfg peer dst m w) = loop_core (dead_step r b)"
    by (simp add: pass_tail_def a_def [symmetric] b Let_def)
  ultimately show ?thesis using live_core by blast
qed

lemma pass_live:
  assumes "lwip_live w" "0 \<le> me_socket m" shows "lwip_live (main_pass cfg peer dst m w)"
proof -
  have "lwip_live (w\<lparr>w_loops := w_loops w + 1\<rparr>)" using assms(1) by (simp add: lwip_live_def)
  then show ?thesis unfolding main_pass_split by (intro tail_live rebuild_live power_live assms(2))
qed

text \<open>When no new socket can be opened, lwIP is left with the number of the one just closed, on a session that still
  has its keys: its next packet is sealed and sent to whatever that number stands for by then.\<close>

lemma failed_rebuild_leaves_descriptor:
  assumes "w_tunnel_lost w" "w_next_rebuild w \<le> me_now m" "0 \<le> w_fd w" "me_socket m < 0" "nif_fd (w_netif w) = w_fd w"
    and w'_def: "w' = rebuild_step cfg m w"
  shows "w_acts w' = w_acts w @ [Close_sock (w_fd w), New_sock (me_socket m)]" "nif_fd (w_netif w') = w_fd w"
    "w_sess w' = w_sess w" "w_netif_up w' = w_netif_up w"
  using assms by (simp_all add: w'_def rebuild_step_def Let_def)

lemma closed_descriptor_used:
  assumes "nif_bound (w_netif w)" "s_established (w_sess w)" "tot_len p = length (concat (pb_parts p))" "tot_len p \<le> TUNNEL_MTU"
    "awg_session_build_data (w_sess w) cfg (concat (pb_parts p)) 2048 (ucast clock) (w_entropy w) = (s, Done out, e)"
  shows "w_acts (stack_out cfg p clock sent w) = w_acts w @ [Sendto (nif_fd (w_netif w)) out]"
  using assms by (simp add: stack_out_def tunnel_output_def pbuf_copy_partial_take Let_def)

section \<open>The proxy inside the module\<close>

text \<open>What lwIP may call back with: the slot a pcb belongs to, in the state its registration implies; a resolver's
  answer at any time.\<close>

definition event_ok :: "proxy \<Rightarrow> stack_event \<Rightarrow> bool" where
  "event_ok p ev \<longleftrightarrow>
     (case ev of
        Proxy_recv arg pb err \<Rightarrow> (case arg of Some i \<Rightarrow> i < MAX_CONN \<and> c_st (conn_at p i) = ST_RELAY | None \<Rightarrow> False)
      | Proxy_err arg \<Rightarrow> (case arg of Some i \<Rightarrow> i < MAX_CONN \<and> c_st (conn_at p i) \<noteq> ST_FREE | None \<Rightarrow> False)
      | Proxy_conn arg err \<Rightarrow> (case arg of Some i \<Rightarrow> i < MAX_CONN \<and> c_st (conn_at p i) = ST_CONNECTING | None \<Rightarrow> False)
      | Proxy_dns nm ip arg pcb r \<Rightarrow> (case arg of Some i \<Rightarrow> i < MAX_CONN | None \<Rightarrow> False)
      | _ \<Rightarrow> True)"

fun proxy_event :: "stack_event \<Rightarrow> proxy \<Rightarrow> proxy" where
  "proxy_event (Proxy_recv arg pb err) p = fst (on_recv arg pb err p)"
| "proxy_event (Proxy_err arg) p = on_err arg p"
| "proxy_event (Proxy_conn arg err) p = fst (on_connected arg err p)"
| "proxy_event (Proxy_dns name ip arg pcb connect) p = on_resolved name ip arg pcb connect p"
| "proxy_event _ p = p"

primrec events_ok :: "stack_event list \<Rightarrow> proxy \<Rightarrow> bool" where
  "events_ok [] p \<longleftrightarrow> True"
| "events_ok (ev # evs) p \<longleftrightarrow> event_ok p ev \<and> events_ok evs (proxy_event ev p)"

text \<open>The steps a pass is made of, in any order and any number, lwIP running inside them as it does in the loop.\<close>

inductive module_reach :: "awg_config \<Rightarrow> bytes \<Rightarrow> u32 \<times> u16 \<Rightarrow> world \<Rightarrow> bool" for cfg peer dst where
  start: "main_start cfg p proxy_static fd g e = Some w \<Longrightarrow> module_reach cfg peer dst w"
| turn: "module_reach cfg peer dst w \<Longrightarrow> module_reach cfg peer dst (w\<lparr>w_loops := w_loops w + 1\<rparr>)"
| power: "module_reach cfg peer dst w \<Longrightarrow> module_reach cfg peer dst (power_step m w)"
| rebuild: "module_reach cfg peer dst w \<Longrightarrow> module_reach cfg peer dst (rebuild_step cfg m w)"
| alive: "module_reach cfg peer dst w \<Longrightarrow> module_reach cfg peer dst (alive_step m w)"
| handshake: "module_reach cfg peer dst w \<Longrightarrow> module_reach cfg peer dst (handshake_step cfg m w)"
| bring_up: "module_reach cfg peer dst w \<Longrightarrow> module_reach cfg peer dst (bring_up_step cfg peer m w)"
| fetch: "module_reach cfg peer dst w \<Longrightarrow> events_ok (me_fetch_events m) (w_proxy w) \<Longrightarrow>
    module_reach cfg peer dst (fetch_step cfg m w)"
| report: "module_reach cfg peer dst w \<Longrightarrow> module_reach cfg peer dst (report_step w)"
| wait: "module_reach cfg peer dst w \<Longrightarrow>
    events_ok (me_poll_events m) (fst (awg_proxy_poll 100 (w_fd w) (me_poll m) (w_proxy w))) \<Longrightarrow>
    module_reach cfg peer dst (fst (wait_step cfg m w))"
| dead: "module_reach cfg peer dst w \<Longrightarrow> module_reach cfg peer dst (dead_step r w)"
| recv: "module_reach cfg peer dst w \<Longrightarrow> events_ok (rx_events d) (w_proxy w) \<Longrightarrow> module_reach cfg peer dst (recv_one cfg dst d w)"
| timers: "module_reach cfg peer dst w \<Longrightarrow> events_ok (me_timer_events m) (w_proxy w) \<Longrightarrow>
    module_reach cfg peer dst (timer_step cfg m w)"
| status: "module_reach cfg peer dst w \<Longrightarrow> module_reach cfg peer dst (fst (status_step m w))"

definition proxy_ok :: "world \<Rightarrow> bool" where
  "proxy_ok w \<longleftrightarrow> (nif_ready (w_netif w) \<longrightarrow> w_netif_up w) \<and>
     (if w_netif_up w then proxy_reach (w_proxy w) else w_proxy w = proxy_static)"

lemma stop_static: "awg_proxy_stop proxy_static = proxy_static"
proof -
  have "fold (\<lambda>i. conn_close i False) xs proxy_static = proxy_static" if "list_all (\<lambda>i. i < MAX_CONN) xs" for xs
    using that by (induction xs) (simp_all add: conn_close_def Let_def proxy_static_def conn_zero_def)
  then show ?thesis by (simp add: awg_proxy_stop_def Let_def list_all_iff) (simp add: proxy_static_def)
qed

lemma proxy_event_eq: "w_proxy (run_event cfg ev w) = proxy_event ev (w_proxy w)"
  by (cases ev) (simp_all add: stack_out_def Let_def split: prod.split option.split)

lemma proxy_event_reach: "proxy_reach p \<Longrightarrow> event_ok p ev \<Longrightarrow> proxy_reach (proxy_event ev p)"
  by (cases ev) (auto simp: event_ok_def intro: proxy_reach.intros split: option.splits)

lemma runs_reach:
  "proxy_reach (w_proxy w) \<Longrightarrow> events_ok evs (w_proxy w) \<Longrightarrow> proxy_reach (w_proxy (stack_runs cfg evs w))"
  unfolding stack_runs_def
  by (induction evs arbitrary: w) (simp_all add: proxy_event_eq proxy_event_reach)

lemma runs_proxy_ok:
  assumes "proxy_ok w" "w_netif_up w" "events_ok evs (w_proxy w)" shows "proxy_ok (stack_runs cfg evs w)"
  using assms runs_reach [of w evs cfg] core_fields [OF core_runs [of cfg evs w]] by (simp add: proxy_ok_def)

lemma netif_ready_frame:
  "nif_ready (awg_netif_set_fd fd n) = nif_ready n"
  "awg_netif_start cfg fd peer added n = (n', ok) \<Longrightarrow> nif_ready n' \<longrightarrow> nif_ready n \<or> ok"
  by (auto simp: awg_netif_set_fd_def awg_netif_start_def tunnel_netif_init_def Let_def split: if_splits)

lemma wait_proxy_ok:
  assumes "proxy_ok w" "events_ok (me_poll_events m) (fst (awg_proxy_poll 100 (w_fd w) (me_poll m) (w_proxy w)))"
  shows "proxy_ok (fst (wait_step cfg m w))"
proof (cases "w_fd w < 0 \<or> \<not> w_netif_up w")
  case True
  with assms show ?thesis by (auto simp: proxy_ok_def wait_step_def)
next
  case False
  define v where "v = w\<lparr>w_proxy := fst (awg_proxy_poll 100 (w_fd w) (me_poll m) (w_proxy w))\<rparr>"
  have "proxy_ok v" "w_netif_up v" using assms(1) False by (simp_all add: proxy_ok_def v_def proxy_reach.poll)
  from runs_proxy_ok [OF this, of "me_poll_events m" cfg] assms(2) False show ?thesis
    by (simp add: v_def wait_step_def split_beta)
qed

lemma recv_proxy_ok:
  assumes "proxy_ok w" "events_ok (rx_events d) (w_proxy w)" shows "proxy_ok (recv_one cfg dst d w)"
proof -
  obtain s g q r where o: "awg_session_on_datagram (w_globals w) (w_sess w) cfg (rx_bytes d) 2048 (rx_now d) = (s, g, q, r)"
    by (rule prod_cases4)
  define v where "v pkt = do_act [To_stack pkt] (w\<lparr>w_sess := s, w_globals := g\<rparr>)" for pkt
  have v: "proxy_ok (v pkt)" "w_netif_up (v pkt) = w_netif_up w" "w_proxy (v pkt) = w_proxy w" for pkt
    using assms(1) by (simp_all add: proxy_ok_def v_def)
  have "proxy_ok (stack_runs cfg (rx_events d) (v pkt))" if "awg_netif_input (w_netif w) pl al ta = Some pkt" for pl al ta pkt
    using that assms v runs_proxy_ok [OF v(1), of pkt "rx_events d" cfg]
    by (auto simp: awg_netif_input_def proxy_ok_def split: if_splits)
  then show ?thesis
    using assms(1) o by (auto simp: recv_one_def Let_def v_def proxy_ok_def split: option.split)
qed

lemma fetch_proxy_ok:
  assumes "proxy_ok w" "events_ok (me_fetch_events m) (w_proxy w)" shows "proxy_ok (fetch_step cfg m w)"
proof -
  define v where "v = w\<lparr>w_fetches := w_fetches w + 1, w_http := fst (http_start (me_http_now m) (me_pcb m) (me_connect m) (w_http w))\<rparr>"
  have "proxy_ok (stack_runs cfg (me_fetch_events m) v)" if "w_netif_up w"
    by (rule runs_proxy_ok) (use assms that in \<open>simp_all add: v_def proxy_ok_def\<close>)
  with assms(1) show ?thesis by (auto simp: fetch_step_def v_def proxy_ok_def Let_def)
qed

lemma idle_proxy_ok:
  assumes "proxy_ok w"
  shows "proxy_ok (w\<lparr>w_loops := w_loops w + 1\<rparr>)" "proxy_ok (alive_step m w)" "proxy_ok (report_step w)"
    "proxy_ok (fst (status_step m w))"
  using assms by (auto simp: proxy_ok_def alive_step_def report_step_def status_step_def Let_def)

lemma dead_proxy_ok: "proxy_ok w \<Longrightarrow> proxy_ok (dead_step r w)"
  unfolding proxy_ok_def dead_frame .

lemma handshake_proxy_ok: "proxy_ok w \<Longrightarrow> proxy_ok (handshake_step cfg m w)"
  unfolding proxy_ok_def handshake_frame .

lemma reach_proxy_ok: "module_reach cfg peer dst w \<Longrightarrow> proxy_ok w"
proof (induction rule: module_reach.induct)
  case (start p fd g e w)
  then show ?case by (auto simp: main_start_def proxy_ok_def netif_static_def Let_def split: if_splits prod.splits)
next
  case (power w m)
  then show ?case
    by (auto simp: proxy_ok_def power_step_def Let_def stop_static netif_ready_frame intro: proxy_reach.intros split: prod.split)
next
  case (rebuild w m)
  then show ?case
    by (auto simp: proxy_ok_def rebuild_step_def Let_def stop_static netif_ready_frame intro: proxy_reach.intros split: prod.split)
next
  case (bring_up w m)
  then show ?case
    by (auto simp: proxy_ok_def bring_up_step_def Let_def intro: proxy_reach.intros split: prod.split dest!: netif_ready_frame(2))
next
  case (timers w m)
  then show ?case using runs_proxy_ok [of w "me_timer_events m" cfg] by (auto simp: timer_step_def awg_netif_poll_def proxy_ok_def)
qed (simp_all only: fetch_proxy_ok wait_proxy_ok recv_proxy_ok idle_proxy_ok dead_proxy_ok handshake_proxy_ok)

section \<open>Properties\<close>


text \<open>C19.  The tunnel's sockets are kept in order over any run of the loop: they are opened and closed in pairs, never two at
  once, and the open one is the loop's.  As long as every rebuild gets a socket, the descriptor lwIP sends on is
  that one too, or -1 like it.\<close>

theorem tunnel_sockets:
  assumes "main_start cfg p proxy_static fd g e = Some w0"
  shows "let w = fold (main_pass cfg peer dst) ms w0
    in sock_held (w_acts w) = Some (if 0 \<le> w_fd w then Some (w_fd w) else None) \<and>
       (list_all (\<lambda>m. 0 \<le> me_socket m) ms \<longrightarrow> nif_bound (w_netif w) \<longrightarrow> nif_fd (w_netif w) = w_fd w)"
proof -
  have "lwip_live w0"
    using assms by (auto simp: lwip_live_def main_start_def netif_static_def Let_def split: if_splits prod.splits)
  then have "lwip_live (fold (main_pass cfg peer dst) ms w0)" if "list_all (\<lambda>m. 0 \<le> me_socket m) ms"
    using that by (induction ms arbitrary: w0) (simp_all add: pass_live)
  moreover have "socks_ok (fold (main_pass cfg peer dst) ms w0)"
    using start_socks [OF assms] by (induction ms arbitrary: w0) (simp_all add: pass_socks)
  ultimately show ?thesis by (simp add: lwip_live_def socks_ok_def fd_state_def Let_def)
qed

text \<open>C20.  Rebuilds cannot storm.  Over any run of the loop, whatever is detected and however sockets fail, two passes that
  ask for a new socket are at least three seconds apart.\<close>

theorem rebuilds_spaced:
  assumes "list_all (\<lambda>m. unat (me_now m) + 3000 < 2 ^ 64) ms"
  shows "sorted_wrt (\<lambda>a b. a + 3000 \<le> b) (rebuild_times cfg peer dst ms w)"
  using rebuild_times_spaced [OF assms] by simp


text \<open>C21.  The proxy's guarantees hold in the running module.  Whatever order the loop's steps and lwIP's callbacks come in,
  the proxy is untouched while the interface is down and otherwise in a state its own operations reach: so its
  table is well-formed, its connections relay faithfully and its descriptors are balanced there too.\<close>

theorem module_keeps_proxy:
  assumes "module_reach cfg peer dst w" "i < MAX_CONN"
  shows "if w_netif_up w then proxy_reach (w_proxy w) \<and> length (p_conn (w_proxy w)) = MAX_CONN \<and>
      fd_held (slot_calls i (p_out (w_proxy w))) =
        Some (if c_st (conn_at (w_proxy w) i) = ST_FREE then None else Some (c_cfd (conn_at (w_proxy w) i)))
    else w_proxy w = proxy_static"
  using reach_proxy_ok [OF assms(1)] reach_slot(3) [OF _ assms(2), of "w_proxy w"] tabled_length [OF reach_tabled, of "w_proxy w"]
  by (simp add: proxy_ok_def slot_fd_def)

section \<open>Examples\<close>

definition quiet_env :: main_env where
  "quiet_env = \<lparr>me_now = 5000, me_log_range = None, me_log_query = (\<lambda>_ _. None), me_socket = 4, me_listen = 5, me_wall = 0,
     me_time = 0, me_send = None, me_added = True, me_listen_up = 5, me_http_now = 5000, me_pcb = None, me_connect = ERR_OK,
     me_fetch_events = [], me_poll = accept_env, me_poll_events = [], me_plain_ready = False, me_plain_revents = 0,
     me_rx = [], me_timer_events = [], me_status_check = 5000, me_status_now = 5000\<rparr>"

definition world0 :: world where
  "world0 = the (main_start sample_config power_static proxy_static 3 \<lparr>g_replay_behind = 0, g_replay_too_old = False\<rparr> (\<lambda>_. 0))"

lemma world0: "main_start sample_config power_static proxy_static 3 \<lparr>g_replay_behind = 0, g_replay_too_old = False\<rparr> (\<lambda>_. 0) = Some world0"
  by (simp add: world0_def main_start_def split: prod.split)

lemma world0_fields: "\<not> w_netif_up world0" "\<not> w_tunnel_lost world0" "w_next_power world0 = 0"
  by (simp_all add: world0_def main_start_def split: prod.split)

theorem tunnel_sockets_witness:
  "sock_held (w_acts (main_pass sample_config [0, 2] (1, 2) quiet_env world0)) \<noteq> None"
  using tunnel_sockets [OF world0, of "[0, 2]" "(1, 2)" "[quiet_env]"] by (simp add: Let_def)

theorem rebuilds_spaced_witness:
  "sorted_wrt (\<lambda>a b. a + 3000 \<le> b)
     (rebuild_times sample_config [0, 2] (1, 2) [quiet_env, quiet_env\<lparr>me_now := 6000\<rparr>] (world0\<lparr>w_tunnel_lost := True\<rparr>))"
  by (rule rebuilds_spaced) (simp add: quiet_env_def)

definition waking_env :: main_env where
  "waking_env = quiet_env\<lparr>me_log_range := Some (7, 0, 6), me_log_query := (\<lambda>_ _. Some [PowerStateChange]), me_socket := -1\<rparr>"

definition running_world :: world where
  "running_world = world0\<lparr>w_sess := sample_session, w_power := \<lparr>pw_ok = True, pw_last_end = 5, pw_session = True\<rparr>\<rparr>"


theorem module_keeps_proxy_witness:
  "module_reach sample_config [0, 2] (1, 2) world0 \<and> w_proxy world0 = proxy_static"
proof -
  have r: "module_reach sample_config [0, 2] (1, 2) world0" by (rule module_reach.start [OF world0])
  with module_keeps_proxy [OF r, of 0] show ?thesis by (simp add: MAX_CONN_def world0_fields)
qed

end
