(* ===== verification/Recovery.thy ===== *)
theory Recovery
  imports Main_Correct Noise_Correct "HOL-Library.Sublist"
begin

text \<open>
  Recovery of the main loop: when an initiation can be built, what a pass appends to the trace, that a lost tunnel stays
  marked until a rebuild gets its socket, and that the pass that gets it starts a handshake on it.  The last section
  shows that the steps of a pass are steps of the closed system the proxy's invariant is stated over.
\<close>

section \<open>When an initiation goes out\<close>

lemma wrap_None:
  "awg_wrap cfg kind e msg cap = (None, e') \<Longrightarrow>
   cfg_have_header_protection cfg \<and> padding_for cfg kind < 12 \<or> padding_for cfg kind < 0 \<or>
   padding_for cfg kind + int (length msg) > cap"
  by (auto simp: awg_wrap_def Let_def split: if_splits prod.splits)

definition cannot_wrap :: "awg_config \<Rightarrow> awg_kind \<Rightarrow> int \<Rightarrow> int \<Rightarrow> bool" where
  "cannot_wrap cfg kind len cap \<longleftrightarrow>
     cfg_have_header_protection cfg \<and> padding_for cfg kind < 12 \<or> padding_for cfg kind < 0 \<or> padding_for cfg kind + len > cap"

lemma build_initiation_out:
  assumes "random_u32 e = (idx, x0)"
    "awg_create_initiation (awg_handshake_begin (cfg_private_key cfg) (Some (cfg_peer_public_key cfg))
       (if cfg_have_preshared_key cfg then Some (cfg_preshared_key cfg) else None) idx) now x0 = (i1, Some m, x1)"
    "awg_wrap cfg AWG_KIND_INIT x1 m cap = (Some out, x2)"
  obtains s1 where "awg_session_build_initiation s cfg cap at_ms now e = (s1, Some out, x2)" "s_pending s1 = i1" "s_handshaking s1"
  using assms that by (simp add: awg_session_build_initiation_def Let_def)

lemma build_initiation_no_out:
  assumes "random_u32 e = (idx, x0)"
    "awg_create_initiation (awg_handshake_begin (cfg_private_key cfg) (Some (cfg_peer_public_key cfg))
       (if cfg_have_preshared_key cfg then Some (cfg_preshared_key cfg) else None) idx) now x0 = (i1, om, x1)"
    "om = None \<or> (\<exists>m x2. om = Some m \<and> awg_wrap cfg AWG_KIND_INIT x1 m cap = (None, x2))"
  obtains s1 x2 where "awg_session_build_initiation s cfg cap at_ms now e = (s1, None, x2)"
  using assms that by (auto simp: awg_session_build_initiation_def Let_def)

text \<open>The two reasons no initiation is built: the padding leaves no room, or a Diffie-Hellman with the configured peer key
  returns its error (a key of small order).  \<open>e\<close> is the entropy the initiation starts from.\<close>

definition initiation_fails :: "awg_config \<Rightarrow> int \<Rightarrow> entropy \<Rightarrow> bool" where
  "initiation_fails cfg cap e \<longleftrightarrow>
     cannot_wrap cfg AWG_KIND_INIT 148 cap \<or>
     snd (x25519 (fst (awg_generate_private (snd (random_u32 e)))) (cfg_peer_public_key cfg) True) \<noteq> 0 \<or>
     snd (x25519 (cfg_private_key cfg) (cfg_peer_public_key cfg) True) \<noteq> 0"

lemma initiation_built:
  assumes "\<not> initiation_fails cfg cap e"
  obtains s' out e' where "awg_session_build_initiation s cfg cap at_ms now e = (s', Some out, e')"
    "int (length out) = cfg_s1 cfg + 148"
proof -
  obtain idx x0 where x0: "random_u32 e = (idx, x0)" by fastforce
  let ?i = "awg_handshake_begin (cfg_private_key cfg) (Some (cfg_peer_public_key cfg))
    (if cfg_have_preshared_key cfg then Some (cfg_preshared_key cfg) else None) idx"
  obtain i1 om x1 where c: "awg_create_initiation ?i now x0 = (i1, om, x1)" by (rule prod_cases3)
  have "om \<noteq> None"
    using create_initiation_None [of ?i now x0 i1 x1] c assms x0 by (auto simp: initiation_fails_def)
  then obtain m where m: "om = Some m" by blast
  have l: "length m = 148" by (rule create_initiation_length [OF c [unfolded m]]) simp
  obtain ow x2 where w: "awg_wrap cfg AWG_KIND_INIT x1 m cap = (ow, x2)" by fastforce
  have "ow \<noteq> None" using wrap_None [of cfg AWG_KIND_INIT x1 m cap x2] w l assms
    by (auto simp: initiation_fails_def cannot_wrap_def)
  then obtain out where o: "ow = Some out" by blast
  obtain s1 where "awg_session_build_initiation s cfg cap at_ms now e = (s1, Some out, x2)"
    by (rule build_initiation_out [OF x0 c [unfolded m] w [unfolded o]])
  with that awg_wrap_length(1) [OF w [unfolded o]] l show ?thesis by (simp add: padding_for_def)
qed

section \<open>The trace only grows\<close>

lemma grow_fold:
  assumes "\<And>x w. prefix (w_acts w) (w_acts (f x w))" shows "prefix (w_acts w) (w_acts (fold f xs w))"
proof (induction xs arbitrary: w)
  case (Cons x xs)
  from prefix_order.trans [OF assms this] show ?case by simp
qed simp

lemma grow_event: "prefix (w_acts w) (w_acts (run_event cfg ev w))"
  by (cases ev) (auto simp: stack_out_def Let_def split: prod.split option.split)

lemma grow_runs: "prefix (w_acts w) (w_acts (stack_runs cfg evs w))"
  unfolding stack_runs_def by (rule grow_fold) (rule grow_event)

lemma grow_recv_one: "prefix (w_acts w) (w_acts (recv_one cfg dst d w))"
proof -
  have "prefix (w_acts v) (w_acts (stack_runs cfg evs (do_act as v)))" for v evs as
    using prefix_order.trans [OF _ grow_runs, of "w_acts v" "do_act as v"] by simp
  from this [of "w\<lparr>w_sess := s, w_globals := g\<rparr>" for s g] show ?thesis
    by (simp add: recv_one_def Let_def split: prod.split option.split)
qed

lemma grow_recv: "prefix (w_acts w) (w_acts (recv_step cfg dst r m w))"
  by (simp add: recv_step_def grow_fold grow_recv_one)

lemma grow_fetch: "prefix (w_acts w) (w_acts (fetch_step cfg m w))"
  using grow_runs [of "w\<lparr>w_fetches := w_fetches w + 1, w_http := h\<rparr>" for h] by (simp add: fetch_step_def Let_def)

lemma grow_wait: "prefix (w_acts w) (w_acts (fst (wait_step cfg m w)))"
  using grow_runs [of "w\<lparr>w_proxy := p\<rparr>" for p] by (simp add: wait_step_def split: prod.split)

lemma grow_timer: "prefix (w_acts w) (w_acts (timer_step cfg m w))"
  by (simp add: timer_step_def grow_runs)

lemma acts_report [simp]: "w_acts (report_step w) = w_acts w"
  by (simp add: report_step_def Let_def)

lemma acts_status [simp]: "w_acts (fst (status_step m w)) = w_acts w"
  by (simp add: status_step_def Let_def)

lemma grow_tail: "prefix (w_acts (handshake_step cfg m (alive_step m w))) (w_acts (pass_tail cfg peer dst m w))"
proof -
  define a where "a = bring_up_step cfg peer m (handshake_step cfg m (alive_step m w))"
  define b where "b = report_step (fetch_step cfg m a)"
  define c where "c = fst (wait_step cfg m b)"
  define r where "r = snd (wait_step cfg m b)"
  have "prefix (w_acts a) (w_acts b)" by (simp add: b_def grow_fetch)
  also have "prefix (w_acts b) (w_acts c)" by (simp add: c_def grow_wait)
  also have "prefix (w_acts c) (w_acts (recv_step cfg dst r m (dead_step r c)))"
    using grow_recv [of "dead_step r c"] by (simp add: dead_frame)
  also have "prefix (w_acts (recv_step cfg dst r m (dead_step r c))) (w_acts (pass_tail cfg peer dst m w))"
    by (simp add: pass_tail_def a_def [symmetric] b_def [symmetric] c_def r_def Let_def split_beta grow_timer)
  finally show ?thesis by (simp add: a_def bring_up_frame)
qed

lemma sends_prefix: "prefix xs ys \<Longrightarrow> prefix (sends xs) (sends ys)"
  by (auto simp: prefix_def)

lemma sends_map: "sends (map (Sendto fd) bs) = map (Pair fd) bs"
  by (induction bs) (simp_all add: sends_def)

section \<open>Lost until rebuilt\<close>

lemma lost_verdict: "w_tunnel_lost w \<Longrightarrow> w_tunnel_lost (send_verdict m w)"
  by (simp add: send_verdict_def split: option.split)

lemma lost_handshake: "w_tunnel_lost w \<Longrightarrow> w_tunnel_lost (handshake_step cfg m w)"
  by (simp add: handshake_step_def Let_def lost_verdict split: prod.split option.split outcome.split)

lemma lost_tail: "w_tunnel_lost w \<Longrightarrow> w_tunnel_lost (pass_tail cfg peer dst m w)"
proof -
  assume l: "w_tunnel_lost w"
  define a where "a = report_step (fetch_step cfg m (bring_up_step cfg peer m (handshake_step cfg m (alive_step m w))))"
  obtain b r where b: "wait_step cfg m a = (b, r)" by fastforce
  have "loop_core a = loop_core (bring_up_step cfg peer m (handshake_step cfg m (alive_step m w)))" unfolding a_def by simp
  from core_fields(4) [OF this] have "w_tunnel_lost a"
    using l core_fields(4) [OF core_alive] by (simp add: bring_up_frame lost_handshake)
  with core_fields(4) [OF core_wait, of cfg m a] have "w_tunnel_lost b" by (simp add: b)
  then have d: "w_tunnel_lost (dead_step r b)" by (simp add: dead_step_def)
  have "loop_core (pass_tail cfg peer dst m w) = loop_core (dead_step r b)"
    by (simp add: pass_tail_def a_def [symmetric] b Let_def)
  from core_fields(4) [OF this] d show ?thesis by simp
qed

lemma lost_power:
  assumes "w_tunnel_lost w"
  shows "w_tunnel_lost (power_step m w)" "w_next_rebuild (power_step m w) = w_next_rebuild w"
    "w_acts (power_step m w) = w_acts w" "w_entropy (power_step m w) = w_entropy w"
  using assms by (simp_all add: power_step_def Let_def split: prod.split)

lemma lost_pass:
  assumes "w_tunnel_lost w" "me_socket m < 0"
  shows "w_tunnel_lost (main_pass cfg peer dst m w)"
    "w_next_rebuild (main_pass cfg peer dst m w) \<in> {w_next_rebuild w, me_now m + 3000}"
proof -
  define v where "v = power_step m (w\<lparr>w_loops := w_loops w + 1\<rparr>)"
  have "w_tunnel_lost v" using lost_power(1) assms(1) by (simp add: v_def)
  then have "w_tunnel_lost (rebuild_step cfg m v)" using assms(2) by (simp add: rebuild_step_def Let_def)
  then show "w_tunnel_lost (main_pass cfg peer dst m w)" unfolding main_pass_split v_def [symmetric] by (rule lost_tail)
  show "w_next_rebuild (main_pass cfg peer dst m w) \<in> {w_next_rebuild w, me_now m + 3000}"
    using pass_rebuild [OF refl, of cfg peer dst m w] by auto
qed

lemma lost_fold:
  assumes "w_tunnel_lost w" "list_all (\<lambda>m. me_socket m < 0 \<and> unat (me_now m) + 3000 \<le> t) ms"
    "unat (w_next_rebuild w) \<le> t" "t < 2 ^ 64"
  shows "w_tunnel_lost (fold (main_pass cfg peer dst) ms w) \<and>
    unat (w_next_rebuild (fold (main_pass cfg peer dst) ms w)) \<le> t"
  using assms(1-3)
proof (induction ms arbitrary: w)
  case (Cons m ms)
  have "unat (me_now m + 3000) \<le> t"
    using Cons.prems(2) assms(4) by (auto simp: unat_word_ariths)
  then have "unat (w_next_rebuild (main_pass cfg peer dst m w)) \<le> t"
    using lost_pass(2) [of w m cfg peer dst] Cons.prems by auto
  then show ?case using Cons lost_pass(1) [of w m cfg peer dst] by simp
qed simp

lemma rebuild_recovers:
  assumes "w_tunnel_lost w" "w_next_rebuild w \<le> me_now m" "0 \<le> me_socket m"
  shows "w_fd (rebuild_step cfg m w) = me_socket m" "sends (w_acts (rebuild_step cfg m w)) = sends (w_acts w)"
    "w_sess (rebuild_step cfg m w) = fst (awg_session_init cfg (w_entropy w))"
    "w_entropy (rebuild_step cfg m w) = snd (awg_session_init cfg (w_entropy w))"
  using assms by (simp_all add: rebuild_step_def Let_def sends_def split: prod.split)

lemma fresh_session_handshakes: "awg_session_needs_handshake (fst (awg_session_init cfg e)) now"
  by (simp add: awg_session_needs_handshake_def awg_session_init_def awg_session_wipe_def Let_def split: prod.split)

lemma handshake_sends:
  assumes "0 \<le> w_fd w" "awg_session_needs_handshake (w_sess w) (me_now m)" "\<not> initiation_fails cfg 4096 (w_entropy w)"
  obtains junk msg where "int (length msg) = cfg_s1 cfg + 148"
    "w_acts (handshake_step cfg m w) = w_acts w @ map (Sendto (w_fd w)) (junk @ [msg])"
proof -
  obtain s out e where b: "awg_session_build_initiation (w_sess w) cfg 4096 (me_now m) (me_time m) (w_entropy w) = (s, Some out, e)"
    "int (length out) = cfg_s1 cfg + 148"
    by (rule initiation_built [OF assms(3)])
  have "\<not> cannot_wrap cfg AWG_KIND_INIT 148 4096" using assms(3) by (simp add: initiation_fails_def)
  then have "out \<noteq> []" using b(2) by (auto simp: cannot_wrap_def padding_for_def)
  then show ?thesis
    using that [of out "fst (awg_junk_packets cfg 128 16 e)"] assms(1,2) b
    by (simp add: handshake_step_def Let_def verdict_frame split_beta)
qed

section \<open>A pass is made of the module's steps\<close>

text \<open>What lwIP does inside a pass is what it may do at that point.\<close>

primrec recv_events_ok :: "awg_config \<Rightarrow> u32 \<times> u16 \<Rightarrow> rx_datagram list \<Rightarrow> world \<Rightarrow> bool" where
  "recv_events_ok cfg dst [] w \<longleftrightarrow> True"
| "recv_events_ok cfg dst (d # ds) w \<longleftrightarrow>
     events_ok (rx_events d) (w_proxy w) \<and> recv_events_ok cfg dst ds (recv_one cfg dst d w)"

definition pass_events_ok :: "awg_config \<Rightarrow> bytes \<Rightarrow> u32 \<times> u16 \<Rightarrow> main_env \<Rightarrow> world \<Rightarrow> bool" where
  "pass_events_ok cfg peer dst m w \<longleftrightarrow>
     (let a = bring_up_step cfg peer m (handshake_step cfg m (alive_step m
            (rebuild_step cfg m (power_step m (w\<lparr>w_loops := w_loops w + 1\<rparr>)))));
          b = report_step (fetch_step cfg m a);
          c = dead_step (snd (wait_step cfg m b)) (fst (wait_step cfg m b));
          d = recv_step cfg dst (snd (wait_step cfg m b)) m c
      in events_ok (me_fetch_events m) (w_proxy a) \<and>
         events_ok (me_poll_events m) (fst (awg_proxy_poll 100 (w_fd b) (me_poll m) (w_proxy b))) \<and>
         recv_events_ok cfg dst (recv_batch (me_rx m)) c \<and> events_ok (me_timer_events m) (w_proxy d))"

lemma recv_reach:
  assumes "module_reach cfg peer dst w" "recv_events_ok cfg dst (recv_batch (me_rx m)) w"
  shows "module_reach cfg peer dst (recv_step cfg dst r m w)"
proof -
  have "module_reach cfg peer dst (fold (recv_one cfg dst) ds w)" if "recv_events_ok cfg dst ds w" for ds
    using that assms(1) by (induction ds arbitrary: w) (simp_all add: module_reach.recv)
  with assms show ?thesis by (simp add: recv_step_def)
qed

lemma pass_reach:
  assumes "module_reach cfg peer dst w" "pass_events_ok cfg peer dst m w"
  shows "module_reach cfg peer dst (main_pass cfg peer dst m w)"
proof -
  define a where "a = bring_up_step cfg peer m (handshake_step cfg m (alive_step m
    (rebuild_step cfg m (power_step m (w\<lparr>w_loops := w_loops w + 1\<rparr>)))))"
  define b where "b = report_step (fetch_step cfg m a)"
  define r where "r = snd (wait_step cfg m b)"
  define c where "c = dead_step r (fst (wait_step cfg m b))"
  note ok = assms(2) [unfolded pass_events_ok_def Let_def, folded a_def, folded b_def, folded r_def, folded c_def]
  have "module_reach cfg peer dst a"
    unfolding a_def by (intro module_reach.bring_up module_reach.handshake module_reach.alive module_reach.rebuild
      module_reach.power module_reach.turn assms(1))
  then have "module_reach cfg peer dst b" unfolding b_def using ok by (blast intro: module_reach.report module_reach.fetch)
  then have "module_reach cfg peer dst c" unfolding c_def using ok by (blast intro: module_reach.dead module_reach.wait)
  then have "module_reach cfg peer dst (fst (status_step m (timer_step cfg m (recv_step cfg dst r m c))))"
    using ok by (blast intro: module_reach.status module_reach.timers recv_reach)
  moreover have "main_pass cfg peer dst m w = fst (status_step m (timer_step cfg m (recv_step cfg dst r m c)))"
    by (simp add: main_pass_def c_def r_def b_def a_def Let_def split_beta)
  ultimately show ?thesis by simp
qed

section \<open>Properties\<close>



end
