(* ===== verification/Startup.thy ===== *)
theory Startup
  imports Main_Correct "HOL-Library.Multiset"
begin

text \<open>
  From power-on to the first pass of the loop (\<open>main_switch.c\<close>): the service start-up with its exit, the part of \<open>main\<close>
  before the loop with the IPv6 probe and every early way out, the listening socket of the proxy, and what is left of
  the secrets where the module parks instead of running.  The calls that take time or descriptors are recorded.
\<close>

section \<open>Services\<close>

datatype service = Sm | Fs | Nifm | Clock | Bsd

datatype service_call = Init service | Exit service | Mount_sd | Unmount_sd | Power_start | Power_stop

text \<open>The initialisations of \<open>__appInit\<close> in order; the first that fails aborts the process.\<close>

fun init_all :: "(service \<Rightarrow> bool) \<Rightarrow> service_call list \<Rightarrow> service_call list \<times> bool" where
  "init_all ok [] = ([], True)"
| "init_all ok (c # cs) =
     (if (case c of Init s \<Rightarrow> \<not> ok s | _ \<Rightarrow> False) then ([c], False) else apfst ((#) c) (init_all ok cs))"

text \<open>\<open>None\<close> is \<open>diagAbortWithResult\<close>; \<open>init\<close> and \<open>cloned\<close> are the answers \<open>awg_power_start\<close> gets, whose failure is ignored.\<close>

definition appInit :: "(service \<Rightarrow> bool) \<Rightarrow> bool \<Rightarrow> bool \<Rightarrow> service_call list \<times> power option" where
  "appInit ok init cloned =
     (let (calls, up) = init_all ok [Init Sm, Init Fs, Mount_sd, Init Nifm, Init Clock, Init Bsd]
      in if \<not> up then (calls, None)
         else
           let (p, _) = awg_power_start init cloned power_static
           in (calls @ [Power_start, Exit Sm], Some p))"

definition appExit :: "power \<Rightarrow> service_call list \<times> power" where
  "appExit p = ([Power_stop, Exit Bsd, Exit Clock, Exit Nifm, Unmount_sd, Exit Fs], awg_power_stop p)"

section \<open>The listener\<close>

datatype boot_act =
    Open_socket int
  | Close_fd int
  | Bind_to int u32 u16
  | Nonblocking int
  | Sleep_ms nat
  | Poll_ms nat
  | Connect_v6 int

definition INADDR_LOOPBACK :: u32 where
  "INADDR_LOOPBACK = 0x7F000001"

definition htons :: "u16 \<Rightarrow> u16" where
  "htons x = push_bit 8 x OR drop_bit 8 x"

definition htonl :: "u32 \<Rightarrow> u32" where
  "htonl x = push_bit 24 x OR (push_bit 8 x AND 0xFF0000) OR (drop_bit 8 x AND 0xFF00) OR drop_bit 24 x"

text \<open>\<open>fd\<close>, \<open>bound\<close> and \<open>listening\<close> are what \<open>socket\<close>, \<open>bind\<close> and \<open>listen\<close> answer.\<close>

definition open_listener :: "u32 \<Rightarrow> u16 \<Rightarrow> int \<Rightarrow> bool \<Rightarrow> bool \<Rightarrow> boot_act list \<times> int" where
  "open_listener ip port fd bound listening =
     (if fd < 0 then ([], -1)
      else if \<not> bound \<or> \<not> listening then ([Open_socket fd, Bind_to fd ip (htons port), Close_fd fd], -1)
      else ([Open_socket fd, Bind_to fd ip (htons port), Nonblocking fd], fd))"

section \<open>The IPv6 probe\<close>

text \<open>What the calls of the probe answer; \<open>v6_so\<close> is the \<open>SO_ERROR\<close> that \<open>getsockopt\<close> read, if it succeeded.\<close>

record v6_env =
  v6_socket :: int
  v6_getfl :: int
  v6_connect :: int
  v6_errno :: int
  v6_poll :: int
  v6_so :: "int option"

text \<open>The numbers of the console's C library.\<close>

definition EINPROGRESS :: int where "EINPROGRESS = 119"
definition ETIMEDOUT :: int where "ETIMEDOUT = 116"

text \<open>The line it logs: no socket, or the result of the connect and its error.\<close>

definition ipv6_probe :: "v6_env \<Rightarrow> boot_act list \<times> (int \<times> int) option" where
  "ipv6_probe v =
     (let p6 = v6_socket v
      in if p6 < 0 then ([], None)
         else
           let acts = Open_socket p6 # (if v6_getfl v \<ge> 0 then [Nonblocking p6] else []) @ [Connect_v6 p6];
               r = v6_connect v;
               e = v6_errno v;
               waits = (r < 0 \<and> e = EINPROGRESS);
               acts = acts @ (if waits then [Poll_ms 3000] else []);
               (r, e) =
                 (if waits then
                    if v6_poll v > 0 then
                      (case v6_so v of Some so \<Rightarrow> (if so = 0 then 0 else -1, so) | None \<Rightarrow> (r, e))
                    else (r, ETIMEDOUT)
                  else (r, e))
           in (acts @ [Close_fd p6], Some (r, if r < 0 then e else 0)))"

section \<open>Before the loop\<close>

text \<open>\<open>memset(&cfg, 0, sizeof(cfg))\<close>.\<close>

definition range_zero :: awg_range where
  "range_zero = \<lparr>r_min = 0, r_max = 0\<rparr>"

definition config_zero :: awg_config where
  "config_zero = \<lparr>cfg_private_key = replicate 32 0, cfg_have_private_key = False, cfg_address = 0, cfg_address_cidr = 0, cfg_dns = [],
     cfg_jc = 0, cfg_jmin = 0, cfg_jmax = 0, cfg_s1 = 0, cfg_s2 = 0, cfg_s3 = 0, cfg_s4 = 0, cfg_h1 = 0, cfg_h2 = 0, cfg_h3 = 0,
     cfg_h4 = 0, cfg_header_protection_key = replicate 32 0, cfg_have_header_protection = False, cfg_rekey_after_time = range_zero,
     cfg_rekey_timeout = range_zero, cfg_reject_after_time = range_zero, cfg_keepalive_timeout = range_zero,
     cfg_max_handshake_attempts = range_zero, cfg_content_padding_addition = range_zero, cfg_i = replicate AWG_MAX_I None,
     cfg_peer_public_key = replicate 32 0, cfg_have_peer_public_key = False, cfg_preshared_key = replicate 32 0,
     cfg_have_preshared_key = False, cfg_endpoint_host = [], cfg_endpoint_port = 0, cfg_persistent_keepalive = range_zero\<rparr>"

record boot_env =
  be_log :: bool
  be_file :: "string option"
  be_heap :: heap
  be_connected :: "nat \<Rightarrow> bool"
  be_address :: "u32 option"
  be_pton :: "string \<Rightarrow> u32 option"
  be_v6 :: v6_env
  be_socket :: int
  be_power :: power
  be_globals :: replay_globals
  be_entropy :: entropy

text \<open>Where \<open>main\<close> is when it reaches the loop, or without it: it has returned, or it parks behind \<open>done:\<close> with what is left of
  the configuration and the session.\<close>

datatype boot_result = Returned | Parked awg_config awg_session | Entered awg_config "u32 \<times> u16" world

definition parked :: boot_result where
  "parked = Parked config_zero awg_session_wipe"

text \<open>The \<open>if\<close>s of \<open>main\<close> in order; \<open>inet_pton\<close> and \<open>nifmGetCurrentIpAddress\<close> are answers of the platform.\<close>

definition main_boot :: "boot_env \<Rightarrow> boot_act list \<times> boot_result" where
  "main_boot b =
     (if \<not> be_log b then ([], Returned)
      else
        case awg_config_load (be_heap b) (be_file b) of
          (Inl _, _) \<Rightarrow> ([], Returned)
        | (Inr cfg, _) \<Rightarrow>
            let acts = Sleep_ms 15000 # replicate (wait_for_network 150 (be_connected b)) (Sleep_ms 2000)
            in if (case be_address b of None \<Rightarrow> True | Some a \<Rightarrow> a = 0) then (acts, parked)
               else
                 case be_pton b (cfg_endpoint_host cfg) of
                   None \<Rightarrow> (acts, parked)
                 | Some addr \<Rightarrow>
                     let dst = (addr, htons (of_int (cfg_endpoint_port cfg)));
                         acts = acts @ fst (ipv6_probe (be_v6 b))
                     in case main_start cfg (be_power b) proxy_static (be_socket b) (be_globals b) (be_entropy b) of
                          None \<Rightarrow> (acts, parked)
                        | Some w \<Rightarrow> (acts @ [Open_socket (be_socket b)], Entered cfg dst w))"

section \<open>Properties\<close>

text \<open>Descriptors that are open after the recorded calls, and how long the calls can block.\<close>

fun fds_after :: "boot_act list \<Rightarrow> int multiset \<Rightarrow> int multiset" where
  "fds_after [] M = M"
| "fds_after (Open_socket fd # acts) M = fds_after acts (add_mset fd M)"
| "fds_after (Close_fd fd # acts) M = fds_after acts (M - {#fd#})"
| "fds_after (_ # acts) M = fds_after acts M"

fun blocked_ms :: "boot_act list \<Rightarrow> nat" where
  "blocked_ms [] = 0"
| "blocked_ms (Sleep_ms n # acts) = n + blocked_ms acts"
| "blocked_ms (Poll_ms n # acts) = n + blocked_ms acts"
| "blocked_ms (_ # acts) = blocked_ms acts"

lemma fds_after_append [simp]: "fds_after (xs @ ys) M = fds_after ys (fds_after xs M)"
  by (induction xs M rule: fds_after.induct) simp_all

lemma blocked_ms_append [simp]: "blocked_ms (xs @ ys) = blocked_ms xs + blocked_ms ys"
  by (induction xs rule: blocked_ms.induct) simp_all

lemma wait_sleeps:
  "fds_after (replicate n (Sleep_ms k)) M = M" "blocked_ms (replicate n (Sleep_ms k)) = n * k"
  by (induction n) simp_all

lemma wait_bounded: "wait_for_network n up \<le> n"
  by (induction n arbitrary: up) simp_all

lemma wait_finds: "wait_for_network n up < n \<longleftrightarrow> (\<exists>k<n. up k)"
proof (induction n arbitrary: up)
  case (Suc n)
  show ?case
  proof (cases "up 0")
    case False
    then have "(\<exists>k<Suc n. up k) \<longleftrightarrow> (\<exists>k<n. up (Suc k))" by (metis Suc_less_eq less_Suc_eq_0_disj)
    then show ?thesis using Suc.IH [of "\<lambda>k. up (Suc k)"] False by simp
  qed auto
qed simp

lemma probe_frame: "fds_after (fst (ipv6_probe v)) M = M" "blocked_ms (fst (ipv6_probe v)) \<le> 3000"
  by (simp_all add: ipv6_probe_def Let_def split: prod.split)

lemma probe_reachable:
  "snd (ipv6_probe v) = Some (0, e) \<longleftrightarrow>
   e = 0 \<and> v6_socket v \<ge> 0 \<and> (v6_connect v = 0 \<or> v6_connect v < 0 \<and> v6_errno v = EINPROGRESS \<and> v6_poll v > 0 \<and> v6_so v = Some 0)"
  by (auto simp: ipv6_probe_def Let_def split: option.split)

lemma listener_frame:
  "case open_listener ip port fd bound listening of (acts, r) \<Rightarrow> fds_after acts M = (if r \<ge> 0 then add_mset r M else M)"
  by (simp add: open_listener_def)

lemma loaded_wf: "awg_config_load h file = (Inr cfg, h') \<Longrightarrow> config_wf cfg"
  using config_loop_wf [OF config_wf_defaults]
  by (auto simp: awg_config_load_def split: option.splits if_splits prod.splits sum.splits)

lemma main_start_cases:
  "main_start cfg p prx fd g e = None \<longleftrightarrow> fd < 0"
  "main_start cfg p prx fd g e = Some w \<Longrightarrow> w_fd w = fd \<and> fd \<ge> 0"
  by (auto simp: main_start_def Let_def split: prod.splits if_splits)

lemma boot_waits:
  "blocked_ms (Sleep_ms 15000 # replicate (wait_for_network 150 up) (Sleep_ms 2000)) \<le> 315000"
  "fds_after (Sleep_ms 15000 # replicate (wait_for_network 150 up) (Sleep_ms 2000)) M = M"
  using wait_bounded [of 150 up] by (simp_all add: wait_sleeps)

lemma parked_clean:
  "cfg_private_key config_zero = replicate 32 0 \<and> cfg_preshared_key config_zero = replicate 32 0 \<and>
   cfg_header_protection_key config_zero = replicate 32 0"
  by (simp add: config_zero_def)


text \<open>After a start-up that succeeded, the exit closes every service that is still open, and the power module's session with
  them.\<close>

lemma services_balanced:
  assumes "appInit ok init cloned = (calls, Some p)" "appExit p = (exits, p')"
  shows "count (mset (calls @ exits)) (Init s) = count (mset (calls @ exits)) (Exit s)" "\<not> pw_session p'"
  using assms
  by (cases s; auto simp: appInit_def appExit_def awg_power_start_def awg_power_stop_def power_static_def Let_def split: if_splits prod.splits)+

end
