(* ===== verification/Lwip_Timeouts.thy ===== *)
theory Lwip_Timeouts
  imports Prelude "HOL-Library.Multiset"
begin

text \<open>
  The stack's timers (\<open>lwip/core/timeouts.c\<close>) as configured here: one ordered list of one-shot timeouts on a 32-bit
  millisecond clock that wraps, with the cyclic timers of IP reassembly and DNS and the TCP timer that runs while there
  are connections.  The handlers' own work is an input: which clock they leave, and whether they registered connections.
  The loop of \<open>sys_check_timeouts\<close> ends only because of what the handlers put back, so it is a partial function, and
  that it returns is a theorem.
\<close>

section \<open>The code\<close>

definition LWIP_MAX_TIMEOUT :: u32 where
  "LWIP_MAX_TIMEOUT = 0x7FFFFFFF"

definition TIME_LESS_THAN :: "u32 \<Rightarrow> u32 \<Rightarrow> bool" where
  "TIME_LESS_THAN t compare_to \<longleftrightarrow> t - compare_to > LWIP_MAX_TIMEOUT"

text \<open>The intervals of the table: \<open>tcp_tmr\<close>, \<open>ip_reass_tmr\<close>, \<open>dns_tmr\<close>.\<close>

definition TCP_TMR_INTERVAL :: u32 where
  "TCP_TMR_INTERVAL = 250"

definition lwip_cyclic_timers :: "u32 list" where
  "lwip_cyclic_timers = [TCP_TMR_INTERVAL, 1000, 1000]"

text \<open>The handlers that are ever put in the list: \<open>tcpip_tcp_timer\<close>, and \<open>lwip_cyclic_timer\<close> with an entry of the table.\<close>

datatype timeo_handler = H_tcp | H_cyclic nat

record sys_timeo =
  st_time :: u32
  st_h :: timeo_handler

text \<open>The statics.  The pool of \<open>sys_timeo\<close> has \<open>MEMP_NUM_SYS_TIMEOUT\<close> elements, all of them in the list or free.\<close>

record timeouts =
  next_timeout :: "sys_timeo list"
  current_timeout_due_time :: u32
  tcpip_tcp_timer_active :: bool

definition timeouts_static :: timeouts where
  "timeouts_static = \<lparr>next_timeout = [], current_timeout_due_time = 0, tcpip_tcp_timer_active = False\<rparr>"

definition MEMP_NUM_SYS_TIMEOUT :: nat where
  "MEMP_NUM_SYS_TIMEOUT = 8"

text \<open>The walk of \<open>sys_timeout_abs\<close> behind the head of the list.\<close>

fun insert_after :: "sys_timeo \<Rightarrow> sys_timeo list \<Rightarrow> sys_timeo list" where
  "insert_after timeout [] = []"
| "insert_after timeout [t] = [t, timeout]"
| "insert_after timeout (t # n # rest) =
     (if TIME_LESS_THAN (st_time timeout) (st_time n) then t # timeout # n # rest
      else t # insert_after timeout (n # rest))"

definition sys_timeout_abs :: "u32 \<Rightarrow> timeo_handler \<Rightarrow> timeouts \<Rightarrow> timeouts" where
  "sys_timeout_abs abs_time handler s =
     (if length (next_timeout s) \<ge> MEMP_NUM_SYS_TIMEOUT then s
      else
        let timeout = \<lparr>st_time = abs_time, st_h = handler\<rparr>
        in s\<lparr>next_timeout :=
             (case next_timeout s of
                [] \<Rightarrow> [timeout]
              | t # _ \<Rightarrow> if TIME_LESS_THAN (st_time timeout) (st_time t) then timeout # next_timeout s
                         else insert_after timeout (next_timeout s))\<rparr>)"

definition sys_timeout :: "u32 \<Rightarrow> timeo_handler \<Rightarrow> u32 \<Rightarrow> timeouts \<Rightarrow> timeouts" where
  "sys_timeout msecs handler now s = sys_timeout_abs (now + msecs) handler s"

text \<open>\<open>pcbs\<close> is \<open>tcp_active_pcbs || tcp_tw_pcbs\<close>.\<close>

definition tcp_timer_needed :: "bool \<Rightarrow> u32 \<Rightarrow> timeouts \<Rightarrow> timeouts" where
  "tcp_timer_needed pcbs now s =
     (if \<not> tcpip_tcp_timer_active s \<and> pcbs
      then sys_timeout TCP_TMR_INTERVAL H_tcp now (s\<lparr>tcpip_tcp_timer_active := True\<rparr>)
      else s)"

text \<open>What one handler does besides the timers: the calls of \<open>tcp_timer_needed\<close> inside it with the connections and the
  clock each of them saw, whether connections are left, and the clock behind it.\<close>

record timer_env =
  te_regs :: "(bool \<times> u32) list"
  te_pcbs :: bool
  te_now :: u32

definition handler_regs :: "timer_env \<Rightarrow> timeouts \<Rightarrow> timeouts" where
  "handler_regs env s = fold (\<lambda>(pcbs, now). tcp_timer_needed pcbs now) (te_regs env) s"

definition tcpip_tcp_timer :: "timer_env \<Rightarrow> timeouts \<Rightarrow> timeouts" where
  "tcpip_tcp_timer env s =
     (let s = handler_regs env s
      in if te_pcbs env then sys_timeout TCP_TMR_INTERVAL H_tcp (te_now env) s
         else s\<lparr>tcpip_tcp_timer_active := False\<rparr>)"

definition lwip_cyclic_timer :: "nat \<Rightarrow> timer_env \<Rightarrow> timeouts \<Rightarrow> timeouts" where
  "lwip_cyclic_timer i env s =
     (let s = handler_regs env s;
          now = te_now env;
          next_timeout_time = current_timeout_due_time s + lwip_cyclic_timers ! i
      in if TIME_LESS_THAN next_timeout_time now
         then sys_timeout_abs (now + lwip_cyclic_timers ! i) (H_cyclic i) s
         else sys_timeout_abs next_timeout_time (H_cyclic i) s)"

definition sys_timeouts_init :: "u32 \<Rightarrow> u32 \<Rightarrow> timeouts \<Rightarrow> timeouts" where
  "sys_timeouts_init now1 now2 s =
     sys_timeout (lwip_cyclic_timers ! 2) (H_cyclic 2) now2 (sys_timeout (lwip_cyclic_timers ! 1) (H_cyclic 1) now1 s)"

fun remove_first :: "timeo_handler \<Rightarrow> sys_timeo list \<Rightarrow> sys_timeo list" where
  "remove_first handler [] = []"
| "remove_first handler (t # rest) = (if st_h t = handler then rest else t # remove_first handler rest)"

definition sys_untimeout :: "timeo_handler \<Rightarrow> timeouts \<Rightarrow> timeouts" where
  "sys_untimeout handler s = s\<lparr>next_timeout := remove_first handler (next_timeout s)\<rparr>"

definition run_handler :: "timeo_handler \<Rightarrow> timer_env \<Rightarrow> timeouts \<Rightarrow> timeouts" where
  "run_handler h env s = (case h of H_tcp \<Rightarrow> tcpip_tcp_timer env s | H_cyclic i \<Rightarrow> lwip_cyclic_timer i env s)"

text \<open>The loop: the state, the time left, and how many handlers ran; \<open>env k\<close> is what the \<open>k\<close>-th of them does.\<close>

partial_function (option) check_loop :: "u32 \<Rightarrow> (nat \<Rightarrow> timer_env) \<Rightarrow> nat \<Rightarrow> timeouts \<Rightarrow> (timeouts \<times> u32 \<times> nat) option" where
  "check_loop now env k s =
     (case next_timeout s of
        [] \<Rightarrow> Some (s, 0xFFFFFFFF, k)
      | t # rest \<Rightarrow>
          if TIME_LESS_THAN now (st_time t) then Some (s, st_time t - now, k)
          else check_loop now env (k + 1)
                 (run_handler (st_h t) (env k) (s\<lparr>next_timeout := rest, current_timeout_due_time := st_time t\<rparr>)))"

definition sys_check_timeouts :: "u32 \<Rightarrow> (nat \<Rightarrow> timer_env) \<Rightarrow> timeouts \<Rightarrow> (timeouts \<times> u32 \<times> nat) option" where
  "sys_check_timeouts now env s = check_loop now env 0 s"

definition sys_restart_timeouts :: "u32 \<Rightarrow> timeouts \<Rightarrow> timeouts" where
  "sys_restart_timeouts now s =
     (case next_timeout s of
        [] \<Rightarrow> s
      | b # _ \<Rightarrow> s\<lparr>next_timeout := map (\<lambda>t. t\<lparr>st_time := (st_time t - st_time b) + now\<rparr>) (next_timeout s)\<rparr>)"

definition sys_timeouts_sleeptime :: "u32 \<Rightarrow> timeouts \<Rightarrow> u32" where
  "sys_timeouts_sleeptime now s =
     (case next_timeout s of
        [] \<Rightarrow> 0xFFFFFFFF
      | t # _ \<Rightarrow> if TIME_LESS_THAN (st_time t) now then 0 else st_time t - now)"

section \<open>The wrapping clock\<close>

text \<open>Distances from a base time; within half the range of the clock they are ordered as the times are.\<close>

definition dist :: "u32 \<Rightarrow> u32 \<Rightarrow> nat" where
  "dist base t = unat (t - base)"

lemma time_less:
  assumes "dist base a < 2 ^ 31" "dist base b < 2 ^ 31"
  shows "TIME_LESS_THAN a b \<longleftrightarrow> dist base a < dist base b"
proof -
  define x where "x = a - base"
  define y where "y = b - base"
  have d: "a - b = x - y" by (simp add: x_def y_def)
  have "unat (x - y) = (if unat y \<le> unat x then unat x - unat y else unat x + 2 ^ 32 - unat y)"
    by (simp add: unat_sub_if')
  then show ?thesis
    using assms unfolding TIME_LESS_THAN_def LWIP_MAX_TIMEOUT_def d dist_def x_def [symmetric] y_def [symmetric]
    by (simp add: word_less_nat_alt split: if_splits)
qed

lemma dist_of_nat: "c \<le> t \<Longrightarrow> t < c + 2 ^ 32 \<Longrightarrow> dist (of_nat c) (of_nat t) = t - c"
  unfolding dist_def by (simp add: unat_of_nat flip: of_nat_diff)

lemma dist_add: "dist base (t + d) = dist base t + unat d" if "dist base t + unat d < 2 ^ 32"
proof -
  have e: "t + d - base = (t - base) + d" by simp
  show ?thesis using that unfolding dist_def e by (simp add: unat_plus_if')
qed

section \<open>The ordered list\<close>

abbreviation key :: "u32 \<Rightarrow> sys_timeo \<Rightarrow> nat" where
  "key base t \<equiv> dist base (st_time t)"

text \<open>Ordered by expiry, none further than \<open>hi\<close> from the base.\<close>

definition ordered :: "u32 \<Rightarrow> nat \<Rightarrow> sys_timeo list \<Rightarrow> bool" where
  "ordered base hi l \<longleftrightarrow> sorted (map (key base) l) \<and> list_all (\<lambda>t. key base t \<le> hi) l"

lemma ordered_simps [simp]:
  "ordered base hi []"
  "ordered base hi (t # l) \<longleftrightarrow> key base t \<le> hi \<and> list_all (\<lambda>u. key base t \<le> key base u) l \<and> ordered base hi l"
  by (auto simp: ordered_def list_all_iff)

lemma mset_insert_after: "l \<noteq> [] \<Longrightarrow> mset (insert_after x l) = add_mset x (mset l)"
  by (induction x l rule: insert_after.induct) auto

lemma list_all_insert_after: "l \<noteq> [] \<Longrightarrow> list_all P (insert_after x l) \<longleftrightarrow> P x \<and> list_all P l"
  by (induction x l rule: insert_after.induct) auto

lemma ordered_insert_after:
  assumes "l \<noteq> []" "ordered base hi l" "key base x \<le> hi" "key base (hd l) \<le> key base x" "hi < 2 ^ 31"
  shows "ordered base hi (insert_after x l)"
  using assms
proof (induction x l rule: insert_after.induct)
  case (3 x t n rest)
  have c: "TIME_LESS_THAN (st_time x) (st_time n) \<longleftrightarrow> key base x < key base n"
    by (rule time_less) (use 3 in simp_all)
  show ?case
  proof (cases "key base x < key base n")
    case True
    then have "list_all (\<lambda>u. key base x \<le> key base u) rest" using "3.prems"(2) by (fastforce simp: list_all_iff)
    with True 3 show ?thesis by (simp add: c)
  next
    case False
    then have "ordered base hi (insert_after x (n # rest))" using 3 c by simp
    with False 3 show ?thesis by (simp add: c list_all_insert_after)
  qed
qed simp_all

text \<open>The handlers in the list, and adding one.\<close>

definition handlers :: "timeouts \<Rightarrow> timeo_handler multiset" where
  "handlers s = image_mset st_h (mset (next_timeout s))"

lemma size_handlers [simp]: "size (handlers s) = length (next_timeout s)"
  by (simp add: handlers_def)

lemma timeout_abs:
  assumes "ordered base hi (next_timeout s)" "size (handlers s) < MEMP_NUM_SYS_TIMEOUT" "dist base a \<le> hi" "hi < 2 ^ 31"
  shows "ordered base hi (next_timeout (sys_timeout_abs a h s))"
    "mset (next_timeout (sys_timeout_abs a h s)) = add_mset \<lparr>st_time = a, st_h = h\<rparr> (mset (next_timeout s))"
    "tcpip_tcp_timer_active (sys_timeout_abs a h s) = tcpip_tcp_timer_active s"
    "current_timeout_due_time (sys_timeout_abs a h s) = current_timeout_due_time s"
proof -
  let ?x = "\<lparr>st_time = a, st_h = h\<rparr>"
  have "ordered base hi (next_timeout (sys_timeout_abs a h s)) \<and>
      mset (next_timeout (sys_timeout_abs a h s)) = add_mset ?x (mset (next_timeout s))"
  proof (cases "next_timeout s")
    case (Cons t rest)
    have c: "TIME_LESS_THAN a (st_time t) \<longleftrightarrow> dist base a < key base t"
      by (rule time_less) (use assms Cons in simp_all)
    show ?thesis
    proof (cases "dist base a < key base t")
      case True
      moreover from True have "list_all (\<lambda>u. dist base a \<le> key base u) rest"
        using assms(1) Cons by (fastforce simp: list_all_iff)
      ultimately show ?thesis using assms Cons c by (simp add: sys_timeout_abs_def Let_def)
    next
      case False
      then show ?thesis
        using assms Cons c ordered_insert_after [of "t # rest" base hi ?x] by (simp add: sys_timeout_abs_def Let_def mset_insert_after)
    qed
  qed (use assms in \<open>simp add: sys_timeout_abs_def Let_def\<close>)
  then show "ordered base hi (next_timeout (sys_timeout_abs a h s))"
    "mset (next_timeout (sys_timeout_abs a h s)) = add_mset ?x (mset (next_timeout s))" by blast+
qed (simp_all add: sys_timeout_abs_def Let_def)

section \<open>Every timer is kept\<close>

text \<open>The list holds the handlers \<open>hs\<close> once each, and the TCP timer exactly while it is active.\<close>

definition timers_hold :: "u32 \<Rightarrow> nat \<Rightarrow> timeo_handler multiset \<Rightarrow> timeouts \<Rightarrow> bool" where
  "timers_hold base hi hs s \<longleftrightarrow> ordered base hi (next_timeout s) \<and>
     handlers s = hs + (if tcpip_tcp_timer_active s then {#H_tcp#} else {#})"

abbreviation cyclics :: "timeo_handler multiset" where
  "cyclics \<equiv> {#H_cyclic 1, H_cyclic 2#}"

text \<open>How often the timers may still expire within one \<open>sys_check_timeouts\<close> at distance \<open>d\<close> from the base.\<close>

definition weight :: "u32 \<Rightarrow> nat \<Rightarrow> u32 \<Rightarrow> nat" where
  "weight base d t = (if dist base t < d then 2 else if dist base t = d then 1 else 0)"

definition load :: "u32 \<Rightarrow> nat \<Rightarrow> timeouts \<Rightarrow> nat" where
  "load base d s = (\<Sum>t\<in>#mset (next_timeout s). weight base d (st_time t))"

lemma load_le: "load base d s \<le> 2 * length (next_timeout s)"
proof -
  have "(\<Sum>t\<in>#mset l. weight base d (st_time t)) \<le> 2 * length l" for l
    by (induction l) (auto simp: weight_def)
  then show ?thesis by (simp add: load_def)
qed

lemma hold_add:
  assumes "timers_hold base hi hs s" "size hs \<le> 2" "dist base a \<le> hi" "hi < 2 ^ 31"
  shows "timers_hold base hi (add_mset h hs) (sys_timeout_abs a h s)"
    "load base d (sys_timeout_abs a h s) = weight base d a + load base d s"
    "current_timeout_due_time (sys_timeout_abs a h s) = current_timeout_due_time s"
proof -
  have "size (handlers s) < MEMP_NUM_SYS_TIMEOUT"
    using assms(1,2) unfolding timers_hold_def by (auto simp: MEMP_NUM_SYS_TIMEOUT_def simp del: size_handlers)
  note t = timeout_abs [OF _ this assms(3,4)]
  show "timers_hold base hi (add_mset h hs) (sys_timeout_abs a h s)" "load base d (sys_timeout_abs a h s) = weight base d a + load base d s"
    "current_timeout_due_time (sys_timeout_abs a h s) = current_timeout_due_time s"
    using assms(1) t by (auto simp: timers_hold_def load_def handlers_def)
qed

text \<open>The clocks a handler reads lie between the time of the check and a bound that leaves room for an interval.\<close>

definition clock_ok :: "u32 \<Rightarrow> nat \<Rightarrow> nat \<Rightarrow> u32 \<Rightarrow> bool" where
  "clock_ok base d hi c \<longleftrightarrow> d \<le> dist base c \<and> dist base c + 1000 \<le> hi"

definition env_ok :: "u32 \<Rightarrow> nat \<Rightarrow> nat \<Rightarrow> timer_env \<Rightarrow> bool" where
  "env_ok base d hi env \<longleftrightarrow> clock_ok base d hi (te_now env) \<and> list_all (\<lambda>(_, c). clock_ok base d hi c) (te_regs env)"

lemma later:
  assumes "clock_ok base d hi c" "hi < 2 ^ 31" "0 < unat i" "unat i \<le> 1000"
  shows "dist base (c + i) = dist base c + unat i" "dist base (c + i) \<le> hi" "weight base d (c + i) = 0"
  using assms dist_add [of base c i] by (auto simp: clock_ok_def weight_def)

lemma hold_needed:
  assumes "timers_hold base hi hs s" "size hs \<le> 2" "clock_ok base d hi c" "hi < 2 ^ 31"
  shows "timers_hold base hi hs (tcp_timer_needed pcbs c s)" "load base d (tcp_timer_needed pcbs c s) = load base d s"
    "current_timeout_due_time (tcp_timer_needed pcbs c s) = current_timeout_due_time s"
proof -
  have l: "dist base (c + TCP_TMR_INTERVAL) \<le> hi" "weight base d (c + TCP_TMR_INTERVAL) = 0"
    using later [OF assms(3,4), of TCP_TMR_INTERVAL] by (simp_all add: TCP_TMR_INTERVAL_def)
  have "timers_hold base hi hs (tcp_timer_needed pcbs c s) \<and> load base d (tcp_timer_needed pcbs c s) = load base d s \<and>
      current_timeout_due_time (tcp_timer_needed pcbs c s) = current_timeout_due_time s"
  proof (cases "\<not> tcpip_tcp_timer_active s \<and> pcbs")
    case True
    define v where "v = s\<lparr>tcpip_tcp_timer_active := True\<rparr>"
    have "ordered base hi (next_timeout v)" "size (handlers v) < MEMP_NUM_SYS_TIMEOUT"
      using assms(1,2) True by (auto simp: timers_hold_def v_def MEMP_NUM_SYS_TIMEOUT_def handlers_def simp flip: size_handlers)
    note t = timeout_abs [OF this l(1) assms(4), of H_tcp]
    have "tcp_timer_needed pcbs c s = sys_timeout_abs (c + TCP_TMR_INTERVAL) H_tcp v"
      using True by (simp add: tcp_timer_needed_def sys_timeout_def v_def)
    then show ?thesis using t l assms(1) True by (auto simp: timers_hold_def load_def handlers_def v_def)
  qed (use assms in \<open>auto simp: tcp_timer_needed_def\<close>)
  then show "timers_hold base hi hs (tcp_timer_needed pcbs c s)" "load base d (tcp_timer_needed pcbs c s) = load base d s"
    "current_timeout_due_time (tcp_timer_needed pcbs c s) = current_timeout_due_time s" by blast+
qed

lemma hold_regs:
  assumes "timers_hold base hi hs s" "size hs \<le> 2" "env_ok base d hi env" "hi < 2 ^ 31"
  shows "timers_hold base hi hs (handler_regs env s) \<and> load base d (handler_regs env s) = load base d s \<and>
    current_timeout_due_time (handler_regs env s) = current_timeout_due_time s"
proof -
  have "timers_hold base hi hs (fold (\<lambda>(p, c). tcp_timer_needed p c) rs s) \<and>
      load base d (fold (\<lambda>(p, c). tcp_timer_needed p c) rs s) = load base d s \<and>
      current_timeout_due_time (fold (\<lambda>(p, c). tcp_timer_needed p c) rs s) = current_timeout_due_time s"
    if "list_all (\<lambda>(_, c). clock_ok base d hi c) rs" for rs
    using that assms(1)
  proof (induction rs arbitrary: s)
    case (Cons r rs)
    obtain p c where r: "r = (p, c)" by fastforce
    with Cons hold_needed [OF _ assms(2) _ assms(4), where s = s and d = d and c = c and pcbs = p] show ?case by simp
  qed simp
  with assms(3) show ?thesis by (simp add: handler_regs_def env_ok_def)
qed

text \<open>One expired timer.\<close>

lemma regs_active: "tcpip_tcp_timer_active s \<Longrightarrow> handler_regs env s = s"
proof -
  assume a: "tcpip_tcp_timer_active s"
  have "fold (\<lambda>(p, c). tcp_timer_needed p c) rs s = s" for rs
    by (induction rs) (use a in \<open>auto simp: tcp_timer_needed_def\<close>)
  then show ?thesis by (simp add: handler_regs_def)
qed

lemma tcp_step:
  assumes "ordered base hi (next_timeout s)" "handlers s = cyclics" "tcpip_tcp_timer_active s" "env_ok base d hi env" "hi < 2 ^ 31"
  shows "timers_hold base hi cyclics (tcpip_tcp_timer env s) \<and> load base d (tcpip_tcp_timer env s) = load base d s"
proof -
  have c: "clock_ok base d hi (te_now env)" using assms(4) by (simp add: env_ok_def)
  have l: "dist base (te_now env + TCP_TMR_INTERVAL) \<le> hi" "weight base d (te_now env + TCP_TMR_INTERVAL) = 0"
    using later [OF c assms(5), of TCP_TMR_INTERVAL] by (simp_all add: TCP_TMR_INTERVAL_def)
  have "size (handlers s) < MEMP_NUM_SYS_TIMEOUT" using assms(2) by (simp add: MEMP_NUM_SYS_TIMEOUT_def del: size_handlers)
  note t = timeout_abs [OF assms(1) this l(1) assms(5), of H_tcp]
  show ?thesis
    using assms(1-3) t l(2) by (auto simp: tcpip_tcp_timer_def regs_active sys_timeout_def timers_hold_def load_def handlers_def)
qed

lemma cyclic_step:
  assumes "timers_hold base hi (cyclics - {#H_cyclic i#}) s" "i \<in> {1, 2}" "env_ok base d hi env" "hi < 2 ^ 31"
    "dist base (current_timeout_due_time s) \<le> d" "d \<le> hi"
  shows "timers_hold base hi cyclics (lwip_cyclic_timer i env s) \<and>
    load base d (lwip_cyclic_timer i env s) < load base d s + weight base d (current_timeout_due_time s)"
proof -
  define v where "v = handler_regs env s"
  have z: "size (cyclics - {#H_cyclic i#}) \<le> 2" using assms(2) by auto
  have v: "timers_hold base hi (cyclics - {#H_cyclic i#}) v" "load base d v = load base d s"
    "current_timeout_due_time v = current_timeout_due_time s"
    using hold_regs [OF assms(1) z assms(3,4)] by (simp_all add: v_def)
  have i: "lwip_cyclic_timers ! i = 1000" using assms(2) by (auto simp: lwip_cyclic_timers_def)
  have c: "clock_ok base d hi (te_now env)" using assms(3) by (simp add: env_ok_def)
  define n where "n = current_timeout_due_time s + 1000"
  have n: "dist base n = dist base (current_timeout_due_time s) + 1000" unfolding n_def
    by (subst dist_add) (use assms(4-6) in simp_all)
  have nb: "dist base n < 2 ^ 31" "dist base (te_now env) < 2 ^ 31" using n assms(4,5) c by (simp_all add: clock_ok_def)
  have add: "add_mset (H_cyclic i) (cyclics - {#H_cyclic i#}) = cyclics" using assms(2) by auto
  define a where "a = (if TIME_LESS_THAN n (te_now env) then te_now env + 1000 else n)"
  have r: "lwip_cyclic_timer i env s = sys_timeout_abs a (H_cyclic i) v"
    by (simp add: lwip_cyclic_timer_def Let_def v_def [symmetric] v(3) i n_def [symmetric] a_def)
  have "dist base a \<le> hi \<and> weight base d a < weight base d (current_timeout_due_time s)"
  proof (cases "TIME_LESS_THAN n (te_now env)")
    case True
    then show ?thesis using later [OF c assms(4), of 1000] assms(5) by (auto simp: a_def weight_def)
  next
    case False
    then have "dist base (te_now env) \<le> dist base n" using time_less [OF nb] by simp
    then show ?thesis using False c n assms(5) by (auto simp: a_def weight_def clock_ok_def)
  qed
  then have w: "dist base a \<le> hi" "weight base d a < weight base d (current_timeout_due_time s)" by simp_all
  from hold_add(1) [OF v(1) z w(1) assms(4), of "H_cyclic i"] hold_add(2) [OF v(1) z w(1) assms(4)] w(2) v(2)
  show ?thesis unfolding r add by simp
qed

lemma pop_load:
  assumes "next_timeout s = t # rest"
  shows "load base d s = weight base d (st_time t) + load base d (s\<lparr>next_timeout := rest, current_timeout_due_time := x\<rparr>)"
  using assms by (simp add: load_def)

lemma handler_step:
  assumes "timers_hold base hi cyclics s" "next_timeout s = t # rest" "key base t \<le> d" "env_ok base d hi env" "hi < 2 ^ 31" "d \<le> hi"
  defines "s' \<equiv> run_handler (st_h t) env (s\<lparr>next_timeout := rest, current_timeout_due_time := st_time t\<rparr>)"
  shows "timers_hold base hi cyclics s' \<and> load base d s' < load base d s"
proof -
  define v where "v = s\<lparr>next_timeout := rest, current_timeout_due_time := st_time t\<rparr>"
  have l: "load base d s = weight base d (st_time t) + load base d v" unfolding v_def by (rule pop_load [OF assms(2)])
  have o: "ordered base hi (next_timeout v)" using assms(1,2) by (simp add: timers_hold_def v_def)
  have h: "add_mset (st_h t) (handlers v) = cyclics + (if tcpip_tcp_timer_active v then {#H_tcp#} else {#})"
    using assms(1,2) by (simp add: timers_hold_def handlers_def v_def)
  then have "st_h t \<in># cyclics + (if tcpip_tcp_timer_active v then {#H_tcp#} else {#})" by (metis union_single_eq_member)
  then consider "st_h t = H_tcp" "tcpip_tcp_timer_active v" | i where "st_h t = H_cyclic i" "i \<in> {1, 2}"
    by (auto split: if_splits)
  then show ?thesis
  proof cases
    case 1
    then have "handlers v = cyclics" using h by (simp add: add_mset_commute)
    from tcp_step [OF o this 1(2) assms(4,5)] 1 l assms(3) show ?thesis
      by (auto simp: s'_def v_def [symmetric] run_handler_def weight_def)
  next
    case 2
    have "handlers v = cyclics - {#H_cyclic i#} + (if tcpip_tcp_timer_active v then {#H_tcp#} else {#})"
      using h 2 by (auto simp: add_mset_commute split: if_splits)
    then have "timers_hold base hi (cyclics - {#H_cyclic i#}) v" using o by (simp add: timers_hold_def)
    moreover have "current_timeout_due_time v = st_time t" by (simp add: v_def)
    ultimately show ?thesis
      using cyclic_step [of base hi i v d env] 2 assms(3-6) l by (simp add: s'_def v_def [symmetric] run_handler_def)
  qed
qed

lemma check_loop_returns:
  assumes "timers_hold base hi cyclics s" "\<And>j. env_ok base (dist base now) hi (env j)" "hi < 2 ^ 31" "dist base now \<le> hi"
  shows "\<exists>s' r k'. check_loop now env k s = Some (s', r, k') \<and> k' \<le> k + load base (dist base now) s \<and>
    timers_hold base hi cyclics s' \<and> list_all (\<lambda>t. dist base now < key base t) (next_timeout s') \<and>
    r = st_time (hd (next_timeout s')) - now"
  using assms(1)
proof (induction "load base (dist base now) s" arbitrary: s k rule: less_induct)
  case less
  have "handlers s \<noteq> {#}" using less.prems by (auto simp: timers_hold_def)
  then obtain t rest where n: "next_timeout s = t # rest" by (cases "next_timeout s") (auto simp: handlers_def)
  have o: "key base t \<le> hi" "list_all (\<lambda>u. key base t \<le> key base u) rest" using less.prems n by (simp_all add: timers_hold_def)
  have c: "TIME_LESS_THAN now (st_time t) \<longleftrightarrow> dist base now < key base t" by (rule time_less) (use assms(3,4) o in simp_all)
  show ?case
  proof (cases "dist base now < key base t")
    case True
    then have "check_loop now env k s = Some (s, st_time t - now, k)" using c n by (subst check_loop.simps) simp
    moreover have "list_all (\<lambda>t. dist base now < key base t) (next_timeout s)" using True o n by (fastforce simp: list_all_iff)
    ultimately show ?thesis using less.prems n by simp
  next
    case False
    define v where "v = run_handler (st_h t) (env k) (s\<lparr>next_timeout := rest, current_timeout_due_time := st_time t\<rparr>)"
    have v: "timers_hold base hi cyclics v" "load base (dist base now) v < load base (dist base now) s"
      using handler_step [OF less.prems n _ assms(2) assms(3,4), of k] False by (simp_all add: v_def)
    have "check_loop now env k s = check_loop now env (k + 1) v" using c n False by (subst check_loop.simps) (simp add: v_def)
    with less.hyps [OF v(2,1), of "k + 1"] v(2) show ?thesis by fastforce
  qed
qed

section \<open>The running stack\<close>

text \<open>Real time is a number of milliseconds that does not wrap; the stack's clock is its remainder.  \<open>timers_run c t s\<close>: at time
  \<open>t\<close> the state is \<open>s\<close>, and the last check (or the start) was at \<open>c\<close>; the loop never stays away for \<open>2^30\<close> milliseconds,
  twelve days.\<close>

definition env_times :: "nat \<Rightarrow> nat \<Rightarrow> timer_env \<Rightarrow> bool" where
  "env_times lo hi env \<longleftrightarrow> (\<exists>t. te_now env = of_nat t \<and> lo \<le> t \<and> t \<le> hi) \<and>
     list_all (\<lambda>(_, c). \<exists>t. c = of_nat t \<and> lo \<le> t \<and> t \<le> hi) (te_regs env)"

inductive timers_run :: "nat \<Rightarrow> nat \<Rightarrow> timeouts \<Rightarrow> bool" where
  start: "c \<le> t1 \<Longrightarrow> t1 \<le> t \<Longrightarrow> t \<le> c + 2 ^ 30 \<Longrightarrow>
    timers_run c t (sys_timeouts_init (of_nat t1) (of_nat t) timeouts_static)"
| needed: "timers_run c t s \<Longrightarrow> t \<le> t' \<Longrightarrow> t' \<le> c + 2 ^ 30 \<Longrightarrow> timers_run c t' (tcp_timer_needed pcbs (of_nat t') s)"
| check: "timers_run c t s \<Longrightarrow> t \<le> now \<Longrightarrow> now \<le> t' \<Longrightarrow> t' \<le> c + 2 ^ 30 \<Longrightarrow> (\<And>k. env_times now t' (env k)) \<Longrightarrow>
    sys_check_timeouts (of_nat now) env s = Some (s', r, k) \<Longrightarrow> timers_run now t' s'"

lemma dist_rebase: "dist base b \<le> dist base t \<Longrightarrow> dist b t = dist base t - dist base b"
proof -
  assume "dist base b \<le> dist base t"
  moreover have e: "t - b = (t - base) - (b - base)" by simp
  ultimately show ?thesis unfolding dist_def e by (subst unat_sub) (simp_all add: word_le_nat_alt)
qed

lemma hold_mono: "timers_hold base hi hs s \<Longrightarrow> hi \<le> hi' \<Longrightarrow> timers_hold base hi' hs s"
  by (auto simp: timers_hold_def ordered_def list_all_iff)

lemma hold_rebase:
  assumes "timers_hold base hi hs s" "list_all (\<lambda>t. dist base b \<le> key base t) (next_timeout s)" "hi - dist base b \<le> hi'"
  shows "timers_hold b hi' hs s"
proof -
  have k: "key b t = key base t - dist base b" if "t \<in> set (next_timeout s)" for t
    by (rule dist_rebase) (use assms(2) that in \<open>simp add: list_all_iff\<close>)
  have m: "map (key b) (next_timeout s) = map (\<lambda>n. n - dist base b) (map (key base) (next_timeout s))" using k by simp
  have "sorted (map (\<lambda>n. n - x) ns)" if "sorted ns" for ns :: "nat list" and x
    using that by (induction ns) auto
  then have "sorted (map (key b) (next_timeout s))" using assms(1) unfolding m timers_hold_def ordered_def by blast
  moreover have "key b t \<le> hi'" if "t \<in> set (next_timeout s)" for t
  proof -
    have "key base t \<le> hi" using assms(1) that by (simp add: timers_hold_def ordered_def list_all_iff)
    then show ?thesis unfolding k [OF that] using assms(3) by linarith
  qed
  ultimately show ?thesis using assms(1) by (simp add: timers_hold_def ordered_def list_all_iff)
qed

lemma clock_of_nat:
  assumes "c \<le> now" "now \<le> t" "t \<le> hi" "hi \<le> c + 2 ^ 30"
  shows "clock_ok (of_nat c) (now - c) (hi - c + 1000) (of_nat t)"
proof -
  have "dist (of_nat c) (of_nat t) = t - c" by (rule dist_of_nat) (use assms in simp_all)
  then show ?thesis unfolding clock_ok_def using assms by linarith
qed

lemma env_of_times:
  assumes "env_times now t' env" "c \<le> now" "t' \<le> c + 2 ^ 30"
  shows "env_ok (of_nat c) (now - c) (t' - c + 1000) env"
  using assms clock_of_nat [of c now _ t'] by (fastforce simp: env_ok_def env_times_def list_all_iff)

lemma check_in_time:
  assumes "timers_hold (of_nat c) (t - c + 1000) cyclics s" "c \<le> t" "t \<le> now" "now \<le> t'" "t' \<le> c + 2 ^ 30"
    "\<And>k. env_times now t' (env k)"
  obtains s' r k where "sys_check_timeouts (of_nat now) env s = Some (s', r, k)" "k \<le> load (of_nat c) (now - c) s"
    "timers_hold (of_nat c) (t' - c + 1000) cyclics s'" "list_all (\<lambda>t. now - c < key (of_nat c) t) (next_timeout s')"
proof -
  let ?hi = "t' - c + 1000"
  have h: "timers_hold (of_nat c) ?hi cyclics s" by (rule hold_mono [OF assms(1)]) (use assms in linarith)
  have d: "dist (of_nat c) (of_nat now) = now - c" by (rule dist_of_nat) (use assms in simp_all)
  have e: "env_ok (of_nat c) (dist (of_nat c) (of_nat now)) ?hi (env j)" for j
    unfolding d by (rule env_of_times [OF assms(6)]) (use assms in simp_all)
  have b: "?hi < 2 ^ 31" "dist (of_nat c) (of_nat now) \<le> ?hi" unfolding d using assms by simp_all
  from check_loop_returns [where env = env and k = 0, OF h e b] that d show thesis
    by (auto simp: sys_check_timeouts_def)
qed

lemma run_hold: "timers_run c t s \<Longrightarrow> c \<le> t \<and> t \<le> c + 2 ^ 30 \<and> timers_hold (of_nat c) (t - c + 1000) cyclics s"
proof (induction rule: timers_run.induct)
  case (start c t1 t)
  let ?hi = "t - c + 1000" and ?i = "1000 :: u32"
  have k: "clock_ok (of_nat c) 0 ?hi (of_nat t1)" "clock_ok (of_nat c) 0 ?hi (of_nat t)"
    using clock_of_nat [of c c t1 t] clock_of_nat [of c c t t] start by simp_all
  have hi: "?hi < 2 ^ 31" using start by simp
  note l = later(2) [OF k(1) hi, of ?i] later(2) [OF k(2) hi, of ?i]
  have "timers_hold (of_nat c) ?hi {#} timeouts_static" by (simp add: timers_hold_def timeouts_static_def handlers_def)
  from hold_add(1) [OF this, of "of_nat t1 + ?i"] l hi
  have "timers_hold (of_nat c) ?hi {#H_cyclic 1#} (sys_timeout_abs (of_nat t1 + ?i) (H_cyclic 1) timeouts_static)" by simp
  from hold_add(1) [OF this, of "of_nat t + ?i" "H_cyclic 2"] l hi start show ?case
    by (simp add: sys_timeouts_init_def sys_timeout_def lwip_cyclic_timers_def add_mset_commute)
next
  case (needed c t s t' pcbs)
  then have "timers_hold (of_nat c) (t' - c + 1000) cyclics s" by (auto elim!: hold_mono)
  moreover have "clock_ok (of_nat c) (t' - c) (t' - c + 1000) (of_nat t')" using clock_of_nat [of c t' t' t'] needed by simp
  ultimately show ?case using needed hold_needed(1) [of "of_nat c" "t' - c + 1000" cyclics s] by simp
next
  case (check c t s now t' env s' r k)
  have d: "dist (of_nat c) (of_nat now) = now - c" by (rule dist_of_nat) (use check in simp_all)
  have i: "timers_hold (of_nat c) (t - c + 1000) cyclics s" "c \<le> t" using check.IH by blast+
  obtain s2 r2 k2 where "sys_check_timeouts (of_nat now) env s = Some (s2, r2, k2)"
    "timers_hold (of_nat c) (t' - c + 1000) cyclics s2" "list_all (\<lambda>t. now - c < key (of_nat c) t) (next_timeout s2)"
    by (rule check_in_time [OF i check.hyps(2,3,4,5)])
  then have h: "timers_hold (of_nat c) (t' - c + 1000) cyclics s'" "list_all (\<lambda>t. now - c < key (of_nat c) t) (next_timeout s')"
    using check.hyps(6) by simp_all
  have "timers_hold (of_nat now) (t' - now + 1000) cyclics s'"
    by (rule hold_rebase [OF h(1)]) (use h(2) check i in \<open>auto simp: d list_all_iff less_imp_le\<close>)
  then show ?case using check.hyps i by simp
qed

section \<open>Properties\<close>

text \<open>C35.  The stack's timers keep running.  In any run, with the 32-bit clock wrapping as it will and whatever the handlers do
  with connections, a call of \<open>sys_check_timeouts\<close> returns after at most six handlers; both cyclic timers and, exactly
  while it is active, the TCP timer are still scheduled, once each, and every timer is then due after the time of the
  call and at most a second after its end.\<close>

theorem timers_keep_running:
  assumes "timers_run c t s" "t \<le> now" "now \<le> t'" "t' \<le> c + 2 ^ 30" "\<And>k. env_times now t' (env k)"
  shows "\<exists>s' r k. sys_check_timeouts (of_nat now) env s = Some (s', r, k) \<and> k \<le> 6 \<and> timers_run now t' s' \<and>
    image_mset st_h (mset (next_timeout s')) =
      {#H_cyclic 1, H_cyclic 2#} + (if tcpip_tcp_timer_active s' then {#H_tcp#} else {#}) \<and>
    list_all (\<lambda>x. 0 < dist (of_nat now) (st_time x) \<and> dist (of_nat now) (st_time x) \<le> t' - now + 1000) (next_timeout s')"
proof -
  note i = run_hold [OF assms(1)]
  have d: "dist (of_nat c) (of_nat now) = now - c" by (rule dist_of_nat) (use assms i in simp_all)
  obtain s' r k where s': "sys_check_timeouts (of_nat now) env s = Some (s', r, k)" "k \<le> load (of_nat c) (now - c) s"
    "list_all (\<lambda>t. now - c < key (of_nat c) t) (next_timeout s')"
    by (rule check_in_time [where env = env, OF _ _ assms(2-5)]) (use i in auto)
  have "size (handlers s) \<le> 3" using i by (simp add: timers_hold_def del: size_handlers)
  then have "k \<le> 6" using s'(2) load_le [of "of_nat c" "now - c" s] by simp
  moreover have run: "timers_run now t' s'" by (rule timers_run.check [OF assms(1-5) s'(1)])
  moreover have "dist (of_nat now) (st_time x) = key (of_nat c) x - (now - c)" if "x \<in> set (next_timeout s')" for x
    using dist_rebase [of "of_nat c" "of_nat now" "st_time x"] s'(3) that d by (auto simp: list_all_iff)
  ultimately show ?thesis
    using s'(1,3) run_hold [OF run] by (fastforce simp: timers_hold_def handlers_def ordered_def list_all_iff)
qed

theorem timers_keep_running_witness:
  "\<exists>s' r k. sys_check_timeouts (of_nat (2 ^ 32 + 500)) (\<lambda>_. \<lparr>te_regs = [], te_pcbs = False, te_now = of_nat (2 ^ 32 + 501)\<rparr>)
      (sys_timeouts_init (of_nat (2 ^ 32 - 700)) (of_nat (2 ^ 32 - 600)) timeouts_static) = Some (s', r, k) \<and> k \<le> 6"
proof -
  have "timers_run (2 ^ 32 - 700) (2 ^ 32 - 600) (sys_timeouts_init (of_nat (2 ^ 32 - 700)) (of_nat (2 ^ 32 - 600)) timeouts_static)"
    by (rule timers_run.start) simp_all
  moreover have "env_times (2 ^ 32 + 500) (2 ^ 32 + 501) \<lparr>te_regs = [], te_pcbs = False, te_now = of_nat (2 ^ 32 + 501)\<rparr>"
    by (auto simp: env_times_def intro!: exI [of _ "2 ^ 32 + 501"])
  ultimately show ?thesis
    using timers_keep_running [of "2 ^ 32 - 700" "2 ^ 32 - 600" _ "2 ^ 32 + 500" "2 ^ 32 + 501"] by fastforce
qed

end
