(* ===== verification/Ipprobe.thy ===== *)
theory Ipprobe
  imports Crypto_Util
begin

text \<open>
  The data-path probe (\<open>awg_ipprobe.c\<close>): one IPv4/UDP/DNS query built by hand, and the parser for its answer.
  Buffers are byte lists; the query is written into \<open>out\<close> of \<open>cap = length out\<close> bytes, and every read of the
  parser is checked (\<open>Fault\<close> is a read behind the packet).  Addresses are in network order in memory, as the
  little-endian bytes of the \<open>uint32_t\<close>.
\<close>

section \<open>Bytes and checksums\<close>

definition put_be16 :: "nat \<Rightarrow> u16 \<Rightarrow> bytes \<Rightarrow> bytes" where
  "put_be16 off v = patch off [ucast (drop_bit 8 v), ucast v]"

definition get_be16 :: "u8 \<Rightarrow> u8 \<Rightarrow> u16" where
  "get_be16 hi lo = push_bit 8 (ucast hi) OR ucast lo"

fun sum16 :: "bytes \<Rightarrow> u32 \<Rightarrow> u32" where
  "sum16 (a # b # p) acc = sum16 p (acc + ucast (get_be16 a b))"
| "sum16 [a] acc = acc + push_bit 8 (ucast a)"
| "sum16 [] acc = acc"

lemma fold16_step:
  fixes acc :: u32
  shows "unat ((acc AND 0xFFFF) + drop_bit 16 acc) = unat acc mod 65536 + unat acc div 65536"
proof -
  have "acc AND 0xFFFF = take_bit 16 acc" unfolding take_bit_eq_mask by (simp add: mask_eq_exp_minus_1)
  then have a: "unat (acc AND 0xFFFF) = unat acc mod 65536"
    by (simp only: unsigned_take_bit_eq) (simp add: take_bit_eq_mod)
  have b: "unat (drop_bit 16 acc) = unat acc div 65536"
    by (simp only: unat_drop_bit_eq) (simp add: drop_bit_eq_div)
  have "unat acc < 4294967296" using unsigned_less [of acc, where ?'a = nat] by simp
  then have "unat acc div 65536 < 65536" by auto
  then have "unat (acc AND 0xFFFF) + unat (drop_bit 16 acc) < 2 ^ LENGTH(32)"
    unfolding a b using mod_less_divisor [of 65536 "unat acc"] by simp
  then show ?thesis by (simp add: unat_plus_if' a b)
qed

function fold16 :: "u32 \<Rightarrow> u16" where
  "fold16 acc = (if drop_bit 16 acc \<noteq> 0 then fold16 ((acc AND 0xFFFF) + drop_bit 16 acc) else ucast (NOT acc))"
  by pat_completeness auto
termination
proof (relation "measure unat")
  fix acc :: u32 assume "drop_bit 16 acc \<noteq> 0"
  then have "drop_bit 16 (unat acc) \<noteq> 0" by (simp only: flip: unat_drop_bit_eq) (simp only: unat_eq_zero, simp)
  then have "unat acc div 65536 \<noteq> 0" by (simp add: drop_bit_eq_div)
  moreover have "unat acc = 65536 * (unat acc div 65536) + unat acc mod 65536" by simp
  ultimately show "((acc AND 0xFFFF) + drop_bit 16 acc, acc) \<in> measure unat"
    unfolding in_measure fold16_step by linarith
qed simp

declare fold16.simps [simp del]

section \<open>Names\<close>

text \<open>\<open>encode_name\<close>: the bytes written to \<open>o\<close>, in order, and the result (\<open>None\<close> for -1).\<close>

definition name_end :: "int \<Rightarrow> bytes \<Rightarrow> bytes \<times> nat option" where
  "name_end cap o' = (if int (length o') + 1 > cap then (o', None) else (o' @ [0], Some (length o' + 1)))"

function encode_loop :: "int \<Rightarrow> bytes \<Rightarrow> string \<Rightarrow> bytes \<times> nat option" where
  "encode_loop cap o' p =
     (if p = [] then name_end cap o'
      else
        let dot = split_at (CHR ''.'') p;
            lab = (case dot of Some (l, _) \<Rightarrow> l | None \<Rightarrow> p);
            len = length lab
        in if len = 0 \<or> len > 63 \<or> int (length o') + int len + 1 \<ge> cap then (o', None)
           else
             let o' = o' @ word_of_nat len # map (\<lambda>c. word_of_nat (of_char c)) lab
             in case dot of None \<Rightarrow> name_end cap o' | Some (_, rest) \<Rightarrow> encode_loop cap o' rest)"
  by pat_completeness auto
termination by (relation "measure (\<lambda>(cap, o', p). length p)") (auto dest!: split_at_Some [OF sym])

declare encode_loop.simps [simp del]

definition encode_name :: "int \<Rightarrow> string \<Rightarrow> bytes \<times> nat option" where
  "encode_name cap host = encode_loop cap [] host"

function skip_name :: "bytes \<Rightarrow> nat \<Rightarrow> nat \<Rightarrow> nat option outcome" where
  "skip_name b len off =
     (if off < len then
        outcome_bind (rd b off) (\<lambda>l.
          if l = 0 then Done (Some (off + 1))
          else if l AND 0xC0 = 0xC0 then Done (if off + 2 \<le> len then Some (off + 2) else None)
          else skip_name b len (off + (1 + l)))
      else Done None)"
  by pat_completeness auto
termination by (relation "measure (\<lambda>(b, len, off). len - off)") auto

declare skip_name.simps [simp del]

section \<open>The query\<close>

definition ipprobe_build_dns :: "bytes \<Rightarrow> u32 \<Rightarrow> u32 \<Rightarrow> u16 \<Rightarrow> u16 \<Rightarrow> string \<Rightarrow> bytes \<times> int" where
  "ipprobe_build_dns out src_ip dst_ip src_port txid host =
     (if length out < 20 + 8 + 32 then (out, -1)
      else
        let dns_cap = int (length out) - 20 - 8;
            out = put_be16 28 txid out;
            out = patch 30 [0x01, 0x00] out;
            out = put_be16 32 1 out;
            out = patch 34 (replicate 6 0) out;
            (name, nl) = encode_name (dns_cap - 12 - 4) host;
            out = patch 40 name out
        in case nl of
             None \<Rightarrow> (out, -1)
           | Some nl \<Rightarrow>
               let dn = 12 + nl;
                   out = put_be16 (28 + dn) 1 out; dn = dn + 2;
                   out = put_be16 (28 + dn) 1 out; dn = dn + 2;
                   udp_len = 8 + dn;
                   total_len = 20 + udp_len;
                   out = patch 0 [0x45, 0] out;
                   out = put_be16 2 (of_nat total_len) out;
                   out = put_be16 4 txid out;
                   out = put_be16 6 0x4000 out;
                   out = patch 8 [64, 17, 0, 0] out;
                   out = patch 12 (U32TO8_LITTLE src_ip) out;
                   out = patch 16 (U32TO8_LITTLE dst_ip) out;
                   out = put_be16 10 (fold16 (sum16 (take 20 out) 0)) out;
                   out = put_be16 20 src_port out;
                   out = put_be16 22 53 out;
                   out = put_be16 24 (of_nat udp_len) out;
                   out = patch 26 [0, 0] out;
                   acc = sum16 (U32TO8_LITTLE src_ip) 0;
                   acc = sum16 (U32TO8_LITTLE dst_ip) acc;
                   acc = acc + 17;
                   acc = acc + of_nat udp_len;
                   acc = sum16 (slice 20 udp_len out) acc;
                   ck = fold16 acc;
                   ck = (if ck = 0 then 0xFFFF else ck)
               in (put_be16 26 ck out, int total_len))"

section \<open>The answer\<close>

text \<open>Four bytes copied into a \<open>uint32_t\<close>.\<close>

definition rd_ip :: "bytes \<Rightarrow> nat \<Rightarrow> u32 outcome" where
  "rd_ip b i = (if i + 4 \<le> length b then Done (U8TO32_LITTLE (drop i b)) else Fault)"

primrec parse_answers :: "bytes \<Rightarrow> nat \<Rightarrow> nat \<Rightarrow> nat \<Rightarrow> u32 option outcome" where
  "parse_answers d dn 0 off = Done None"
| "parse_answers d dn (Suc k) off =
     (if off + 10 \<le> dn then
        outcome_bind (skip_name d dn off) (\<lambda>r.
          case r of
            None \<Rightarrow> Done None
          | Some off \<Rightarrow>
              if off + 10 > dn then Done None
              else
                outcome_bind (rd16 d off) (\<lambda>type.
                outcome_bind (rd16 d (off + 8)) (\<lambda>rdlen.
                  let off = off + 10
                  in if off + rdlen > dn then Done None
                     else if type = 1 \<and> rdlen = 4 then outcome_bind (rd_ip d off) (\<lambda>ip. Done (Some ip))
                     else parse_answers d dn k (off + rdlen))))
      else Done None)"

text \<open>The result code with the address it stored, if any.\<close>

definition ipprobe_parse_dns :: "bytes \<Rightarrow> u32 \<Rightarrow> u16 \<Rightarrow> u16 \<Rightarrow> (int \<times> u32 option) outcome" where
  "ipprobe_parse_dns pkt expect_src_ip expect_dst_port txid =
     (let len = length pkt
      in if len < 20 + 8 + 12 then Done (-1, None)
         else outcome_bind (rd pkt 0) (\<lambda>b0.
           if drop_bit 4 b0 \<noteq> 4 then Done (-2, None)
           else
             let ihl = (b0 AND 0x0F) * 4
             in if ihl < 20 \<or> len < ihl + 8 then Done (-1, None)
                else outcome_bind (rd pkt 9) (\<lambda>proto.
                  if proto \<noteq> 17 then Done (-3, None)
                  else outcome_bind (rd_ip pkt 12) (\<lambda>src.
                    if src \<noteq> expect_src_ip then Done (-4, None)
                    else outcome_bind (rd16 pkt (ihl + 2)) (\<lambda>port.
                      if port \<noteq> unat expect_dst_port then Done (-5, None)
                      else outcome_bind (rd16 pkt (ihl + 4)) (\<lambda>udp_len.
                        if udp_len < 8 \<or> ihl + udp_len > len then Done (-6, None)
                        else
                          let d = drop (ihl + 8) pkt; dn = udp_len - 8
                          in if dn < 12 then Done (-6, None)
                             else outcome_bind (rd16 d 0) (\<lambda>id.
                               if id \<noteq> unat txid then Done (-7, None)
                               else outcome_bind (rd16 d 6) (\<lambda>ancount.
                                 outcome_bind (skip_name d dn 12) (\<lambda>r.
                                   case r of
                                     None \<Rightarrow> Done (-6, None)
                                   | Some off \<Rightarrow>
                                       outcome_bind (parse_answers d dn ancount (off + 4)) (\<lambda>a.
                                         Done (case a of None \<Rightarrow> (-8, None) | Some ip \<Rightarrow> (0, Some ip))))))))))))"

definition ipprobe_ip_str :: "u32 \<Rightarrow> nat \<Rightarrow> string" where
  "ipprobe_ip_str net_order cap =
     (let b = U32TO8_LITTLE net_order
      in take (cap - 1) (show_nat (unat (b ! 0)) @ ''.'' @ show_nat (unat (b ! 1)) @ ''.''
           @ show_nat (unat (b ! 2)) @ ''.'' @ show_nat (unat (b ! 3))))"

section \<open>Checksums verify\<close>

text \<open>The sum of the big-endian 16-bit groups, an odd last byte in the high half.\<close>

fun wsum :: "bytes \<Rightarrow> nat" where
  "wsum (a # b # p) = 256 * unat a + unat b + wsum p"
| "wsum [a] = 256 * unat a"
| "wsum [] = 0"

lemma unat_get_be16: "unat (get_be16 a b) = 256 * unat a + unat b"
proof -
  have "get_be16 a b = push_bit 8 (ucast a) + ucast b"
    unfolding get_be16_def
    by (rule disjunctive_add [symmetric]) (auto simp: bit_push_bit_iff bit_ucast_iff dest: bit_imp_le_length)
  then show ?thesis
    using u8_lt [of a] u8_lt [of b]
    by (simp add: push_bit_eq_mult unat_word_ariths unsigned_ucast_eq take_bit_nat_eq_self)
qed

lemma sum16_wsum: "sum16 p acc = acc + of_nat (wsum p)"
proof (induction p acc rule: sum16.induct)
  case (1 a b p acc)
  have "ucast (get_be16 a b) = (of_nat (256 * unat a + unat b) :: u32)"
    by (simp only: flip: unat_get_be16) simp
  with 1 show ?case by (simp add: ac_simps)
next
  case (2 a acc)
  have "push_bit 8 (ucast a) = (of_nat (256 * unat a) :: u32)" by (simp add: push_bit_eq_mult)
  then show ?case by simp
qed simp

lemma wsum_append: "even (length p) \<Longrightarrow> wsum (p @ q) = wsum p + wsum q"
  by (induction p rule: wsum.induct) auto

lemma wsum_bound: "2 * wsum p \<le> 65535 * (length p + 1)"
proof (induction p rule: wsum.induct)
  case (1 a b p)
  then show ?case using u8_lt [of a] u8_lt [of b] by simp
next
  case (2 a)
  then show ?case using u8_lt [of a] by simp
qed simp

lemma fold16_val:
  "unat (fold16 acc) = (if acc = 0 then 65535 else 65534 - (unat acc - 1) mod 65535)"
proof (induction acc rule: fold16.induct)
  case (1 acc)
  show ?case
  proof (cases "drop_bit 16 acc = 0")
    case True
    then have "drop_bit 16 (unat acc) = 0" by (metis unat_drop_bit_eq unat_0)
    then have lt: "unat acc < 65536" by (simp add: drop_bit_eq_div)
    have "NOT acc = - 1 - acc" unfolding not_eq_complement by (rule minus_diff_commute)
    then have "unat (NOT acc) = 4294967295 - unat acc"
      using unat_sub [of acc "-1"] by (simp add: unsigned_minus_1_eq_mask mask_eq_exp_minus_1)
    also have "\<dots> = 65536 * 65535 + (65535 - unat acc)" using lt by linarith
    finally have n: "unat (NOT acc) = 65536 * 65535 + (65535 - unat acc)" .
    have "unat (ucast (NOT acc) :: u16) = unat (NOT acc) mod 65536" by (simp add: unsigned_ucast_eq take_bit_eq_mod)
    also have "\<dots> = 65535 - unat acc" unfolding n by (simp only: mod_mult_self4) simp
    finally have f: "unat (fold16 acc) = 65535 - unat acc" using True by (simp add: fold16.simps [of acc])
    show ?thesis
    proof (cases "acc = 0")
      case False
      then have p: "0 < unat acc" by (simp add: unat_gt_0)
      have m: "(unat acc - 1) mod 65535 = unat acc - 1" by (rule mod_less) (use lt in linarith)
      have "65535 - unat acc = 65534 - (unat acc - 1)" using p by linarith
      then show ?thesis unfolding f m if_not_P [OF False] .
    qed (use f in simp)
  next
    case False
    then have "drop_bit 16 (unat acc) \<noteq> 0" by (simp only: flip: unat_drop_bit_eq) (simp only: unat_eq_zero, simp)
    then have q: "unat acc div 65536 \<noteq> 0" by (simp add: drop_bit_eq_div)
    define s where "s = (acc AND 0xFFFF) + drop_bit 16 acc"
    have s: "unat s = unat acc mod 65536 + unat acc div 65536" by (simp add: s_def fold16_step)
    have "unat acc = 65535 * (unat acc div 65536) + (unat acc mod 65536 + unat acc div 65536)"
      using mult_div_mod_eq [of 65536 "unat acc"] by linarith
    then have "unat acc - 1 = 65535 * (unat acc div 65536) + (unat s - 1)" using s q by linarith
    then have "(unat acc - 1) mod 65535 = (unat s - 1) mod 65535" by (metis mod_mult_self4)
    moreover have "s \<noteq> 0" "acc \<noteq> 0" using s q by auto
    ultimately show ?thesis
      using 1 [OF False] False by (simp add: fold16.simps [of acc] s_def)
  qed
qed

text \<open>Adding the checksum of a sum to the sum gives a sum whose checksum is 0; so does adding \<open>0xFFFF\<close> in its place
  when it is 0.\<close>

lemma fold16_cancels:
  assumes "0 < s" "s + 65535 < 2 ^ 32"
  shows "fold16 (of_nat (s + unat (fold16 (of_nat s)))) = 0"
    "fold16 (of_nat s) = 0 \<Longrightarrow> fold16 (of_nat (s + 65535)) = 0"
proof -
  have u: "unat (of_nat s :: u32) = s" using assms by (simp add: unat_of_nat)
  have f: "unat (fold16 (of_nat s)) = 65534 - (s - 1) mod 65535"
    using fold16_val [of "of_nat s"] assms u by (auto simp flip: unat_eq_zero)
  have zero: "fold16 (of_nat t) = 0" if "(t - 1) mod 65535 = 65534" "0 < t" "t < 2 ^ 32" for t
  proof -
    have "unat (of_nat t :: u32) = t" using that by (simp add: unat_of_nat)
    with fold16_val [of "of_nat t"] that have "unat (fold16 (of_nat t)) = 0" by (auto simp flip: unat_eq_zero)
    then show ?thesis by (simp only: unat_eq_zero)
  qed
  define q where "q = (s - 1) div 65535"
  define r where "r = (s - 1) mod 65535"
  have r: "r < 65535" "s - 1 = 65535 * q + r" by (simp_all add: q_def r_def)
  have "s + (65534 - r) - 1 = 65535 * q + 65534" using r assms(1) by linarith
  then have "(s + (65534 - r) - 1) mod 65535 = 65534" by simp
  then show "fold16 (of_nat (s + unat (fold16 (of_nat s)))) = 0"
    unfolding f r_def [symmetric] using assms r by (intro zero) auto
  assume "fold16 (of_nat s) = 0"
  then have "r = 65534" using f r by (simp add: r_def)
  then have "s + 65535 - 1 = 65535 * q + 131069" using r assms(1) by linarith
  then have "(s + 65535 - 1) mod 65535 = 65534" by simp
  then show "fold16 (of_nat (s + 65535)) = 0" using assms by (intro zero) auto
qed

section \<open>The query, in closed form\<close>

definition be2 :: "u16 \<Rightarrow> bytes" where
  "be2 v = [ucast (drop_bit 8 v), ucast v]"

definition ip_header :: "nat \<Rightarrow> u16 \<Rightarrow> u32 \<Rightarrow> u32 \<Rightarrow> u16 \<Rightarrow> bytes" where
  "ip_header n txid src dst ck =
     [0x45, 0] @ be2 (of_nat n) @ be2 txid @ be2 0x4000 @ [64, 17] @ be2 ck @ U32TO8_LITTLE src @ U32TO8_LITTLE dst"

definition udp_header :: "u16 \<Rightarrow> nat \<Rightarrow> u16 \<Rightarrow> bytes" where
  "udp_header port len ck = be2 port @ be2 53 @ be2 (of_nat len) @ be2 ck"

definition dns_query :: "u16 \<Rightarrow> bytes \<Rightarrow> bytes" where
  "dns_query txid name = be2 txid @ [1, 0] @ be2 1 @ replicate 6 0 @ name @ be2 1 @ be2 1"

text \<open>The sum over the pseudo-header, as a receiver starts its check.\<close>

definition pseudo_sum :: "u32 \<Rightarrow> u32 \<Rightarrow> nat \<Rightarrow> u32" where
  "pseudo_sum src dst len = sum16 (U32TO8_LITTLE dst) (sum16 (U32TO8_LITTLE src) 0) + 17 + of_nat len"

lemma length_be2 [simp]: "length (be2 v) = 2" by (simp add: be2_def)

lemma length_headers [simp]:
  "length (ip_header t x s d c) = 20" "length (udp_header p l c) = 8" "length (dns_query x n) = 16 + length n"
  by (simp_all add: ip_header_def udp_header_def dns_query_def)

lemma patch_left: "off + length ys \<le> length a \<Longrightarrow> patch off ys (a @ z) = patch off ys a @ z"
  by (simp add: patch_def)

lemma patch_right: "length a \<le> off \<Longrightarrow> patch off ys (a @ z) = a @ patch (off - length a) ys z"
  by (simp add: patch_def)

lemma patch_eval [simp]:
  "patch 0 [] xs = xs"
  "patch 0 (y # ys) (x # xs) = y # patch 0 ys xs"
  "patch (Suc n) ys (x # xs) = x # patch n ys xs"
  "patch (numeral k) ys (x # xs) = x # patch (pred_numeral k) ys xs"
  by (simp_all add: patch_def numeral_eq_Suc)

lemma encode_loop_length: "encode_loop cap o' p = (w, Some n) \<Longrightarrow> length w = n \<and> int n \<le> cap"
proof (induction cap o' p rule: encode_loop.induct)
  case (1 cap o' p)
  then show ?case
    by (subst (asm) (2) encode_loop.simps)
      (auto simp: Let_def name_end_def split: if_splits option.splits prod.splits)
qed

lemma encode_name_length: "encode_name cap host = (w, Some n) \<Longrightarrow> length w = n \<and> int n \<le> cap"
  unfolding encode_name_def by (rule encode_loop_length)

lemma replicate_6: "replicate 6 x = [x, x, x, x, x, x]"
  by (simp add: numeral_eq_Suc)

lemma put_be16_patch: "put_be16 off v = patch off (be2 v)"
  by (simp add: put_be16_def be2_def)

text \<open>The writes into the first forty bytes, up to each checksum.\<close>

lemma query_writes:
  assumes "length a = 40"
  shows "patch 16 (U32TO8_LITTLE dst) (patch 12 (U32TO8_LITTLE src) (patch 8 [64, 17, 0, 0] (patch 6 (be2 0x4000)
      (patch 4 (be2 txid) (patch 2 (be2 (of_nat t)) (patch 0 [0x45, 0] (patch 34 (replicate 6 0) (patch 32 (be2 1)
        (patch 30 [1, 0] (patch 28 (be2 txid) a))))))))))
    = ip_header t txid src dst 0 @ drop 20 (take 28 a) @ be2 txid @ [1, 0] @ be2 1 @ replicate 6 0"
proof -
  obtain x where "a = map x [0..<40]" by (metis assms map_nth)
  then show ?thesis by (simp add: upt_rec be2_def U32TO8_LITTLE_def ip_header_def replicate_6)
qed

lemma header_writes:
  assumes "length m = 8"
  shows "patch 10 (be2 c) (ip_header t txid src dst 0 @ r) = ip_header t txid src dst c @ r"
    "patch 26 [0, 0] (patch 24 (be2 (of_nat u)) (patch 22 (be2 53) (patch 20 (be2 port) (ip_header t txid src dst c @ m @ r))))
      = ip_header t txid src dst c @ udp_header port u 0 @ r"
    "patch 26 (be2 d) (ip_header t txid src dst c @ udp_header port u 0 @ r)
      = ip_header t txid src dst c @ udp_header port u d @ r"
proof -
  obtain x where "m = map x [0..<8]" by (metis assms map_nth)
  then show "patch 26 [0, 0] (patch 24 (be2 (of_nat u)) (patch 22 (be2 53) (patch 20 (be2 port) (ip_header t txid src dst c @ m @ r))))
      = ip_header t txid src dst c @ udp_header port u 0 @ r"
    by (simp add: patch_right upt_rec be2_def udp_header_def)
qed (simp_all add: patch_right ip_header_def udp_header_def be2_def U32TO8_LITTLE_def)

lemma build_dns_form:
  fixes txid port :: u16 and src dst :: u32
  assumes n: "60 \<le> length out" and e: "encode_name (int (length out) - 44) host = (name, Some nl)"
  defines "t \<equiv> 44 + nl" and "u \<equiv> 24 + nl"
  defines "c1 \<equiv> fold16 (sum16 (ip_header t txid src dst 0) 0)"
  defines "c2 \<equiv> fold16 (sum16 (udp_header port u 0 @ dns_query txid name) (pseudo_sum src dst u))"
  shows "ipprobe_build_dns out src dst port txid host =
    (ip_header t txid src dst c1 @ udp_header port u (if c2 = 0 then 0xFFFF else c2) @ dns_query txid name @ drop t out,
     int t)"
proof -
  have l: "length name = nl" "44 + nl \<le> length out" using encode_name_length [OF e] n by auto
  define a where "a = take 40 out"
  define m where "m = drop 20 (take 28 a)"
  define rest where "rest = drop t out"
  define b where "b = slice 40 nl out"
  define q where "q = slice (40 + nl) 4 out"
  have len: "length a = 40" "length b = nl" "length q = 4" using l by (simp_all add: a_def b_def q_def slice_def)
  have out: "out = a @ b @ q @ rest"
    using append_take_drop_id [of 4 "drop (40 + nl) out"] append_take_drop_id [of nl "drop 40 out"]
      append_take_drop_id [of 40 out]
    by (simp add: a_def b_def q_def rest_def slice_def t_def add.commute)
  have m: "length m = 8" by (simp add: m_def len)
  define A where "A = patch 34 (replicate 6 0) (patch 32 (be2 1) (patch 30 [1, 0] (patch 28 (be2 txid) a)))"
  have A: "length A = 40" by (simp add: A_def bytes_simps len)
  have p1: "patch 34 (replicate 6 0) (patch 32 (be2 1) (patch 30 [1, 0] (patch 28 (be2 txid) out))) = A @ b @ q @ rest"
    by (simp add: out A_def patch_left bytes_simps len)
  have p2: "patch 40 name (A @ b @ q @ rest) = A @ name @ q @ rest"
    by (simp add: patch_right A) (simp add: patch_def len l)
  have p3: "patch (42 + nl) (be2 1) (patch (40 + nl) (be2 1) (A @ name @ q @ rest)) = A @ name @ be2 1 @ be2 1 @ rest"
  proof -
    obtain x where q: "q = map x [0..<4]" by (metis len(3) map_nth)
    then show ?thesis by (simp add: patch_right A l upt_rec be2_def)
  qed
  have p4: "patch 16 (U32TO8_LITTLE dst) (patch 12 (U32TO8_LITTLE src) (patch 8 [64, 17, 0, 0] (patch 6 (be2 0x4000)
      (patch 4 (be2 txid) (patch 2 (be2 (of_nat t)) (patch 0 [0x45, 0] (A @ z)))))))
    = ip_header t txid src dst 0 @ m @ be2 txid @ [1, 0] @ be2 1 @ replicate 6 0 @ z" for z
    using query_writes [OF len(1), of dst src txid t] by (simp add: patch_left A A_def [symmetric] bytes_simps m_def)
  have d: "dns_query txid name = be2 txid @ [1, 0] @ be2 1 @ replicate 6 0 @ name @ be2 1 @ be2 1" by (simp add: dns_query_def)
  have e': "encode_name (int (length out) - 20 - 8 - 12 - 4) host = (name, Some nl)" using e by simp
  have off: "28 + (12 + nl) = 40 + nl" "28 + (12 + nl + 2) = 42 + nl" "8 + (12 + nl + 2 + 2) = u"
    "20 + u = t" by (simp_all add: t_def u_def)
  define h where "h = be2 txid @ [1, 0] @ be2 1 @ replicate 6 (0 :: u8) @ name @ be2 1 @ be2 1"
  have h: "be2 txid @ [1, 0] @ be2 1 @ replicate 6 0 @ name @ be2 1 @ be2 1 @ rest = h @ rest" by (simp add: h_def)
  have d: "dns_query txid name = h" by (simp add: dns_query_def h_def)
  have t20: "take 20 (ip_header t txid src dst 0 @ z) = ip_header t txid src dst 0" for z by simp
  have su: "slice 20 u (ip_header t txid src dst c1 @ udp_header port u 0 @ h @ rest) = udp_header port u 0 @ dns_query txid name"
    by (simp add: slice_def d u_def) (simp add: h_def l)
  have n': "\<not> length out < 20 + 8 + 32" using n by simp
  have "ipprobe_build_dns out src dst port txid host = (put_be16 26 (if c2 = 0 then 0xFFFF else c2)
     (ip_header t txid src dst c1 @ udp_header port u 0 @ h @ rest), int t)"
    unfolding ipprobe_build_dns_def Let_def if_not_P [OF n'] put_be16_patch e' p1 prod.case option.case p2 off p3 p4
      append_assoc t20 c1_def [symmetric] header_writes(1) [OF m] h header_writes(2) [OF m]
      su pseudo_sum_def [symmetric] c2_def [symmetric] by (rule refl)
  then show ?thesis unfolding put_be16_patch header_writes(3) [OF m] d rest_def by simp
qed

lemma be2_val: "256 * unat (ucast (drop_bit 8 v) :: u8) + unat (ucast v :: u8) = unat (v :: u16)"
proof -
  have "unat v < 65536" using unsigned_less [of v, where ?'a = nat] by simp
  then have "unat v div 256 mod 256 = unat v div 256" by (intro mod_less) auto
  then have "unat (ucast (drop_bit 8 v) :: u8) = unat v div 256"
    by (simp add: unsigned_ucast_eq take_bit_eq_mod unat_drop_bit_eq drop_bit_eq_div [of 8 "unat v"])
  moreover have "unat (ucast v :: u8) = unat v mod 256" by (simp add: unsigned_ucast_eq take_bit_eq_mod)
  ultimately show ?thesis by simp
qed

lemma wsum_be2: "wsum (be2 v @ r) = unat v + wsum r"
  using be2_val [of v] by (simp add: be2_def)

lemma rd16_be2: "b = xs @ be2 v @ ys \<Longrightarrow> p = length xs \<Longrightarrow> rd16 b p = Done (unat v)"
  using be2_val [of v] by (simp add: rd16_Done be2_def nth_append)

lemma wsum_ip_header: "wsum (ip_header n txid src dst ck) = wsum (ip_header n txid src dst 0) + unat ck"
  by (simp add: ip_header_def wsum_be2)

lemma wsum_udp_header: "wsum (udp_header port n ck @ r) = wsum (udp_header port n 0 @ r) + unat ck"
  by (simp add: udp_header_def wsum_be2)

lemma ip_checksum_verifies:
  "fold16 (sum16 (ip_header n txid src dst (fold16 (sum16 (ip_header n txid src dst 0) 0))) 0) = 0"
proof -
  define s where "s = wsum (ip_header n txid src dst 0)"
  have "0 < s" by (simp add: s_def ip_header_def)
  moreover have "2 * s \<le> 65535 * 21" using wsum_bound [of "ip_header n txid src dst 0"] by (simp add: s_def)
  then have "s + 65535 < 2 ^ 32" by simp
  ultimately have "fold16 (of_nat (s + unat (fold16 (of_nat s)))) = 0" by (rule fold16_cancels)
  moreover have p: "sum16 (ip_header n txid src dst k) 0 = of_nat (s + unat k)" for k
    using wsum_ip_header [of n txid src dst k] by (simp add: sum16_wsum s_def)
  ultimately show ?thesis unfolding p by simp
qed

lemma udp_checksum_verifies:
  fixes port txid :: u16 and src dst :: u32
  assumes "n < 65536" "n = 24 + length name"
  defines "c \<equiv> fold16 (sum16 (udp_header port n 0 @ dns_query txid name) (pseudo_sum src dst n))"
  shows "fold16 (sum16 (udp_header port n (if c = 0 then 0xFFFF else c) @ dns_query txid name) (pseudo_sum src dst n)) = 0"
proof -
  define w where "w = wsum (udp_header port n 0 @ dns_query txid name)"
  define s where "s = wsum (U32TO8_LITTLE src) + wsum (U32TO8_LITTLE dst) + 17 + n + w"
  have p: "sum16 (udp_header port n k @ dns_query txid name) (pseudo_sum src dst n) = of_nat (s + unat k)" for k
    by (simp add: sum16_wsum pseudo_sum_def wsum_udp_header [of _ _ k] s_def w_def)
  have "2 * w \<le> 65535 * (n + 1)"
    using wsum_bound [of "udp_header port n 0 @ dns_query txid name"] assms(2) by (simp add: w_def)
  moreover have "2 * wsum (U32TO8_LITTLE a) \<le> 65535 * 5" for a using wsum_bound [of "U32TO8_LITTLE a"] by simp
  note this [of src] this [of dst]
  ultimately have "2 * s \<le> 65535 * (n + 1) + 65535 * 10 + 34 + 2 * n" unfolding s_def by simp
  then have "s + 65535 < 2 ^ 32" using assms(1) by simp
  moreover have "0 < s" by (simp add: s_def)
  ultimately have f: "fold16 (of_nat (s + unat (fold16 (of_nat s)))) = 0"
    "fold16 (of_nat s) = 0 \<Longrightarrow> fold16 (of_nat (s + 65535)) = 0" using fold16_cancels by blast+
  have c: "c = fold16 (of_nat s)" unfolding c_def p [of 0] by simp
  show ?thesis
  proof (cases "c = 0")
    case True
    with f(2) c show ?thesis unfolding p by (simp del: of_nat_add)
  next
    case False
    with f(1) c show ?thesis unfolding p by (simp del: of_nat_add)
  qed
qed

lemma build_dns_cases:
  assumes "ipprobe_build_dns out src dst port txid host = (out', n)" "0 < n"
  obtains name nl where "60 \<le> length out" "encode_name (int (length out) - 44) host = (name, Some nl)"
proof -
  obtain name r where e: "encode_name (int (length out) - 44) host = (name, r)" by fastforce
  have "60 \<le> length out" using assms by (rule_tac ccontr) (simp add: ipprobe_build_dns_def not_le)
  moreover have "r \<noteq> None"
  proof
    assume "r = None"
    with assms calculation e show False by (simp add: ipprobe_build_dns_def Let_def)
  qed
  ultimately show ?thesis using that e by (cases r) auto
qed

section \<open>Parsing stays inside the packet\<close>

lemma skip_name_safe:
  "len \<le> length b \<Longrightarrow> \<exists>r. skip_name b len off = Done r \<and> (case r of None \<Rightarrow> True | Some e \<Rightarrow> off < e \<and> e \<le> len)"
proof (induction b len off rule: skip_name.induct)
  case (1 b len off)
  show ?case
  proof (cases "off < len")
    case True
    with 1(2) have r: "rd b off = Done (unat (b ! off))" by (simp add: rd_Done)
    define l where "l = unat (b ! off)"
    show ?thesis
    proof (cases "l = 0 \<or> l AND 0xC0 = 0xC0")
      case False
      then have l: "l \<noteq> 0" "\<not> l AND 0xC0 = 0xC0" by auto
      from 1(1) [OF True l 1(2)] obtain x where "skip_name b len (off + (1 + l)) = Done x"
        "case x of None \<Rightarrow> True | Some e \<Rightarrow> off + (1 + l) < e \<and> e \<le> len" by blast
      with l True r show ?thesis
        by (subst skip_name.simps) (auto simp: l_def [symmetric] split: option.splits)
    qed (use True r in \<open>subst skip_name.simps, auto simp: l_def [symmetric]\<close>)
  qed (simp add: skip_name.simps [of b len off])
qed

lemma parse_answers_safe: "dn \<le> length d \<Longrightarrow> \<exists>r. parse_answers d dn k off = Done r"
proof (induction k arbitrary: off)
  case (Suc k)
  from skip_name_safe [OF Suc.prems, of off] obtain r where
    r: "skip_name d dn off = Done r" "case r of None \<Rightarrow> True | Some e \<Rightarrow> off < e \<and> e \<le> dn" by blast
  with Suc show ?case by (cases r) (auto simp: Let_def rd16_Done rd_ip_def)
qed simp

definition coded :: "(int \<times> u32 option) outcome \<Rightarrow> bool" where
  "coded r = (case r of Done (code, ip) \<Rightarrow> code \<in> {-8 .. 0} \<and> (ip \<noteq> None \<longleftrightarrow> code = 0) | Rejected \<Rightarrow> False | Fault \<Rightarrow> False)"

lemma coded_intros:
  "(c \<Longrightarrow> coded x) \<Longrightarrow> (\<not> c \<Longrightarrow> coded y) \<Longrightarrow> coded (if c then x else y)"
  "i < length b \<Longrightarrow> (\<And>v. coded (f v)) \<Longrightarrow> coded (outcome_bind (rd b i) f)"
  "i + 1 < length b \<Longrightarrow> (\<And>v. coded (f v)) \<Longrightarrow> coded (outcome_bind (rd16 b i) f)"
  "i + 4 \<le> length b \<Longrightarrow> (\<And>v. coded (f' v)) \<Longrightarrow> coded (outcome_bind (rd_ip b i) f')"
  "len \<le> length b \<Longrightarrow> (\<And>v. coded (g v)) \<Longrightarrow> coded (outcome_bind (skip_name b len i) g)"
  "len \<le> length b \<Longrightarrow> (\<And>v. coded (h v)) \<Longrightarrow> coded (outcome_bind (parse_answers b len k i) h)"
  "coded (Done (case r' of None \<Rightarrow> (-8, None) | Some ip \<Rightarrow> (0, Some ip)))"
  "coded a \<Longrightarrow> (\<And>n. coded (e n)) \<Longrightarrow> coded (case r of None \<Rightarrow> a | Some n \<Rightarrow> e n)"
proof -
  show "len \<le> length b \<Longrightarrow> (\<And>v. coded (g v)) \<Longrightarrow> coded (outcome_bind (skip_name b len i) g)"
    using skip_name_safe [of len b i] by auto
  show "len \<le> length b \<Longrightarrow> (\<And>v. coded (h v)) \<Longrightarrow> coded (outcome_bind (parse_answers b len k i) h)"
    using parse_answers_safe [of len b k i] by auto
qed (auto simp: rd_Done rd16_Done rd_ip_def coded_def split: option.split)

section \<open>Answers are found\<close>

definition encoded :: "bytes list \<Rightarrow> bytes" where
  "encoded ls = concat (map (\<lambda>l. word_of_nat (length l) # l) ls)"

definition labels_wf :: "bytes list \<Rightarrow> bool" where
  "labels_wf ls = list_all (\<lambda>l. 0 < length l \<and> length l < 64) ls"

text \<open>A name in a message: labels, then the root or a pointer.\<close>

definition name_ok :: "bytes \<Rightarrow> bool" where
  "name_ok nm \<longleftrightarrow> (\<exists>ls t. labels_wf ls \<and> nm = encoded ls @ t \<and> (t = [0] \<or> (\<exists>h l. h < 64 \<and> t = [word_of_nat (192 + h), l])))"

lemma and_192: "(l :: nat) < 64 \<Longrightarrow> l AND 0xC0 \<noteq> 0xC0" "l < 64 \<Longrightarrow> (192 + l) AND 0xC0 = 0xC0"
proof -
  show "l AND 0xC0 \<noteq> 0xC0" if "l < 64"
  proof
    assume "l AND 0xC0 = 0xC0"
    then have "bit (l AND 0xC0) 7" by (simp add: bit_simps)
    then have "bit l 7" by (simp add: bit_and_iff)
    with that show False by (simp add: bit_iff_odd)
  qed
  assume "l < 64"
  then have d: "drop_bit 6 (192 + l) = 3" by (simp add: drop_bit_eq_div)
  have p: "(192 :: nat) = push_bit 6 3" by (simp add: push_bit_eq_mult)
  show "(192 + l) AND 0xC0 = 0xC0"
  proof (rule bit_eqI)
    fix n
    have "bit (192 + l) n = bit (3 :: nat) (n - 6)" if "6 \<le> n"
      using that bit_drop_bit_eq [of 6 "192 + l"] unfolding d by (simp add: fun_eq_iff)
    moreover have "bit (192 :: nat) n \<longleftrightarrow> 6 \<le> n \<and> bit (3 :: nat) (n - 6)"
      unfolding p bit_push_bit_iff by simp
    ultimately show "bit ((192 + l) AND 192) n = bit (192 :: nat) n" by (auto simp: bit_and_iff)
  qed
qed

lemma skip_name_over:
  assumes "labels_wf ls" "t = [0] \<or> (\<exists>h l. h < 64 \<and> t = [word_of_nat (192 + h), l])"
    "b = xs @ encoded ls @ t @ ys" "length xs + length (encoded ls) + length t \<le> len" "len \<le> length b"
  shows "skip_name b len (length xs) = Done (Some (length xs + length (encoded ls) + length t))"
  using assms
proof (induction ls arbitrary: xs)
  case Nil
  have lt: "length xs < len" using Nil by (auto simp: encoded_def)
  show ?case
  proof (cases "t = [0]")
    case True
    with Nil lt show ?thesis by (subst skip_name.simps) (simp add: rd_def encoded_def)
  next
    case False
    then obtain h l where "h < 64" "t = [word_of_nat (192 + h), l]" using Nil by auto
    with Nil lt and_192(2) [of h] show ?thesis
      by (subst skip_name.simps) (simp add: rd_def encoded_def unat_of_nat del: of_nat_add)
  qed
next
  case (Cons l ls)
  define n where "n = length l"
  have l: "0 < n" "n < 64" "labels_wf ls" using Cons.prems by (simp_all add: labels_wf_def n_def)
  have e: "encoded (l # ls) = word_of_nat n # l @ encoded ls" by (simp add: encoded_def n_def)
  have r: "rd b (length xs) = Done n" using Cons.prems(3) l by (intro rd_at) (simp_all add: e)
  have lt: "length xs < len" using Cons.prems by (simp add: e)
  have "skip_name b len (length xs) = skip_name b len (length xs + (1 + n))"
    using l(1) by (subst skip_name.simps) (simp add: lt r l(2) and_192)
  also have "\<dots> = Done (Some (length (xs @ word_of_nat n # l) + length (encoded ls) + length t))"
    using Cons.IH [of "xs @ word_of_nat n # l"] Cons.prems l by (simp add: e n_def)
  finally show ?case by (simp add: e n_def)
qed

lemma skip_name_ok:
  assumes "name_ok nm" "b = xs @ nm @ ys" "length xs + length nm \<le> len" "len \<le> length b" "off = length xs"
  shows "skip_name b len off = Done (Some (length xs + length nm))"
proof -
  obtain ls t where n: "labels_wf ls" "nm = encoded ls @ t" "t = [0] \<or> (\<exists>h l. h < 64 \<and> t = [word_of_nat (192 + h), l])"
    using assms(1) unfolding name_ok_def by blast
  have "skip_name b len (length xs) = Done (Some (length xs + length (encoded ls) + length t))"
    by (rule skip_name_over [OF n(1,3)]) (use assms n in auto)
  with assms(5) n show ?thesis by (simp add: add.assoc)
qed

type_synonym rr = "bytes \<times> nat \<times> bytes \<times> bytes"

text \<open>A resource record: name, type, class and time to live, data.\<close>

definition rr_bytes :: "rr \<Rightarrow> bytes" where
  "rr_bytes = (\<lambda>(nm, type, ct, dat). nm @ be16 type @ ct @ be16 (length dat) @ dat)"

definition rr_ok :: "rr \<Rightarrow> bool" where
  "rr_ok = (\<lambda>(nm, type, ct, dat). name_ok nm \<and> type < 65536 \<and> length ct = 6 \<and> length dat < 65536)"

definition is_a :: "rr \<Rightarrow> bool" where
  "is_a = (\<lambda>(nm, type, ct, dat). type = 1 \<and> length dat = 4)"

lemma parse_answers_record:
  assumes ok: "rr_ok (nm, type, ct, dat)" and d: "d = xs @ rr_bytes (nm, type, ct, dat) @ ys"
    and dn: "length xs + length (rr_bytes (nm, type, ct, dat)) \<le> dn" "dn \<le> length d"
  shows "parse_answers d dn (Suc k) (length xs) =
    (if is_a (nm, type, ct, dat) then Done (Some (U8TO32_LITTLE dat))
     else parse_answers d dn k (length (xs @ rr_bytes (nm, type, ct, dat))))"
proof -
  note d = d [unfolded rr_bytes_def prod.case]
  define off where "off = length xs + length nm"
  have len: "length (rr_bytes (nm, type, ct, dat)) = length nm + 10 + length dat" "length ct = 6"
    using ok by (simp_all add: rr_bytes_def rr_ok_def)
  have s: "skip_name d dn (length xs) = Done (Some off)"
    unfolding off_def by (rule skip_name_ok [where ys = "be16 type @ ct @ be16 (length dat) @ dat @ ys"])
      (use ok d dn in \<open>auto simp: rr_ok_def rr_bytes_def\<close>)
  have t: "rd16 d off = Done type"
    by (rule rd16_be16_at [where xs = "xs @ nm" and ys = "ct @ be16 (length dat) @ dat @ ys"])
      (use ok d in \<open>auto simp: rr_ok_def off_def\<close>)
  have r: "rd16 d (off + 8) = Done (length dat)"
    by (rule rd16_be16_at [where xs = "xs @ nm @ be16 type @ ct" and ys = "dat @ ys"])
      (use ok d len in \<open>auto simp: rr_ok_def off_def\<close>)
  have a: "rd_ip d (off + 10) = Done (U8TO32_LITTLE (dat @ ys))" if "length dat = 4"
    using that len by (simp add: rd_ip_def d off_def)
  have "U8TO32_LITTLE (dat @ ys) = U8TO32_LITTLE dat" if "length dat = 4"
    using that by (simp add: U8TO32_LITTLE_def nth_append)
  with a have a: "rd_ip d (off + 10) = Done (U8TO32_LITTLE dat)" if "length dat = 4" using that by simp
  have "length xs + 10 \<le> dn" "off + 10 \<le> dn" "off + 10 + length dat \<le> dn" using dn len by (simp_all add: off_def)
  then have p: "parse_answers d dn (Suc k) (length xs) =
     (if type = 1 \<and> length dat = 4 then outcome_bind (rd_ip d (off + 10)) (\<lambda>ip. Done (Some ip))
      else parse_answers d dn k (off + 10 + length dat))"
    by (simp add: s t r Let_def)
  have "off + 10 + length dat = length (xs @ rr_bytes (nm, type, ct, dat))" using len by (simp add: off_def)
  then show ?thesis unfolding p using a by (simp add: is_a_def)
qed

lemma parse_answers_finds:
  assumes "list_all (\<lambda>r. rr_ok r \<and> \<not> is_a r) pre" "rr_ok a" "is_a a"
    "d = xs @ concat (map rr_bytes (pre @ [a])) @ ys" "length pre < k"
    "length xs + length (concat (map rr_bytes (pre @ [a]))) \<le> dn" "dn \<le> length d"
  shows "parse_answers d dn k (length xs) = Done (Some (U8TO32_LITTLE (snd (snd (snd a)))))"
  using assms
proof (induction pre arbitrary: k xs)
  case Nil
  obtain nm type ct dat where a: "a = (nm, type, ct, dat)" by (rule prod_cases4)
  obtain j where "k = Suc j" using Nil by (cases k) auto
  with Nil parse_answers_record [of nm type ct dat d xs ys dn j] show ?case by (simp add: a)
next
  case (Cons r pre)
  obtain nm type ct dat where r: "r = (nm, type, ct, dat)" by (rule prod_cases4)
  obtain j where "k = Suc j" using Cons by (cases k) auto
  with Cons.prems Cons.IH [of "xs @ rr_bytes r" j]
    parse_answers_record [of nm type ct dat d xs "concat (map rr_bytes (pre @ [a])) @ ys" dn j]
  show ?case by (simp add: r)
qed

lemma encode_loop_labels:
  "encode_loop cap o' p = (w, Some n) \<Longrightarrow> \<exists>ls. labels_wf ls \<and> w = o' @ encoded ls @ [0]"
proof (induction cap o' p rule: encode_loop.induct)
  case (1 cap o' p)
  define dot where "dot = split_at (CHR ''.'') p"
  define lab where "lab = (case dot of Some (l, _) \<Rightarrow> l | None \<Rightarrow> p)"
  define l :: bytes where "l = map (\<lambda>c. word_of_nat (of_char c)) lab"
  define o2 where "o2 = o' @ word_of_nat (length lab) # l"
  have fin: "w = v @ [0]" if "name_end cap v = (w, Some n)" for v
    using that by (simp add: name_end_def split: if_splits)
  have o2: "o' @ word_of_nat (length lab) # map (\<lambda>c. word_of_nat (of_char c)) lab = o2" by (simp add: o2_def l_def)
  show ?case
  proof (cases "p = []")
    case True
    with 1(2) have "w = o' @ encoded [] @ [0]" by (simp add: encode_loop.simps [of cap o' "[]"] fin encoded_def)
    then show ?thesis by (intro exI [of _ "[]"]) (simp add: labels_wf_def)
  next
    case False
    with 1(2) have g: "\<not> (length lab = 0 \<or> length lab > 63 \<or> int (length o') + int (length lab) + 1 \<ge> cap)"
      and r: "(case dot of None \<Rightarrow> name_end cap o2 | Some (_, rest) \<Rightarrow> encode_loop cap o2 rest) = (w, Some n)"
      by (auto simp: encode_loop.simps [of cap o' p] Let_def dot_def [symmetric] lab_def [symmetric] o2 split: if_splits)
    have ex: "\<exists>ls. labels_wf ls \<and> w = o2 @ encoded ls @ [0]"
    proof (cases dot)
      case None
      then have "w = o2 @ encoded [] @ [0]" using r fin by (simp add: encoded_def)
      then show ?thesis by (intro exI [of _ "[]"]) (simp add: labels_wf_def)
    next
      case (Some x)
      obtain a rest where x: "x = (a, rest)" by fastforce
      show ?thesis
        by (rule 1(1) [OF False dot_def lab_def refl g o2 [symmetric] Some x [symmetric]]) (use r Some x in simp)
    qed
    then obtain ls where ls: "labels_wf ls" "w = o2 @ encoded ls @ [0]" by blast
    then have "labels_wf (l # ls)" "w = o' @ encoded (l # ls) @ [0]"
      using g by (simp_all add: labels_wf_def encoded_def o2_def l_def)
    then show ?thesis by blast
  qed
qed

lemma encode_name_ok: "encode_name cap host = (w, Some n) \<Longrightarrow> name_ok w"
  using encode_loop_labels [of cap "[]" host w n] by (auto simp: encode_name_def name_ok_def)

text \<open>Replies: an IPv4 header of any length with any options, the UDP header, and a DNS message with a question
  and any records.\<close>

definition reply_header :: "u32 \<Rightarrow> bytes \<Rightarrow> bool" where
  "reply_header src hdr \<longleftrightarrow> (\<exists>k. 5 \<le> k \<and> k \<le> 15 \<and> length hdr = 4 * k \<and> hdr ! 0 = word_of_nat (64 + k) \<and> hdr ! 9 = 17 \<and>
     slice 12 4 hdr = U32TO8_LITTLE src)"

definition dns_message :: "u16 \<Rightarrow> bytes \<Rightarrow> nat \<Rightarrow> bytes \<Rightarrow> bytes \<Rightarrow> bytes \<Rightarrow> rr list \<Rightarrow> bytes \<Rightarrow> bytes" where
  "dns_message txid flags an counts qname qtail rrs more =
     be2 txid @ flags @ be16 an @ counts @ qname @ qtail @ concat (map rr_bytes rrs) @ more"

definition udp_datagram :: "bytes \<Rightarrow> u16 \<Rightarrow> u16 \<Rightarrow> bytes \<Rightarrow> bytes \<Rightarrow> bytes" where
  "udp_datagram hdr sport dport ck payload = hdr @ be2 sport @ be2 dport @ be16 (8 + length payload) @ ck @ payload"

lemma and_15: "x AND 0x0F = x mod (16 :: nat)"
  using take_bit_eq_mask [of 4 x] by (simp add: take_bit_eq_mod mask_eq_exp_minus_1)

lemma U8TO32_at: "slice i 4 b = U32TO8_LITTLE v \<Longrightarrow> i + 4 \<le> length b \<Longrightarrow> U8TO32_LITTLE (drop i (b @ r)) = v"
proof -
  assume s: "slice i 4 b = U32TO8_LITTLE v" and l: "i + 4 \<le> length b"
  have "drop i (b @ r) = slice i 4 b @ drop (i + 4) (b @ r)"
    using l append_take_drop_id [of 4 "drop i b"] by (simp add: slice_def add.commute)
  then show ?thesis by (simp add: s)
qed

lemma parse_reply:
  assumes h: "reply_header src hdr" and ck: "length ck = 2" and fl: "length flags = 4" "length counts = 4" "length qtail = 4"
    and q: "name_ok qname" and pre: "list_all (\<lambda>r. rr_ok r \<and> \<not> is_a r) pre" and a: "rr_ok a" "is_a a"
    and an: "length pre < an" "an < 65536"
    and d_def: "d = dns_message txid flags an counts qname qtail (pre @ [a]) more" and len: "8 + length d < 65536"
  shows "ipprobe_parse_dns (udp_datagram hdr sport dport ck d @ pad) src dport txid
    = Done (0, Some (U8TO32_LITTLE (snd (snd (snd a)))))"
proof -
  define pkt where "pkt = udp_datagram hdr sport dport ck d @ pad"
  obtain k where k: "5 \<le> k" "k \<le> 15" "length hdr = 4 * k" "hdr ! 0 = word_of_nat (64 + k)" "hdr ! 9 = 17"
    "slice 12 4 hdr = U32TO8_LITTLE src" using h by (auto simp: reply_header_def)
  have p: "pkt = hdr @ be2 sport @ be2 dport @ be16 (8 + length d) @ ck @ d @ pad" by (simp add: pkt_def udp_datagram_def)
  have ld: "12 \<le> length d" using fl by (simp add: d_def dns_message_def)
  have lp: "length pkt = 4 * k + 8 + length d + length pad" using k ck by (simp add: p)
  have h0: "rd pkt 0 = Done (64 + k)" "rd pkt 9 = Done 17"
    using k lp ck by (simp_all add: rd_def p nth_append unat_of_nat del: of_nat_add)
  have src: "rd_ip pkt 12 = Done src"
    using k lp U8TO32_at [OF k(6), of "be2 sport @ be2 dport @ be16 (8 + length d) @ ck @ d @ pad"]
    by (simp add: rd_ip_def p)
  have port: "rd16 pkt (4 * k + 2) = Done (unat dport)"
    by (rule rd16_be2 [where xs = "hdr @ be2 sport"]) (simp_all add: p k)
  have ul: "rd16 pkt (4 * k + 4) = Done (8 + length d)"
    by (rule rd16_be16_at [where xs = "hdr @ be2 sport @ be2 dport"]) (use len in \<open>simp_all add: p k\<close>)
  have dr: "drop (4 * k + 8) pkt = d @ pad" using k ck by (simp add: p)
  have id: "rd16 (d @ pad) 0 = Done (unat txid)"
    by (rule rd16_be2 [where xs = "[]"]) (simp_all add: d_def dns_message_def)
  have ac: "rd16 (d @ pad) 6 = Done an"
    by (rule rd16_be16_at [where xs = "be2 txid @ flags"]) (use fl an in \<open>simp_all add: d_def dns_message_def\<close>)
  define xs where "xs = be2 txid @ flags @ be16 an @ counts"
  have xs: "length xs = 12" using fl by (simp add: xs_def)
  have dx: "d @ pad = xs @ qname @ qtail @ concat (map rr_bytes (pre @ [a])) @ more @ pad"
    by (simp add: d_def dns_message_def xs_def)
  have "length xs + length qname \<le> length d" by (simp add: d_def dns_message_def xs_def)
  then have "skip_name (d @ pad) (length d) 12 = Done (Some (length xs + length qname))"
    by (rule skip_name_ok [OF q dx]) (simp_all add: xs)
  then have sk: "skip_name (d @ pad) (length d) 12 = Done (Some (12 + length qname))" by (simp only: xs)
  have off: "12 + length qname + 4 = length (xs @ qname @ qtail)" by (simp add: xs fl)
  have pa: "parse_answers (d @ pad) (length d) an (12 + length qname + 4) = Done (Some (U8TO32_LITTLE (snd (snd (snd a)))))"
    unfolding off by (rule parse_answers_finds [OF pre a, where ys = "more @ pad"])
      (simp_all add: d_def dns_message_def an xs_def)
  have "(16 * 4 + k) mod 16 = k" using k(2) unfolding mod_mult_self4 by simp
  then have dk: "drop_bit 4 (64 + k) = 4" "(64 + k) AND 0x0F = k" using k by (simp_all add: drop_bit_eq_div and_15)
  show ?thesis
    unfolding pkt_def [symmetric] ipprobe_parse_dns_def Let_def
    using k ld pa by (simp add: h0 src port ul dr id ac sk pa dk lp mult.commute [of k] del: parse_answers.simps add_2_eq_Suc add_2_eq_Suc')
qed

section \<open>Properties\<close>

text \<open>The query is a valid packet.  When the builder succeeds it changed exactly the first \<open>n\<close> bytes of the buffer,
  both checksums verify the way a receiver checks them (the one's complement sum over the header, and over the
  pseudo-header and the datagram, is all ones), both length fields are right, and the message asks for the encoded name.\<close>

lemma dns_query_valid:
  assumes "ipprobe_build_dns out src dst port txid host = (out', n)" "0 < n" "length out < 65536"
  shows "length out' = length out \<and> drop (nat n) out' = drop (nat n) out \<and> n \<le> int (length out) \<and>
    fold16 (sum16 (take 20 out') 0) = 0 \<and>
    fold16 (sum16 (slice 20 (nat n - 20) out') (pseudo_sum src dst (nat n - 20))) = 0 \<and>
    rd16 out' 2 = Done (nat n) \<and> rd16 out' 24 = Done (nat n - 20) \<and>
    (\<exists>name. encode_name (int (length out) - 44) host = (name, Some (length name)) \<and> name_ok name \<and>
            slice 28 (nat n - 28) out' = dns_query txid name)"
proof -
  obtain name nl where o: "60 \<le> length out" and e: "encode_name (int (length out) - 44) host = (name, Some nl)"
    by (rule build_dns_cases [OF assms(1,2)])
  have l: "length name = nl" "44 + nl \<le> length out" using encode_name_length [OF e] o by auto
  define c1 where "c1 = fold16 (sum16 (ip_header (44 + nl) txid src dst 0) 0)"
  define c where "c = fold16 (sum16 (udp_header port (24 + nl) 0 @ dns_query txid name) (pseudo_sum src dst (24 + nl)))"
  define c2 where "c2 = (if c = 0 then 0xFFFF else c)"
  have r: "out' = ip_header (44 + nl) txid src dst c1 @ udp_header port (24 + nl) c2 @ dns_query txid name @ drop (44 + nl) out"
    "n = int (44 + nl)"
    using build_dns_form [OF o e, of src dst port txid] assms(1) by (simp_all add: c1_def c2_def c_def)
  have u: "fold16 (sum16 (udp_header port (24 + nl) c2 @ dns_query txid name) (pseudo_sum src dst (24 + nl))) = 0"
    unfolding c2_def c_def by (rule udp_checksum_verifies) (use l assms(3) in auto)
  have "slice 20 (24 + nl) out' = udp_header port (24 + nl) c2 @ dns_query txid name" by (simp add: r slice_def l)
  moreover have "slice 28 (16 + nl) out' = dns_query txid name" by (simp add: r slice_def l)
  moreover have "take 20 out' = ip_header (44 + nl) txid src dst c1" by (simp add: r)
  moreover have "rd16 out' 2 = Done (unat (of_nat (44 + nl) :: u16))"
    by (rule rd16_be2 [where xs = "[0x45, 0]"]) (simp_all add: r ip_header_def)
  moreover have "rd16 out' 24 = Done (unat (of_nat (24 + nl) :: u16))"
    by (rule rd16_be2 [where xs = "ip_header (44 + nl) txid src dst c1 @ be2 port @ be2 53"]) (simp_all add: r udp_header_def)
  moreover have "unat (of_nat (44 + nl) :: u16) = 44 + nl" "unat (of_nat (24 + nl) :: u16) = 24 + nl"
    using l assms(3) by (simp_all add: unat_of_nat del: of_nat_add)
  ultimately show ?thesis
    using u ip_checksum_verifies [of "44 + nl" txid src dst] l e encode_name_ok [OF e] c1_def
    by (simp add: r del: of_nat_add)
qed

text \<open>The parser is safe and total: whatever packet arrives, no byte behind it is read, the result is 0 or one of the
  eight documented codes, and an address is stored exactly with result 0.\<close>

lemma parse_dns_total:
  "case ipprobe_parse_dns pkt src port txid of
     Done (code, ip) \<Rightarrow> code \<in> {-8 .. 0} \<and> (ip \<noteq> None \<longleftrightarrow> code = 0) | Rejected \<Rightarrow> False | Fault \<Rightarrow> False"
proof -
  have "coded (ipprobe_parse_dns pkt src port txid)"
    unfolding ipprobe_parse_dns_def Let_def by (intro coded_intros) (auto simp: coded_def)
  then show ?thesis by (simp add: coded_def)
qed

text \<open>An answer to a query is understood.  Take any host name the builder encodes and any reply from the expected
  server to the expected port, with any IP options, any flags and counts, the question repeated, any number of
  other records (aliases and the like, with compressed or plain names) before the first address record, and anything
  after it: the parser returns that record's address.\<close>

lemma dns_reply_understood:
  assumes "encode_name cap host = (qname, Some n)" "reply_header src hdr" "length ck = 2"
    "length flags = 4" "length counts = 4" "length qtail = 4"
    "list_all (\<lambda>r. rr_ok r \<and> \<not> is_a r) pre" "rr_ok (nm, 1, ct, U32TO8_LITTLE ip)" "length pre < an" "an < 65536"
    "8 + length (dns_message txid flags an counts qname qtail (pre @ [(nm, 1, ct, U32TO8_LITTLE ip)]) more) < 65536"
  shows "ipprobe_parse_dns (udp_datagram hdr sport dport ck
      (dns_message txid flags an counts qname qtail (pre @ [(nm, 1, ct, U32TO8_LITTLE ip)]) more) @ pad) src dport txid
    = Done (0, Some ip)"
  using parse_reply [OF assms(2-6) encode_name_ok [OF assms(1)] assms(7,8) _ assms(9,10) refl assms(11)]
    U8TO32_U32TO8 [of ip "[]"] by (simp add: is_a_def)

end
