(* ===== verification/Lwip_Chksum.thy ===== *)
theory Lwip_Chksum
  imports Ipprobe
begin

text \<open>
  The Internet checksum of the stack (\<open>lwip/core/inet_chksum.c\<close>, in the version compiled here, number 2) with the byte
  order helpers of \<open>def.c\<close>.  It sums native 16-bit words at whatever alignment a buffer has and swaps bytes to make up
  for odd addresses and for pbufs of odd length; the theorems show that the result is the plain sum of RFC 1071 over the
  bytes of the chain, which the probe of \<open>awg_ipprobe.c\<close> computes independently.
\<close>

section \<open>The code\<close>

definition lwip_htons :: "u16 \<Rightarrow> u16" where
  "lwip_htons n = push_bit 8 (n AND 0x00FF) OR drop_bit 8 (n AND 0xFF00)"

definition lwip_htonl :: "u32 \<Rightarrow> u32" where
  "lwip_htonl n = push_bit 24 (n AND 0xFF) OR push_bit 8 (n AND 0xFF00) OR drop_bit 8 (n AND 0xFF0000)
     OR drop_bit 24 (n AND 0xFF000000)"

definition SWAP_BYTES_IN_WORD :: "u32 \<Rightarrow> u32" where
  "SWAP_BYTES_IN_WORD w = push_bit 8 (w AND 0xFF) OR drop_bit 8 (w AND 0xFF00)"

definition FOLD_U32T :: "u32 \<Rightarrow> u32" where
  "FOLD_U32T u = drop_bit 16 u + (u AND 0xFFFF)"

text \<open>The bulk of the data, as \<open>u16_t\<close> loads of a little-endian machine: the sum and what is left, at most one byte.\<close>

fun chksum_bulk :: "bytes \<Rightarrow> u32 \<Rightarrow> u32 \<times> bytes" where
  "chksum_bulk (a # b # p) acc = chksum_bulk p (acc + (ucast a OR push_bit 8 (ucast b)))"
| "chksum_bulk p acc = (acc, p)"

text \<open>\<open>at_odd\<close> is whether the buffer starts at an odd address; \<open>t\<close> collects the two end bytes.\<close>

definition lwip_standard_chksum :: "bool \<Rightarrow> bytes \<Rightarrow> u16" where
  "lwip_standard_chksum at_odd pb =
     (let (t1, pb) = (case pb of b # r \<Rightarrow> if at_odd then (b, r) else (0, pb) | [] \<Rightarrow> (0, pb));
          (acc, ps) = chksum_bulk pb 0;
          t0 = (case ps of [] \<Rightarrow> 0 | b # _ \<Rightarrow> b);
          t = (ucast t0 OR push_bit 8 (ucast t1) :: u16);
          acc = acc + ucast t;
          acc = FOLD_U32T (FOLD_U32T acc)
      in ucast (if at_odd then SWAP_BYTES_IN_WORD acc else acc))"

text \<open>A pbuf chain, as far as its payload goes: alignment and bytes of each pbuf.\<close>

type_synonym payload_chain = "(bool \<times> bytes) list"

text \<open>The loop over a chain, with \<open>swapped\<close>.\<close>

fun chain_chksum :: "payload_chain \<Rightarrow> u32 \<Rightarrow> bool \<Rightarrow> u32 \<times> bool" where
  "chain_chksum [] acc swapped = (acc, swapped)"
| "chain_chksum ((at_odd, q) # rest) acc swapped =
     (let acc = FOLD_U32T (acc + ucast (lwip_standard_chksum at_odd q))
      in if length q mod 2 \<noteq> 0 then chain_chksum rest (SWAP_BYTES_IN_WORD acc) (\<not> swapped)
         else chain_chksum rest acc swapped)"

definition inet_cksum_pseudo_base :: "payload_chain \<Rightarrow> u8 \<Rightarrow> u16 \<Rightarrow> u32 \<Rightarrow> u16" where
  "inet_cksum_pseudo_base p proto proto_len acc =
     (let (acc, swapped) = chain_chksum p acc False;
          acc = (if swapped then SWAP_BYTES_IN_WORD acc else acc);
          acc = acc + ucast (lwip_htons (ucast proto));
          acc = acc + ucast (lwip_htons proto_len);
          acc = FOLD_U32T (FOLD_U32T acc)
      in ucast (NOT (acc AND 0xFFFF)))"

text \<open>The two addresses, in network order in memory.\<close>

definition pseudo_acc :: "u32 \<Rightarrow> u32 \<Rightarrow> u32" where
  "pseudo_acc src dest =
     (let acc = src AND 0xFFFF;
          acc = acc + (drop_bit 16 src AND 0xFFFF);
          acc = acc + (dest AND 0xFFFF);
          acc = acc + (drop_bit 16 dest AND 0xFFFF)
      in FOLD_U32T (FOLD_U32T acc))"

definition inet_chksum_pseudo :: "payload_chain \<Rightarrow> u8 \<Rightarrow> u16 \<Rightarrow> u32 \<Rightarrow> u32 \<Rightarrow> u16" where
  "inet_chksum_pseudo p proto proto_len src dest = inet_cksum_pseudo_base p proto proto_len (pseudo_acc src dest)"

definition ip_chksum_pseudo :: "payload_chain \<Rightarrow> u8 \<Rightarrow> u16 \<Rightarrow> u32 \<Rightarrow> u32 \<Rightarrow> u16" where
  "ip_chksum_pseudo p proto proto_len src dest = inet_chksum_pseudo p proto proto_len src dest"

text \<open>The partial versions stop after \<open>chksum_len\<close> bytes; the parity is that of the whole pbuf, as in the source.\<close>

fun chain_chksum_partial :: "payload_chain \<Rightarrow> u16 \<Rightarrow> u32 \<Rightarrow> bool \<Rightarrow> u32 \<times> bool" where
  "chain_chksum_partial [] chksum_len acc swapped = (acc, swapped)"
| "chain_chksum_partial ((at_odd, q) # rest) chksum_len acc swapped =
     (if chksum_len = 0 then (acc, swapped)
      else
        let chklen = min (length q) (unat chksum_len);
            acc = FOLD_U32T (acc + ucast (lwip_standard_chksum at_odd (take chklen q)));
            chksum_len = chksum_len - of_nat chklen
        in if length q mod 2 \<noteq> 0 then chain_chksum_partial rest chksum_len (SWAP_BYTES_IN_WORD acc) (\<not> swapped)
           else chain_chksum_partial rest chksum_len acc swapped)"

definition inet_cksum_pseudo_partial_base :: "payload_chain \<Rightarrow> u8 \<Rightarrow> u16 \<Rightarrow> u16 \<Rightarrow> u32 \<Rightarrow> u16" where
  "inet_cksum_pseudo_partial_base p proto proto_len chksum_len acc =
     (let (acc, swapped) = chain_chksum_partial p chksum_len acc False;
          acc = (if swapped then SWAP_BYTES_IN_WORD acc else acc);
          acc = acc + ucast (lwip_htons (ucast proto));
          acc = acc + ucast (lwip_htons proto_len);
          acc = FOLD_U32T (FOLD_U32T acc)
      in ucast (NOT (acc AND 0xFFFF)))"

definition inet_chksum_pseudo_partial :: "payload_chain \<Rightarrow> u8 \<Rightarrow> u16 \<Rightarrow> u16 \<Rightarrow> u32 \<Rightarrow> u32 \<Rightarrow> u16" where
  "inet_chksum_pseudo_partial p proto proto_len chksum_len src dest =
     inet_cksum_pseudo_partial_base p proto proto_len chksum_len (pseudo_acc src dest)"

definition inet_chksum :: "bool \<Rightarrow> bytes \<Rightarrow> u16" where
  "inet_chksum at_odd d = NOT (lwip_standard_chksum at_odd d)"

definition inet_chksum_pbuf :: "payload_chain \<Rightarrow> u16" where
  "inet_chksum_pbuf p =
     (let (acc, swapped) = chain_chksum p 0 False;
          acc = (if swapped then SWAP_BYTES_IN_WORD acc else acc)
      in ucast (NOT (acc AND 0xFFFF)))"

section \<open>One's complement sums\<close>

text \<open>A sum folded to 16 bits until no carry is left.\<close>

definition oc :: "nat \<Rightarrow> nat" where
  "oc n = (if n = 0 then 0 else (n - 1) mod 65535 + 1)"

lemma oc_le: "oc n \<le> 65535"
proof (cases "n = 0")
  case False
  have "(n - 1) mod 65535 < 65535" by simp
  then show ?thesis unfolding oc_def if_not_P [OF False] by linarith
qed (simp add: oc_def)

lemma oc_eq_iff: "oc a = oc b \<longleftrightarrow> a mod 65535 = b mod 65535 \<and> (a = 0 \<longleftrightarrow> b = 0)"
proof -
  have "(x - 1) mod 65535 = (y - 1) mod 65535 \<longleftrightarrow> x mod 65535 = y mod 65535" if "0 < x" "0 < y" for x y :: nat
    using that by (cases x; cases y) (auto simp: mod_Suc)
  then show ?thesis by (auto simp: oc_def)
qed

lemma oc_small: "n \<le> 65535 \<Longrightarrow> oc n = n"
  by (cases n) (simp_all add: oc_def)

lemma oc_oc [simp]: "oc (oc n) = oc n"
  by (rule oc_small [OF oc_le])

lemma oc_zero [simp]: "oc n = 0 \<longleftrightarrow> n = 0"
  by (simp add: oc_def)

lemma oc_mod: "oc n mod 65535 = n mod 65535"
  using oc_oc [of n] unfolding oc_eq_iff by simp

lemma oc_add: "oc (oc a + b) = oc (a + b)"
proof -
  have "(oc a + b) mod 65535 = (a + b) mod 65535" by (metis mod_add_left_eq oc_mod)
  then show ?thesis unfolding oc_eq_iff by simp
qed

lemma oc_add3: "oc (oc a + oc b + oc c) = oc (a + b + c)"
proof -
  have "oc (oc a + oc b) = oc (a + b)" by (metis oc_add add.commute)
  then have "oc (oc a + oc b + oc c) = oc (a + b + oc c)" by (metis oc_add)
  also have "\<dots> = oc (a + b + c)" by (metis oc_add add.commute)
  finally show ?thesis .
qed

lemma oc_mult: "oc (k * oc a) = oc (k * a)"
proof -
  have "(k * oc a) mod 65535 = (k * a) mod 65535" by (metis mod_mult_right_eq oc_mod)
  then show ?thesis unfolding oc_eq_iff by simp
qed

lemma oc_wrap: "oc (65536 * a + b) = oc (a + b)"
proof -
  have "65536 * a + b = (a + b) + 65535 * a" by simp
  then have "(65536 * a + b) mod 65535 = (a + b) mod 65535" by (simp only: mod_mult_self2)
  then show ?thesis unfolding oc_eq_iff by simp
qed

lemma oc_mult_cong: "oc a = oc b \<Longrightarrow> oc (k * a) = oc (k * b)"
  by (metis oc_mult)

lemma oc_cong: "oc a = oc b \<Longrightarrow> oc (a + c) = oc (b + c)"
  by (metis oc_add)

lemma oc_swap: "256 * (n mod 256) + n div 256 = oc (256 * n)" if "n \<le> 65535"
proof -
  have "n div 256 < 256" using that by (simp add: less_mult_imp_div_less)
  then have "256 * (n mod 256) + n div 256 \<le> 65535" using mod_less_divisor [of 256 n] by linarith
  moreover have "256 * n = 65536 * (n div 256) + 256 * (n mod 256)" using mult_div_mod_eq [of 256 n] by linarith
  ultimately show ?thesis by (simp only: oc_wrap oc_small add.commute [of "n div 256"])
qed

text \<open>The little-endian sum the code forms, and the big-endian one of the RFC.\<close>

fun lsum :: "bytes \<Rightarrow> nat" where
  "lsum (a # b # p) = unat a + 256 * unat b + lsum p"
| "lsum [a] = unat a"
| "lsum [] = 0"

lemma lsum_bound: "2 * lsum p \<le> 65535 * (length p + 1)"
proof (induction p rule: lsum.induct)
  case (1 a b p)
  then show ?case using u8_lt [of a] u8_lt [of b] by simp
next
  case (2 a)
  then show ?case using u8_lt [of a] by simp
qed simp

lemma oc_lsum_Cons: "oc (lsum (a # p)) = oc (unat a + 256 * lsum p)"
proof (induction p arbitrary: a rule: lsum.induct)
  case (1 b c p)
  have "oc (lsum (a # b # c # p)) = oc (lsum (c # p) + (unat a + 256 * unat b))" by (simp add: add.commute)
  also have "\<dots> = oc (unat c + 256 * lsum p + (unat a + 256 * unat b))"
    by (rule oc_cong) (metis lsum.cases "1.IH")
  also have "\<dots> = oc (65536 * unat c + (unat a + 256 * unat b + 256 * lsum p))"
    unfolding oc_wrap by (simp add: add_ac)
  finally show ?case by (simp add: algebra_simps)
qed simp_all

lemma lsum_wsum: "oc (256 * lsum p) = oc (wsum p)"
proof (induction p rule: lsum.induct)
  case (1 a b p)
  have "oc (256 * lsum (a # b # p)) = oc (65536 * unat b + (256 * unat a + 256 * lsum p))" by (simp add: algebra_simps)
  also have "\<dots> = oc (256 * lsum p + (256 * unat a + unat b))"
    unfolding oc_wrap by (simp add: add_ac)
  also have "\<dots> = oc (wsum p + (256 * unat a + unat b))" by (rule oc_cong [OF 1])
  finally show ?case by (simp add: algebra_simps)
qed simp_all

section \<open>What the operations compute\<close>

lemma swap_parts:
  fixes w :: "'a :: len word" assumes "16 \<le> LENGTH('a)"
  shows "unat (push_bit 8 (w AND 0xFF) OR drop_bit 8 (w AND 0xFF00)) = 256 * (unat w mod 256) + unat w div 256 mod 256"
proof -
  have m: "w AND 0xFF = take_bit 8 w" unfolding take_bit_eq_mask by (simp add: mask_eq_exp_minus_1)
  have d: "drop_bit 8 (w AND 0xFF00) = take_bit 8 (drop_bit 8 w)"
  proof -
    have f: "(0xFF00 :: 'a word) = push_bit 8 (mask 8)" by (simp add: push_bit_eq_mult mask_eq_exp_minus_1)
    show ?thesis unfolding f by (rule bit_eqI) (auto simp: bit_simps dest: bit_imp_le_length)
  qed
  have "push_bit 8 (take_bit 8 w) OR take_bit 8 (drop_bit 8 w) = push_bit 8 (take_bit 8 w) + take_bit 8 (drop_bit 8 w)"
    by (rule disjunctive_add [symmetric]) (auto simp: bit_simps)
  moreover have "unat (push_bit 8 (take_bit 8 w)) = 256 * (unat w mod 256)"
  proof -
    have "256 * (unat w mod 256) < 2 ^ 16" using mod_less_divisor [of 256 "unat w"] by simp
    also have "\<dots> \<le> (2 :: nat) ^ LENGTH('a)" by (rule power_increasing) (use assms in simp_all)
    finally have lt: "256 * (unat w mod 256) < 2 ^ LENGTH('a)" .
    have "unat (push_bit 8 (take_bit 8 w)) = take_bit LENGTH('a) (push_bit 8 (take_bit 8 (unat w)))"
      by (simp only: unsigned_push_bit_eq unsigned_take_bit_eq)
    with lt show ?thesis by (simp add: push_bit_eq_mult take_bit_eq_mod mult.commute)
  qed
  moreover have "unat (take_bit 8 (drop_bit 8 w)) = unat w div 256 mod 256"
    by (simp only: unsigned_take_bit_eq unat_drop_bit_eq) (simp add: take_bit_eq_mod drop_bit_eq_div)
  moreover have "256 * (unat w mod 256) + unat w div 256 mod 256 < 2 ^ LENGTH('a)"
  proof -
    have "256 * (unat w mod 256) + unat w div 256 mod 256 < 2 ^ 16"
      using mod_less_divisor [of 256 "unat w"] mod_less_divisor [of 256 "unat w div 256"] by simp
    also have "\<dots> \<le> (2 :: nat) ^ LENGTH('a)" by (rule power_increasing) (use assms in simp_all)
    finally show ?thesis .
  qed
  ultimately show ?thesis unfolding m d by (simp add: unat_plus_if')
qed

lemma unat_swap_bytes:
  assumes "unat w \<le> 65535" shows "unat (SWAP_BYTES_IN_WORD w) = oc (256 * unat w)"
proof -
  have "unat w div 256 mod 256 = unat w div 256" using assms by (simp add: less_mult_imp_div_less)
  then show ?thesis unfolding SWAP_BYTES_IN_WORD_def oc_swap [OF assms, symmetric] using swap_parts [of w] by simp
qed

lemma u16_le: "unat (n :: u16) \<le> 65535"
  using unsigned_less [of n, where ?'a = nat] by simp

lemma unat_htons: "unat (lwip_htons n) = oc (256 * unat n)"
proof -
  have "unat n div 256 mod 256 = unat n div 256" using u16_le [of n] by (simp add: less_mult_imp_div_less)
  then show ?thesis unfolding lwip_htons_def oc_swap [OF u16_le, symmetric] using swap_parts [of n] by simp
qed

lemma unat_fold: "unat (FOLD_U32T u) = unat u mod 65536 + unat u div 65536"
  unfolding FOLD_U32T_def by (subst add.commute) (rule fold16_step)

lemma oc_fold: "oc (unat u mod 65536 + unat u div 65536) = oc (unat u)"
  using oc_wrap [of "unat u div 65536" "unat u mod 65536"] by (simp add: add.commute)

lemma fold_once: "unat u \<le> 131070 \<Longrightarrow> unat (FOLD_U32T u) = oc (unat u)"
proof -
  assume u: "unat u \<le> 131070"
  have "unat u mod 65536 + unat u div 65536 \<le> 65535"
  proof (cases "unat u < 65536")
    case False
    then have "unat u = 65536 + (unat u - 65536)" "unat u - 65536 < 65536" using u by simp_all
    then have "unat u div 65536 = 1" "unat u mod 65536 = unat u - 65536" using u False by (simp_all add: le_mod_geq le_div_geq)
    then show ?thesis using u False by linarith
  qed simp
  then show ?thesis unfolding unat_fold by (simp only: oc_small flip: oc_fold)
qed

lemma fold_twice: "unat (FOLD_U32T (FOLD_U32T u)) = oc (unat u)"
proof -
  have "unat u < 2 ^ 32" using unsigned_less [of u, where ?'a = nat] by simp
  then have "unat u div 65536 \<le> 65535" by (simp add: less_mult_imp_div_less less_Suc_eq_le [symmetric])
  then have u: "unat (FOLD_U32T u) \<le> 131070" unfolding unat_fold using mod_less_divisor [of 65536 "unat u"] by simp
  show ?thesis unfolding fold_once [OF u] unfolding unat_fold by (rule oc_fold)
qed

lemma le_pair: "unat (ucast a OR push_bit 8 (ucast b) :: u32) = unat a + 256 * unat b"
  "unat (ucast a OR push_bit 8 (ucast b) :: u16) = unat a + 256 * unat b" for a b :: u8
proof -
  have g: "ucast (get_be16 b a) = (ucast a OR push_bit 8 (ucast b) :: u32)"
    by (rule bit_eqI) (auto simp: get_be16_def bit_simps dest: bit_imp_le_length)
  show "unat (ucast a OR push_bit 8 (ucast b) :: u32) = unat a + 256 * unat b"
    unfolding g [symmetric] using unat_get_be16 [of b a] u16_le [of "get_be16 b a"]
    by (simp add: unsigned_ucast_eq take_bit_nat_eq_self)
  show "unat (ucast a OR push_bit 8 (ucast b) :: u16) = unat a + 256 * unat b"
    using unat_get_be16 [of b a] by (simp add: get_be16_def or.commute)
qed

lemma bulk_sum:
  "chksum_bulk p acc = (acc', r) \<Longrightarrow> acc' + of_nat (lsum r) = acc + of_nat (lsum p) \<and> (r = [] \<or> (\<exists>b. r = [b]))"
proof (induction p acc rule: chksum_bulk.induct)
  case (1 a b p acc)
  have "(ucast a OR push_bit 8 (ucast b) :: u32) = of_nat (unat a + 256 * unat b)"
    unfolding le_pair(1) [symmetric] by simp
  with 1 show ?case by (auto simp: add_ac)
qed auto

lemma bulk_ends:
  assumes "chksum_bulk pb 0 = (acc, ps)" "length pb < 65536"
  shows "unat (acc + ucast (ucast (case ps of [] \<Rightarrow> 0 | b # _ \<Rightarrow> b) OR push_bit 8 (ucast t1) :: u16)) = lsum pb + 256 * unat (t1 :: u8)"
proof -
  let ?t = "ucast (case ps of [] \<Rightarrow> 0 | b # _ \<Rightarrow> b) OR push_bit 8 (ucast t1) :: u16"
  have b: "acc + of_nat (lsum ps) = of_nat (lsum pb)" "ps = [] \<or> (\<exists>b. ps = [b])" using bulk_sum [OF assms(1)] by auto
  have "ucast ?t = (of_nat (unat ?t) :: u32)" by simp
  also have "unat ?t = lsum ps + 256 * unat t1" using b(2) by (auto simp: le_pair(2) [of 0, simplified] le_pair(2))
  finally have "acc + ucast ?t = of_nat (lsum pb + 256 * unat t1)" using b(1) by (simp add: add_ac)
  moreover have "lsum pb + 256 * unat t1 < 2 ^ 32" using lsum_bound [of pb] assms(2) u8_lt [of t1] by simp
  ultimately show ?thesis by (simp only: unat_of_nat) simp
qed

lemma standard_chksum_val:
  assumes "length d < 65536" shows "unat (lwip_standard_chksum at_odd d) = oc (lsum d)"
proof -
  have cut: "unat (ucast w :: u16) = unat w" if "unat w \<le> 65535" for w :: u32
    using that by (simp add: unsigned_ucast_eq take_bit_nat_eq_self)
  obtain t1 pb where t: "(case d of b # r \<Rightarrow> if at_odd then (b, r) else (0, d) | [] \<Rightarrow> (0, d)) = (t1, pb)" by fastforce
  obtain acc ps where b: "chksum_bulk pb 0 = (acc, ps)" by fastforce
  have "length pb < 65536" using t assms by (auto split: list.splits if_splits)
  note e = bulk_ends [OF b this, of t1]
  have f: "unat (FOLD_U32T (FOLD_U32T (acc + ucast (ucast (case ps of [] \<Rightarrow> 0 | b # _ \<Rightarrow> b) OR push_bit 8 (ucast t1) :: u16))))
      = oc (lsum pb + 256 * unat t1)" (is "unat ?f = _") unfolding fold_twice e ..
  have c: "lwip_standard_chksum at_odd d = ucast (if at_odd then SWAP_BYTES_IN_WORD ?f else ?f)"
    by (simp add: lwip_standard_chksum_def t b Let_def)
  have le: "unat ?f \<le> 65535" unfolding f by (rule oc_le)
  show ?thesis
  proof (cases at_odd)
    case False
    then have "t1 = 0" "pb = d" using t by (auto split: list.splits)
    then show ?thesis unfolding c using False f by (simp add: cut oc_le)
  next
    case True
    have "oc (256 * (lsum pb + 256 * unat t1)) = oc (65536 * unat t1 + 256 * lsum pb)" by (simp add: algebra_simps)
    also have "\<dots> = oc (unat t1 + 256 * lsum pb)" by (rule oc_wrap)
    also have "\<dots> = oc (lsum d)" using t True by (auto simp: oc_lsum_Cons split: list.splits)
    finally have "oc (256 * oc (lsum pb + 256 * unat t1)) = oc (lsum d)" unfolding oc_mult .
    then have "unat (SWAP_BYTES_IN_WORD ?f) = oc (lsum d)" using unat_swap_bytes [OF le] f by simp
    then show ?thesis unfolding c using True by (simp add: cut oc_le)
  qed
qed

section \<open>Chains\<close>

text \<open>The weight of a byte position: bytes behind an odd number of bytes count in the other half of the word.\<close>

abbreviation half :: "bool \<Rightarrow> nat" where
  "half sw \<equiv> if sw then 256 else 1"

lemma lsum_append: "oc (lsum (p @ q)) = oc (lsum p + half (odd (length p)) * lsum q)"
proof (induction p rule: lsum.induct)
  case (1 a b p)
  from oc_cong [OF this, of "unat a + 256 * unat b"] show ?case by (simp add: add_ac)
next
  case (2 a)
  then show ?case using oc_lsum_Cons [of a q] by simp
qed simp

lemma half_half: "oc (half (sw \<noteq> od) * (half od * a)) = oc (half sw * a)"
  using oc_wrap [of a 0] by simp

text \<open>One pbuf: from \<open>acc\<close>, which stands for \<open>half sw * acc\<close>, to the next.\<close>

lemma chain_step:
  assumes "oc acc1 = oc (acc + lsum q)" "od = odd (length q)" "oc acc2 = oc (half od * acc1)"
  shows "oc (half (sw \<noteq> od) * acc2 + half (sw \<noteq> od) * lsum r) = oc (half sw * acc + half sw * lsum (q @ r))"
proof -
  have "oc (lsum (q @ r) + acc) = oc (lsum q + half od * lsum r + acc)" unfolding assms(2) by (rule oc_cong [OF lsum_append])
  from oc_mult_cong [OF this, of "half sw"]
  have "oc (half sw * acc + half sw * lsum (q @ r)) = oc (half sw * (acc + lsum q + half od * lsum r))"
    by (simp add: distrib_left add_ac)
  also have "\<dots> = oc (half (sw \<noteq> od) * (half od * (acc + lsum q)) + half (sw \<noteq> od) * lsum r)"
    using oc_wrap [of "lsum r" "256 * acc + 256 * lsum q"] oc_wrap [of "acc + lsum q" "256 * lsum r"]
    by (cases sw; cases od) (simp_all add: algebra_simps)
  also have "\<dots> = oc (half (sw \<noteq> od) * acc2 + half (sw \<noteq> od) * lsum r)"
    by (intro oc_cong oc_mult_cong) (simp only: assms(3) oc_mult_cong [OF assms(1)])
  finally show ?thesis ..
qed

lemma chain_add:
  assumes "unat acc \<le> 65535" "length q < 65536"
  shows "unat (FOLD_U32T (acc + ucast (lwip_standard_chksum at_odd q))) = oc (unat acc + lsum q)"
proof -
  have c: "unat (ucast (lwip_standard_chksum at_odd q) :: u32) = oc (lsum q)"
    using u16_le [of "lwip_standard_chksum at_odd q"] standard_chksum_val [OF assms(2), of at_odd]
    by (simp add: unsigned_ucast_eq take_bit_nat_eq_self)
  have s: "unat (acc + ucast (lwip_standard_chksum at_odd q)) = unat acc + oc (lsum q)"
    using assms(1) oc_le [of "lsum q"] c by (simp add: unat_plus_if')
  then have "unat (acc + ucast (lwip_standard_chksum at_odd q)) \<le> 131070" using assms(1) oc_le [of "lsum q"] by linarith
  from fold_once [OF this] show ?thesis unfolding s by (metis oc_add add.commute)
qed

lemma chain_chksum_val:
  assumes "list_all (\<lambda>(_, q). length q < 65536) p" "unat acc \<le> 65535" "chain_chksum p acc sw = (acc', sw')"
  shows "unat acc' \<le> 65535 \<and> oc (half sw' * unat acc') = oc (half sw * unat acc + half sw * lsum (concat (map snd p)))"
  using assms
proof (induction p acc sw rule: chain_chksum.induct)
  case (2 at_odd q rest acc sw)
  define a1 where "a1 = FOLD_U32T (acc + ucast (lwip_standard_chksum at_odd q))"
  define a2 where "a2 = (if odd (length q) then SWAP_BYTES_IN_WORD a1 else a1)"
  have a1: "unat a1 = oc (unat acc + lsum q)" using chain_add [of acc q at_odd] "2.prems" by (simp add: a1_def)
  have le: "unat a1 \<le> 65535" unfolding a1 by (rule oc_le)
  have a2: "unat a2 = oc (half (odd (length q)) * unat a1)" "unat a2 \<le> 65535"
    using unat_swap_bytes [OF le] oc_le oc_small [OF le] le by (simp_all add: a2_def)
  have c: "chain_chksum rest a2 (sw \<noteq> odd (length q)) = (acc', sw')"
    using "2.prems"(3) by (cases "even (length q)") (simp_all add: a1_def [symmetric] a2_def Let_def odd_iff_mod_2_eq_one)
  have "unat acc' \<le> 65535 \<and> oc (half sw' * unat acc') =
      oc (half (sw \<noteq> odd (length q)) * unat a2 + half (sw \<noteq> odd (length q)) * lsum (concat (map snd rest)))"
    using "2.IH" [OF a1_def] "2.prems"(1) a2(2) c le
    by (cases "even (length q)") (simp_all add: a2_def odd_iff_mod_2_eq_one)
  moreover have "oc (half (sw \<noteq> odd (length q)) * unat a2 + half (sw \<noteq> odd (length q)) * lsum (concat (map snd rest)))
      = oc (half sw * unat acc + half sw * lsum (q @ concat (map snd rest)))"
    by (rule chain_step [OF _ refl]) (simp_all add: a1 a2(1))
  ultimately show ?case by simp
qed auto

lemma chain_chksum_partial_0: "chain_chksum_partial p 0 acc sw = (acc, sw)"
  by (cases "(p, 0 :: u16, acc, sw)" rule: chain_chksum_partial.cases) auto

lemma chain_chksum_partial_val:
  assumes "list_all (\<lambda>(_, q). length q < 65536) p" "unat acc \<le> 65535" "chain_chksum_partial p n acc sw = (acc', sw')"
  shows "unat acc' \<le> 65535 \<and>
    oc (half sw' * unat acc') = oc (half sw * unat acc + half sw * lsum (take (unat n) (concat (map snd p))))"
  using assms
proof (induction p n acc sw rule: chain_chksum_partial.induct)
  case (2 at_odd q rest n acc sw)
  show ?case
  proof (cases "n = 0")
    case True
    with "2.prems" show ?thesis by simp
  next
    case False
    define k where "k = min (length q) (unat n)"
    define m where "m = n - of_nat k"
    define a1 where "a1 = FOLD_U32T (acc + ucast (lwip_standard_chksum at_odd (take k q)))"
    define a2 where "a2 = (if odd (length q) then SWAP_BYTES_IN_WORD a1 else a1)"
    have "length (take k q) < 65536" using "2.prems"(1) by (simp add: min_less_iff_disj)
    from chain_add [OF "2.prems"(2) this, of at_odd] have a1: "unat a1 = oc (unat acc + lsum (take k q))" by (simp add: a1_def)
    have le: "unat a1 \<le> 65535" unfolding a1 by (rule oc_le)
    have a2: "unat a2 = oc (half (odd (length q)) * unat a1)" "unat a2 \<le> 65535"
      using unat_swap_bytes [OF le] oc_le oc_small [OF le] le by (simp_all add: a2_def)
    have c: "chain_chksum_partial rest m a2 (sw \<noteq> odd (length q)) = (acc', sw')"
      using "2.prems"(3) False
      by (cases "even (length q)") (simp_all add: k_def [symmetric] m_def [symmetric] a1_def [symmetric] a2_def Let_def odd_iff_mod_2_eq_one)
    have "k \<le> unat n" by (simp add: k_def)
    moreover have "unat (of_nat k :: u16) = k" using calculation u16_le [of n] by (simp add: unat_of_nat)
    ultimately have m: "unat m = unat n - k" unfolding m_def by (subst unat_sub) (simp_all add: word_le_nat_alt)
    show ?thesis
    proof (cases "length q \<le> unat n")
      case False
      then have "unat m = 0" using m by (simp add: k_def)
      then have "m = 0" by (simp only: unat_eq_zero)
      with c have "acc' = a2" "sw' = (sw \<noteq> odd (length q))" by (simp_all add: chain_chksum_partial_0)
      moreover have "take k q = take (unat n) q" using False by (simp add: k_def)
      moreover have "oc (half (sw \<noteq> odd (length q)) * unat a2) = oc (half sw * unat a1)"
        unfolding a2(1) oc_mult by (rule half_half)
      ultimately show ?thesis
        using a1 a2(2) False oc_mult [of "half sw" "unat acc + lsum (take (unat n) q)"] by (simp add: distrib_left)
    next
      case True
      then have k: "take k q = q" "unat m = unat n - length q" using m by (simp_all add: k_def)
      have "unat acc' \<le> 65535 \<and> oc (half sw' * unat acc') = oc (half (sw \<noteq> odd (length q)) * unat a2
          + half (sw \<noteq> odd (length q)) * lsum (take (unat m) (concat (map snd rest))))"
        using "2.IH" [OF False k_def a1_def m_def] "2.prems"(1) a2(2) c le
        by (cases "even (length q)") (simp_all add: a2_def odd_iff_mod_2_eq_one)
      moreover have "oc (half (sw \<noteq> odd (length q)) * unat a2 + half (sw \<noteq> odd (length q)) * lsum (take (unat m) (concat (map snd rest))))
          = oc (half sw * unat acc + half sw * lsum (q @ take (unat m) (concat (map snd rest))))"
        by (rule chain_step [OF _ refl]) (use a1 a2(1) k in simp_all)
      ultimately show ?thesis using True k by simp
    qed
  qed
qed auto

section \<open>The checksum of the RFC\<close>

lemma unat_not16: "unat (NOT w) = 65535 - unat w" for w :: u16
proof -
  have "NOT w = - 1 - w" unfolding not_eq_complement by (rule minus_diff_commute)
  then show ?thesis using unat_sub [of w "-1"] by (simp add: unsigned_minus_1_eq_mask mask_eq_exp_minus_1)
qed

lemma fold16_oc: "unat (fold16 acc) = 65535 - oc (unat acc)"
  unfolding fold16_val oc_def by (simp add: unat_eq_zero)

lemma htons_not: "lwip_htons (NOT r) = NOT (lwip_htons r)"
proof -
  define h where "h = unat r div 256"
  define l where "l = unat r mod 256"
  have "h < 256" using u16_le [of r] by (simp add: h_def less_mult_imp_div_less)
  moreover have "l < 256" "unat r = 256 * h + l" by (simp_all add: l_def h_def)
  ultimately have n: "h \<le> 255" "l \<le> 255" "unat (NOT r) = 256 * (255 - h) + (255 - l)" by (simp_all add: unat_not16)
  have "unat (lwip_htons (NOT r)) = 256 * (255 - l) + (255 - h)"
    unfolding unat_htons unfolding oc_swap [OF u16_le, symmetric] unfolding n(3) by simp
  also have "\<dots> = 65535 - (256 * l + h)" using n by linarith
  also have "256 * l + h = unat (lwip_htons r)" unfolding unat_htons oc_swap [OF u16_le, symmetric] by (simp add: h_def l_def)
  finally show ?thesis unfolding word_unat_eq_iff by (simp add: unat_not16)
qed

text \<open>A complemented one's complement sum in host order is the RFC's in network order.\<close>

lemma htons_complement:
  assumes "unat r = 65535 - oc n" "oc (256 * n) = oc k" "k < 2 ^ 32"
  shows "lwip_htons r = fold16 (of_nat k)"
proof -
  have "unat (NOT r) = oc n" using assms(1) oc_le [of n] by (simp add: unat_not16)
  then have "unat (lwip_htons (NOT r)) = oc k" using assms(2) by (simp add: unat_htons oc_mult)
  moreover have "lwip_htons (NOT r) = NOT (lwip_htons r)" by (rule htons_not)
  ultimately have "unat (NOT (lwip_htons r)) = oc k" by simp
  then have "unat (lwip_htons r) = 65535 - oc k" using u16_le [of "lwip_htons r"] by (simp add: unat_not16)
  then show ?thesis unfolding word_unat_eq_iff using assms(3) by (simp add: unat_of_nat fold16_oc)
qed

text \<open>The pseudo-header of RFC 793 and RFC 768.\<close>

definition pseudo_header :: "u32 \<Rightarrow> u32 \<Rightarrow> u8 \<Rightarrow> u16 \<Rightarrow> bytes" where
  "pseudo_header src dest proto proto_len = U32TO8_LITTLE src @ U32TO8_LITTLE dest @ [0, proto] @ be2 proto_len"

lemma and_FFFF: "x AND 0xFFFF = take_bit 16 x" for x :: u32
  unfolding take_bit_eq_mask by (simp add: mask_eq_exp_minus_1)

lemma not_cut:
  assumes "unat w \<le> 65535" shows "unat (ucast (NOT (w AND 0xFFFF)) :: u16) = 65535 - unat (w :: u32)"
proof -
  have "ucast (NOT (w AND 0xFFFF)) = NOT (ucast w :: u16)" unfolding and_FFFF by (rule bit_eqI) (auto simp: bit_simps)
  then show ?thesis using assms by (simp add: unat_not16 unsigned_ucast_eq take_bit_nat_eq_self)
qed

lemma lsum_U32TO8: "unat (v AND 0xFFFF) + unat (drop_bit 16 v AND 0xFFFF) = lsum (U32TO8_LITTLE v)"
  "unat (v AND 0xFFFF) \<le> 65535" "unat (drop_bit 16 v AND 0xFFFF) \<le> 65535"
proof -
  have lo: "unat (v AND 0xFFFF) = unat v mod 65536"
    unfolding and_FFFF by (simp only: unsigned_take_bit_eq) (simp add: take_bit_eq_mod)
  have hi: "unat (drop_bit 16 v AND 0xFFFF) = unat v div 65536 mod 65536"
    unfolding and_FFFF by (simp only: unsigned_take_bit_eq unat_drop_bit_eq) (simp add: take_bit_eq_mod drop_bit_eq_div)
  show "unat (v AND 0xFFFF) \<le> 65535" "unat (drop_bit 16 v AND 0xFFFF) \<le> 65535"
    unfolding lo hi by (simp_all add: less_Suc_eq_le [symmetric])
  obtain a b c d where v: "U32TO8_LITTLE v = [a, b, c, d]" by (simp add: U32TO8_LITTLE_def)
  have u: "unat v = (unat a + 256 * unat b) + 65536 * (unat c + 256 * unat d)"
    unfolding le_val_U32TO8_LITTLE [symmetric] v by simp
  have "unat a + 256 * unat b < 65536" "unat c + 256 * unat d < 65536"
    using u8_lt [of a] u8_lt [of b] u8_lt [of c] u8_lt [of d] by linarith+
  moreover have "(x + 65536 * y) mod 65536 + (x + 65536 * y) div 65536 mod 65536 = x + y" if "x < 65536" "y < 65536" for x y :: nat
    using that by simp
  ultimately show "unat (v AND 0xFFFF) + unat (drop_bit 16 v AND 0xFFFF) = lsum (U32TO8_LITTLE v)"
    unfolding lo hi v u by (metis lsum.simps(1,3) add.right_neutral)
qed

lemma pseudo_acc_val: "unat (pseudo_acc src dest) = oc (lsum (U32TO8_LITTLE src) + lsum (U32TO8_LITTLE dest))"
proof -
  note b = lsum_U32TO8(2,3) [of src] lsum_U32TO8(2,3) [of dest]
  have "unat (src AND 0xFFFF) + unat (drop_bit 16 src AND 0xFFFF) + unat (dest AND 0xFFFF) + unat (drop_bit 16 dest AND 0xFFFF) < 2 ^ 32"
    using b by simp
  then have "unat ((src AND 0xFFFF) + (drop_bit 16 src AND 0xFFFF) + (dest AND 0xFFFF) + (drop_bit 16 dest AND 0xFFFF))
      = unat (src AND 0xFFFF) + unat (drop_bit 16 src AND 0xFFFF) + (unat (dest AND 0xFFFF) + unat (drop_bit 16 dest AND 0xFFFF))"
    using b by (simp add: unat_plus_if')
  then show ?thesis unfolding pseudo_acc_def Let_def fold_twice lsum_U32TO8(1) by simp
qed

text \<open>The common end of the pseudo checksums.\<close>

lemma pseudo_end:
  assumes "unat acc = oc n"
  shows "unat (ucast (NOT (FOLD_U32T (FOLD_U32T (acc + ucast (lwip_htons (ucast (proto :: u8))) + ucast (lwip_htons len))) AND 0xFFFF)) :: u16)
    = 65535 - oc (n + 256 * unat proto + 256 * unat len)"
proof -
  let ?s = "acc + ucast (lwip_htons (ucast proto)) + ucast (lwip_htons len)"
  have u: "unat (ucast x :: u32) = unat x" for x :: u16 using u16_le [of x] by (simp add: unsigned_ucast_eq take_bit_nat_eq_self)
  have h: "unat (ucast (lwip_htons (ucast proto)) :: u32) = oc (256 * unat proto)"
    unfolding u unat_htons using u8_lt [of proto] by (simp add: unsigned_ucast_eq take_bit_nat_eq_self)
  have "unat ?s = oc n + oc (256 * unat proto) + oc (256 * unat len)"
    using oc_le [of n] oc_le [of "256 * unat proto"] oc_le [of "256 * unat len"] h
    by (simp add: unat_plus_if' assms u unat_htons)
  then have "unat (FOLD_U32T (FOLD_U32T ?s)) = oc (n + 256 * unat proto + 256 * unat len)"
    unfolding fold_twice by (simp only: oc_add3)
  then show ?thesis using not_cut [of "FOLD_U32T (FOLD_U32T ?s)"] oc_le [of "n + 256 * unat proto + 256 * unat len"] by (simp only:)
qed

lemma unswap:
  assumes "unat acc \<le> 65535" "oc (half sw * unat acc) = oc n"
  shows "unat (if sw then SWAP_BYTES_IN_WORD acc else acc) = oc n"
  using assms by (simp add: unat_swap_bytes oc_small split: if_splits)

lemma wsum_pseudo:
  "oc (256 * (lsum (U32TO8_LITTLE src) + lsum (U32TO8_LITTLE dest) + lsum d + 256 * unat proto + 256 * unat len))
   = oc (wsum (pseudo_header src dest proto len @ d))"
proof -
  let ?a = "lsum (U32TO8_LITTLE src)" and ?b = "lsum (U32TO8_LITTLE dest)"
  have "oc (256 * (?a + ?b + lsum d + 256 * unat proto + 256 * unat len))
      = oc (65536 * (unat proto + unat len) + (256 * ?a + 256 * ?b + 256 * lsum d))" by (simp add: algebra_simps)
  also have "\<dots> = oc (256 * ?a + 256 * ?b + 256 * lsum d + (unat proto + unat len))" unfolding oc_wrap by (simp add: add_ac)
  also have "\<dots> = oc (wsum (U32TO8_LITTLE src) + wsum (U32TO8_LITTLE dest) + wsum d + (unat proto + unat len))"
  proof (rule oc_cong)
    have "oc (256 * ?a + 256 * ?b + 256 * lsum d) = oc (oc (256 * ?a) + oc (256 * ?b) + oc (256 * lsum d))" by (rule oc_add3 [symmetric])
    then show "oc (256 * ?a + 256 * ?b + 256 * lsum d) = oc (wsum (U32TO8_LITTLE src) + wsum (U32TO8_LITTLE dest) + wsum d)"
      unfolding lsum_wsum oc_add3 .
  qed
  also have "wsum (U32TO8_LITTLE src) + wsum (U32TO8_LITTLE dest) + wsum d + (unat proto + unat len)
      = wsum (pseudo_header src dest proto len @ d)"
    by (simp add: pseudo_header_def wsum_append wsum_be2)
  finally show ?thesis .
qed

lemma wsum_pseudo_bound: "length d < 65536 \<Longrightarrow> wsum (pseudo_header src dest proto len @ d) < 2 ^ 32"
  using wsum_bound [of "pseudo_header src dest proto len @ d"] by (simp add: pseudo_header_def)

lemma pseudo_sums:
  assumes "unat acc \<le> 65535" "length d < 65536"
    "oc (half sw * unat acc) = oc (unat (pseudo_acc src dest) + lsum d)"
  shows "lwip_htons (ucast (NOT (FOLD_U32T (FOLD_U32T ((if sw then SWAP_BYTES_IN_WORD acc else acc)
      + ucast (lwip_htons (ucast proto)) + ucast (lwip_htons len))) AND 0xFFFF)))
    = fold16 (sum16 (pseudo_header src dest proto len @ d) 0)"
proof -
  have "oc (half sw * unat acc) = oc (lsum (U32TO8_LITTLE src) + lsum (U32TO8_LITTLE dest) + lsum d)"
    unfolding assms(3) pseudo_acc_val by (rule oc_add)
  from pseudo_end [OF unswap [OF assms(1) this], of proto len]
  show ?thesis
    unfolding sum16_wsum add_0 by (rule htons_complement [OF _ wsum_pseudo wsum_pseudo_bound [OF assms(2)]])
qed

lemma chain_sums:
  assumes "length (concat (map snd p)) < 65536"
  shows "lwip_htons (inet_chksum_pbuf p) = fold16 (sum16 (concat (map snd p)) 0)"
proof -
  let ?d = "concat (map snd p)"
  have l: "list_all (\<lambda>(_, q). length q < 65536) p" using assms by (induction p) auto
  obtain acc sw where c: "chain_chksum p 0 False = (acc, sw)" by fastforce
  have v: "unat acc \<le> 65535" "oc (half sw * unat acc) = oc (lsum ?d)" using chain_chksum_val [OF l _ c] by simp_all
  have u: "unat (if sw then SWAP_BYTES_IN_WORD acc else acc) = oc (lsum ?d)" (is "unat ?w = _") by (rule unswap [OF v])
  then have "unat ?w \<le> 65535" by (simp only: oc_le)
  from not_cut [OF this] have "unat (inet_chksum_pbuf p) = 65535 - oc (lsum ?d)"
    unfolding inet_chksum_pbuf_def c Let_def prod.case u .
  moreover have "wsum ?d < 2 ^ 32" using wsum_bound [of ?d] assms by simp
  ultimately show ?thesis unfolding sum16_wsum add_0 by (intro htons_complement [OF _ lsum_wsum])
qed

lemma flat_sums:
  assumes "length d < 65536" shows "lwip_htons (inet_chksum at_odd d) = fold16 (sum16 d 0)"
proof -
  have "unat (inet_chksum at_odd d) = 65535 - oc (lsum d)"
    unfolding inet_chksum_def unat_not16 standard_chksum_val [OF assms] ..
  moreover have "wsum d < 2 ^ 32" using wsum_bound [of d] assms by simp
  ultimately show ?thesis unfolding sum16_wsum add_0 by (intro htons_complement [OF _ lsum_wsum])
qed

section \<open>Properties\<close>

text \<open>C34.  lwIP's checksums are the Internet checksum.  For every chain of pbufs, however it is cut and wherever its pieces lie
  in memory, the checksum with pseudo-header that TCP and UDP put in their headers, the one over a first part of the
  chain, and the plain ones of IP and ICMP are the one's complement sums of RFC 1071 over the bytes in order, as the
  probe's own checksum routine computes them, in network order.\<close>

theorem chksum_is_rfc1071:
  fixes p :: payload_chain
  defines "d \<equiv> concat (map snd p)"
  assumes len: "length d < 65536"
  shows "lwip_htons (ip_chksum_pseudo p proto proto_len src dest) = fold16 (sum16 (pseudo_header src dest proto proto_len @ d) 0) \<and>
    lwip_htons (inet_chksum_pseudo_partial p proto proto_len n src dest)
      = fold16 (sum16 (pseudo_header src dest proto proto_len @ take (unat n) d) 0) \<and>
    lwip_htons (inet_chksum_pbuf p) = fold16 (sum16 d 0) \<and> lwip_htons (inet_chksum at_odd d) = fold16 (sum16 d 0)"
proof (intro conjI)
  have l: "list_all (\<lambda>(_, q). length q < 65536) p" using len unfolding d_def by (induction p) auto
  have a: "unat (pseudo_acc src dest) \<le> 65535" unfolding pseudo_acc_val by (rule oc_le)
  obtain acc sw where c: "chain_chksum p (pseudo_acc src dest) False = (acc, sw)" by fastforce
  have "unat acc \<le> 65535" "oc (half sw * unat acc) = oc (unat (pseudo_acc src dest) + lsum d)"
    using chain_chksum_val [OF l a c] by (simp_all add: d_def)
  from pseudo_sums [OF this(1) len this(2)]
  show "lwip_htons (ip_chksum_pseudo p proto proto_len src dest) = fold16 (sum16 (pseudo_header src dest proto proto_len @ d) 0)"
    unfolding ip_chksum_pseudo_def inet_chksum_pseudo_def inet_cksum_pseudo_base_def Let_def c prod.case .
  obtain acc sw where c: "chain_chksum_partial p n (pseudo_acc src dest) False = (acc, sw)" by fastforce
  have "unat acc \<le> 65535" "oc (half sw * unat acc) = oc (unat (pseudo_acc src dest) + lsum (take (unat n) d))"
    using chain_chksum_partial_val [OF l a c] by (simp_all add: d_def)
  from pseudo_sums [OF this(1) _ this(2)] len
  show "lwip_htons (inet_chksum_pseudo_partial p proto proto_len n src dest)
      = fold16 (sum16 (pseudo_header src dest proto proto_len @ take (unat n) d) 0)"
    unfolding inet_chksum_pseudo_partial_def inet_cksum_pseudo_partial_base_def Let_def c prod.case by simp
  show "lwip_htons (inet_chksum_pbuf p) = fold16 (sum16 d 0)" "lwip_htons (inet_chksum at_odd d) = fold16 (sum16 d 0)"
    using len chain_sums flat_sums by (simp_all add: d_def)
qed

theorem chksum_is_rfc1071_witness:
  "lwip_htons (ip_chksum_pseudo [(True, [0x45]), (False, [0, 1])] 6 3 1 2) =
     fold16 (sum16 (pseudo_header 1 2 6 3 @ [0x45, 0, 1]) 0)"
  using chksum_is_rfc1071 [of "[(True, [0x45]), (False, [0, 1])]" 6 3 1 2] by simp

end
