(* ===== verification/Lwip_Addr.thy ===== *)
theory Lwip_Addr
  imports Sni Config Lwip_Chksum
begin

text \<open>
  The stack's address and string helpers (\<open>lwip/core/ipv4/ip4_addr.c\<close>, \<open>lwip/core/def.c\<close>): dotted addresses in all the notations
  \<open>inet_aton\<close> knows, netmasks, and comparison without case.  A C string is the characters before its NUL; reading at its
  end reads the NUL.
\<close>

section \<open>Comparison without case\<close>

abbreviation (input) code :: "char \<Rightarrow> nat" where "code c \<equiv> of_char c"

text \<open>One round of the loops of \<open>lwip_stricmp\<close> and \<open>lwip_strnicmp\<close>: the characters differ.\<close>

definition icase_differ :: "char \<Rightarrow> char \<Rightarrow> bool" where
  "icase_differ c1 c2 =
     (if c1 \<noteq> c2 then
        let c1_upc = (of_nat (code c1) OR 0x20 :: u8)
        in if c1_upc \<ge> 97 \<and> c1_upc \<le> 122 then c1_upc \<noteq> (of_nat (code c2) OR 0x20) else True
      else False)"

text \<open>The strings with their NUL; the loop runs at least once, so that a length of 0 wraps round.  The result is 0.\<close>

fun strnicmp_loop :: "string \<Rightarrow> string \<Rightarrow> u64 \<Rightarrow> bool" where
  "strnicmp_loop [] ys len = icase_differ (CHR 0x00) (case ys of [] \<Rightarrow> CHR 0x00 | y # _ \<Rightarrow> y)"
| "strnicmp_loop (x # xs) ys len =
     (icase_differ x (case ys of [] \<Rightarrow> CHR 0x00 | y # _ \<Rightarrow> y) \<or> (len - 1 \<noteq> 0 \<and> strnicmp_loop xs (tl ys) (len - 1)))"

definition lwip_strnicmp :: "string \<Rightarrow> string \<Rightarrow> u64 \<Rightarrow> bool" where
  "lwip_strnicmp str1 str2 len = strnicmp_loop str1 str2 len"

section \<open>Dotted addresses\<close>

definition isxdigit :: "char \<Rightarrow> bool" where
  "isxdigit c \<longleftrightarrow> isdigit c \<or> (97 \<le> code c \<and> code c \<le> 102) \<or> (65 \<le> code c \<and> code c \<le> 70)"

definition islower :: "char \<Rightarrow> bool" where
  "islower c \<longleftrightarrow> 97 \<le> code c \<and> code c \<le> 122"

text \<open>The inner loop: the digits of one number in its base.\<close>

fun aton_digits :: "nat \<Rightarrow> u32 \<Rightarrow> string \<Rightarrow> u32 \<times> string" where
  "aton_digits base val [] = (val, [])"
| "aton_digits base val (c # cs) =
     (if isdigit c then
        if base = 8 \<and> code c - 48 \<ge> 8 then (val, c # cs)
        else aton_digits base (val * of_nat base + of_nat (code c - 48)) cs
      else if base = 16 \<and> isxdigit c
      then aton_digits base (push_bit 4 val OR of_nat (code c + 10 - (if islower c then 97 else 65))) cs
      else (val, c # cs))"

text \<open>A number: at least one digit, with \<open>0x\<close> or a leading \<open>0\<close> for its base.\<close>

definition aton_number :: "string \<Rightarrow> (u32 \<times> string) option" where
  "aton_number cp =
     (case cp of
        [] \<Rightarrow> None
      | c # cs \<Rightarrow>
          if \<not> isdigit c then None
          else if c = CHR ''0'' then
            (case cs of
               x # rest \<Rightarrow> if x = CHR ''x'' \<or> x = CHR ''X'' then Some (aton_digits 16 0 rest) else Some (aton_digits 8 0 cs)
             | [] \<Rightarrow> Some (aton_digits 8 0 []))
          else Some (aton_digits 10 0 (c # cs)))"

lemma aton_digits_rest: "length (snd (aton_digits b v s)) \<le> length s"
  by (induction b v s rule: aton_digits.induct) (auto simp: le_SucI)

lemma aton_number_rest: "aton_number s = Some (v, r) \<Longrightarrow> length r \<le> length s"
  using aton_digits_rest [of 8 0 "[]"] aton_digits_rest [of 8 0 "tl s"] aton_digits_rest [of 16 0 "tl (tl s)"] aton_digits_rest [of 10 0 s]
  by (auto simp: aton_number_def le_SucI split: list.splits if_splits)

text \<open>The outer loop, at most four numbers.\<close>

function aton_parts :: "u32 list \<Rightarrow> string \<Rightarrow> (u32 list \<times> u32 \<times> string) option" where
  "aton_parts parts cp =
     (case aton_number cp of
        None \<Rightarrow> None
      | Some (val, rest) \<Rightarrow>
          (case rest of
             c # cs \<Rightarrow>
               if c = CHR ''.'' then (if length parts \<ge> 3 then None else aton_parts (parts @ [val]) cs)
               else Some (parts, val, rest)
           | [] \<Rightarrow> Some (parts, val, rest)))"
  by pat_completeness auto
termination
proof (relation "measure (\<lambda>(parts, cp). length cp)")
  fix parts cp x val rest c cs
  assume "aton_number cp = Some x" "(val, rest) = x" "rest = c # cs"
  then have "aton_number cp = Some (val, c # cs)" by simp
  from aton_number_rest [OF this] have "length (c # cs) \<le> length cp" .
  then show "((parts @ [val], cs), (parts, cp)) \<in> measure (\<lambda>(parts, cp). length cp)" by simp
qed simp

declare aton_parts.simps [simp del]

definition ip4addr_aton :: "string \<Rightarrow> u32 option" where
  "ip4addr_aton cp =
     (case aton_parts [] cp of
        None \<Rightarrow> None
      | Some (parts, val, rest) \<Rightarrow>
          if rest \<noteq> [] \<and> \<not> isspace (hd rest) then None
          else
            map_option lwip_htonl
              (case parts of
                 [] \<Rightarrow> Some val
               | [a] \<Rightarrow> if val > 0xFFFFFF \<or> a > 0xFF then None else Some (val OR push_bit 24 a)
               | [a, b] \<Rightarrow> if val > 0xFFFF \<or> a > 0xFF \<or> b > 0xFF then None else Some (val OR push_bit 24 a OR push_bit 16 b)
               | a # b # c # _ \<Rightarrow>
                   if val > 0xFF \<or> a > 0xFF \<or> b > 0xFF \<or> c > 0xFF then None
                   else Some (val OR push_bit 24 a OR push_bit 16 b OR push_bit 8 c)))"

definition ipaddr_addr :: "string \<Rightarrow> u32" where
  "ipaddr_addr cp = (case ip4addr_aton cp of Some v \<Rightarrow> v | None \<Rightarrow> 0xFFFFFFFF)"

text \<open>\<open>ip4addr_ntoa_r\<close>: the digits of a byte are collected from the last, then written; every character needs room,
  also the dot that the final NUL replaces.\<close>

fun inv_digits :: "nat \<Rightarrow> string" where
  "inv_digits ap = char_of (48 + ap mod 10) # (if ap div 10 = 0 then [] else inv_digits (ap div 10))"

declare inv_digits.simps [simp del]

definition address_bytes :: "u32 \<Rightarrow> nat list" where
  "address_bytes a = map (\<lambda>i. unat (drop_bit (8 * i) a AND 0xFF)) [0..<4]"

fun ntoa_put :: "string \<Rightarrow> nat \<Rightarrow> string \<Rightarrow> string option" where
  "ntoa_put [] room out = Some out"
| "ntoa_put (c # cs) room out = (if length out \<ge> room then None else ntoa_put cs room (out @ [c]))"

definition ip4addr_ntoa_r :: "u32 \<Rightarrow> nat \<Rightarrow> string option" where
  "ip4addr_ntoa_r addr buflen =
     map_option butlast (ntoa_put (concat (map (\<lambda>b. rev (inv_digits b) @ ''.'') (address_bytes addr))) buflen [])"

definition IP4ADDR_STRLEN_MAX :: nat where
  "IP4ADDR_STRLEN_MAX = 16"

definition ip4addr_ntoa :: "u32 \<Rightarrow> string option" where
  "ip4addr_ntoa addr = ip4addr_ntoa_r addr IP4ADDR_STRLEN_MAX"

section \<open>Masks and broadcasts\<close>

text \<open>The two loops over the mask bit, from the highest: bit \<open>k - 1\<close> is looked at when \<open>k\<close> are left.\<close>

fun mask_ones :: "u32 \<Rightarrow> nat \<Rightarrow> nat" where
  "mask_ones nm 0 = 0"
| "mask_ones nm (Suc k) = (if nm AND push_bit k 1 = 0 then Suc k else mask_ones nm k)"

fun mask_zeros :: "u32 \<Rightarrow> nat \<Rightarrow> bool" where
  "mask_zeros nm 0 = True"
| "mask_zeros nm (Suc k) = (if nm AND push_bit k 1 \<noteq> 0 then False else mask_zeros nm k)"

definition ip4_addr_netmask_valid :: "u32 \<Rightarrow> bool" where
  "ip4_addr_netmask_valid netmask = (let nm = lwip_htonl netmask in mask_zeros nm (mask_ones nm 32))"

text \<open>The interface: whether it has broadcasts, its address and its mask.\<close>

definition ip4_addr_isbroadcast_u32 :: "u32 \<Rightarrow> bool \<Rightarrow> u32 \<Rightarrow> u32 \<Rightarrow> bool" where
  "ip4_addr_isbroadcast_u32 addr broadcast ip netmask =
     (if NOT addr = 0 \<or> addr = 0 then True
      else if \<not> broadcast then False
      else if addr = ip then False
      else if addr AND netmask = ip AND netmask \<and> addr AND NOT netmask = 0xFFFFFFFF AND NOT netmask then True
      else False)"

section \<open>Properties\<close>

lemma inv_digits_show: "rev (inv_digits n) = show_nat n"
proof (induction n rule: inv_digits.induct)
  case (1 n)
  show ?case
  proof (cases "n < 10")
    case False
    then have "n div 10 \<noteq> 0" by linarith
    with 1 False show ?thesis by (simp only: inv_digits.simps [of n] show_nat.simps [of n] if_False rev.simps simp_thms)
  qed (simp add: inv_digits.simps [of n] show_nat.simps [of n])
qed

lemma ntoa_put_room: "ntoa_put cs room out = (if cs = [] \<or> length out + length cs \<le> room then Some (out @ cs) else None)"
  by (induction cs room out rule: ntoa_put.induct) auto

text \<open>One number of the dotted form is read back.\<close>

lemma aton_digits_digit:
  "d < 10 \<Longrightarrow> aton_digits 10 v (char_of (48 + d) # r) = aton_digits 10 (v * 10 + of_nat d) r"
  by simp

lemma aton_digits_append:
  "list_all isdigit s \<Longrightarrow> aton_digits 10 v (s @ r) = aton_digits 10 (fst (aton_digits 10 v s)) r"
  by (induction s arbitrary: v) simp_all

lemma aton_digits_show: "fst (aton_digits 10 0 (show_nat n)) = of_nat n"
proof (induction n rule: show_nat.induct)
  case (1 n)
  show ?case
  proof (cases "n < 10")
    case True
    then show ?thesis by (simp add: show_nat.simps [of n])
  next
    case False
    then have "fst (aton_digits 10 0 (show_nat n)) = fst (aton_digits 10 (fst (aton_digits 10 0 (show_nat (n div 10)))) [char_of (48 + n mod 10)])"
      by (simp only: show_nat.simps [of n] if_False aton_digits_append show_nat_digits)
    also have "\<dots> = of_nat (n div 10) * of_nat 10 + of_nat (n mod 10)" using "1.IH" [OF False] by simp
    also have "\<dots> = of_nat (n div 10 * 10 + n mod 10)" by (simp only: of_nat_add of_nat_mult)
    also have "\<dots> = of_nat n" by (simp only: div_mult_mod_eq)
    finally show ?thesis .
  qed
qed

lemma show_nat_leading: "0 < n \<Longrightarrow> hd (show_nat n) \<noteq> CHR ''0''"
proof (induction n rule: show_nat.induct)
  case (1 n)
  show ?case
  proof (cases "n < 10")
    case True
    then have "(of_char (char_of (48 + n) :: char) :: nat) = 48 + n" by simp
    then have "char_of (48 + n) \<noteq> CHR ''0''" using "1.prems" by force
    then show ?thesis using True by (simp add: show_nat.simps [of n])
  next
    case False
    then have "0 < n div 10" by simp
    then show ?thesis using "1.IH" [OF False] False by (simp add: show_nat.simps [of n] show_nat_not_Nil)
  qed
qed

lemma aton_number_show:
  assumes "r = [] \<or> \<not> isxdigit (hd r) \<and> hd r \<notin> {CHR ''x'', CHR ''X''}"
  shows "aton_number (show_nat n @ r) = Some (of_nat n, r)"
proof (cases "n = 0")
  case True
  have s: "show_nat 0 = [CHR ''0'']" by (simp add: show_nat.simps [of 0] char_of_def bit_0)
  have "isdigit (CHR ''0'')" by (simp add: isdigit_def)
  moreover have "aton_digits 8 0 r = (0, r)" using assms by (cases r) (auto simp: isxdigit_def)
  ultimately show ?thesis using assms True by (cases r) (auto simp: s aton_number_def)
next
  case False
  have stop: "aton_digits 10 v r = (v, r)" for v using assms by (cases r) (auto simp: isxdigit_def)
  obtain c cs where c: "show_nat n = c # cs" using show_nat_not_Nil by (cases "show_nat n") auto
  have "isdigit c" "c \<noteq> CHR ''0''" using hd_show_nat [of n] show_nat_leading [of n] False c by simp_all
  then have "aton_number (show_nat n @ r) = Some (aton_digits 10 0 (show_nat n @ r))" by (simp add: c aton_number_def)
  also have "aton_digits 10 0 (show_nat n @ r) = (of_nat n, r)"
    by (simp only: aton_digits_append [OF show_nat_digits] aton_digits_show stop)
  finally show ?thesis .
qed

lemma aton_parts_dot:
  "length parts < 3 \<Longrightarrow> aton_parts parts (show_nat n @ CHR ''.'' # r) = aton_parts (parts @ [of_nat n]) r"
  by (subst aton_parts.simps, subst aton_number_show) (simp_all add: isxdigit_def isdigit_def)

lemma aton_parts_end: "aton_parts parts (show_nat n) = Some (parts, of_nat n, [])"
  by (subst aton_parts.simps, subst aton_number_show [of "[]" n, simplified]) simp

lemma bytes_of_address:
  fixes a :: u32
  defines "v \<equiv> (drop_bit 24 a AND 0xFF) OR push_bit 24 (a AND 0xFF) OR push_bit 16 (drop_bit 8 a AND 0xFF) OR
     push_bit 8 (drop_bit 16 a AND 0xFF)"
  shows "lwip_htonl v = a"
proof -
  have m: "(0xFF :: u32) = mask 8" "(0xFF00 :: u32) = push_bit 8 (mask 8)" "(0xFF0000 :: u32) = push_bit 16 (mask 8)"
    "(0xFF000000 :: u32) = push_bit 24 (mask 8)" by (simp_all add: mask_eq_exp_minus_1)
  have v: "bit v j = (if j < 8 then bit a (24 + j) else if j < 16 then bit a (8 + j)
      else if j < 24 then bit a (j - 8) else j < 32 \<and> bit a (j - 24))" for j
    unfolding v_def m(1)
    by (auto simp: bit_or_iff bit_and_iff bit_push_bit_iff bit_drop_bit_eq bit_mask_iff
        simp del: push_bit_or dest: bit_imp_le_length)
  show ?thesis
    unfolding m lwip_htonl_def
    by (rule bit_word_eqI)
      (auto simp: v bit_or_iff bit_and_iff bit_push_bit_iff bit_drop_bit_eq bit_mask_iff
        dest: bit_imp_le_length)
qed

lemma show_nat_short: "n < 256 \<Longrightarrow> length (show_nat n) \<le> 3"
  by (simp add: show_nat.simps [of n] show_nat.simps [of "n div 10"] show_nat.simps [of "n div 10 div 10"])

text \<open>Setting bit 5 of a byte.\<close>

lemma or_32: "unat ((of_nat n :: u8) OR 0x20) = (if odd (n div 32) then n else n + 32)" if "n < 256"
proof -
  have "unat ((of_nat n :: u8) OR 0x20) = n OR 32" using that by (simp add: unsigned_or_eq unat_of_nat)
  also have "\<dots> = set_bit 5 n" by (simp add: set_bit_eq_or)
  also have "\<dots> = (if odd (n div 32) then n else n + 32)" by (simp add: set_bit_eq bit_iff_odd)
  finally show ?thesis .
qed

lemma or_32_letter:
  fixes n :: nat
  assumes "n < 256"
  defines "m \<equiv> (if odd (n div 32) then n else n + 32)"
  shows "97 \<le> m \<and> m \<le> 122 \<longleftrightarrow> 65 \<le> n \<and> n \<le> 90 \<or> 97 \<le> n \<and> n \<le> 122"
    "65 \<le> n \<and> n \<le> 90 \<Longrightarrow> m = n + 32" "97 \<le> n \<and> n \<le> 122 \<Longrightarrow> m = n"
proof -
  have e: "n div 32 = 2 \<longleftrightarrow> 64 \<le> n \<and> n < 96" "n div 32 = 3 \<longleftrightarrow> 96 \<le> n \<and> n < 128" by linarith+
  show "65 \<le> n \<and> n \<le> 90 \<Longrightarrow> m = n + 32" "97 \<le> n \<and> n \<le> 122 \<Longrightarrow> m = n" using e by (auto simp: m_def)
  then show "97 \<le> m \<and> m \<le> 122 \<longleftrightarrow> 65 \<le> n \<and> n \<le> 90 \<or> 97 \<le> n \<and> n \<le> 122" using e by (auto simp: m_def split: if_splits)
qed

lemma to_lower_eq:
  "to_lower x = to_lower y \<longleftrightarrow> (if 65 \<le> code x \<and> code x \<le> 90 then code x + 32 else code x) =
     (if 65 \<le> code y \<and> code y \<le> 90 then code y + 32 else code y)"
proof -
  have "to_lower z = char_of (if 65 \<le> code z \<and> code z \<le> 90 then code z + 32 else code z)" for z by (simp add: to_lower_def Let_def)
  moreover have "(if 65 \<le> code z \<and> code z \<le> 90 then code z + 32 else code z) < 256" for z :: char using nat_of_char_less_256 [of z] by auto
  ultimately show ?thesis by (simp only: char_of_quasi_inj mod_less)
qed

lemma letters_differ:
  fixes m n F G :: nat
  assumes "97 \<le> F \<and> F \<le> 122 \<longleftrightarrow> 65 \<le> m \<and> m \<le> 90 \<or> 97 \<le> m \<and> m \<le> 122"
    "65 \<le> m \<and> m \<le> 90 \<longrightarrow> F = m + 32" "97 \<le> m \<and> m \<le> 122 \<longrightarrow> F = m"
    "97 \<le> G \<and> G \<le> 122 \<longleftrightarrow> 65 \<le> n \<and> n \<le> 90 \<or> 97 \<le> n \<and> n \<le> 122"
    "65 \<le> n \<and> n \<le> 90 \<longrightarrow> G = n + 32" "97 \<le> n \<and> n \<le> 122 \<longrightarrow> G = n"
  shows "m \<noteq> n \<and> (if 97 \<le> F \<and> F \<le> 122 then F \<noteq> G else True) \<longleftrightarrow>
    (if 65 \<le> m \<and> m \<le> 90 then m + 32 else m) \<noteq> (if 65 \<le> n \<and> n \<le> 90 then n + 32 else n)"
proof (cases "97 \<le> F \<and> F \<le> 122")
  case True
  then have m: "F = (if 65 \<le> m \<and> m \<le> 90 then m + 32 else m)" using assms(1-3) by auto
  show ?thesis
  proof (cases "97 \<le> G \<and> G \<le> 122")
    case g: True
    then have "G = (if 65 \<le> n \<and> n \<le> 90 then n + 32 else n)" using assms(4-6) by auto
    then show ?thesis using True m by auto
  next
    case False
    then have "\<not> (65 \<le> n \<and> n \<le> 90)" "\<not> (97 \<le> n \<and> n \<le> 122)" using assms(4) by blast+
    then show ?thesis using True False m by auto
  qed
next
  case False
  then have "\<not> (65 \<le> m \<and> m \<le> 90)" "\<not> (97 \<le> m \<and> m \<le> 122)" using assms(1) by blast+
  then show ?thesis using False by auto
qed

lemma icase_differ_iff: "icase_differ c d \<longleftrightarrow> to_lower c \<noteq> to_lower d"
proof -
  let ?f = "\<lambda>x. unat ((of_nat (code x) :: u8) OR 0x20)"
  have f: "?f x = (if odd (code x div 32) then code x else code x + 32)" for x :: char by (rule or_32) simp
  have l: "97 \<le> ?f x \<and> ?f x \<le> 122 \<longleftrightarrow> 65 \<le> code x \<and> code x \<le> 90 \<or> 97 \<le> code x \<and> code x \<le> 122"
    "65 \<le> code x \<and> code x \<le> 90 \<Longrightarrow> ?f x = code x + 32" "97 \<le> code x \<and> code x \<le> 122 \<Longrightarrow> ?f x = code x" for x :: char
    unfolding f by (intro or_32_letter; simp)+
  have "icase_differ c d \<longleftrightarrow> c \<noteq> d \<and> (if 97 \<le> ?f c \<and> ?f c \<le> 122 then ?f c \<noteq> ?f d else True)"
    by (simp add: icase_differ_def Let_def word_le_nat_alt word_unat_eq_iff)
  also have "\<dots> \<longleftrightarrow> code c \<noteq> code d \<and> (if 97 \<le> ?f c \<and> ?f c \<le> 122 then ?f c \<noteq> ?f d else True)" by simp
  also have "\<dots> \<longleftrightarrow> to_lower c \<noteq> to_lower d"
    unfolding to_lower_eq using l [of c] l [of d] by (intro letters_differ) blast+
  finally show ?thesis .
qed

text \<open>Comparing \<open>n\<close> characters of two strings is comparing them in lower case.\<close>

lemma strnicmp_lower:
  assumes "0 < n" "n \<le> length xs" "n < 2 ^ 64" "CHR 0x00 \<notin> set xs"
  shows "\<not> lwip_strnicmp xs ys (of_nat n) \<longleftrightarrow> map to_lower (take n xs) = map to_lower (take n ys)"
  unfolding lwip_strnicmp_def using assms
proof (induction xs arbitrary: ys n)
  case (Cons x xs)
  then have "x \<noteq> CHR 0x00" by auto
  then have "code x \<noteq> code (CHR 0x00)" by (simp only: of_char_eq_iff not_False_eq_True)
  then have "code x \<noteq> 0" by simp
  then have x: "to_lower x \<noteq> to_lower (CHR 0x00)" by (auto simp: to_lower_eq)
  obtain k where k: "n = Suc k" using Cons.prems(1) by (cases n) auto
  have w: "(of_nat n - 1 :: u64) = of_nat k" "(of_nat k :: u64) = 0 \<longleftrightarrow> k = 0"
    using k Cons.prems(3) by (simp_all add: word_unat_eq_iff unat_of_nat)
  show ?case
  proof (cases ys)
    case Nil
    then show ?thesis using x k by (simp add: icase_differ_iff)
  next
    case (Cons y zs)
    then show ?thesis using Cons.IH [of k zs] Cons.prems k w by (cases "k = 0") (auto simp: icase_differ_iff)
  qed
qed simp

text \<open>A netmask is valid exactly when it is ones followed by zeros.\<close>

lemma mask_zeros_iff: "mask_zeros nm k \<longleftrightarrow> (\<forall>j<k. \<not> bit nm j)"
  by (induction k) (auto simp: and_exp_eq_0_iff_not_bit less_Suc_eq)

lemma mask_ones_zeros:
  "mask_zeros nm (mask_ones nm k) \<longleftrightarrow> (\<exists>j\<le>k. (\<forall>i<j. \<not> bit nm i) \<and> (\<forall>i<k. j \<le> i \<longrightarrow> bit nm i))"
proof (induction k)
  case (Suc k)
  show ?case
  proof (cases "bit nm k")
    case True
    then show ?thesis using Suc by (auto simp: and_exp_eq_0_iff_not_bit le_Suc_eq less_Suc_eq)
  next
    case False
    then have "mask_zeros nm (mask_ones nm (Suc k)) \<longleftrightarrow> (\<forall>j<Suc k. \<not> bit nm j)"
      by (simp add: and_exp_eq_0_iff_not_bit mask_zeros_iff less_Suc_eq)
    moreover have "j = Suc k" if "j \<le> Suc k" "\<forall>i<Suc k. j \<le> i \<longrightarrow> bit nm i" for j using that False by (metis le_SucE lessI)
    ultimately show ?thesis by auto
  qed
qed simp

lemma netmask_valid_iff: "ip4_addr_netmask_valid netmask \<longleftrightarrow> (\<exists>j\<le>32. lwip_htonl netmask = push_bit j (mask (32 - j)))"
proof -
  have "(\<forall>i<j. \<not> bit nm i) \<and> (\<forall>i<32. j \<le> i \<longrightarrow> bit nm i) \<longleftrightarrow> nm = push_bit j (mask (32 - j))" if "j \<le> 32" for j and nm :: u32
  proof
    assume a: "(\<forall>i<j. \<not> bit nm i) \<and> (\<forall>i<32. j \<le> i \<longrightarrow> bit nm i)"
    show "nm = push_bit j (mask (32 - j))"
    proof (rule bit_word_eqI)
      fix n assume "n < LENGTH(32)"
      moreover have "bit nm n \<longleftrightarrow> j \<le> n" if "n < 32" using a that by (meson not_le)
      ultimately show "bit nm n \<longleftrightarrow> bit (push_bit j (mask (32 - j)) :: u32) n" by (auto simp: bit_push_bit_iff bit_mask_iff diff_less_mono)
    qed
  qed (auto simp: bit_push_bit_iff bit_mask_iff)
  then show ?thesis unfolding ip4_addr_netmask_valid_def Let_def mask_ones_zeros by blast
qed

text \<open>Addresses and their text: \<open>ip4addr_ntoa\<close> has room for every address, and \<open>ip4addr_aton\<close> reads it back.\<close>

lemma aton_ntoa: "\<exists>s. ip4addr_ntoa a = Some s \<and> ip4addr_aton s = Some a"
proof -
  let ?b = "\<lambda>i. unat (drop_bit (8 * i) a AND 0xFF)"
  let ?s = "show_nat (?b 0) @ CHR ''.'' # show_nat (?b 1) @ CHR ''.'' # show_nat (?b 2) @ CHR ''.'' # show_nat (?b 3)"
  have l: "length (show_nat (?b i)) \<le> 3" for i by (rule show_nat_short) (rule byte_of_u32(1))
  have "concat (map (\<lambda>b. rev (inv_digits b) @ ''.'') (address_bytes a)) = ?s @ ''.''"
    by (simp add: address_bytes_def inv_digits_show upt_rec)
  moreover have "length (?s @ ''.'') \<le> IP4ADDR_STRLEN_MAX" using l [of 0] l [of 1] l [of 2] l [of 3] by (simp add: IP4ADDR_STRLEN_MAX_def)
  ultimately have "ip4addr_ntoa a = Some ?s" unfolding ip4addr_ntoa_def ip4addr_ntoa_r_def ntoa_put_room by (simp add: butlast_append)
  moreover have "ip4addr_aton ?s = Some a"
  proof -
    have p: "aton_parts [] ?s = Some ([of_nat (?b 0), of_nat (?b 1), of_nat (?b 2)], of_nat (?b 3), [])"
      by (simp add: aton_parts_dot aton_parts_end)
    have "\<not> x AND 0xFF > (0xFF :: u32)" for x using byte_of_u32(1) [of x] by (simp add: word_less_nat_alt)
    then show ?thesis
      unfolding ip4addr_aton_def p byte_of_u32(2) using bytes_of_address [of a] by (simp del: push_bit_and)
  qed
  ultimately show ?thesis by blast
qed

text \<open>The parser does not notice a number that is too large.\<close>

lemma aton_wraps: "ip4addr_aton ''4294967297'' = ip4addr_aton ''0.0.0.1''"
  by code_simp

end
