(* ===== verification/Lwip_Pbuf.thy ===== *)
theory Lwip_Pbuf
  imports Netif "HOL-Library.Monad_Syntax"
begin

text \<open>
  The stack's packet buffers (\<open>lwip/core/pbuf.c\<close>), with the two element pools they come from (\<open>memp.c\<close>).  A pbuf is a node of
  a linked chain in a store of nodes; its payload is a position in a memory block, so that a reference pbuf may share
  the memory of another.  Reading or writing outside a block, and following a pointer to a freed node, is \<open>None\<close>.  The
  loops follow \<open>next\<close> pointers and end because chains do, so they are partial functions, and that they return is proved.
  \<open>LWIP_ASSERT\<close> is empty in this build.
\<close>

section \<open>Nodes and memory\<close>

text \<open>\<open>struct pbuf\<close>: \<open>payload\<close> is a block and a position in it.  For the types whose data follows the structure, position 0 is the
  byte behind the structure.\<close>

record lpbuf =
  lp_next :: "nat option"
  lp_block :: nat
  lp_off :: int
  lp_tot_len :: u16
  lp_len :: u16
  lp_type :: u8
  lp_flags :: u8
  lp_ref :: u8

text \<open>The nodes that are allocated, the blocks, the free lists of \<open>MEMP_PBUF_POOL\<close> and \<open>MEMP_PBUF\<close>, the pbufs given to their
  \<open>custom_free_function\<close>, and \<open>pbuf_free_ooseq_pending\<close>.\<close>

record pbufs =
  ps_nodes :: "nat \<rightharpoonup> lpbuf"
  ps_blocks :: "nat \<Rightarrow> bytes"
  ps_pool :: "nat list"
  ps_refs :: "nat list"
  ps_custom :: "nat list"
  ps_ooseq :: bool

definition put_node :: "nat \<Rightarrow> lpbuf \<Rightarrow> pbufs \<Rightarrow> pbufs" where
  "put_node p n s = s\<lparr>ps_nodes := (ps_nodes s)(p \<mapsto> n)\<rparr>"

text \<open>\<open>MEMCPY\<close> from and to the payload of a node.\<close>

definition load_mem :: "lpbuf \<Rightarrow> nat \<Rightarrow> nat \<Rightarrow> pbufs \<Rightarrow> bytes option" where
  "load_mem n off len s =
     (if len = 0 then Some []
      else if lp_off n + int off < 0 \<or> lp_off n + int off + int len > int (length (ps_blocks s (lp_block n))) then None
      else Some (slice (nat (lp_off n + int off)) len (ps_blocks s (lp_block n))))"

definition store_mem :: "lpbuf \<Rightarrow> nat \<Rightarrow> bytes \<Rightarrow> pbufs \<Rightarrow> pbufs option" where
  "store_mem n off d s =
     (if d = [] then Some s
      else if lp_off n + int off < 0 \<or> lp_off n + int off + int (length d) > int (length (ps_blocks s (lp_block n))) then None
      else Some (s\<lparr>ps_blocks := (ps_blocks s)(lp_block n := patch (nat (lp_off n + int off)) d (ps_blocks s (lp_block n)))\<rparr>))"

section \<open>Types and layers\<close>

datatype pbuf_type = PBUF_RAM | PBUF_ROM | PBUF_REF | PBUF_POOL

text \<open>\<open>type_internal\<close>: the enumeration cut to its low byte.\<close>

fun type_internal :: "pbuf_type \<Rightarrow> u8" where
  "type_internal PBUF_RAM = 0x80"
| "type_internal PBUF_ROM = 0x01"
| "type_internal PBUF_REF = 0x41"
| "type_internal PBUF_POOL = 0x82"

abbreviation (input) ALLOC_SRC_HEAP :: u8 where "ALLOC_SRC_HEAP \<equiv> 0x00"
abbreviation (input) ALLOC_SRC_MEMP_PBUF :: u8 where "ALLOC_SRC_MEMP_PBUF \<equiv> 0x01"
abbreviation (input) ALLOC_SRC_MEMP_PBUF_POOL :: u8 where "ALLOC_SRC_MEMP_PBUF_POOL \<equiv> 0x02"

definition pbuf_get_allocsrc :: "lpbuf \<Rightarrow> u8" where
  "pbuf_get_allocsrc n = lp_type n AND 0x0F"

definition PBUF_FLAG_IS_CUSTOM :: u8 where
  "PBUF_FLAG_IS_CUSTOM = 0x02"

text \<open>The layers, as the room they leave: \<open>PBUF_TRANSPORT\<close>, \<open>PBUF_IP\<close>, \<open>PBUF_LINK\<close>, \<open>PBUF_RAW_TX\<close> and \<open>PBUF_RAW\<close>.\<close>

datatype pbuf_layer = PBUF_TRANSPORT | PBUF_IP | PBUF_LINK | PBUF_RAW_TX | PBUF_RAW

fun layer_room :: "pbuf_layer \<Rightarrow> nat" where
  "layer_room PBUF_TRANSPORT = 0 + 14 + 20 + 20"
| "layer_room PBUF_IP = 0 + 14 + 20"
| "layer_room PBUF_LINK = 0 + 14"
| "layer_room PBUF_RAW_TX = 0"
| "layer_room PBUF_RAW = 0"

definition LWIP_MEM_ALIGN_SIZE :: "nat \<Rightarrow> nat" where
  "LWIP_MEM_ALIGN_SIZE n = (n + 3) div 4 * 4"

text \<open>\<open>sizeof(struct pbuf)\<close> is 24 on the console; \<open>PBUF_POOL_BUFSIZE\<close> is 1500.\<close>

definition SIZEOF_STRUCT_PBUF :: nat where
  "SIZEOF_STRUCT_PBUF = LWIP_MEM_ALIGN_SIZE 24"

definition PBUF_POOL_BUFSIZE_ALIGNED :: nat where
  "PBUF_POOL_BUFSIZE_ALIGNED = LWIP_MEM_ALIGN_SIZE 1500"

section \<open>Reference counts\<close>

text \<open>Giving a node back to where it came from.\<close>

definition pbuf_dealloc :: "nat \<Rightarrow> lpbuf \<Rightarrow> pbufs \<Rightarrow> pbufs" where
  "pbuf_dealloc p n s =
     (if lp_flags n AND PBUF_FLAG_IS_CUSTOM \<noteq> 0 then s\<lparr>ps_nodes := (ps_nodes s)(p := None), ps_custom := ps_custom s @ [p]\<rparr>
      else if pbuf_get_allocsrc n = ALLOC_SRC_MEMP_PBUF_POOL then s\<lparr>ps_nodes := (ps_nodes s)(p := None), ps_pool := p # ps_pool s\<rparr>
      else if pbuf_get_allocsrc n = ALLOC_SRC_MEMP_PBUF then s\<lparr>ps_nodes := (ps_nodes s)(p := None), ps_refs := p # ps_refs s\<rparr>
      else if pbuf_get_allocsrc n = ALLOC_SRC_HEAP then s\<lparr>ps_nodes := (ps_nodes s)(p := None)\<rparr>
      else s)"

partial_function (option) free_loop :: "nat option \<Rightarrow> u8 \<Rightarrow> pbufs \<Rightarrow> (pbufs \<times> u8) option" where
  "free_loop p count s =
     (case p of
        None \<Rightarrow> Some (s, count)
      | Some a \<Rightarrow>
          do { n \<leftarrow> ps_nodes s a;
               let n = n\<lparr>lp_ref := lp_ref n - 1\<rparr>;
               let s = put_node a n s;
               if lp_ref n = 0 then free_loop (lp_next n) (count + 1) (pbuf_dealloc a n s)
               else Some (s, count) })"

definition pbuf_free :: "nat option \<Rightarrow> pbufs \<Rightarrow> (pbufs \<times> u8) option" where
  "pbuf_free p s = free_loop p 0 s"

definition pbuf_ref :: "nat option \<Rightarrow> pbufs \<Rightarrow> pbufs option" where
  "pbuf_ref p s =
     (case p of
        None \<Rightarrow> Some s
      | Some a \<Rightarrow> do { n \<leftarrow> ps_nodes s a; Some (put_node a (n\<lparr>lp_ref := lp_ref n + 1\<rparr>) s) })"

partial_function (option) clen_loop :: "nat option \<Rightarrow> u16 \<Rightarrow> pbufs \<Rightarrow> u16 option" where
  "clen_loop p len s =
     (case p of None \<Rightarrow> Some len | Some a \<Rightarrow> do { n \<leftarrow> ps_nodes s a; clen_loop (lp_next n) (len + 1) s })"

definition pbuf_clen :: "nat option \<Rightarrow> pbufs \<Rightarrow> u16 option" where
  "pbuf_clen p s = clen_loop p 0 s"

section \<open>Allocation\<close>

definition pbuf_init_alloced_pbuf :: "nat \<Rightarrow> nat \<Rightarrow> int \<Rightarrow> u16 \<Rightarrow> u16 \<Rightarrow> u8 \<Rightarrow> u8 \<Rightarrow> pbufs \<Rightarrow> pbufs" where
  "pbuf_init_alloced_pbuf p block off tot len typ flags s =
     put_node p \<lparr>lp_next = None, lp_block = block, lp_off = off, lp_tot_len = tot, lp_len = len, lp_type = typ,
       lp_flags = flags, lp_ref = 1\<rparr> s"

definition pbuf_pool_is_empty :: "pbufs \<Rightarrow> pbufs" where
  "pbuf_pool_is_empty s = s\<lparr>ps_ooseq := True\<rparr>"

text \<open>A pool's free list at start: each element in turn is put in front.  Block 0 is left out of the pools.\<close>

definition memp_init_pool :: "nat list \<Rightarrow> nat list" where
  "memp_init_pool elems = fold (\<lambda>m tab. m # tab) elems []"

text \<open>The two pools after \<open>memp_init\<close>: \<open>PBUF_POOL_SIZE\<close> is 24, \<open>MEMP_NUM_PBUF\<close> 16.\<close>

definition pbufs_init :: pbufs where
  "pbufs_init = \<lparr>ps_nodes = (\<lambda>_. None), ps_blocks = (\<lambda>a. if a \<in> {1..24} then replicate PBUF_POOL_BUFSIZE_ALIGNED 0 else []),
     ps_pool = memp_init_pool [1..<25], ps_refs = memp_init_pool [25..<41], ps_custom = [], ps_ooseq = False\<rparr>"

text \<open>\<open>memp_malloc\<close>: the head of the free list.  Block 0 stands for a \<open>NULL\<close> payload.\<close>

definition pbuf_alloc_reference :: "nat \<Rightarrow> int \<Rightarrow> u16 \<Rightarrow> pbuf_type \<Rightarrow> pbufs \<Rightarrow> pbufs \<times> nat option" where
  "pbuf_alloc_reference block off len typ s =
     (case ps_refs s of
        [] \<Rightarrow> (s, None)
      | p # free \<Rightarrow> (pbuf_init_alloced_pbuf p block off len len (type_internal typ) 0 (s\<lparr>ps_refs := free\<rparr>), Some p))"

text \<open>The loop over the pool; it goes on while the pool has elements and something is left to hold.  \<open>hd\<close> is the chain so far,
  \<open>prev\<close> its last node.\<close>

fun alloc_pool :: "nat list \<Rightarrow> nat option \<Rightarrow> nat option \<Rightarrow> u16 \<Rightarrow> nat \<Rightarrow> pbufs \<Rightarrow> (pbufs \<times> nat option) option" where
  "alloc_pool [] first prev rem_len offset s =
     (let s = pbuf_pool_is_empty s
      in case first of None \<Rightarrow> Some (s, None) | Some p \<Rightarrow> do { (s, _) \<leftarrow> pbuf_free (Some p) s; Some (s, None) })"
| "alloc_pool (q # free) first prev rem_len offset s =
     (let s = s\<lparr>ps_pool := free\<rparr>;
          qlen = min rem_len (of_nat (PBUF_POOL_BUFSIZE_ALIGNED - LWIP_MEM_ALIGN_SIZE offset));
          s = pbuf_init_alloced_pbuf q q (int (LWIP_MEM_ALIGN_SIZE offset)) rem_len qlen (type_internal PBUF_POOL) 0 s
      in do { s \<leftarrow> (case prev of
                      None \<Rightarrow> Some s
                    | Some l \<Rightarrow> do { n \<leftarrow> ps_nodes s l; Some (put_node l (n\<lparr>lp_next := Some q\<rparr>) s) });
              let first = (case first of None \<Rightarrow> Some q | Some p \<Rightarrow> Some p);
              let rem_len = rem_len - qlen;
              if rem_len > 0 then alloc_pool free first (Some q) rem_len 0 s else Some (s, first) })"

text \<open>\<open>mem_malloc\<close> answers with a block; \<open>heap\<close> is that answer.  \<open>mem_size_t\<close> has 16 bits for this heap.\<close>

definition alloc_ram :: "nat \<Rightarrow> u16 \<Rightarrow> (nat \<times> bytes) option \<Rightarrow> pbufs \<Rightarrow> pbufs \<times> nat option" where
  "alloc_ram offset len heap s =
     (let payload_len = (of_nat (LWIP_MEM_ALIGN_SIZE offset + LWIP_MEM_ALIGN_SIZE (unat len)) :: u16);
          alloc_len = (of_nat (LWIP_MEM_ALIGN_SIZE SIZEOF_STRUCT_PBUF + unat payload_len) :: u16)
      in if unat payload_len < LWIP_MEM_ALIGN_SIZE (unat len) \<or> unat alloc_len < LWIP_MEM_ALIGN_SIZE (unat len) then (s, None)
         else
           (case heap of
              None \<Rightarrow> (s, None)
            | Some (p, area) \<Rightarrow>
                (pbuf_init_alloced_pbuf p p (int (LWIP_MEM_ALIGN_SIZE offset)) len len (type_internal PBUF_RAM) 0
                   (s\<lparr>ps_blocks := (ps_blocks s)(p := take (unat payload_len) area)\<rparr>), Some p)))"

definition pbuf_alloc :: "pbuf_layer \<Rightarrow> u16 \<Rightarrow> pbuf_type \<Rightarrow> (nat \<times> bytes) option \<Rightarrow> pbufs \<Rightarrow> (pbufs \<times> nat option) option" where
  "pbuf_alloc layer len typ heap s =
     (case typ of
        PBUF_POOL \<Rightarrow> alloc_pool (ps_pool s) None None len (layer_room layer) s
      | PBUF_RAM \<Rightarrow> Some (alloc_ram (layer_room layer) len heap s)
      | _ \<Rightarrow> Some (pbuf_alloc_reference 0 0 len typ s))"

definition pbuf_alloced_custom ::
  "pbuf_layer \<Rightarrow> u16 \<Rightarrow> pbuf_type \<Rightarrow> nat \<Rightarrow> (nat \<times> int) option \<Rightarrow> u16 \<Rightarrow> pbufs \<Rightarrow> pbufs \<times> nat option" where
  "pbuf_alloced_custom l len typ p payload_mem payload_mem_len s =
     (if LWIP_MEM_ALIGN_SIZE (layer_room l) + unat len > unat payload_mem_len then (s, None)
      else
        let (block, off) = (case payload_mem of None \<Rightarrow> (0, 0) | Some (b, o') \<Rightarrow> (b, o' + int (LWIP_MEM_ALIGN_SIZE (layer_room l))))
        in (pbuf_init_alloced_pbuf p block off len len (type_internal typ) PBUF_FLAG_IS_CUSTOM s, Some p))"

section \<open>Headers\<close>

text \<open>The result is whether the call succeeded (0 in the source).\<close>

definition pbuf_add_header_impl :: "nat \<Rightarrow> nat \<Rightarrow> bool \<Rightarrow> pbufs \<Rightarrow> (pbufs \<times> bool) option" where
  "pbuf_add_header_impl p inc force s =
     (if inc > 0xFFFF then Some (s, False)
      else if inc = 0 then Some (s, True)
      else
        do { n \<leftarrow> ps_nodes s p;
             let mag = (of_nat inc :: u16);
             let payload = lp_off n - int inc;
             if mag + lp_tot_len n < mag then Some (s, False)
             else if (if lp_type n AND 0x80 \<noteq> 0 then payload < 0 else \<not> force) then Some (s, False)
             else Some (put_node p (n\<lparr>lp_off := payload, lp_len := lp_len n + mag, lp_tot_len := lp_tot_len n + mag\<rparr>) s, True) })"

definition pbuf_add_header :: "nat \<Rightarrow> nat \<Rightarrow> pbufs \<Rightarrow> (pbufs \<times> bool) option" where
  "pbuf_add_header p inc s = pbuf_add_header_impl p inc False s"

definition pbuf_add_header_force :: "nat \<Rightarrow> nat \<Rightarrow> pbufs \<Rightarrow> (pbufs \<times> bool) option" where
  "pbuf_add_header_force p inc s = pbuf_add_header_impl p inc True s"

definition pbuf_remove_header :: "nat \<Rightarrow> nat \<Rightarrow> pbufs \<Rightarrow> (pbufs \<times> bool) option" where
  "pbuf_remove_header p dec s =
     (if dec > 0xFFFF then Some (s, False)
      else if dec = 0 then Some (s, True)
      else
        do { n \<leftarrow> ps_nodes s p;
             let mag = (of_nat dec :: u16);
             if \<not> mag \<le> lp_len n then Some (s, False)
             else Some (put_node p (n\<lparr>lp_off := lp_off n + int dec, lp_len := lp_len n - mag, lp_tot_len := lp_tot_len n - mag\<rparr>) s,
                        True) })"

definition pbuf_header_impl :: "nat \<Rightarrow> int \<Rightarrow> bool \<Rightarrow> pbufs \<Rightarrow> (pbufs \<times> bool) option" where
  "pbuf_header_impl p inc force s =
     (if inc < 0 then pbuf_remove_header p (nat (- inc)) s else pbuf_add_header_impl p (nat inc) force s)"

definition pbuf_header :: "nat \<Rightarrow> int \<Rightarrow> pbufs \<Rightarrow> (pbufs \<times> bool) option" where
  "pbuf_header p inc s = pbuf_header_impl p inc False s"

definition pbuf_header_force :: "nat \<Rightarrow> int \<Rightarrow> pbufs \<Rightarrow> (pbufs \<times> bool) option" where
  "pbuf_header_force p inc s = pbuf_header_impl p inc True s"

partial_function (option) pbuf_free_header :: "nat option \<Rightarrow> u16 \<Rightarrow> pbufs \<Rightarrow> (pbufs \<times> nat option) option" where
  "pbuf_free_header p free_left s =
     (case p of
        None \<Rightarrow> Some (s, None)
      | Some a \<Rightarrow>
          if free_left = 0 then Some (s, Some a)
          else
            do { n \<leftarrow> ps_nodes s a;
                 if free_left \<ge> lp_len n then
                   do { (s, _) \<leftarrow> pbuf_free (Some a) (put_node a (n\<lparr>lp_next := None\<rparr>) s);
                        pbuf_free_header (lp_next n) (free_left - lp_len n) s }
                 else do { (s, _) \<leftarrow> pbuf_remove_header a (unat free_left) s; Some (s, Some a) } })"

section \<open>Chains\<close>

text \<open>\<open>pbuf_realloc\<close>: the walk to the new last pbuf, then the cut.  \<open>mem_trim\<close> gives back the end of the block.\<close>

definition realloc_cut :: "nat \<Rightarrow> u16 \<Rightarrow> pbufs \<Rightarrow> pbufs option" where
  "realloc_cut q rem_len s =
     do { n \<leftarrow> ps_nodes s q;
          let s = (if pbuf_get_allocsrc n = ALLOC_SRC_HEAP \<and> rem_len \<noteq> lp_len n \<and> lp_flags n AND PBUF_FLAG_IS_CUSTOM = 0
                   then s\<lparr>ps_blocks := (ps_blocks s)(lp_block n :=
                          take (nat (lp_off n) + unat rem_len) (ps_blocks s (lp_block n)))\<rparr>
                   else s);
          let s = put_node q (n\<lparr>lp_len := rem_len, lp_tot_len := rem_len\<rparr>) s;
          (s, _) \<leftarrow> (case lp_next n of None \<Rightarrow> Some (s, 0) | Some r \<Rightarrow> pbuf_free (Some r) s);
          n \<leftarrow> ps_nodes s q;
          Some (put_node q (n\<lparr>lp_next := None\<rparr>) s) }"

partial_function (option) realloc_loop :: "nat \<Rightarrow> u16 \<Rightarrow> u16 \<Rightarrow> pbufs \<Rightarrow> pbufs option" where
  "realloc_loop q rem_len shrink s =
     do { n \<leftarrow> ps_nodes s q;
          if rem_len > lp_len n then
            do { q' \<leftarrow> lp_next n;
                 realloc_loop q' (rem_len - lp_len n) shrink (put_node q (n\<lparr>lp_tot_len := lp_tot_len n - shrink\<rparr>) s) }
          else realloc_cut q rem_len s }"

definition pbuf_realloc :: "nat \<Rightarrow> u16 \<Rightarrow> pbufs \<Rightarrow> pbufs option" where
  "pbuf_realloc p new_len s =
     do { n \<leftarrow> ps_nodes s p;
          if new_len \<ge> lp_tot_len n then Some s else realloc_loop p new_len (lp_tot_len n - new_len) s }"

partial_function (option) cat_loop :: "nat \<Rightarrow> nat \<Rightarrow> pbufs \<Rightarrow> pbufs option" where
  "cat_loop p t s =
     do { n \<leftarrow> ps_nodes s p;
          m \<leftarrow> ps_nodes s t;
          let n' = n\<lparr>lp_tot_len := lp_tot_len n + lp_tot_len m\<rparr>;
          (case lp_next n of
             Some q \<Rightarrow> cat_loop q t (put_node p n' s)
           | None \<Rightarrow> Some (put_node p (n'\<lparr>lp_next := Some t\<rparr>) s)) }"

definition pbuf_cat :: "nat option \<Rightarrow> nat option \<Rightarrow> pbufs \<Rightarrow> pbufs option" where
  "pbuf_cat h t s = (case (h, t) of (Some h, Some t) \<Rightarrow> cat_loop h t s | _ \<Rightarrow> Some s)"

definition pbuf_chain :: "nat option \<Rightarrow> nat option \<Rightarrow> pbufs \<Rightarrow> pbufs option" where
  "pbuf_chain h t s = do { s \<leftarrow> pbuf_cat h t s; pbuf_ref t s }"

definition pbuf_dechain :: "nat \<Rightarrow> pbufs \<Rightarrow> (pbufs \<times> nat option) option" where
  "pbuf_dechain p s =
     do { n \<leftarrow> ps_nodes s p;
          (case lp_next n of
             None \<Rightarrow> Some (s, None)
           | Some q \<Rightarrow>
               do { m \<leftarrow> ps_nodes s q;
                    let s = put_node q (m\<lparr>lp_tot_len := lp_tot_len n - lp_len n\<rparr>) s;
                    n \<leftarrow> ps_nodes s p;
                    let s = put_node p (n\<lparr>lp_next := None, lp_tot_len := lp_len n\<rparr>) s;
                    (s, tail_gone) \<leftarrow> pbuf_free (Some q) s;
                    Some (s, if tail_gone > 0 then None else Some q) }) }"

section \<open>Contents\<close>

partial_function (option) pbuf_skip_const :: "nat option \<Rightarrow> u16 \<Rightarrow> pbufs \<Rightarrow> (nat option \<times> u16) option" where
  "pbuf_skip_const q offset_left s =
     (case q of
        None \<Rightarrow> Some (None, offset_left)
      | Some a \<Rightarrow>
          do { n \<leftarrow> ps_nodes s a;
               if lp_len n \<le> offset_left then pbuf_skip_const (lp_next n) (offset_left - lp_len n) s
               else Some (Some a, offset_left) })"

definition pbuf_skip :: "nat option \<Rightarrow> u16 \<Rightarrow> pbufs \<Rightarrow> (nat option \<times> u16) option" where
  "pbuf_skip p in_offset s = pbuf_skip_const p in_offset s"

text \<open>\<open>pbuf_copy_partial\<close> on the store: the bytes written to the caller's buffer, in order.\<close>

partial_function (option) copy_out :: "nat option \<Rightarrow> u16 \<Rightarrow> u16 \<Rightarrow> bytes \<Rightarrow> pbufs \<Rightarrow> bytes option" where
  "copy_out p len offset out s =
     (case p of
        None \<Rightarrow> Some out
      | Some a \<Rightarrow>
          if len = 0 then Some out
          else
            do { n \<leftarrow> ps_nodes s a;
                 if offset \<noteq> 0 \<and> offset \<ge> lp_len n then copy_out (lp_next n) len (offset - lp_len n) out s
                 else
                   do { let k = min (lp_len n - offset) len;
                        d \<leftarrow> load_mem n (unat offset) (unat k) s;
                        copy_out (lp_next n) (len - k) 0 (out @ d) s } })"

text \<open>Whether the data lies in one pbuf (then where), or was copied; \<open>copying\<close> is whether the caller gave a buffer.\<close>

datatype contiguous = In_place nat nat | Copied bytes | Not_found

definition pbuf_get_contiguous :: "nat \<Rightarrow> nat option \<Rightarrow> u16 \<Rightarrow> u16 \<Rightarrow> pbufs \<Rightarrow> contiguous option" where
  "pbuf_get_contiguous p bufsize len offset s =
     (if (case bufsize of None \<Rightarrow> False | Some b \<Rightarrow> b < unat len) then Some Not_found
      else
        do { (q, out_offset) \<leftarrow> pbuf_skip_const (Some p) offset s;
             (case q of
                None \<Rightarrow> Some Not_found
              | Some a \<Rightarrow>
                  do { n \<leftarrow> ps_nodes s a;
                       if unat (lp_len n) \<ge> unat out_offset + unat len then Some (In_place a (unat out_offset))
                       else if bufsize = None then Some Not_found
                       else do { d \<leftarrow> copy_out (Some a) len out_offset [] s;
                                 Some (if length d = unat len then Copied d else Not_found) } }) })"

partial_function (option) take_loop :: "nat option \<Rightarrow> bytes \<Rightarrow> pbufs \<Rightarrow> pbufs option" where
  "take_loop p d s =
     (if d = [] then Some s
      else
        do { a \<leftarrow> p;
             n \<leftarrow> ps_nodes s a;
             let k = min (length d) (unat (lp_len n));
             s \<leftarrow> store_mem n 0 (take k d) s;
             take_loop (lp_next n) (drop k d) s })"

text \<open>The error codes of \<open>pbuf_take\<close>; the data has at most 65535 bytes.\<close>

abbreviation ERR_VAL :: err_t where "ERR_VAL \<equiv> ERR_OTHER (-6)"
abbreviation ERR_ARG :: err_t where "ERR_ARG \<equiv> ERR_OTHER (-16)"

definition pbuf_take :: "nat option \<Rightarrow> bytes \<Rightarrow> pbufs \<Rightarrow> (pbufs \<times> err_t) option" where
  "pbuf_take buf d s =
     (case buf of
        None \<Rightarrow> Some (s, ERR_ARG)
      | Some a \<Rightarrow>
          do { n \<leftarrow> ps_nodes s a;
               if unat (lp_tot_len n) < length d then Some (s, ERR_MEM)
               else do { s \<leftarrow> take_loop (Some a) d s; Some (s, ERR_OK) } })"

definition pbuf_take_at :: "nat option \<Rightarrow> bytes \<Rightarrow> u16 \<Rightarrow> pbufs \<Rightarrow> (pbufs \<times> err_t) option" where
  "pbuf_take_at buf d offset s =
     do { (q, target) \<leftarrow> pbuf_skip buf offset s;
          (case q of
             None \<Rightarrow> Some (s, ERR_MEM)
           | Some a \<Rightarrow>
               do { n \<leftarrow> ps_nodes s a;
                    if unat (lp_tot_len n) \<ge> unat target + length d then
                      do { let k = min (unat (lp_len n) - unat target) (length d);
                           s \<leftarrow> store_mem n (unat target) (take k d) s;
                           if length d > k then pbuf_take (lp_next n) (drop k d) s else Some (s, ERR_OK) }
                    else Some (s, ERR_MEM) }) }"

text \<open>\<open>pbuf_copy_partial_pbuf\<close>: the loop, with the positions in both chains.\<close>

partial_function (option) copy_pbuf_loop ::
  "nat option \<Rightarrow> nat option \<Rightarrow> u16 \<Rightarrow> nat \<Rightarrow> nat \<Rightarrow> pbufs \<Rightarrow> (pbufs \<times> err_t) option" where
  "copy_pbuf_loop p_to p_from copy_len offset_to offset_from s =
     do { t \<leftarrow> p_to;
          f \<leftarrow> p_from;
          nt \<leftarrow> ps_nodes s t;
          nf \<leftarrow> ps_nodes s f;
          let room_to = (of_nat (unat (lp_len nt)) - of_nat offset_to :: u64);
          let room_from = (of_nat (unat (lp_len nf)) - of_nat offset_from :: u64);
          let len = min (unat copy_len) (unat (if room_to \<ge> room_from then room_from else room_to));
          d \<leftarrow> load_mem nf offset_from len s;
          s \<leftarrow> store_mem nt offset_to d s;
          let offset_to = offset_to + len;
          let offset_from = offset_from + len;
          let copy_len = copy_len - of_nat len;
          let (p_from', offset_from) = (if offset_from \<ge> unat (lp_len nf) then (lp_next nf, 0) else (Some f, offset_from));
          if p_from' = None \<and> copy_len \<noteq> 0 then Some (s, ERR_ARG)
          else
            do { let (p_to', offset_to) = (if offset_to = unat (lp_len nt) then (lp_next nt, 0) else (Some t, offset_to));
                 if p_to' = None \<and> copy_len \<noteq> 0 then Some (s, ERR_ARG)
                 else
                   do { qf \<leftarrow> (case p_from' of None \<Rightarrow> Some False
                              | Some a \<Rightarrow> do { n \<leftarrow> ps_nodes s a; Some (lp_len n = lp_tot_len n \<and> lp_next n \<noteq> None) });
                        if qf then Some (s, ERR_VAL)
                        else
                          do { qt \<leftarrow> (case p_to' of None \<Rightarrow> Some False
                                     | Some a \<Rightarrow> do { n \<leftarrow> ps_nodes s a; Some (lp_len n = lp_tot_len n \<and> lp_next n \<noteq> None) });
                               if qt then Some (s, ERR_VAL)
                               else if copy_len \<noteq> 0 then copy_pbuf_loop p_to' p_from' copy_len offset_to offset_from s
                               else Some (s, ERR_OK) } } } }"

definition pbuf_copy_partial_pbuf :: "nat option \<Rightarrow> nat option \<Rightarrow> u16 \<Rightarrow> u16 \<Rightarrow> pbufs \<Rightarrow> (pbufs \<times> err_t) option" where
  "pbuf_copy_partial_pbuf p_to p_from copy_len offset s =
     (case p_from of
        None \<Rightarrow> Some (s, ERR_ARG)
      | Some f \<Rightarrow>
          do { nf \<leftarrow> ps_nodes s f;
               if lp_tot_len nf < copy_len then Some (s, ERR_ARG)
               else
                 (case p_to of
                    None \<Rightarrow> Some (s, ERR_ARG)
                  | Some t \<Rightarrow>
                      do { nt \<leftarrow> ps_nodes s t;
                           if unat (lp_tot_len nt) < unat offset + unat copy_len then Some (s, ERR_ARG)
                           else copy_pbuf_loop (Some t) (Some f) copy_len (unat offset) 0 s }) })"

definition pbuf_copy :: "nat option \<Rightarrow> nat option \<Rightarrow> pbufs \<Rightarrow> (pbufs \<times> err_t) option" where
  "pbuf_copy p_to p_from s =
     (case p_from of
        None \<Rightarrow> Some (s, ERR_ARG)
      | Some f \<Rightarrow> do { nf \<leftarrow> ps_nodes s f; pbuf_copy_partial_pbuf p_to (Some f) (lp_tot_len nf) 0 s })"

definition pbuf_clone :: "pbuf_layer \<Rightarrow> pbuf_type \<Rightarrow> nat \<Rightarrow> (nat \<times> bytes) option \<Rightarrow> pbufs \<Rightarrow> (pbufs \<times> nat option) option" where
  "pbuf_clone layer typ p heap s =
     do { n \<leftarrow> ps_nodes s p;
          (s, q) \<leftarrow> pbuf_alloc layer (lp_tot_len n) typ heap s;
          (case q of
             None \<Rightarrow> Some (s, None)
           | Some a \<Rightarrow> do { (s, _) \<leftarrow> pbuf_copy (Some a) (Some p) s; Some (s, Some a) }) }"

definition pbuf_coalesce :: "nat \<Rightarrow> pbuf_layer \<Rightarrow> (nat \<times> bytes) option \<Rightarrow> pbufs \<Rightarrow> (pbufs \<times> nat) option" where
  "pbuf_coalesce p layer heap s =
     do { n \<leftarrow> ps_nodes s p;
          if lp_next n = None then Some (s, p)
          else
            do { (s, q) \<leftarrow> pbuf_clone layer PBUF_RAM p heap s;
                 (case q of
                    None \<Rightarrow> Some (s, p)
                  | Some a \<Rightarrow> do { (s, _) \<leftarrow> pbuf_free (Some p) s; Some (s, a) }) } }"

definition pbuf_try_get_at :: "nat option \<Rightarrow> u16 \<Rightarrow> pbufs \<Rightarrow> u8 option option" where
  "pbuf_try_get_at p offset s =
     do { (q, q_idx) \<leftarrow> pbuf_skip_const p offset s;
          (case q of
             None \<Rightarrow> Some None
           | Some a \<Rightarrow>
               do { n \<leftarrow> ps_nodes s a;
                    if lp_len n > q_idx then do { d \<leftarrow> load_mem n (unat q_idx) 1 s; Some (Some (hd d)) } else Some None }) }"

definition pbuf_get_at :: "nat option \<Rightarrow> u16 \<Rightarrow> pbufs \<Rightarrow> u8 option" where
  "pbuf_get_at p offset s = do { r \<leftarrow> pbuf_try_get_at p offset s; Some (case r of None \<Rightarrow> 0 | Some b \<Rightarrow> b) }"

definition pbuf_put_at :: "nat option \<Rightarrow> u16 \<Rightarrow> u8 \<Rightarrow> pbufs \<Rightarrow> pbufs option" where
  "pbuf_put_at p offset b s =
     do { (q, q_idx) \<leftarrow> pbuf_skip p offset s;
          (case q of
             None \<Rightarrow> Some s
           | Some a \<Rightarrow> do { n \<leftarrow> ps_nodes s a; if lp_len n > q_idx then store_mem n (unat q_idx) [b] s else Some s }) }"

text \<open>The comparison: \<open>i\<close> counts up from 0 over the bytes of \<open>s2\<close>.\<close>

fun memcmp_loop :: "nat option \<Rightarrow> u16 \<Rightarrow> u16 \<Rightarrow> bytes \<Rightarrow> pbufs \<Rightarrow> u16 option" where
  "memcmp_loop q start i [] s = Some 0"
| "memcmp_loop q start i (b # s2) s =
     do { a \<leftarrow> pbuf_get_at q (start + i) s;
          if a \<noteq> b then Some (of_nat (min (unat i + 1) 0xFFFF)) else memcmp_loop q start (i + 1) s2 s }"

definition pbuf_memcmp :: "nat \<Rightarrow> u16 \<Rightarrow> bytes \<Rightarrow> pbufs \<Rightarrow> u16 option" where
  "pbuf_memcmp p offset s2 s =
     do { n \<leftarrow> ps_nodes s p;
          if unat (lp_tot_len n) < unat offset + length s2 then Some 0xFFFF
          else do { (q, start) \<leftarrow> pbuf_skip_const (Some p) offset s; memcmp_loop q start 0 s2 s } }"

text \<open>The search; with \<open>max_cmp_start\<close> 65535 the loop's 16-bit counter would wrap, so it is a partial function too.\<close>

partial_function (option) memfind_loop :: "nat \<Rightarrow> bytes \<Rightarrow> u16 \<Rightarrow> u16 \<Rightarrow> pbufs \<Rightarrow> u16 option" where
  "memfind_loop p mem i max_cmp_start s =
     (if i \<le> max_cmp_start then
        do { plus \<leftarrow> pbuf_memcmp p i mem s; if plus = 0 then Some i else memfind_loop p mem (i + 1) max_cmp_start s }
      else Some 0xFFFF)"

definition pbuf_memfind :: "nat \<Rightarrow> bytes \<Rightarrow> u16 \<Rightarrow> pbufs \<Rightarrow> u16 option" where
  "pbuf_memfind p mem start_offset s =
     do { n \<leftarrow> ps_nodes s p;
          if unat (lp_tot_len n) \<ge> length mem + unat start_offset
          then memfind_loop p mem start_offset (lp_tot_len n - of_nat (length mem)) s
          else Some 0xFFFF }"

text \<open>\<open>substr\<close> is the string without its NUL.\<close>

definition pbuf_strstr :: "nat \<Rightarrow> bytes \<Rightarrow> pbufs \<Rightarrow> u16 option" where
  "pbuf_strstr p substr s =
     (if substr = [] then Some 0xFFFF
      else
        do { n \<leftarrow> ps_nodes s p;
             if lp_tot_len n = 0xFFFF then Some 0xFFFF
             else if length substr \<ge> 0xFFFF then Some 0xFFFF
             else pbuf_memfind p substr 0 s })"

end
