(* ===== verification/Lwip_Pbuf_Correct.thy ===== *)
theory Lwip_Pbuf_Correct
  imports Lwip_Pbuf
begin

text \<open>
  What the packet buffers promise: a chain holds the concatenation of its parts, and the operations on chains are the
  operations on that byte string.  Reading never leaves the blocks, reference counting frees a chain exactly when its
  last reference goes, and the path of a received packet through the pool neither changes a byte nor loses an element.
\<close>

section \<open>Chains and packets\<close>

primrec chain :: "pbufs \<Rightarrow> nat option \<Rightarrow> nat list \<Rightarrow> bool" where
  "chain s p [] \<longleftrightarrow> p = None"
| "chain s p (a # as) \<longleftrightarrow> p = Some a \<and> (\<exists>n. ps_nodes s a = Some n \<and> chain s (lp_next n) as)"

abbreviation node :: "pbufs \<Rightarrow> nat \<Rightarrow> lpbuf" where
  "node s a \<equiv> the (ps_nodes s a)"

definition blen :: "pbufs \<Rightarrow> nat \<Rightarrow> nat" where
  "blen s a = unat (lp_len (node s a))"

definition pdata :: "pbufs \<Rightarrow> nat \<Rightarrow> bytes" where
  "pdata s a = slice (nat (lp_off (node s a))) (blen s a) (ps_blocks s (lp_block (node s a)))"

definition inside :: "pbufs \<Rightarrow> nat \<Rightarrow> bool" where
  "inside s a \<longleftrightarrow> 0 \<le> lp_off (node s a) \<and> lp_off (node s a) + int (blen s a) \<le> int (length (ps_blocks s (lp_block (node s a))))"

definition content :: "pbufs \<Rightarrow> nat list \<Rightarrow> bytes" where
  "content s as = concat (map (pdata s) as)"

text \<open>The invariant of \<open>tot_len\<close>.\<close>

primrec totals :: "pbufs \<Rightarrow> nat list \<Rightarrow> bool" where
  "totals s [] \<longleftrightarrow> True"
| "totals s (a # as) \<longleftrightarrow> unat (lp_tot_len (node s a)) = (\<Sum>x\<leftarrow>a # as. blen s x) \<and> totals s as"

definition packet :: "pbufs \<Rightarrow> nat option \<Rightarrow> nat list \<Rightarrow> bool" where
  "packet s p as \<longleftrightarrow> chain s p as \<and> list_all (inside s) as \<and> totals s as"

lemma chain_unique: "chain s p as \<Longrightarrow> chain s p bs \<Longrightarrow> as = bs"
proof (induction as arbitrary: p bs)
  case Nil
  then show ?case by (cases bs) auto
next
  case (Cons a as)
  then show ?case by (cases bs) auto
qed

lemma chain_suffix: "chain s p (xs @ ys) \<Longrightarrow> \<exists>q. chain s q ys"
  by (induction xs arbitrary: p) auto

lemma chain_distinct: "chain s p as \<Longrightarrow> distinct as"
proof (induction as arbitrary: p)
  case (Cons a as)
  then obtain n where n: "ps_nodes s a = Some n" "chain s (lp_next n) as" by auto
  have "a \<notin> set as"
  proof
    assume "a \<in> set as"
    then obtain xs ys where "as = xs @ a # ys" by (meson split_list)
    then have "chain s (Some a) (a # ys)" using chain_suffix [of s "lp_next n" xs "a # ys"] n(2) by auto
    moreover have "chain s (Some a) (a # as)" using n by simp
    ultimately have "a # ys = a # as" by (rule chain_unique)
    with \<open>as = xs @ a # ys\<close> show False by auto
  qed
  with n Cons.IH show ?case by simp
qed simp

lemma chain_cong: "(\<And>a. a \<in> set as \<Longrightarrow> ps_nodes s' a = ps_nodes s a) \<Longrightarrow> chain s' p as = chain s p as"
  by (induction as arbitrary: p) auto

lemma chain_nodes: "chain s p as \<Longrightarrow> a \<in> set as \<Longrightarrow> \<exists>n. ps_nodes s a = Some n"
  by (induction as arbitrary: p) auto

lemma length_pdata: "inside s a \<Longrightarrow> length (pdata s a) = blen s a"
  by (auto simp: inside_def pdata_def slice_def)

lemma length_content: "list_all (inside s) as \<Longrightarrow> length (content s as) = (\<Sum>x\<leftarrow>as. blen s x)"
  by (induction as) (simp_all add: content_def length_pdata)

lemma content_simps [simp]: "content s [] = []" "content s (a # as) = pdata s a @ content s as"
  by (simp_all add: content_def)

lemma packet_Cons:
  assumes "packet s p (a # as)"
  obtains n where "p = Some a" "ps_nodes s a = Some n" "packet s (lp_next n) as" "inside s a" "lp_len n = lp_len (node s a)"
    "unat (lp_tot_len n) = length (content s (a # as))"
  using assms length_content [of s "a # as"] by (auto simp: packet_def)

section \<open>Reading\<close>

lemma load_node:
  assumes "ps_nodes s a = Some n" "inside s a" "off + len \<le> blen s a"
  shows "load_mem n off len s = Some (slice off len (pdata s a))"
proof (cases "len = 0")
  case False
  then have "nat (lp_off n + int off) = nat (lp_off n) + off" using assms by (simp add: inside_def nat_add_distrib)
  then show ?thesis
    using assms False by (simp add: load_mem_def inside_def pdata_def slice_def take_drop min_def add.commute)
qed (simp add: load_mem_def slice_def)

lemma copy_out_content:
  assumes "packet s p as"
  shows "copy_out p len offset out s = Some (out @ take (unat len) (drop (unat offset) (content s as)))"
  using assms
proof (induction as arbitrary: p len offset out)
  case Nil
  then show ?case by (subst copy_out.simps) (simp add: packet_def)
next
  case (Cons a as)
  obtain n where n: "p = Some a" "ps_nodes s a = Some n" "packet s (lp_next n) as" "inside s a"
    by (rule packet_Cons [OF Cons.prems])
  have l: "unat (lp_len n) = blen s a" "length (pdata s a) = blen s a" using n(2) length_pdata [OF n(4)] by (simp_all add: blen_def)
  show ?case
  proof (cases "len = 0")
    case True
    then show ?thesis using n by (subst copy_out.simps) simp
  next
    case False
    show ?thesis
    proof (cases "offset \<noteq> 0 \<and> lp_len n \<le> offset")
      case True
      then have o: "unat (offset - lp_len n) = unat offset - blen s a" "blen s a \<le> unat offset"
        using l(1) by (simp_all add: unat_sub word_le_nat_alt)
      have "copy_out p len offset out s = copy_out (lp_next n) len (offset - lp_len n) out s"
        using True False n by (subst copy_out.simps) simp
      then show ?thesis using Cons.IH [OF n(3)] o l(2) by simp
    next
      case go: False
      define k where "k = min (lp_len n - offset) len"
      have o: "unat offset \<le> blen s a" "unat (lp_len n - offset) = blen s a - unat offset"
        using go l(1) by (auto simp: unat_sub word_le_nat_alt)
      have k: "unat k = min (blen s a - unat offset) (unat len)" using o by (simp add: k_def min_def word_le_nat_alt)
      have kl: "unat (len - k) = unat len - unat k" using k by (subst unat_sub) (simp_all add: word_le_nat_alt)
      have "load_mem n (unat offset) (unat k) s = Some (slice (unat offset) (unat k) (pdata s a))"
        by (rule load_node [OF n(2,4)]) (use o k in simp)
      then have "copy_out p len offset out s = copy_out (lp_next n) (len - k) 0 (out @ slice (unat offset) (unat k) (pdata s a)) s"
        using go False n by (subst copy_out.simps) (auto simp: k_def Let_def)
      then show ?thesis
        using Cons.IH [OF n(3)] k kl l(2) o by (auto simp: slice_def min_def)
    qed
  qed
qed

text \<open>On a packet this is the function of the interface's model.\<close>

lemma copy_out_netif:
  assumes "packet s p as"
  shows "copy_out p len offset [] s = Some (pbuf_copy_partial (map (pdata s) as) (unat len) (unat offset))"
  using copy_out_content [OF assms] by (simp add: pbuf_copy_partial_take content_def)

lemma skip_content:
  assumes "packet s p as"
  shows "unat off < length (content s as) \<Longrightarrow>
      \<exists>xs a ys i. as = xs @ a # ys \<and> pbuf_skip_const p off s = Some (Some a, i) \<and> unat off = length (content s xs) + unat i \<and>
        unat i < blen s a"
    "length (content s as) \<le> unat off \<Longrightarrow> pbuf_skip_const p off s = Some (None, off - of_nat (length (content s as)))"
  using assms
proof (induction as arbitrary: p off)
  case (Cons a as)
  {
    case 1
    obtain n where n: "p = Some a" "ps_nodes s a = Some n" "packet s (lp_next n) as" "inside s a" by (rule packet_Cons [OF 1(2)])
    have l: "unat (lp_len n) = blen s a" "length (pdata s a) = blen s a" using n(2) length_pdata [OF n(4)] by (simp_all add: blen_def)
    show ?case
    proof (cases "lp_len n \<le> off")
      case True
      then have o: "unat (off - lp_len n) = unat off - blen s a" "blen s a \<le> unat off"
        using l(1) by (simp_all add: unat_sub word_le_nat_alt)
      have "pbuf_skip_const p off s = pbuf_skip_const (lp_next n) (off - lp_len n) s"
        using True n by (subst pbuf_skip_const.simps) simp
      moreover have lt: "unat (off - lp_len n) < length (content s as)" using 1(1) o l(2) by simp
      moreover obtain xs b ys i where "as = xs @ b # ys" "pbuf_skip_const (lp_next n) (off - lp_len n) s = Some (Some b, i)"
        "unat (off - lp_len n) = length (content s xs) + unat i" "unat i < blen s b"
        using Cons.IH(1) [OF lt n(3)] by blast
      ultimately show ?thesis using o l(2) by (intro exI [of _ "a # xs"] exI [of _ b] exI [of _ ys] exI [of _ i]) simp
    next
      case False
      then have "pbuf_skip_const p off s = Some (Some a, off)" using n by (subst pbuf_skip_const.simps) simp
      then show ?thesis
        using False l by (intro exI [of _ "[]"] exI [of _ a] exI [of _ as] exI [of _ off]) (simp add: word_le_nat_alt)
    qed
  next
    case 2
    obtain n where n: "p = Some a" "ps_nodes s a = Some n" "packet s (lp_next n) as" "inside s a" by (rule packet_Cons [OF 2(2)])
    have l: "unat (lp_len n) = blen s a" "length (pdata s a) = blen s a" using n(2) length_pdata [OF n(4)] by (simp_all add: blen_def)
    then have le: "lp_len n \<le> off" using 2(1) by (simp add: word_le_nat_alt)
    then have "unat (off - lp_len n) = unat off - blen s a" using l(1) by (simp add: unat_sub word_le_nat_alt)
    moreover have "lp_len n = of_nat (blen s a)" using l(1) by (metis of_nat_unat ucast_id)
    ultimately show ?case using le n Cons.IH(2) [OF _ n(3), of "off - lp_len n"] 2(1) l
      by (subst pbuf_skip_const.simps) (simp add: algebra_simps)
  }
qed (auto simp: packet_def pbuf_skip_const.simps)

lemma packet_nth: "packet s p as \<Longrightarrow> a \<in> set as \<Longrightarrow> inside s a \<and> (\<exists>n. ps_nodes s a = Some n)"
  using chain_nodes by (auto simp: packet_def list_all_iff)

lemma try_get_content:
  assumes "packet s p as"
  shows "pbuf_try_get_at p off s =
    Some (if unat off < length (content s as) then Some (content s as ! unat off) else None)"
proof (cases "unat off < length (content s as)")
  case True
  then obtain xs a ys i where i: "as = xs @ a # ys" "pbuf_skip_const p off s = Some (Some a, i)"
    "unat off = length (content s xs) + unat i" "unat i < blen s a"
    using skip_content(1) [OF assms] by blast
  obtain n where n: "inside s a" "ps_nodes s a = Some n" using packet_nth [OF assms, of a] i(1) by auto
  have l: "unat (lp_len n) = blen s a" "length (pdata s a) = blen s a" using n length_pdata [OF n(1)] by (simp_all add: blen_def)
  have "load_mem n (unat i) 1 s = Some (slice (unat i) 1 (pdata s a))" by (rule load_node [OF n(2,1)]) (use i in simp)
  moreover have "hd (slice (unat i) 1 (pdata s a)) = pdata s a ! unat i" using i(4) l(2) by (simp add: slice_def hd_drop_conv_nth)
  moreover have "content s as ! unat off = pdata s a ! unat i"
    using i l(2) by (simp add: content_def nth_append)
  ultimately show ?thesis using True i n l by (simp add: pbuf_try_get_at_def word_less_nat_alt)
next
  case False
  then show ?thesis using skip_content(2) [OF assms, of off] by (simp add: pbuf_try_get_at_def)
qed

section \<open>Freeing\<close>

text \<open>The node came from one of the three sources, or is a custom one.\<close>

definition known_source :: "lpbuf \<Rightarrow> bool" where
  "known_source n \<longleftrightarrow> lp_flags n AND PBUF_FLAG_IS_CUSTOM \<noteq> 0 \<or>
     pbuf_get_allocsrc n \<in> {ALLOC_SRC_HEAP, ALLOC_SRC_MEMP_PBUF, ALLOC_SRC_MEMP_PBUF_POOL}"

definition from_pool :: "lpbuf \<Rightarrow> bool" where
  "from_pool n \<longleftrightarrow> lp_flags n AND PBUF_FLAG_IS_CUSTOM = 0 \<and> pbuf_get_allocsrc n = ALLOC_SRC_MEMP_PBUF_POOL"

lemma dealloc_known:
  "known_source n \<Longrightarrow> ps_nodes (pbuf_dealloc a n s) = (ps_nodes s)(a := None)"
  "ps_blocks (pbuf_dealloc a n s) = ps_blocks s"
  "ps_pool (pbuf_dealloc a n s) = (if from_pool n then [a] else []) @ ps_pool s"
  by (auto simp: pbuf_dealloc_def known_source_def from_pool_def)

text \<open>A chain loses one reference: the pbufs in front that nobody else holds are given back, the first other one keeps its place
  with one reference less.\<close>

lemma free_loop_exact:
  assumes "chain s p (xs @ ys)" "list_all (\<lambda>a. lp_ref (node s a) = 1 \<and> known_source (node s a)) xs"
    "ys \<noteq> [] \<longrightarrow> lp_ref (node s (hd ys)) \<noteq> 1"
  shows "\<exists>s'. free_loop p c s = Some (s', c + of_nat (length xs)) \<and> ps_blocks s' = ps_blocks s \<and>
    ps_pool s' = rev (filter (\<lambda>a. from_pool (node s a)) xs) @ ps_pool s \<and>
    ps_nodes s' = (\<lambda>a. if a \<in> set xs then None
      else if ys \<noteq> [] \<and> a = hd ys then Some ((node s a)\<lparr>lp_ref := lp_ref (node s a) - 1\<rparr>) else ps_nodes s a)"
  using assms
proof (induction xs arbitrary: p c s)
  case Nil
  show ?case
  proof (cases ys)
    case Nil
    with Nil.prems show ?thesis by (subst free_loop.simps) simp
  next
    case (Cons b bs)
    with Nil.prems obtain n where n: "p = Some b" "ps_nodes s b = Some n" "lp_ref n \<noteq> 1" by auto
    then have "lp_ref n - 1 \<noteq> 0" by simp
    with n Cons show ?thesis by (subst free_loop.simps) (auto simp: Let_def put_node_def fun_eq_iff)
  qed
next
  case (Cons a xs)
  have d: "a \<notin> set xs" "a \<notin> set ys" using chain_distinct [OF Cons.prems(1)] by simp_all
  obtain n where n: "p = Some a" "ps_nodes s a = Some n" "chain s (lp_next n) (xs @ ys)" "lp_ref n = 1" "known_source n"
    using Cons.prems by auto
  define v where "v = pbuf_dealloc a (n\<lparr>lp_ref := 0\<rparr>) (put_node a (n\<lparr>lp_ref := 0\<rparr>) s)"
  have k: "known_source (n\<lparr>lp_ref := 0\<rparr>)" "from_pool (n\<lparr>lp_ref := 0\<rparr>) = from_pool n"
    using n(5) by (simp_all add: known_source_def from_pool_def pbuf_get_allocsrc_def)
  have v: "ps_nodes v = (ps_nodes s)(a := None)" "ps_blocks v = ps_blocks s"
    "ps_pool v = (if from_pool n then [a] else []) @ ps_pool s"
    unfolding v_def dealloc_known(1) [OF k(1)] dealloc_known(2,3) k(2) by (simp_all add: put_node_def)
  have same: "ps_nodes v b = ps_nodes s b" if "b \<in> set (xs @ ys)" for b using that d v(1) by auto
  have "chain v (lp_next n) (xs @ ys)" using n(3) chain_cong [of "xs @ ys" v s "lp_next n"] same by simp
  moreover have "list_all (\<lambda>a. lp_ref (node v a) = 1 \<and> known_source (node v a)) xs"
    using Cons.prems(2) same by (auto simp: list_all_iff)
  moreover have "ys \<noteq> [] \<longrightarrow> lp_ref (node v (hd ys)) \<noteq> 1" using Cons.prems(3) same by auto
  ultimately obtain s' where s': "free_loop (lp_next n) (c + 1) v = Some (s', c + 1 + of_nat (length xs))"
    "ps_blocks s' = ps_blocks v" "ps_pool s' = rev (filter (\<lambda>a. from_pool (node v a)) xs) @ ps_pool v"
    "ps_nodes s' = (\<lambda>a. if a \<in> set xs then None
      else if ys \<noteq> [] \<and> a = hd ys then Some ((node v a)\<lparr>lp_ref := lp_ref (node v a) - 1\<rparr>) else ps_nodes v a)"
    using Cons.IH by blast
  have f: "filter (\<lambda>a. from_pool (node v a)) xs = filter (\<lambda>a. from_pool (node s a)) xs" using same by (intro filter_cong) auto
  have "free_loop p c s = free_loop (lp_next n) (c + 1) v"
    using n by (subst free_loop.simps) (simp add: Let_def v_def)
  then show ?case
    using s' v n d same f by (auto simp: fun_eq_iff add_ac)
qed

section \<open>Writing\<close>

abbreviation blk :: "pbufs \<Rightarrow> nat \<Rightarrow> nat" where
  "blk s a \<equiv> lp_block (node s a)"

lemma pdata_frame: "ps_nodes s' = ps_nodes s \<Longrightarrow> ps_blocks s' (blk s a) = ps_blocks s (blk s a) \<Longrightarrow> pdata s' a = pdata s a"
  by (simp add: pdata_def blen_def)

lemma blocks_only: "s' = s\<lparr>ps_blocks := b\<rparr> \<Longrightarrow> ps_nodes s' = ps_nodes s"
  by simp

lemma blocks_trans: "s1 = s\<lparr>ps_blocks := b\<rparr> \<Longrightarrow> s' = s1\<lparr>ps_blocks := c\<rparr> \<Longrightarrow> s' = s\<lparr>ps_blocks := c\<rparr>"
  by simp

lemma packet_frame:
  assumes "packet s p as" "ps_nodes s' = ps_nodes s" "\<And>b. length (ps_blocks s' b) = length (ps_blocks s b)"
  shows "packet s' p as"
proof -
  have "inside s' = inside s" using assms(2,3) by (simp add: inside_def blen_def fun_eq_iff)
  moreover have "totals s' as = totals s as" using assms(2) by (induction as) (simp_all add: blen_def)
  moreover have "chain s' p as = chain s p as" using assms(2) by (intro chain_cong) simp
  ultimately show ?thesis using assms(1) by (simp add: packet_def)
qed

lemma store_node:
  assumes "ps_nodes s a = Some n" "inside s a" "off + length d \<le> blen s a"
  obtains s1 where "store_mem n off d s = Some s1" "s1 = s\<lparr>ps_blocks := ps_blocks s1\<rparr>"
    "\<And>b. length (ps_blocks s1 b) = length (ps_blocks s b)" "\<And>b. b \<noteq> lp_block n \<Longrightarrow> ps_blocks s1 b = ps_blocks s b"
    "pdata s1 a = patch off d (pdata s a)"
proof (cases "d = []")
  case True
  then show ?thesis using that [of s] by (simp add: store_mem_def patch_def)
next
  case False
  let ?i = "nat (lp_off n)" and ?b = "ps_blocks s (lp_block n)"
  have z: "0 \<le> lp_off n" "lp_off n + int (blen s a) \<le> int (length ?b)" using assms(1,2) by (simp_all add: inside_def)
  have i: "nat (lp_off n + int off) = ?i + off" "?i + blen s a \<le> length ?b" using z by linarith+
  define s1 where "s1 = s\<lparr>ps_blocks := (ps_blocks s)(lp_block n := patch (?i + off) d ?b)\<rparr>"
  have "store_mem n off d s = Some s1" using False assms(3) i z by (simp add: store_mem_def s1_def)
  moreover have "length (patch (?i + off) d ?b) = length ?b" using i(2) assms(3) by (simp add: patch_def)
  moreover have "pdata s1 a = patch off d (pdata s a)"
  proof -
    have "slice ?i (blen s a) (patch (?i + off) d ?b) = patch off d (slice ?i (blen s a) ?b)"
      using i(2) assms(3) by (intro nth_equalityI) (auto simp: slice_def patch_def nth_append)
    then show ?thesis using assms(1) by (simp add: pdata_def s1_def blen_def)
  qed
  ultimately show ?thesis using that [of s1] by (auto simp: s1_def)
qed

text \<open>The pbufs of the chain have memory of their own.\<close>

definition separate :: "pbufs \<Rightarrow> nat list \<Rightarrow> bool" where
  "separate s as \<longleftrightarrow> distinct (map (blk s) as)"

lemma take_loop_content:
  assumes "packet s p as" "separate s as" "length d \<le> length (content s as)"
  shows "\<exists>s'. take_loop p d s = Some s' \<and> s' = s\<lparr>ps_blocks := ps_blocks s'\<rparr> \<and>
    (\<forall>b. length (ps_blocks s' b) = length (ps_blocks s b)) \<and> (\<forall>b. b \<notin> blk s ` set as \<longrightarrow> ps_blocks s' b = ps_blocks s b) \<and>
    content s' as = d @ drop (length d) (content s as)"
  using assms
proof (induction as arbitrary: p d s)
  case Nil
  then show ?case by (subst take_loop.simps) simp
next
  case (Cons a as)
  obtain n where n: "p = Some a" "ps_nodes s a = Some n" "packet s (lp_next n) as" "inside s a" by (rule packet_Cons [OF Cons.prems(1)])
  have l: "unat (lp_len n) = blen s a" "length (pdata s a) = blen s a" using n(2) length_pdata [OF n(4)] by (simp_all add: blen_def)
  show ?case
  proof (cases "d = []")
    case True
    then show ?thesis by (subst take_loop.simps) simp
  next
    case False
    define k where "k = min (length d) (blen s a)"
    obtain s1 where s1: "store_mem n 0 (take k d) s = Some s1" "s1 = s\<lparr>ps_blocks := ps_blocks s1\<rparr>"
      "\<And>b. length (ps_blocks s1 b) = length (ps_blocks s b)" "\<And>b. b \<noteq> lp_block n \<Longrightarrow> ps_blocks s1 b = ps_blocks s b"
      "pdata s1 a = patch 0 (take k d) (pdata s a)"
      by (rule store_node [OF n(2,4), of 0 "take k d"]) (auto simp: k_def)
    have nodes: "ps_nodes s1 = ps_nodes s" by (rule blocks_only [OF s1(2)])
    have other: "lp_block n \<notin> blk s ` set as" using Cons.prems(2) n(2) by (simp add: separate_def)
    have "pdata s1 x = pdata s x" if "x \<in> set as" for x by (rule pdata_frame [OF nodes s1(4)]) (metis other that image_eqI)
    then have c1: "content s1 as = content s as" unfolding content_def by (metis map_cong)
    have p1: "packet s1 (lp_next n) as" by (rule packet_frame [OF n(3) nodes s1(3)])
    have p2: "separate s1 as" using Cons.prems(2) nodes by (simp add: separate_def)
    have p3: "length (drop k d) \<le> length (content s1 as)" using Cons.prems(3) l(2) c1 by (simp add: k_def)
    from Cons.IH [OF p1 p2 p3] obtain s' where s': "take_loop (lp_next n) (drop k d) s1 = Some s'" "s' = s1\<lparr>ps_blocks := ps_blocks s'\<rparr>"
      "\<forall>b. length (ps_blocks s' b) = length (ps_blocks s1 b)" "\<forall>b. b \<notin> blk s1 ` set as \<longrightarrow> ps_blocks s' b = ps_blocks s1 b"
      "content s' as = drop k d @ drop (length (drop k d)) (content s1 as)"
      by (elim exE conjE)
    have nodes': "ps_nodes s' = ps_nodes s1" by (rule blocks_only [OF s'(2)])
    have "ps_blocks s' (blk s1 a) = ps_blocks s1 (blk s1 a)" using s'(4) other n(2) nodes by simp
    then have "pdata s' a = take k d @ drop k (pdata s a)"
      using pdata_frame [OF nodes'] s1(5) by (simp add: patch_def k_def)
    then have "content s' (a # as) = d @ drop (length d) (content s (a # as))"
      using s'(5) l(2) c1 by (auto simp: k_def min_def)
    moreover have "take_loop p d s = Some s'" using False n s1(1) s'(1) l(1) by (subst take_loop.simps) (simp add: k_def Let_def)
    moreover have "s' = s\<lparr>ps_blocks := ps_blocks s'\<rparr>" by (rule blocks_trans [OF s1(2) s'(2)])
    moreover have "\<forall>b. length (ps_blocks s' b) = length (ps_blocks s b)" using s1(3) s'(3) by simp
    moreover have "\<forall>b. b \<notin> blk s ` set (a # as) \<longrightarrow> ps_blocks s' b = ps_blocks s b"
      using s1(4) s'(4) n(2) nodes by auto
    ultimately show ?thesis by blast
  qed
qed

section \<open>The pool\<close>

text \<open>A pool pbuf as \<open>pbuf_alloc\<close> leaves it.\<close>

definition fresh_pool :: "pbufs \<Rightarrow> nat \<Rightarrow> bool" where
  "fresh_pool s a \<longleftrightarrow> (\<exists>n. ps_nodes s a = Some n \<and> lp_block n = a \<and> lp_type n = type_internal PBUF_POOL \<and> lp_flags n = 0 \<and> lp_ref n = 1) \<and>
     inside s a"

primrec totals_plus :: "pbufs \<Rightarrow> nat \<Rightarrow> nat list \<Rightarrow> bool" where
  "totals_plus s r [] \<longleftrightarrow> True"
| "totals_plus s r (a # as) \<longleftrightarrow> unat (lp_tot_len (node s a)) = (\<Sum>x\<leftarrow>a # as. blen s x) + r \<and> totals_plus s r as"

lemma totals_plus_0: "totals_plus s 0 as = totals s as"
  by (induction as) simp_all

lemma totals_plus_snoc:
  "totals_plus s (blen s q + r) as \<Longrightarrow> unat (lp_tot_len (node s q)) = blen s q + r \<Longrightarrow> totals_plus s r (as @ [q])"
  by (induction as) simp_all

lemma totals_plus_cong:
  "(\<And>a. a \<in> set as \<Longrightarrow> lp_tot_len (node s' a) = lp_tot_len (node s a) \<and> lp_len (node s' a) = lp_len (node s a)) \<Longrightarrow>
   totals_plus s' r as = totals_plus s r as"
proof (induction as)
  case (Cons a as)
  then have "map (blen s') as = map (blen s) as" "blen s' a = blen s a" "lp_tot_len (node s' a) = lp_tot_len (node s a)"
    by (simp_all add: blen_def)
  moreover have "totals_plus s' r as = totals_plus s r as" using Cons by simp
  ultimately show ?case by (simp only: totals_plus.simps list.map sum_list.Cons)
qed simp

lemma chain_snoc:
  assumes "chain s p xs" "xs \<noteq> []" "q \<notin> set xs" "ps_nodes s q = Some m" "lp_next m = None"
  shows "chain (put_node (last xs) ((node s (last xs))\<lparr>lp_next := Some q\<rparr>) s) p (xs @ [q])"
  using assms(1-3)
proof (induction xs arbitrary: p)
  case (Cons a xs)
  obtain n where n: "p = Some a" "ps_nodes s a = Some n" "chain s (lp_next n) xs" using Cons.prems(1) by auto
  have d: "a \<notin> set xs" using chain_distinct [OF Cons.prems(1)] by simp
  show ?case
  proof (cases "xs = []")
    case True
    then show ?thesis using n Cons.prems(3) assms(4,5) by (simp add: put_node_def)
  next
    case False
    then have "a \<noteq> last xs" using d by auto
    then show ?thesis using Cons.IH [OF n(3) False] Cons.prems(3) n False by (simp add: put_node_def)
  qed
qed simp

text \<open>The chain of the allocation loop: what is built so far of a packet of \<open>len\<close> bytes, with \<open>r\<close> bytes still to come.\<close>

definition building :: "nat \<Rightarrow> pbufs \<Rightarrow> nat list \<Rightarrow> nat \<Rightarrow> bool" where
  "building len s xs r \<longleftrightarrow> chain s (if xs = [] then None else Some (hd xs)) xs \<and> list_all (fresh_pool s) xs \<and> totals_plus s r xs \<and>
     (\<Sum>x\<leftarrow>xs. blen s x) + r = len"

definition pool_ok :: "pbufs \<Rightarrow> bool" where
  "pool_ok s \<longleftrightarrow> distinct (ps_pool s) \<and>
     list_all (\<lambda>a. ps_nodes s a = None \<and> length (ps_blocks s a) = PBUF_POOL_BUFSIZE_ALIGNED) (ps_pool s)"

lemma fresh_pool_cong:
  "ps_nodes s' a = Some (n\<lparr>lp_next := x\<rparr>) \<Longrightarrow> ps_nodes s a = Some n \<Longrightarrow> ps_blocks s' = ps_blocks s \<Longrightarrow> fresh_pool s' a = fresh_pool s a"
  by (simp add: fresh_pool_def inside_def blen_def)

lemma fresh_pool_same: "ps_nodes s' a = ps_nodes s a \<Longrightarrow> ps_blocks s' = ps_blocks s \<Longrightarrow> fresh_pool s' a = fresh_pool s a"
  by (simp add: fresh_pool_def inside_def blen_def)

lemma building_same: "ps_nodes s' = ps_nodes s \<Longrightarrow> ps_blocks s' = ps_blocks s \<Longrightarrow> building len s' xs r = building len s xs r"
  unfolding building_def blen_def
  by (intro arg_cong2 [where f = conj] chain_cong totals_plus_cong arg_cong2 [where f = list_all] ext fresh_pool_same refl) simp_all

lemma building_step:
  assumes b: "building len s xs (unat rem_len)" and q: "q \<notin> set xs" "length (ps_blocks s q) = PBUF_POOL_BUFSIZE_ALIGNED"
    and k: "unat qlen \<le> unat rem_len" "off + unat qlen \<le> PBUF_POOL_BUFSIZE_ALIGNED"
  defines "m \<equiv> \<lparr>lp_next = None, lp_block = q, lp_off = int off, lp_tot_len = rem_len, lp_len = qlen,
     lp_type = type_internal PBUF_POOL, lp_flags = 0, lp_ref = 1\<rparr>"
  defines "v \<equiv> put_node q m s"
  defines "s' \<equiv> (if xs = [] then v else put_node (last xs) ((node v (last xs))\<lparr>lp_next := Some q\<rparr>) v)"
  shows "building len s' (xs @ [q]) (unat (rem_len - qlen))" "ps_blocks s' = ps_blocks s"
    "\<And>a. a \<notin> set xs \<Longrightarrow> a \<noteq> q \<Longrightarrow> ps_nodes s' a = ps_nodes s a"
proof -
  have vq: "ps_nodes v q = Some m" "ps_blocks v = ps_blocks s" by (simp_all add: v_def put_node_def)
  have vx: "ps_nodes v a = ps_nodes s a" if "a \<in> set xs" for a using that q(1) by (auto simp: v_def put_node_def)
  have nodes: "\<exists>n x. ps_nodes s a = Some n \<and> ps_nodes s' a = Some (n\<lparr>lp_next := x\<rparr>)" if ax: "a \<in> set xs" for a
  proof -
    obtain n where n: "ps_nodes s a = Some n"
      using b ax chain_nodes [of s "if xs = [] then None else Some (hd xs)" xs a] by (auto simp: building_def)
    show ?thesis
    proof (cases "a = last xs")
      case True
      then have "ps_nodes s' a = Some (n\<lparr>lp_next := Some q\<rparr>)" using ax n vx by (auto simp: s'_def put_node_def)
      then show ?thesis using n by blast
    next
      case False
      then have "ps_nodes s' a = Some (n\<lparr>lp_next := lp_next n\<rparr>)" using ax n vx by (auto simp: s'_def put_node_def)
      then show ?thesis using n by blast
    qed
  qed
  have s'q: "ps_nodes s' q = Some m" using vq(1) q(1) by (auto simp: s'_def put_node_def)
  show blocks: "ps_blocks s' = ps_blocks s" using vq(2) by (simp add: s'_def put_node_def)
  show "\<And>a. a \<notin> set xs \<Longrightarrow> a \<noteq> q \<Longrightarrow> ps_nodes s' a = ps_nodes s a" by (auto simp: s'_def v_def put_node_def)
  have "chain s' (Some (hd (xs @ [q]))) (xs @ [q])"
  proof (cases "xs = []")
    case True
    then show ?thesis using s'q by (simp add: m_def)
  next
    case False
    then have "chain v (Some (hd xs)) xs" using b vx chain_cong [of xs v s] by (simp add: building_def)
    from chain_snoc [OF this False q(1) vq(1)] False show ?thesis by (simp add: s'_def m_def)
  qed
  moreover have "fresh_pool s' q"
  proof -
    have "int (off + unat qlen) \<le> int PBUF_POOL_BUFSIZE_ALIGNED" using k(2) by (simp only: of_nat_le_iff)
    then show ?thesis using s'q q(2) blocks by (simp add: fresh_pool_def inside_def blen_def m_def)
  qed
  moreover have "list_all (fresh_pool s') xs"
    using b nodes blocks by (auto simp: building_def list_all_iff dest!: fresh_pool_cong)
  moreover have r: "unat (rem_len - qlen) = unat rem_len - unat qlen" using k(1) by (subst unat_sub) (simp_all add: word_le_nat_alt)
  moreover have bq: "blen s' q = unat qlen" using s'q by (simp add: blen_def m_def)
  moreover have "(\<Sum>x\<leftarrow>xs. blen s' x) = (\<Sum>x\<leftarrow>xs. blen s x)" using nodes by (intro arg_cong [where f = sum_list] map_cong refl) (fastforce simp: blen_def)
  moreover have "totals_plus s' (unat (rem_len - qlen)) (xs @ [q])"
  proof (rule totals_plus_snoc)
    have "totals_plus s' (unat rem_len) xs = totals_plus s (unat rem_len) xs"
      using nodes by (intro totals_plus_cong) fastforce
    then show "totals_plus s' (blen s' q + unat (rem_len - qlen)) xs" using b r bq k(1) by (simp add: building_def)
    show "unat (lp_tot_len (node s' q)) = blen s' q + unat (rem_len - qlen)" using s'q r bq k(1) by (simp add: m_def)
  qed
  ultimately show "building len s' (xs @ [q]) (unat (rem_len - qlen))" using b k(1) by (simp add: building_def)
qed

lemma fresh_source: "fresh_pool s a \<Longrightarrow> lp_ref (node s a) = 1 \<and> known_source (node s a) \<and> from_pool (node s a)"
  by (auto simp: fresh_pool_def known_source_def from_pool_def pbuf_get_allocsrc_def)

lemma free_fresh:
  assumes "chain s p xs" "list_all (fresh_pool s) xs"
  obtains s' where "pbuf_free p s = Some (s', of_nat (length xs))" "ps_blocks s' = ps_blocks s" "ps_pool s' = rev xs @ ps_pool s"
    "ps_nodes s' = (\<lambda>a. if a \<in> set xs then None else ps_nodes s a)"
proof -
  have "list_all (\<lambda>a. lp_ref (node s a) = 1 \<and> known_source (node s a)) xs" "filter (\<lambda>a. from_pool (node s a)) xs = xs"
    using assms(2) fresh_source by (auto simp: list_all_iff filter_id_conv)
  with free_loop_exact [of s p xs "[]" 0] assms(1) obtain s' where s': "free_loop p 0 s = Some (s', 0 + of_nat (length xs))"
    "ps_blocks s' = ps_blocks s" "ps_pool s' = rev xs @ ps_pool s"
    "ps_nodes s' = (\<lambda>a. if a \<in> set xs then None else if [] \<noteq> [] \<and> a = hd [] then
       Some ((node s a)\<lparr>lp_ref := lp_ref (node s a) - 1\<rparr>) else ps_nodes s a)"
    by (metis append_Nil2)
  have "ps_nodes s' = (\<lambda>a. if a \<in> set xs then None else ps_nodes s a)" using s'(4) by (simp add: fun_eq_iff)
  then show ?thesis using that [of s'] s'(1-3) by (simp add: pbuf_free_def)
qed

text \<open>What \<open>free\<close> pool elements can hold, the first behind a header room of \<open>off\<close> bytes.\<close>

definition pool_room :: "nat \<Rightarrow> nat \<Rightarrow> nat" where
  "pool_room off n = n * PBUF_POOL_BUFSIZE_ALIGNED - LWIP_MEM_ALIGN_SIZE off"

lemma pool_room_step:
  assumes "LWIP_MEM_ALIGN_SIZE off < PBUF_POOL_BUFSIZE_ALIGNED" "PBUF_POOL_BUFSIZE_ALIGNED - LWIP_MEM_ALIGN_SIZE off < r"
  shows "0 < n \<and> r - (PBUF_POOL_BUFSIZE_ALIGNED - LWIP_MEM_ALIGN_SIZE off) \<le> pool_room 0 n \<longleftrightarrow> r \<le> pool_room off (Suc n)"
  using assms by (cases n) (simp_all add: pool_room_def LWIP_MEM_ALIGN_SIZE_def [of 0], linarith+)

text \<open>The pool ran dry: what was built is freed again.\<close>

lemma alloc_pool_dry:
  assumes "building len s xs r" "ps_pool s = []" "distinct xs"
  shows "\<exists>s'. alloc_pool [] (if xs = [] then None else Some (hd xs)) prev rem_len off s = Some (s', None) \<and> ps_blocks s' = ps_blocks s \<and>
    set (ps_pool s') = set xs \<and> distinct (ps_pool s') \<and> ps_nodes s' = (\<lambda>a. if a \<in> set xs then None else ps_nodes s a)"
proof -
  define v where "v = pbuf_pool_is_empty s"
  have v: "ps_nodes v = ps_nodes s" "ps_blocks v = ps_blocks s" "ps_pool v = ps_pool s" by (simp_all add: v_def pbuf_pool_is_empty_def)
  show ?thesis
  proof (cases "xs = []")
    case True
    then have "alloc_pool [] (if xs = [] then None else Some (hd xs)) prev rem_len off s = Some (v, None)"
      by (simp add: v_def Let_def)
    then show ?thesis using True assms(2) v by (intro exI [of _ v] conjI) simp_all
  next
    case False
    have "building len v xs r" using assms(1) building_same [OF v(1,2)] by simp
    then have "chain v (Some (hd xs)) xs" "list_all (fresh_pool v) xs" using False by (simp_all add: building_def)
    then obtain s' where s': "pbuf_free (Some (hd xs)) v = Some (s', of_nat (length xs))" "ps_blocks s' = ps_blocks v"
      "ps_pool s' = rev xs @ ps_pool v" "ps_nodes s' = (\<lambda>a. if a \<in> set xs then None else ps_nodes v a)"
      by (rule free_fresh)
    have "alloc_pool [] (if xs = [] then None else Some (hd xs)) prev rem_len off s = Some (s', None)"
      using s'(1) False by (simp add: v_def Let_def)
    then show ?thesis using assms(2,3) v(2,3) s'(2,3) s'(4) [unfolded v(1)] by (intro exI [of _ s'] conjI) simp_all
  qed
qed

lemma alloc_pool_result:
  assumes "building len s xs (unat rem_len)" "ps_pool s = free" "distinct (xs @ free)" "xs \<noteq> [] \<longrightarrow> 0 < rem_len"
    "list_all (\<lambda>a. ps_nodes s a = None \<and> length (ps_blocks s a) = PBUF_POOL_BUFSIZE_ALIGNED) free"
    "LWIP_MEM_ALIGN_SIZE off < PBUF_POOL_BUFSIZE_ALIGNED"
  shows "\<exists>s' r. alloc_pool free (if xs = [] then None else Some (hd xs)) (if xs = [] then None else Some (last xs)) rem_len off s = Some (s', r) \<and>
    ps_blocks s' = ps_blocks s \<and>
    (if free \<noteq> [] \<and> unat rem_len \<le> pool_room off (length free)
     then \<exists>ys. r = Some (hd (xs @ ys)) \<and> ys \<noteq> [] \<and> free = ys @ ps_pool s' \<and> building len s' (xs @ ys) 0 \<and>
       (\<forall>a. a \<notin> set (xs @ ys) \<longrightarrow> ps_nodes s' a = ps_nodes s a)
     else r = None \<and> set (ps_pool s') = set (xs @ free) \<and> distinct (ps_pool s') \<and>
       ps_nodes s' = (\<lambda>a. if a \<in> set xs then None else ps_nodes s a))"
  using assms
proof (induction free arbitrary: s xs rem_len off)
  case Nil
  then have "distinct xs" by simp
  from alloc_pool_dry [OF Nil.prems(1,2) this, of "if xs = [] then None else Some (last xs)" rem_len off] obtain s' where
    "alloc_pool [] (if xs = [] then None else Some (hd xs)) (if xs = [] then None else Some (last xs)) rem_len off s = Some (s', None)"
    "ps_blocks s' = ps_blocks s" "set (ps_pool s') = set xs" "distinct (ps_pool s')"
    "ps_nodes s' = (\<lambda>a. if a \<in> set xs then None else ps_nodes s a)"
    by (elim exE conjE)
  then show ?case by (intro exI [of _ s'] exI [of _ None]) simp
next
  case (Cons q free)
  define qlen where "qlen = min rem_len (of_nat (PBUF_POOL_BUFSIZE_ALIGNED - LWIP_MEM_ALIGN_SIZE off))"
  define w where "w = s\<lparr>ps_pool := free\<rparr>"
  define m where "m = \<lparr>lp_next = None, lp_block = q, lp_off = int (LWIP_MEM_ALIGN_SIZE off), lp_tot_len = rem_len, lp_len = qlen,
     lp_type = type_internal PBUF_POOL, lp_flags = 0, lp_ref = 1\<rparr>"
  define v where "v = put_node q m w"
  define s1 where "s1 = (if xs = [] then v else put_node (last xs) ((node v (last xs))\<lparr>lp_next := Some q\<rparr>) v)"
  have cap: "unat (of_nat (PBUF_POOL_BUFSIZE_ALIGNED - LWIP_MEM_ALIGN_SIZE off) :: u16) = PBUF_POOL_BUFSIZE_ALIGNED - LWIP_MEM_ALIGN_SIZE off"
    by (simp add: unat_of_nat PBUF_POOL_BUFSIZE_ALIGNED_def LWIP_MEM_ALIGN_SIZE_def)
  then have ql: "unat qlen = min (unat rem_len) (PBUF_POOL_BUFSIZE_ALIGNED - LWIP_MEM_ALIGN_SIZE off)"
    by (simp add: qlen_def min_def word_le_nat_alt)
  have "building len w xs (unat rem_len)"
    using Cons.prems(1) building_same [of w s] by (simp add: w_def)
  note b = building_step [OF this, of q qlen "LWIP_MEM_ALIGN_SIZE off", folded m_def, folded v_def, folded s1_def]
  have b1: "building len s1 (xs @ [q]) (unat (rem_len - qlen))" "ps_blocks s1 = ps_blocks s"
    "\<And>a. a \<notin> set xs \<Longrightarrow> a \<noteq> q \<Longrightarrow> ps_nodes s1 a = ps_nodes s a"
    using b Cons.prems(3,5,6) ql by (auto simp: w_def)
  have p1: "ps_pool s1 = free" by (simp add: s1_def v_def w_def put_node_def)
  have last: "\<exists>n. ps_nodes v (last xs) = Some n" if "xs \<noteq> []"
    using Cons.prems(1,3) that chain_nodes [of s "Some (hd xs)" xs "last xs"] by (auto simp: building_def v_def w_def put_node_def)
  have step: "alloc_pool (q # free) (if xs = [] then None else Some (hd xs)) (if xs = [] then None else Some (last xs)) rem_len off s =
      (if rem_len - qlen > 0 then alloc_pool free (Some (hd (xs @ [q]))) (Some q) (rem_len - qlen) 0 s1
       else Some (s1, Some (hd (xs @ [q]))))"
    using last by (auto simp: Let_def w_def [symmetric] qlen_def [symmetric] pbuf_init_alloced_pbuf_def m_def [symmetric]
      v_def [symmetric] s1_def simp del: type_internal.simps)
  show ?case
  proof (cases "rem_len - qlen = 0")
    case True
    have "unat rem_len \<le> pool_room off (length (q # free))"
    proof -
      have "unat rem_len = unat qlen" using True by simp
      then show ?thesis using ql Cons.prems(6) by (simp add: pool_room_def)
    qed
    moreover have "building len s1 (xs @ [q]) 0" using b1(1) True by simp
    ultimately show ?thesis using step True b1(2,3) p1 by (auto intro!: exI [of _ "[q]"])
  next
    case False
    then have gt: "rem_len - qlen > 0" by (simp only: word_neq_0_conv)
    have r: "unat (rem_len - qlen) = unat rem_len - unat qlen" using ql by (subst unat_sub) (simp_all add: word_le_nat_alt)
    have room: "free \<noteq> [] \<and> unat (rem_len - qlen) \<le> pool_room 0 (length free) \<longleftrightarrow> unat rem_len \<le> pool_room off (length (q # free))"
      using pool_room_step [OF Cons.prems(6), of "unat rem_len" "length free"] False ql r
      by (auto simp: min_def word_unat_eq_iff split: if_splits)
    have d: "distinct ((xs @ [q]) @ free)" using Cons.prems(3) by auto
    have "a \<notin> set xs \<and> a \<noteq> q" if "a \<in> set free" for a using d that by auto
    then have l: "list_all (\<lambda>a. ps_nodes s1 a = None \<and> length (ps_blocks s1 a) = PBUF_POOL_BUFSIZE_ALIGNED) free"
      using Cons.prems(5) b1(2,3) by (simp add: list_all_iff)
    have z: "LWIP_MEM_ALIGN_SIZE 0 < PBUF_POOL_BUFSIZE_ALIGNED" by (simp add: PBUF_POOL_BUFSIZE_ALIGNED_def LWIP_MEM_ALIGN_SIZE_def)
    have g: "xs @ [q] \<noteq> [] \<longrightarrow> 0 < rem_len - qlen" using gt by (rule impI)
    have nz: "(xs @ [q] = []) = False" by simp
    obtain s' r where s': "alloc_pool free (Some (hd (xs @ [q]))) (Some q) (rem_len - qlen) 0 s1 = Some (s', r)" "ps_blocks s' = ps_blocks s1"
      "if free \<noteq> [] \<and> unat (rem_len - qlen) \<le> pool_room 0 (length free)
       then \<exists>ys. r = Some (hd ((xs @ [q]) @ ys)) \<and> ys \<noteq> [] \<and> free = ys @ ps_pool s' \<and> building len s' ((xs @ [q]) @ ys) 0 \<and>
         (\<forall>a. a \<notin> set ((xs @ [q]) @ ys) \<longrightarrow> ps_nodes s' a = ps_nodes s1 a)
       else r = None \<and> set (ps_pool s') = set ((xs @ [q]) @ free) \<and> distinct (ps_pool s') \<and>
         ps_nodes s' = (\<lambda>a. if a \<in> set (xs @ [q]) then None else ps_nodes s1 a)"
      using Cons.IH [OF b1(1) p1 d g l z, unfolded nz if_False last_snoc] by (elim exE conjE)
    have e: "alloc_pool (q # free) (if xs = [] then None else Some (hd xs)) (if xs = [] then None else Some (last xs)) rem_len off s = Some (s', r)"
      using step gt s'(1) by simp
    show ?thesis
    proof (cases "unat rem_len \<le> pool_room off (length (q # free))")
      case True
      then obtain ys where ys: "r = Some (hd ((xs @ [q]) @ ys))" "free = ys @ ps_pool s'" "building len s' ((xs @ [q]) @ ys) 0"
         "\<forall>a. a \<notin> set ((xs @ [q]) @ ys) \<longrightarrow> ps_nodes s' a = ps_nodes s1 a"
        using s'(3) room by auto
      have "ps_nodes s' a = ps_nodes s a" if "a \<notin> set (xs @ q # ys)" for a using ys(4) b1(3) [of a] that by simp
      then show ?thesis using True e s'(2) b1(2) ys(1-3) by (intro exI [of _ s'] exI [of _ r]) (auto intro!: exI [of _ "q # ys"])
    next
      case short: False
      then have "r = None" "set (ps_pool s') = set (xs @ q # free)" "distinct (ps_pool s')"
        "ps_nodes s' = (\<lambda>a. if a \<in> set (xs @ [q]) then None else ps_nodes s1 a)"
        using s'(3) room by auto
      moreover have "(if a \<in> set (xs @ [q]) then None else ps_nodes s1 a) = (if a \<in> set xs then None else ps_nodes s a)" for a
        using Cons.prems(5) b1(3) [of a] by simp
      ultimately show ?thesis using short e s'(2) b1(2) by (intro exI [of _ s'] exI [of _ r]) simp
    qed
  qed
qed

section \<open>A packet through the pool\<close>

lemma building_packet:
  assumes "building len s xs 0" "xs \<noteq> []"
  shows "packet s (Some (hd xs)) xs" "separate s xs" "length (content s xs) = len" "list_all (fresh_pool s) xs"
    "unat (lp_tot_len (node s (hd xs))) = len"
proof -
  have b: "chain s (Some (hd xs)) xs" "totals s xs" "(\<Sum>x\<leftarrow>xs. blen s x) = len" using assms by (simp_all add: building_def totals_plus_0)
  show f: "list_all (fresh_pool s) xs" using assms by (simp add: building_def)
  then show p: "packet s (Some (hd xs)) xs" using b by (auto simp: packet_def list_all_iff fresh_pool_def)
  have "map (blk s) xs = xs" using f by (intro map_idI) (auto simp: list_all_iff fresh_pool_def)
  then show "separate s xs" using chain_distinct [OF b(1)] by (simp add: separate_def)
  show "length (content s xs) = len" using p b(3) length_content by (simp add: packet_def)
  show "unat (lp_tot_len (node s (hd xs))) = len" using b(2,3) assms(2) by (cases xs) simp_all
qed

lemma fresh_pool_resize:
  assumes "ps_nodes s' = ps_nodes s" "\<And>b. length (ps_blocks s' b) = length (ps_blocks s b)"
  shows "fresh_pool s' = fresh_pool s"
  using assms by (simp add: fresh_pool_def inside_def blen_def fun_eq_iff)

lemma take_packet:
  assumes "building (length d) s xs 0" "xs \<noteq> []" "length d < 2 ^ 16"
  obtains s' where "pbuf_take (Some (hd xs)) d s = Some (s', ERR_OK)" "s' = s\<lparr>ps_blocks := ps_blocks s'\<rparr>"
    "\<forall>b. length (ps_blocks s' b) = length (ps_blocks s b)" "copy_out (Some (hd xs)) (of_nat (length d)) 0 [] s' = Some d"
proof -
  note b = building_packet [OF assms(1,2)]
  obtain n where n: "ps_nodes s (hd xs) = Some n" using b(1) assms(2) packet_nth [of s _ xs "hd xs"] by auto
  from take_loop_content [OF b(1,2), of d] b(3) obtain s' where s': "take_loop (Some (hd xs)) d s = Some s'"
    "s' = s\<lparr>ps_blocks := ps_blocks s'\<rparr>" "\<forall>b. length (ps_blocks s' b) = length (ps_blocks s b)" "content s' xs = d @ drop (length d) (content s xs)"
    by auto
  have "packet s' (Some (hd xs)) xs" by (rule packet_frame [OF b(1) blocks_only [OF s'(2)]]) (use s'(3) in simp)
  then have "copy_out (Some (hd xs)) (of_nat (length d)) 0 [] s' = Some d"
    using copy_out_content s'(4) b(3) assms(3) by (simp add: unat_of_nat)
  moreover have "pbuf_take (Some (hd xs)) d s = Some (s', ERR_OK)" using n b(5) s'(1) by (simp add: pbuf_take_def)
  ultimately show ?thesis using that s'(2,3) by blast
qed

lemma pool_ok_init: "pool_ok pbufs_init" "length (ps_pool pbufs_init) = 24"
  by (simp_all add: pool_ok_def pbufs_init_def memp_init_pool_def upt_rec)

text \<open>C33.  The path of a received packet through the stack's buffers (\<open>pbuf_alloc\<close>, \<open>pbuf_take\<close>, \<open>pbuf_copy_partial\<close>,
  \<open>pbuf_free\<close>), for every length up to 65535 and every state of the pool.  When the free elements can hold the data the
  allocation succeeds, the copy in succeeds and stays inside the elements, what is read back is the data, and freeing
  the packet gives every element back, each once, and nothing else changes.  When they cannot, the allocation answers
  \<open>NULL\<close> and the elements it had taken are back in the pool.\<close>

theorem pool_packet_roundtrip:
  assumes "pool_ok s" "length d < 2 ^ 16"
  shows "if ps_pool s \<noteq> [] \<and> length d \<le> length (ps_pool s) * PBUF_POOL_BUFSIZE_ALIGNED
    then \<exists>s1 p s2 s3 k. pbuf_alloc PBUF_RAW (of_nat (length d)) PBUF_POOL None s = Some (s1, Some p) \<and>
      pbuf_take (Some p) d s1 = Some (s2, ERR_OK) \<and>
      copy_out (Some p) (of_nat (length d)) 0 [] s2 = Some d \<and>
      pbuf_free (Some p) s2 = Some (s3, k) \<and>
      pool_ok s3 \<and> set (ps_pool s3) = set (ps_pool s) \<and> ps_nodes s3 = ps_nodes s
    else \<exists>s1. pbuf_alloc PBUF_RAW (of_nat (length d)) PBUF_POOL None s = Some (s1, None) \<and>
      pool_ok s1 \<and> set (ps_pool s1) = set (ps_pool s) \<and> ps_nodes s1 = ps_nodes s"
proof -
  define len :: u16 where "len = of_nat (length d)"
  have l: "unat len = length d" using assms(2) by (simp add: len_def unat_of_nat)
  have al: "pbuf_alloc PBUF_RAW len PBUF_POOL None s = alloc_pool (ps_pool s) None None len 0 s" by (simp add: pbuf_alloc_def)
  have p: "distinct (ps_pool s)" "\<And>a. a \<in> set (ps_pool s) \<Longrightarrow> ps_nodes s a = None \<and> length (ps_blocks s a) = PBUF_POOL_BUFSIZE_ALIGNED"
    using assms(1) by (simp_all add: pool_ok_def list_all_iff)
  have room: "pool_room 0 n = n * PBUF_POOL_BUFSIZE_ALIGNED" for n by (simp add: pool_room_def LWIP_MEM_ALIGN_SIZE_def)
  have align: "LWIP_MEM_ALIGN_SIZE 0 < PBUF_POOL_BUFSIZE_ALIGNED" by (simp add: PBUF_POOL_BUFSIZE_ALIGNED_def LWIP_MEM_ALIGN_SIZE_def)
  have "building (length d) s [] (unat len)" using l by (simp add: building_def)
  from alloc_pool_result [OF this refl _ _ _ align, unfolded append_Nil if_True list.set empty_iff if_False simp_thms room l] assms(1)
  obtain s1 r where s1: "alloc_pool (ps_pool s) None None len 0 s = Some (s1, r)"
    "ps_blocks s1 = ps_blocks s"
    "if ps_pool s \<noteq> [] \<and> length d \<le> length (ps_pool s) * PBUF_POOL_BUFSIZE_ALIGNED
     then \<exists>ys. r = Some (hd ys) \<and> ys \<noteq> [] \<and> ps_pool s = ys @ ps_pool s1 \<and> building (length d) s1 ys 0 \<and>
       (\<forall>a. a \<notin> set ys \<longrightarrow> ps_nodes s1 a = ps_nodes s a)
     else r = None \<and> set (ps_pool s1) = set (ps_pool s) \<and> distinct (ps_pool s1) \<and> ps_nodes s1 = ps_nodes s"
    unfolding pool_ok_def by (elim exE conjE meta_impE) simp_all
  show ?thesis
  proof (cases "ps_pool s \<noteq> [] \<and> length d \<le> length (ps_pool s) * PBUF_POOL_BUFSIZE_ALIGNED")
    case True
    then obtain ys where ys: "r = Some (hd ys)" "ys \<noteq> []" "ps_pool s = ys @ ps_pool s1" "building (length d) s1 ys 0"
      "\<And>a. a \<notin> set ys \<Longrightarrow> ps_nodes s1 a = ps_nodes s a"
      using s1(3) by auto
    obtain s2 where s2: "pbuf_take (Some (hd ys)) d s1 = Some (s2, ERR_OK)" "s2 = s1\<lparr>ps_blocks := ps_blocks s2\<rparr>"
      "\<forall>b. length (ps_blocks s2 b) = length (ps_blocks s1 b)" "copy_out (Some (hd ys)) (of_nat (length d)) 0 [] s2 = Some d"
      by (rule take_packet [OF ys(4,2) assms(2)])
    note b = building_packet [OF ys(4,2)]
    have n2: "ps_nodes s2 = ps_nodes s1" "ps_pool s2 = ps_pool s1" by (subst s2(2), simp)+
    have "chain s2 (Some (hd ys)) ys" using b(1) n2 chain_cong [of ys s2 s1] by (simp add: packet_def)
    moreover have "list_all (fresh_pool s2) ys" using b(4) fresh_pool_resize [OF n2(1)] s2(3) by simp
    ultimately obtain s3 where s3: "pbuf_free (Some (hd ys)) s2 = Some (s3, of_nat (length ys))" "ps_blocks s3 = ps_blocks s2"
      "ps_pool s3 = rev ys @ ps_pool s2" "ps_nodes s3 = (\<lambda>a. if a \<in> set ys then None else ps_nodes s2 a)"
      by (rule free_fresh)
    have nodes: "ps_nodes s3 = ps_nodes s" using s3(4) n2(1) ys(3,5) p(2) by (auto simp: fun_eq_iff)
    have pool: "set (ps_pool s3) = set (ps_pool s)" "distinct (ps_pool s3)" using s3(3) n2(2) ys(3) p(1) by auto
    have "pool_ok s3" unfolding pool_ok_def list_all_iff using pool nodes p(2) s3(2) s2(3) s1(2) by simp
    then show ?thesis using True al s1(1) ys(1) s2(1,4) s3(1) nodes pool(1) unfolding len_def by auto
  next
    case False
    then have "r = None" "set (ps_pool s1) = set (ps_pool s)" "distinct (ps_pool s1)" "ps_nodes s1 = ps_nodes s" using s1(3) by auto
    moreover from this have "pool_ok s1" unfolding pool_ok_def list_all_iff using p(2) s1(2) by simp
    ultimately show ?thesis using False al s1(1) unfolding len_def by auto
  qed
qed

text \<open>The pools at start, and a packet of two elements.\<close>

theorem pool_packet_roundtrip_witness:
  "\<exists>s1 p s2 s3 k. pbuf_alloc PBUF_RAW 2000 PBUF_POOL None pbufs_init = Some (s1, Some p) \<and>
     pbuf_take (Some p) (replicate 2000 7) s1 = Some (s2, ERR_OK) \<and>
     copy_out (Some p) 2000 0 [] s2 = Some (replicate 2000 7) \<and>
     pbuf_free (Some p) s2 = Some (s3, k) \<and>
     pool_ok s3 \<and> set (ps_pool s3) = set (ps_pool pbufs_init) \<and> ps_nodes s3 = ps_nodes pbufs_init"
proof -
  have "ps_pool pbufs_init \<noteq> []" "length (replicate 2000 7 :: bytes) \<le> length (ps_pool pbufs_init) * PBUF_POOL_BUFSIZE_ALIGNED"
    using pool_ok_init(2) by (auto simp: PBUF_POOL_BUFSIZE_ALIGNED_def LWIP_MEM_ALIGN_SIZE_def)
  then show ?thesis
    using pool_packet_roundtrip [OF pool_ok_init(1), of "replicate 2000 7"] by (simp only: length_replicate if_True simp_thms of_nat_numeral) simp
qed

end
