(* ===== verification/Lwip_Dns.thy ===== *)
theory Lwip_Dns
  imports Lwip_Addr Lwip_Pbuf_Correct
begin

text \<open>
  The stack's resolver (\<open>lwip/core/dns.c\<close>), which the proxy asks for every host: the table of names, the requests waiting on it,
  the queries with their random identifiers and ports, and the check of the replies.  The build has
  random transaction identifiers and source ports and one outstanding query per name; IPv4 only, no local host list and
  no multicast.  A reply is the byte string its chain of buffers holds (\<open>Lwip_Pbuf_Correct\<close>); the callbacks, the packets sent
  and the ports opened and closed are a trace.  A callback of the proxy does not enter the resolver again.
\<close>

section \<open>State\<close>

definition DNS_TABLE_SIZE :: nat where "DNS_TABLE_SIZE = 8"
definition DNS_MAX_NAME_LENGTH :: nat where "DNS_MAX_NAME_LENGTH = 128"
definition DNS_MAX_SERVERS :: nat where "DNS_MAX_SERVERS = 2"
definition DNS_MAX_RETRIES :: u8 where "DNS_MAX_RETRIES = 4"
definition DNS_MAX_TTL :: u32 where "DNS_MAX_TTL = 604800"
definition DNS_MAX_REQUESTS :: nat where "DNS_MAX_REQUESTS = DNS_TABLE_SIZE"
definition DNS_MAX_SOURCE_PORTS :: nat where "DNS_MAX_SOURCE_PORTS = DNS_MAX_REQUESTS"

lemmas dns_sizes = DNS_TABLE_SIZE_def DNS_MAX_NAME_LENGTH_def DNS_MAX_SERVERS_def DNS_MAX_REQUESTS_def DNS_MAX_SOURCE_PORTS_def

datatype dns_state = DNS_STATE_UNUSED | DNS_STATE_NEW | DNS_STATE_ASKING | DNS_STATE_DONE

text \<open>\<open>name\<close> is the whole array with its NUL.  The indices into the tables are at most 8.\<close>

record dns_table_entry =
  de_ttl :: u32
  de_ipaddr :: u32
  de_txid :: u16
  de_state :: dns_state
  de_server_idx :: nat
  de_tmr :: u8
  de_retries :: u8
  de_seqno :: u8
  de_pcb_idx :: nat
  de_name :: string

text \<open>\<open>found\<close> is the callback or \<open>NULL\<close>.\<close>

record dns_req_entry =
  rq_found :: bool
  rq_arg :: nat
  rq_idx :: nat

datatype dns_out = Query u16 u32 bytes | Found string "u32 option" nat | Port_open u16 | Port_close u16

record dns =
  d_pcbs :: "u16 option list"
  d_last_pcb_idx :: nat
  d_seqno :: u8
  d_table :: "dns_table_entry list"
  d_requests :: "dns_req_entry list"
  d_servers :: "u32 list"
  d_fault :: bool
  d_out :: "dns_out list"

definition entry_zero :: dns_table_entry where
  "entry_zero = \<lparr>de_ttl = 0, de_ipaddr = 0, de_txid = 0, de_state = DNS_STATE_UNUSED, de_server_idx = 0, de_tmr = 0, de_retries = 0,
     de_seqno = 0, de_pcb_idx = 0, de_name = replicate DNS_MAX_NAME_LENGTH (CHR 0x00)\<rparr>"

text \<open>The statics; with random ports \<open>dns_init\<close> changes nothing.\<close>

definition dns_static :: dns where
  "dns_static = \<lparr>d_pcbs = replicate DNS_MAX_SOURCE_PORTS None, d_last_pcb_idx = 0, d_seqno = 0,
     d_table = replicate DNS_TABLE_SIZE entry_zero, d_requests = replicate DNS_MAX_REQUESTS \<lparr>rq_found = False, rq_arg = 0, rq_idx = 0\<rparr>,
     d_servers = replicate DNS_MAX_SERVERS 0, d_fault = False, d_out = []\<rparr>"

definition dns_emit :: "dns_out list \<Rightarrow> dns \<Rightarrow> dns" where
  "dns_emit os d = d\<lparr>d_out := d_out d @ os\<rparr>"

definition upd_entry :: "nat \<Rightarrow> (dns_table_entry \<Rightarrow> dns_table_entry) \<Rightarrow> dns \<Rightarrow> dns" where
  "upd_entry i f d = d\<lparr>d_table := (d_table d)[i := f (d_table d ! i)]\<rparr>"

definition dns_setserver :: "nat \<Rightarrow> u32 option \<Rightarrow> dns \<Rightarrow> dns" where
  "dns_setserver numdns dnsserver d =
     (if numdns < DNS_MAX_SERVERS then d\<lparr>d_servers := (d_servers d)[numdns := (case dnsserver of Some a \<Rightarrow> a | None \<Rightarrow> 0)]\<rparr> else d)"

definition dns_getserver :: "nat \<Rightarrow> dns \<Rightarrow> u32" where
  "dns_getserver numdns d = (if numdns < DNS_MAX_SERVERS then d_servers d ! numdns else 0)"

section \<open>The cache\<close>

text \<open>Whether the entry holds the name; \<open>namelen\<close> is below the size of the array.\<close>

definition name_is :: "string \<Rightarrow> nat \<Rightarrow> dns_table_entry \<Rightarrow> bool" where
  "name_is name namelen e \<longleftrightarrow> \<not> lwip_strnicmp name (cstr (de_name e)) (of_nat namelen) \<and> de_name e ! namelen = CHR 0x00"

definition dns_lookup :: "string \<Rightarrow> nat \<Rightarrow> dns \<Rightarrow> u32 option" where
  "dns_lookup name hostnamelen d =
     (let namelen = min hostnamelen (DNS_MAX_NAME_LENGTH - 1)
      in map_option (\<lambda>i. de_ipaddr (d_table d ! i))
           (find (\<lambda>i. de_state (d_table d ! i) = DNS_STATE_DONE \<and> name_is name namelen (d_table d ! i)) [0..<DNS_TABLE_SIZE]))"

section \<open>Names in packets\<close>

text \<open>\<open>pbuf_try_get_at\<close> and \<open>tot_len\<close> of a packet that holds \<open>p\<close>.\<close>

definition try_get :: "bytes \<Rightarrow> u16 \<Rightarrow> u8 option" where
  "try_get p off = (if unat off < length p then Some (p ! unat off) else None)"

definition pkt_len :: "bytes \<Rightarrow> u16" where
  "pkt_len p = of_nat (length p)"

text \<open>The inner loop of \<open>dns_compare_name\<close>: \<open>n\<close> characters of a label against the array from \<open>q\<close> on.  Reading behind the
  array is a fault.\<close>

fun compare_label :: "string \<Rightarrow> nat \<Rightarrow> bytes \<Rightarrow> u16 \<Rightarrow> nat \<Rightarrow> (nat \<times> u16) outcome" where
  "compare_label name q p off 0 = Done (q, off)"
| "compare_label name q p off (Suc n) =
     (case try_get p off of
        None \<Rightarrow> Rejected
      | Some c \<Rightarrow>
          if q \<ge> length name then Fault
          else if to_lower (name ! q) \<noteq> to_lower (char_of (unat c)) then Rejected
          else if off = 0xFFFF then Rejected
          else compare_label name (q + 1) p (off + 1) n)"

lemma u16_lt: "unat (x :: u16) < 65536"
  using unsigned_less [of x, where ?'a = nat] by simp

lemma u16_succ: "off \<noteq> 0xFFFF \<Longrightarrow> unat (off + 1 :: u16) = unat off + 1"
  using u16_lt [of off] by (auto simp: unat_plus_if' word_unat_eq_iff split: if_splits)

lemma unat_byte: "unat (ucast (n :: u8) :: u16) = unat n"
  using u8_lt [of n] by (simp add: unsigned_ucast_eq take_bit_nat_eq_self)

lemma compare_label_off: "compare_label name q p off n = Done (q', off') \<Longrightarrow> unat off \<le> unat off'"
proof (induction n arbitrary: q off)
  case (Suc n)
  then have "unat (off + 1) \<le> unat off'" "off \<noteq> 0xFFFF" by (auto split: option.splits if_splits)
  then show ?case using u16_succ [of off] by simp
qed simp

text \<open>The outer loop: a label, then on at the next length byte; \<open>Rejected\<close> is the result 0xFFFF.\<close>

function dns_compare_name :: "string \<Rightarrow> nat \<Rightarrow> bytes \<Rightarrow> u16 \<Rightarrow> u16 outcome" where
  "dns_compare_name name q p off =
     (case try_get p off of
        None \<Rightarrow> Rejected
      | Some n \<Rightarrow>
          if off = 0xFFFF then Rejected
          else if n AND 0xC0 = 0xC0 then Rejected
          else
            (case compare_label name q p (off + 1) (unat n) of
               Rejected \<Rightarrow> Rejected
             | Fault \<Rightarrow> Fault
             | Done r \<Rightarrow>
                 (case try_get p (snd r) of
                    None \<Rightarrow> Rejected
                  | Some m \<Rightarrow>
                      if m \<noteq> 0 then dns_compare_name name (fst r + 1) p (snd r)
                      else if snd r = 0xFFFF then Rejected
                      else Done (snd r + 1))))"
  by pat_completeness auto
termination
proof (relation "measure (\<lambda>(name, q, p, off). 65536 - unat off)")
  fix name :: string and q :: nat and p :: bytes and off :: u16 and n r
  assume off: "off \<noteq> 0xFFFF" and "compare_label name q p (off + 1) (unat n) = Done r"
  then have "unat (off + 1) \<le> unat (snd r)" using compare_label_off by (metis prod.collapse)
  moreover have "unat (off + 1) = unat off + 1" by (rule u16_succ [OF off])
  moreover have "unat (snd r) < 65536" by (rule u16_lt)
  ultimately show "((name, fst r + 1, p, snd r), (name, q, p, off)) \<in> measure (\<lambda>(name, q, p, off). 65536 - unat off)" by simp
qed simp

declare dns_compare_name.simps [simp del]

function dns_skip_name :: "bytes \<Rightarrow> u16 \<Rightarrow> u16" where
  "dns_skip_name p offset =
     (case try_get p offset of
        None \<Rightarrow> 0xFFFF
      | Some n \<Rightarrow>
          if offset + 1 = 0 then 0xFFFF
          else if n AND 0xC0 = 0xC0 then (if offset + 1 = 0xFFFF then 0xFFFF else offset + 1 + 1)
          else if unat (offset + 1) + unat n \<ge> unat (pkt_len p) then 0xFFFF
          else
            (case try_get p (offset + 1 + ucast n) of
               None \<Rightarrow> 0xFFFF
             | Some m \<Rightarrow>
                 if m \<noteq> 0 then dns_skip_name p (offset + 1 + ucast n)
                 else if offset + 1 + ucast n = 0xFFFF then 0xFFFF
                 else offset + 1 + ucast n + 1))"
  by pat_completeness auto
termination
proof (relation "measure (\<lambda>(p, off). 65536 - unat off)")
  fix p :: bytes and off :: u16 and n :: u8
  assume a: "off + 1 \<noteq> 0" "\<not> unat (pkt_len p) \<le> unat (off + 1) + unat n"
  have "unat (ucast n :: u16) = unat n" by (rule unat_byte)
  moreover have "unat (pkt_len p) < 65536" by (rule u16_lt)
  moreover have "unat (off + 1) = unat off + 1" by (rule u16_succ) (use a(1) in auto)
  ultimately have "unat (off + 1 + ucast n) = unat off + 1 + unat n" "unat off + 1 + unat n < 65536"
    using a(2) by (simp_all add: unat_plus_if' [of "off + 1"])
  then show "((p, off + 1 + ucast n), (p, off)) \<in> measure (\<lambda>(p, off). 65536 - unat off)" by simp
qed simp

declare dns_skip_name.simps [simp del]

section \<open>Queries\<close>

text \<open>The labels of the name and the final zero, written at \<open>query_idx\<close>; a name has at most 127 characters, so that the byte \<open>n\<close>
  holds the length of each.\<close>

function query_labels :: "string \<Rightarrow> nat \<Rightarrow> bytes option" where
  "query_labels hostname query_idx =
     (let part = takeWhile (\<lambda>c. c \<noteq> CHR ''.'') hostname;
          bs = of_nat (length part) # map (\<lambda>c. of_nat (code c)) part
      in if query_idx + length part + 1 > 0xFFFF then None
         else
           (case dropWhile (\<lambda>c. c \<noteq> CHR ''.'') hostname of
              [] \<Rightarrow> Some (bs @ [0])
            | _ # rest \<Rightarrow> map_option ((@) bs) (query_labels rest (query_idx + length part + 1))))"
  by pat_completeness auto
termination
proof (relation "measure (\<lambda>(h, i). length h)")
  fix h :: string and i :: nat and part and bs :: bytes and c rest
  assume "dropWhile (\<lambda>c. c \<noteq> CHR ''.'') h = c # rest"
  then have "length (c # rest) \<le> length h" by (metis length_dropWhile_le)
  then show "((rest, i + length part + 1), (h, i)) \<in> measure (\<lambda>(h, i). length h)" by simp
qed simp

declare query_labels.simps [simp del]

definition query_msg :: "u16 \<Rightarrow> string \<Rightarrow> bytes option" where
  "query_msg txid name =
     map_option (\<lambda>q. be16 (unat txid) @ [0x01, 0x00] @ be16 1 @ be16 0 @ be16 0 @ be16 0 @ q @ be16 1 @ be16 1) (query_labels name 12)"

text \<open>The callbacks of the requests that wait for the entry, and its port when nobody else asks from it.\<close>

definition dns_call_found :: "nat \<Rightarrow> u32 option \<Rightarrow> dns \<Rightarrow> dns" where
  "dns_call_found idx addr d =
     (let waits = (\<lambda>r. rq_found r \<and> rq_idx r = idx);
          d = dns_emit (map (\<lambda>r. Found (cstr (de_name (d_table d ! idx))) addr (rq_arg r)) (filter waits (d_requests d)))
                (d\<lparr>d_requests := map (\<lambda>r. if waits r then r\<lparr>rq_found := False\<rparr> else r) (d_requests d)\<rparr>);
          d = (if list_ex (\<lambda>i. i \<noteq> idx \<and> de_state (d_table d ! i) = DNS_STATE_ASKING \<and>
                     de_pcb_idx (d_table d ! i) = de_pcb_idx (d_table d ! idx)) [0..<DNS_MAX_REQUESTS]
               then upd_entry idx (\<lambda>e. e\<lparr>de_pcb_idx := DNS_MAX_SOURCE_PORTS\<rparr>) d else d);
          j = de_pcb_idx (d_table d ! idx)
      in if j < DNS_MAX_SOURCE_PORTS
         then upd_entry idx (\<lambda>e. e\<lparr>de_pcb_idx := DNS_MAX_SOURCE_PORTS\<rparr>)
                (dns_emit (case d_pcbs d ! j of Some port \<Rightarrow> [Port_close port] | None \<Rightarrow> [])
                  (d\<lparr>d_pcbs := (d_pcbs d)[j := None]\<rparr>))
         else d)"

definition flush_entry :: "nat \<Rightarrow> dns \<Rightarrow> dns" where
  "flush_entry i d = upd_entry i (\<lambda>e. e\<lparr>de_state := DNS_STATE_UNUSED\<rparr>) d"

text \<open>\<open>alloc\<close>: whether \<open>pbuf_alloc\<close> had a buffer; \<open>sent\<close>: what \<open>udp_sendto\<close> returned.\<close>

record query_env =
  dn_alloc :: bool
  dn_sent :: err_t

definition dns_send :: "nat \<Rightarrow> query_env \<Rightarrow> dns \<Rightarrow> dns \<times> err_t" where
  "dns_send idx v d =
     (let entry = d_table d ! idx;
          dst = d_servers d ! de_server_idx entry
      in if dst = 0 then (flush_entry idx (dns_call_found idx None d), ERR_OK)
         else if \<not> dn_alloc v then (d, ERR_MEM)
         else
           (case query_msg (de_txid entry) (cstr (de_name entry)) of
              None \<Rightarrow> (d, ERR_VAL)
            | Some msg \<Rightarrow>
                (dns_emit (case d_pcbs d ! de_pcb_idx entry of Some port \<Rightarrow> [Query port dst msg] | None \<Rightarrow> []) d, dn_sent v)))"

section \<open>Identifiers and ports\<close>

partial_function (option) dns_create_txid :: "dns_table_entry list \<Rightarrow> entropy \<Rightarrow> (u16 \<times> entropy) option" where
  "dns_create_txid table e =
     (let (r, e) = lwip_port_rand e;
          txid = ucast r
      in if list_ex (\<lambda>x. de_state x = DNS_STATE_ASKING \<and> de_txid x = txid) table then dns_create_txid table e
         else Some (txid, e))"

abbreviation ERR_USE :: err_t where "ERR_USE \<equiv> ERR_OTHER (-8)"

text \<open>\<open>bind\<close>: what \<open>udp_bind\<close> answers for a port; \<open>fresh\<close>: whether \<open>udp_new_ip_type\<close> has a pcb.\<close>

partial_function (option) bind_loop :: "(u16 \<Rightarrow> err_t) \<Rightarrow> entropy \<Rightarrow> (u16 \<times> err_t \<times> entropy) option" where
  "bind_loop bind_port e =
     (let (r, e) = lwip_port_rand e;
          port = (ucast r :: u16);
          err = (if port \<ge> 1024 then bind_port port else ERR_USE)
      in if err = ERR_USE then bind_loop bind_port e else Some (port, err, e))"

definition dns_alloc_random_port :: "bool \<Rightarrow> (u16 \<Rightarrow> err_t) \<Rightarrow> entropy \<Rightarrow> (u16 option \<times> entropy) option" where
  "dns_alloc_random_port fresh bind_port e =
     (if \<not> fresh then Some (None, e)
      else
        do { (port, err, e) \<leftarrow> bind_loop bind_port e;
             Some (if err \<noteq> ERR_OK then None else Some port, e) })"

fun reuse_pcb :: "nat \<Rightarrow> nat \<Rightarrow> u16 option list \<Rightarrow> nat option" where
  "reuse_pcb 0 idx pcbs = None"
| "reuse_pcb (Suc k) idx pcbs =
     (let idx = (if idx \<ge> DNS_MAX_SOURCE_PORTS then 0 else idx)
      in if pcbs ! idx \<noteq> None then Some idx else reuse_pcb k (idx + 1) pcbs)"

definition dns_alloc_pcb :: "bool \<Rightarrow> (u16 \<Rightarrow> err_t) \<Rightarrow> entropy \<Rightarrow> dns \<Rightarrow> (dns \<times> nat \<times> entropy) option" where
  "dns_alloc_pcb fresh bind_port e d =
     do { (new, e) \<leftarrow> (case find (\<lambda>i. d_pcbs d ! i = None) [0..<DNS_MAX_SOURCE_PORTS] of
            None \<Rightarrow> Some (None, e)
          | Some i \<Rightarrow> do { (p, e) \<leftarrow> dns_alloc_random_port fresh bind_port e; Some (map_option (Pair i) p, e) });
          (case new of
             Some (i, port) \<Rightarrow>
               Some (dns_emit [Port_open port] (d\<lparr>d_pcbs := (d_pcbs d)[i := Some port], d_last_pcb_idx := i\<rparr>), i, e)
           | None \<Rightarrow>
               (case reuse_pcb DNS_MAX_SOURCE_PORTS (d_last_pcb_idx d + 1) (d_pcbs d) of
                  Some idx \<Rightarrow> Some (d\<lparr>d_last_pcb_idx := idx\<rparr>, idx, e)
                | None \<Rightarrow> Some (d, DNS_MAX_SOURCE_PORTS, e))) }"

section \<open>Entries\<close>

definition dns_backupserver_available :: "dns_table_entry \<Rightarrow> dns \<Rightarrow> bool" where
  "dns_backupserver_available entry d \<longleftrightarrow>
     de_server_idx entry + 1 < DNS_MAX_SERVERS \<and> d_servers d ! (de_server_idx entry + 1) \<noteq> 0"

text \<open>\<open>None\<close> is the search for an identifier going on forever.\<close>

definition dns_check_entry :: "nat \<Rightarrow> query_env \<Rightarrow> dns \<Rightarrow> entropy \<Rightarrow> (dns \<times> entropy) option" where
  "dns_check_entry i v d e =
     (let entry = d_table d ! i
      in case de_state entry of
           DNS_STATE_NEW \<Rightarrow>
             do { (txid, e) \<leftarrow> dns_create_txid (d_table d) e;
                  let d = upd_entry i (\<lambda>x. x\<lparr>de_txid := txid, de_state := DNS_STATE_ASKING, de_server_idx := 0, de_tmr := 1,
                            de_retries := 0\<rparr>) d;
                  Some (fst (dns_send i v d), e) }
         | DNS_STATE_ASKING \<Rightarrow>
             let d = upd_entry i (\<lambda>x. x\<lparr>de_tmr := de_tmr x - 1\<rparr>) d
             in if de_tmr entry - 1 = 0 then
                  let d = upd_entry i (\<lambda>x. x\<lparr>de_retries := de_retries x + 1\<rparr>) d
                  in if de_retries entry + 1 = DNS_MAX_RETRIES then
                       if dns_backupserver_available entry d then
                         let d = upd_entry i (\<lambda>x. x\<lparr>de_server_idx := de_server_idx x + 1, de_tmr := 1, de_retries := 0\<rparr>) d
                         in Some (fst (dns_send i v d), e)
                       else Some (flush_entry i (dns_call_found i None d), e)
                     else
                       let d = upd_entry i (\<lambda>x. x\<lparr>de_tmr := de_retries x\<rparr>) d
                       in Some (fst (dns_send i v d), e)
                else Some (d, e)
         | DNS_STATE_DONE \<Rightarrow>
             if de_ttl entry = 0 then Some (flush_entry i d, e)
             else
               let d = upd_entry i (\<lambda>x. x\<lparr>de_ttl := de_ttl x - 1\<rparr>) d
               in Some (if de_ttl entry - 1 = 0 then flush_entry i d else d, e)
         | DNS_STATE_UNUSED \<Rightarrow> Some (d, e))"

text \<open>\<open>v\<close> gives what each entry meets when it sends.\<close>

fun check_from :: "nat list \<Rightarrow> (nat \<Rightarrow> query_env) \<Rightarrow> dns \<Rightarrow> entropy \<Rightarrow> (dns \<times> entropy) option" where
  "check_from [] v d e = Some (d, e)"
| "check_from (i # is) v d e = do { (d, e) \<leftarrow> dns_check_entry i (v i) d e; check_from is v d e }"

definition dns_check_entries :: "(nat \<Rightarrow> query_env) \<Rightarrow> dns \<Rightarrow> entropy \<Rightarrow> (dns \<times> entropy) option" where
  "dns_check_entries v d e = check_from [0..<DNS_TABLE_SIZE] v d e"

definition dns_tmr :: "(nat \<Rightarrow> query_env) \<Rightarrow> dns \<Rightarrow> entropy \<Rightarrow> (dns \<times> entropy) option" where
  "dns_tmr v d e = dns_check_entries v d e"

section \<open>Replies\<close>

definition dns_correct_response :: "nat \<Rightarrow> u32 \<Rightarrow> dns \<Rightarrow> dns" where
  "dns_correct_response idx ttl d =
     (let d = upd_entry idx (\<lambda>x. x\<lparr>de_state := DNS_STATE_DONE, de_ttl := min ttl DNS_MAX_TTL\<rparr>) d;
          d = dns_call_found idx (Some (de_ipaddr (d_table d ! idx))) d
      in if de_ttl (d_table d ! idx) = 0 then
           (if de_state (d_table d ! idx) = DNS_STATE_DONE then flush_entry idx d else d)
         else d)"

text \<open>Fields of the packet, in network order; the address is kept in memory order.\<close>

definition field16 :: "bytes \<Rightarrow> nat \<Rightarrow> u16" where
  "field16 p i = get_be16 (p ! i) (p ! (i + 1))"

definition field32 :: "bytes \<Rightarrow> nat \<Rightarrow> u32" where
  "field32 p i = push_bit 16 (ucast (field16 p i)) OR ucast (field16 p (i + 2))"

definition addr_field :: "bytes \<Rightarrow> u32" where
  "addr_field b = lwip_htonl (field32 b 0)"

text \<open>The loop over the answer records: the first address record, a packet that is cut short, or no address.\<close>

datatype answer = Address u32 u32 | Ignore_packet | No_address

fun dns_answers :: "nat \<Rightarrow> bytes \<Rightarrow> u16 \<Rightarrow> answer" where
  "dns_answers 0 p res_idx = No_address"
| "dns_answers (Suc nanswers) p res_idx =
     (if \<not> res_idx < pkt_len p then No_address
      else
        let res_idx = dns_skip_name p res_idx
        in if res_idx = 0xFFFF then Ignore_packet
           else
             let ans = slice (unat res_idx) 10 p
             in if length ans \<noteq> 10 then Ignore_packet
                else if unat res_idx + 10 > 0xFFFF then Ignore_packet
                else
                  let res_idx = res_idx + 10;
                      len = field16 ans 8
                  in if field16 ans 2 = 1 \<and> field16 ans 0 = 1 \<and> len = 4 then
                       let ip = slice (unat res_idx) 4 p
                       in if length ip \<noteq> 4 then Ignore_packet else Address (addr_field ip) (field32 ans 4)
                     else if unat res_idx + unat len > 0xFFFF then Ignore_packet
                     else dns_answers nanswers p (res_idx + len))"

definition reply_failed :: "nat \<Rightarrow> dns \<Rightarrow> dns" where
  "reply_failed i d = flush_entry i (dns_call_found i None d)"

text \<open>The part of \<open>dns_recv\<close> behind the checks of header and server, for the entry \<open>i\<close> that has the identifier.\<close>

definition recv_entry :: "nat \<Rightarrow> bytes \<Rightarrow> query_env \<Rightarrow> dns \<Rightarrow> entropy \<Rightarrow> (dns \<times> entropy) option" where
  "recv_entry i p v d e =
     (let entry = d_table d ! i
      in case dns_compare_name (de_name entry) 0 p 12 of
           Fault \<Rightarrow> Some (d\<lparr>d_fault := True\<rparr>, e)
         | Rejected \<Rightarrow> Some (d, e)
         | Done res_idx \<Rightarrow>
             let qry = slice (unat res_idx) 4 p
             in if res_idx = 0xFFFF \<or> length qry \<noteq> 4 then Some (d, e)
                else if field16 qry 2 \<noteq> 1 \<or> field16 qry 0 \<noteq> 1 then Some (d, e)
                else if unat res_idx + 4 > 0xFFFF then Some (d, e)
                else
                  if p ! 3 AND 0x0F \<noteq> 0 then
                    if dns_backupserver_available entry d
                    then dns_check_entry i v (upd_entry i (\<lambda>x. x\<lparr>de_retries := DNS_MAX_RETRIES - 1, de_tmr := 1\<rparr>) d) e
                    else Some (reply_failed i d, e)
                  else
                    (case dns_answers (unat (field16 p 6)) p (res_idx + 4) of
                       Ignore_packet \<Rightarrow> Some (d, e)
                     | No_address \<Rightarrow> Some (reply_failed i d, e)
                     | Address ip ttl \<Rightarrow> Some (dns_correct_response i ttl (upd_entry i (\<lambda>x. x\<lparr>de_ipaddr := ip\<rparr>) d), e)))"

definition dns_recv :: "bytes \<Rightarrow> u32 \<Rightarrow> query_env \<Rightarrow> dns \<Rightarrow> entropy \<Rightarrow> (dns \<times> entropy) option" where
  "dns_recv p addr v d e =
     (if length p < 16 then Some (d, e)
      else
        (case find (\<lambda>i. de_state (d_table d ! i) = DNS_STATE_ASKING \<and> de_txid (d_table d ! i) = field16 p 0) [0..<DNS_TABLE_SIZE] of
           None \<Rightarrow> Some (d, e)
         | Some i \<Rightarrow>
             if p ! 2 AND 0x80 = 0 \<or> field16 p 4 \<noteq> 1 \<or> addr \<noteq> d_servers d ! de_server_idx (d_table d ! i) then Some (d, e)
             else recv_entry i p v d e))"

section \<open>Requests\<close>

text \<open>An unused entry, or the oldest completed one.\<close>

fun pick_entry :: "dns_table_entry list \<Rightarrow> u8 \<Rightarrow> nat \<Rightarrow> u8 \<Rightarrow> nat \<Rightarrow> nat option" where
  "pick_entry [] seqno i lseq lseqi = (if lseqi \<ge> DNS_TABLE_SIZE then None else Some lseqi)"
| "pick_entry (x # xs) seqno i lseq lseqi =
     (if de_state x = DNS_STATE_UNUSED then Some i
      else if de_state x = DNS_STATE_DONE \<and> seqno - de_seqno x > lseq then pick_entry xs seqno (i + 1) (seqno - de_seqno x) i
      else pick_entry xs seqno (i + 1) lseq lseqi)"

definition free_request :: "dns \<Rightarrow> nat option" where
  "free_request d = find (\<lambda>r. \<not> rq_found (d_requests d ! r)) [0..<DNS_MAX_REQUESTS]"

definition set_request :: "nat \<Rightarrow> dns_req_entry \<Rightarrow> dns \<Rightarrow> dns" where
  "set_request r q d = d\<lparr>d_requests := (d_requests d)[r := q]\<rparr>"

record port_env =
  pe_fresh :: bool
  pe_bind :: "u16 \<Rightarrow> err_t"
  pe_send :: query_env

definition dns_enqueue :: "string \<Rightarrow> nat \<Rightarrow> nat \<Rightarrow> port_env \<Rightarrow> dns \<Rightarrow> entropy \<Rightarrow> (dns \<times> err_t \<times> entropy) option" where
  "dns_enqueue name hostnamelen callback_arg v d e =
     (let namelen = min hostnamelen (DNS_MAX_NAME_LENGTH - 1);
          dup = find (\<lambda>i. de_state (d_table d ! i) = DNS_STATE_ASKING \<and> name_is name namelen (d_table d ! i)) [0..<DNS_TABLE_SIZE]
      in case (dup, free_request d) of
           (Some i, Some r) \<Rightarrow>
             Some (set_request r \<lparr>rq_found = True, rq_arg = callback_arg, rq_idx = i\<rparr> d, ERR_INPROGRESS, e)
         | (_, req) \<Rightarrow>
             (case pick_entry (d_table d) (d_seqno d) 0 0 DNS_TABLE_SIZE of
                None \<Rightarrow> Some (d, ERR_MEM, e)
              | Some i \<Rightarrow>
                  (case req of
                     None \<Rightarrow> Some (d, ERR_MEM, e)
                   | Some r \<Rightarrow>
                       let d = upd_entry i (\<lambda>x. x\<lparr>de_state := DNS_STATE_NEW, de_seqno := d_seqno d,
                                 de_name := patch 0 (take namelen name @ [CHR 0x00]) (de_name x)\<rparr>) d;
                           d = set_request r \<lparr>rq_found = True, rq_arg = callback_arg, rq_idx = i\<rparr> d
                       in do { (d, pcb, e) \<leftarrow> dns_alloc_pcb (pe_fresh v) (pe_bind v) e d;
                               let d = upd_entry i (\<lambda>x. x\<lparr>de_pcb_idx := pcb\<rparr>) d;
                               if pcb \<ge> DNS_MAX_SOURCE_PORTS then
                                 Some (set_request r \<lparr>rq_found = False, rq_arg = callback_arg, rq_idx = i\<rparr> (flush_entry i d), ERR_MEM, e)
                               else
                                 do { (d, e) \<leftarrow> dns_check_entry i (pe_send v) (d\<lparr>d_seqno := d_seqno d + 1\<rparr>) e;
                                      Some (d, ERR_INPROGRESS, e) } })))"

text \<open>\<open>dns_gethostbyname\<close> with an address to fill in; \<open>hostname\<close> has no NUL.  The address is what \<open>addr\<close> holds when the result
  is \<open>ERR_OK\<close>.\<close>

definition dns_gethostbyname ::
  "string \<Rightarrow> nat \<Rightarrow> port_env \<Rightarrow> dns \<Rightarrow> entropy \<Rightarrow> (dns \<times> (err_t \<times> u32) \<times> entropy) option" where
  "dns_gethostbyname hostname callback_arg v d e =
     (if hostname = [] then Some (d, (ERR_ARG, 0), e)
      else
        let hostnamelen = length hostname - (if hostname ! (length hostname - 1) = CHR ''.'' then 1 else 0)
        in if hostnamelen \<ge> DNS_MAX_NAME_LENGTH then Some (d, (ERR_ARG, 0), e)
           else
             (case ip4addr_aton hostname of
                Some a \<Rightarrow> Some (d, (ERR_OK, a), e)
              | None \<Rightarrow>
                  (case dns_lookup hostname hostnamelen d of
                     Some a \<Rightarrow> Some (d, (ERR_OK, a), e)
                   | None \<Rightarrow>
                       if d_servers d ! 0 = 0 then Some (d, (ERR_VAL, 0), e)
                       else
                         do { (d, err, e) \<leftarrow> dns_enqueue hostname hostnamelen callback_arg v d e; Some (d, (err, 0), e) })))"

section \<open>What the comparison of names does not see\<close>

text \<open>A question for the first label of the asked name is accepted, and so is one that has a letter where the name has a dot; labels of
  zeros are compared with what lies behind the name.\<close>

lemma compare_accepts_prefix:
  "dns_compare_name (''ab.c'' @ replicate 124 (CHR 0x00)) 0 [2, 0x61, 0x62, 0] 0 = Done 4"
  by code_simp

lemma compare_reads_behind:
  "dns_compare_name (replicate 128 (CHR 0x00)) 0 (63 # replicate 63 0 @ [64] @ replicate 64 0 @ [1, 0, 0]) 0 = Fault"
  by code_simp

end
