(* ===== verification/Lwip_Dns_Correct.thy ===== *)
theory Lwip_Dns_Correct
  imports Lwip_Dns "HOL-Library.Multiset"
begin

text \<open>
  What the resolver promises the proxy: its tables stay consistent (identifiers in use are distinct, a port is open exactly
  while an entry asks from it, a request waits only on an entry that asks), every lookup it accepts is answered by one
  callback and no later than the fourteenth tick of its timer, a packet that is not the reply to an outstanding
  question changes nothing, and the reply to a question it asked is understood.
\<close>

section \<open>The invariant\<close>

abbreviation entry :: "dns \<Rightarrow> nat \<Rightarrow> dns_table_entry" where
  "entry d i \<equiv> d_table d ! i"

definition asking :: "dns \<Rightarrow> nat \<Rightarrow> bool" where
  "asking d i \<longleftrightarrow> i < 8 \<and> de_state (entry d i) = DNS_STATE_ASKING"

definition waits :: "dns \<Rightarrow> nat \<Rightarrow> bool" where
  "waits d r \<longleftrightarrow> r < 8 \<and> rq_found (d_requests d ! r)"

definition name_ok :: "string \<Rightarrow> bool" where
  "name_ok s \<longleftrightarrow> length s = 128 \<and> CHR 0x00 \<in> set s"

definition entry_ok :: "dns_table_entry \<Rightarrow> bool" where
  "entry_ok x \<longleftrightarrow> name_ok (de_name x) \<and> de_state x \<noteq> DNS_STATE_NEW \<and>
     (de_state x = DNS_STATE_ASKING \<longrightarrow>
        1 \<le> unat (de_tmr x) \<and> unat (de_tmr x) \<le> max 1 (unat (de_retries x)) \<and> unat (de_retries x) \<le> 3 \<and> de_server_idx x < 2 \<and> de_pcb_idx x < 8)"

definition sized :: "dns \<Rightarrow> bool" where
  "sized d \<longleftrightarrow> length (d_pcbs d) = 8 \<and> length (d_table d) = 8 \<and> length (d_requests d) = 8 \<and> length (d_servers d) = 2 \<and>
     d_last_pcb_idx d < 8"

definition ports_ok :: "dns \<Rightarrow> bool" where
  "ports_ok d \<longleftrightarrow> (\<forall>j<8. d_pcbs d ! j \<noteq> None \<longleftrightarrow> (\<exists>i. asking d i \<and> de_pcb_idx (entry d i) = j))"

definition txids_ok :: "dns \<Rightarrow> bool" where
  "txids_ok d \<longleftrightarrow> (\<forall>i k. asking d i \<longrightarrow> asking d k \<longrightarrow> de_txid (entry d i) = de_txid (entry d k) \<longrightarrow> i = k)"

definition requests_ok :: "dns \<Rightarrow> bool" where
  "requests_ok d \<longleftrightarrow> (\<forall>r. waits d r \<longrightarrow> asking d (rq_idx (d_requests d ! r)))"

definition dns_inv :: "dns \<Rightarrow> bool" where
  "dns_inv d \<longleftrightarrow> sized d \<and> (\<forall>i<8. entry_ok (entry d i)) \<and> ports_ok d \<and> txids_ok d \<and> requests_ok d"

lemma inv_static: "dns_inv dns_static"
  by (auto simp: dns_inv_def sized_def entry_ok_def name_ok_def ports_ok_def txids_ok_def requests_ok_def asking_def waits_def
      dns_static_def entry_zero_def dns_sizes)

lemma upd_entry_simps [simp]:
  "d_pcbs (upd_entry i f d) = d_pcbs d" "d_requests (upd_entry i f d) = d_requests d" "d_servers (upd_entry i f d) = d_servers d"
  "d_last_pcb_idx (upd_entry i f d) = d_last_pcb_idx d" "d_seqno (upd_entry i f d) = d_seqno d" "d_out (upd_entry i f d) = d_out d"
  "d_fault (upd_entry i f d) = d_fault d"
  "length (d_table (upd_entry i f d)) = length (d_table d)"
  by (simp_all add: upd_entry_def)

lemma upd_entry_nth: "i < length (d_table d) \<Longrightarrow> entry (upd_entry i f d) k = (if k = i then f (entry d i) else entry d k)"
  by (simp add: upd_entry_def nth_list_update)

lemma upd_entry_upd: "i < length (d_table d) \<Longrightarrow> upd_entry i f (upd_entry i g d) = upd_entry i (\<lambda>x. f (g x)) d"
  by (simp add: upd_entry_def)

text \<open>Entries change while they ask: timer, retries and server.\<close>

lemma inv_retry:
  assumes "dns_inv d" "asking d i" "de_state (f (entry d i)) = DNS_STATE_ASKING" "de_txid (f (entry d i)) = de_txid (entry d i)"
    "de_pcb_idx (f (entry d i)) = de_pcb_idx (entry d i)" "entry_ok (f (entry d i))"
  shows "dns_inv (upd_entry i f d)" "asking (upd_entry i f d) k = asking d k"
proof -
  have i: "i < 8" "length (d_table d) = 8" using assms(1,2) by (simp_all add: asking_def dns_inv_def sized_def)
  note nth = upd_entry_nth [of i d f]
  show a: "asking (upd_entry i f d) k = asking d k" for k using assms(2,3) i nth by (auto simp: asking_def)
  have s: "de_pcb_idx (entry (upd_entry i f d) k) = de_pcb_idx (entry d k)" "de_txid (entry (upd_entry i f d) k) = de_txid (entry d k)" for k
    using assms(4,5) i nth by auto
  have "ports_ok (upd_entry i f d)" using assms(1) by (simp add: ports_ok_def dns_inv_def a s)
  moreover have "txids_ok (upd_entry i f d)" using assms(1) by (simp add: txids_ok_def dns_inv_def a s)
  moreover have "requests_ok (upd_entry i f d)" using assms(1) by (auto simp: requests_ok_def dns_inv_def a waits_def)
  moreover have "sized (upd_entry i f d)" using assms(1) by (auto simp: sized_def dns_inv_def)
  moreover have "\<forall>k<8. entry_ok (entry (upd_entry i f d) k)" using assms(1,6) i nth by (auto simp: dns_inv_def)
  ultimately show "dns_inv (upd_entry i f d)" by (simp add: dns_inv_def)
qed

section \<open>An entry comes to its end\<close>

definition release :: "nat \<Rightarrow> dns_req_entry \<Rightarrow> dns_req_entry" where
  "release i r = (if rq_found r \<and> rq_idx r = i then r\<lparr>rq_found := False\<rparr> else r)"

definition shared_port :: "dns \<Rightarrow> nat \<Rightarrow> bool" where
  "shared_port d i \<longleftrightarrow> (\<exists>k. k \<noteq> i \<and> asking d k \<and> de_pcb_idx (entry d k) = de_pcb_idx (entry d i))"

definition answers_to :: "dns \<Rightarrow> nat \<Rightarrow> u32 option \<Rightarrow> dns_out list" where
  "answers_to d i addr =
     map (\<lambda>r. Found (cstr (de_name (entry d i))) addr (rq_arg r)) (filter (\<lambda>r. rq_found r \<and> rq_idx r = i) (d_requests d))"

text \<open>The callbacks are made, the port is closed unless another entry asks from it, and the entry becomes \<open>x\<close>.\<close>

definition close_entry :: "nat \<Rightarrow> u32 option \<Rightarrow> dns_table_entry \<Rightarrow> dns \<Rightarrow> dns" where
  "close_entry i addr x d =
     d\<lparr>d_requests := map (release i) (d_requests d),
       d_out := d_out d @ answers_to d i addr @
         (if shared_port d i then [] else map Port_close (case d_pcbs d ! de_pcb_idx (entry d i) of Some p \<Rightarrow> [p] | None \<Rightarrow> [])),
       d_pcbs := (if shared_port d i then d_pcbs d else (d_pcbs d)[de_pcb_idx (entry d i) := None]),
       d_table := (d_table d)[i := x]\<rparr>"

lemma call_found_close:
  assumes "length (d_table d) = 8" "i < 8" "de_pcb_idx (entry d i) < 8"
  shows "dns_call_found i addr d = close_entry i addr ((entry d i)\<lparr>de_pcb_idx := 8\<rparr>) d"
proof -
  have "list_ex (\<lambda>k. k \<noteq> i \<and> de_state (entry d k) = DNS_STATE_ASKING \<and> de_pcb_idx (entry d k) = de_pcb_idx (entry d i)) [0..<8] = shared_port d i"
    by (auto simp: list_ex_iff shared_port_def asking_def)
  then show ?thesis
    using assms
    by (auto simp: dns_call_found_def close_entry_def dns_emit_def upd_entry_def answers_to_def release_def Let_def dns_sizes
        split: option.split)
qed

lemma close_simps [simp]:
  "d_servers (close_entry i addr x d) = d_servers d" "d_fault (close_entry i addr x d) = d_fault d"
  by (simp_all add: close_entry_def)

lemma waits_close: "length (d_requests d) = 8 \<Longrightarrow> waits (close_entry i addr x d) r \<longleftrightarrow> waits d r \<and> rq_idx (d_requests d ! r) \<noteq> i"
  by (auto simp: waits_def close_entry_def release_def split: if_splits)

lemma request_close:
  "length (d_requests d) = 8 \<Longrightarrow> waits (close_entry i addr x d) r \<Longrightarrow> d_requests (close_entry i addr x d) ! r = d_requests d ! r"
  by (auto simp: waits_def close_entry_def release_def split: if_splits)

lemma asking_close:
  assumes "length (d_table d) = 8" "i < 8" "de_state x \<noteq> DNS_STATE_ASKING"
  shows "asking (close_entry i addr x d) k \<longleftrightarrow> asking d k \<and> k \<noteq> i"
  using assms by (auto simp: asking_def close_entry_def nth_list_update)

lemma entry_close: "length (d_table d) = 8 \<Longrightarrow> k \<noteq> i \<Longrightarrow> entry (close_entry i addr x d) k = entry d k"
  by (simp add: close_entry_def)

lemma inv_close:
  assumes inv: "dns_inv d" and i: "asking d i" and x: "entry_ok x" "de_state x \<noteq> DNS_STATE_ASKING"
  shows "dns_inv (close_entry i addr x d)"
proof -
  let ?d = "close_entry i addr x d" and ?j = "de_pcb_idx (entry d i)"
  have l: "length (d_table d) = 8" "length (d_requests d) = 8" "length (d_pcbs d) = 8" using inv by (simp_all add: dns_inv_def sized_def)
  have j: "?j < 8" using inv i by (auto simp: dns_inv_def entry_ok_def asking_def)
  have i8: "i < 8" using i by (simp add: asking_def)
  note a = asking_close [OF l(1) i8 x(2)]
  have "ports_ok ?d"
    unfolding ports_ok_def
  proof (intro allI impI)
    fix k :: nat assume k: "k < 8"
    have old: "d_pcbs d ! k \<noteq> None \<longleftrightarrow> (\<exists>m. asking d m \<and> de_pcb_idx (entry d m) = k)" using inv k by (simp add: dns_inv_def ports_ok_def)
    have new: "(\<exists>m. asking ?d m \<and> de_pcb_idx (entry ?d m) = k) \<longleftrightarrow> (\<exists>m. asking d m \<and> m \<noteq> i \<and> de_pcb_idx (entry d m) = k)"
      using a entry_close [OF l(1)] by metis
    show "d_pcbs ?d ! k \<noteq> None \<longleftrightarrow> (\<exists>m. asking ?d m \<and> de_pcb_idx (entry ?d m) = k)"
    proof (cases "k = ?j")
      case True
      then have "d_pcbs ?d ! k \<noteq> None \<longleftrightarrow> shared_port d i"
        using old i j l(3) by (auto simp: close_entry_def)
      then show ?thesis unfolding new using True by (auto simp: shared_port_def)
    next
      case False
      then have "d_pcbs ?d ! k = d_pcbs d ! k" by (simp add: close_entry_def)
      then show ?thesis unfolding new using old False by auto
    qed
  qed
  moreover have "txids_ok ?d" using inv a entry_close [OF l(1)] by (auto simp: dns_inv_def txids_ok_def)
  moreover have "requests_ok ?d"
    using inv a waits_close [OF l(2)] request_close [OF l(2)] by (auto simp: dns_inv_def requests_ok_def)
  moreover have "sized ?d" using inv by (simp add: dns_inv_def sized_def close_entry_def)
  moreover have "\<forall>k<8. entry_ok (entry ?d k)" using inv x l(1) i8 by (auto simp: dns_inv_def close_entry_def nth_list_update)
  ultimately show ?thesis by (simp add: dns_inv_def)
qed

section \<open>What a step does to the requests\<close>

definition callbacks :: "dns_out list \<Rightarrow> nat multiset" where
  "callbacks os = mset (List.map_filter (\<lambda>x. case x of Found _ _ a \<Rightarrow> Some a | _ \<Rightarrow> None) os)"

lemma callbacks_simps [simp]:
  "callbacks [] = {#}" "callbacks (xs @ ys) = callbacks xs + callbacks ys" "callbacks [Query a b c] = {#}" "callbacks [Port_open q] = {#}"
  "callbacks (map Port_close ps) = {#}"
  by (simp_all add: callbacks_def map_filter_def)

definition held :: "dns \<Rightarrow> nat set" where
  "held d = {r. waits d r}"

lemma finite_held [simp]: "finite (held d)"
  by (rule finite_subset [of _ "{..<8}"]) (auto simp: held_def waits_def)

definition args :: "dns \<Rightarrow> nat set \<Rightarrow> nat multiset" where
  "args d R = image_mset (\<lambda>r. rq_arg (d_requests d ! r)) (mset_set R)"

lemma args_Un: "finite A \<Longrightarrow> finite B \<Longrightarrow> A \<inter> B = {} \<Longrightarrow> args d (A \<union> B) = args d A + args d B"
  by (simp add: args_def mset_set_Union)

lemma args_cong: "(\<And>r. r \<in> A \<Longrightarrow> d_requests d ! r = d_requests d' ! r) \<Longrightarrow> args d A = args d' A"
  by (cases "finite A") (auto simp: args_def intro!: image_mset_cong)

lemma args_mono: "finite B \<Longrightarrow> A \<subseteq> B \<Longrightarrow> args d A \<subseteq># args d B"
  by (simp add: args_def image_mset_subseteq_mono subset_imp_msubset_mset_set)

text \<open>Ticks until an entry that asks gives up: the timer runs 1, 1, 2 and 3 ticks for each of two servers.\<close>

definition rank :: "dns \<Rightarrow> nat \<Rightarrow> nat" where
  "rank d i = unat (de_tmr (entry d i)) + (if unat (de_retries (entry d i)) = 0 then 6 else if unat (de_retries (entry d i)) = 1 then 5
     else if unat (de_retries (entry d i)) = 2 then 3 else 0) + 7 * (1 - de_server_idx (entry d i))"

text \<open>The requests in \<open>R\<close> get their callback, the others stay, and the entries they wait on come closer to their end by \<open>c\<close>.\<close>

definition moves :: "(nat \<Rightarrow> nat) \<Rightarrow> nat set \<Rightarrow> dns \<Rightarrow> dns \<Rightarrow> bool" where
  "moves c R d d' \<longleftrightarrow> (\<exists>os. d_out d' = d_out d @ os \<and> callbacks os = args d R) \<and> R \<subseteq> held d \<and> held d' = held d - R \<and>
     (\<forall>r\<in>held d - R. d_requests d' ! r = d_requests d ! r \<and>
        rank d' (rq_idx (d_requests d ! r)) + c (rq_idx (d_requests d ! r)) \<le> rank d (rq_idx (d_requests d ! r)))"

lemma moves_trans:
  assumes "moves c R d d1" "moves c' R' d1 d2"
  shows "moves (\<lambda>i. c i + c' i) (R \<union> R') d d2"
proof -
  obtain os os' where os: "d_out d1 = d_out d @ os" "callbacks os = args d R" "d_out d2 = d_out d1 @ os'" "callbacks os' = args d1 R'"
    using assms by (auto simp: moves_def)
  have s: "R \<subseteq> held d" "R' \<subseteq> held d - R" "held d2 = held d - (R \<union> R')" using assms by (auto simp: moves_def)
  have f: "finite R" "finite R'" using s finite_held by (meson finite_subset Diff_subset)+
  have q: "d_requests d1 ! r = d_requests d ! r" if "r \<in> held d - R" for r using assms(1) that by (simp add: moves_def)
  have "args d1 R' = args d R'" using q s by (intro args_cong) auto
  then have "callbacks (os @ os') = args d (R \<union> R')" using os s f by (subst args_Un) auto
  moreover have "\<forall>r\<in>held d - (R \<union> R'). d_requests d2 ! r = d_requests d ! r \<and>
      rank d2 (rq_idx (d_requests d ! r)) + (c (rq_idx (d_requests d ! r)) + c' (rq_idx (d_requests d ! r))) \<le> rank d (rq_idx (d_requests d ! r))"
  proof
    fix r assume r: "r \<in> held d - (R \<union> R')"
    then have "r \<in> held d1 - R'" using assms(1) by (auto simp: moves_def)
    then have "d_requests d2 ! r = d_requests d1 ! r \<and>
        rank d2 (rq_idx (d_requests d1 ! r)) + c' (rq_idx (d_requests d1 ! r)) \<le> rank d1 (rq_idx (d_requests d1 ! r))"
      using assms(2) by (simp add: moves_def)
    moreover have "d_requests d1 ! r = d_requests d ! r \<and>
        rank d1 (rq_idx (d_requests d ! r)) + c (rq_idx (d_requests d ! r)) \<le> rank d (rq_idx (d_requests d ! r))"
      using assms(1) r by (simp add: moves_def)
    ultimately show "d_requests d2 ! r = d_requests d ! r \<and> rank d2 (rq_idx (d_requests d ! r)) +
        (c (rq_idx (d_requests d ! r)) + c' (rq_idx (d_requests d ! r))) \<le> rank d (rq_idx (d_requests d ! r))" by simp
  qed
  ultimately show ?thesis using os s by (auto simp: moves_def)
qed

lemma moves_mono: "moves c R d d' \<Longrightarrow> (\<And>i. c' i \<le> c i) \<Longrightarrow> moves c' R d d'"
  unfolding moves_def by (meson add_le_mono order_refl order_trans)

lemma moves_quiet:
  assumes "d_requests d' = d_requests d" "d_out d' = d_out d @ os" "callbacks os = {#}"
    "\<And>r. waits d r \<Longrightarrow> rank d' (rq_idx (d_requests d ! r)) + c (rq_idx (d_requests d ! r)) \<le> rank d (rq_idx (d_requests d ! r))"
  shows "moves c {} d d'"
  using assms by (auto simp: moves_def args_def held_def waits_def)

lemma moves_close:
  assumes "dns_inv d" "asking d i"
  shows "moves (\<lambda>k. of_bool (k = i)) {r. waits d r \<and> rq_idx (d_requests d ! r) = i} d (close_entry i addr x d)"
proof -
  let ?R = "{r. waits d r \<and> rq_idx (d_requests d ! r) = i}"
  have l: "length (d_table d) = 8" "length (d_requests d) = 8" using assms(1) by (simp_all add: dns_inv_def sized_def)
  have "mset (map rq_arg (filter (\<lambda>r. rq_found r \<and> rq_idx r = i) (d_requests d))) = args d ?R"
  proof -
    have "filter (\<lambda>r. rq_found r \<and> rq_idx r = i) (d_requests d) = map ((!) (d_requests d)) (filter (\<lambda>r. r \<in> ?R) [0..<8])"
      using l(2) by (subst (1) map_nth [of "d_requests d", symmetric]) (auto simp: filter_map comp_def waits_def intro!: arg_cong [where f = "map ((!) (d_requests d))"] filter_cong)
    moreover have "mset (filter (\<lambda>r. r \<in> ?R) [0..<8]) = mset_set ?R"
      by (subst mset_set_set [symmetric]) (auto simp: waits_def intro!: arg_cong [where f = mset_set])
    ultimately show ?thesis by (simp add: args_def) (metis (no_types, lifting) mset_map multiset.map_comp comp_def)
  qed
  then have "callbacks (answers_to d i addr) = args d ?R"
    by (simp add: callbacks_def answers_to_def map_filter_def comp_def)
  moreover have "held (close_entry i addr x d) = held d - ?R" using waits_close [OF l(2)] by (auto simp: held_def)
  moreover have "d_requests (close_entry i addr x d) ! r = d_requests d ! r \<and> rank (close_entry i addr x d) (rq_idx (d_requests d ! r)) = rank d (rq_idx (d_requests d ! r))"
    if "r \<in> held d - ?R" for r
    using that l request_close [OF l(2)] waits_close [OF l(2)] entry_close [OF l(1)] by (auto simp: held_def rank_def)
  ultimately show ?thesis by (auto simp: moves_def close_entry_def held_def)
qed

lemma rank_pos:
  assumes "dns_inv d" "asking d i" shows "1 \<le> rank d i \<and> rank d i \<le> 14"
proof -
  have "entry_ok (entry d i)" "de_state (entry d i) = DNS_STATE_ASKING" using assms by (simp_all add: dns_inv_def asking_def)
  then have "1 \<le> unat (de_tmr (entry d i))" "unat (de_tmr (entry d i)) \<le> max 1 (unat (de_retries (entry d i)))"
    "unat (de_retries (entry d i)) \<le> 3" by (simp_all add: entry_ok_def)
  moreover define t where "t = unat (de_tmr (entry d i))"
  moreover define r where "r = unat (de_retries (entry d i))"
  ultimately show ?thesis unfolding rank_def t_def [symmetric] r_def [symmetric] by simp arith
qed

text \<open>An entry that does not ask has no requests waiting on it.\<close>

lemma idle_request: "dns_inv d \<Longrightarrow> \<not> asking d i \<Longrightarrow> waits d r \<Longrightarrow> rq_idx (d_requests d ! r) \<noteq> i"
  by (auto simp: dns_inv_def requests_ok_def)

lemma inv_idle:
  assumes "dns_inv d" "i < 8" "\<not> asking d i" "entry_ok (f (entry d i))" "de_state (f (entry d i)) \<noteq> DNS_STATE_ASKING"
  shows "dns_inv (upd_entry i f d)" "moves (\<lambda>k. of_bool (k = i)) {} d (upd_entry i f d)"
proof -
  have l: "length (d_table d) = 8" using assms(1) by (simp add: dns_inv_def sized_def)
  note nth = upd_entry_nth [of i d f]
  have a: "asking (upd_entry i f d) k = asking d k" for k using assms(2,3,5) l nth by (auto simp: asking_def)
  have e: "entry (upd_entry i f d) k = entry d k" if "asking d k" for k using that assms(2,3) l nth by auto
  have "ports_ok (upd_entry i f d)" using assms(1) e by (auto simp: ports_ok_def dns_inv_def a)
  moreover have "txids_ok (upd_entry i f d)" using assms(1) e by (auto simp: txids_ok_def dns_inv_def a)
  moreover have "requests_ok (upd_entry i f d)" using assms(1) by (auto simp: requests_ok_def dns_inv_def a waits_def)
  moreover have "sized (upd_entry i f d)" using assms(1) by (auto simp: sized_def dns_inv_def)
  moreover have "\<forall>k<8. entry_ok (entry (upd_entry i f d) k)" using assms(1,2,4) l nth by (auto simp: dns_inv_def)
  ultimately show "dns_inv (upd_entry i f d)" by (simp add: dns_inv_def)
  show "moves (\<lambda>k. of_bool (k = i)) {} d (upd_entry i f d)"
  proof (rule moves_quiet [where os = "[]"])
    fix r assume "waits d r"
    with idle_request [OF assms(1,3)] have "rq_idx (d_requests d ! r) \<noteq> i" .
    then show "rank (upd_entry i f d) (rq_idx (d_requests d ! r)) + of_bool (rq_idx (d_requests d ! r) = i) \<le> rank d (rq_idx (d_requests d ! r))"
      using assms(2) l nth by (simp add: rank_def)
  qed simp_all
qed

lemma moves_retry:
  assumes "dns_inv d" "i < 8" "rank (upd_entry i f d) i + n \<le> rank d i"
  shows "moves (\<lambda>k. if k = i then n else 0) {} d (upd_entry i f d)"
proof (rule moves_quiet [where os = "[]"])
  fix r
  have "length (d_table d) = 8" using assms(1) by (simp add: dns_inv_def sized_def)
  then have "rank (upd_entry i f d) k = rank d k" if "k \<noteq> i" for k using assms(2) that by (simp add: rank_def upd_entry_nth)
  then show "rank (upd_entry i f d) (rq_idx (d_requests d ! r)) + (if rq_idx (d_requests d ! r) = i then n else 0) \<le> rank d (rq_idx (d_requests d ! r))"
    using assms(3) by simp
qed simp_all

section \<open>The operations\<close>

lemma flush_close:
  assumes "dns_inv d" "asking d i"
  shows "flush_entry i (dns_call_found i addr d) = close_entry i addr ((entry d i)\<lparr>de_pcb_idx := 8, de_state := DNS_STATE_UNUSED\<rparr>) d"
proof -
  have "length (d_table d) = 8" "i < 8" "de_pcb_idx (entry d i) < 8" using assms by (auto simp: dns_inv_def sized_def asking_def entry_ok_def)
  then show ?thesis by (simp add: call_found_close flush_entry_def close_entry_def upd_entry_def)
qed

lemma unused_ok: "dns_inv d \<Longrightarrow> i < 8 \<Longrightarrow> entry_ok ((entry d i)\<lparr>de_pcb_idx := 8, de_state := DNS_STATE_UNUSED\<rparr>)"
  by (auto simp: dns_inv_def entry_ok_def)

lemma given_up:
  assumes "dns_inv d" "asking d i"
  shows "dns_inv (flush_entry i (dns_call_found i addr d))"
    "moves (\<lambda>k. of_bool (k = i)) {r. waits d r \<and> rq_idx (d_requests d ! r) = i} d (flush_entry i (dns_call_found i addr d))"
  unfolding flush_close [OF assms] using assms unused_ok [OF assms(1)]
  by (auto simp: asking_def intro!: inv_close moves_close)

lemma inv_emit: "dns_inv d \<Longrightarrow> dns_inv (dns_emit os d)"
  by (simp add: dns_inv_def dns_emit_def sized_def ports_ok_def txids_ok_def requests_ok_def asking_def waits_def)

lemma moves_emit: "callbacks os = {#} \<Longrightarrow> moves (\<lambda>k. 0) {} d (dns_emit os d)"
  by (rule moves_quiet) (simp_all add: dns_emit_def rank_def)

lemma send_serves:
  assumes "dns_inv d" "asking d i"
  shows "dns_inv (fst (dns_send i v d)) \<and> (\<exists>R. moves (\<lambda>k. 0) R d (fst (dns_send i v d)))"
proof (cases "d_servers d ! de_server_idx (entry d i) = 0")
  case True
  then show ?thesis using given_up [OF assms, of None] moves_mono [OF given_up(2) [OF assms, of None], of "\<lambda>k. 0"]
    by (auto simp: dns_send_def)
next
  case False
  have q: "moves (\<lambda>k. 0) {} d d" by (rule moves_quiet [where os = "[]"]) simp_all
  have "callbacks (case p of Some port \<Rightarrow> [Query port a m] | None \<Rightarrow> []) = {#}" for p a m by (cases p) simp_all
  then show ?thesis using False assms(1) q
    by (auto simp: dns_send_def Let_def intro!: inv_emit exI [of _ "{}"] moves_emit split: option.split)
qed

lemma close_upd:
  assumes "i < length (d_table d)" "de_pcb_idx (f (entry d i)) = de_pcb_idx (entry d i)" "de_name (f (entry d i)) = de_name (entry d i)"
  shows "close_entry i addr x (upd_entry i f d) = close_entry i addr x d"
proof -
  have "shared_port (upd_entry i f d) i = shared_port d i" using assms(1,2) by (auto simp: shared_port_def asking_def upd_entry_nth)
  moreover have "answers_to (upd_entry i f d) i addr = answers_to d i addr" using assms(1,3) by (simp add: answers_to_def upd_entry_nth)
  moreover have "(d_table (upd_entry i f d))[i := x] = (d_table d)[i := x]" by (simp add: upd_entry_def)
  ultimately show ?thesis using assms(1,2) by (simp add: close_entry_def upd_entry_nth)
qed

text \<open>An entry that gives up: its last state before the callbacks does not matter.\<close>

lemma given_up_after:
  assumes "dns_inv d" "asking d i" "de_pcb_idx (f (entry d i)) = de_pcb_idx (entry d i)" "de_name (f (entry d i)) = de_name (entry d i)"
  shows "dns_inv (flush_entry i (dns_call_found i addr (upd_entry i f d)))"
    "moves (\<lambda>k. of_bool (k = i)) {r. waits d r \<and> rq_idx (d_requests d ! r) = i} d (flush_entry i (dns_call_found i addr (upd_entry i f d)))"
proof -
  let ?x = "(f (entry d i))\<lparr>de_pcb_idx := 8, de_state := DNS_STATE_UNUSED\<rparr>"
  have i: "i < 8" "length (d_table d) = 8" "de_pcb_idx (entry d i) < 8" using assms by (auto simp: dns_inv_def sized_def asking_def entry_ok_def)
  have "dns_call_found i addr (upd_entry i f d) = close_entry i addr ((f (entry d i))\<lparr>de_pcb_idx := 8\<rparr>) d"
    using call_found_close [of "upd_entry i f d" i addr] close_upd [of i d f addr] i assms(3,4) by (simp add: upd_entry_nth)
  then have "flush_entry i (dns_call_found i addr (upd_entry i f d)) = close_entry i addr ?x d"
    using i by (simp add: flush_entry_def close_entry_def upd_entry_def)
  moreover have "entry_ok ?x" using assms(1,4) i by (auto simp: dns_inv_def entry_ok_def)
  ultimately show "dns_inv (flush_entry i (dns_call_found i addr (upd_entry i f d)))"
    "moves (\<lambda>k. of_bool (k = i)) {r. waits d r \<and> rq_idx (d_requests d ! r) = i} d (flush_entry i (dns_call_found i addr (upd_entry i f d)))"
    using assms(1,2) by (auto intro!: inv_close moves_close)
qed

text \<open>An entry sends again, from a state \<open>n\<close> ticks closer to its end.\<close>

lemma resend:
  assumes "dns_inv d" "asking d i" "de_state (f (entry d i)) = DNS_STATE_ASKING" "de_txid (f (entry d i)) = de_txid (entry d i)"
    "de_pcb_idx (f (entry d i)) = de_pcb_idx (entry d i)" "entry_ok (f (entry d i))" "rank (upd_entry i f d) i + 1 \<le> rank d i"
  shows "dns_inv (fst (dns_send i v (upd_entry i f d))) \<and> (\<exists>R. moves (\<lambda>k. of_bool (k = i)) R d (fst (dns_send i v (upd_entry i f d))))"
proof -
  note r = inv_retry [where f = f, OF assms(1-6)]
  have "asking (upd_entry i f d) i" using r(2) assms(2) by simp
  from send_serves [OF r(1) this, of v] obtain R where
    R: "dns_inv (fst (dns_send i v (upd_entry i f d)))" "moves (\<lambda>k. 0) R (upd_entry i f d) (fst (dns_send i v (upd_entry i f d)))" by blast
  have "i < 8" using assms(2) by (simp add: asking_def)
  from moves_trans [OF moves_retry [OF assms(1) this assms(7)] R(2)] R(1) show ?thesis
    by (auto simp: of_bool_def intro: moves_mono)
qed

lemma u8_dec: "(x :: u8) \<noteq> 0 \<Longrightarrow> unat (x - 1) = unat x - 1"
  by (simp add: unat_minus_one)

lemma u8_inc: "unat (x :: u8) \<le> 3 \<Longrightarrow> unat (x + 1) = unat x + 1"
  by (simp add: unat_plus_if')

lemma check_asking:
  assumes inv: "dns_inv d" and a: "asking d i"
  shows "\<exists>d' R. dns_check_entry i v d e = Some (d', e) \<and> dns_inv d' \<and> moves (\<lambda>k. of_bool (k = i)) R d d'"
proof -
  let ?x = "entry d i"
  have i: "i < 8" "length (d_table d) = 8" "de_state ?x = DNS_STATE_ASKING" using inv a by (simp_all add: dns_inv_def sized_def asking_def)
  have x: "name_ok (de_name ?x)" "1 \<le> unat (de_tmr ?x)" "unat (de_tmr ?x) \<le> max 1 (unat (de_retries ?x))" "unat (de_retries ?x) \<le> 3" "de_server_idx ?x < 2" "de_pcb_idx ?x < 8"
    using inv i by (auto simp: dns_inv_def entry_ok_def)
  have nz: "de_tmr ?x \<noteq> 0" using x(2) by auto
  note t = u8_dec [OF nz] and r = u8_inc [OF x(4)]
  note rk = rank_def [of d i] and nth = upd_entry_nth [of i d _ i]
  consider (wait) "de_tmr ?x - 1 \<noteq> 0" | (next_server) "de_tmr ?x - 1 = 0" "de_retries ?x + 1 = DNS_MAX_RETRIES" "dns_backupserver_available ?x d"
    | (stop) "de_tmr ?x - 1 = 0" "de_retries ?x + 1 = DNS_MAX_RETRIES" "\<not> dns_backupserver_available ?x d"
    | (again) "de_tmr ?x - 1 = 0" "de_retries ?x + 1 \<noteq> DNS_MAX_RETRIES" by blast
  then show ?thesis
  proof cases
    case wait
    let ?f = "\<lambda>x. x\<lparr>de_tmr := de_tmr x - 1\<rparr>"
    have u: "unat (de_tmr ?x) \<noteq> 1" using wait t by (metis diff_self_eq_0 unat_eq_zero)
    have ok: "entry_ok (?f ?x)" using x t u i by (auto simp: entry_ok_def)
    have "rank (upd_entry i ?f d) i + 1 \<le> rank d i" using i t x(2) u by (simp add: rank_def upd_entry_nth)
    from moves_retry [OF inv i(1) this] inv_retry(1) [where f = ?f, OF inv a _ _ _ ok] i wait show ?thesis
      by (auto simp: dns_check_entry_def Let_def of_bool_def)
  next
    case next_server
    let ?f = "\<lambda>x. x\<lparr>de_server_idx := de_server_idx x + 1, de_tmr := 1, de_retries := 0\<rparr>"
    have s: "de_server_idx ?x = 0" using next_server(3) by (simp add: dns_backupserver_available_def dns_sizes)
    have ok: "entry_ok (?f ?x)" using x i s by (auto simp: entry_ok_def)
    have "rank (upd_entry i ?f d) i + 1 \<le> rank d i" using i x(2) s by (simp add: rank_def upd_entry_nth)
    from resend [where f = ?f, OF inv a _ _ _ ok this, of v] obtain R where
      "dns_inv (fst (dns_send i v (upd_entry i ?f d)))" "moves (\<lambda>k. of_bool (k = i)) R d (fst (dns_send i v (upd_entry i ?f d)))" using i by auto
    then show ?thesis using next_server i by (auto simp: dns_check_entry_def Let_def upd_entry_upd dns_backupserver_available_def)
  next
    case stop
    then show ?thesis using i given_up_after [where f = "\<lambda>x. x\<lparr>de_tmr := de_tmr x - 1, de_retries := de_retries x + 1\<rparr>", OF inv a, of None]
      by (auto simp: dns_check_entry_def Let_def upd_entry_upd dns_backupserver_available_def)
  next
    case again
    let ?f = "\<lambda>x. x\<lparr>de_retries := de_retries x + 1, de_tmr := de_retries x + 1\<rparr>"
    have u: "unat (de_tmr ?x) = 1" "unat (de_retries ?x) \<noteq> 3"
      using again t r x(2) by (auto simp: DNS_MAX_RETRIES_def word_unat_eq_iff)
    then have ok: "entry_ok (?f ?x)" using x i r by (auto simp: entry_ok_def)
    have "rank (upd_entry i ?f d) i + 1 \<le> rank d i" using i u x(4) r by (auto simp: rank_def upd_entry_nth)
    from resend [where f = ?f, OF inv a _ _ _ ok this, of v] obtain R where
      "dns_inv (fst (dns_send i v (upd_entry i ?f d)))" "moves (\<lambda>k. of_bool (k = i)) R d (fst (dns_send i v (upd_entry i ?f d)))" using i by auto
    then show ?thesis using again i by (auto simp: dns_check_entry_def Let_def upd_entry_upd)
  qed
qed

lemma moves_idle: "dns_inv d \<Longrightarrow> \<not> asking d i \<Longrightarrow> moves (\<lambda>k. of_bool (k = i)) {} d d"
  using idle_request [of d i] by (intro moves_quiet [where os = "[]"]) auto

lemma check_serves:
  assumes inv: "dns_inv d" and i: "i < 8"
  shows "\<exists>d' R. dns_check_entry i v d e = Some (d', e) \<and> dns_inv d' \<and> moves (\<lambda>k. of_bool (k = i)) R d d'"
proof -
  have ok: "entry_ok (entry d i)" "length (d_table d) = 8" using inv i by (simp_all add: dns_inv_def sized_def)
  show ?thesis
  proof (cases "de_state (entry d i)")
    case DNS_STATE_UNUSED
    then show ?thesis using inv moves_idle [OF inv, of i] by (auto simp: dns_check_entry_def asking_def)
  next
    case DNS_STATE_NEW
    then show ?thesis using ok by (simp add: entry_ok_def)
  next
    case DNS_STATE_ASKING
    then show ?thesis using check_asking [OF inv] i by (simp add: asking_def)
  next
    case DNS_STATE_DONE
    then have na: "\<not> asking d i" by (simp add: asking_def)
    have one: "dns_inv (upd_entry i f d) \<and> moves (\<lambda>k. of_bool (k = i)) {} d (upd_entry i f d)"
      if "entry_ok (f (entry d i))" "de_state (f (entry d i)) \<noteq> DNS_STATE_ASKING" for f
      using inv_idle [where f = f, OF inv i na that] by simp
    have o: "entry_ok ((entry d i)\<lparr>de_state := DNS_STATE_UNUSED\<rparr>)" "entry_ok ((entry d i)\<lparr>de_ttl := a\<rparr>)"
      "entry_ok ((entry d i)\<lparr>de_ttl := a, de_state := DNS_STATE_UNUSED\<rparr>)" for a
      using ok(1) DNS_STATE_DONE by (auto simp: entry_ok_def)
    show ?thesis
      using DNS_STATE_DONE ok(2) i one [of "\<lambda>x. x\<lparr>de_state := DNS_STATE_UNUSED\<rparr>"] one [of "\<lambda>x. x\<lparr>de_ttl := de_ttl x - 1\<rparr>"]
        one [of "\<lambda>x. x\<lparr>de_ttl := de_ttl x - 1, de_state := DNS_STATE_UNUSED\<rparr>"] o
      by (auto simp: dns_check_entry_def flush_entry_def Let_def upd_entry_upd)
  qed
qed

lemma check_from_serves:
  "dns_inv d \<Longrightarrow> list_all (\<lambda>i. i < 8) is \<Longrightarrow>
   \<exists>d' R. check_from is v d e = Some (d', e) \<and> dns_inv d' \<and> moves (\<lambda>k. count_list is k) R d d'"
proof (induction "is" arbitrary: d)
  case Nil
  have "moves (\<lambda>k. 0) {} d d" by (rule moves_quiet [where os = "[]"]) simp_all
  with Nil show ?case by auto
next
  case (Cons i "is")
  then obtain d1 R1 where 1: "dns_check_entry i (v i) d e = Some (d1, e)" "dns_inv d1" "moves (\<lambda>k. of_bool (k = i)) R1 d d1"
    using check_serves [of d i "v i" e] by auto
  obtain d2 R2 where 2: "check_from is v d1 e = Some (d2, e)" "dns_inv d2" "moves (\<lambda>k. count_list is k) R2 d1 d2"
    using Cons.IH [OF 1(2)] Cons.prems by auto
  have "moves (\<lambda>k. count_list (i # is) k) (R1 \<union> R2) d d2"
    by (rule moves_mono [OF moves_trans [OF 1(3) 2(3)]]) simp
  then show ?case using 1(1) 2(1,2) by auto
qed

lemma tick_serves:
  assumes "dns_inv d"
  shows "\<exists>d' R. dns_tmr v d e = Some (d', e) \<and> dns_inv d' \<and> moves (\<lambda>k. of_bool (k < 8)) R d d'"
proof -
  obtain d' R where "check_from [0..<8] v d e = Some (d', e)" "dns_inv d'" "moves (\<lambda>k. count_list [0..<8] k) R d d'"
    using check_from_serves [OF assms, of "[0..<8]" v e] by (auto simp: list_all_iff)
  moreover have "of_bool (k < 8) \<le> count_list [0..<8] k" for k
  proof (cases "k < 8")
    case True
    then have "k \<in> set [0..<8]" by simp
    then have "count_list [0..<8] k \<noteq> 0" by (simp only: count_list_0_iff not_not)
    then show ?thesis by (simp add: True)
  qed simp
  ultimately show ?thesis unfolding dns_tmr_def dns_check_entries_def dns_sizes by (blast intro: moves_mono)
qed

lemma response_close:
  assumes inv: "dns_inv d" and a: "asking d i"
  shows "\<exists>x. dns_correct_response i ttl (upd_entry i (\<lambda>x. x\<lparr>de_ipaddr := ip\<rparr>) d) = close_entry i (Some ip) x d \<and>
    entry_ok x \<and> de_state x \<noteq> DNS_STATE_ASKING \<and> de_ipaddr x = ip \<and> de_name x = de_name (entry d i) \<and>
    de_state x = (if ttl = 0 then DNS_STATE_UNUSED else DNS_STATE_DONE) \<and> de_ttl x = min ttl DNS_MAX_TTL"
proof -
  define t where "t = min ttl DNS_MAX_TTL"
  let ?f = "\<lambda>x. x\<lparr>de_ipaddr := ip, de_state := DNS_STATE_DONE, de_ttl := t\<rparr>"
  let ?x = "(?f (entry d i))\<lparr>de_pcb_idx := 8\<rparr>"
  have i: "i < 8" "length (d_table d) = 8" "de_pcb_idx (entry d i) < 8" "name_ok (de_name (entry d i))"
    using assms by (auto simp: dns_inv_def sized_def asking_def entry_ok_def)
  have c: "dns_call_found i (Some ip) (upd_entry i ?f d) = close_entry i (Some ip) ?x d"
    using call_found_close [of "upd_entry i ?f d" i "Some ip"] close_upd [of i d ?f "Some ip"] i by (simp add: upd_entry_nth)
  have z: "t = 0 \<longleftrightarrow> ttl = 0" by (auto simp: t_def min_def DNS_MAX_TTL_def)
  have e: "entry (close_entry i (Some ip) ?x d) i = ?x" using i by (simp add: close_entry_def)
  have "dns_correct_response i ttl (upd_entry i (\<lambda>x. x\<lparr>de_ipaddr := ip\<rparr>) d) =
      (if ttl = 0 then flush_entry i (close_entry i (Some ip) ?x d) else close_entry i (Some ip) ?x d)"
    using i c e z by (simp add: dns_correct_response_def t_def [symmetric] Let_def upd_entry_upd upd_entry_nth)
  also have "\<dots> = close_entry i (Some ip) (if ttl = 0 then ?x\<lparr>de_state := DNS_STATE_UNUSED\<rparr> else ?x) d"
    using i by (simp add: flush_entry_def close_entry_def upd_entry_def)
  finally show ?thesis
    using i(4) by (intro exI [of _ "if ttl = 0 then ?x\<lparr>de_state := DNS_STATE_UNUSED\<rparr> else ?x"]) (simp add: entry_ok_def t_def)
qed

lemma moves_refl: "moves (\<lambda>k. 0) {} d d"
  by (rule moves_quiet [where os = "[]"]) simp_all

lemma fault_serves: "dns_inv d \<Longrightarrow> dns_inv (d\<lparr>d_fault := b\<rparr>)" "moves (\<lambda>k. 0) {} d (d\<lparr>d_fault := b\<rparr>)"
  by (simp add: dns_inv_def sized_def ports_ok_def txids_ok_def requests_ok_def asking_def waits_def)
    (rule moves_quiet [where os = "[]"], simp_all add: rank_def)

lemma recv_entry_serves:
  assumes inv: "dns_inv d" and a: "asking d i"
  shows "\<exists>d' R. recv_entry i p v d e = Some (d', e) \<and> dns_inv d' \<and> moves (\<lambda>k. 0) R d d'"
proof -
  have i: "i < 8" "length (d_table d) = 8" "entry_ok (entry d i)" "de_state (entry d i) = DNS_STATE_ASKING"
    using inv a by (simp_all add: dns_inv_def sized_def asking_def)
  have same: "dns_inv d" "moves (\<lambda>k. 0) {} d d" by (fact inv) (rule moves_refl)
  have fail: "\<exists>R. dns_inv (reply_failed i d) \<and> moves (\<lambda>k. 0) R d (reply_failed i d)"
    using given_up [OF inv a, of None] moves_mono [OF given_up(2) [OF inv a, of None], of "\<lambda>k. 0"] by (auto simp: reply_failed_def)
  have good: "\<exists>R. dns_inv (dns_correct_response i ttl (upd_entry i (\<lambda>x. x\<lparr>de_ipaddr := ip\<rparr>) d)) \<and>
      moves (\<lambda>k. 0) R d (dns_correct_response i ttl (upd_entry i (\<lambda>x. x\<lparr>de_ipaddr := ip\<rparr>) d))" for ttl ip
    using response_close [OF inv a, of ttl ip] inv_close [OF inv a] moves_mono [OF moves_close [OF inv a], of "\<lambda>k. 0"] by force
  let ?f = "\<lambda>x. x\<lparr>de_retries := DNS_MAX_RETRIES - 1, de_tmr := 1\<rparr>"
  have retry: "\<exists>d' R. dns_check_entry i v (upd_entry i ?f d) e = Some (d', e) \<and> dns_inv d' \<and> moves (\<lambda>k. 0) R d d'"
  proof -
    have ok: "entry_ok (?f (entry d i))" using i by (auto simp: entry_ok_def DNS_MAX_RETRIES_def)
    have one: "dns_inv (upd_entry i ?f d)" using inv_retry(1) [where f = ?f, OF inv a _ _ _ ok] i by simp
    have "rank (upd_entry i ?f d) i + 0 \<le> rank d i" using i by (auto simp: rank_def upd_entry_nth DNS_MAX_RETRIES_def entry_ok_def)
    from moves_retry [where f = ?f, OF inv i(1) this] have two: "moves (\<lambda>k. 0) {} d (upd_entry i ?f d)" by simp
    obtain d' R where "dns_check_entry i v (upd_entry i ?f d) e = Some (d', e)" "dns_inv d'" "moves (\<lambda>k. of_bool (k = i)) R (upd_entry i ?f d) d'"
      using check_serves [OF one i(1), of v e] by blast
    with moves_mono [OF moves_trans [OF two this(3)], of "\<lambda>k. 0"] show ?thesis by auto
  qed
  show ?thesis
    using same fail good retry fault_serves(1) [OF inv, of True] fault_serves(2) [of d True]
    unfolding recv_entry_def Let_def by (auto split: outcome.split answer.split; blast)
qed

lemma recv_serves:
  assumes inv: "dns_inv d"
  shows "\<exists>d' R. dns_recv p addr v d e = Some (d', e) \<and> dns_inv d' \<and> moves (\<lambda>k. 0) R d d'"
proof -
  have a: "asking d i" if "find (\<lambda>i. de_state (entry d i) = DNS_STATE_ASKING \<and> de_txid (entry d i) = field16 p 0) [0..<8] = Some i" for i
    using that by (auto simp: find_Some_iff asking_def)
  show ?thesis
    using inv moves_refl [of d] recv_entry_serves [OF inv a]
    by (auto simp: dns_recv_def dns_sizes split: option.split)
qed

lemma setserver_serves:
  assumes "dns_inv d" shows "dns_inv (dns_setserver n a d)" "moves (\<lambda>k. 0) {} d (dns_setserver n a d)"
  using assms
  by (simp_all add: dns_setserver_def dns_inv_def sized_def ports_ok_def txids_ok_def requests_ok_def asking_def waits_def moves_refl)
    (rule impI, rule moves_quiet [where os = "[]"], simp_all add: rank_def)

section \<open>New requests\<close>

definition adds :: "nat set \<Rightarrow> dns \<Rightarrow> dns \<Rightarrow> bool" where
  "adds N d d' \<longleftrightarrow> (\<exists>os. d_out d' = d_out d @ os \<and> callbacks os = {#}) \<and> N \<inter> held d = {} \<and> held d' = held d \<union> N \<and>
     (\<forall>r\<in>held d. d_requests d' ! r = d_requests d ! r \<and> rank d' (rq_idx (d_requests d ! r)) \<le> rank d (rq_idx (d_requests d ! r)))"

lemma free_request_Some: "free_request d = Some r \<Longrightarrow> r < 8 \<and> \<not> waits d r"
  by (auto simp: free_request_def find_Some_iff waits_def dns_sizes)

lemma pick_entry_Some:
  "pick_entry xs seqno k lseq lseqi = Some i \<Longrightarrow> (lseqi < 8 \<Longrightarrow> P lseqi) \<Longrightarrow>
   (\<And>m. m < length xs \<Longrightarrow> de_state (xs ! m) \<in> {DNS_STATE_UNUSED, DNS_STATE_DONE} \<Longrightarrow> P (k + m)) \<Longrightarrow> P i"
proof (induction xs arbitrary: k lseq lseqi)
  case Nil
  then show ?case by (simp add: dns_sizes split: if_splits)
next
  case (Cons x xs)
  have step: "P (Suc k + m)" if "m < length xs" "de_state (xs ! m) \<in> {DNS_STATE_UNUSED, DNS_STATE_DONE}" for m
    using Cons.prems(3) [of "Suc m"] that by simp
  have here: "P k" if "de_state x \<in> {DNS_STATE_UNUSED, DNS_STATE_DONE}" using Cons.prems(3) [of 0] that by simp
  show ?case
  proof (cases "de_state x = DNS_STATE_UNUSED")
    case True
    then show ?thesis using Cons.prems(1) here by simp
  next
    case False
    show ?thesis
    proof (cases "de_state x = DNS_STATE_DONE \<and> seqno - de_seqno x > lseq")
      case t: True
      then have "pick_entry xs seqno (Suc k) (seqno - de_seqno x) k = Some i" using Cons.prems(1) by simp
      from Cons.IH [OF this _ step] show ?thesis using here t by simp
    next
      case f: False
      then have "pick_entry xs seqno (Suc k) lseq lseqi = Some i" using Cons.prems(1) False by (simp only: pick_entry.simps if_False Suc_eq_plus1)
      from Cons.IH [OF this Cons.prems(2) step] show ?thesis .
    qed
  qed
qed

lemma pick_entry_idle:
  assumes "length (d_table d) = 8" "pick_entry (d_table d) s 0 0 DNS_TABLE_SIZE = Some i"
  shows "i < 8 \<and> \<not> asking d i"
  by (rule pick_entry_Some [OF assms(2)]) (use assms(1) in \<open>auto simp: asking_def dns_sizes\<close>)

lemma create_txid_fresh:
  assumes "dns_create_txid table e = Some (txid, e')"
  shows "\<forall>x\<in>set table. de_state x = DNS_STATE_ASKING \<longrightarrow> de_txid x \<noteq> txid"
proof -
  have "\<forall>x\<in>set table. de_state x = DNS_STATE_ASKING \<longrightarrow> de_txid x \<noteq> fst r" if "dns_create_txid table e = Some r" for table e r
    by (rule dns_create_txid.raw_induct [OF _ that, where P = "\<lambda>table e r. \<forall>x\<in>set table. de_state x = DNS_STATE_ASKING \<longrightarrow> de_txid x \<noteq> fst r"])
      (auto simp: Let_def list_ex_iff split: if_splits prod.splits)
  from this [OF assms] show ?thesis by simp
qed

lemma inv_start:
  fixes s :: u8 and arg :: nat
  assumes inv: "dns_inv d" and i: "i < 8" "\<not> asking d i" and r: "r < 8" "\<not> waits d r"
    and x: "entry_ok x" "de_state x = DNS_STATE_ASKING" "\<And>k. asking d k \<Longrightarrow> de_txid (entry d k) \<noteq> de_txid x"
    and p: "length ps = 8" "\<And>j. j \<noteq> de_pcb_idx x \<Longrightarrow> ps ! j = d_pcbs d ! j" "ps ! de_pcb_idx x \<noteq> None" "l < 8" "callbacks os = {#}"
  defines "d' \<equiv> d\<lparr>d_pcbs := ps, d_last_pcb_idx := l, d_requests := (d_requests d)[r := \<lparr>rq_found = True, rq_arg = arg, rq_idx = i\<rparr>],
    d_out := d_out d @ os, d_seqno := s, d_table := (d_table d)[i := x]\<rparr>"
  shows "dns_inv d'" "asking d' i" "adds {r} d d'"
proof -
  have sz: "length (d_table d) = 8" "length (d_requests d) = 8" using inv by (simp_all add: dns_inv_def sized_def)
  have e: "entry d' k = (if k = i then x else entry d k)" for k using i(1) sz by (simp add: d'_def nth_list_update)
  have a: "asking d' k \<longleftrightarrow> k = i \<or> asking d k" for k using i x(2) e by (auto simp: asking_def)
  have q: "d_requests d' ! k = (if k = r then \<lparr>rq_found = True, rq_arg = arg, rq_idx = i\<rparr> else d_requests d ! k)" for k
    using r(1) sz by (simp add: d'_def nth_list_update)
  have w: "waits d' k \<longleftrightarrow> k = r \<or> waits d k" for k using r q by (auto simp: waits_def)
  show "asking d' i" using a by simp
  have pcb: "de_pcb_idx x < 8" using x by (simp add: entry_ok_def)
  have "ports_ok d'"
    unfolding ports_ok_def
  proof (intro allI impI)
    fix j :: nat assume j: "j < 8"
    have old: "d_pcbs d ! j \<noteq> None \<longleftrightarrow> (\<exists>m. asking d m \<and> de_pcb_idx (entry d m) = j)" using inv j by (simp add: dns_inv_def ports_ok_def)
    have new: "(\<exists>m. asking d' m \<and> de_pcb_idx (entry d' m) = j) \<longleftrightarrow> de_pcb_idx x = j \<or> (\<exists>m. asking d m \<and> de_pcb_idx (entry d m) = j)"
      using a e i(2) by metis
    show "d_pcbs d' ! j \<noteq> None \<longleftrightarrow> (\<exists>m. asking d' m \<and> de_pcb_idx (entry d' m) = j)"
      unfolding new using old p(2) [of j] p(3) by (cases "j = de_pcb_idx x") (auto simp: d'_def)
  qed
  moreover have "txids_ok d'" using inv a e i(2) x(3) by (auto simp: dns_inv_def txids_ok_def) metis+
  moreover have "requests_ok d'" using inv w q a by (auto simp: dns_inv_def requests_ok_def)
  moreover have "sized d'" using inv p by (simp add: dns_inv_def sized_def d'_def)
  moreover have "\<forall>k<8. entry_ok (entry d' k)" using inv e x(1) by (simp add: dns_inv_def)
  ultimately show "dns_inv d'" by (simp add: dns_inv_def)
  have "rank d' (rq_idx (d_requests d ! k)) = rank d (rq_idx (d_requests d ! k))" if "waits d k" for k
    using idle_request [OF inv i(2) that] e by (simp add: rank_def)
  moreover have "d_requests d' ! k = d_requests d ! k" if "waits d k" for k using q that r(2) by auto
  ultimately show "adds {r} d d'" using w r(2) p(5) by (auto simp: adds_def held_def d'_def)
qed

lemma reuse_pcb_Some: "reuse_pcb k idx pcbs = Some j \<Longrightarrow> j < 8 \<and> pcbs ! j \<noteq> None"
  by (induction k arbitrary: idx) (auto simp: Let_def dns_sizes split: if_splits)

lemma ports8: "DNS_MAX_SOURCE_PORTS = 8"
  by (simp add: dns_sizes)

lemma alloc_pcb_result:
  assumes "dns_alloc_pcb fresh bind_port e d = Some (d', pcb, e')" "sized d"
  obtains ps l os where "d' = d\<lparr>d_pcbs := ps, d_last_pcb_idx := l, d_out := d_out d @ os\<rparr>" "callbacks os = {#}" "length ps = 8" "l < 8"
    "\<forall>j. j \<noteq> pcb \<longrightarrow> ps ! j = d_pcbs d ! j" "pcb < 8 \<longrightarrow> ps ! pcb \<noteq> None" "pcb \<ge> 8 \<longrightarrow> ps = d_pcbs d"
proof -
  have s: "length (d_pcbs d) = 8" "d_last_pcb_idx d < 8" using assms(2) by (simp_all add: sized_def)
  obtain new e1 where n: "(case find (\<lambda>i. d_pcbs d ! i = None) [0..<8] of None \<Rightarrow> Some (None, e)
      | Some i \<Rightarrow> do { (p, e) \<leftarrow> dns_alloc_random_port fresh bind_port e; Some (map_option (Pair i) p, e) }) = Some (new, e1)"
    "(case new of Some (i, port) \<Rightarrow> Some (dns_emit [Port_open port] (d\<lparr>d_pcbs := (d_pcbs d)[i := Some port], d_last_pcb_idx := i\<rparr>), i, e1)
      | None \<Rightarrow> (case reuse_pcb 8 (d_last_pcb_idx d + 1) (d_pcbs d) of
            Some idx \<Rightarrow> Some (d\<lparr>d_last_pcb_idx := idx\<rparr>, idx, e1) | None \<Rightarrow> Some (d, 8, e1))) = Some (d', pcb, e')"
    using assms(1) unfolding dns_alloc_pcb_def ports8 by (auto simp: bind_eq_Some_conv)
  show ?thesis
  proof (cases new)
    case (Some q)
    obtain i port where q: "q = (i, port)" by (rule prod.exhaust)
    then have "i < 8" using n(1) Some by (auto simp: find_Some_iff bind_eq_Some_conv split: option.splits)
    then show ?thesis
      using that [where ps = "(d_pcbs d)[i := Some port]" and l = i and os = "[Port_open port]"] n(2) Some q s by (auto simp: dns_emit_def)
  next
    case None
    show ?thesis
    proof (cases "reuse_pcb 8 (d_last_pcb_idx d + 1) (d_pcbs d)")
      case (Some j)
      then show ?thesis using that [where ps = "d_pcbs d" and l = j and os = "[]"] n(2) \<open>new = None\<close> s reuse_pcb_Some [OF Some] by auto
    next
      case None
      then show ?thesis using that [where ps = "d_pcbs d" and l = "d_last_pcb_idx d" and os = "[]"] n(2) \<open>new = None\<close> s by auto
    qed
  qed
qed

lemma adds_quiet:
  assumes "dns_inv d" "i < 8" "\<not> asking d i" "r < 8" "\<not> waits d r" "\<not> rq_found q" "callbacks os = {#}" "entry_ok x" "de_state x \<noteq> DNS_STATE_ASKING" "l < 8"
  defines "d' \<equiv> d\<lparr>d_table := (d_table d)[i := x], d_requests := (d_requests d)[r := q], d_last_pcb_idx := l, d_out := d_out d @ os\<rparr>"
  shows "dns_inv d'" "adds {} d d'"
proof -
  have sz: "length (d_table d) = 8" "length (d_requests d) = 8" using assms(1) by (simp_all add: dns_inv_def sized_def)
  have e: "entry d' k = (if k = i then x else entry d k)" for k using assms(2) sz by (simp add: d'_def nth_list_update)
  have a: "asking d' k \<longleftrightarrow> asking d k" for k using assms(3,9) e by (auto simp: asking_def)
  have e': "entry d' k = entry d k" if "asking d k" for k using e that assms(3) by auto
  have w: "waits d' k \<longleftrightarrow> waits d k" for k using assms(4-6) sz by (auto simp: waits_def d'_def nth_list_update)
  have q: "d_requests d' ! k = d_requests d ! k" if "waits d k" for k using that assms(4,5) sz by (auto simp: d'_def nth_list_update)
  have "(\<exists>k. asking d k \<and> de_pcb_idx (entry d' k) = j) \<longleftrightarrow> (\<exists>k. asking d k \<and> de_pcb_idx (entry d k) = j)" for j using e' by metis
  moreover have "d_pcbs d' = d_pcbs d" by (simp add: d'_def)
  ultimately have "ports_ok d'" using assms(1) by (simp add: dns_inv_def ports_ok_def a)
  moreover have "txids_ok d'" using assms(1) e' by (auto simp: dns_inv_def txids_ok_def a)
  moreover have "requests_ok d'" using assms(1) q by (auto simp: dns_inv_def requests_ok_def a w)
  moreover have "sized d'" using assms(1,10) by (simp add: dns_inv_def sized_def d'_def)
  moreover have "\<forall>k<8. entry_ok (entry d' k)" using assms(1,8) e by (simp add: dns_inv_def)
  ultimately show "dns_inv d'" by (simp add: dns_inv_def)
  have "rank d' (rq_idx (d_requests d ! k)) = rank d (rq_idx (d_requests d ! k))" if "waits d k" for k
    using idle_request [OF assms(1,3) that] e by (simp add: rank_def)
  then show "adds {} d d'" using w q assms(7) by (auto simp: adds_def held_def d'_def)
qed

lemma adds_refl: "adds {} d d"
  by (simp add: adds_def exI [of _ "[]"])

lemma inv_dup:
  fixes arg :: nat
  assumes "dns_inv d" "asking d i" "r < 8" "\<not> waits d r"
  defines "d' \<equiv> set_request r \<lparr>rq_found = True, rq_arg = arg, rq_idx = i\<rparr> d"
  shows "dns_inv d'" "adds {r} d d'" "args d' {r} = {#arg#}"
proof -
  have sz: "length (d_requests d) = 8" using assms(1) by (simp add: dns_inv_def sized_def)
  have q: "d_requests d' ! k = (if k = r then \<lparr>rq_found = True, rq_arg = arg, rq_idx = i\<rparr> else d_requests d ! k)" for k
    using assms(3) sz by (simp add: d'_def set_request_def nth_list_update)
  have w: "waits d' k \<longleftrightarrow> k = r \<or> waits d k" for k using assms(3) q by (auto simp: waits_def)
  have a: "asking d' = asking d" by (simp add: d'_def set_request_def asking_def fun_eq_iff)
  have f: "d_table d' = d_table d" "d_pcbs d' = d_pcbs d" "d_out d' = d_out d" "sized d' = sized d"
    by (simp_all add: d'_def set_request_def sized_def)
  have "requests_ok d'" using assms(1,2) q w by (auto simp: dns_inv_def requests_ok_def a)
  then show "dns_inv d'" using assms(1) by (simp add: dns_inv_def ports_ok_def txids_ok_def a f)
  show "adds {r} d d'" using w q assms(4) by (auto simp: adds_def held_def f rank_def)
  show "args d' {r} = {#arg#}" using q by (simp add: args_def)
qed

text \<open>The entry a new name gets, before it asks.\<close>

definition named :: "dns_table_entry \<Rightarrow> u8 \<Rightarrow> string \<Rightarrow> nat \<Rightarrow> nat \<Rightarrow> dns_table_entry" where
  "named x s name namelen pcb = x\<lparr>de_state := DNS_STATE_NEW, de_seqno := s, de_name := patch 0 (take namelen name @ [CHR 0x00]) (de_name x),
     de_pcb_idx := pcb\<rparr>"

lemma named_name: "name_ok (de_name x) \<Longrightarrow> namelen \<le> 127 \<Longrightarrow> name_ok (de_name (named x s name namelen pcb))"
  by (auto simp: name_ok_def named_def patch_def)

lemma enqueue_new:
  fixes arg :: nat and name :: string
  assumes inv: "dns_inv d" and i: "i < 8" "\<not> asking d i" and r: "r < 8" "\<not> waits d r" and n: "namelen \<le> 127"
  defines "q b \<equiv> \<lparr>rq_found = b, rq_arg = arg, rq_idx = i\<rparr>"
  defines "d2 \<equiv> set_request r (q True) (upd_entry i (\<lambda>x. x\<lparr>de_state := DNS_STATE_NEW, de_seqno := d_seqno d,
    de_name := patch 0 (take namelen name @ [CHR 0x00]) (de_name x)\<rparr>) d)"
  assumes pcb: "dns_alloc_pcb fresh bind_port e d2 = Some (d3, pcb, e1)"
  shows "8 \<le> pcb \<Longrightarrow> dns_inv (set_request r (q False) (flush_entry i (upd_entry i (\<lambda>x. x\<lparr>de_pcb_idx := pcb\<rparr>) d3))) \<and>
      adds {} d (set_request r (q False) (flush_entry i (upd_entry i (\<lambda>x. x\<lparr>de_pcb_idx := pcb\<rparr>) d3)))"
    "pcb < 8 \<Longrightarrow> dns_check_entry i v ((upd_entry i (\<lambda>x. x\<lparr>de_pcb_idx := pcb\<rparr>) d3)\<lparr>d_seqno := s\<rparr>) e1 = Some (d', e') \<Longrightarrow>
      dns_inv d' \<and> (\<exists>da R. adds {r} d da \<and> moves (\<lambda>k. 0) R da d' \<and> args da {r} = {#arg#})"
proof -
  have sz: "length (d_table d) = 8" "length (d_requests d) = 8" "length (d_pcbs d) = 8" "d_last_pcb_idx d < 8" "name_ok (de_name (entry d i))"
    using inv i by (auto simp: dns_inv_def sized_def entry_ok_def)
  have "sized d2" using inv by (simp add: dns_inv_def sized_def d2_def set_request_def)
  then obtain ps l os where p: "d3 = d2\<lparr>d_pcbs := ps, d_last_pcb_idx := l, d_out := d_out d2 @ os\<rparr>" "callbacks os = {#}" "length ps = 8" "l < 8"
    "\<forall>j. j \<noteq> pcb \<longrightarrow> ps ! j = d_pcbs d2 ! j" "pcb < 8 \<longrightarrow> ps ! pcb \<noteq> None" "pcb \<ge> 8 \<longrightarrow> ps = d_pcbs d2"
    by (rule alloc_pcb_result [OF pcb])
  let ?x = "named (entry d i) (d_seqno d) name namelen pcb"
  have d4: "upd_entry i (\<lambda>x. x\<lparr>de_pcb_idx := pcb\<rparr>) d3 = d\<lparr>d_pcbs := ps, d_last_pcb_idx := l, d_table := (d_table d)[i := ?x],
      d_requests := (d_requests d)[r := q True], d_out := d_out d @ os\<rparr>"
    using i(1) sz(1) by (simp add: p(1) d2_def set_request_def upd_entry_def named_def)
  have nm: "name_ok (de_name ?x)" by (rule named_name [OF sz(5) n])
  show "dns_inv (set_request r (q False) (flush_entry i (upd_entry i (\<lambda>x. x\<lparr>de_pcb_idx := pcb\<rparr>) d3))) \<and>
      adds {} d (set_request r (q False) (flush_entry i (upd_entry i (\<lambda>x. x\<lparr>de_pcb_idx := pcb\<rparr>) d3)))" if "8 \<le> pcb"
  proof -
    let ?y = "?x\<lparr>de_state := DNS_STATE_UNUSED\<rparr>"
    have "ps = d_pcbs d" using p(7) that by (simp add: d2_def set_request_def)
    then have eq: "set_request r (q False) (flush_entry i (upd_entry i (\<lambda>x. x\<lparr>de_pcb_idx := pcb\<rparr>) d3)) =
        d\<lparr>d_table := (d_table d)[i := ?y], d_requests := (d_requests d)[r := q False], d_last_pcb_idx := l, d_out := d_out d @ os\<rparr>"
      using i(1) sz(1) unfolding d4 by (simp add: set_request_def flush_entry_def upd_entry_def)
    have "entry_ok ?y" using nm by (simp add: entry_ok_def)
    then show ?thesis unfolding eq using adds_quiet [OF inv i r _ p(2) _ _ p(4), of "q False" ?y] by (simp add: q_def)
  qed
  show "dns_inv d' \<and> (\<exists>da R. adds {r} d da \<and> moves (\<lambda>k. 0) R da d' \<and> args da {r} = {#arg#})"
    if p8: "pcb < 8" and ce: "dns_check_entry i v ((upd_entry i (\<lambda>x. x\<lparr>de_pcb_idx := pcb\<rparr>) d3)\<lparr>d_seqno := s\<rparr>) e1 = Some (d', e')"
  proof -
    obtain txid where t: "dns_create_txid ((d_table d)[i := ?x]) e1 = Some (txid, e')"
      "d' = fst (dns_send i v (d\<lparr>d_pcbs := ps, d_last_pcb_idx := l, d_requests := (d_requests d)[r := q True], d_out := d_out d @ os, d_seqno := s,
         d_table := (d_table d)[i := ?x\<lparr>de_txid := txid, de_state := DNS_STATE_ASKING, de_server_idx := 0, de_tmr := 1, de_retries := 0\<rparr>]\<rparr>))"
      using ce i(1) sz(1) unfolding d4 by (auto simp: dns_check_entry_def named_def upd_entry_def bind_eq_Some_conv)
    let ?z = "?x\<lparr>de_txid := txid, de_state := DNS_STATE_ASKING, de_server_idx := 0, de_tmr := 1, de_retries := 0\<rparr>"
    have z: "entry_ok ?z" "de_state ?z = DNS_STATE_ASKING" "de_pcb_idx ?z = pcb" using nm p8 by (simp_all add: entry_ok_def named_def)
    have f: "de_txid (entry d k) \<noteq> de_txid ?z" if "asking d k" for k
    proof -
      have "k \<noteq> i" "k < 8" using that i(2) by (auto simp: asking_def)
      then have "entry d k \<in> set ((d_table d)[i := ?x])" using sz(1) by (metis length_list_update nth_list_update_neq nth_mem)
      then show ?thesis using create_txid_fresh [OF t(1)] that by (auto simp: asking_def)
    qed
    have p5: "ps ! j = d_pcbs d ! j" if "j \<noteq> de_pcb_idx ?z" for j using p(5) that z(3) by (simp add: d2_def set_request_def)
    have p6: "ps ! de_pcb_idx ?z \<noteq> None" using p(6) z(3) p8 by simp
    note st = inv_start [OF inv i r z(1,2) f p(3) p5 p6 p(4,2), where s = s and arg = arg, folded q_def]
    from send_serves [OF st(1,2), of v] st(3) sz(2) r(1) show ?thesis unfolding t(2) by (auto simp: args_def q_def intro!: exI)
  qed
qed

text \<open>An operation that may take in one request, then may answer some.\<close>

definition takes :: "nat multiset \<Rightarrow> dns \<Rightarrow> dns \<Rightarrow> bool" where
  "takes A d d' \<longleftrightarrow> dns_inv d' \<and> (\<exists>N da R. adds N d da \<and> moves (\<lambda>k. 0) R da d' \<and> args da N = A)"

lemma takes_nothing: "dns_inv d \<Longrightarrow> takes {#} d d"
  unfolding takes_def using adds_refl moves_refl by (auto simp: args_def intro!: exI [of _ "{}"] exI [of _ d])

lemma enqueue_serves:
  assumes inv: "dns_inv d" and q: "dns_enqueue name hl arg v d e = Some (d', err, e')"
  shows "takes (if err = ERR_INPROGRESS then {#arg#} else {#}) d d'"
proof -
  define nl where "nl = min hl 127"
  define dup where "dup = find (\<lambda>i. de_state (entry d i) = DNS_STATE_ASKING \<and> name_is name nl (entry d i)) [0..<8]"
  have sz: "length (d_table d) = 8" using inv by (simp add: dns_inv_def sized_def)
  note en = q [unfolded dns_enqueue_def Let_def]
  show ?thesis
  proof (cases "dup = None \<or> free_request d = None")
    case False
    then obtain i r where ir: "dup = Some i" "free_request d = Some r" by auto
    then have "asking d i" by (auto simp: dup_def find_Some_iff asking_def)
    from inv_dup [OF inv this, of r arg] free_request_Some [OF ir(2)] en ir show ?thesis
      by (auto simp: takes_def dup_def nl_def dns_sizes intro!: exI moves_refl)
  next
    case True
    show ?thesis
    proof (cases "pick_entry (d_table d) (d_seqno d) 0 0 DNS_TABLE_SIZE = None \<or> free_request d = None")
      case t: True
      then have "d' = d" "err = ERR_MEM" using en True by (auto simp: dup_def nl_def dns_sizes split: option.splits)
      then show ?thesis using takes_nothing [OF inv] by simp
    next
      case False
      then obtain i r where ir: "pick_entry (d_table d) (d_seqno d) 0 0 DNS_TABLE_SIZE = Some i" "free_request d = Some r" by auto
      have i: "i < 8" "\<not> asking d i" using pick_entry_idle [OF sz ir(1)] by simp_all
      have r: "r < 8" "\<not> waits d r" using free_request_Some [OF ir(2)] by simp_all
      have nl: "nl \<le> 127" by (simp add: nl_def)
      let ?q = "\<lambda>b. \<lparr>rq_found = b, rq_arg = arg, rq_idx = i\<rparr>"
      let ?d2 = "set_request r (?q True) (upd_entry i (\<lambda>x. x\<lparr>de_state := DNS_STATE_NEW, de_seqno := d_seqno d,
        de_name := patch 0 (take nl name @ [CHR 0x00]) (de_name x)\<rparr>) d)"
      obtain d3 pcb e1 where a: "dns_alloc_pcb (pe_fresh v) (pe_bind v) e ?d2 = Some (d3, pcb, e1)"
        "(if pcb \<ge> 8 then Some (set_request r (?q False) (flush_entry i (upd_entry i (\<lambda>x. x\<lparr>de_pcb_idx := pcb\<rparr>) d3)), ERR_MEM, e1)
          else do { (d, e) \<leftarrow> dns_check_entry i (pe_send v) ((upd_entry i (\<lambda>x. x\<lparr>de_pcb_idx := pcb\<rparr>) d3)\<lparr>d_seqno := d_seqno (upd_entry i (\<lambda>x. x\<lparr>de_pcb_idx := pcb\<rparr>) d3) + 1\<rparr>) e1;
                    Some (d, ERR_INPROGRESS, e) }) = Some (d', err, e')"
        using en True ir by (auto simp: dup_def nl_def dns_sizes bind_eq_Some_conv split: option.splits)
      note new = enqueue_new [OF inv i r nl a(1)]
      show ?thesis
      proof (cases "pcb < 8")
        case True
        then have ce: "err = ERR_INPROGRESS" "dns_check_entry i (pe_send v) ((upd_entry i (\<lambda>x. x\<lparr>de_pcb_idx := pcb\<rparr>) d3)
            \<lparr>d_seqno := d_seqno (upd_entry i (\<lambda>x. x\<lparr>de_pcb_idx := pcb\<rparr>) d3) + 1\<rparr>) e1 = Some (d', e')"
          using a(2) by (auto simp: bind_eq_Some_conv)
        from new(2) [OF True ce(2)] ce(1) show ?thesis unfolding takes_def by auto
      next
        case False
        then have "d' = set_request r (?q False) (flush_entry i (upd_entry i (\<lambda>x. x\<lparr>de_pcb_idx := pcb\<rparr>) d3))" "err = ERR_MEM" using a(2) by auto
        then show ?thesis using new(1) False moves_refl by (auto simp: takes_def args_def intro!: exI [of _ "{}"])
      qed
    qed
  qed
qed

lemma gethostbyname_serves:
  assumes "dns_inv d" "dns_gethostbyname name arg v d e = Some (d', (err, a), e')"
  shows "takes (if err = ERR_INPROGRESS then {#arg#} else {#}) d d'"
  using assms(2) takes_nothing [OF assms(1)] enqueue_serves [OF assms(1), of name _ arg v e d' err e']
  by (auto simp: dns_gethostbyname_def Let_def bind_eq_Some_conv split: if_splits option.splits)

section \<open>Runs\<close>

datatype dns_op = Lookup string nat port_env | Reply bytes u32 query_env | Tick "nat \<Rightarrow> query_env" | Set_server nat "u32 option"

text \<open>One call from outside; the third result has the callback argument of a lookup that was taken in.\<close>

fun dns_do :: "dns_op \<Rightarrow> dns \<Rightarrow> entropy \<Rightarrow> (dns \<times> entropy \<times> nat multiset) option" where
  "dns_do (Lookup name arg v) d e =
     do { (d, r, e) \<leftarrow> dns_gethostbyname name arg v d e; Some (d, e, if fst r = ERR_INPROGRESS then {#arg#} else {#}) }"
| "dns_do (Reply p addr v) d e = do { (d, e) \<leftarrow> dns_recv p addr v d e; Some (d, e, {#}) }"
| "dns_do (Tick v) d e = do { (d, e) \<leftarrow> dns_tmr v d e; Some (d, e, {#}) }"
| "dns_do (Set_server n a) d e = Some (dns_setserver n a d, e, {#})"

fun dns_run :: "dns_op list \<Rightarrow> dns \<Rightarrow> entropy \<Rightarrow> (dns \<times> entropy \<times> nat multiset) option" where
  "dns_run [] d e = Some (d, e, {#})"
| "dns_run (x # xs) d e =
     do { (d, e, a) \<leftarrow> dns_do x d e; (d, e, b) \<leftarrow> dns_run xs d e; Some (d, e, a + b) }"

fun is_tick :: "dns_op \<Rightarrow> bool" where
  "is_tick (Tick v) = True"
| "is_tick _ = False"

definition ticks :: "dns_op list \<Rightarrow> nat" where
  "ticks ops = length (filter is_tick ops)"

definition waiting :: "dns \<Rightarrow> nat multiset" where
  "waiting d = args d (held d)"

text \<open>The requests whose entry has at most \<open>k\<close> ticks left.\<close>

definition due :: "dns \<Rightarrow> nat \<Rightarrow> nat multiset" where
  "due d k = args d {r \<in> held d. rank d (rq_idx (d_requests d ! r)) \<le> k}"

definition serves :: "nat \<Rightarrow> nat multiset \<Rightarrow> dns \<Rightarrow> dns \<Rightarrow> bool" where
  "serves c A d d' \<longleftrightarrow> (\<exists>os. d_out d' = d_out d @ os \<and> callbacks os + waiting d' = waiting d + A \<and>
     (\<forall>k. due d k \<subseteq># callbacks os + due d' (k - c)))"

lemma serves_step:
  assumes inv: "dns_inv d" and ad: "adds N d da" and mv: "moves (\<lambda>k. if k < 8 then c else 0) R da d'"
  shows "serves c (args da N) d d'"
proof -
  obtain os1 os2 where o: "d_out da = d_out d @ os1" "callbacks os1 = {#}" "d_out d' = d_out da @ os2" "callbacks os2 = args da R"
    using ad mv by (auto simp: adds_def moves_def)
  have h: "held da = held d \<union> N" "N \<inter> held d = {}" "R \<subseteq> held da" "held d' = held da - R" using ad mv by (auto simp: adds_def moves_def)
  have q: "d_requests da ! r = d_requests d ! r" "rank da (rq_idx (d_requests d ! r)) \<le> rank d (rq_idx (d_requests d ! r))" if "r \<in> held d" for r
    using ad that by (simp_all add: adds_def)
  have q': "d_requests d' ! r = d_requests da ! r" "rank d' (rq_idx (d_requests da ! r)) + (if rq_idx (d_requests da ! r) < 8 then c else 0) \<le> rank da (rq_idx (d_requests da ! r))"
    if "r \<in> held da - R" for r using mv that by (simp_all add: moves_def)
  have f: "finite N" "finite R" using h finite_held [of da] by (auto intro: finite_subset)
  have w: "waiting d' = args da (held da - R)" unfolding waiting_def h(4) by (rule args_cong) (rule q'(1))
  have "args da R + args da (held da - R) = args da (held da)" using args_Un [of R "held da - R" da] f h(3) by (simp add: Un_absorb1)
  also have "\<dots> = args da (held d) + args da N" unfolding h(1) by (rule args_Un) (use f h(2) in auto)
  also have "args da (held d) = waiting d" unfolding waiting_def by (rule args_cong) (rule q(1))
  finally have acc: "callbacks (os1 @ os2) + waiting d' = waiting d + args da N" using o w by simp
  have "due d k \<subseteq># callbacks (os1 @ os2) + due d' (k - c)" for k
  proof -
    let ?P = "{r \<in> held d. rank d (rq_idx (d_requests d ! r)) \<le> k}"
    let ?Q = "{r \<in> held d'. rank d' (rq_idx (d_requests d' ! r)) \<le> k - c}"
    have "?P - R \<subseteq> ?Q"
    proof
      fix r assume r: "r \<in> ?P - R"
      then have m: "r \<in> held d" "r \<in> held da - R" using h(1) by auto
      have "rq_idx (d_requests d ! r) < 8" using inv m(1) by (auto simp: dns_inv_def requests_ok_def held_def asking_def)
      then show "r \<in> ?Q" using r h(4) m q [OF m(1)] q' [OF m(2)] by auto
    qed
    then have "args da (?P - R) \<subseteq># args da ?Q" by (intro args_mono) auto
    moreover have "args da ?Q = due d' (k - c)" unfolding due_def using h(4) q'(1) by (intro args_cong) auto
    moreover have "args da (?P \<inter> R) \<subseteq># args da R" using f by (intro args_mono) auto
    moreover have "due d k = args da ?P" unfolding due_def by (rule args_cong) (use q(1) in auto)
    moreover have "args da ?P = args da (?P \<inter> R) + args da (?P - R)"
      using args_Un [of "?P \<inter> R" "?P - R" da] by (auto simp: Int_Diff_Un)
    ultimately show ?thesis using o by (simp add: subset_mset.add_mono)
  qed
  with acc o show ?thesis unfolding serves_def by (auto intro!: exI [of _ "os1 @ os2"])
qed

lemma serves_nothing: "serves 0 {#} d d"
  by (simp add: serves_def exI [of _ "[]"])

lemma serves_trans:
  assumes "serves c A d d1" "serves c' B d1 d2" shows "serves (c + c') (A + B) d d2"
proof -
  obtain os os' where o: "d_out d1 = d_out d @ os" "callbacks os + waiting d1 = waiting d + A" "\<And>k. due d k \<subseteq># callbacks os + due d1 (k - c)"
    "d_out d2 = d_out d1 @ os'" "callbacks os' + waiting d2 = waiting d1 + B" "\<And>k. due d1 k \<subseteq># callbacks os' + due d2 (k - c')"
    using assms by (auto simp: serves_def)
  have "callbacks (os @ os') + waiting d2 = waiting d + (A + B)"
    using o(2,5) by (metis (no_types, lifting) add.assoc add.commute callbacks_simps(2))
  moreover have "due d k \<subseteq># callbacks (os @ os') + due d2 (k - (c + c'))" for k
    using subset_mset.order_trans [OF o(3) [of k] subset_mset.add_left_mono [OF o(6) [of "k - c"], of "callbacks os"]] by (simp add: add.assoc)
  ultimately show ?thesis using o(1,4) unfolding serves_def by (intro exI [of _ "os @ os'"]) simp
qed

lemma takes_serves: "dns_inv d \<Longrightarrow> takes A d d' \<Longrightarrow> dns_inv d' \<and> serves 0 A d d'"
  using serves_step [where c = 0] by (auto simp: takes_def)

lemma moves_serves: "dns_inv d \<Longrightarrow> moves (\<lambda>k. if k < 8 then c else 0) R d d' \<Longrightarrow> serves c {#} d d'"
  using serves_step [OF _ adds_refl, of d c R d'] by (simp add: args_def)

lemma do_serves:
  assumes inv: "dns_inv d" and op: "dns_do x d e = Some (d', e', A)"
  shows "dns_inv d' \<and> serves (of_bool (is_tick x)) A d d'"
proof (cases x)
  case (Lookup name arg v)
  then obtain r where r: "dns_gethostbyname name arg v d e = Some (d', r, e')" "A = (if fst r = ERR_INPROGRESS then {#arg#} else {#})"
    using op by (auto simp: bind_eq_Some_conv)
  from gethostbyname_serves [OF inv, of name arg v e d' "fst r" "snd r" e'] r takes_serves [OF inv] Lookup show ?thesis by simp
next
  case (Reply p addr v)
  obtain d1 R where "dns_recv p addr v d e = Some (d1, e)" "dns_inv d1" "moves (\<lambda>k. 0) R d d1" using recv_serves [OF inv] by blast
  with op Reply moves_serves [OF inv, of 0 R d1] show ?thesis by simp
next
  case (Tick v)
  obtain d1 R where "dns_tmr v d e = Some (d1, e)" "dns_inv d1" "moves (\<lambda>k. of_bool (k < 8)) R d d1" using tick_serves [OF inv] by blast
  with op Tick moves_serves [OF inv, of 1 R d1] show ?thesis by (simp add: of_bool_def)
next
  case (Set_server n a)
  with op setserver_serves [OF inv, of n a] moves_serves [OF inv, of 0 "{}" "dns_setserver n a d"] show ?thesis by auto
qed

lemma run_serves:
  "dns_inv d \<Longrightarrow> dns_run ops d e = Some (d', e', A) \<Longrightarrow> dns_inv d' \<and> serves (ticks ops) A d d'"
proof (induction ops arbitrary: d e A)
  case Nil
  then show ?case by (simp add: ticks_def serves_nothing)
next
  case (Cons x ops)
  then obtain d1 e1 B C where s: "dns_do x d e = Some (d1, e1, B)" "dns_run ops d1 e1 = Some (d', e', C)" "A = B + C"
    by (auto simp: bind_eq_Some_conv)
  from do_serves [OF Cons.prems(1) s(1)] have d1: "dns_inv d1" "serves (of_bool (is_tick x)) B d d1" by simp_all
  from Cons.IH [OF d1(1) s(2)] serves_trans [OF d1(2)] s(3) show ?case by (auto simp: ticks_def of_bool_def)
qed

lemma due_ends:
  assumes "dns_inv d" shows "due d 0 = {#}" "14 \<le> k \<Longrightarrow> due d k = waiting d"
proof -
  have r: "1 \<le> rank d (rq_idx (d_requests d ! r)) \<and> rank d (rq_idx (d_requests d ! r)) \<le> 14" if "r \<in> held d" for r
    using assms that by (intro rank_pos) (auto simp: dns_inv_def requests_ok_def held_def)
  have "{r \<in> held d. rank d (rq_idx (d_requests d ! r)) \<le> 0} = {}" using r by fastforce
  then show "due d 0 = {#}" unfolding due_def by (simp only: args_def mset_set.empty image_mset_empty)
  show "due d k = waiting d" if "14 \<le> k"
  proof -
    have "{r \<in> held d. rank d (rq_idx (d_requests d ! r)) \<le> k} = held d" using r that by (auto intro: order_trans)
    then show ?thesis by (simp add: due_def waiting_def)
  qed
qed

section \<open>Every call returns\<close>

text \<open>The entropy source after \<open>n\<close> draws, the next 16-bit draw, and a source in which every value comes up again and again.\<close>

definition later :: "nat \<Rightarrow> entropy \<Rightarrow> entropy" where
  "later n e = (\<lambda>i. e (i + 4 * n))"

definition draw :: "entropy \<Rightarrow> u16" where
  "draw e = ucast (fst (lwip_port_rand e))"

definition fair :: "entropy \<Rightarrow> bool" where
  "fair e \<longleftrightarrow> (\<forall>m x. \<exists>n\<ge>m. draw (later n e) = x)"

lemma later_simps [simp]: "later 0 e = e" "later m (later n e) = later (m + n) e"
  by (simp_all add: later_def fun_eq_iff algebra_simps)

lemma later_now [simp]: "\<exists>k. e = later k e"
  by (rule exI [of _ 0]) simp

lemma rand_later: "snd (lwip_port_rand e) = later 1 e"
  by (simp add: lwip_port_rand_def random_u32_def awg_random_bytes_def later_def)

lemma rand_draw: "lwip_port_rand e = (r, e') \<Longrightarrow> ucast r = draw e \<and> e' = later 1 e"
  by (metis draw_def fst_conv rand_later snd_conv)

lemma fair_later: "fair e \<Longrightarrow> fair (later k e)"
  unfolding fair_def by (metis add_le_cancel_right le_add_diff_inverse2 le_add2 later_simps(2) order_trans)

lemma create_txid_returns:
  assumes "fair e" "length table \<le> 8"
  shows "\<exists>x k. dns_create_txid table e = Some (x, later k e)"
proof -
  have step: "\<exists>x k. dns_create_txid table e = Some (x, later k e)" if "\<forall>y\<in>set table. de_txid y \<noteq> draw (later n e)" for n e
    using that
  proof (induction n arbitrary: e)
    case 0
    then show ?case
      by (subst dns_create_txid.simps) (auto simp: Let_def list_ex_iff split: prod.split dest!: rand_draw intro: exI [of _ "Suc 0"])
  next
    case (Suc n)
    then have "\<forall>y\<in>set table. de_txid y \<noteq> draw (later n (later 1 e))" by simp
    from Suc.IH [OF this] obtain x k where "dns_create_txid table (later 1 e) = Some (x, later k (later 1 e))" by blast
    then show ?case
      by (subst dns_create_txid.simps) (auto simp: Let_def split: prod.split dest!: rand_draw)
  qed
  have "card (de_txid ` set table) \<le> 8" using card_image_le [OF finite_set, of de_txid table] card_length [of table] assms(2) by linarith
  moreover have "card (UNIV :: u16 set) = 65536" by (simp add: card_word)
  ultimately have "de_txid ` set table \<noteq> UNIV" by auto
  then obtain x where "x \<notin> de_txid ` set table" by blast
  moreover obtain n where "draw (later n e) = x" using assms(1) unfolding fair_def by blast
  ultimately have "\<forall>y\<in>set table. de_txid y \<noteq> draw (later n e)" by (metis imageI)
  from step [OF this] show ?thesis .
qed

lemma bind_loop_returns:
  assumes "fair e" "port \<ge> 1024" "bind_port port \<noteq> ERR_USE"
  shows "\<exists>x err k. bind_loop bind_port e = Some (x, err, later k e)"
proof -
  have step: "\<exists>x err k. bind_loop bind_port e = Some (x, err, later k e)" if "draw (later n e) = port" for n e
    using that
  proof (induction n arbitrary: e)
    case 0
    then show ?case using assms(2,3)
      by (subst bind_loop.simps) (auto simp: Let_def split: prod.split dest!: rand_draw)
  next
    case (Suc n)
    then have "draw (later n (later 1 e)) = port" by simp
    from Suc.IH [OF this] obtain x err k where "bind_loop bind_port (later 1 e) = Some (x, err, later k (later 1 e))" by blast
    then show ?case
      by (subst bind_loop.simps) (auto simp: Let_def split: prod.split dest!: rand_draw)
  qed
  obtain n where "draw (later n e) = port" using assms(1) unfolding fair_def by blast
  from step [OF this] show ?thesis .
qed

lemma alloc_pcb_returns:
  assumes "fair e" "port \<ge> 1024" "bind_port port \<noteq> ERR_USE"
  shows "\<exists>d' pcb k. dns_alloc_pcb fresh bind_port e d = Some (d', pcb, later k e) \<and> d_table d' = d_table d"
proof -
  obtain x err k where b: "bind_loop bind_port e = Some (x, err, later k e)" using bind_loop_returns [where bind_port = bind_port, OF assms] by blast
  have "\<exists>p k. dns_alloc_random_port fresh bind_port e = Some (p, later k e)"
    using b by (auto simp: dns_alloc_random_port_def intro: exI [of _ 0])
  then obtain p k' where "dns_alloc_random_port fresh bind_port e = Some (p, later k' e)" by blast
  then show ?thesis
    by (auto simp: dns_alloc_pcb_def dns_emit_def split: option.split)
qed

lemma check_new_returns:
  assumes "fair e" "length (d_table d) = 8" "de_state (entry d i) = DNS_STATE_NEW"
  shows "\<exists>d' k. dns_check_entry i v d e = Some (d', later k e)"
proof -
  obtain x k where "dns_create_txid (d_table d) e = Some (x, later k e)" using create_txid_returns [OF assms(1)] assms(2) by fastforce
  then show ?thesis using assms(3) by (auto simp: dns_check_entry_def)
qed

text \<open>A lookup finds a port to ask from: some port is not in use.\<close>

fun has_port :: "dns_op \<Rightarrow> bool" where
  "has_port (Lookup name arg v) = (\<exists>port\<ge>1024. pe_bind v port \<noteq> ERR_USE)"
| "has_port _ = True"

lemma enqueue_returns:
  assumes inv: "dns_inv d" and f: "fair e" and p: "port \<ge> 1024" "pe_bind v port \<noteq> ERR_USE"
  shows "\<exists>d' err k. dns_enqueue name hl arg v d e = Some (d', err, later k e)"
proof -
  have sz: "length (d_table d) = 8" using inv by (simp add: dns_inv_def sized_def)
  have "\<exists>d' err k. (do { (d, pcb, e) \<leftarrow> dns_alloc_pcb (pe_fresh v) (pe_bind v) e d0;
      let d = upd_entry i (\<lambda>x. x\<lparr>de_pcb_idx := pcb\<rparr>) d;
      if pcb \<ge> DNS_MAX_SOURCE_PORTS then Some (set_request r (q i) (flush_entry i d), ERR_MEM, e)
      else do { (d, e) \<leftarrow> dns_check_entry i (pe_send v) (d\<lparr>d_seqno := d_seqno d + 1\<rparr>) e; Some (d, ERR_INPROGRESS, e) } }) = Some (d', err, later k e)"
    if d0: "i < 8" "length (d_table d0) = 8" "de_state (entry d0 i) = DNS_STATE_NEW" for i r q d0
  proof -
    obtain d1 pcb k where a: "dns_alloc_pcb (pe_fresh v) (pe_bind v) e d0 = Some (d1, pcb, later k e)" "d_table d1 = d_table d0"
      using alloc_pcb_returns [where bind_port = "pe_bind v", OF f p] by blast
    let ?d = "upd_entry i (\<lambda>x. x\<lparr>de_pcb_idx := pcb\<rparr>) d1"
    have "de_state (entry (?d\<lparr>d_seqno := d_seqno ?d + 1\<rparr>) i) = DNS_STATE_NEW" "length (d_table (?d\<lparr>d_seqno := d_seqno ?d + 1\<rparr>)) = 8"
      using d0 a(2) by (simp_all add: upd_entry_def)
    from check_new_returns [OF fair_later [OF f] this(2,1)] obtain d2 k' where
      "dns_check_entry i (pe_send v) (?d\<lparr>d_seqno := d_seqno ?d + 1\<rparr>) (later k e) = Some (d2, later k' (later k e))" by blast
    then show ?thesis using a(1) by (auto simp: Let_def)
  qed
  note one = this
  have i: "i < 8" if "pick_entry (d_table d) (d_seqno d) 0 0 DNS_TABLE_SIZE = Some i" for i using pick_entry_idle [OF sz that] by simp
  show ?thesis
    unfolding dns_enqueue_def Let_def using i sz
    by (auto split: option.split intro!: one [unfolded Let_def] simp: set_request_def upd_entry_def)
qed

lemma do_returns:
  assumes inv: "dns_inv d" and f: "fair e" and p: "has_port x"
  shows "\<exists>d' k A. dns_do x d e = Some (d', later k e, A)"
proof (cases x)
  case (Lookup name arg v)
  then obtain port where port: "port \<ge> 1024" "pe_bind v port \<noteq> ERR_USE" using p by auto
  have z: "\<exists>k'. later k e = later k' e" for k by blast
  obtain d1 err k where q: "dns_enqueue name (length name - (if name ! (length name - 1) = CHR ''.'' then 1 else 0)) arg v d e = Some (d1, err, later k e)"
    using enqueue_returns [where v = v, OF inv f port] by blast
  have "\<exists>d' r k. dns_gethostbyname name arg v d e = Some (d', r, later k e)"
    unfolding dns_gethostbyname_def Let_def q by (simp only: split: if_split option.split) (simp add: z)
  then show ?thesis using Lookup by auto
next
  case (Reply q addr v)
  then show ?thesis using recv_serves [OF inv, of q addr v e] by auto
next
  case (Tick v)
  then show ?thesis using tick_serves [OF inv, of v e] by auto
qed simp

lemma run_returns:
  "dns_inv d \<Longrightarrow> fair e \<Longrightarrow> list_all has_port ops \<Longrightarrow> \<exists>d' e' A. dns_run ops d e = Some (d', e', A) \<and> dns_inv d' \<and> fair e'"
proof (induction ops arbitrary: d e)
  case (Cons x ops)
  then obtain d1 k A where s: "dns_do x d e = Some (d1, later k e, A)" using do_returns [of d e x] by auto
  have "dns_inv d1" using do_serves [OF Cons.prems(1) s] by simp
  from Cons.IH [OF this fair_later [OF Cons.prems(2), of k]] Cons.prems(3) obtain d' e' B where
    "dns_run ops d1 (later k e) = Some (d', e', B)" "dns_inv d'" "fair e'" by auto
  with s show ?case by simp
qed simp


text \<open>A source that counts.\<close>

definition counter :: entropy where
  "counter i = (if i mod 4 = 0 then of_nat (i div 4) else if i mod 4 = 1 then of_nat (i div 4 div 256) else 0)"

lemma fair_counter: "fair counter"
proof -
  have d: "draw (later n counter) = of_nat n" for n
  proof -
    have m: "(0 + 4 * n) mod 4 = 0" "(1 + 4 * n) mod 4 = 1" "(2 + 4 * n) mod 4 = 2" "(3 + 4 * n) mod 4 = 3" "(1 + 4 * n) div 4 = n" by presburger+
    have c: "counter (0 + 4 * n) = of_nat n" "counter (1 + 4 * n) = of_nat (n div 256)" "counter (2 + 4 * n) = 0" "counter (3 + 4 * n) = 0"
      unfolding counter_def m by simp_all
    have "fst (lwip_port_rand (later n counter)) = ucast (of_nat n :: u8) OR push_bit 8 (ucast (of_nat (n div 256) :: u8))"
      using c by (simp add: later_def lwip_port_rand_def random_u32_def awg_random_bytes_def numeral_2_eq_2 numeral_3_eq_3)
    then have "draw (later n counter) = ucast (of_nat n :: u8) OR push_bit 8 (ucast (of_nat (n div 256) :: u8))"
      unfolding draw_def by (simp only:) (rule bit_word_eqI, auto simp: bit_simps)
    also have "\<dots> = of_nat n"
      by (rule bit_word_eqI) (auto simp: bit_simps drop_bit_eq_div [where n = 8, symmetric, simplified])
    finally show ?thesis .
  qed
  have "(of_nat (65536 * m) :: u16) = 0" for m by (simp add: word_of_nat_eq_0_iff del: of_nat_mult)
  then have "\<exists>n\<ge>m. of_nat n = x" for m and x :: u16
    by (intro exI [of _ "65536 * m + unat x"]) (simp del: of_nat_mult)
  then show ?thesis unfolding fair_def d by blast
qed

definition sample_env :: query_env where
  "sample_env = \<lparr>dn_alloc = True, dn_sent = ERR_OK\<rparr>"

definition sample_ops :: "dns_op list" where
  "sample_ops = [Set_server 0 (Some 0x08080808), Lookup ''a.b'' 7 \<lparr>pe_fresh = True, pe_bind = (\<lambda>_. ERR_OK), pe_send = sample_env\<rparr>]"


end
