(* ===== verification/Lwip_Mem.thy ===== *)
theory Lwip_Mem
  imports Lwip_Pbuf
begin

text \<open>
  The stack's heap (\<open>lwip/core/mem.c\<close>), from which packets to be sent and the TCP segments come: one array of bytes that is cut into
  blocks, each behind a header with the offsets of its neighbours.  The headers lie in the array itself, so that the model
  has the bytes; offsets are 16-bit numbers (\<open>mem_size_t\<close>), written as natural numbers with the casts.  A pointer
  is an offset from \<open>ram\<close>, which is aligned.  The searches follow the \<open>next\<close> offsets and end because the list is in
  order, so they are partial functions, and that they return is proved.  \<open>LWIP_ASSERT\<close> is empty in this build, there are no
  mutexes, and nothing frees from an interrupt.
\<close>

section \<open>Bytes and headers\<close>

type_synonym ram = "nat \<Rightarrow> u8"

definition get16 :: "ram \<Rightarrow> nat \<Rightarrow> nat" where
  "get16 r a = unat (r a) + 256 * unat (r (a + 1))"

definition put16 :: "nat \<Rightarrow> nat \<Rightarrow> ram \<Rightarrow> ram" where
  "put16 a v r = r(a := of_nat v, a + 1 := of_nat (v div 256))"

text \<open>\<open>struct mem\<close>: \<open>next\<close>, \<open>prev\<close> and \<open>used\<close> at offsets 0, 2 and 4.\<close>

definition mem_next :: "ram \<Rightarrow> nat \<Rightarrow> nat" where "mem_next r p = get16 r p"
definition mem_prev :: "ram \<Rightarrow> nat \<Rightarrow> nat" where "mem_prev r p = get16 r (p + 2)"
definition mem_used :: "ram \<Rightarrow> nat \<Rightarrow> u8" where "mem_used r p = r (p + 4)"
definition set_next :: "nat \<Rightarrow> nat \<Rightarrow> ram \<Rightarrow> ram" where "set_next p v r = put16 p v r"
definition set_prev :: "nat \<Rightarrow> nat \<Rightarrow> ram \<Rightarrow> ram" where "set_prev p v r = put16 (p + 2) v r"
definition set_used :: "nat \<Rightarrow> u8 \<Rightarrow> ram \<Rightarrow> ram" where "set_used p v r = r(p + 4 := v)"

definition SIZEOF_STRUCT_MEM :: nat where "SIZEOF_STRUCT_MEM = LWIP_MEM_ALIGN_SIZE 6"
definition MIN_SIZE_ALIGNED :: nat where "MIN_SIZE_ALIGNED = LWIP_MEM_ALIGN_SIZE 12"
definition MEM_SIZE_ALIGNED :: nat where "MEM_SIZE_ALIGNED = LWIP_MEM_ALIGN_SIZE (48 * 1024)"

lemma mem_sizes: "SIZEOF_STRUCT_MEM = 8" "MIN_SIZE_ALIGNED = 12" "MEM_SIZE_ALIGNED = 49152"
  by (simp_all add: SIZEOF_STRUCT_MEM_def MIN_SIZE_ALIGNED_def MEM_SIZE_ALIGNED_def LWIP_MEM_ALIGN_SIZE_def)

text \<open>\<open>ram\<close>, \<open>lfree\<close> and the heap's part of the statistics.\<close>

record lheap =
  hp_ram :: ram
  hp_lfree :: nat
  hp_err :: u16
  hp_avail :: u16
  hp_used :: u16
  hp_max :: u16
  hp_illegal :: u16

definition inc_used :: "u16 \<Rightarrow> lheap \<Rightarrow> lheap" where
  "inc_used y h = (let h = h\<lparr>hp_used := hp_used h + y\<rparr> in if hp_max h < hp_used h then h\<lparr>hp_max := hp_used h\<rparr> else h)"

definition dec_used :: "u16 \<Rightarrow> lheap \<Rightarrow> lheap" where
  "dec_used y h = h\<lparr>hp_used := hp_used h - y\<rparr>"

definition inc_illegal :: "lheap \<Rightarrow> lheap" where
  "inc_illegal h = h\<lparr>hp_illegal := hp_illegal h + 1\<rparr>"

definition mem_init :: "lheap \<Rightarrow> lheap" where
  "mem_init h =
     h\<lparr>hp_ram := set_prev MEM_SIZE_ALIGNED MEM_SIZE_ALIGNED (set_next MEM_SIZE_ALIGNED MEM_SIZE_ALIGNED (set_used MEM_SIZE_ALIGNED 1
         (set_used 0 0 (set_prev 0 0 (set_next 0 MEM_SIZE_ALIGNED (hp_ram h)))))),
       hp_lfree := 0, hp_avail := of_nat MEM_SIZE_ALIGNED\<rparr>"

section \<open>Freeing\<close>

text \<open>The block at \<open>mem\<close> takes in its successor \<open>nmem\<close>, as both halves of \<open>plug_holes\<close> do it.\<close>

definition absorb :: "nat \<Rightarrow> nat \<Rightarrow> lheap \<Rightarrow> lheap" where
  "absorb mem nmem h =
     (let r = set_next mem (mem_next (hp_ram h) nmem) (hp_ram h);
          r = (if mem_next r nmem \<noteq> MEM_SIZE_ALIGNED then set_prev (mem_next r nmem) mem r else r)
      in h\<lparr>hp_ram := r, hp_lfree := (if hp_lfree h = nmem then mem else hp_lfree h)\<rparr>)"

definition plug_holes :: "nat \<Rightarrow> lheap \<Rightarrow> lheap" where
  "plug_holes mem h =
     (let nmem = mem_next (hp_ram h) mem;
          h = (if mem \<noteq> nmem \<and> mem_used (hp_ram h) nmem = 0 \<and> nmem \<noteq> MEM_SIZE_ALIGNED then absorb mem nmem h else h);
          pmem = mem_prev (hp_ram h) mem
      in if pmem \<noteq> mem \<and> mem_used (hp_ram h) pmem = 0 then absorb pmem mem h else h)"

definition mem_link_valid :: "ram \<Rightarrow> nat \<Rightarrow> bool" where
  "mem_link_valid r mem \<longleftrightarrow>
     \<not> (mem_next r mem > MEM_SIZE_ALIGNED \<or> mem_prev r mem > MEM_SIZE_ALIGNED \<or>
        mem_prev r mem \<noteq> mem \<and> mem_next r (mem_prev r mem) \<noteq> mem \<or>
        mem_next r mem \<noteq> MEM_SIZE_ALIGNED \<and> mem_prev r (mem_next r mem) \<noteq> mem)"

definition mem_free :: "int option \<Rightarrow> lheap \<Rightarrow> lheap" where
  "mem_free rmem h =
     (case rmem of
        None \<Rightarrow> h
      | Some a \<Rightarrow>
          if a mod 4 \<noteq> 0 then inc_illegal h
          else if a - int SIZEOF_STRUCT_MEM < 0 \<or> a + int MIN_SIZE_ALIGNED > int MEM_SIZE_ALIGNED then inc_illegal h
          else
            let mem = nat (a - int SIZEOF_STRUCT_MEM)
            in if mem_used (hp_ram h) mem = 0 then inc_illegal h
               else if \<not> mem_link_valid (hp_ram h) mem then inc_illegal h
               else
                 let h = h\<lparr>hp_ram := set_used mem 0 (hp_ram h)\<rparr>;
                     h = (if mem < hp_lfree h then h\<lparr>hp_lfree := mem\<rparr> else h);
                     h = dec_used (of_nat (mem_next (hp_ram h) mem) - of_nat mem) h
                 in plug_holes mem h)"

section \<open>Allocating\<close>

text \<open>The size of the data of a block for a request.\<close>

definition block_size :: "nat \<Rightarrow> nat" where
  "block_size n = (let size = LWIP_MEM_ALIGN_SIZE n mod 65536 in if size < MIN_SIZE_ALIGNED then MIN_SIZE_ALIGNED else size)"

text \<open>\<open>mem->next - (ptr + SIZEOF_STRUCT_MEM)\<close>, a 64-bit number.\<close>

definition user_size :: "ram \<Rightarrow> nat \<Rightarrow> nat" where
  "user_size r ptr = nat ((int (mem_next r ptr) - int (ptr + SIZEOF_STRUCT_MEM)) mod 2 ^ 64)"

partial_function (option) find_fit :: "nat \<Rightarrow> ram \<Rightarrow> nat \<Rightarrow> nat option option" where
  "find_fit want r ptr =
     (if ptr < MEM_SIZE_ALIGNED - want then
        if mem_used r ptr = 0 \<and> user_size r ptr \<ge> want then Some (Some ptr) else find_fit want r (mem_next r ptr)
      else Some None)"

partial_function (option) next_free :: "ram \<Rightarrow> nat \<Rightarrow> nat option" where
  "next_free r cur = (if mem_used r cur \<noteq> 0 \<and> cur \<noteq> MEM_SIZE_ALIGNED then next_free r (mem_next r cur) else Some cur)"

text \<open>The block at \<open>ptr\<close> becomes used, and is split when the rest can hold another; the result has what the statistics count.\<close>

definition take_block :: "nat \<Rightarrow> nat \<Rightarrow> ram \<Rightarrow> ram \<times> u16" where
  "take_block want ptr r =
     (if user_size r ptr \<ge> want + SIZEOF_STRUCT_MEM + MIN_SIZE_ALIGNED then
        let ptr2 = (ptr + SIZEOF_STRUCT_MEM + want) mod 65536;
            r = set_used ptr2 0 r;
            r = set_next ptr2 (mem_next r ptr) r;
            r = set_prev ptr2 ptr r;
            r = set_next ptr ptr2 r;
            r = set_used ptr 1 r;
            r = (if mem_next r ptr2 \<noteq> MEM_SIZE_ALIGNED then set_prev (mem_next r ptr2) ptr2 r else r)
        in (r, of_nat (want + SIZEOF_STRUCT_MEM))
      else (set_used ptr 1 r, of_nat (mem_next r ptr) - of_nat ptr))"

definition mem_malloc :: "nat \<Rightarrow> lheap \<Rightarrow> (lheap \<times> nat option) option" where
  "mem_malloc size_in h =
     (if size_in = 0 then Some (h, None)
      else
        let size = block_size size_in
        in if size > MEM_SIZE_ALIGNED \<or> size < size_in then Some (h, None)
           else
             do { fit \<leftarrow> find_fit size (hp_ram h) (hp_lfree h);
                  (case fit of
                     None \<Rightarrow> Some (h\<lparr>hp_err := hp_err h + 1\<rparr>, None)
                   | Some ptr \<Rightarrow>
                       let t = take_block size ptr (hp_ram h);
                           h = inc_used (snd t) (h\<lparr>hp_ram := fst t\<rparr>)
                       in do { lf \<leftarrow> (if ptr = hp_lfree h then next_free (hp_ram h) (hp_lfree h) else Some (hp_lfree h));
                               Some (h\<lparr>hp_lfree := lf\<rparr>, Some (ptr + SIZEOF_STRUCT_MEM)) }) })"

definition mem_calloc :: "nat \<Rightarrow> nat \<Rightarrow> lheap \<Rightarrow> (lheap \<times> nat option) option" where
  "mem_calloc count sz h =
     (let alloc_size = count * sz
      in if alloc_size mod 65536 \<noteq> alloc_size then Some (h, None)
         else
           do { (h, p) \<leftarrow> mem_malloc alloc_size h;
                Some (case p of
                        None \<Rightarrow> (h, None)
                      | Some a \<Rightarrow> (h\<lparr>hp_ram := (\<lambda>i. if a \<le> i \<and> i < a + alloc_size then 0 else hp_ram h i)\<rparr>, p)) })"

section \<open>Shrinking\<close>

text \<open>A free block at \<open>ptr2\<close> is put between the one at \<open>ptr\<close> and \<open>next\<close>, as both branches of \<open>mem_trim\<close> do it.\<close>

definition insert_free :: "nat \<Rightarrow> nat \<Rightarrow> nat \<Rightarrow> ram \<Rightarrow> ram" where
  "insert_free ptr ptr2 next r =
     (let r = set_used ptr2 0 r;
          r = set_next ptr2 next r;
          r = set_prev ptr2 ptr r;
          r = set_next ptr ptr2 r
      in if mem_next r ptr2 \<noteq> MEM_SIZE_ALIGNED then set_prev (mem_next r ptr2) ptr2 r else r)"

text \<open>\<open>None\<close> is a header in front of the array.\<close>

definition mem_trim :: "int \<Rightarrow> nat \<Rightarrow> lheap \<Rightarrow> (lheap \<times> int option) option" where
  "mem_trim rmem new_size h =
     (let newsize = block_size new_size
      in if newsize > MEM_SIZE_ALIGNED \<or> newsize < new_size then Some (h, None)
         else if rmem < 0 \<or> rmem \<ge> int MEM_SIZE_ALIGNED then Some (inc_illegal h, Some rmem)
         else if rmem < int SIZEOF_STRUCT_MEM then None
         else
           let ptr = nat rmem - SIZEOF_STRUCT_MEM;
               r = hp_ram h;
               size = nat ((int (mem_next r ptr) - int ptr - int SIZEOF_STRUCT_MEM) mod 65536);
               mem2 = mem_next r ptr;
               ptr2 = (ptr + SIZEOF_STRUCT_MEM + newsize) mod 65536
           in if newsize > size then Some (h, None)
              else if newsize = size then Some (h, Some rmem)
              else if mem_used r mem2 = 0 then
                let h = (if hp_lfree h = mem2 then h\<lparr>hp_lfree := ptr2\<rparr> else h)
                in Some (dec_used (of_nat size - of_nat newsize) (h\<lparr>hp_ram := insert_free ptr ptr2 (mem_next r mem2) r\<rparr>), Some rmem)
              else if newsize + SIZEOF_STRUCT_MEM + MIN_SIZE_ALIGNED \<le> size then
                let h = (if ptr2 < hp_lfree h then h\<lparr>hp_lfree := ptr2\<rparr> else h)
                in Some (dec_used (of_nat size - of_nat newsize)
                           (h\<lparr>hp_ram := insert_free ptr ptr2 (mem_next (set_used ptr2 0 r) ptr) r\<rparr>), Some rmem)
              else Some (h, Some rmem))"

end
