(* ===== verification/Lwip_Mem_Correct.thy ===== *)
theory Lwip_Mem_Correct
  imports Lwip_Mem
begin

text \<open>
  The heap as its users see it: every pointer it has given out owns an array of its own.  The bytes of the heap are
  a sequence of blocks from the first header to the end marker, no two free ones side by side, with \<open>lfree\<close> on the
  lowest free one; every operation takes such a heap to such a heap by an operation on the list of blocks, and touches
  no byte of a used block's data.
\<close>

section \<open>Reading what was written\<close>

lemma get_put16 [simp]: "get16 (put16 a v r) a = v mod 65536"
proof -
  have "unat (of_nat (v div 256) :: u8) = v div 256 mod 256" "unat (of_nat v :: u8) = v mod 256"
    by (simp_all add: unat_of_nat)
  moreover have "v mod 256 + 256 * (v div 256 mod 256) = v mod (256 * 256)" by (simp only: mod_mult2_eq add.commute)
  ultimately show ?thesis by (simp add: get16_def put16_def)
qed

lemma get_put16_other [simp]: "a + 1 < b \<or> b + 1 < a \<Longrightarrow> get16 (put16 b v r) a = get16 r a"
  by (auto simp: get16_def put16_def)

lemma put16_other [simp]: "i \<noteq> a \<Longrightarrow> i \<noteq> a + 1 \<Longrightarrow> put16 a v r i = r i"
  by (auto simp: put16_def)

lemma get16_upd [simp]: "i < a \<or> a + 2 \<le> i \<Longrightarrow> get16 (r(i := v)) a = get16 r a"
  by (auto simp: get16_def)

lemma get16_less: "get16 r a < 65536"
  using u8_lt [of "r a"] u8_lt [of "r (a + 1)"] by (simp add: get16_def)

lemmas header_defs = mem_next_def mem_prev_def mem_used_def set_next_def set_prev_def set_used_def

section \<open>The list of blocks\<close>

text \<open>A block has its size with the header, and whether it is used.  \<open>past p bs\<close> is the end of the blocks \<open>bs\<close> that begin at \<open>p\<close>, and
  \<open>final pr p bs\<close> the last of them (\<open>pr\<close> if there is none).\<close>

type_synonym block = "nat \<times> bool"

definition past :: "nat \<Rightarrow> block list \<Rightarrow> nat" where
  "past p bs = p + sum_list (map fst bs)"

fun final :: "nat \<Rightarrow> nat \<Rightarrow> block list \<Rightarrow> nat" where
  "final pr p [] = pr"
| "final pr p (b # bs) = final p (p + fst b) bs"

fun blocks_at :: "ram \<Rightarrow> nat \<Rightarrow> nat \<Rightarrow> block list \<Rightarrow> bool" where
  "blocks_at r pr p [] \<longleftrightarrow> True"
| "blocks_at r pr p (b # bs) \<longleftrightarrow> mem_next r p = p + fst b \<and> mem_prev r p = pr \<and> mem_used r p = of_bool (snd b) \<and> 20 \<le> fst b \<and> 4 dvd fst b \<and>
     blocks_at r p (p + fst b) bs"

lemma past_simps [simp]: "past p [] = p" "past p (b # bs) = past (p + fst b) bs" "past p (as @ bs) = past (past p as) bs"
  by (simp_all add: past_def)

lemma past_ge: "p \<le> past p bs"
  by (simp add: past_def)

lemma final_append [simp]: "final pr p (as @ bs) = final (final pr p as) (past p as) bs"
  by (induction pr p as rule: final.induct) simp_all

lemma blocks_at_append [simp]: "blocks_at r pr p (as @ bs) \<longleftrightarrow> blocks_at r pr p as \<and> blocks_at r (final pr p as) (past p as) bs"
  by (induction r pr p as rule: blocks_at.induct) auto

lemma blocks_at_cong:
  "blocks_at r pr p bs \<Longrightarrow> (\<And>a. p \<le> a \<Longrightarrow> a < past p bs \<Longrightarrow> r' a = r a) \<Longrightarrow> blocks_at r' pr p bs"
proof (induction bs arbitrary: pr p)
  case (Cons b bs)
  have s: "20 \<le> fst b" and e: "past p (b # bs) \<ge> p + 20" using Cons.prems(1) past_ge [of "p + fst b" bs] by auto
  have "r' (p + i) = r (p + i)" if "i < 20" for i using Cons.prems(2) [of "p + i"] that e by simp
  from this [of 0] this [of 1] this [of 2] this [of 3] this [of 4]
  have "mem_next r' p = mem_next r p" "mem_prev r' p = mem_prev r p" "mem_used r' p = mem_used r p"
    by (simp_all add: header_defs get16_def numeral_3_eq_3)
  moreover have "blocks_at r' p (p + fst b) bs" using Cons.prems s by (intro Cons.IH) auto
  ultimately show ?case using Cons.prems(1) by simp
qed simp

lemma blocks_at_set_prev:
  assumes "blocks_at r pr p bs" "bs \<noteq> []" "v < 65536" shows "blocks_at (set_prev p v r) v p bs"
proof (cases bs)
  case (Cons b cs)
  have "blocks_at (set_prev p v r) p (p + fst b) cs"
    by (rule blocks_at_cong [of r]) (use assms(1) Cons in \<open>auto simp: set_prev_def\<close>)
  then show ?thesis using assms Cons by (simp add: header_defs)
qed (use assms in simp)

lemma final_before: "blocks_at r pr p bs \<Longrightarrow> bs \<noteq> [] \<Longrightarrow> p \<le> final pr p bs \<and> final pr p bs + 20 \<le> past p bs"
proof (induction bs arbitrary: pr p)
  case (Cons b bs)
  show ?case
  proof (cases bs)
    case Nil
    then show ?thesis using Cons.prems by simp
  next
    case (Cons c cs)
    then show ?thesis using Cons.IH [of p "p + fst b"] Cons.prems by auto
  qed
qed simp

fun first_free :: "nat \<Rightarrow> block list \<Rightarrow> nat" where
  "first_free p [] = p"
| "first_free p (b # bs) = (if snd b then first_free (p + fst b) bs else p)"

definition used_bytes :: "block list \<Rightarrow> nat" where
  "used_bytes bs = sum_list (map fst (filter snd bs))"

text \<open>The bytes of the heap hold the blocks \<open>bs\<close>.\<close>

definition laid :: "lheap \<Rightarrow> block list \<Rightarrow> bool" where
  "laid h bs \<longleftrightarrow> blocks_at (hp_ram h) 0 0 bs \<and> past 0 bs = 49152 \<and> mem_used (hp_ram h) 49152 = 1 \<and> mem_next (hp_ram h) 49152 = 49152 \<and>
     hp_lfree h = first_free 0 bs \<and> hp_used h = of_nat (used_bytes bs)"

definition no_holes :: "block list \<Rightarrow> bool" where
  "no_holes bs \<longleftrightarrow> successively (\<lambda>b c. snd b \<or> snd c) bs"

definition holds :: "lheap \<Rightarrow> block list \<Rightarrow> bool" where
  "holds h bs \<longleftrightarrow> laid h bs \<and> no_holes bs"

lemma holds_init:
  assumes "hp_used h = 0" shows "holds (mem_init h) [(49152, False)]"
  using assms by (simp add: holds_def laid_def no_holes_def mem_init_def mem_sizes used_bytes_def) (simp add: header_defs)

section \<open>The searches\<close>

fun fit :: "nat \<Rightarrow> nat \<Rightarrow> block list \<Rightarrow> nat option" where
  "fit want p [] = None"
| "fit want p (b # bs) = (if \<not> snd b \<and> want + 8 \<le> fst b then Some p else fit want (p + fst b) bs)"

lemma user_size_val: "mem_next r p = p + n \<Longrightarrow> 20 \<le> n \<Longrightarrow> n < 65536 \<Longrightarrow> user_size r p = n - 8"
  by (simp add: user_size_def mem_sizes of_nat_diff)

lemma fit_None: "past p bs < p + want + 8 \<Longrightarrow> fit want p bs = None"
proof (induction bs arbitrary: p)
  case (Cons b bs)
  then show ?case using past_ge [of "p + fst b" bs] by auto
qed simp

lemma fit_Some:
  "fit want p bs = Some q \<Longrightarrow> \<exists>as n cs. bs = as @ (n, False) # cs \<and> q = past p as \<and> want + 8 \<le> n"
proof (induction bs arbitrary: p)
  case (Cons b bs)
  show ?case
  proof (cases "\<not> snd b \<and> want + 8 \<le> fst b")
    case True
    then show ?thesis using Cons.prems by (intro exI [of _ "[]"] exI [of _ "fst b"] exI [of _ bs]) (auto simp: prod_eq_iff)
  next
    case False
    then have "fit want (p + fst b) bs = Some q" using Cons.prems by auto
    from Cons.IH [OF this] obtain as n cs where "bs = as @ (n, False) # cs" "q = past (p + fst b) as" "want + 8 \<le> n" by blast
    then show ?thesis by (intro exI [of _ "b # as"]) auto
  qed
qed simp

lemma fit_None_blocks: "fit want p bs = None \<Longrightarrow> list_all (\<lambda>b. snd b \<or> fst b < want + 8) bs"
  by (induction want p bs rule: fit.induct) (auto split: if_splits)

lemma find_fit_val:
  "blocks_at r pr p bs \<Longrightarrow> past p bs = 49152 \<Longrightarrow> find_fit want r p = Some (fit want p bs)"
proof (induction bs arbitrary: pr p)
  case Nil
  then have "\<not> p < MEM_SIZE_ALIGNED - want" by (simp add: mem_sizes)
  then show ?case by (subst find_fit.simps) simp
next
  case (Cons b bs)
  have n: "fst b < 65536" using Cons.prems past_ge [of "p + fst b" bs] by simp
  have u: "user_size r p = fst b - 8" using Cons.prems n by (intro user_size_val) auto
  have f: "mem_used r p = 0 \<longleftrightarrow> \<not> snd b" "20 \<le> fst b" using Cons.prems by auto
  show ?case
  proof (cases "p < MEM_SIZE_ALIGNED - want")
    case True
    have "find_fit want r (mem_next r p) = Some (fit want (p + fst b) bs)" using Cons.IH [of p "p + fst b"] Cons.prems by simp
    then show ?thesis using True u f by (subst find_fit.simps) (auto simp: le_diff_conv2)
  next
    case False
    then have "fit want p (b # bs) = None" using Cons.prems(2) by (intro fit_None) (simp add: mem_sizes)
    then show ?thesis using False by (subst find_fit.simps) simp
  qed
qed

lemma find_fit_first:
  "blocks_at r pr p bs \<Longrightarrow> past p bs = 49152 \<Longrightarrow> find_fit want r (first_free p bs) = Some (fit want p bs)"
proof (induction bs arbitrary: pr p)
  case (Cons b bs)
  show ?case
  proof (cases "snd b")
    case True
    then show ?thesis using Cons.IH [of p "p + fst b"] Cons.prems by simp
  next
    case False
    then show ?thesis using find_fit_val [OF Cons.prems] by simp
  qed
qed (use find_fit_val [of r _ _ "[]"] in fastforce)

lemma next_free_val:
  "blocks_at r pr p bs \<Longrightarrow> past p bs = 49152 \<Longrightarrow> next_free r p = Some (first_free p bs)"
proof (induction bs arbitrary: pr p)
  case Nil
  then show ?case by (subst next_free.simps) (simp add: mem_sizes)
next
  case (Cons b bs)
  have "p \<noteq> 49152" "mem_next r p = p + fst b" using Cons.prems past_ge [of "p + fst b" bs] by auto
  then show ?case using Cons.IH [of p "p + fst b"] Cons.prems by (subst next_free.simps) (auto simp: mem_sizes)
qed

section \<open>Replacing blocks\<close>

text \<open>The bytes that belong to the users.\<close>

fun owned :: "nat \<Rightarrow> block list \<Rightarrow> nat \<Rightarrow> bool" where
  "owned p [] a \<longleftrightarrow> False"
| "owned p (b # bs) a \<longleftrightarrow> snd b \<and> p + 8 \<le> a \<and> a < p + fst b \<or> owned (p + fst b) bs a"

lemma owned_append [simp]: "owned p (as @ bs) a \<longleftrightarrow> owned p as a \<or> owned (past p as) bs a"
  by (induction p as a rule: owned.induct) auto

lemma owned_range: "owned p bs a \<Longrightarrow> p + 8 \<le> a \<and> a < past p bs"
proof (induction p bs a rule: owned.induct)
  case (2 p b bs a)
  then show ?case using past_ge [of "p + fst b" bs] by auto
qed simp

text \<open>\<open>r'\<close> differs from \<open>r\<close> only between \<open>m\<close> and \<open>e\<close> and in the back link of the block at \<open>e\<close>, if there is one.\<close>

definition edits :: "nat \<Rightarrow> nat \<Rightarrow> ram \<Rightarrow> ram \<Rightarrow> bool" where
  "edits m e r r' \<longleftrightarrow> (\<forall>a. a < m \<longrightarrow> r' a = r a) \<and> (\<forall>a\<ge>e. e = 49152 \<or> a \<noteq> e + 2 \<and> a \<noteq> e + 3 \<longrightarrow> r' a = r a)"

lemma edits_owned:
  assumes "edits m e r r'" "owned p as a \<and> past p as \<le> m \<or> owned e cs a" shows "r' a = r a"
  using assms owned_range [of p as a] owned_range [of e cs a] by (auto simp: edits_def)

lemma laid_replace:
  assumes h: "laid h (as @ mid @ cs)" and m: "m = past 0 as" and e: "e = past m mid"
    and mid': "blocks_at (hp_ram h') (final 0 0 as) m mid'" "past m mid' = e"
    and ed: "edits m e (hp_ram h) (hp_ram h')" and lnk: "e \<noteq> 49152 \<Longrightarrow> mem_prev (hp_ram h') e = final (final 0 0 as) m mid'"
    and s: "hp_lfree h' = first_free 0 (as @ mid' @ cs)"
      "hp_used h' = of_nat (used_bytes (as @ mid' @ cs))"
  shows "laid h' (as @ mid' @ cs)"
proof -
  let ?r = "hp_ram h" and ?r' = "hp_ram h'"
  have old: "blocks_at ?r 0 0 as" "blocks_at ?r (final 0 0 (as @ mid)) e cs" "past e cs = 49152" "mem_used ?r 49152 = 1" "mem_next ?r 49152 = 49152"
    using h by (simp_all add: laid_def m e)
  have low: "?r' a = ?r a" if "a < m" for a using ed that by (simp add: edits_def)
  have high: "?r' a = ?r a" if "e \<le> a" "e = 49152 \<or> a \<noteq> e + 2 \<and> a \<noteq> e + 3" for a using ed that by (auto simp: edits_def)
  have "blocks_at ?r' 0 0 as" by (rule blocks_at_cong [OF old(1)]) (use low m in auto)
  moreover have "blocks_at ?r' (final (final 0 0 as) m mid') e cs"
  proof (cases cs)
    case (Cons c cs')
    have ne: "e \<noteq> 49152" using old(2,3) Cons past_ge [of "e + fst c" cs'] by auto
    have "mem_next ?r' e = mem_next ?r e" "mem_used ?r' e = mem_used ?r e" using high [of e] high [of "e + 1"] high [of "e + 4"]
      by (simp_all add: header_defs get16_def)
    moreover have "blocks_at ?r' e (e + fst c) cs'"
      by (rule blocks_at_cong [of ?r]) (use old(2) Cons high in auto)
    ultimately show ?thesis using old(2) lnk [OF ne] Cons by simp
  qed simp
  moreover have "mem_used ?r' 49152 = 1" "mem_next ?r' 49152 = 49152"
  proof -
    have "e = 49152 \<or> e + 20 \<le> 49152" 
    proof (cases cs)
      case (Cons c cs')
      then show ?thesis using old(2,3) past_ge [of "e + fst c" cs'] by auto
    qed (use old(3) in simp)
    then have "?r' 49152 = ?r 49152" "?r' (49152 + 1) = ?r (49152 + 1)" "?r' (49152 + 4) = ?r (49152 + 4)"
      using high by (auto intro!: high)
    then show "mem_used ?r' 49152 = 1" "mem_next ?r' 49152 = 49152" using old(4,5) by (simp_all add: header_defs get16_def)
  qed
  ultimately show ?thesis using mid' s old(3) by (simp add: laid_def m e [symmetric])
qed

section \<open>Allocation\<close>

lemma past_dvd: "blocks_at r pr p bs \<Longrightarrow> 4 dvd p \<Longrightarrow> 4 dvd past p bs"
  by (induction r pr p bs rule: blocks_at.induct) auto

lemma first_free_append:
  "first_free p (as @ bs) = (if list_all snd as then first_free (past p as) bs else first_free p as)"
  by (induction p as rule: first_free.induct) auto

lemma first_free_before: "blocks_at r pr p as \<Longrightarrow> \<not> list_all snd as \<Longrightarrow> first_free p as + 20 \<le> past p as"
proof (induction as arbitrary: pr p)
  case (Cons b bs)
  then show ?case using past_ge [of "p + fst b" bs] by auto
qed simp

lemma first_free_ge: "p \<le> first_free p bs"
  by (induction p bs rule: first_free.induct) auto

lemma used_bytes_simps [simp]:
  "used_bytes [] = 0" "used_bytes (b # bs) = (if snd b then fst b else 0) + used_bytes bs" "used_bytes (as @ bs) = used_bytes as + used_bytes bs"
  by (simp_all add: used_bytes_def)

lemma inc_used_simps [simp]:
  "hp_ram (inc_used y h) = hp_ram h" "hp_lfree (inc_used y h) = hp_lfree h" "hp_used (inc_used y h) = hp_used h + y"
  by (simp_all add: inc_used_def Let_def)

lemma block_size_ok:
  assumes "\<not> block_size n > 49152" "\<not> block_size n < n" "0 < n" "n < 65536"
  shows "n \<le> block_size n" "12 \<le> block_size n" "block_size n \<le> 49152" "4 dvd block_size n"
proof -
  have "4 dvd (n + 3) div 4 * 4 mod 65536" by (rule dvd_mod) simp_all
  then show "4 dvd block_size n" by (simp add: block_size_def LWIP_MEM_ALIGN_SIZE_def mem_sizes Let_def)
  show "12 \<le> block_size n" by (simp add: block_size_def mem_sizes Let_def)
qed (use assms in simp_all)

definition taken :: "nat \<Rightarrow> nat \<Rightarrow> block list" where
  "taken want n = (if want + 28 \<le> n then [(want + 8, True), (n - (want + 8), False)] else [(n, True)])"

lemma past_taken [simp]: "want + 8 \<le> n \<Longrightarrow> past p (taken want n) = p + n"
  by (simp add: taken_def)

lemma take_block_val:
  assumes "blocks_at r pr p [(n, False)]" "p + n \<le> 49152" "want + 8 \<le> n" "12 \<le> want" "4 dvd want"
    "p + n \<noteq> 49152 \<Longrightarrow> mem_prev r (p + n) = p"
  defines "r' \<equiv> fst (take_block want p r)"
  shows "blocks_at r' pr p (taken want n)" "edits p (p + n) r r'" "p + n \<noteq> 49152 \<Longrightarrow> mem_prev r' (p + n) = final pr p (taken want n)"
    "snd (take_block want p r) = of_nat (used_bytes (taken want n))"
proof -
  have b: "mem_next r p = p + n" "mem_prev r p = pr" "20 \<le> n" "4 dvd n" using assms(1) by simp_all
  have pr: "pr < 65536" using b(2) get16_less [of r "p + 2"] by (simp add: mem_prev_def)
  have u: "user_size r p = n - 8" using b assms(2) by (intro user_size_val) auto
  show "blocks_at r' pr p (taken want n)" "edits p (p + n) r r'" "p + n \<noteq> 49152 \<Longrightarrow> mem_prev r' (p + n) = final pr p (taken want n)"
    "snd (take_block want p r) = of_nat (used_bytes (taken want n))"
  proof -
    show "blocks_at r' pr p (taken want n)"
    proof (cases "want + 28 \<le> n")
      case True
      have d: "4 dvd n - (want + 8)" using b(4) assms(5) by (intro dvd_diff_nat) auto
      have e: "p + (want + 8) = p + 8 + want" "20 + want \<le> n - 8" "20 \<le> n - (want + 8)" "4 dvd want + 8" using True assms(5) by auto
      show ?thesis using True d u b assms(2,3,4) pr e(2-4)
        by (simp add: r'_def take_block_def taken_def mem_sizes Let_def) (simp add: header_defs e(1))
    next
      case False
      then have "\<not> 20 + want \<le> n - 8" using assms(3) by simp
      then show ?thesis using False u b assms(2-5) by (simp add: r'_def take_block_def taken_def mem_sizes Let_def) (simp add: header_defs)
    qed
    show "edits p (p + n) r r'"
      using u b assms(2-5) by (auto simp: r'_def take_block_def edits_def mem_sizes Let_def header_defs)
    show "mem_prev r' (p + n) = final pr p (taken want n)" if "p + n \<noteq> 49152"
      using that u b assms(2-6) by (auto simp: r'_def take_block_def taken_def mem_sizes Let_def header_defs)
    show "snd (take_block want p r) = of_nat (used_bytes (taken want n))"
      using u b assms(2-5) by (auto simp: take_block_def taken_def mem_sizes Let_def)
  qed
qed

lemma no_holes_taken:
  "no_holes (as @ (n, False) # cs) \<Longrightarrow> no_holes (as @ taken want n @ cs)"
  by (auto simp: no_holes_def taken_def successively_append_iff successively_Cons)

lemma malloc_takes:
  assumes h: "holds h (as @ (n, False) # cs)" and want: "want + 8 \<le> n" "12 \<le> want" "4 dvd want"
  defines "t \<equiv> take_block want (past 0 as) (hp_ram h)"
  defines "h1 \<equiv> inc_used (snd t) (h\<lparr>hp_ram := fst t\<rparr>)"
  shows "\<exists>lf. (if past 0 as = hp_lfree h1 then next_free (hp_ram h1) (hp_lfree h1) else Some (hp_lfree h1)) = Some lf \<and>
      holds (h1\<lparr>hp_lfree := lf\<rparr>) (as @ taken want n @ cs)"
    "owned 0 (as @ (n, False) # cs) a \<Longrightarrow> hp_ram h1 a = hp_ram h a"
proof -
  let ?bs = "as @ taken want n @ cs" and ?p = "past 0 as" and ?lf = "first_free 0 (as @ taken want n @ cs)"
  have old: "blocks_at (hp_ram h) 0 0 as" "blocks_at (hp_ram h) (final 0 0 as) ?p [(n, False)]" "past (?p + n) cs = 49152"
    "hp_lfree h = first_free 0 (as @ (n, False) # cs)" "hp_used h = of_nat (used_bytes (as @ (n, False) # cs))"
    "no_holes (as @ (n, False) # cs)" "laid h (as @ [(n, False)] @ cs)"
    using h by (simp_all add: holds_def laid_def)
  have le: "?p + n \<le> 49152" using old(3) past_ge [of "?p + n" cs] by simp
  have lnk: "mem_prev (hp_ram h) (?p + n) = ?p" if "?p + n \<noteq> 49152" using h that by (cases cs) (auto simp: holds_def laid_def)
  note v = take_block_val [OF old(2) le want lnk, folded t_def]
  have r: "hp_ram h1 = fst t" by (simp add: h1_def)
  have new: "holds (h1\<lparr>hp_lfree := ?lf\<rparr>) ?bs"
  proof -
    have "laid (h1\<lparr>hp_lfree := ?lf\<rparr>) ?bs"
    proof (rule laid_replace [OF old(7)])
      show "hp_used (h1\<lparr>hp_lfree := ?lf\<rparr>) = of_nat (used_bytes ?bs)" using old(5) v(4) by (simp add: h1_def)
    qed (use v r want in simp_all)
    then show ?thesis using no_holes_taken [OF old(6)] by (simp add: holds_def)
  qed
  moreover have "next_free (hp_ram h1) (hp_lfree h1) = Some ?lf" if "?p = hp_lfree h1"
  proof -
    have "first_free 0 (as @ (n, False) # cs) = ?p" using that old(4) by (simp add: h1_def)
    then have "list_all snd as" using first_free_before [OF old(1)] by (auto simp: first_free_append split: if_splits)
    then have "first_free ?p (taken want n @ cs) = ?lf" by (simp add: first_free_append)
    moreover have "blocks_at (hp_ram h1) (final 0 0 as) ?p (taken want n @ cs)" "past ?p (taken want n @ cs) = 49152"
      using new want(1) by (simp_all add: holds_def laid_def)
    ultimately show ?thesis using next_free_val that by metis
  qed
  moreover have "?lf = hp_lfree h1" if "?p \<noteq> hp_lfree h1"
    using that old(4) by (auto simp: h1_def first_free_append split: if_splits)
  ultimately show "\<exists>lf. (if ?p = hp_lfree h1 then next_free (hp_ram h1) (hp_lfree h1) else Some (hp_lfree h1)) = Some lf \<and>
      holds (h1\<lparr>hp_lfree := lf\<rparr>) ?bs" by (auto intro: exI [of _ ?lf])
  show "hp_ram h1 a = hp_ram h a" if "owned 0 (as @ (n, False) # cs) a"
    unfolding r by (rule edits_owned [OF v(2)]) (use that in auto)
qed

text \<open>What \<open>mem_malloc\<close> does to the blocks.\<close>

lemma malloc_result:
  assumes h: "holds h bs" and n: "size_in < 65536"
  shows "\<exists>h' res. mem_malloc size_in h = Some (h', res) \<and>
    (case res of
       None \<Rightarrow> holds h' bs \<and> hp_ram h' = hp_ram h \<and>
         (size_in = 0 \<or> 49144 < size_in \<or> list_all (\<lambda>b. snd b \<or> fst b < block_size size_in + 8) bs)
     | Some a \<Rightarrow> 0 < size_in \<and> (\<exists>as m cs. bs = as @ (m, False) # cs \<and> a = past 0 as + 8 \<and> size_in \<le> block_size size_in \<and> block_size size_in + 8 \<le> m \<and>
         holds h' (as @ taken (block_size size_in) m @ cs) \<and> (\<forall>x. owned 0 bs x \<longrightarrow> hp_ram h' x = hp_ram h x)))"
proof -
  define want where "want = block_size size_in"
  show ?thesis
  proof (cases "size_in = 0 \<or> want > 49152 \<or> want < size_in")
    case True
    have "12 < want \<Longrightarrow> want \<le> size_in + 3" "size_in \<le> 65532 \<Longrightarrow> size_in \<le> want"
      by (auto simp: want_def block_size_def LWIP_MEM_ALIGN_SIZE_def mem_sizes Let_def)
    then have "size_in = 0 \<or> 49144 < size_in" using True by (cases "size_in \<le> 65532") auto
    moreover have "mem_malloc size_in h = Some (h, None)" using True by (auto simp: mem_malloc_def want_def mem_sizes Let_def)
    ultimately show ?thesis using h by auto
  next
    case False
    then have w: "size_in \<le> want" "12 \<le> want" "4 dvd want" using block_size_ok [of size_in] n by (auto simp: want_def)
    have f: "find_fit want (hp_ram h) (hp_lfree h) = Some (fit want 0 bs)" using h find_fit_first by (auto simp: holds_def laid_def)
    show ?thesis
    proof (cases "fit want 0 bs")
      case None
      have "holds (h\<lparr>hp_err := hp_err h + 1\<rparr>) bs" using h by (simp add: holds_def laid_def)
      moreover have "list_all (\<lambda>b. snd b \<or> fst b < want + 8) bs" using fit_None_blocks [OF None] .
      moreover have "mem_malloc size_in h = Some (h\<lparr>hp_err := hp_err h + 1\<rparr>, None)"
        using False f None by (simp add: mem_malloc_def want_def mem_sizes Let_def)
      ultimately show ?thesis by (simp add: want_def)
    next
      case (Some q)
      then obtain as m cs where bs: "bs = as @ (m, False) # cs" "q = past 0 as" "want + 8 \<le> m" using fit_Some by blast
      define t where "t = take_block want (past 0 as) (hp_ram h)"
      note tk = malloc_takes [OF h [unfolded bs(1)] bs(3) w(2,3), folded t_def]
      from tk(1) obtain lf where lf: "holds ((inc_used (snd t) (h\<lparr>hp_ram := fst t\<rparr>))\<lparr>hp_lfree := lf\<rparr>) (as @ taken want m @ cs)"
        "(if past 0 as = hp_lfree h then next_free (fst t) (hp_lfree h) else Some (hp_lfree h)) = Some lf" by (auto split: if_splits)
      then have "mem_malloc size_in h = Some ((inc_used (snd t) (h\<lparr>hp_ram := fst t\<rparr>))\<lparr>hp_lfree := lf\<rparr>, Some (past 0 as + 8))"
        using False f Some bs(2) by (auto simp: mem_malloc_def want_def [symmetric] t_def mem_sizes Let_def split: if_splits)
      then show ?thesis using lf(1) bs w(1) tk(2) False by (auto simp: want_def [symmetric])
    qed
  qed
qed

section \<open>Freeing\<close>

lemma final_header: "blocks_at r pr p as \<Longrightarrow> as \<noteq> [] \<Longrightarrow> mem_next r (final pr p as) = past p as \<and> mem_used r (final pr p as) = of_bool (snd (last as))"
proof (induction as arbitrary: pr p)
  case (Cons b bs)
  then show ?case by (cases bs) auto
qed simp

text \<open>Two free neighbours become one.\<close>

lemma absorb_val:
  assumes h: "laid h (as @ [(n, False), (m, False)] @ cs)"
  defines "p \<equiv> past 0 as"
  shows "laid (absorb p (p + n) h) (as @ [(n + m, False)] @ cs)" "edits p (p + n + m) (hp_ram h) (hp_ram (absorb p (p + n) h))"
proof -
  let ?r = "hp_ram h" and ?e = "p + n + m"
  let ?r' = "if ?e \<noteq> 49152 then set_prev ?e p (set_next p ?e ?r) else set_next p ?e ?r"
  have o: "mem_next ?r p = p + n" "mem_prev ?r p = final 0 0 as" "mem_used ?r p = 0" "mem_next ?r (p + n) = ?e" "20 \<le> n" "20 \<le> m" "4 dvd n" "4 dvd m"
    "past ?e cs = 49152" "blocks_at ?r 0 0 as" "hp_lfree h = first_free 0 (as @ (n, False) # (m, False) # cs)" using h by (simp_all add: laid_def p_def)
  have e: "?e \<le> 49152" using o(9) past_ge [of ?e cs] by simp
  have "hp_lfree h \<le> p" using o(11) first_free_before [OF o(10)] by (auto simp: first_free_append p_def)
  then have j: "absorb p (p + n) h = h\<lparr>hp_ram := ?r'\<rparr>"
    using o e by (simp add: absorb_def Let_def header_defs mem_sizes)
  show ed: "edits p ?e ?r (hp_ram (absorb p (p + n) h))" unfolding j using o e by (auto simp: edits_def header_defs)
  show "laid (absorb p (p + n) h) (as @ [(n + m, False)] @ cs)"
  proof (rule laid_replace [where e = "p + n + m", OF h meta_eq_to_obj_eq [OF p_def]])
    show "blocks_at (hp_ram (absorb p (p + n) h)) (final 0 0 as) p [(n + m, False)]"
      using o e unfolding j by (simp add: header_defs)
    show "mem_prev (hp_ram (absorb p (p + n) h)) ?e = final (final 0 0 as) p [(n + m, False)]" if "?e \<noteq> 49152"
      using o e that unfolding j by (simp add: header_defs)
    show "hp_lfree (absorb p (p + n) h) = first_free 0 (as @ [(n + m, False)] @ cs)" unfolding j using o(11) by (simp add: first_free_append)
    show "hp_used (absorb p (p + n) h) = of_nat (used_bytes (as @ [(n + m, False)] @ cs))" unfolding j using h by (simp add: laid_def)
  qed (use ed in simp_all)
qed

definition joined :: "block list \<Rightarrow> nat \<Rightarrow> block list \<Rightarrow> block list" where
  "joined as n cs =
     (let cs' = (if cs \<noteq> [] \<and> \<not> snd (hd cs) then (n + fst (hd cs), False) # tl cs else (n, False) # cs)
      in if as \<noteq> [] \<and> \<not> snd (last as) then butlast as @ (fst (last as) + fst (hd cs'), False) # tl cs' else as @ cs')"

lemma no_holes_joined: "no_holes (as @ (n, True) # cs) \<Longrightarrow> no_holes (joined as n cs)"
  unfolding no_holes_def joined_def
  by (cases as rule: rev_cases; cases cs) (auto simp: successively_append_iff successively_Cons Let_def)

lemma plug_forward:
  assumes h: "laid h (as @ (n, False) # cs)"
  defines "p \<equiv> past 0 as"
  shows "\<exists>h1 cs1 m. laid h1 (as @ (m, False) # cs1) \<and> edits p (p + m) (hp_ram h) (hp_ram h1) \<and>
    (if cs \<noteq> [] \<and> \<not> snd (hd cs) then (n + fst (hd cs), False) # tl cs else (n, False) # cs) = (m, False) # cs1 \<and>
    (if p \<noteq> mem_next (hp_ram h) p \<and> mem_used (hp_ram h) (mem_next (hp_ram h) p) = 0 \<and> mem_next (hp_ram h) p \<noteq> MEM_SIZE_ALIGNED then
       absorb p (mem_next (hp_ram h) p) h else h) = h1"
proof -
  have o: "mem_next (hp_ram h) p = p + n" "20 \<le> n" "past (p + n) cs = 49152" "mem_used (hp_ram h) 49152 = 1" "blocks_at (hp_ram h) p (p + n) cs"
    using h by (auto simp: laid_def p_def)
  show ?thesis
  proof (cases "cs \<noteq> [] \<and> \<not> snd (hd cs)")
    case True
    then obtain m cs' where cs: "cs = (m, False) # cs'" by (cases cs) (auto simp: prod_eq_iff)
    have "p + n \<noteq> 49152" "mem_used (hp_ram h) (p + n) = 0" using o cs past_ge [of "p + n + m" cs'] by auto
    then show ?thesis using absorb_val [of h as n m cs'] h o cs by (simp add: p_def mem_sizes add.assoc)
  next
    case False
    then have "p + n = 49152 \<or> mem_used (hp_ram h) (p + n) \<noteq> 0" using o by (cases cs) auto
    then show ?thesis using h o False by (auto simp: mem_sizes edits_def)
  qed
qed

lemma plug_holes_val:
  assumes h: "laid h (as @ (n, False) # cs)"
  defines "p \<equiv> past 0 as"
  shows "laid (plug_holes p h) (joined as n cs)" "owned 0 (as @ (n, False) # cs) a \<Longrightarrow> hp_ram (plug_holes p h) a = hp_ram h a"
proof -
  obtain h1 cs1 m where f: "laid h1 (as @ (m, False) # cs1)" "edits p (p + m) (hp_ram h) (hp_ram h1)"
    "(if cs \<noteq> [] \<and> \<not> snd (hd cs) then (n + fst (hd cs), False) # tl cs else (n, False) # cs) = (m, False) # cs1"
    "(if p \<noteq> mem_next (hp_ram h) p \<and> mem_used (hp_ram h) (mem_next (hp_ram h) p) = 0 \<and> mem_next (hp_ram h) p \<noteq> MEM_SIZE_ALIGNED then
       absorb p (mem_next (hp_ram h) p) h else h) = h1"
    using plug_forward [OF h] unfolding p_def by blast
  have ow: "owned 0 as a \<or> owned (p + m) cs1 a" if "owned 0 (as @ (n, False) # cs) a" for a
    using that f(3) by (cases cs) (auto simp: p_def add.assoc split: if_splits)
  have o: "mem_prev (hp_ram h1) p = final 0 0 as" "blocks_at (hp_ram h1) 0 0 as" using f(1) by (simp_all add: laid_def p_def)
  have ph: "plug_holes p h = (if final 0 0 as \<noteq> p \<and> mem_used (hp_ram h1) (final 0 0 as) = 0 then absorb (final 0 0 as) p h1 else h1)"
    unfolding plug_holes_def Let_def f(4) o(1) by (rule refl)
  have "laid (plug_holes p h) (joined as n cs) \<and> (\<forall>a. owned 0 (as @ (n, False) # cs) a \<longrightarrow> hp_ram (plug_holes p h) a = hp_ram h a)"
  proof (cases "as \<noteq> [] \<and> \<not> snd (last as)")
    case True
    then obtain as' k where as: "as = as' @ [(k, False)]" by (cases as rule: rev_cases) (auto simp: prod_eq_iff)
    have q: "final 0 0 as = past 0 as'" "p = past 0 as' + k" "20 \<le> k" using o(2) by (simp_all add: as p_def)
    have u: "mem_used (hp_ram h1) (final 0 0 as) = 0" using final_header [OF o(2)] True by simp
    then have ph': "plug_holes p h = absorb (past 0 as') p h1" using ph q by simp
    note j = absorb_val [of h1 as' k m cs1, folded q(2)]
    have l1: "laid h1 (as' @ [(k, False), (m, False)] @ cs1)" using f(1) by (simp add: as)
    have "joined as n cs = as' @ [(k + m, False)] @ cs1" using True f(3) by (simp add: joined_def as Let_def)
    moreover have "hp_ram (plug_holes p h) a = hp_ram h a" if "owned 0 (as @ (n, False) # cs) a" for a
    proof -
      have "hp_ram h1 a = hp_ram h a" by (rule edits_owned [OF f(2), where p = 0 and as = as]) (use ow [OF that] in \<open>auto simp: p_def\<close>)
      moreover have "hp_ram (absorb (past 0 as') p h1) a = hp_ram h1 a"
        by (rule edits_owned [OF j(2) [OF l1], where p = 0 and as = as']) (use ow [OF that] q(2) in \<open>auto simp: as\<close>)
      ultimately show ?thesis by (simp add: ph')
    qed
    ultimately show ?thesis using j(1) [OF l1] ph' by simp
  next
    case False
    have "final 0 0 as = p \<or> mem_used (hp_ram h1) (final 0 0 as) \<noteq> 0"
      using False final_header [OF o(2)] by (cases as) (auto simp: p_def)
    then have ph': "plug_holes p h = h1" using ph by auto
    have "joined as n cs = as @ (m, False) # cs1" using False f(3) by (auto simp: joined_def Let_def)
    moreover have "hp_ram h1 a = hp_ram h a" if "owned 0 (as @ (n, False) # cs) a" for a
      by (rule edits_owned [OF f(2), where p = 0 and as = as]) (use ow [OF that] in \<open>auto simp: p_def\<close>)
    ultimately show ?thesis using f(1) ph' by simp
  qed
  then show "laid (plug_holes p h) (joined as n cs)" "owned 0 (as @ (n, False) # cs) a \<Longrightarrow> hp_ram (plug_holes p h) a = hp_ram h a"
    by blast+
qed

lemma free_result:
  assumes h: "holds h (as @ (n, True) # cs)"
  defines "h' \<equiv> mem_free (Some (int (past 0 as) + 8)) h"
  shows "holds h' (joined as n cs)" "owned 0 (as @ (n, False) # cs) a \<Longrightarrow> hp_ram h' a = hp_ram h a"
proof -
  let ?p = "past 0 as" and ?r = "hp_ram h"
  let ?h = "(if ?p < hp_lfree h then h\<lparr>hp_ram := set_used ?p 0 ?r, hp_lfree := ?p\<rparr> else h\<lparr>hp_ram := set_used ?p 0 ?r\<rparr>)\<lparr>hp_used := hp_used h - of_nat n\<rparr>"
  have l: "laid h (as @ [(n, True)] @ cs)" "no_holes (as @ (n, True) # cs)" using h by (simp_all add: holds_def)
  have o: "mem_next ?r ?p = ?p + n" "mem_prev ?r ?p = final 0 0 as" "mem_used ?r ?p = 1" "20 \<le> n" "4 dvd n" "past (?p + n) cs = 49152"
    "blocks_at ?r 0 0 as" "blocks_at ?r ?p (?p + n) cs" "hp_lfree h = first_free 0 (as @ (n, True) # cs)" "hp_used h = of_nat (used_bytes (as @ (n, True) # cs))"
    using l(1) by (simp_all add: laid_def)
  have e: "?p + n \<le> 49152" using o(6) past_ge [of "?p + n" cs] by simp
  have pd: "(int ?p + 8) mod 4 = 0" using past_dvd [OF o(7)] by presburger
  have "final 0 0 as \<le> ?p" using final_before [OF o(7)] by (cases as) auto
  moreover have "final 0 0 as = ?p \<or> mem_next ?r (final 0 0 as) = ?p" using final_header [OF o(7)] by (cases as) auto
  moreover have "?p + n = 49152 \<or> mem_prev ?r (?p + n) = ?p" using o(6,8) by (cases cs) auto
  ultimately have lv: "mem_link_valid ?r ?p" using o e by (simp add: mem_link_valid_def mem_sizes)
  have sz: "(of_nat (?p + n) :: u16) - of_nat ?p = of_nat n" by simp
  have nx: "mem_next (set_used ?p 0 ?r) ?p = ?p + n" using o(1) by (simp add: header_defs)
  have "h' = plug_holes ?p ?h"
    using pd e o lv nx by (simp add: h'_def mem_free_def dec_used_def mem_sizes Let_def)
  moreover have "laid ?h (as @ (n, False) # cs)"
  proof -
    have "laid ?h (as @ [(n, False)] @ cs)"
    proof (rule laid_replace [OF l(1) refl, where e = "?p + n"])
      show "blocks_at (hp_ram ?h) (final 0 0 as) ?p [(n, False)]" using o by (simp add: header_defs)
      show "edits ?p (?p + n) ?r (hp_ram ?h)" using o(4) by (auto simp: edits_def header_defs)
      show "mem_prev (hp_ram ?h) (?p + n) = final (final 0 0 as) ?p [(n, False)]" if "?p + n \<noteq> 49152"
        using that o(4,6,8) by (cases cs) (auto simp: header_defs)
      show "hp_lfree ?h = first_free 0 (as @ [(n, False)] @ cs)"
        using o(9) first_free_before [OF o(7)] first_free_ge [of "?p + n" cs] o(4) by (cases "list_all snd as") (simp_all add: first_free_append)
      show "hp_used ?h = of_nat (used_bytes (as @ [(n, False)] @ cs))" using o(10) by simp
    qed simp_all
    then show ?thesis by simp
  qed
  note ph = plug_holes_val [OF this]
  ultimately show "holds h' (joined as n cs)" using ph(1) no_holes_joined [OF l(2)] by (simp add: holds_def)
  show "hp_ram h' a = hp_ram h a" if "owned 0 (as @ (n, False) # cs) a"
  proof -
    have "a \<noteq> ?p + 4" using that owned_range [of 0 as a] owned_range [of "?p + n" cs a] o(4) by auto
    then show ?thesis using \<open>h' = plug_holes ?p ?h\<close> ph(2) [OF that] by (simp add: set_used_def)
  qed
qed

section \<open>Shrinking\<close>

text \<open>The block and what follows it after it was cut down to \<open>w\<close> bytes of data.\<close>

definition trimmed :: "nat \<Rightarrow> nat \<Rightarrow> block list \<Rightarrow> block list" where
  "trimmed w n cs =
     (if w + 8 < n \<and> cs \<noteq> [] \<and> \<not> snd (hd cs) then (w + 8, True) # (n - (w + 8) + fst (hd cs), False) # tl cs
      else if w + 28 \<le> n then (w + 8, True) # (n - (w + 8), False) # cs
      else (n, True) # cs)"

lemma no_holes_trimmed: "no_holes (as @ (n, True) # cs) \<Longrightarrow> no_holes (as @ trimmed w n cs)"
  by (cases cs) (auto simp: no_holes_def trimmed_def successively_append_iff successively_Cons)

text \<open>The links around a new free block at \<open>q\<close> behind the one at \<open>p\<close>, up to \<open>e\<close>.\<close>

lemma cut_links:
  assumes "mem_prev r p = pr" "mem_used r p = 1" "p + 20 \<le> q" "q + 20 \<le> e" "e \<le> 49152" "4 dvd q - p" "4 dvd e - q" "p < 65536"
  defines "r' \<equiv> insert_free p q e r"
  shows "blocks_at r' pr p [(q - p, True), (e - q, False)]" "edits p e r r'" "e \<noteq> 49152 \<Longrightarrow> mem_prev r' e = q"
    "p + 8 \<le> a \<Longrightarrow> a < q \<Longrightarrow> r' a = r a"
proof -
  define r1 where "r1 = set_next p q (set_prev q p (set_next q e (set_used q 0 r)))"
  have n: "mem_next r1 q = e" using assms(3-5) by (simp add: r1_def header_defs)
  have r': "r' = (if e \<noteq> 49152 then set_prev e q r1 else r1)"
    unfolding r'_def insert_free_def Let_def r1_def [symmetric] n mem_sizes by (rule refl)
  show "blocks_at r' pr p [(q - p, True), (e - q, False)]" unfolding r' using assms(1-8) by (simp add: r1_def) (simp add: header_defs, arith)
  show "edits p e r r'" unfolding r' r1_def using assms(3-5) by (auto simp: edits_def header_defs)
  show "mem_prev r' e = q" if "e \<noteq> 49152" unfolding r' r1_def using assms(3-5) that by (simp add: header_defs)
  show "r' a = r a" if "p + 8 \<le> a" "a < q" unfolding r' r1_def using assms(3-5) that by (auto simp: header_defs)
qed

lemma insert_free_laid:
  assumes l: "laid h (as @ mid @ cs)" and p: "p = past 0 as" and e: "e = past p mid"
    and o: "mem_prev (hp_ram h) p = final 0 0 as" "mem_used (hp_ram h) p = 1" "p + 20 \<le> q" "q + 20 \<le> e" "4 dvd q - p" "4 dvd e - q"
    and h': "hp_ram h' = insert_free p q e (hp_ram h)" "hp_lfree h' = first_free 0 (as @ [(q - p, True), (e - q, False)] @ cs)"
      "hp_used h' = of_nat (used_bytes (as @ [(q - p, True), (e - q, False)] @ cs))"
  shows "laid h' (as @ [(q - p, True), (e - q, False)] @ cs)"
    "owned 0 (as @ [(q - p, True), (e - q, False)] @ cs) a \<Longrightarrow> hp_ram h' a = hp_ram h a"
proof -
  have b: "e \<le> 49152" "p < 65536" using l past_ge [of e cs] o(3,4) by (simp_all add: laid_def p e)
  note c = cut_links [OF o(1-4) b(1) o(5,6) b(2), folded h'(1)]
  show "laid h' (as @ [(q - p, True), (e - q, False)] @ cs)"
    by (rule laid_replace [OF l p e]) (use c o h'(2,3) in simp_all)
  show "hp_ram h' a = hp_ram h a" if "owned 0 (as @ [(q - p, True), (e - q, False)] @ cs) a"
  proof -
    have "p + (q - p) = q" "q + (e - q) = e" using o by simp_all
    then have "p + 8 \<le> a \<and> a < q \<or> owned 0 as a \<or> owned e cs a" using that unfolding p [symmetric] by (auto simp: p [symmetric])
    then consider "p + 8 \<le> a" "a < q" | "owned 0 as a \<or> owned e cs a" by blast
    then show ?thesis
    proof cases
      case 2
      show ?thesis by (rule edits_owned [OF c(2), where p = 0 and as = as]) (use 2 p in auto)
    qed (rule c(4))
  qed
qed

lemma trim_result:
  assumes h: "holds h (as @ (n, True) # cs)" and w: "w = block_size new_size" "new_size \<le> w" "w + 8 \<le> n" "12 \<le> w" "4 dvd w"
  shows "\<exists>h'. mem_trim (int (past 0 as) + 8) new_size h = Some (h', Some (int (past 0 as) + 8)) \<and> holds h' (as @ trimmed w n cs) \<and>
    (\<forall>a. owned 0 (as @ trimmed w n cs) a \<longrightarrow> hp_ram h' a = hp_ram h a)"
proof -
  let ?p = "past 0 as" and ?r = "hp_ram h" and ?q = "past 0 as + 8 + w"
  have l: "laid h (as @ [(n, True)] @ cs)" "no_holes (as @ (n, True) # cs)" using h by (simp_all add: holds_def)
  have o: "mem_next ?r ?p = ?p + n" "mem_prev ?r ?p = final 0 0 as" "mem_used ?r ?p = 1" "20 \<le> n" "4 dvd n" "past (?p + n) cs = 49152"
    "blocks_at ?r 0 0 as" "blocks_at ?r ?p (?p + n) cs" "hp_lfree h = first_free 0 (as @ (n, True) # cs)" "hp_used h = of_nat (used_bytes (as @ (n, True) # cs))"
    "mem_used ?r 49152 = 1"
    using l(1) by (simp_all add: laid_def)
  have e: "?p + n \<le> 49152" using o(6) past_ge [of "?p + n" cs] by simp
  have sz: "nat ((int (?p + n) - int ?p - 8) mod 65536) = n - 8" using o(4) e by (simp add: of_nat_diff)
  have w2: "\<not> 49152 < w" "\<not> w < new_size" "?q < 65536" "\<not> w > n - 8" using w e by simp_all
  define k :: u16 where "k = of_nat (n - 8) - of_nat w"
  have k: "of_nat (used_bytes (as @ (n, True) # cs)) - k = of_nat (used_bytes as + (w + 8) + used_bytes cs)"
    using o(4) w(3) by (simp add: k_def of_nat_diff)
  have tr: "mem_trim (int ?p + 8) new_size h =
      (if w = n - 8 then Some (h, Some (int ?p + 8))
       else if mem_used ?r (?p + n) = 0 then
         Some (h\<lparr>hp_ram := insert_free ?p ?q (mem_next ?r (?p + n)) ?r, hp_lfree := (if hp_lfree h = ?p + n then ?q else hp_lfree h),
           hp_used := hp_used h - k\<rparr>, Some (int ?p + 8))
       else if w + 20 \<le> n - 8 then
         Some (h\<lparr>hp_ram := insert_free ?p ?q (?p + n) ?r, hp_lfree := (if ?q < hp_lfree h then ?q else hp_lfree h),
           hp_used := hp_used h - k\<rparr>, Some (int ?p + 8))
       else Some (h, Some (int ?p + 8)))"
  proof -
    have f: "(?p + 8 + w) mod 65536 = ?q" "nat (int ?p + 8) - 8 = ?p" "mem_next (set_used ?q 0 ?r) ?p = ?p + n"
      using w2(3) o(1) by (simp_all add: header_defs)
    have b: "\<not> (int ?p + 8 < 0 \<or> 49152 \<le> int ?p + 8)" "\<not> int ?p + 8 < 8" using e o(4) by simp_all
    have n: "\<not> (49152 < w \<or> w < new_size)" using w2 by simp
    have s: "w + 8 + 12 = w + 20" "int (49152 :: nat) = 49152" "int (8 :: nat) = 8" by simp_all
    show ?thesis
      unfolding mem_trim_def Let_def w(1) [symmetric] mem_sizes s f o(1) sz if_not_P [OF n] if_not_P [OF b(1)] if_not_P [OF b(2)] if_not_P [OF w2(4)]
        k_def dec_used_def by (simp split: if_split)
  qed
  consider (same) "w + 8 = n" | (next_free) "w + 8 < n" "cs \<noteq> [] \<and> \<not> snd (hd cs)" | (split) "w + 28 \<le> n" "\<not> (cs \<noteq> [] \<and> \<not> snd (hd cs))"
    | (keep) "w + 8 < n" "\<not> w + 28 \<le> n" "\<not> (cs \<noteq> [] \<and> \<not> snd (hd cs))"
    using le_imp_less_or_eq [OF w(3)] by blast
  then show ?thesis
  proof cases
    case same
    have "mem_trim (int ?p + 8) new_size h = Some (h, Some (int ?p + 8))"
      unfolding tr using same w(3) by auto
    moreover have "trimmed w n cs = (n, True) # cs" using same by (simp add: trimmed_def)
    ultimately show ?thesis using h by simp
  next
    case keep
    then have "mem_used ?r (?p + n) \<noteq> 0" using o(6,8,11) by (cases cs) auto
    then have "mem_trim (int ?p + 8) new_size h = Some (h, Some (int ?p + 8))"
      unfolding tr using keep w(3) by auto
    moreover have "trimmed w n cs = (n, True) # cs" using keep by (simp add: trimmed_def)
    ultimately show ?thesis using h by simp
  next
    case split
    then have u: "mem_used ?r (?p + n) \<noteq> 0" using o(6,8,11) by (cases cs) auto
    let ?h = "h\<lparr>hp_ram := insert_free ?p ?q (?p + n) ?r, hp_lfree := first_free 0 (as @ trimmed w n cs), hp_used := hp_used h - k\<rparr>"
    have c: "trimmed w n cs = [(w + 8, True), (n - (w + 8), False)] @ cs" using split by (auto simp: trimmed_def)
    have lf: "(if ?q < hp_lfree h then ?q else hp_lfree h) = first_free 0 (as @ trimmed w n cs)"
      using o(9) first_free_before [OF o(7)] first_free_ge [of "?p + n" cs] o(4) split w(3) unfolding c
      by (cases "list_all snd as") (auto simp: first_free_append)
    have "w \<noteq> n - 8" "w + 20 \<le> n - 8" using split by simp_all
    then have t: "mem_trim (int ?p + 8) new_size h = Some (?h, Some (int ?p + 8))" unfolding tr lf using u by simp
    have qe: "?q - ?p = w + 8" "?p + n - ?q = n - (w + 8)" using w split by simp_all
    have d: "?p + 20 \<le> ?q" "?q + 20 \<le> ?p + n" "4 dvd ?q - ?p" "4 dvd ?p + n - ?q" unfolding qe using w(4,5) split o(5) by auto
    have f: "hp_ram ?h = insert_free ?p ?q (?p + n) ?r" "hp_lfree ?h = first_free 0 (as @ [(?q - ?p, True), (?p + n - ?q, False)] @ cs)"
      "hp_used ?h = of_nat (used_bytes (as @ [(?q - ?p, True), (?p + n - ?q, False)] @ cs))" unfolding qe c using k o(10) by simp_all
    have e1: "?p + n = past ?p [(n, True)]" by simp
    note i = insert_free_laid [OF l(1) refl e1 o(2,3) d f, unfolded qe, folded c]
    show ?thesis using t i no_holes_trimmed [OF l(2)] by (auto simp: holds_def)
  next
    case next_free
    then obtain m cs' where cs: "cs = (m, False) # cs'" by (cases cs) (auto simp: prod_eq_iff)
    have m: "mem_used ?r (?p + n) = 0" "mem_next ?r (?p + n) = ?p + n + m" "20 \<le> m" "4 dvd m" using o(8) by (simp_all add: cs)
    let ?h = "h\<lparr>hp_ram := insert_free ?p ?q (?p + n + m) ?r, hp_lfree := first_free 0 (as @ trimmed w n cs), hp_used := hp_used h - k\<rparr>"
    have c: "trimmed w n cs = [(w + 8, True), (n - (w + 8) + m, False)] @ cs'" using next_free by (auto simp: trimmed_def cs)
    have lf: "(if hp_lfree h = ?p + n then ?q else hp_lfree h) = first_free 0 (as @ trimmed w n cs)"
      using o(9) first_free_before [OF o(7)] o(4) unfolding c by (cases "list_all snd as") (auto simp: first_free_append cs)
    have t: "mem_trim (int ?p + 8) new_size h = Some (?h, Some (int ?p + 8))"
      unfolding tr lf m(2) using m(1) next_free(1) by simp
    have qe: "?q - ?p = w + 8" "?p + n + m - ?q = n - (w + 8) + m" using w next_free by simp_all
    have l': "laid h (as @ [(n, True), (m, False)] @ cs')" using l(1) by (simp add: cs)
    have dm: "4 dvd n - (w + 8) + m" using o(5) w(5) m(4) by (intro dvd_add dvd_diff_nat) auto
    have d: "?p + 20 \<le> ?q" "?q + 20 \<le> ?p + n + m" "4 dvd ?q - ?p" "4 dvd ?p + n + m - ?q" unfolding qe using w(4,5) next_free m(3) dm by auto
    have f: "hp_ram ?h = insert_free ?p ?q (?p + n + m) ?r" "hp_lfree ?h = first_free 0 (as @ [(?q - ?p, True), (?p + n + m - ?q, False)] @ cs')"
      "hp_used ?h = of_nat (used_bytes (as @ [(?q - ?p, True), (?p + n + m - ?q, False)] @ cs'))"
      unfolding qe c using k o(10) by (simp_all add: cs)
    have e1: "?p + n + m = past ?p [(n, True), (m, False)]" by simp
    note i = insert_free_laid [OF l' refl e1 o(2,3) d f, unfolded qe, folded c]
    show ?thesis using t i no_holes_trimmed [OF l(2)] by (auto simp: holds_def)
  qed
qed

section \<open>Areas\<close>

text \<open>Pointer and size of the data of every used block.\<close>

fun areas :: "nat \<Rightarrow> block list \<Rightarrow> (nat \<times> nat) set" where
  "areas p [] = {}"
| "areas p (b # bs) = (if snd b then {(p + 8, fst b - 8)} else {}) \<union> areas (p + fst b) bs"

lemma areas_append [simp]: "areas p (as @ bs) = areas p as \<union> areas (past p as) bs"
  by (induction p as rule: areas.induct) auto

lemma areas_range:
  "blocks_at r pr p bs \<Longrightarrow> 4 dvd p \<Longrightarrow> (a, s) \<in> areas p bs \<Longrightarrow> p + 8 \<le> a \<and> a + s \<le> past p bs \<and> 4 dvd a \<and> 4 dvd s \<and> 12 \<le> s"
proof (induction bs arbitrary: pr p)
  case (Cons b bs)
  then consider "a = p + 8" "s = fst b - 8" | "(a, s) \<in> areas (p + fst b) bs" by (auto split: if_splits)
  then show ?case
  proof cases
    case 1
    then show ?thesis using Cons.prems past_ge [of "p + fst b" bs] by (auto intro: dvd_diff_nat)
  next
    case 2
    then show ?thesis using Cons.IH [of p "p + fst b"] Cons.prems by auto
  qed
qed simp

lemma areas_apart:
  "blocks_at r pr p bs \<Longrightarrow> 4 dvd p \<Longrightarrow> (a, s) \<in> areas p bs \<Longrightarrow> (a', s') \<in> areas p bs \<Longrightarrow>
   a = a' \<and> s = s' \<or> a + s + 8 \<le> a' \<or> a' + s' + 8 \<le> a"
proof (induction bs arbitrary: pr p)
  case (Cons b bs)
  have c: "blocks_at r p (p + fst b) bs" "4 dvd p + fst b" "20 \<le> fst b" using Cons.prems by auto
  from areas_range [OF c(1,2)] Cons.IH [OF c(1,2)] Cons.prems(3,4) c(3) show ?case by (fastforce split: if_splits)
qed simp

lemma areas_owned: "(a, s) \<in> areas p bs \<Longrightarrow> a \<le> x \<Longrightarrow> x < a + s \<Longrightarrow> owned p bs x"
  by (induction p bs rule: areas.induct) (auto split: if_splits)

lemma areas_at: "(a, s) \<in> areas p bs \<Longrightarrow> \<exists>as n cs. bs = as @ (n, True) # cs \<and> a = past p as + 8 \<and> s = n - 8"
proof (induction bs arbitrary: p)
  case (Cons b bs)
  then consider "snd b" "a = p + 8" "s = fst b - 8" | "(a, s) \<in> areas (p + fst b) bs" by (auto split: if_splits)
  then show ?case
  proof cases
    case 1
    then show ?thesis by (intro exI [of _ "[]"] exI [of _ "fst b"] exI [of _ bs]) (auto simp: prod_eq_iff)
  next
    case 2
    from Cons.IH [OF this] obtain as n cs where "bs = as @ (n, True) # cs" "a = past (p + fst b) as + 8" "s = n - 8" by blast
    then show ?thesis by (intro exI [of _ "b # as"]) auto
  qed
qed simp

lemma areas_taken: "want + 8 \<le> m \<Longrightarrow> areas p (taken want m) = {(p + 8, if want + 28 \<le> m then want else m - 8)}"
  by (auto simp: taken_def)

lemma areas_joined: "areas 0 (joined as n cs) = areas 0 as \<union> areas (past 0 as + n) cs"
  by (cases as rule: rev_cases; cases cs) (auto simp: joined_def Let_def add.assoc)

lemma areas_trimmed:
  "20 \<le> n \<Longrightarrow> w + 8 \<le> n \<Longrightarrow> \<exists>s. w \<le> s \<and> s \<le> n - 8 \<and> areas p (trimmed w n cs) = insert (p + 8, s) (areas (p + n) cs)"
proof -
  assume w: "20 \<le> n" "w + 8 \<le> n"
  then have "p + (w + 8) + (n - (w + 8)) = p + n" by simp
  then show ?thesis using w
    by (cases cs) (auto simp: trimmed_def add.assoc intro: exI [of _ w] exI [of _ "n - 8"])
qed

section \<open>The heap as a store\<close>

text \<open>What the users of the heap have: for each pointer they hold the bytes they keep there.  They free and shrink only what they hold
  and write only inside it; a fresh area holds whatever the heap had there.\<close>

inductive heap_run :: "lheap \<Rightarrow> (nat \<rightharpoonup> bytes) \<Rightarrow> bool" where
  start: "hp_used h = 0 \<Longrightarrow> heap_run (mem_init h) Map.empty"
| malloc_none: "heap_run h live \<Longrightarrow> n < 65536 \<Longrightarrow> mem_malloc n h = Some (h', None) \<Longrightarrow> heap_run h' live"
| malloc_some: "heap_run h live \<Longrightarrow> n < 65536 \<Longrightarrow> mem_malloc n h = Some (h', Some a) \<Longrightarrow>
    heap_run h' (live(a \<mapsto> map (\<lambda>i. hp_ram h' (a + i)) [0..<n]))"
| calloc_none: "heap_run h live \<Longrightarrow> mem_calloc c n h = Some (h', None) \<Longrightarrow> heap_run h' live"
| calloc_some: "heap_run h live \<Longrightarrow> mem_calloc c n h = Some (h', Some a) \<Longrightarrow> heap_run h' (live(a \<mapsto> replicate (c * n) 0))"
| free: "heap_run h live \<Longrightarrow> live a = Some b \<Longrightarrow> heap_run (mem_free (Some (int a)) h) (live(a := None))"
| free_null: "heap_run h live \<Longrightarrow> heap_run (mem_free None h) live"
| trim: "heap_run h live \<Longrightarrow> live a = Some b \<Longrightarrow> n \<le> length b \<Longrightarrow> mem_trim (int a) n h = Some (h', res) \<Longrightarrow> heap_run h' (live(a \<mapsto> take n b))"
| write_byte: "heap_run h live \<Longrightarrow> live a = Some b \<Longrightarrow> i < length b \<Longrightarrow>
    heap_run (h\<lparr>hp_ram := (hp_ram h)(a + i := v)\<rparr>) (live(a \<mapsto> b[i := v]))"

definition stores :: "ram \<Rightarrow> nat \<Rightarrow> bytes \<Rightarrow> bool" where
  "stores r a b \<longleftrightarrow> (\<forall>i<length b. r (a + i) = b ! i)"

definition serves_store :: "lheap \<Rightarrow> (nat \<rightharpoonup> bytes) \<Rightarrow> block list \<Rightarrow> bool" where
  "serves_store h live bs \<longleftrightarrow> holds h bs \<and> fst ` areas 0 bs = dom live \<and>
     (\<forall>a s b. (a, s) \<in> areas 0 bs \<longrightarrow> live a = Some b \<longrightarrow> length b \<le> s \<and> stores (hp_ram h) a b)"

lemma store_step:
  assumes S: "serves_store h live bs" and h': "holds h' bs'" and d: "fst ` areas 0 bs' = dom live'"
    and old: "\<And>x t b. (x, t) \<in> areas 0 bs' \<Longrightarrow> live' x = Some b \<Longrightarrow> x \<noteq> a \<Longrightarrow> (x, t) \<in> areas 0 bs \<and> live x = Some b"
    and frame: "\<And>x t y. (x, t) \<in> areas 0 bs \<Longrightarrow> (x, t) \<in> areas 0 bs' \<Longrightarrow> x \<noteq> a \<Longrightarrow> x \<le> y \<Longrightarrow> y < x + t \<Longrightarrow> hp_ram h' y = hp_ram h y"
    and here: "\<And>t b. (a, t) \<in> areas 0 bs' \<Longrightarrow> live' a = Some b \<Longrightarrow> length b \<le> t \<and> stores (hp_ram h') a b"
  shows "serves_store h' live' bs'"
proof -
  have "length b \<le> t \<and> stores (hp_ram h') x b" if x: "(x, t) \<in> areas 0 bs'" "live' x = Some b" for x t b
  proof (cases "x = a")
    case False
    from old [OF x False] have o: "(x, t) \<in> areas 0 bs" "live x = Some b" by simp_all
    then have "length b \<le> t" "stores (hp_ram h) x b" using S by (auto simp: serves_store_def)
    then show ?thesis using frame [OF o(1) x(1) False] by (simp add: stores_def)
  qed (use here x in auto)
  then show ?thesis using h' d by (auto simp: serves_store_def)
qed

lemma store_chain: "serves_store h live bs \<Longrightarrow> blocks_at (hp_ram h) 0 0 bs"
  by (simp add: serves_store_def holds_def laid_def)

lemma store_area:
  assumes "serves_store h live bs" "live a = Some b"
  shows "\<exists>s. (a, s) \<in> areas 0 bs \<and> length b \<le> s \<and> stores (hp_ram h) a b"
proof -
  have "a \<in> fst ` areas 0 bs" using assms by (auto simp: serves_store_def)
  then obtain s where "(a, s) \<in> areas 0 bs" by force
  then show ?thesis using assms by (auto simp: serves_store_def)
qed

text \<open>The users' writes do not reach the headers.\<close>

lemma blocks_at_users: "blocks_at r pr p bs \<Longrightarrow> (\<And>x. \<not> owned p bs x \<Longrightarrow> r' x = r x) \<Longrightarrow> blocks_at r' pr p bs"
proof (induction bs arbitrary: pr p r')
  case (Cons b bs)
  have hd: "\<not> owned p (b # bs) (p + i)" if "i < 8" for i using that owned_range [of "p + fst b" bs "p + i"] by auto
  from Cons.prems(2) [OF hd [of 0]] Cons.prems(2) [OF hd [of 1]] Cons.prems(2) [OF hd [of 2]] Cons.prems(2) [OF hd [of 3]] Cons.prems(2) [OF hd [of 4]]
  have "mem_next r' p = mem_next r p" "mem_prev r' p = mem_prev r p" "mem_used r' p = mem_used r p"
    by (simp_all add: header_defs get16_def numeral_3_eq_3)
  moreover have "blocks_at r' p (p + fst b) bs"
  proof -
    define r'' where "r'' x = (if p + fst b \<le> x then r' x else r x)" for x
    have "blocks_at r'' p (p + fst b) bs"
      by (rule Cons.IH) (use Cons.prems in \<open>auto simp: r''_def\<close>)
    then show ?thesis by (rule blocks_at_cong) (simp add: r''_def)
  qed
  ultimately show ?case using Cons.prems(1) by simp
qed simp

lemma holds_users:
  assumes "holds h bs" "\<And>x. \<not> owned 0 bs x \<Longrightarrow> r' x = hp_ram h x"
  shows "holds (h\<lparr>hp_ram := r'\<rparr>) bs"
proof -
  have "blocks_at (hp_ram h) 0 0 bs" using assms(1) by (simp add: holds_def laid_def)
  then have "blocks_at r' 0 0 bs" by (rule blocks_at_users) (rule assms(2))
  moreover have "r' x = hp_ram h x" if "49152 \<le> x" for x
  proof (rule assms(2))
    show "\<not> owned 0 bs x" using assms(1) that owned_range [of 0 bs x] by (auto simp: holds_def laid_def)
  qed
  then have "mem_used r' 49152 = mem_used (hp_ram h) 49152" "mem_next r' 49152 = mem_next (hp_ram h) 49152"
    by (simp_all add: header_defs get16_def)
  ultimately show ?thesis using assms(1) by (simp add: holds_def laid_def)
qed

lemma store_write:
  assumes S: "serves_store h live bs" and b: "(a, s) \<in> areas 0 bs" "a \<in> dom live" "length b \<le> s"
    and r: "\<And>x. \<not> (a \<le> x \<and> x < a + s) \<Longrightarrow> r' x = hp_ram h x" "stores r' a b"
  shows "serves_store (h\<lparr>hp_ram := r'\<rparr>) (live(a \<mapsto> b)) bs"
proof (rule store_step [where a = a, OF S])
  show "holds (h\<lparr>hp_ram := r'\<rparr>) bs"
    by (rule holds_users) (use S r areas_owned [OF b(1)] in \<open>auto simp: serves_store_def\<close>)
  show "fst ` areas 0 bs = dom (live(a \<mapsto> b))" using S b(2) by (auto simp: serves_store_def)
  note ap = areas_apart [OF store_chain [OF S] _ b(1)]
  show "hp_ram (h\<lparr>hp_ram := r'\<rparr>) y = hp_ram h y" if "(x, t) \<in> areas 0 bs" "x \<noteq> a" "x \<le> y" "y < x + t" for x t y
    using ap [OF _ that(1)] that r(1) [of y] by auto
  show "length b' \<le> t \<and> stores (hp_ram (h\<lparr>hp_ram := r'\<rparr>)) a b'" if "(a, t) \<in> areas 0 bs" "(live(a \<mapsto> b)) a = Some b'" for t b'
    using ap [OF _ that(1)] that(2) b(3) r(2) by auto
qed auto

lemma store_malloc:
  assumes S: "serves_store h live bs" and n: "n < 65536" and m: "mem_malloc n h = Some (h', Some a)"
  shows "\<exists>bs'. serves_store h' (live(a \<mapsto> map (\<lambda>i. hp_ram h' (a + i)) [0..<n])) bs' \<and> live a = None \<and> (\<exists>s\<ge>n. (a, s) \<in> areas 0 bs')"
proof -
  have h: "holds h bs" using S by (simp add: serves_store_def)
  let ?w = "block_size n"
  obtain as k cs where r: "bs = as @ (k, False) # cs" "a = past 0 as + 8" "n \<le> ?w" "?w + 8 \<le> k"
    "holds h' (as @ taken ?w k @ cs)" "\<And>x. owned 0 bs x \<Longrightarrow> hp_ram h' x = hp_ram h x"
    using malloc_result [OF h n] m by auto
  let ?bs = "as @ taken ?w k @ cs"
  define s where "s = (if ?w + 28 \<le> k then ?w else k - 8)"
  have ar: "areas 0 ?bs = insert (a, s) (areas 0 bs)" using r(4) by (simp add: r(1,2) areas_taken s_def)
  have c: "blocks_at (hp_ram h') 0 0 ?bs" using r(5) by (simp add: holds_def laid_def)
  have new: "a \<notin> fst ` areas 0 bs"
  proof
    assume "a \<in> fst ` areas 0 bs"
    then obtain t where t: "(a, t) \<in> areas 0 as \<or> (a, t) \<in> areas (past 0 as + k) cs" by (force simp: r(1))
    have ch: "blocks_at (hp_ram h) 0 0 as" "blocks_at (hp_ram h) (past 0 as) (past 0 as + k) cs" "20 \<le> k" "4 dvd k" using store_chain [OF S] by (simp_all add: r(1))
    have "4 dvd past 0 as + k" using past_dvd [OF ch(1)] ch(4) by simp
    from t areas_range [OF ch(1), of a t] areas_range [OF ch(2) this, of a t] ch(3) show False by (auto simp: r(2))
  qed
  have "serves_store h' (live(a \<mapsto> map (\<lambda>i. hp_ram h' (a + i)) [0..<n])) ?bs"
  proof (rule store_step [where a = a, OF S r(5)])
    show "fst ` areas 0 ?bs = dom (live(a \<mapsto> map (\<lambda>i. hp_ram h' (a + i)) [0..<n]))" unfolding ar using S by (simp add: serves_store_def)
    show "length b \<le> t \<and> stores (hp_ram h') a b"
      if "(a, t) \<in> areas 0 ?bs" "(live(a \<mapsto> map (\<lambda>i. hp_ram h' (a + i)) [0..<n])) a = Some b" for t b
    proof -
      have "t = s" using that(1) new unfolding ar by force
      then show ?thesis using that(2) r(3,4) by (auto simp: s_def stores_def)
    qed
    show "(x, t) \<in> areas 0 bs \<and> live x = Some b" if "(x, t) \<in> areas 0 ?bs" "(live(a \<mapsto> map (\<lambda>i. hp_ram h' (a + i)) [0..<n])) x = Some b" "x \<noteq> a" for x t b
      using that unfolding ar by simp
  qed (rule r(6), rule areas_owned)
  moreover have "live a = None" using new S by (auto simp: serves_store_def)
  moreover have "n \<le> s" using r(3,4) by (auto simp: s_def)
  ultimately show ?thesis using ar by blast
qed

lemma store_malloc_none:
  assumes "serves_store h live bs" "n < 65536" "mem_malloc n h = Some (h', None)"
  shows "serves_store h' live bs"
  using malloc_result [of h bs n] assms by (auto simp: serves_store_def)

lemma store_calloc:
  assumes S: "serves_store h live bs" and m: "mem_calloc c n h = Some (h', Some a)"
  shows "\<exists>bs'. serves_store h' (live(a \<mapsto> replicate (c * n) 0)) bs'"
proof -
  obtain h1 where 1: "c * n < 65536" "mem_malloc (c * n) h = Some (h1, Some a)"
    "h' = h1\<lparr>hp_ram := (\<lambda>i. if a \<le> i \<and> i < a + c * n then 0 else hp_ram h1 i)\<rparr>"
    using m by (auto simp: mem_calloc_def Let_def bind_eq_Some_conv split: if_splits option.splits)
  from store_malloc [OF S 1(1,2)] obtain bs' s where b: "serves_store h1 (live(a \<mapsto> map (\<lambda>i. hp_ram h1 (a + i)) [0..<c * n])) bs'"
    "c * n \<le> s" "(a, s) \<in> areas 0 bs'" by blast
  have "serves_store h' ((live(a \<mapsto> map (\<lambda>i. hp_ram h1 (a + i)) [0..<c * n]))(a \<mapsto> replicate (c * n) 0)) bs'"
    unfolding 1(3) by (rule store_write [OF b(1,3)]) (use b(2) in \<open>auto simp: stores_def\<close>)
  then show ?thesis by auto
qed

lemma store_calloc_none:
  assumes "serves_store h live bs" "mem_calloc c n h = Some (h', None)"
  shows "serves_store h' live bs"
  using assms store_malloc_none [OF assms(1), of "c * n"]
  by (auto simp: mem_calloc_def Let_def bind_eq_Some_conv split: if_splits option.splits)

lemma store_free:
  assumes S: "serves_store h live bs" and a: "live a = Some b"
  shows "\<exists>bs'. serves_store (mem_free (Some (int a)) h) (live(a := None)) bs'"
proof -
  obtain s where s: "(a, s) \<in> areas 0 bs" using store_area [OF S a] by blast
  obtain as n cs where bs: "bs = as @ (n, True) # cs" "a = past 0 as + 8" using areas_at [OF s] by blast
  have h: "holds h (as @ (n, True) # cs)" using S bs(1) by (simp add: serves_store_def)
  note fr = free_result [OF h]
  have ap: "x = a \<or> x \<noteq> a" "(x, t) \<in> areas 0 bs \<Longrightarrow> x \<noteq> a \<Longrightarrow> (x, t) \<in> areas 0 as \<union> areas (past 0 as + n) cs" for x t
    by (auto simp: bs)
  have ne: "a \<notin> fst ` (areas 0 as \<union> areas (past 0 as + n) cs)"
  proof
    assume "a \<in> fst ` (areas 0 as \<union> areas (past 0 as + n) cs)"
    then obtain t where t: "(a, t) \<in> areas 0 as \<or> (a, t) \<in> areas (past 0 as + n) cs" by force
    have ch: "blocks_at (hp_ram h) 0 0 as" "blocks_at (hp_ram h) (past 0 as) (past 0 as + n) cs" "20 \<le> n" "4 dvd n" using store_chain [OF S] by (simp_all add: bs(1))
    have "4 dvd past 0 as + n" using past_dvd [OF ch(1)] ch(4) by simp
    from t areas_range [OF ch(1), of a t] areas_range [OF ch(2) this, of a t] ch(3) show False by (auto simp: bs(2))
  qed
  have "serves_store (mem_free (Some (int a)) h) (live(a := None)) (joined as n cs)"
  proof (rule store_step [where a = a, OF S])
    show "holds (mem_free (Some (int a)) h) (joined as n cs)" using fr(1) by (simp add: bs(2) add.commute)
    have "dom live = insert a (fst ` (areas 0 as \<union> areas (past 0 as + n) cs))" using S by (auto simp: serves_store_def bs)
    then show "fst ` areas 0 (joined as n cs) = dom (live(a := None))" using ne by (auto simp: areas_joined)
    show "hp_ram (mem_free (Some (int a)) h) y = hp_ram h y" if "(x, t) \<in> areas 0 (joined as n cs)" "x \<le> y" "y < x + t" for x t y
    proof -
      have "owned 0 (as @ (n, False) # cs) y" using that areas_owned [of x t] by (auto simp: areas_joined)
      from fr(2) [OF this] show ?thesis by (simp add: bs(2) add.commute)
    qed
  qed (auto simp: areas_joined bs)
  then show ?thesis by blast
qed

lemma block_size_fits:
  assumes "n \<le> s" "12 \<le> s" "4 dvd s" "s < 65536"
  shows "n \<le> block_size n" "block_size n \<le> s" "12 \<le> block_size n" "4 dvd block_size n"
proof -
  obtain k where k: "s = 4 * k" using assms(3) by blast
  have "(n + 3) div 4 \<le> k" "n \<le> (n + 3) div 4 * 4" using assms(1) k by presburger+
  then have "(n + 3) div 4 * 4 mod 65536 = (n + 3) div 4 * 4" using assms(4) k by simp
  with \<open>(n + 3) div 4 \<le> k\<close> \<open>n \<le> (n + 3) div 4 * 4\<close> assms(2) k
  show "n \<le> block_size n" "block_size n \<le> s" "12 \<le> block_size n" "4 dvd block_size n"
    by (simp_all add: block_size_def LWIP_MEM_ALIGN_SIZE_def mem_sizes Let_def)
qed

lemma store_trim:
  assumes S: "serves_store h live bs" and a: "live a = Some b" and n: "n \<le> length b"
  shows "\<exists>h' bs'. mem_trim (int a) n h = Some (h', Some (int a)) \<and> serves_store h' (live(a \<mapsto> take n b)) bs'"
proof -
  obtain s where s: "(a, s) \<in> areas 0 bs" "length b \<le> s" "stores (hp_ram h) a b" using store_area [OF S a] by blast
  obtain as k cs where bs: "bs = as @ (k, True) # cs" "a = past 0 as + 8" "s = k - 8" using areas_at [OF s(1)] by blast
  have h: "holds h (as @ (k, True) # cs)" using S bs(1) by (simp add: serves_store_def)
  have r: "4 dvd s" "12 \<le> s" "a + s \<le> 49152" "20 \<le> k"
    using areas_range [OF store_chain [OF S] _ s(1)] store_chain [OF S] h bs by (auto simp: holds_def laid_def)
  define w where "w = block_size n"
  have w: "n \<le> w" "w \<le> s" "12 \<le> w" "4 dvd w" using block_size_fits [of n s] n s(2) r by (simp_all add: w_def)
  have wk: "w + 8 \<le> k" using w(2) r(4) by (simp add: bs(3))
  obtain h' where t: "mem_trim (int a) n h = Some (h', Some (int a))" "holds h' (as @ trimmed w k cs)"
    "\<And>x. owned 0 (as @ trimmed w k cs) x \<Longrightarrow> hp_ram h' x = hp_ram h x"
    using trim_result [OF h w_def w(1) wk w(3,4)] by (auto simp: bs(2) add.commute)
  obtain s' where s': "w \<le> s'" "s' \<le> k - 8" "areas (past 0 as) (trimmed w k cs) = insert (past 0 as + 8, s') (areas (past 0 as + k) cs)"
    using areas_trimmed [OF r(4) wk] by blast
  have ar: "areas 0 (as @ trimmed w k cs) = insert (a, s') (areas 0 as \<union> areas (past 0 as + k) cs)" using s'(3) by (simp add: bs(2))
  have ar0: "areas 0 bs = insert (a, s) (areas 0 as \<union> areas (past 0 as + k) cs)" by (simp add: bs)
  have u: "t = s'" if "(a, t) \<in> areas 0 (as @ trimmed w k cs)" for t
  proof -
    have c: "blocks_at (hp_ram h') 0 0 (as @ trimmed w k cs)" using t(2) by (simp add: holds_def laid_def)
    have "(a, s') \<in> areas 0 (as @ trimmed w k cs)" unfolding ar by simp
    from areas_apart [OF c _ that this] areas_range [OF c _ that] show ?thesis by auto
  qed
  have "serves_store h' (live(a \<mapsto> take n b)) (as @ trimmed w k cs)"
  proof (rule store_step [where a = a, OF S t(2)])
    show "fst ` areas 0 (as @ trimmed w k cs) = dom (live(a \<mapsto> take n b))"
      unfolding ar using S a by (auto simp: serves_store_def ar0)
    show "(x, t) \<in> areas 0 bs \<and> live x = Some c"
      if "(x, t) \<in> areas 0 (as @ trimmed w k cs)" "(live(a \<mapsto> take n b)) x = Some c" "x \<noteq> a" for x t c
      using that unfolding ar ar0 by simp
    show "length c \<le> t \<and> stores (hp_ram h') a c" if c: "(a, t) \<in> areas 0 (as @ trimmed w k cs)" "(live(a \<mapsto> take n b)) a = Some c" for t c
    proof -
      have "hp_ram h' (a + i) = hp_ram h (a + i)" if "i < n" for i
      proof (rule t(3), rule areas_owned)
        show "(a, s') \<in> areas 0 (as @ trimmed w k cs)" unfolding ar by simp
      qed (use that w(1) s'(1) in simp_all)
      then show ?thesis using c(2) u [OF c(1)] n s(3) w(1) s'(1) by (auto simp: stores_def)
    qed
  qed (rule t(3), rule areas_owned)
  with t(1) show ?thesis by blast
qed

lemma run_store: "heap_run h live \<Longrightarrow> \<exists>bs. serves_store h live bs"
proof (induction rule: heap_run.induct)
  case (start h)
  then show ?case using holds_init by (intro exI [of _ "[(49152, False)]"]) (simp add: serves_store_def)
next
  case (malloc_none h live n h')
  then show ?case using store_malloc_none by blast
next
  case (malloc_some h live n h' a)
  then show ?case using store_malloc by blast
next
  case (calloc_none h live c n h')
  then show ?case using store_calloc_none by blast
next
  case (calloc_some h live c n h' a)
  then show ?case using store_calloc by blast
next
  case (free h live a b)
  then show ?case using store_free by blast
next
  case (free_null h live)
  then show ?case by (simp add: mem_free_def)
next
  case (trim h live a b n h' res)
  then obtain bs where "serves_store h live bs" by blast
  from store_trim [OF this trim.hyps(2,3)] obtain h1 bs' where
    "mem_trim (int a) n h = Some (h1, Some (int a))" "serves_store h1 (live(a \<mapsto> take n b)) bs'" by blast
  moreover have "h1 = h'" using calculation(1) trim.hyps(4) by simp
  ultimately show ?case by blast
next
  case (write_byte h live a b i v)
  then obtain bs where S: "serves_store h live bs" by blast
  obtain s where s: "(a, s) \<in> areas 0 bs" "length b \<le> s" "stores (hp_ram h) a b" using store_area [OF S write_byte.hyps(2)] by blast
  have "serves_store (h\<lparr>hp_ram := (hp_ram h)(a + i := v)\<rparr>) (live(a \<mapsto> b[i := v])) bs"
    by (rule store_write [OF S s(1)]) (use write_byte.hyps s in \<open>auto simp: stores_def nth_list_update\<close>)
  then show ?case by blast
qed

lemma empty_store:
  assumes "serves_store h Map.empty bs" shows "bs = [(49152, False)]"
proof -
  have h: "holds h bs" "areas 0 bs = {}" using assms by (auto simp: serves_store_def)
  have all: "\<not> snd b" if "b \<in> set bs" for b
  proof
    assume "snd b"
    moreover from that obtain as cs where "bs = as @ b # cs" by (meson split_list)
    ultimately show False using h(2) by auto
  qed
  obtain b cs where bs: "bs = b # cs" using h(1) by (cases bs) (auto simp: holds_def laid_def)
  have "cs = []"
  proof (cases cs)
    case (Cons c ds)
    then show ?thesis using h(1) all [of b] all [of c] by (simp add: holds_def no_holes_def bs)
  qed
  then show ?thesis using h(1) all [of b] by (simp add: bs holds_def laid_def prod_eq_iff)
qed

text \<open>C37.  The stack's heap gives every user an array of its own.  In any run from \<open>mem_init\<close>, in which users write only inside what
  they hold and free or shrink only what they hold, every area that was given out and not freed is aligned, lies inside the heap
  and holds what its user last wrote there; two areas never overlap; allocation always returns, with \<open>NULL\<close> or with an
  area nobody holds; shrinking always succeeds and stores the front of the area; and when everything has been freed
  the heap is whole again: a request for up to 49144 bytes succeeds.\<close>

theorem heap_is_store:
  assumes "heap_run h live"
  shows "(\<forall>a b. live a = Some b \<longrightarrow> 4 dvd a \<and> 8 \<le> a \<and> a + length b \<le> MEM_SIZE_ALIGNED \<and> (\<forall>i<length b. hp_ram h (a + i) = b ! i)) \<and>
    (\<forall>a a' b b'. live a = Some b \<longrightarrow> live a' = Some b' \<longrightarrow> a \<noteq> a' \<longrightarrow> a + length b \<le> a' \<or> a' + length b' \<le> a) \<and>
    (\<forall>n<65536. \<exists>h' res. mem_malloc n h = Some (h', res) \<and> (\<forall>a. res = Some a \<longrightarrow> live a = None)) \<and>
    (\<forall>a b n. live a = Some b \<longrightarrow> n \<le> length b \<longrightarrow> (\<exists>h'. mem_trim (int a) n h = Some (h', Some (int a)))) \<and>
    (live = Map.empty \<longrightarrow> (\<forall>n. 0 < n \<longrightarrow> n \<le> 49144 \<longrightarrow> (\<exists>h' a. mem_malloc n h = Some (h', Some a))))"
proof -
  obtain bs where S: "serves_store h live bs" using run_store [OF assms] by blast
  have h: "holds h bs" "past 0 bs = 49152" using S by (simp_all add: serves_store_def holds_def laid_def)
  note c = store_chain [OF S]
  have one: "4 dvd a \<and> 8 \<le> a \<and> a + length b \<le> MEM_SIZE_ALIGNED \<and> (\<forall>i<length b. hp_ram h (a + i) = b ! i)" if "live a = Some b" for a b
    using store_area [OF S that] areas_range [OF c, of a] h(2) by (fastforce simp: stores_def mem_sizes)
  have two: "a + length b \<le> a' \<or> a' + length b' \<le> a" if x: "live a = Some b" "live a' = Some b'" "a \<noteq> a'" for a a' b b'
  proof -
    obtain s s' where "(a, s) \<in> areas 0 bs" "length b \<le> s" "(a', s') \<in> areas 0 bs" "length b' \<le> s'"
      using store_area [OF S x(1)] store_area [OF S x(2)] by blast
    then show ?thesis using areas_apart [OF c, of a s a' s'] x(3) by auto
  qed
  have three: "\<exists>h' res. mem_malloc n h = Some (h', res) \<and> (\<forall>a. res = Some a \<longrightarrow> live a = None)" if n: "n < 65536" for n
    using malloc_result [OF h(1) n] store_malloc [OF S n] by blast
  have four: "\<exists>h'. mem_trim (int a) n h = Some (h', Some (int a))" if "live a = Some b" "n \<le> length b" for a b n
    using store_trim [OF S that] by blast
  have five: "\<exists>h' a. mem_malloc n h = Some (h', Some a)" if e: "live = Map.empty" and n: "0 < n" "n \<le> 49144" for n
  proof -
    have "bs = [(49152, False)]" using empty_store S e by blast
    moreover have "block_size n \<le> 49144" using block_size_fits(2) [of n 49144] n by simp
    ultimately show ?thesis using malloc_result [OF h(1), of n] n by (auto split: option.splits)
  qed
  from one two three four five show ?thesis by blast
qed

theorem heap_is_store_witness:
  "\<exists>h a. mem_malloc 100 (mem_init \<lparr>hp_ram = \<lambda>_. 0, hp_lfree = 0, hp_err = 0, hp_avail = 0, hp_used = 0, hp_max = 0, hp_illegal = 0\<rparr>) = Some (h, Some a) \<and>
     4 dvd a \<and> 8 \<le> a \<and> a + 100 \<le> MEM_SIZE_ALIGNED"
proof -
  let ?z = "\<lparr>hp_ram = \<lambda>_. 0, hp_lfree = 0, hp_err = 0, hp_avail = 0, hp_used = 0, hp_max = 0, hp_illegal = 0\<rparr> :: lheap"
  have r: "heap_run (mem_init ?z) Map.empty" by (rule heap_run.start) simp
  have "\<forall>n. 0 < n \<longrightarrow> n \<le> 49144 \<longrightarrow> (\<exists>h a. mem_malloc n (mem_init ?z) = Some (h, Some a))" using heap_is_store [OF r] by blast
  from this [rule_format, of 100] obtain h a where m: "mem_malloc 100 (mem_init ?z) = Some (h, Some a)" by auto
  let ?b = "map (\<lambda>i. hp_ram h (a + i)) [0..<100]"
  have "heap_run h (Map.empty(a \<mapsto> ?b))" by (rule heap_run.malloc_some [OF r _ m]) simp
  from conjunct1 [OF heap_is_store [OF this], rule_format, of a ?b] m show ?thesis by auto
qed

end
