(* ===== verification/Lwip_Frag.thy ===== *)
theory Lwip_Frag
  imports Lwip_Chksum "HOL-Library.Monad_Syntax"
begin

text \<open>
  IP fragments (\<open>lwip/core/ipv4/ip4_frag.c\<close>): cutting a packet that is too large for the interface, and putting the fragments that
  arrive together again.  A chain of pbufs that is received is the bytes it holds and its number of pbufs; a chain that
  is cut is the list of its parts, because the code walks over them.  The fragments that wait are kept, as in the code,
  in the order of their offsets, with start and end in the place of their IP header.  The statistics are left out.
\<close>

section \<open>Headers\<close>

definition IP_HLEN :: nat where "IP_HLEN = 20"
definition IP_MF :: u16 where "IP_MF = 0x2000"
definition IP_OFFMASK :: u16 where "IP_OFFMASK = 0x1FFF"

definition IPH_HL_BYTES :: "bytes \<Rightarrow> nat" where "IPH_HL_BYTES h = unat ((h ! 0 AND 0x0F) * 4)"
definition IPH_LEN :: "bytes \<Rightarrow> u16" where "IPH_LEN h = get_be16 (h ! 2) (h ! 3)"
definition IPH_OFFSET :: "bytes \<Rightarrow> u16" where "IPH_OFFSET h = get_be16 (h ! 6) (h ! 7)"
definition IPH_OFFSET_BYTES :: "bytes \<Rightarrow> u16" where "IPH_OFFSET_BYTES h = (IPH_OFFSET h AND IP_OFFMASK) * 8"
definition IPH_LEN_SET :: "u16 \<Rightarrow> bytes \<Rightarrow> bytes" where "IPH_LEN_SET v h = put_be16 2 v h"
definition IPH_OFFSET_SET :: "u16 \<Rightarrow> bytes \<Rightarrow> bytes" where "IPH_OFFSET_SET v h = put_be16 6 v h"

text \<open>The checksum is stored as it comes, in memory order.\<close>

definition IPH_CHKSUM_SET :: "u16 \<Rightarrow> bytes \<Rightarrow> bytes" where "IPH_CHKSUM_SET v h = patch 10 [ucast v, ucast (drop_bit 8 v)] h"

definition IP_ADDRESSES_AND_ID_MATCH :: "bytes \<Rightarrow> bytes \<Rightarrow> bool" where
  "IP_ADDRESSES_AND_ID_MATCH a b \<longleftrightarrow> slice 12 4 a = slice 12 4 b \<and> slice 16 4 a = slice 16 4 b \<and> slice 4 2 a = slice 4 2 b"

text \<open>Length, offset and a new checksum.\<close>

definition renew_header :: "u16 \<Rightarrow> u16 \<Rightarrow> bytes \<Rightarrow> bytes" where
  "renew_header off len h =
     (let h = IPH_CHKSUM_SET 0 (IPH_LEN_SET len (IPH_OFFSET_SET off h))
      in IPH_CHKSUM_SET (inet_chksum False h) h)"

section \<open>Fragments that wait\<close>

definition IP_REASS_MAXAGE :: u8 where "IP_REASS_MAXAGE = 15"
definition IP_REASS_MAX_PBUFS :: nat where "IP_REASS_MAX_PBUFS = 10"
definition MEMP_NUM_REASSDATA :: nat where "MEMP_NUM_REASSDATA = 5"

text \<open>A fragment: \<open>struct ip_reass_helper\<close>, the data behind the header, and the number of pbufs.\<close>

record frag =
  fg_start :: u16
  fg_end :: u16
  fg_data :: bytes
  fg_clen :: nat

record ip_reassdata =
  rd_frags :: "frag list"
  rd_iphdr :: bytes
  rd_datagram_len :: u16
  rd_lastfrag :: bool
  rd_timer :: u8

text \<open>\<open>reassdatagrams\<close>, \<open>ip_reass_pbufcount\<close> and the packets for which an ICMP time exceeded message was sent.\<close>

record reass =
  rs_list :: "ip_reassdata list"
  rs_pbufcount :: u16
  rs_exceeded :: "bytes list"

definition reass_static :: reass where
  "reass_static = \<lparr>rs_list = [], rs_pbufcount = 0, rs_exceeded = []\<rparr>"

text \<open>\<open>ip_reass_dequeue_datagram\<close> of the \<open>i\<close>th datagram.\<close>

definition dequeue_datagram :: "nat \<Rightarrow> reass \<Rightarrow> reass" where
  "dequeue_datagram i s = s\<lparr>rs_list := take i (rs_list s) @ drop (i + 1) (rs_list s)\<rparr>"

definition free_complete_datagram :: "nat \<Rightarrow> reass \<Rightarrow> reass \<times> u16" where
  "free_complete_datagram i s =
     (let ipr = rs_list s ! i;
          s = (case rd_frags ipr of
                 f # fs \<Rightarrow> if fg_start f = 0 then s\<lparr>rs_exceeded := rs_exceeded s @ [rd_iphdr ipr @ fg_data f]\<rparr> else s
               | [] \<Rightarrow> s);
          pbufs_freed = of_nat (sum_list (map fg_clen (rd_frags ipr)));
          s = dequeue_datagram i s
      in (s\<lparr>rs_pbufcount := rs_pbufcount s - pbufs_freed\<rparr>, pbufs_freed))"

text \<open>The list before \<open>r\<close> has been looked at; the results are the place of the oldest datagram that is not the one of \<open>fraghdr\<close> and
  how many there are.\<close>

fun find_oldest :: "bytes \<Rightarrow> nat \<Rightarrow> (nat \<times> u8) option \<Rightarrow> nat \<Rightarrow> ip_reassdata list \<Rightarrow> nat option \<times> nat" where
  "find_oldest fraghdr i oldest others [] = (map_option fst oldest, others)"
| "find_oldest fraghdr i oldest others (r # rs) =
     (if \<not> IP_ADDRESSES_AND_ID_MATCH (rd_iphdr r) fraghdr then
        find_oldest fraghdr (i + 1)
          (case oldest of
             None \<Rightarrow> Some (i, rd_timer r)
           | Some (j, t) \<Rightarrow> if rd_timer r \<le> t then Some (i, rd_timer r) else oldest)
          (others + 1) rs
      else find_oldest fraghdr (i + 1) oldest others rs)"

lemma find_oldest_place:
  "find_oldest h i x n rs = (Some j, m) \<Longrightarrow> (\<And>a t. x = Some (a, t) \<Longrightarrow> a < i) \<Longrightarrow> j < i + length rs"
  by (induction h i x n rs rule: find_oldest.induct) (fastforce split: if_splits option.splits)+

lemma dequeue_shorter: "i < length (rs_list s) \<Longrightarrow> length (rs_list (dequeue_datagram i s)) < length (rs_list s)"
  by (simp add: dequeue_datagram_def)

lemma free_complete_list: "rs_list (fst (free_complete_datagram i s)) = rs_list (dequeue_datagram i s)"
  by (auto simp: free_complete_datagram_def dequeue_datagram_def Let_def split: list.split)

function remove_oldest :: "bytes \<Rightarrow> int \<Rightarrow> int \<Rightarrow> reass \<Rightarrow> reass \<times> int" where
  "remove_oldest fraghdr pbufs_needed pbufs_freed s =
     (case find_oldest fraghdr 0 None 0 (rs_list s) of
        (None, _) \<Rightarrow> (s, pbufs_freed)
      | (Some i, others) \<Rightarrow>
          let (s', n) = free_complete_datagram i s;
              freed = pbufs_freed + int (unat n)
          in if freed < pbufs_needed \<and> others > 1 then remove_oldest fraghdr pbufs_needed freed s' else (s', freed))"
  by pat_completeness auto
termination
proof (relation "measure (\<lambda>(_, _, _, s). length (rs_list s))", goal_cases)
  case (2 fraghdr pbufs_needed pbufs_freed s a b i y s' n freed)
  then have "find_oldest fraghdr 0 None 0 (rs_list s) = (Some i, b)" "s' = fst (free_complete_datagram i s)" by (auto simp: prod_eq_iff)
  then show ?case using find_oldest_place [of fraghdr 0 None 0 "rs_list s" i b] dequeue_shorter [of i s] by (simp add: free_complete_list)
qed simp

declare remove_oldest.simps [simp del]

text \<open>The new datagram goes to the front of the list; \<open>False\<close> when there is no structure for it.\<close>

definition enqueue_new_datagram :: "bytes \<Rightarrow> nat \<Rightarrow> reass \<Rightarrow> reass \<times> bool" where
  "enqueue_new_datagram fraghdr clen s =
     (let (s, room) =
        (if length (rs_list s) < MEMP_NUM_REASSDATA then (s, True)
         else
           let (s, freed) = remove_oldest fraghdr (int clen) 0 s
           in (s, freed \<ge> int clen \<and> length (rs_list s) < MEMP_NUM_REASSDATA))
      in if \<not> room then (s, False)
         else (s\<lparr>rs_list := \<lparr>rd_frags = [], rd_iphdr = fraghdr, rd_datagram_len = 0, rd_lastfrag = False, rd_timer = IP_REASS_MAXAGE\<rparr>
                 # rs_list s\<rparr>, True))"

fun reass_timers :: "reass \<Rightarrow> nat \<Rightarrow> nat \<Rightarrow> reass" where
  "reass_timers s i 0 = s"
| "reass_timers s i (Suc k) =
     (let r = rs_list s ! i
      in if rd_timer r > 0 then reass_timers (s\<lparr>rs_list := (rs_list s)[i := r\<lparr>rd_timer := rd_timer r - 1\<rparr>]\<rparr>) (i + 1) k
         else reass_timers (fst (free_complete_datagram i s)) i k)"

definition ip_reass_tmr :: "reass \<Rightarrow> reass" where
  "ip_reass_tmr s = reass_timers s 0 (length (rs_list s))"

section \<open>A fragment takes its place\<close>

text \<open>The list behind \<open>prev\<close>; \<open>None\<close>: the fragment overlaps.  The results are the new list, whether there was no hole up to the new
  fragment, and the list from the new fragment on.\<close>

fun insert_frag :: "frag \<Rightarrow> frag option \<Rightarrow> frag list \<Rightarrow> bool \<Rightarrow> (frag list \<times> bool \<times> frag list) option" where
  "insert_frag new prev [] valid =
     Some ([new], valid \<and> (case prev of None \<Rightarrow> True | Some p \<Rightarrow> fg_end p = fg_start new), [new])"
| "insert_frag new prev (t # ts) valid =
     (if fg_start new < fg_start t then
        (case prev of
           Some p \<Rightarrow>
             if fg_start new < fg_end p \<or> fg_end new > fg_start t then None
             else Some (new # t # ts, valid \<and> fg_end p = fg_start new, new # t # ts)
         | None \<Rightarrow> if fg_end new > fg_start t then None else Some (new # t # ts, valid, new # t # ts))
      else if fg_start new = fg_start t then None
      else if fg_start new < fg_end t then None
      else
        map_option (\<lambda>(l, v, r). (t # l, v, r))
          (insert_frag new (Some t) ts (valid \<and> (case prev of None \<Rightarrow> True | Some p \<Rightarrow> fg_end p = fg_start t))))"

fun no_gap :: "frag list \<Rightarrow> bool" where
  "no_gap (a # b # fs) \<longleftrightarrow> fg_end a = fg_start b \<and> no_gap (b # fs)"
| "no_gap _ \<longleftrightarrow> True"

text \<open>\<open>p\<close> is the fragment with its header.  \<open>Rejected\<close>: dropped; otherwise the fragments of the datagram and whether it is complete.\<close>

definition chain_frag_and_validate :: "ip_reassdata \<Rightarrow> bytes \<Rightarrow> nat \<Rightarrow> bool \<Rightarrow> (frag list \<times> bool) outcome" where
  "chain_frag_and_validate ipr p clen is_last =
     (let len = IPH_LEN p; hlen = IPH_HL_BYTES p
      in if hlen > unat len then Rejected
         else
           let len = len - of_nat hlen;
               offset = IPH_OFFSET_BYTES p;
               new = \<lparr>fg_start = offset, fg_end = offset + len, fg_data = drop IP_HLEN p, fg_clen = clen\<rparr>
           in if fg_end new < offset then Rejected
              else
                (case insert_frag new None (rd_frags ipr) True of
                   None \<Rightarrow> Rejected
                 | Some (fs, valid, r) \<Rightarrow>
                     Done (fs, (is_last \<or> rd_lastfrag ipr) \<and> valid \<and> fg_start (hd fs) = 0 \<and> no_gap r)))"

section \<open>Reassembly\<close>

definition drop_new :: "nat \<Rightarrow> reass \<Rightarrow> reass" where
  "drop_new i s = (if rd_frags (rs_list s ! i) = [] then dequeue_datagram i s else s)"

text \<open>The datagram \<open>i\<close> gets the fragment \<open>p\<close>.\<close>

definition reass_into :: "nat \<Rightarrow> bytes \<Rightarrow> nat \<Rightarrow> reass \<Rightarrow> reass \<times> bytes option" where
  "reass_into i p clen s =
     (let ipr = rs_list s ! i;
          offset = IPH_OFFSET_BYTES p;
          len = IPH_LEN p - of_nat (IPH_HL_BYTES p);
          is_last = (IPH_OFFSET p AND IP_MF = 0);
          datagram_len = offset + len
      in if is_last \<and> (datagram_len < offset \<or> unat datagram_len > 0xFFFF - IP_HLEN) then (drop_new i s, None)
         else
           (case chain_frag_and_validate ipr p clen is_last of
              Done (fs, finished) \<Rightarrow>
                let ipr = ipr\<lparr>rd_frags := fs\<rparr>;
                    ipr = (if is_last then ipr\<lparr>rd_datagram_len := datagram_len, rd_lastfrag := True\<rparr> else ipr);
                    s = s\<lparr>rs_list := (rs_list s)[i := ipr], rs_pbufcount := rs_pbufcount s + of_nat clen\<rparr>
                in if finished then
                     (let s = dequeue_datagram i s
                      in (s\<lparr>rs_pbufcount := rs_pbufcount s - of_nat (sum_list (map fg_clen fs))\<rparr>,
                          Some (renew_header 0 (rd_datagram_len ipr + of_nat IP_HLEN) (rd_iphdr ipr) @ concat (map fg_data fs))))
                   else (s, None)
            | _ \<Rightarrow> (drop_new i s, None)))"

text \<open>The queue may be full: then other datagrams are given up.\<close>

definition make_room :: "bytes \<Rightarrow> nat \<Rightarrow> reass \<Rightarrow> reass \<times> bool" where
  "make_room fraghdr clen s =
     (if unat (rs_pbufcount s) + clen > IP_REASS_MAX_PBUFS then
        let (s, freed) = remove_oldest fraghdr (int clen) 0 s
        in (s, freed \<noteq> 0 \<and> \<not> unat (rs_pbufcount s) + clen > IP_REASS_MAX_PBUFS)
      else (s, True))"

definition ip4_reass :: "bytes \<Rightarrow> nat \<Rightarrow> reass \<Rightarrow> reass \<times> bytes option" where
  "ip4_reass p clen s =
     (let fraghdr = take IP_HLEN p
      in if IPH_HL_BYTES fraghdr \<noteq> IP_HLEN then (s, None)
         else if IPH_HL_BYTES fraghdr > unat (IPH_LEN fraghdr) then (s, None)
         else
           let (s, ok) = make_room fraghdr clen s
           in if \<not> ok then (s, None)
              else
                (case find (\<lambda>i. IP_ADDRESSES_AND_ID_MATCH (rd_iphdr (rs_list s ! i)) fraghdr) [0..<length (rs_list s)] of
                   None \<Rightarrow>
                     let (s, ok) = enqueue_new_datagram fraghdr clen s
                     in if \<not> ok then (s, None) else reass_into 0 p clen s
                 | Some i \<Rightarrow>
                     let ipr = rs_list s ! i;
                         ipr = (if IPH_OFFSET fraghdr AND IP_OFFMASK = 0 \<and> IPH_OFFSET (rd_iphdr ipr) AND IP_OFFMASK \<noteq> 0
                                then ipr\<lparr>rd_iphdr := fraghdr\<rparr> else ipr)
                     in reass_into i p clen (s\<lparr>rs_list := (rs_list s)[i := ipr]\<rparr>)))"

section \<open>Cutting\<close>

text \<open>The inner loop of \<open>ip4_frag\<close>: pieces of the parts of the packet, from \<open>poff\<close> in the first part on, become one fragment.  \<open>ok k\<close>:
  the \<open>k\<close>th allocation succeeds; \<open>Rejected\<close>: it does not; \<open>Fault\<close>: the chain ended.\<close>

fun mirror :: "(nat \<Rightarrow> bool) \<Rightarrow> nat \<Rightarrow> bytes list \<Rightarrow> nat \<Rightarrow> bytes \<Rightarrow> nat \<Rightarrow> (bytes \<times> bytes list \<times> nat \<times> nat) outcome" where
  "mirror ok left [] poff acc k = Fault"
| "mirror ok left (p # ps) poff acc k =
     (let plen = (length p + 65536 - poff) mod 65536;
          n = min left plen
      in if n = 0 then mirror ok left ps 0 acc k
         else if \<not> ok k then Rejected
         else if left - n = 0 then Done (acc @ take n (drop poff p), p # ps, poff + n, k + 1)
         else mirror ok (left - n) ps 0 (acc @ take n (drop poff p)) (k + 1))"

text \<open>The outer loop; the results are the fragments given to the interface and the result of the call.  It does not end when no data
  fits behind the header.\<close>

partial_function (option) frag_loop ::
  "(nat \<Rightarrow> bool) \<Rightarrow> nat \<Rightarrow> bytes \<Rightarrow> bool \<Rightarrow> nat \<Rightarrow> u16 \<Rightarrow> bytes list \<Rightarrow> nat \<Rightarrow> bytes list \<Rightarrow> nat \<Rightarrow> (bytes list \<times> err_t) outcome option" where
  "frag_loop ok mtu hdr mf_set left ofo ps poff sent k =
     (if left = 0 then Some (Done (sent, ERR_OK))
      else
        let nfb = (mtu - IP_HLEN) div 8;
            fragsize = min left (nfb * 8)
        in if \<not> ok k then Some (Done (sent, ERR_MEM))
           else
             (case (if fragsize = 0 then Done ([], ps, poff, k + 1) else mirror ok fragsize ps poff [] (k + 1)) of
                Fault \<Rightarrow> Some Fault
              | Rejected \<Rightarrow> Some (Done (sent, ERR_MEM))
              | Done (d, ps, poff, k) \<Rightarrow>
                  let is_last = (left \<le> mtu - IP_HLEN);
                      tmp = (IP_OFFMASK AND ofo) OR (if \<not> is_last \<or> mf_set then IP_MF else 0)
                  in frag_loop ok mtu hdr mf_set (left - fragsize) (ofo + of_nat nfb) ps poff
                       (sent @ [renew_header tmp (of_nat (fragsize + IP_HLEN)) hdr @ d]) k))"

text \<open>\<open>mtu\<close> is at least the size of a header.\<close>

definition ip4_frag :: "(nat \<Rightarrow> bool) \<Rightarrow> nat \<Rightarrow> bytes list \<Rightarrow> (bytes list \<times> err_t) outcome option" where
  "ip4_frag ok mtu ps =
     (let hdr = take IP_HLEN (hd ps);
          tmp = IPH_OFFSET hdr
      in if IPH_HL_BYTES hdr \<noteq> IP_HLEN then Some (Done ([], ERR_OTHER (-6)))
         else if length (hd ps) < IP_HLEN then Some (Done ([], ERR_OTHER (-6)))
         else frag_loop ok mtu hdr (tmp AND IP_MF \<noteq> 0) (length (concat ps) - IP_HLEN) (tmp AND IP_OFFMASK) ps IP_HLEN [] 0)"

end
