(* ===== verification/Lwip_Ip.thy ===== *)
theory Lwip_Ip
  imports Lwip_Frag Lwip_Addr
begin

text \<open>
  The IP layer of the stack on its way out (\<open>lwip/core/ipv4/ip4.c\<close>) and the control messages (\<open>lwip/core/ipv4/icmp.c\<close>), in the configuration
  of the build: IPv4 only, no forwarding, no options, no loopback, the header checksum summed up while the header is written.
  Addresses are words as they lie in memory, in network order.  A chain of pbufs is the alignment and the bytes of its parts.
  What the interface's \<open>output\<close> returns, and whether there is memory, are inputs; packets handed to an interface are recorded.
\<close>

section \<open>Interfaces\<close>

definition NETIF_FLAG_UP :: u8 where "NETIF_FLAG_UP = 0x01"
definition NETIF_FLAG_BROADCAST :: u8 where "NETIF_FLAG_BROADCAST = 0x02"
definition NETIF_FLAG_LINK_UP :: u8 where "NETIF_FLAG_LINK_UP = 0x04"

record lnetif =
  nf_num :: u8
  nf_ip :: u32
  nf_netmask :: u32
  nf_gw :: u32
  nf_mtu :: nat
  nf_flags :: u8

definition netif_is_up :: "lnetif \<Rightarrow> bool" where "netif_is_up n \<longleftrightarrow> nf_flags n AND NETIF_FLAG_UP \<noteq> 0"
definition netif_is_link_up :: "lnetif \<Rightarrow> bool" where "netif_is_link_up n \<longleftrightarrow> nf_flags n AND NETIF_FLAG_LINK_UP \<noteq> 0"
definition netif_get_index :: "lnetif \<Rightarrow> u8" where "netif_get_index n = nf_num n + 1"

definition ip4_addr_isbroadcast :: "u32 \<Rightarrow> lnetif \<Rightarrow> bool" where
  "ip4_addr_isbroadcast a n = ip4_addr_isbroadcast_u32 a (nf_flags n AND NETIF_FLAG_BROADCAST \<noteq> 0) (nf_ip n) (nf_netmask n)"

definition ip4_addr_ismulticast :: "u32 \<Rightarrow> bool" where "ip4_addr_ismulticast a \<longleftrightarrow> a AND 0xF0 = 0xE0"
definition ip4_addr_isloopback :: "u32 \<Rightarrow> bool" where "ip4_addr_isloopback a \<longleftrightarrow> a AND 0xFF = 0x7F"
definition ip4_addr_net_eq :: "u32 \<Rightarrow> u32 \<Rightarrow> u32 \<Rightarrow> bool" where "ip4_addr_net_eq a b m \<longleftrightarrow> a AND m = b AND m"

text \<open>The packets of a run: handed to an interface with the next hop, to TCP with their header, to the receiver of a UDP pcb with the
  address and the port of the sender.\<close>

datatype ip_event =
    Output u8 bytes u32
  | Tcp_input bytes bytes
  | Udp_recv nat bytes u32 u16

text \<open>\<open>netif_list\<close>, \<open>netif_default\<close>, \<open>ip_id\<close>, the fragments that wait, and the events so far.\<close>

record ipstack =
  ip_netifs :: "lnetif list"
  ip_default :: "lnetif option"
  ip_id :: u16
  ip_reass :: reass
  ip_events :: "ip_event list"

definition ip_emit :: "ip_event list \<Rightarrow> ipstack \<Rightarrow> ipstack" where
  "ip_emit es s = s\<lparr>ip_events := ip_events s @ es\<rparr>"

text \<open>The inputs of a call: the room in front of the data of the pbuf it gets, whether a new pbuf is found, the allocations of \<open>ip4_frag\<close>, and what
  the interface returns for a packet.\<close>

record ip_env =
  ie_headroom :: nat
  ie_pbuf :: bool
  ie_frag :: "nat \<Rightarrow> bool"
  ie_output :: "bytes \<Rightarrow> err_t"

definition netif_get_by_index :: "u8 \<Rightarrow> ipstack \<Rightarrow> lnetif option" where
  "netif_get_by_index idx s = (if idx \<noteq> 0 then find (\<lambda>n. idx = netif_get_index n) (ip_netifs s) else None)"

section \<open>Routing\<close>

definition ip4_route :: "u32 \<Rightarrow> ipstack \<Rightarrow> lnetif option" where
  "ip4_route dest s =
     (case find (\<lambda>n. netif_is_up n \<and> netif_is_link_up n \<and> nf_ip n \<noteq> 0 \<and>
                  (ip4_addr_net_eq dest (nf_ip n) (nf_netmask n) \<or> (nf_flags n AND NETIF_FLAG_BROADCAST = 0 \<and> dest = nf_gw n))) (ip_netifs s) of
        Some n \<Rightarrow> Some n
      | None \<Rightarrow>
          (case ip_default s of
             None \<Rightarrow> None
           | Some n \<Rightarrow>
               if \<not> netif_is_up n \<or> \<not> netif_is_link_up n \<or> nf_ip n = 0 \<or> ip4_addr_isloopback dest then None else Some n))"

section \<open>Output\<close>

abbreviation ERR_RTE :: err_t where "ERR_RTE \<equiv> ERR_OTHER (-4)"

definition IP_PROTO_ICMP :: u8 where "IP_PROTO_ICMP = 1"
definition IP_PROTO_TCP :: u8 where "IP_PROTO_TCP = 6"
definition IP_PROTO_UDP :: u8 where "IP_PROTO_UDP = 17"
definition IP4_MIN_MTU_LENGTH :: nat where "IP4_MIN_MTU_LENGTH = 68"

text \<open>The header checksum, summed up field by field on a little-endian machine, as it is stored.\<close>

definition inline_chksum :: "u8 \<Rightarrow> u8 \<Rightarrow> u8 \<Rightarrow> u16 \<Rightarrow> u16 \<Rightarrow> u32 \<Rightarrow> u32 \<Rightarrow> u16" where
  "inline_chksum tos ttl proto len ident src dest =
     (let chk_sum = ucast (lwip_htons (ucast proto OR push_bit 8 (ucast ttl)));
          chk_sum = chk_sum + (dest AND 0xFFFF);
          chk_sum = chk_sum + drop_bit 16 dest;
          chk_sum = chk_sum + ucast (lwip_htons (ucast tos OR push_bit 8 0x45));
          chk_sum = chk_sum + ucast (lwip_htons len);
          chk_sum = chk_sum + ucast (lwip_htons ident);
          chk_sum = chk_sum + (src AND 0xFFFF);
          chk_sum = chk_sum + drop_bit 16 src;
          chk_sum = drop_bit 16 chk_sum + (chk_sum AND 0xFFFF);
          chk_sum = drop_bit 16 chk_sum + chk_sum
      in ucast (NOT chk_sum :: u32))"

definition be16_bytes :: "u16 \<Rightarrow> bytes" where "be16_bytes v = [ucast (drop_bit 8 v), ucast v]"
definition le16_bytes :: "u16 \<Rightarrow> bytes" where "le16_bytes v = [ucast v, ucast (drop_bit 8 v)]"

definition ip4_make_header :: "u8 \<Rightarrow> u8 \<Rightarrow> u8 \<Rightarrow> u16 \<Rightarrow> u16 \<Rightarrow> u32 \<Rightarrow> u32 \<Rightarrow> bytes" where
  "ip4_make_header tos ttl proto len ident src dest =
     [0x45, tos] @ be16_bytes len @ be16_bytes ident @ be16_bytes 0 @ [ttl, proto]
       @ le16_bytes (inline_chksum tos ttl proto len ident src dest) @ U32TO8_LITTLE src @ U32TO8_LITTLE dest"

text \<open>\<open>pbuf_add_header\<close>: the header goes in front of the first part when there is room and the length does not overflow.\<close>

definition chain_len :: "payload_chain \<Rightarrow> nat" where
  "chain_len p = sum_list (map (length \<circ> snd) p)"

definition add_header :: "nat \<Rightarrow> bytes \<Rightarrow> payload_chain \<Rightarrow> payload_chain option" where
  "add_header room h p =
     (case p of
        [] \<Rightarrow> None
      | (at_odd, d) # rest \<Rightarrow> if length h \<le> room \<and> length h + chain_len p \<le> 0xFFFF then Some ((at_odd, h @ d) # rest) else None)"

text \<open>A packet is given to the interface, in fragments if it is too large.\<close>

definition netif_output :: "ip_env \<Rightarrow> payload_chain \<Rightarrow> u32 \<Rightarrow> lnetif \<Rightarrow> ipstack \<Rightarrow> (ipstack \<times> err_t) option" where
  "netif_output v p dest n s =
     (if nf_mtu n \<noteq> 0 \<and> chain_len p > nf_mtu n then
        (case ip4_frag (ie_frag v) (nf_mtu n) (map snd p) of
           Some (Done (fs, err)) \<Rightarrow> Some (ip_emit (map (\<lambda>f. Output (nf_num n) f dest) fs) s, err)
         | _ \<Rightarrow> None)
      else
        let d = concat (map snd p) in Some (ip_emit [Output (nf_num n) d dest] s, ie_output v d))"

text \<open>\<open>dest = None\<close> is \<open>LWIP_IP_HDRINCL\<close>, \<open>src = None\<close> a null pointer.  No result: the call faults or does not return.\<close>

definition ip4_output_if_src ::
  "ip_env \<Rightarrow> payload_chain \<Rightarrow> u32 option \<Rightarrow> u32 option \<Rightarrow> u8 \<Rightarrow> u8 \<Rightarrow> u8 \<Rightarrow> lnetif \<Rightarrow> ipstack \<Rightarrow> (ipstack \<times> err_t) option" where
  "ip4_output_if_src v p src dest ttl tos proto n s =
     (case dest of
        Some dest \<Rightarrow>
          let len = chain_len p + IP_HLEN;
              small = (proto = IP_PROTO_TCP \<and> len \<le> IP4_MIN_MTU_LENGTH);
              ident = (if small then 0 else ip_id s);
              h = ip4_make_header tos ttl proto (of_nat len) ident (case src of None \<Rightarrow> 0 | Some a \<Rightarrow> a) dest
          in (case add_header (ie_headroom v) h p of
                None \<Rightarrow> Some (s, ERR_BUF)
              | Some p \<Rightarrow> netif_output v p dest n (if small then s else s\<lparr>ip_id := ip_id s + 1\<rparr>))
      | None \<Rightarrow>
          (case p of
             [] \<Rightarrow> None
           | (_, d) # _ \<Rightarrow>
               if length d < IP_HLEN then Some (s, ERR_BUF)
               else netif_output v p (U8TO32_LITTLE (drop 16 d)) n s))"

definition ip4_output_if ::
  "ip_env \<Rightarrow> payload_chain \<Rightarrow> u32 option \<Rightarrow> u32 option \<Rightarrow> u8 \<Rightarrow> u8 \<Rightarrow> u8 \<Rightarrow> lnetif \<Rightarrow> ipstack \<Rightarrow> (ipstack \<times> err_t) option" where
  "ip4_output_if v p src dest ttl tos proto n s =
     ip4_output_if_src v p (if dest \<noteq> None \<and> (src = None \<or> src = Some 0) then Some (nf_ip n) else src) dest ttl tos proto n s"

definition ip4_output :: "ip_env \<Rightarrow> payload_chain \<Rightarrow> u32 option \<Rightarrow> u32 \<Rightarrow> u8 \<Rightarrow> u8 \<Rightarrow> u8 \<Rightarrow> ipstack \<Rightarrow> (ipstack \<times> err_t) option" where
  "ip4_output v p src dest ttl tos proto s =
     (case ip4_route dest s of
        None \<Rightarrow> Some (s, ERR_RTE)
      | Some n \<Rightarrow> ip4_output_if v p src (Some dest) ttl tos proto n s)"

section \<open>Control messages\<close>

text \<open>Room in front of a new pbuf of the layer \<open>PBUF_IP\<close>: for the headers of IP and of the link.\<close>

definition PBUF_LINK_HLEN :: nat where "PBUF_LINK_HLEN = 14"

abbreviation fresh_pbuf :: "ip_env \<Rightarrow> ip_env" where
  "fresh_pbuf v \<equiv> v\<lparr>ie_headroom := IP_HLEN + PBUF_LINK_HLEN\<rparr>"

definition ICMP_TTL :: u8 where "ICMP_TTL = 255"
definition ICMP_ER :: u8 where "ICMP_ER = 0"
definition ICMP_DUR :: u8 where "ICMP_DUR = 3"
definition ICMP_ECHO :: u8 where "ICMP_ECHO = 8"
definition ICMP_TE :: u8 where "ICMP_TE = 11"
definition ICMP_DEST_UNREACH_DATASIZE :: nat where "ICMP_DEST_UNREACH_DATASIZE = 8"

text \<open>\<open>p\<close> is the packet with its IP header; the answer goes back to its source.\<close>

definition icmp_send_response :: "ip_env \<Rightarrow> bytes \<Rightarrow> u8 \<Rightarrow> u8 \<Rightarrow> ipstack \<Rightarrow> ipstack option" where
  "icmp_send_response v p ty cd s =
     (if \<not> ie_pbuf v then Some s
      else
        let q = [ty, cd, 0, 0, 0, 0, 0, 0] @ take (min (IP_HLEN + ICMP_DEST_UNREACH_DATASIZE) (length p)) p;
            src = U8TO32_LITTLE (drop 12 p)
        in (case ip4_route src s of
              None \<Rightarrow> Some s
            | Some n \<Rightarrow>
                map_option fst (ip4_output_if (fresh_pbuf v) [(False, patch 2 (le16_bytes (inet_chksum False q)) q)] None (Some src) ICMP_TTL 0 IP_PROTO_ICMP n s)))"

definition icmp_dest_unreach :: "ip_env \<Rightarrow> bytes \<Rightarrow> u8 \<Rightarrow> ipstack \<Rightarrow> ipstack option" where
  "icmp_dest_unreach v p t s = icmp_send_response v p ICMP_DUR t s"

definition icmp_time_exceeded :: "ip_env \<Rightarrow> bytes \<Rightarrow> u8 \<Rightarrow> ipstack \<Rightarrow> ipstack option" where
  "icmp_time_exceeded v p t s = icmp_send_response v p ICMP_TE t s"

text \<open>The checksum after the type has changed from request to reply, on the word in memory order.\<close>

definition echo_chksum :: "u16 \<Rightarrow> u16" where
  "echo_chksum c = (if c > 0xFFF7 then c + 0x0008 + 1 else c + 0x0008)"

text \<open>The reply to \<open>h @ d\<close>: addresses exchanged, type and checksum set, a new header.\<close>

definition echo_reply :: "u32 \<Rightarrow> u32 \<Rightarrow> bytes \<Rightarrow> bytes \<Rightarrow> bytes" where
  "echo_reply src dest h d =
     (let chk = (ucast (d ! 2) OR push_bit 8 (ucast (d ! 3)) :: u16);
          h = patch 16 (U32TO8_LITTLE dest) (patch 12 (U32TO8_LITTLE src) h);
          h = IPH_CHKSUM_SET 0 (h[8 := ICMP_TTL])
      in IPH_CHKSUM_SET (inet_chksum False h) h @ patch 2 (le16_bytes (echo_chksum chk)) (d[0 := ICMP_ER]))"

text \<open>\<open>h\<close> is the IP header in front of the message \<open>p\<close>, \<open>n\<close> the interface of the destination and \<open>inp\<close> the one it came in.  With room for the link header the
  reply is made in place, otherwise in a copy.\<close>

definition icmp_input :: "ip_env \<Rightarrow> payload_chain \<Rightarrow> bytes \<Rightarrow> lnetif \<Rightarrow> lnetif \<Rightarrow> ipstack \<Rightarrow> ipstack option" where
  "icmp_input v p h n inp s =
     (let d = concat (map snd p); src = U8TO32_LITTLE (drop 12 h); dest = U8TO32_LITTLE (drop 16 h);
          in_place = (length h + PBUF_LINK_HLEN \<le> ie_headroom v \<and> length h + PBUF_LINK_HLEN + length d \<le> 0xFFFF)
      in if IPH_HL_BYTES h < IP_HLEN then Some s
         else if p = [] \<or> length (snd (hd p)) < 4 then Some s
         else if d ! 0 = ICMP_ECHO then
           if ip4_addr_ismulticast dest then Some s
           else if ip4_addr_isbroadcast dest n then Some s
           else if length d < 8 then Some s
           else if inet_chksum_pbuf p \<noteq> 0 then Some s
           else if \<not> in_place \<and> (length d + length h > 0xFFFF \<or> \<not> ie_pbuf v) then Some s
           else
             let r = echo_reply dest src h d;
                 q = (if in_place then (fst (hd p), take (length h + length (snd (hd p))) r) # tl p else [(False, r)])
             in map_option fst (ip4_output_if v q (Some dest) None ICMP_TTL 0 IP_PROTO_ICMP inp s)
         else Some s)"

end
