(* ===== verification/Lwip_Udp.thy ===== *)
theory Lwip_Udp
  imports Lwip_Ip Netif "HOL-Library.Monad_Syntax"
begin

text \<open>
  UDP (\<open>lwip/core/udp.c\<close>) and the way of a packet in (\<open>ip4_input\<close> of \<open>lwip/core/ipv4/ip4.c\<close>), IPv4 only, without UDP-Lite and without
  the reuse of addresses, as the build has it.  A pcb is named by its place in the pool; the pool's own order is not modelled.  The callback of a pcb
  is a number, and that it is called is an event.
\<close>

section \<open>Control blocks\<close>

definition UDP_HLEN :: nat where "UDP_HLEN = 8"
definition UDP_TTL :: u8 where "UDP_TTL = 255"
definition MEMP_NUM_UDP_PCB :: nat where "MEMP_NUM_UDP_PCB = 8"
definition UDP_LOCAL_PORT_RANGE_START :: u16 where "UDP_LOCAL_PORT_RANGE_START = 0xC000"
definition UDP_LOCAL_PORT_RANGE_END :: u16 where "UDP_LOCAL_PORT_RANGE_END = 0xFFFF"

text \<open>The two flags in use are booleans.\<close>

record udp_pcb =
  u_local_ip :: u32
  u_remote_ip :: u32
  u_netif_idx :: u8
  u_tos :: u8
  u_ttl :: u8
  u_nochksum :: bool
  u_connected :: bool
  u_local_port :: u16
  u_remote_port :: u16
  u_recv :: "nat option"

text \<open>The pool, \<open>udp_pcbs\<close> and \<open>udp_port\<close>.\<close>

record udp =
  us_pcb :: "nat \<Rightarrow> udp_pcb option"
  us_list :: "nat list"
  us_port :: u16

definition udp_static :: udp where
  "udp_static = \<lparr>us_pcb = (\<lambda>_. None), us_list = [], us_port = UDP_LOCAL_PORT_RANGE_START\<rparr>"

definition UDP_ENSURE_LOCAL_PORT_RANGE :: "u32 \<Rightarrow> u16" where
  "UDP_ENSURE_LOCAL_PORT_RANGE port = ucast ((port AND ucast (NOT UDP_LOCAL_PORT_RANGE_START)) + ucast UDP_LOCAL_PORT_RANGE_START)"

definition udp_init :: "entropy \<Rightarrow> udp \<Rightarrow> udp \<times> entropy" where
  "udp_init e u = (let (r, e) = lwip_port_rand e in (u\<lparr>us_port := UDP_ENSURE_LOCAL_PORT_RANGE r\<rparr>, e))"

definition upd_pcb :: "nat \<Rightarrow> (udp_pcb \<Rightarrow> udp_pcb) \<Rightarrow> udp \<Rightarrow> udp" where
  "upd_pcb i f u = u\<lparr>us_pcb := (us_pcb u)(i := map_option f (us_pcb u i))\<rparr>"

definition port_taken :: "u16 \<Rightarrow> udp \<Rightarrow> bool" where
  "port_taken port u = list_ex (\<lambda>i. map_option u_local_port (us_pcb u i) = Some port) (us_list u)"

text \<open>\<open>n\<close> ports were found in use.\<close>

function new_port_loop :: "nat \<Rightarrow> udp \<Rightarrow> u16 \<times> udp" where
  "new_port_loop n u =
     (let u = u\<lparr>us_port := (if us_port u = UDP_LOCAL_PORT_RANGE_END then UDP_LOCAL_PORT_RANGE_START else us_port u + 1)\<rparr>
      in if port_taken (us_port u) u then
           (if n + 1 > unat (UDP_LOCAL_PORT_RANGE_END - UDP_LOCAL_PORT_RANGE_START) then (0, u) else new_port_loop (n + 1) u)
         else (us_port u, u))"
  by pat_completeness auto
termination
  by (relation "measure (\<lambda>(n, _). unat (UDP_LOCAL_PORT_RANGE_END - UDP_LOCAL_PORT_RANGE_START) - n)") auto

declare new_port_loop.simps [simp del]

definition udp_new_port :: "udp \<Rightarrow> u16 \<times> udp" where
  "udp_new_port u = new_port_loop 0 u"

definition udp_new :: "udp \<Rightarrow> udp \<times> nat option" where
  "udp_new u =
     (case find (\<lambda>i. us_pcb u i = None) [0..<MEMP_NUM_UDP_PCB] of
        None \<Rightarrow> (u, None)
      | Some i \<Rightarrow>
          (u\<lparr>us_pcb := (us_pcb u)(i \<mapsto> \<lparr>u_local_ip = 0, u_remote_ip = 0, u_netif_idx = 0, u_tos = 0, u_ttl = UDP_TTL, u_nochksum = False,
               u_connected = False, u_local_port = 0, u_remote_port = 0, u_recv = None\<rparr>)\<rparr>, Some i))"

definition udp_new_ip_type :: "udp \<Rightarrow> udp \<times> nat option" where
  "udp_new_ip_type u = udp_new u"

text \<open>The operations below get a pcb that is in the pool.\<close>

definition link_pcb :: "nat \<Rightarrow> udp \<Rightarrow> udp" where
  "link_pcb i u = (if i \<in> set (us_list u) then u else u\<lparr>us_list := i # us_list u\<rparr>)"

definition bind_conflict :: "nat \<Rightarrow> u32 \<Rightarrow> u16 \<Rightarrow> udp \<Rightarrow> bool" where
  "bind_conflict i ipaddr port u =
     list_ex (\<lambda>j. j \<noteq> i \<and>
        (case us_pcb u j of
           None \<Rightarrow> False
         | Some q \<Rightarrow> u_local_port q = port \<and> (u_local_ip q = ipaddr \<or> ipaddr = 0 \<or> u_local_ip q = 0))) (us_list u)"

abbreviation ERR_USE :: err_t where "ERR_USE \<equiv> ERR_OTHER (-8)"

definition udp_bind :: "nat \<Rightarrow> u32 \<Rightarrow> u16 \<Rightarrow> udp \<Rightarrow> udp \<times> err_t" where
  "udp_bind i ipaddr port u =
     (if port = 0 then
        let (port, u) = udp_new_port u
        in if port = 0 then (u, ERR_USE)
           else (link_pcb i (upd_pcb i (\<lambda>q. q\<lparr>u_local_ip := ipaddr, u_local_port := port\<rparr>) u), ERR_OK)
      else if bind_conflict i ipaddr port u then (u, ERR_USE)
      else (link_pcb i (upd_pcb i (\<lambda>q. q\<lparr>u_local_ip := ipaddr, u_local_port := port\<rparr>) u), ERR_OK))"

definition udp_bind_netif :: "nat \<Rightarrow> lnetif option \<Rightarrow> udp \<Rightarrow> udp" where
  "udp_bind_netif i n u = upd_pcb i (\<lambda>q. q\<lparr>u_netif_idx := (case n of None \<Rightarrow> 0 | Some n \<Rightarrow> netif_get_index n)\<rparr>) u"

text \<open>A pcb without a port gets one.\<close>

definition bind_first :: "nat \<Rightarrow> udp \<Rightarrow> udp \<times> err_t" where
  "bind_first i u =
     (case us_pcb u i of
        None \<Rightarrow> (u, ERR_OK)
      | Some q \<Rightarrow> if u_local_port q = 0 then udp_bind i (u_local_ip q) 0 u else (u, ERR_OK))"

definition udp_connect :: "nat \<Rightarrow> u32 \<Rightarrow> u16 \<Rightarrow> udp \<Rightarrow> udp \<times> err_t" where
  "udp_connect i ipaddr port u =
     (let (u, err) = bind_first i u
      in if err \<noteq> ERR_OK then (u, err)
         else (link_pcb i (upd_pcb i (\<lambda>q. q\<lparr>u_remote_ip := ipaddr, u_remote_port := port, u_connected := True\<rparr>) u), ERR_OK))"

definition udp_disconnect :: "nat \<Rightarrow> udp \<Rightarrow> udp" where
  "udp_disconnect i u = upd_pcb i (\<lambda>q. q\<lparr>u_remote_ip := 0, u_remote_port := 0, u_netif_idx := 0, u_connected := False\<rparr>) u"

definition udp_recv :: "nat \<Rightarrow> nat option \<Rightarrow> udp \<Rightarrow> udp" where
  "udp_recv i recv u = upd_pcb i (\<lambda>q. q\<lparr>u_recv := recv\<rparr>) u"

definition udp_remove :: "nat \<Rightarrow> udp \<Rightarrow> udp" where
  "udp_remove i u = u\<lparr>us_list := remove1 i (us_list u), us_pcb := (us_pcb u)(i := None)\<rparr>"

definition udp_netif_ip_addr_changed :: "u32 \<Rightarrow> u32 \<Rightarrow> udp \<Rightarrow> udp" where
  "udp_netif_ip_addr_changed old_addr new_addr u =
     (if old_addr \<noteq> 0 \<and> new_addr \<noteq> 0 then
        fold (\<lambda>i. upd_pcb i (\<lambda>q. if u_local_ip q = old_addr then q\<lparr>u_local_ip := new_addr\<rparr> else q)) (us_list u) u
      else u)"

section \<open>Sending\<close>

record lstack =
  ls_ip :: ipstack
  ls_udp :: udp

definition udp_make_header :: "u16 \<Rightarrow> u16 \<Rightarrow> u16 \<Rightarrow> u16 \<Rightarrow> bytes" where
  "udp_make_header src dest len chksum = be16_bytes src @ be16_bytes dest @ be16_bytes len @ le16_bytes chksum"

text \<open>The header in front of the data, or in a pbuf of its own before it; the room that is then left.\<close>

definition udp_prepend :: "ip_env \<Rightarrow> bytes \<Rightarrow> payload_chain \<Rightarrow> (payload_chain \<times> nat) option" where
  "udp_prepend v h p =
     (case add_header (ie_headroom v) h p of
        Some q \<Rightarrow> Some (q, ie_headroom v - length h)
      | None \<Rightarrow>
          if \<not> ie_pbuf v then None
          else Some (if chain_len p \<noteq> 0 then (False, h) # p else [(False, h)], IP_HLEN + PBUF_LINK_HLEN))"

definition udp_sendto_if_src ::
  "ip_env \<Rightarrow> nat \<Rightarrow> payload_chain \<Rightarrow> u32 \<Rightarrow> u16 \<Rightarrow> lnetif \<Rightarrow> u32 \<Rightarrow> lstack \<Rightarrow> (lstack \<times> err_t) option" where
  "udp_sendto_if_src v i p dst_ip dst_port n src_ip s =
     (let (u, err) = bind_first i (ls_udp s);
          s = s\<lparr>ls_udp := u\<rparr>
      in if err \<noteq> ERR_OK then Some (s, err)
         else
           (case us_pcb u i of
              None \<Rightarrow> None
            | Some pcb \<Rightarrow>
                if chain_len p + UDP_HLEN > 0xFFFF then Some (s, ERR_MEM)
                else
                  let len = of_nat (chain_len p + UDP_HLEN)
                  in (case udp_prepend v (udp_make_header (u_local_port pcb) dst_port len 0) p of
                        None \<Rightarrow> Some (s, ERR_MEM)
                      | Some (q, room) \<Rightarrow>
                          let c = ip_chksum_pseudo q IP_PROTO_UDP len src_ip dst_ip;
                              chk = (if u_nochksum pcb then 0 else if c = 0 then 0xFFFF else c);
                              q = (fst (hd q), patch 6 (le16_bytes chk) (snd (hd q))) # tl q
                          in do { (ip, err) \<leftarrow> ip4_output_if_src (v\<lparr>ie_headroom := room\<rparr>) q (Some src_ip) (Some dst_ip) (u_ttl pcb) (u_tos pcb) IP_PROTO_UDP n (ls_ip s);
                                  Some (s\<lparr>ls_ip := ip\<rparr>, err) })))"

definition udp_sendto_if :: "ip_env \<Rightarrow> nat \<Rightarrow> payload_chain \<Rightarrow> u32 \<Rightarrow> u16 \<Rightarrow> lnetif \<Rightarrow> lstack \<Rightarrow> (lstack \<times> err_t) option" where
  "udp_sendto_if v i p dst_ip dst_port n s =
     (case us_pcb (ls_udp s) i of
        None \<Rightarrow> None
      | Some pcb \<Rightarrow>
          if u_local_ip pcb = 0 \<or> ip4_addr_ismulticast (u_local_ip pcb) then udp_sendto_if_src v i p dst_ip dst_port n (nf_ip n) s
          else if u_local_ip pcb \<noteq> nf_ip n then Some (s, ERR_RTE)
          else udp_sendto_if_src v i p dst_ip dst_port n (u_local_ip pcb) s)"

definition udp_sendto :: "ip_env \<Rightarrow> nat \<Rightarrow> payload_chain \<Rightarrow> u32 \<Rightarrow> u16 \<Rightarrow> lstack \<Rightarrow> (lstack \<times> err_t) option" where
  "udp_sendto v i p dst_ip dst_port s =
     (case us_pcb (ls_udp s) i of
        None \<Rightarrow> None
      | Some pcb \<Rightarrow>
          (case (if u_netif_idx pcb \<noteq> 0 then netif_get_by_index (u_netif_idx pcb) (ls_ip s) else ip4_route dst_ip (ls_ip s)) of
             None \<Rightarrow> Some (s, ERR_RTE)
           | Some n \<Rightarrow> udp_sendto_if v i p dst_ip dst_port n s))"

definition udp_send :: "ip_env \<Rightarrow> nat \<Rightarrow> payload_chain \<Rightarrow> lstack \<Rightarrow> (lstack \<times> err_t) option" where
  "udp_send v i p s =
     (case us_pcb (ls_udp s) i of
        None \<Rightarrow> None
      | Some pcb \<Rightarrow> udp_sendto v i p (u_remote_ip pcb) (u_remote_port pcb) s)"

section \<open>Receiving\<close>

definition udp_input_local_match :: "udp_pcb \<Rightarrow> lnetif \<Rightarrow> bool \<Rightarrow> u32 \<Rightarrow> bool" where
  "udp_input_local_match pcb inp broadcast dest =
     (if u_netif_idx pcb \<noteq> 0 \<and> u_netif_idx pcb \<noteq> netif_get_index inp then False
      else if broadcast then u_local_ip pcb = 0 \<or> dest = 0xFFFFFFFF \<or> ip4_addr_net_eq (u_local_ip pcb) dest (nf_netmask inp)
      else u_local_ip pcb = 0 \<or> u_local_ip pcb = dest)"

text \<open>The search through the list: \<open>uncon\<close> is the first unconnected pcb that matches.  The results are the pcb that matches fully, which ends
  the search, and the unconnected one.\<close>

fun find_pcb :: "(nat \<Rightarrow> udp_pcb option) \<Rightarrow> lnetif \<Rightarrow> bool \<Rightarrow> u32 \<Rightarrow> u32 \<Rightarrow> u16 \<Rightarrow> u16 \<Rightarrow> nat option \<Rightarrow> nat list \<Rightarrow> nat option \<times> nat option" where
  "find_pcb m inp broadcast src dest sport dport uncon [] = (None, uncon)"
| "find_pcb m inp broadcast src dest sport dport uncon (i # is) =
     (case m i of
        None \<Rightarrow> find_pcb m inp broadcast src dest sport dport uncon is
      | Some pcb \<Rightarrow>
          if u_local_port pcb = dport \<and> udp_input_local_match pcb inp broadcast dest then
            let uncon =
              (if u_connected pcb then uncon
               else
                 (case uncon of
                    None \<Rightarrow> Some i
                  | Some j \<Rightarrow>
                      if broadcast \<and> dest = 0xFFFFFFFF \<and> map_option u_local_ip (m j) \<noteq> Some (nf_ip inp) \<and> u_local_ip pcb = nf_ip inp
                      then Some i else uncon))
            in if u_remote_port pcb = sport \<and> (u_remote_ip pcb = 0 \<or> u_remote_ip pcb = src) then (Some i, uncon)
               else find_pcb m inp broadcast src dest sport dport uncon is
          else find_pcb m inp broadcast src dest sport dport uncon is)"

text \<open>\<open>h\<close> is the IP header, \<open>p\<close> what follows it, \<open>n\<close> the interface of the destination, \<open>inp\<close> the one it came in.  A pcb that matches fully
  moves to the front of the list.\<close>

definition udp_input :: "ip_env \<Rightarrow> payload_chain \<Rightarrow> bytes \<Rightarrow> lnetif \<Rightarrow> lnetif \<Rightarrow> lstack \<Rightarrow> lstack option" where
  "udp_input v p h n inp s =
     (if p = [] \<or> length (snd (hd p)) < UDP_HLEN then Some s
      else
        let d = concat (map snd p);
            src = U8TO32_LITTLE (drop 12 h); dest = U8TO32_LITTLE (drop 16 h);
            broadcast = ip4_addr_isbroadcast dest n;
            sport = get_be16 (d ! 0) (d ! 1); dport = get_be16 (d ! 2) (d ! 3);
            (full, uncon) = find_pcb (us_pcb (ls_udp s)) inp broadcast src dest sport dport None (us_list (ls_udp s));
            s = (case full of None \<Rightarrow> s | Some i \<Rightarrow> s\<lparr>ls_udp := (ls_udp s)\<lparr>us_list := i # remove1 i (us_list (ls_udp s))\<rparr>\<rparr>);
            pcb = (case full of None \<Rightarrow> uncon | Some i \<Rightarrow> full)
        in if pcb = None \<and> nf_ip inp \<noteq> dest then Some s
           else if (d ! 6 \<noteq> 0 \<or> d ! 7 \<noteq> 0) \<and> ip_chksum_pseudo p IP_PROTO_UDP (of_nat (length d)) src dest \<noteq> 0 then Some s
           else
             (case pcb of
                Some i \<Rightarrow>
                  (case Option.bind (us_pcb (ls_udp s) i) u_recv of
                     Some recv \<Rightarrow> Some (s\<lparr>ls_ip := ip_emit [Udp_recv recv (drop UDP_HLEN d) src sport] (ls_ip s)\<rparr>)
                   | None \<Rightarrow> Some s)
              | None \<Rightarrow>
                  if broadcast \<or> ip4_addr_ismulticast dest then Some s
                  else map_option (\<lambda>ip. s\<lparr>ls_ip := ip\<rparr>) (icmp_dest_unreach v (h @ d) 3 (ls_ip s))))"

section \<open>Packets that come in\<close>

datatype raw_input_state = RAW_INPUT_NONE | RAW_INPUT_EATEN | RAW_INPUT_DELIVERED

text \<open>\<open>pbuf_realloc\<close> to a smaller length, and \<open>pbuf_remove_header\<close>.\<close>

fun chain_trim :: "nat \<Rightarrow> payload_chain \<Rightarrow> payload_chain" where
  "chain_trim n [] = []"
| "chain_trim n ((at_odd, d) # rest) = (if n \<le> length d then [(at_odd, take n d)] else (at_odd, d) # chain_trim (n - length d) rest)"

definition remove_header :: "nat \<Rightarrow> payload_chain \<Rightarrow> payload_chain" where
  "remove_header n p = (case p of [] \<Rightarrow> [] | (at_odd, d) # rest \<Rightarrow> (at_odd \<noteq> (n mod 2 \<noteq> 0), drop n d) # rest)"

definition ip4_input_accept :: "u32 \<Rightarrow> lnetif \<Rightarrow> bool" where
  "ip4_input_accept dest n \<longleftrightarrow> netif_is_up n \<and> nf_ip n \<noteq> 0 \<and> (dest = nf_ip n \<or> ip4_addr_isbroadcast dest n)"

text \<open>The interface a packet is for.\<close>

definition input_netif :: "u32 \<Rightarrow> lnetif \<Rightarrow> ipstack \<Rightarrow> lnetif option" where
  "input_netif dest inp s =
     (if ip4_addr_ismulticast dest then (if netif_is_up inp \<and> nf_ip inp \<noteq> 0 then Some inp else None)
      else if ip4_input_accept dest inp then Some inp
      else if ip4_addr_isloopback dest then None
      else find (\<lambda>n. nf_num n \<noteq> nf_num inp \<and> ip4_input_accept dest n) (ip_netifs s))"

text \<open>The upper layers: \<open>raw\<close> is what the raw pcbs say of the packet.\<close>

definition ip4_deliver :: "ip_env \<Rightarrow> raw_input_state \<Rightarrow> nat \<Rightarrow> payload_chain \<Rightarrow> lnetif \<Rightarrow> lnetif \<Rightarrow> lstack \<Rightarrow> lstack option" where
  "ip4_deliver v raw hlen p n inp s =
     (let h = take hlen (snd (hd p)); q = remove_header hlen p; d = concat (map snd p);
          proto = h ! 9; dest = U8TO32_LITTLE (drop 16 h);
          v = v\<lparr>ie_headroom := ie_headroom v + hlen\<rparr>
      in if raw = RAW_INPUT_EATEN then Some s
         else if proto = IP_PROTO_UDP then udp_input v q h n inp s
         else if proto = IP_PROTO_TCP then Some (s\<lparr>ls_ip := ip_emit [Tcp_input h (concat (map snd q))] (ls_ip s)\<rparr>)
         else if proto = IP_PROTO_ICMP then map_option (\<lambda>ip. s\<lparr>ls_ip := ip\<rparr>) (icmp_input v q h n inp (ls_ip s))
         else if raw = RAW_INPUT_DELIVERED then Some s
         else if \<not> ip4_addr_isbroadcast dest n \<and> \<not> ip4_addr_ismulticast dest
              then map_option (\<lambda>ip. s\<lparr>ls_ip := ip\<rparr>) (icmp_dest_unreach v d 2 (ls_ip s))
         else Some s)"

text \<open>Datagrams that were given up for the new one are reported to their senders.\<close>

fun exceeded :: "ip_env \<Rightarrow> bytes list \<Rightarrow> ipstack \<Rightarrow> ipstack option" where
  "exceeded v [] s = Some s"
| "exceeded v (p # ps) s = Option.bind (icmp_time_exceeded v p 1 s) (exceeded v ps)"

text \<open>\<open>split\<close>: how a packet that was put together lies in its pbufs.  A packet whose first pbuf is shorter than a header is dropped,
  whatever the code reads behind it: the header length is then too small or too large.\<close>

definition ip4_input ::
  "ip_env \<Rightarrow> raw_input_state \<Rightarrow> (bytes \<Rightarrow> payload_chain) \<Rightarrow> payload_chain \<Rightarrow> lnetif \<Rightarrow> lstack \<Rightarrow> lstack option" where
  "ip4_input v raw split p inp s =
     (if p = [] \<or> length (snd (hd p)) < IP_HLEN then Some s
      else
        let h = snd (hd p)
        in if drop_bit 4 (h ! 0) \<noteq> 4 then Some s
           else
             let hlen = IPH_HL_BYTES h; len = unat (IPH_LEN h);
                 p = (if len < chain_len p then chain_trim len p else p)
             in if hlen > length (snd (hd p)) \<or> len > chain_len p \<or> hlen < IP_HLEN then Some s
                else if inet_chksum (fst (hd p)) (take hlen h) \<noteq> 0 then Some s
                else
                  let src = U8TO32_LITTLE (drop 12 h); dest = U8TO32_LITTLE (drop 16 h)
                  in if ip4_addr_isbroadcast src inp \<or> ip4_addr_ismulticast src then Some s
                     else
                       (case input_netif dest inp (ls_ip s) of
                          None \<Rightarrow> Some s
                        | Some n \<Rightarrow>
                            if IPH_OFFSET h AND (IP_OFFMASK OR IP_MF) \<noteq> 0 then
                              let (r, out) = ip4_reass (concat (map snd p)) (length p) (ip_reass (ls_ip s));
                                  given_up = drop (length (rs_exceeded (ip_reass (ls_ip s)))) (rs_exceeded r)
                              in do { ip \<leftarrow> exceeded v given_up ((ls_ip s)\<lparr>ip_reass := r\<rparr>);
                                      let s = s\<lparr>ls_ip := ip\<rparr>;
                                      case out of None \<Rightarrow> Some s | Some d \<Rightarrow> ip4_deliver v raw hlen (split d) n inp s }
                            else ip4_deliver v raw hlen p n inp s))"

end
