(* ===== verification/Lwip_Frag_Correct.thy ===== *)
theory Lwip_Frag_Correct
  imports Lwip_Frag "HOL-Library.Multiset"
begin

text \<open>
  Fragments are put together again: whatever way a datagram was cut and in whatever order the pieces arrive, the last one to arrive
  completes the datagram, the bytes are those that were sent, and nothing is left behind.  What \<open>ip4_frag\<close> sends is such a
  cut, except for lengths with a short rest, where it marks two fragments as the last.
\<close>

section \<open>Pieces\<close>

text \<open>The pieces \<open>D 0, \<dots>, D (k - 1)\<close> of a datagram, and where each begins.\<close>

definition piece_off :: "(nat \<Rightarrow> bytes) \<Rightarrow> nat \<Rightarrow> nat" where
  "piece_off D i = sum_list (map (\<lambda>j. length (D j)) [0..<i])"

lemma off_simps [simp]: "piece_off D 0 = 0" "piece_off D (Suc i) = piece_off D i + length (D i)"
  by (simp_all add: piece_off_def)

definition pieces :: "(nat \<Rightarrow> bytes) \<Rightarrow> nat \<Rightarrow> bool" where
  "pieces D k \<longleftrightarrow> (\<forall>i<k. D i \<noteq> []) \<and> piece_off D k \<le> 65515"

definition piece :: "(nat \<Rightarrow> bytes) \<Rightarrow> (nat \<Rightarrow> nat) \<Rightarrow> nat \<Rightarrow> frag" where
  "piece D C i = \<lparr>fg_start = of_nat (piece_off D i), fg_end = of_nat (piece_off D (Suc i)), fg_data = D i, fg_clen = C i\<rparr>"

lemma off_mono: "i \<le> j \<Longrightarrow> piece_off D i \<le> piece_off D j"
  by (induction j) (auto simp: le_Suc_eq)

lemma off_less:
  assumes "pieces D k" "i < j" "j \<le> k" shows "piece_off D i < piece_off D j"
proof -
  have "piece_off D (Suc i) \<le> piece_off D j" using assms(2) by (intro off_mono) simp
  moreover have "D i \<noteq> []" using assms by (simp add: pieces_def)
  ultimately show ?thesis by (cases "D i") auto
qed

lemma off_word: "pieces D k \<Longrightarrow> i \<le> k \<Longrightarrow> unat (of_nat (piece_off D i) :: u16) = piece_off D i"
  using off_mono [of i k D] by (simp add: pieces_def unat_of_nat)

lemma word_off_le: "pieces D k \<Longrightarrow> i \<le> k \<Longrightarrow> j \<le> k \<Longrightarrow> (of_nat (piece_off D i) :: u16) \<le> of_nat (piece_off D j) \<longleftrightarrow> i \<le> j"
  using off_word [of D k i] off_word [of D k j] off_less [of D k j i] off_mono [of i j D]
  by (metis leD leI word_le_nat_alt)

lemma word_off_eq: "pieces D k \<Longrightarrow> i \<le> k \<Longrightarrow> j \<le> k \<Longrightarrow> (of_nat (piece_off D i) :: u16) = of_nat (piece_off D j) \<longleftrightarrow> i = j"
  using word_off_le [of D k i j] word_off_le [of D k j i] by (metis order_antisym order_refl)

lemma piece_simps [simp]:
  "fg_start (piece D C i) = of_nat (piece_off D i)" "fg_end (piece D C i) = of_nat (piece_off D (Suc i))" "fg_data (piece D C i) = D i" "fg_clen (piece D C i) = C i"
  by (simp_all only: piece_def frag.simps)

section \<open>Insertion\<close>

definition before :: "frag option \<Rightarrow> frag list" where
  "before prev = (case prev of None \<Rightarrow> [] | Some p \<Rightarrow> [p])"

lemma no_gap_append: "no_gap (as @ [x]) \<Longrightarrow> no_gap (x # bs) \<Longrightarrow> no_gap (as @ x # bs)"
proof (induction as)
  case (Cons a as)
  then show ?case by (cases as) auto
qed simp

lemma no_gap_parts: "no_gap (as @ x # bs) \<Longrightarrow> no_gap (as @ [x]) \<and> no_gap (x # bs)"
proof (induction as)
  case (Cons a as)
  then show ?case by (cases as) auto
qed simp

lemma insert_frag_val:
  assumes "\<forall>a\<in>set pre. fg_end a \<le> fg_start new \<and> fg_start a < fg_end a" "\<forall>b\<in>set post. fg_end new \<le> fg_start b" "fg_start new < fg_end new"
    "\<forall>p\<in>set (before prev). fg_end p \<le> fg_start new"
  shows "\<exists>v'. insert_frag new prev (pre @ post) v = Some (pre @ new # post, v', new # post) \<and> (v' \<longleftrightarrow> v \<and> no_gap (before prev @ pre @ [new]))"
  using assms
proof (induction pre arbitrary: prev v)
  case Nil
  show ?case
  proof (cases post)
    case Nil
    then show ?thesis by (auto simp: before_def split: option.split)
  next
    case (Cons t ts)
    then have "fg_start new < fg_start t" "\<not> fg_end new > fg_start t" using Nil.prems(2,3) by auto
    then show ?thesis using Nil.prems(4) Cons by (auto simp: before_def split: option.split)
  qed
next
  case (Cons a pre)
  have a: "fg_end a \<le> fg_start new" "fg_start a < fg_end a" using Cons.prems(1) by simp_all
  then have n: "\<not> fg_start new < fg_start a" "fg_start new \<noteq> fg_start a" "\<not> fg_start new < fg_end a" by auto
  define w where "w \<longleftrightarrow> v \<and> (case prev of None \<Rightarrow> True | Some p \<Rightarrow> fg_end p = fg_start a)"
  obtain v' where v': "insert_frag new (Some a) (pre @ post) w = Some (pre @ new # post, v', new # post)"
    "v' \<longleftrightarrow> w \<and> no_gap (before (Some a) @ pre @ [new])"
    using Cons.IH [of "Some a" w] Cons.prems a by (auto simp: before_def)
  have "insert_frag new prev ((a # pre) @ post) v = Some ((a # pre) @ new # post, v', new # post)"
    using n v'(1) by (simp add: w_def)
  moreover have "v' \<longleftrightarrow> v \<and> no_gap (before prev @ (a # pre) @ [new])"
    using v'(2) by (cases prev; cases pre) (auto simp: before_def w_def)
  ultimately show ?case by blast
qed

text \<open>The pieces that have arrived, in order.\<close>

definition arrived :: "(nat \<Rightarrow> bytes) \<Rightarrow> (nat \<Rightarrow> nat) \<Rightarrow> nat \<Rightarrow> nat set \<Rightarrow> frag list" where
  "arrived D C k I = map (piece D C) (filter (\<lambda>i. i \<in> I) [0..<k])"

lemma arrived_insert:
  assumes "pieces D k" "j < k" "j \<notin> I"
  obtains v r where "insert_frag (piece D C j) None (arrived D C k I) True = Some (arrived D C k (insert j I), v, r)"
    "v \<and> no_gap r \<longleftrightarrow> no_gap (arrived D C k (insert j I))"
proof -
  have s: "[0..<k] = [0..<j] @ j # [Suc j..<k]" using assms(2) by (metis le_add_diff_inverse less_imp_le_nat upt_add_eq_append upt_conv_Cons zero_le)
  let ?pre = "map (piece D C) (filter (\<lambda>i. i \<in> I) [0..<j])" and ?post = "map (piece D C) (filter (\<lambda>i. i \<in> I) [Suc j..<k])"
  have l: "arrived D C k I = ?pre @ ?post" using assms(3) by (simp add: arrived_def s)
  have "filter (\<lambda>i. i \<in> insert j I) [0..<j] = filter (\<lambda>i. i \<in> I) [0..<j]" "filter (\<lambda>i. i \<in> insert j I) [Suc j..<k] = filter (\<lambda>i. i \<in> I) [Suc j..<k]"
    by (auto intro: filter_cong)
  then have l': "arrived D C k (insert j I) = ?pre @ piece D C j # ?post" by (simp add: arrived_def s)
  note le = word_off_le [OF assms(1)]
  have lt: "(of_nat (piece_off D i) :: u16) < of_nat (piece_off D (Suc i))" if "i < k" for i
    using le [of "Suc i" i] that by (simp only: not_le [symmetric])
  have pre: "(of_nat (piece_off D (Suc i)) :: u16) \<le> of_nat (piece_off D j)" if "i < j" for i
    using le [of "Suc i" j] that assms(2) by (simp del: off_simps)
  have post: "(of_nat (piece_off D (Suc j)) :: u16) \<le> of_nat (piece_off D i)" if "Suc j \<le> i" "i < k" for i
    using le [of "Suc j" i] that assms(2) by (simp del: off_simps)
  have "\<forall>a\<in>set ?pre. fg_end a \<le> fg_start (piece D C j) \<and> fg_start a < fg_end a"
    using pre lt assms(2) by (simp del: off_simps of_nat_add)
  moreover have "\<forall>b\<in>set ?post. fg_end (piece D C j) \<le> fg_start b"
    using post by (simp del: off_simps of_nat_add)
  ultimately have "\<exists>v'. insert_frag (piece D C j) None (?pre @ ?post) True = Some (?pre @ piece D C j # ?post, v', piece D C j # ?post) \<and>
      (v' \<longleftrightarrow> True \<and> no_gap (before None @ ?pre @ [piece D C j]))"
    by (rule insert_frag_val) (simp_all only: piece_simps lt [OF assms(2)] before_def option.case list.set ball_simps)
  then obtain v where v: "insert_frag (piece D C j) None (?pre @ ?post) True = Some (?pre @ piece D C j # ?post, v, piece D C j # ?post)"
    "v \<longleftrightarrow> no_gap (?pre @ [piece D C j])"
    unfolding before_def by auto
  show ?thesis
  proof (rule that)
    show "insert_frag (piece D C j) None (arrived D C k I) True = Some (arrived D C k (insert j I), v, piece D C j # ?post)"
      unfolding l l' by (rule v(1))
    show "v \<and> no_gap (piece D C j # ?post) \<longleftrightarrow> no_gap (arrived D C k (insert j I))"
      unfolding l' v(2) using no_gap_append no_gap_parts by blast
  qed
qed

text \<open>Without a gap, from the first piece to the last, all have arrived.\<close>

lemma no_gap_run:
  assumes "pieces D k"
  shows "\<forall>i\<in>set (x # xs). i < k \<Longrightarrow> no_gap (map (piece D C) (x # xs)) \<Longrightarrow> x # xs = [x..<x + Suc (length xs)]"
proof (induction xs arbitrary: x)
  case (Cons y xs)
  have "y = Suc x" using Cons.prems word_off_eq [OF assms, of "Suc x" y] by (simp del: off_simps)
  moreover have "y # xs = [y..<y + Suc (length xs)]" using Cons by simp
  moreover have "[x..<x + Suc (length (y # xs))] = x # [Suc x..<Suc x + Suc (length xs)]" by (simp add: upt_conv_Cons del: upt_Suc)
  ultimately show ?case by (simp only:)
qed simp

lemma no_gap_all: "no_gap (map (piece D C) [a..<b])"
proof (induction "b - a" arbitrary: a)
  case (Suc n)
  then have u: "[a..<b] = a # [Suc a..<b]" "no_gap (map (piece D C) [Suc a..<b])" by (simp_all add: upt_conv_Cons)
  then show ?case by (cases "Suc a < b") (simp_all add: upt_conv_Cons)
qed simp

lemma arrived_all: "{..<k} \<subseteq> I \<Longrightarrow> arrived D C k I = map (piece D C) [0..<k]"
  unfolding arrived_def by (simp add: subset_eq)

lemma arrived_complete:
  assumes "pieces D k" "I \<subseteq> {..<k}" "k - 1 \<in> I"
  shows "fg_start (hd (arrived D C k I)) = 0 \<and> no_gap (arrived D C k I) \<longleftrightarrow> I = {..<k}"
proof
  assume "I = {..<k}"
  then show "fg_start (hd (arrived D C k I)) = 0 \<and> no_gap (arrived D C k I)"
    using assms(2,3) no_gap_all [of D C 0 k] by (cases k) (auto simp: arrived_all upt_conv_Cons simp del: upt_Suc)
next
  assume r: "fg_start (hd (arrived D C k I)) = 0 \<and> no_gap (arrived D C k I)"
  let ?l = "filter (\<lambda>i. i \<in> I) [0..<k]"
  have s: "set ?l = I" using assms(2) by auto
  then obtain x xs where l: "?l = x # xs" using assms(3) by (cases ?l) auto
  have b: "\<forall>i\<in>set (x # xs). i < k" using s assms(2) unfolding l by auto
  have "(of_nat (piece_off D x) :: u16) = of_nat (piece_off D 0)" using r unfolding arrived_def l by simp
  then have "x = 0" using word_off_eq [OF assms(1), of x 0] b by (simp del: off_simps)
  have "x # xs = [x..<x + Suc (length xs)]" using no_gap_run [OF assms(1) b, of C] r unfolding arrived_def l by simp
  then have "I = {..<Suc (length xs)}" using s \<open>x = 0\<close> unfolding l by (metis add_0 atLeast_upt)
  then show "I = {..<k}" using assms(2,3) by (auto simp: subset_eq)
qed

section \<open>A packet that carries a piece\<close>

definition carries :: "bytes \<Rightarrow> (nat \<Rightarrow> bytes) \<Rightarrow> nat \<Rightarrow> nat \<Rightarrow> bytes \<Rightarrow> bool" where
  "carries H D k i p \<longleftrightarrow>
     IPH_HL_BYTES p = IP_HLEN \<and> unat (IPH_LEN p) = IP_HLEN + length (D i) \<and> unat (IPH_OFFSET p AND IP_OFFMASK) * 8 = piece_off D i \<and>
     (IPH_OFFSET p AND IP_MF = 0 \<longleftrightarrow> i = k - 1) \<and> IP_ADDRESSES_AND_ID_MATCH p H \<and> drop IP_HLEN p = D i"

lemma header_part [simp]:
  "IPH_HL_BYTES (take IP_HLEN p) = IPH_HL_BYTES p" "IPH_LEN (take IP_HLEN p) = IPH_LEN p" "IPH_OFFSET (take IP_HLEN p) = IPH_OFFSET p"
  by (simp_all add: IPH_HL_BYTES_def IPH_LEN_def IPH_OFFSET_def IP_HLEN_def)

lemma match_part [simp]:
  "IP_ADDRESSES_AND_ID_MATCH h (take IP_HLEN p) = IP_ADDRESSES_AND_ID_MATCH h p" "IP_ADDRESSES_AND_ID_MATCH (take IP_HLEN p) h = IP_ADDRESSES_AND_ID_MATCH p h"
  by (simp_all add: IP_ADDRESSES_AND_ID_MATCH_def slice_def IP_HLEN_def drop_take)

lemma match_sym: "IP_ADDRESSES_AND_ID_MATCH a b \<Longrightarrow> IP_ADDRESSES_AND_ID_MATCH b a"
  by (simp add: IP_ADDRESSES_AND_ID_MATCH_def)

lemma match_trans: "IP_ADDRESSES_AND_ID_MATCH a b \<Longrightarrow> IP_ADDRESSES_AND_ID_MATCH b c \<Longrightarrow> IP_ADDRESSES_AND_ID_MATCH a c"
  by (simp add: IP_ADDRESSES_AND_ID_MATCH_def)

lemma carries_words:
  assumes "carries H D k i p"
  shows "IPH_OFFSET_BYTES p = of_nat (piece_off D i)" "IPH_LEN p - of_nat (IPH_HL_BYTES p) = of_nat (length (D i))"
proof -
  have "IPH_OFFSET p AND IP_OFFMASK = of_nat (unat (IPH_OFFSET p AND IP_OFFMASK))" by simp
  then have "(IPH_OFFSET p AND IP_OFFMASK) * 8 = of_nat (unat (IPH_OFFSET p AND IP_OFFMASK) * 8)" by simp
  then show "IPH_OFFSET_BYTES p = of_nat (piece_off D i)" using assms by (simp only: carries_def IPH_OFFSET_BYTES_def)
  have "IPH_LEN p = of_nat (unat (IPH_LEN p))" by simp
  also have "\<dots> = of_nat (IP_HLEN + length (D i))" using assms by (simp only: carries_def)
  finally have "IPH_LEN p = of_nat (IP_HLEN + length (D i))" .
  then show "IPH_LEN p - of_nat (IPH_HL_BYTES p) = of_nat (length (D i))" using assms by (simp add: carries_def)
qed

text \<open>The entry of a datagram of which the pieces \<open>I\<close> have arrived.\<close>

definition entry :: "(nat \<Rightarrow> bytes) \<Rightarrow> (nat \<Rightarrow> nat) \<Rightarrow> nat \<Rightarrow> nat set \<Rightarrow> bytes \<Rightarrow> ip_reassdata" where
  "entry D C k I h = \<lparr>rd_frags = arrived D C k I, rd_iphdr = h, rd_datagram_len = (if k - 1 \<in> I then of_nat (piece_off D k) else 0),
     rd_lastfrag = (k - 1 \<in> I), rd_timer = IP_REASS_MAXAGE\<rparr>"

lemma chain_entry:
  assumes "pieces D k" "j < k" "j \<notin> I" "I \<subseteq> {..<k}" "carries H D k j p"
  shows "chain_frag_and_validate (entry D C k I h) p (C j) (j = k - 1) = Done (arrived D C k (insert j I), insert j I = {..<k})"
proof -
  obtain v r where v: "insert_frag (piece D C j) None (arrived D C k I) True = Some (arrived D C k (insert j I), v, r)"
    "v \<and> no_gap r \<longleftrightarrow> no_gap (arrived D C k (insert j I))"
    by (rule arrived_insert [OF assms(1-3)])
  have f: "\<lparr>fg_start = of_nat (piece_off D j), fg_end = of_nat (piece_off D j) + of_nat (length (D j)), fg_data = drop IP_HLEN p, fg_clen = C j\<rparr> = piece D C j"
    using assms(5) by (simp add: piece_def carries_def)
  have n: "\<not> fg_end (piece D C j) < of_nat (piece_off D j)" using word_off_le [OF assms(1), of j "Suc j"] assms(2) by (simp del: off_simps of_nat_add)
  have l: "\<not> IPH_HL_BYTES p > unat (IPH_LEN p)" using assms(5) by (simp add: carries_def)
  have c: "(j = k - 1 \<or> k - 1 \<in> I) \<and> v \<and> fg_start (hd (arrived D C k (insert j I))) = 0 \<and> no_gap r \<longleftrightarrow> insert j I = {..<k}"
  proof (cases "k - 1 \<in> insert j I")
    case True
    have "insert j I \<subseteq> {..<k}" using assms(2,4) by simp
    note arrived_complete [OF assms(1) this True, of C]
    moreover have "j = k - 1 \<or> k - 1 \<in> I" using True by auto
    ultimately show ?thesis using v(2) by argo
  next
    case False
    then have "insert j I \<noteq> {..<k}" using assms(2) by (metis diff_less less_nat_zero_code lessThan_iff linorder_neqE_nat zero_less_one)
    then show ?thesis using False by blast
  qed
  show ?thesis
    using l n v(1) unfolding chain_frag_and_validate_def Let_def carries_words [OF assms(5)] f
    using c by (simp add: entry_def)
qed

text \<open>What becomes of the state when the piece \<open>j\<close> arrives.\<close>

definition clens :: "(nat \<Rightarrow> nat) \<Rightarrow> nat set \<Rightarrow> u16" where
  "clens C I = of_nat (sum C I)"

definition rebuilt :: "(nat \<Rightarrow> bytes) \<Rightarrow> nat \<Rightarrow> bytes \<Rightarrow> bytes" where
  "rebuilt D k h = renew_header 0 (of_nat (piece_off D k) + of_nat IP_HLEN) h @ concat (map D [0..<k])"

lemma arrived_clens: "I \<subseteq> {..<k} \<Longrightarrow> of_nat (sum_list (map fg_clen (arrived D C k I))) = clens C I"
proof -
  assume "I \<subseteq> {..<k}"
  then have "set (filter (\<lambda>i. i \<in> I) [0..<k]) = I" by auto
  moreover have "map fg_clen (arrived D C k I) = map C (filter (\<lambda>i. i \<in> I) [0..<k])" by (simp add: arrived_def)
  ultimately show ?thesis by (simp add: clens_def sum_list_distinct_conv_sum_set)
qed

lemma reass_into_entry:
  assumes "pieces D k" "j < k" "j \<notin> I" "I \<subseteq> {..<k}" "carries H D k j p" "rs_list s = entry D C k I h # rs"
  shows "reass_into 0 p (C j) s =
     (if insert j I = {..<k} then (s\<lparr>rs_list := rs, rs_pbufcount := rs_pbufcount s + of_nat (C j) - clens C {..<k}\<rparr>, Some (rebuilt D k h))
      else (s\<lparr>rs_list := entry D C k (insert j I) h # rs, rs_pbufcount := rs_pbufcount s + of_nat (C j)\<rparr>, None))"
proof -
  have m: "IPH_OFFSET p AND IP_MF = 0 \<longleftrightarrow> j = k - 1" using assms(5) by (simp add: carries_def)
  have w: "of_nat (piece_off D j) + of_nat (length (D j)) = (of_nat (piece_off D (Suc j)) :: u16)" by simp
  have j: "unat (of_nat (piece_off D (Suc j)) :: u16) = piece_off D (Suc j)" using off_word [OF assms(1), of "Suc j"] assms(2) by (simp del: off_simps)
  have u: "piece_off D (Suc j) \<le> 65515" using assms(1,2) off_mono [of "Suc j" k D] by (simp add: pieces_def del: off_simps)
  have n: "\<not> (of_nat (piece_off D (Suc j)) :: u16) < of_nat (piece_off D j)"
    using word_off_le [OF assms(1), of j "Suc j"] assms(2) by (simp del: off_simps of_nat_add)
  let ?e = "entry D C k I h\<lparr>rd_frags := arrived D C k (insert j I)\<rparr>"
  have e: "(if j = k - 1 then ?e\<lparr>rd_datagram_len := of_nat (piece_off D (Suc j)), rd_lastfrag := True\<rparr> else ?e) = entry D C k (insert j I) h"
  proof (cases "j = k - 1")
    case True
    then have "Suc j = k" using assms(2) by simp
    then show ?thesis using True by (simp add: entry_def del: off_simps)
  next
    case False
    then show ?thesis by (simp add: entry_def)
  qed
  have i: "insert j I \<subseteq> {..<k}" using assms(2,4) by simp
  have r: "rd_datagram_len (entry D C k (insert j I) h) = of_nat (piece_off D k)" if "insert j I = {..<k}"
    using that assms(2) by (simp add: entry_def)
  have g: "\<not> (j = k - 1 \<and> ((of_nat (piece_off D (Suc j)) :: u16) < of_nat (piece_off D j) \<or> unat (of_nat (piece_off D (Suc j)) :: u16) > 0xFFFF - IP_HLEN))"
    using n u unfolding j by (simp add: IP_HLEN_def del: off_simps)
  have eq: "reass_into 0 p (C j) s =
      (if insert j I = {..<k} then (s\<lparr>rs_list := rs, rs_pbufcount := rs_pbufcount s + of_nat (C j) - of_nat (sum_list (map fg_clen (arrived D C k (insert j I))))\<rparr>,
         Some (renew_header 0 (rd_datagram_len (entry D C k (insert j I) h) + of_nat IP_HLEN) (rd_iphdr (entry D C k (insert j I) h))
               @ concat (map fg_data (arrived D C k (insert j I)))))
       else (s\<lparr>rs_list := entry D C k (insert j I) h # rs, rs_pbufcount := rs_pbufcount s + of_nat (C j)\<rparr>, None))"
    unfolding reass_into_def Let_def assms(6) carries_words [OF assms(5)] m w nth_Cons_0 chain_entry [OF assms(1-5)] if_not_P [OF g] outcome.case prod.case e
    by (simp add: dequeue_datagram_def del: off_simps of_nat_add)
  have data: "map fg_data (arrived D C k {..<k}) = map D [0..<k]" by (simp add: arrived_all)
  have hd: "rd_iphdr (entry D C k (insert j I) h) = h" by (simp add: entry_def)
  show ?thesis
  proof (cases "insert j I = {..<k}")
    case True
    show ?thesis unfolding eq r [OF True] hd arrived_clens [OF i] unfolding True data rebuilt_def by (rule refl)
  qed (simp only: eq if_False)
qed

text \<open>The first piece to arrive makes the entry; the others find it.  The header of the entry is that of the first piece as soon as that one is there.\<close>

definition header_of :: "(nat \<Rightarrow> bytes) \<Rightarrow> nat set \<Rightarrow> bytes \<Rightarrow> bytes \<Rightarrow> bool" where
  "header_of P I H h \<longleftrightarrow> IP_ADDRESSES_AND_ID_MATCH h H \<and> (if 0 \<in> I then h = take IP_HLEN (P 0) else IPH_OFFSET h AND IP_OFFMASK \<noteq> 0)"

lemma carries_first:
  assumes "pieces D k" "i < k" "carries H D k i p"
  shows "IPH_OFFSET p AND IP_OFFMASK = 0 \<longleftrightarrow> i = 0"
proof -
  have "IPH_OFFSET p AND IP_OFFMASK = 0 \<longleftrightarrow> piece_off D i = 0" using assms(3) unfolding carries_def by (metis mult_is_0 unat_0 unat_eq_zero zero_neq_numeral)
  also have "\<dots> \<longleftrightarrow> i = 0" using off_less [OF assms(1), of 0 i] assms(2) by (cases "i = 0") auto
  finally show ?thesis .
qed

lemma entry_header: "entry D C k I h\<lparr>rd_iphdr := h'\<rparr> = entry D C k I h'" "rd_iphdr (entry D C k I h) = h"
  by (simp_all add: entry_def)

lemma reass_next:
  assumes "pieces D k" "j < k" "j \<notin> I" "I \<subseteq> {..<k}" "\<forall>i<k. carries H D k i (P i)" "rs_list s = entry D C k I h # rs" "header_of P I H h"
    "unat (rs_pbufcount s) + C j \<le> IP_REASS_MAX_PBUFS"
  obtains h' where "ip4_reass (P j) (C j) s = reass_into 0 (P j) (C j) (s\<lparr>rs_list := entry D C k I h' # rs\<rparr>)" "header_of P (insert j I) H h'"
proof -
  let ?f = "take IP_HLEN (P j)"
  have c: "carries H D k j (P j)" using assms(2,5) by simp
  then have p: "IPH_HL_BYTES (P j) = IP_HLEN" "\<not> IPH_HL_BYTES (P j) > unat (IPH_LEN (P j))" "IP_ADDRESSES_AND_ID_MATCH (P j) H" by (simp_all add: carries_def)
  have m: "IP_ADDRESSES_AND_ID_MATCH h (P j)" using assms(7) match_trans [OF _ match_sym [OF p(3)]] by (simp add: header_of_def)
  have f: "find (\<lambda>i. IP_ADDRESSES_AND_ID_MATCH (rd_iphdr (rs_list s ! i)) (P j)) [0..<length (rs_list s)] = Some 0"
    unfolding assms(6) by (simp add: upt_conv_Cons entry_header m del: upt_Suc)
  define h' where "h' = (if IPH_OFFSET ?f AND IP_OFFMASK = 0 \<and> IPH_OFFSET h AND IP_OFFMASK \<noteq> 0 then ?f else h)"
  have "ip4_reass (P j) (C j) s = reass_into 0 (P j) (C j) (s\<lparr>rs_list := (rs_list s)[0 :=
      (if IPH_OFFSET ?f AND IP_OFFMASK = 0 \<and> IPH_OFFSET (rd_iphdr (rs_list s ! 0)) AND IP_OFFMASK \<noteq> 0 then (rs_list s ! 0)\<lparr>rd_iphdr := ?f\<rparr> else rs_list s ! 0)]\<rparr>)"
    using p assms(8) unfolding ip4_reass_def Let_def make_room_def by (simp add: f)
  also have "\<dots> = reass_into 0 (P j) (C j) (s\<lparr>rs_list := entry D C k I h' # rs\<rparr>)"
    unfolding assms(6) by (simp add: entry_header h'_def)
  finally have "ip4_reass (P j) (C j) s = reass_into 0 (P j) (C j) (s\<lparr>rs_list := entry D C k I h' # rs\<rparr>)" .
  moreover have "header_of P (insert j I) H h'"
    using assms(3,7) carries_first [OF assms(1,2) c] match_sym [OF m] p(3)
    by (auto simp: header_of_def h'_def intro: match_sym)
  ultimately show ?thesis by (rule that)
qed

lemma reass_new:
  assumes "pieces D k" "j < k" "carries H D k j (P j)" "\<forall>e\<in>set (rs_list s). \<not> IP_ADDRESSES_AND_ID_MATCH (rd_iphdr e) H"
    "unat (rs_pbufcount s) + C j \<le> IP_REASS_MAX_PBUFS" "length (rs_list s) < MEMP_NUM_REASSDATA"
  shows "ip4_reass (P j) (C j) s = reass_into 0 (P j) (C j) (s\<lparr>rs_list := entry D C k {} (take IP_HLEN (P j)) # rs_list s\<rparr>)"
    "header_of P {j} H (take IP_HLEN (P j))"
proof -
  let ?f = "take IP_HLEN (P j)"
  have p: "IPH_HL_BYTES (P j) = IP_HLEN" "\<not> IPH_HL_BYTES (P j) > unat (IPH_LEN (P j))" "IP_ADDRESSES_AND_ID_MATCH (P j) H"
    using assms(3) by (simp_all add: carries_def)
  have "\<not> IP_ADDRESSES_AND_ID_MATCH (rd_iphdr (rs_list s ! i)) (P j)" if "i < length (rs_list s)" for i
    using assms(4) that match_trans [OF _ p(3)] by (meson nth_mem)
  then have f: "find (\<lambda>i. IP_ADDRESSES_AND_ID_MATCH (rd_iphdr (rs_list s ! i)) (P j)) [0..<length (rs_list s)] = None"
    by (simp add: find_None_iff)
  have e: "enqueue_new_datagram ?f (C j) s = (s\<lparr>rs_list := entry D C k {} ?f # rs_list s\<rparr>, True)"
    using assms(6) by (simp add: enqueue_new_datagram_def entry_def arrived_def)
  show "ip4_reass (P j) (C j) s = reass_into 0 (P j) (C j) (s\<lparr>rs_list := entry D C k {} ?f # rs_list s\<rparr>)"
    using p assms(5) unfolding ip4_reass_def Let_def make_room_def by (simp add: f e)
  show "header_of P {j} H ?f" using carries_first [OF assms(1-3)] p(3) by (auto simp: header_of_def)
qed

section \<open>All pieces, in any order\<close>

text \<open>Packets arrive one after the other, each in a chain of so many pbufs.\<close>

fun receive :: "(bytes \<times> nat) list \<Rightarrow> reass \<Rightarrow> reass \<times> bytes option list" where
  "receive [] s = (s, [])"
| "receive ((p, clen) # ps) s = (let (s, r) = ip4_reass p clen s; (s, rs) = receive ps s in (s, r # rs))"

lemma clens_insert: "finite I \<Longrightarrow> j \<notin> I \<Longrightarrow> clens C (insert j I) = clens C I + of_nat (C j)"
  by (simp add: clens_def)

lemma pbufs_fit:
  assumes "unat n0 + sum C {..<k} \<le> IP_REASS_MAX_PBUFS" "insert j I \<subseteq> {..<k}" "j \<notin> I"
  shows "unat (n0 + clens C I) + C j \<le> IP_REASS_MAX_PBUFS"
proof -
  have "finite I" using assms(2) finite_subset by auto
  then have "sum C I + C j = sum C (insert j I)" using assms(3) by simp
  also have "\<dots> \<le> sum C {..<k}" using assms(2) by (intro sum_mono2) auto
  finally have "unat n0 + sum C I + C j \<le> IP_REASS_MAX_PBUFS" using assms(1) by simp
  moreover have "unat (n0 + clens C I) \<le> unat n0 + unat (clens C I)" by (simp add: unat_word_ariths)
  moreover have "unat (clens C I) \<le> sum C I" unfolding clens_def unat_of_nat by (rule mod_less_eq_dividend)
  ultimately show ?thesis by simp
qed

lemma receive_rest:
  assumes "pieces D k" "\<forall>i<k. carries H D k i (P i)" "unat (rs_pbufcount s) + sum C {..<k} \<le> IP_REASS_MAX_PBUFS"
  shows "set js \<subseteq> {..<k} - I \<Longrightarrow> set js \<union> I = {..<k} \<Longrightarrow> distinct js \<Longrightarrow> js \<noteq> [] \<Longrightarrow> I \<noteq> {} \<Longrightarrow> header_of P I H h \<Longrightarrow>
    receive (map (\<lambda>i. (P i, C i)) js) (s\<lparr>rs_list := entry D C k I h # rs_list s, rs_pbufcount := rs_pbufcount s + clens C I\<rparr>) =
    (s, replicate (length js - 1) None @ [Some (rebuilt D k (take IP_HLEN (P 0)))])"
proof (induction js arbitrary: I h)
  case (Cons j js)
  let ?s = "s\<lparr>rs_list := entry D C k I h # rs_list s, rs_pbufcount := rs_pbufcount s + clens C I\<rparr>"
  have j: "j < k" "j \<notin> I" "I \<subseteq> {..<k}" "finite I" using Cons.prems(1,2) finite_subset [of I "{..<k}"] by auto
  have r: "unat (rs_pbufcount ?s) + C j \<le> IP_REASS_MAX_PBUFS" using pbufs_fit [OF assms(3), of j I] j by simp
  have l: "rs_list ?s = entry D C k I h # rs_list s" by simp
  obtain h' where h': "ip4_reass (P j) (C j) ?s = reass_into 0 (P j) (C j) (?s\<lparr>rs_list := entry D C k I h' # rs_list s\<rparr>)" "header_of P (insert j I) H h'"
    by (rule reass_next [OF assms(1) j(1-3) assms(2) l Cons.prems(6) r])
  have "carries H D k j (P j)" using assms(2) j(1) by simp
  note c = this
  let ?t = "?s\<lparr>rs_list := entry D C k I h' # rs_list s\<rparr>"
  have "rs_list ?t = entry D C k I h' # rs_list s" by simp
  note step = trans [OF h'(1) reass_into_entry [OF assms(1) j(1-3) c this]]
  show ?case
  proof (cases js)
    case Nil
    then have a: "insert j I = {..<k}" using Cons.prems(2) by auto
    then have "0 \<in> insert j I" using j(1) by auto
    then have "h' = take IP_HLEN (P 0)" using h'(2) by (simp only: header_of_def if_True)
    moreover have "?t\<lparr>rs_list := rs_list s, rs_pbufcount := rs_pbufcount ?t + of_nat (C j) - clens C {..<k}\<rparr> = s"
      using clens_insert [OF j(4,2), of C] a by simp
    ultimately show ?thesis using step unfolding if_P [OF a] Nil by (simp add: Let_def)
  next
    case js: (Cons j' js')
    then have a: "insert j I \<noteq> {..<k}" using Cons.prems(1,3) by auto
    have "?t\<lparr>rs_list := entry D C k (insert j I) h' # rs_list s, rs_pbufcount := rs_pbufcount ?t + of_nat (C j)\<rparr> =
        s\<lparr>rs_list := entry D C k (insert j I) h' # rs_list s, rs_pbufcount := rs_pbufcount s + clens C (insert j I)\<rparr>"
      using clens_insert [OF j(4,2), of C] by simp
    note step = step [unfolded if_not_P [OF a] this]
    have "set js \<subseteq> {..<k} - insert j I" "set js \<union> insert j I = {..<k}" "distinct js" "js \<noteq> []" "insert j I \<noteq> {}"
      using Cons.prems(1-3) js by auto
    note Cons.IH [OF this h'(2)]
    then show ?thesis using step js by (simp add: Let_def)
  qed
qed simp

lemma receive_all:
  assumes "pieces D k" "\<forall>i<k. carries H D k i (P i)" "unat (rs_pbufcount s) + sum C {..<k} \<le> IP_REASS_MAX_PBUFS"
    "\<forall>e\<in>set (rs_list s). \<not> IP_ADDRESSES_AND_ID_MATCH (rd_iphdr e) H" "length (rs_list s) < MEMP_NUM_REASSDATA"
    "distinct js" "set js = {..<k}" "1 < k"
  shows "receive (map (\<lambda>i. (P i, C i)) js) s = (s, replicate (k - 1) None @ [Some (rebuilt D k (take IP_HLEN (P 0)))])"
proof -
  have n: "length js = k" using assms(6,7) distinct_card by fastforce
  then obtain j js' where js: "js = j # js'" "js' \<noteq> []" using assms(8) by (metis One_nat_def length_0_conv length_Cons less_irrefl not_less_zero remdups_adj.cases)
  have j: "j < k" "j \<notin> {}" "{} \<subseteq> {..<k}" using assms(7) js by auto
  then have c: "carries H D k j (P j)" using assms(2) by simp
  let ?s = "s\<lparr>rs_list := entry D C k {} (take IP_HLEN (P j)) # rs_list s\<rparr>"
  have r: "unat (rs_pbufcount s) + C j \<le> IP_REASS_MAX_PBUFS" using pbufs_fit [OF assms(3), of j "{}"] j by (simp add: clens_def)
  have l: "rs_list ?s = entry D C k {} (take IP_HLEN (P j)) # rs_list s" by simp
  have a: "{j} \<noteq> {..<k}"
  proof
    assume "{j} = {..<k}"
    then have "card {j} = card {..<k}" by (rule arg_cong)
    then show False using assms(8) by simp
  qed
  note new = reass_new [where P = P and C = C, OF assms(1) j(1) c assms(4) r assms(5)]
  note step = trans [OF new(1) reass_into_entry [OF assms(1) j c l], unfolded if_not_P [OF a]]
  have s: "?s\<lparr>rs_list := entry D C k {j} (take IP_HLEN (P j)) # rs_list s, rs_pbufcount := rs_pbufcount ?s + of_nat (C j)\<rparr> =
      s\<lparr>rs_list := entry D C k {j} (take IP_HLEN (P j)) # rs_list s, rs_pbufcount := rs_pbufcount s + clens C {j}\<rparr>"
    by (simp add: clens_def)
  have "set js' \<subseteq> {..<k} - {j}" "set js' \<union> {j} = {..<k}" "distinct js'" "{j} \<noteq> {}" using assms(6,7) js by auto
  note rest = receive_rest [OF assms(1-3) this(1-3) js(2) this(4) new(2)]
  have "k - 1 = Suc (length js' - 1)" using n js by (cases js') auto
  then show ?thesis using step [unfolded s] rest js(1) by (simp add: Let_def)
qed

section \<open>What is sent\<close>

lemma mirror_takes:
  assumes "\<forall>i. ok i"
  shows "0 < left \<Longrightarrow> poff \<le> length (hd ps) \<Longrightarrow> poff + left \<le> length (concat ps) \<Longrightarrow> \<forall>p\<in>set ps. length p < 65536 \<Longrightarrow>
    \<exists>ps' poff' k'. mirror ok left ps poff acc k = Done (acc @ take left (drop poff (concat ps)), ps', poff', k') \<and>
      drop poff' (concat ps') = drop (poff + left) (concat ps) \<and> poff' \<le> length (hd ps') \<and> (\<forall>p\<in>set ps'. length p < 65536)"
proof (induction ps arbitrary: left poff acc k)
  case (Cons p ps)
  define n where "n = min left (length p - poff)"
  have "length p < 65536" "poff \<le> length p" using Cons.prems(2,4) by simp_all
  then have "length p + 65536 - poff = length p - poff + 65536" "length p - poff < 65536" by linarith+
  then have pl: "(length p + 65536 - poff) mod 65536 = length p - poff" by (simp only: mod_add_self2 mod_less)
  have allow: "ok k = True" using assms by simp
  have m: "mirror ok left (p # ps) poff acc k =
     (if n = 0 then mirror ok left ps 0 acc k
      else if left - n = 0 then Done (acc @ take n (drop poff p), p # ps, poff + n, k + 1)
      else mirror ok (left - n) ps 0 (acc @ take n (drop poff p)) (k + 1))"
    unfolding mirror.simps Let_def pl n_def by (simp only: allow not_True_eq_False if_False)
  show ?case
  proof (cases "left \<le> length p - poff")
    case True
    then have "n = left" by (simp add: n_def)
    moreover have "poff + left \<le> length p" using True Cons.prems(1) by simp
    ultimately show ?thesis using Cons.prems m by simp
  next
    case False
    then have n: "n = length p - poff" "0 < left - n" by (auto simp: n_def)
    have d: "drop poff (concat (p # ps)) = drop poff p @ concat ps" "drop (poff + left) (concat (p # ps)) = drop (0 + (left - n)) (concat ps)"
      using Cons.prems(2) n False by (simp_all add: add.commute)
    have "0 + (left - n) \<le> length (concat ps)" "0 \<le> length (hd ps)" "\<forall>p\<in>set ps. length p < 65536" using Cons.prems(2-4) n by auto
    note IH = Cons.IH [OF n(2) this(2,1,3)]
    have "mirror ok left (p # ps) poff acc k = mirror ok (left - n) ps 0 (acc @ drop poff p) (if n = 0 then k else k + 1)"
      using m n by (cases "n = 0") auto
    moreover have "acc @ take left (drop poff (concat (p # ps))) = (acc @ drop poff p) @ take (left - n) (drop 0 (concat ps))"
      using n False unfolding d(1) by simp
    ultimately show ?thesis unfolding d(2) using IH [of "acc @ drop poff p" "if n = 0 then k else k + 1"] by (simp only:)
  qed
qed simp

text \<open>The pieces of a packet, and the fragments.\<close>

definition chunk :: "nat \<Rightarrow> bytes \<Rightarrow> nat \<Rightarrow> bytes" where
  "chunk n d i = take n (drop (i * n) d)"

definition fragment :: "nat \<Rightarrow> bytes \<Rightarrow> bytes \<Rightarrow> nat \<Rightarrow> nat \<Rightarrow> bytes" where
  "fragment nfb hdr d k i =
     renew_header ((IP_OFFMASK AND of_nat (i * nfb)) OR (if i = k - 1 then 0 else IP_MF)) (of_nat (length (chunk (nfb * 8) d i) + IP_HLEN)) hdr @ chunk (nfb * 8) d i"

lemma length_chunk: "length (chunk n d i) = min n (length d - i * n)"
  by (simp add: chunk_def)

lemma frag_loop_sends:
  assumes "\<forall>i. ok i" and nfb: "nfb = (mtu - IP_HLEN) div 8" and "0 < nfb"
    and k: "\<And>j. j * (nfb * 8) < length d \<longleftrightarrow> j < k"
    and rest: "\<And>j. j < k \<Longrightarrow> \<not> (nfb * 8 < length d - j * (nfb * 8) \<and> length d - j * (nfb * 8) \<le> mtu - IP_HLEN)"
  shows "j \<le> k \<Longrightarrow> drop poff (concat ps) = drop (j * (nfb * 8)) d \<Longrightarrow> poff \<le> length (hd ps) \<Longrightarrow> \<forall>p\<in>set ps. length p < 65536 \<Longrightarrow>
    frag_loop ok mtu hdr False (length d - j * (nfb * 8)) (of_nat (j * nfb)) ps poff sent c = Some (Done (sent @ map (fragment nfb hdr d k) [j..<k], ERR_OK))"
proof (induction "k - j" arbitrary: j poff ps sent c)
  case 0
  then have "length d - j * (nfb * 8) = 0" "[j..<k] = []" using k [of j] by auto
  then show ?case by (subst frag_loop.simps) simp
next
  case (Suc m)
  let ?n = "nfb * 8" and ?l = "length d - j * (nfb * 8)"
  have j: "j < k" "j * ?n < length d" using Suc.hyps(2) k [of j] by auto
  then have l: "?l \<noteq> 0" "0 < min ?l ?n" using assms(3) by auto
  have "ps \<noteq> []" using Suc.prems(2) j by (cases ps) auto
  then have "length (hd ps) \<le> length (concat ps)" by (cases ps) auto
  moreover have "length (concat ps) - poff = ?l" using arg_cong [OF Suc.prems(2), of length] by simp
  ultimately have p: "poff + min ?l ?n \<le> length (concat ps)" using Suc.prems(3) by linarith
  have t: "take (min ?l ?n) (drop poff (concat ps)) = chunk ?n d j" unfolding Suc.prems(2) chunk_def by (simp add: take_all_iff min_def)
  obtain ps' poff' c' where m: "mirror ok (min ?l ?n) ps poff [] (c + 1) = Done (chunk ?n d j, ps', poff', c')"
    "drop poff' (concat ps') = drop (poff + min ?l ?n) (concat ps)" "poff' \<le> length (hd ps')" "\<forall>p\<in>set ps'. length p < 65536"
    using mirror_takes [OF assms(1) l(2) Suc.prems(3) p Suc.prems(4), of "[]" "c + 1"] unfolding t by auto
  have d: "drop poff' (concat ps') = drop (Suc j * ?n) d"
  proof -
    have "drop poff' (concat ps') = drop (min ?l ?n) (drop (j * ?n) d)" using m(2) Suc.prems(2) by (metis add.commute drop_drop)
    also have "\<dots> = drop (Suc j * ?n) d" by (simp add: min_def add.commute)
    finally show ?thesis .
  qed
  have s: "?l - min ?l ?n = length d - Suc j * ?n" by simp
  have last: "?l \<le> mtu - IP_HLEN \<longleftrightarrow> j = k - 1"
  proof -
    have "?n \<le> mtu - IP_HLEN" unfolding nfb by (rule div_times_less_eq_dividend)
    then have "?l \<le> mtu - IP_HLEN \<longleftrightarrow> ?l \<le> ?n" using rest [OF j(1)] by linarith
    also have "\<dots> \<longleftrightarrow> \<not> Suc j * ?n < length d" using j(2) by auto
    also have "\<dots> \<longleftrightarrow> j = k - 1" using k [of "Suc j"] j(1) by auto
    finally show ?thesis .
  qed
  have f: "renew_header ((IP_OFFMASK AND of_nat (j * nfb)) OR (if \<not> ?l \<le> mtu - IP_HLEN \<or> False then IP_MF else 0)) (of_nat (min ?l ?n + IP_HLEN)) hdr @ chunk ?n d j
      = fragment nfb hdr d k j"
    unfolding last fragment_def length_chunk by (simp add: min.commute)
  have o: "of_nat (j * nfb) + of_nat nfb = (of_nat (Suc j * nfb) :: u16)" by simp
  have allow: "ok c = True" using assms(1) by simp
  have "frag_loop ok mtu hdr False ?l (of_nat (j * nfb)) ps poff sent c =
      frag_loop ok mtu hdr False (length d - Suc j * ?n) (of_nat (Suc j * nfb)) ps' poff' (sent @ [fragment nfb hdr d k j]) c'"
    by (subst frag_loop.simps) (simp only: Let_def nfb [symmetric] allow l(1) l(2) [THEN less_imp_neq, symmetric] if_False not_True_eq_False m(1) outcome.case prod.case f o s)
  also have "\<dots> = Some (Done ((sent @ [fragment nfb hdr d k j]) @ map (fragment nfb hdr d k) [Suc j..<k], ERR_OK))"
    by (rule Suc.hyps(1)) (use Suc.hyps(2) j d m in auto)
  also have "\<dots> = Some (Done (sent @ map (fragment nfb hdr d k) [j..<k], ERR_OK))" using j(1) by (simp add: upt_conv_Cons)
  finally show ?case .
qed

section \<open>The header of a fragment\<close>

lemma header_cases:
  assumes "length (h :: bytes) = 20"
  obtains a0 a1 a2 a3 a4 a5 a6 a7 a8 a9 b0 b1 b2 b3 b4 b5 b6 b7 b8 b9 where "h = [a0, a1, a2, a3, a4, a5, a6, a7, a8, a9, b0, b1, b2, b3, b4, b5, b6, b7, b8, b9]"
  using assms by (auto simp: numeral_eq_Suc length_Suc_conv)

lemma renew_list:
  obtains x y where "renew_header v n [a0, a1, a2, a3, a4, a5, a6, a7, a8, a9, b0, b1, b2, b3, b4, b5, b6, b7, b8, b9] =
     [a0, a1, ucast (drop_bit 8 n), ucast n, a4, a5, ucast (drop_bit 8 v), ucast v, a8, a9, x, y, b2, b3, b4, b5, b6, b7, b8, b9]"
  by (rule that) (simp add: renew_header_def Let_def IPH_CHKSUM_SET_def IPH_LEN_SET_def IPH_OFFSET_SET_def put_be16_def patch_def numeral_eq_Suc)

lemma renew_renew: "length h = 20 \<Longrightarrow> renew_header v n (renew_header w m h) = renew_header v n h"
proof (rule header_cases)
  fix a0 a1 a2 a3 a4 a5 a6 a7 a8 a9 b0 b1 b2 b3 b4 b5 b6 b7 b8 b9
  assume h: "h = [a0, a1, a2, a3, a4, a5, a6, a7, a8, a9, b0, b1, b2, b3, b4, b5, b6, b7, b8, b9]"
  obtain x y where r: "renew_header w m h = [a0, a1, ucast (drop_bit 8 m), ucast m, a4, a5, ucast (drop_bit 8 w), ucast w, a8, a9, x, y, b2, b3, b4, b5, b6, b7, b8, b9]"
    unfolding h by (rule renew_list)
  show ?thesis unfolding r h
    by (simp add: renew_header_def Let_def IPH_CHKSUM_SET_def IPH_LEN_SET_def IPH_OFFSET_SET_def put_be16_def patch_def numeral_eq_Suc)
qed

lemma get_be16_bytes: "get_be16 (ucast (drop_bit 8 v)) (ucast v) = (v :: u16)"
  by (rule bit_word_eqI) (auto simp: get_be16_def bit_or_iff bit_push_bit_iff bit_ucast_iff bit_drop_bit_eq)

lemma renew_fields:
  assumes "length h = 20"
  shows "length (renew_header v n h) = 20" "IPH_LEN (renew_header v n h @ d) = n" "IPH_OFFSET (renew_header v n h @ d) = v"
    "IPH_HL_BYTES (renew_header v n h @ d) = IPH_HL_BYTES h" "IP_ADDRESSES_AND_ID_MATCH (renew_header v n h @ d) h"
proof -
  obtain a0 a1 a2 a3 a4 a5 a6 a7 a8 a9 b0 b1 b2 b3 b4 b5 b6 b7 b8 b9 where
    h: "h = [a0, a1, a2, a3, a4, a5, a6, a7, a8, a9, b0, b1, b2, b3, b4, b5, b6, b7, b8, b9]" by (rule header_cases [OF assms])
  obtain x y where r: "renew_header v n h = [a0, a1, ucast (drop_bit 8 n), ucast n, a4, a5, ucast (drop_bit 8 v), ucast v, a8, a9, x, y, b2, b3, b4, b5, b6, b7, b8, b9]"
    unfolding h by (rule renew_list)
  show "length (renew_header v n h) = 20" "IPH_LEN (renew_header v n h @ d) = n" "IPH_OFFSET (renew_header v n h @ d) = v"
    "IPH_HL_BYTES (renew_header v n h @ d) = IPH_HL_BYTES h" "IP_ADDRESSES_AND_ID_MATCH (renew_header v n h @ d) h"
    unfolding r unfolding h IPH_LEN_def IPH_OFFSET_def IPH_HL_BYTES_def IP_ADDRESSES_AND_ID_MATCH_def slice_def
    by (simp_all add: get_be16_bytes)
qed

lemma offset_field:
  assumes "n < 8192" "f = 0 \<or> f = IP_MF"
  shows "unat (((IP_OFFMASK AND of_nat n) OR f) AND IP_OFFMASK) = n" "((IP_OFFMASK AND of_nat n) OR f) AND IP_MF = f"
proof -
  have m: "IP_OFFMASK = mask 13" by (simp add: IP_OFFMASK_def mask_eq_exp_minus_1)
  have f: "f AND IP_OFFMASK = 0" "f AND IP_MF = f" "IP_OFFMASK AND IP_MF = 0" using assms(2) by (auto simp: IP_MF_def IP_OFFMASK_def)
  have w: "(IP_OFFMASK AND w) AND IP_OFFMASK = IP_OFFMASK AND w" "(IP_OFFMASK AND w) AND IP_MF = 0" for w
    by (metis and.commute and.left_idem) (metis f(3) and.assoc and.commute and_zero_eq)
  have "((IP_OFFMASK AND of_nat n) OR f) AND IP_OFFMASK = IP_OFFMASK AND of_nat n"
    unfolding bit.conj_disj_distrib2 w f(1) by simp
  also have "\<dots> = take_bit 13 (of_nat n)" unfolding m by (simp add: take_bit_eq_mask and.commute)
  finally show "unat (((IP_OFFMASK AND of_nat n) OR f) AND IP_OFFMASK) = n"
    using assms(1) by (simp only: unsigned_take_bit_eq unat_of_nat) (simp add: take_bit_nat_eq_self)
  show "((IP_OFFMASK AND of_nat n) OR f) AND IP_MF = f"
    unfolding bit.conj_disj_distrib2 w f(2) by simp
qed

section \<open>The fragments of a packet are a cut of it\<close>

lemma off_chunk: "piece_off (chunk n d) i = min (i * n) (length d)"
  by (induction i) (auto simp: length_chunk)

lemma concat_chunk: "concat (map (chunk n d) [0..<i]) = take (i * n) d"
  by (induction i) (simp_all add: chunk_def take_add [symmetric] add.commute)

lemma fragment_carries:
  assumes "length hdr = 20" "IPH_HL_BYTES hdr = IP_HLEN" "length d \<le> 65515" "i * (nfb * 8) < length d"
  shows "carries hdr (chunk (nfb * 8) d) k i (fragment nfb hdr d k i)"
proof -
  let ?c = "chunk (nfb * 8) d i"
  define f where "f = (if i = k - 1 then 0 else IP_MF)"
  have f: "f = 0 \<or> f = IP_MF" by (simp add: f_def)
  have n: "i * nfb < 8192" using assms(3,4) by simp
  have "length ?c \<le> 65515" using assms(3) by (simp add: length_chunk)
  then have l: "unat (of_nat (length ?c + IP_HLEN) :: u16) = IP_HLEN + length ?c" by (simp add: IP_HLEN_def unat_of_nat del: of_nat_add of_nat_Suc)
  have o: "piece_off (chunk (nfb * 8) d) i = i * nfb * 8" using assms(4) by (simp add: off_chunk min_def)
  have m: "f = 0 \<longleftrightarrow> i = k - 1" by (simp add: f_def IP_MF_def)
  have d: "drop IP_HLEN (renew_header v m hdr @ ?c) = ?c" for v m using renew_fields(1) [OF assms(1), of v m] by (simp add: IP_HLEN_def)
  show ?thesis
    unfolding carries_def fragment_def f_def [symmetric] renew_fields [OF assms(1)] l offset_field [OF n f] o m d
    using assms(2) renew_fields(5) [OF assms(1)] by simp
qed

lemma fragments_pieces:
  assumes "\<And>j. j * n < length d \<longleftrightarrow> j < k" "length d \<le> 65515" "0 < n" shows "pieces (chunk n d) k"
proof -
  have "chunk n d i \<noteq> []" if "i < k" for i using assms(1) [of i] that assms(3) by (simp add: chunk_def)
  moreover have "piece_off (chunk n d) k \<le> 65515" using assms(2) by (simp add: off_chunk)
  ultimately show ?thesis by (simp add: pieces_def)
qed

lemma count_chunks:
  assumes "0 < (n :: nat)" shows "j * n < l \<longleftrightarrow> j < (l + n - 1) div n"
proof -
  have "j < (l + n - 1) div n \<longleftrightarrow> Suc j * n \<le> l + n - 1" using less_eq_div_iff_mult_less_eq [OF assms, of "Suc j" "l + n - 1"] by (simp add: Suc_le_eq)
  also have "\<dots> \<longleftrightarrow> j * n < l" using assms by auto
  finally show ?thesis by simp
qed

lemma no_short_rest:
  assumes "l mod ((m div 8) * 8) = 0 \<or> m mod 8 < l mod ((m div 8) * 8)" "8 \<le> m" "j * ((m div 8) * 8) < l"
  shows "\<not> ((m div 8) * 8 < l - j * ((m div 8) * 8) \<and> l - j * ((m div 8) * 8) \<le> (m :: nat))"
proof
  let ?n = "(m div 8) * 8"
  assume r: "?n < l - j * ?n \<and> l - j * ?n \<le> m"
  define x where "x = l - j * ?n - ?n"
  have m: "m = ?n + m mod 8" by (simp add: mult.commute)
  have x: "0 < x" "x \<le> m mod 8" using r m unfolding x_def by linarith+
  have n: "8 \<le> ?n" using assms(2) by (simp add: div_le_mono [of 8 m 8, simplified])
  have "m mod 8 < 8" by simp
  then have "x < ?n" using x n by linarith
  moreover have "l = x + Suc j * ?n" using r unfolding x_def mult_Suc by linarith
  ultimately have "l mod ?n = x" by (metis mod_less mod_mult_self1)
  then show False using assms(1) x by linarith
qed

text \<open>Any order of the fragments is an order of their numbers.\<close>

lemma reorder: "mset ys = mset (map P xs) \<Longrightarrow> \<exists>js. mset js = mset xs \<and> map P js = ys"
proof (induction ys arbitrary: xs)
  case (Cons y ys)
  have "y \<in># mset (map P xs)" using Cons.prems [symmetric] by simp
  then obtain x where x: "x \<in> set xs" "y = P x" by auto
  then have "mset xs = add_mset x (mset (remove1 x xs))" by simp
  moreover from this have "mset (map P xs) = add_mset y (mset (map P (remove1 x xs)))" using x(2) by (simp only: mset_map image_mset_add_mset)
  ultimately have "add_mset y (mset ys) = add_mset y (mset (map P (remove1 x xs)))" using Cons.prems by (simp only: mset.simps)
  then have "mset ys = mset (map P (remove1 x xs))" by (simp only: add_mset_add_mset_same_iff)
  then obtain js where js: "mset js = mset (remove1 x xs)" "map P js = ys" using Cons.IH by blast
  have "mset (x # js) = mset xs" using js(1) x(1) by simp
  moreover have "map P (x # js) = y # ys" using js(2) x(2) by simp
  ultimately show ?case by (intro exI [of _ "x # js"] conjI)
qed simp

lemma arrivals:
  assumes "mset (map fst as) = mset (map P [0..<k])"
  obtains js C where "as = map (\<lambda>i. (P i, C i)) js" "distinct js" "set js = {..<k}" "sum C {..<k} = sum_list (map snd as)"
proof -
  obtain js where m: "mset js = mset [0..<k]" and p: "map P js = map fst as" using reorder [OF assms] by auto
  have js: "distinct js" "set js = {..<k}"
    using mset_eq_imp_distinct_iff [OF m] mset_eq_setD [OF m] by (simp_all add: atLeast0LessThan)
  define C where "C i = the (map_of (zip js (map snd as)) i)" for i
  have l: "length js = length as" using p by (metis length_map)
  have c: "map C js = map snd as"
    by (rule nth_equalityI) (use l js(1) in \<open>auto simp: C_def map_of_zip_nth\<close>)
  have "as = map (\<lambda>i. (P i, C i)) js"
  proof (rule nth_equalityI)
    fix n assume n: "n < length as"
    then have "P (js ! n) = fst (as ! n)" "C (js ! n) = snd (as ! n)" using p c l by (metis nth_map)+
    then show "as ! n = map (\<lambda>i. (P i, C i)) js ! n" using n l by simp
  qed (simp add: l)
  moreover have "sum C {..<k} = sum_list (map snd as)" using js by (simp add: c [symmetric] sum_list_distinct_conv_sum_set)
  ultimately show ?thesis using that js by blast
qed

text \<open>A packet as \<open>ip4_output_if\<close> builds it: header and data, the length and the checksum right, not a fragment itself.\<close>

definition ip_packet :: "bytes list \<Rightarrow> bool" where
  "ip_packet ps \<longleftrightarrow> ps \<noteq> [] \<and> IPH_HL_BYTES (hd ps) = IP_HLEN \<and> IP_HLEN \<le> length (hd ps) \<and> length (concat ps) \<le> 65535 \<and>
     take IP_HLEN (hd ps) = renew_header 0 (of_nat (length (concat ps))) (take IP_HLEN (hd ps))"

lemma packet_parts:
  assumes "ip_packet ps"
  shows "concat ps = take IP_HLEN (hd ps) @ drop IP_HLEN (concat ps)" "length (take IP_HLEN (hd ps)) = 20" "\<forall>p\<in>set ps. length p < 65536"
    "IPH_OFFSET (take IP_HLEN (hd ps)) = 0"
proof -
  obtain p qs where ps: "ps = p # qs" "IP_HLEN \<le> length p" using assms by (cases ps) (auto simp: ip_packet_def)
  then show "concat ps = take IP_HLEN (hd ps) @ drop IP_HLEN (concat ps)" by simp
  show l: "length (take IP_HLEN (hd ps)) = 20" using ps by (simp add: IP_HLEN_def)
  have "length (concat ps) \<le> 65535" using assms by (simp only: ip_packet_def)
  moreover have "length p \<le> length (concat ps)" if "p \<in> set ps" for p using that by (simp add: length_concat member_le_sum_list)
  ultimately show "\<forall>p\<in>set ps. length p < 65536" by fastforce
  have "take IP_HLEN (hd ps) = renew_header 0 (of_nat (length (concat ps))) (take IP_HLEN (hd ps)) @ []" using assms by (simp add: ip_packet_def)
  then show "IPH_OFFSET (take IP_HLEN (hd ps)) = 0" using renew_fields(3) [OF l] by metis
qed

lemma cut_sent:
  assumes "\<forall>i. ok i" "ip_packet ps" "28 \<le> mtu"
    and n: "n = (mtu - IP_HLEN) div 8 * 8" and d: "d = drop IP_HLEN (concat ps)"
    and rest: "length d mod n = 0 \<or> (mtu - IP_HLEN) mod 8 < length d mod n"
    and k: "k = (length d + n - 1) div n"
  shows "ip4_frag ok mtu ps = Some (Done (map (fragment ((mtu - IP_HLEN) div 8) (take IP_HLEN (hd ps)) d k) [0..<k], ERR_OK))"
proof -
  let ?h = "take IP_HLEN (hd ps)" and ?nfb = "(mtu - IP_HLEN) div 8"
  have m: "8 \<le> mtu - IP_HLEN" using assms(3) by (simp add: IP_HLEN_def)
  then have nfb: "0 < ?nfb" by (simp add: div_greater_zero_iff)
  have kc: "j * (?nfb * 8) < length d \<longleftrightarrow> j < k" for j unfolding k n using nfb by (intro count_chunks) simp
  have r: "\<not> (?nfb * 8 < length d - j * (?nfb * 8) \<and> length d - j * (?nfb * 8) \<le> mtu - IP_HLEN)" if "j < k" for j
    using no_short_rest [OF rest [unfolded n] m, of j] kc [of j] that by simp
  have h: "IPH_HL_BYTES ?h = IP_HLEN" "\<not> length (hd ps) < IP_HLEN" using assms(2) by (simp_all add: ip_packet_def)
  have "drop IP_HLEN (concat ps) = drop (0 * (?nfb * 8)) d" by (simp add: d)
  note s = frag_loop_sends [OF assms(1) refl nfb kc r le0 this _ packet_parts(3) [OF assms(2)], of ?h "[]" 0]
  have "length (concat ps) - IP_HLEN = length d - 0 * (?nfb * 8)" by (simp add: d)
  then show ?thesis using h s unfolding ip4_frag_def Let_def packet_parts(4) [OF assms(2)] by simp
qed

text \<open>The fragments come back as the packet.\<close>

lemma fragments_back:
  assumes "ip_packet ps" "28 \<le> mtu" "mtu < length (concat ps)"
    "\<forall>e\<in>set (rs_list s). \<not> IP_ADDRESSES_AND_ID_MATCH (rd_iphdr e) (hd ps)" "length (rs_list s) < MEMP_NUM_REASSDATA"
    and n: "n = (mtu - IP_HLEN) div 8 * 8" and d: "d = drop IP_HLEN (concat ps)" and k: "k = (length d + n - 1) div n"
    and F: "F = fragment ((mtu - IP_HLEN) div 8) (take IP_HLEN (hd ps)) d k"
  shows "1 < k" "\<forall>f\<in>set (map F [0..<k]). length f \<le> mtu"
    "\<And>as. mset (map fst as) = mset (map F [0..<k]) \<Longrightarrow> unat (rs_pbufcount s) + sum_list (map snd as) \<le> IP_REASS_MAX_PBUFS \<Longrightarrow>
       receive as s = (s, replicate (k - 1) None @ [Some (concat ps)])"
proof -
  let ?h = "take IP_HLEN (hd ps)" and ?nfb = "(mtu - IP_HLEN) div 8"
  have l: "length d = length (concat ps) - IP_HLEN" by (simp add: d)
  note parts = packet_parts [OF assms(1)]
  have m: "n \<le> mtu - IP_HLEN" "0 < n" using assms(2) by (simp_all add: n IP_HLEN_def div_greater_zero_iff)
  have kc: "j * n < length d \<longleftrightarrow> j < k" for j unfolding k using m(2) by (rule count_chunks)
  have "length (concat ps) \<le> 65535" using assms(1) by (simp only: ip_packet_def)
  then have size: "length d \<le> 65515" by (simp only: l IP_HLEN_def)
  have "1 * n < length d" using m assms(3) l by (simp add: IP_HLEN_def)
  then show k1: "1 < k" unfolding kc .
  have hl: "IPH_HL_BYTES ?h = IP_HLEN" using assms(1) by (simp add: ip_packet_def)
  have carry: "\<forall>i<k. carries ?h (chunk n d) k i (F i)"
    using fragment_carries [OF parts(2) hl size] kc unfolding n F by blast
  show "\<forall>f\<in>set (map F [0..<k]). length f \<le> mtu"
    using renew_fields(1) [OF parts(2)] m(1) assms(2) by (auto simp: F fragment_def length_chunk IP_HLEN_def n [symmetric])
  have off: "piece_off (chunk n d) k = length d" using kc [of k] by (simp add: off_chunk)
  have "take IP_HLEN (F 0) = renew_header ((IP_OFFMASK AND of_nat (0 * ?nfb)) OR (if 0 = k - 1 then 0 else IP_MF)) (of_nat (length (chunk n d 0) + IP_HLEN)) ?h"
    using renew_fields(1) [OF parts(2)] by (simp add: F fragment_def IP_HLEN_def n)
  then have "rebuilt (chunk n d) k (take IP_HLEN (F 0)) = renew_header 0 (of_nat (length d) + of_nat IP_HLEN) ?h @ d"
    using kc [of k] by (simp only: rebuilt_def off renew_renew [OF parts(2)] concat_chunk) simp
  also have "of_nat (length d) + of_nat IP_HLEN = (of_nat (length (concat ps)) :: u16)"
    using arg_cong [OF parts(1), of length] parts(2) by (simp add: d IP_HLEN_def)
  also have "renew_header 0 (of_nat (length (concat ps))) ?h @ d = concat ps" using parts(1) assms(1) by (simp add: ip_packet_def d)
  finally have whole: "rebuilt (chunk n d) k (take IP_HLEN (F 0)) = concat ps" .
  have other: "\<forall>e\<in>set (rs_list s). \<not> IP_ADDRESSES_AND_ID_MATCH (rd_iphdr e) ?h" using assms(4) by simp
  fix as assume a: "mset (map fst as) = mset (map F [0..<k])" "unat (rs_pbufcount s) + sum_list (map snd as) \<le> IP_REASS_MAX_PBUFS"
  obtain js C where js: "as = map (\<lambda>i. (F i, C i)) js" "distinct js" "set js = {..<k}" "sum C {..<k} = sum_list (map snd as)" by (rule arrivals [OF a(1)])
  have c: "unat (rs_pbufcount s) + sum C {..<k} \<le> IP_REASS_MAX_PBUFS" using a(2) js(4) by simp
  show "receive as s = (s, replicate (k - 1) None @ [Some (concat ps)])"
    using receive_all [OF fragments_pieces [OF kc size m(2)] carry c other assms(5) js(2,3) k1] whole js(1) by simp
qed


text \<open>A packet with \<open>n\<close> bytes of data in two pbufs.\<close>

definition sample_header :: bytes where
  "sample_header = [0x45, 0, 0, 0, 0x12, 0x34, 0, 0, 64, 17, 0, 0, 10, 8, 0, 2, 10, 8, 0, 1]"

definition sample_packet :: "nat \<Rightarrow> bytes list" where
  "sample_packet n = [renew_header 0 (of_nat (n + 20)) sample_header @ [1, 2, 3, 4, 5], map of_nat [6..<n + 1]]"

lemma sample_header_parts: "length sample_header = 20" "IPH_HL_BYTES sample_header = IP_HLEN"
  by (simp_all add: sample_header_def IPH_HL_BYTES_def IP_HLEN_def)

lemma length_sample: "5 \<le> n \<Longrightarrow> length (concat (sample_packet n)) = n + 20"
  using renew_fields(1) [OF sample_header_parts(1)] by (simp add: sample_packet_def)

lemma sample_ok:
  assumes "5 \<le> n" "n \<le> 65515" shows "ip_packet (sample_packet n)"
proof -
  note r = renew_fields [OF sample_header_parts(1)] renew_renew [OF sample_header_parts(1)] sample_header_parts(2)
  show ?thesis unfolding ip_packet_def length_sample [OF assms(1)] unfolding sample_packet_def
    using assms(2) r by (simp add: IP_HLEN_def del: of_nat_add)
qed


section \<open>A short rest\<close>

text \<open>Nineteen bytes of data with an MTU of 31: eleven bytes fit behind a header, but a fragment carries eight.  When eleven bytes are left the second fragment is taken
  for the last one; the third is marked as the last as well.  The receiver is content with the first two and delivers a packet that is three bytes short.\<close>

lemma short_rest_cut:
  defines "h \<equiv> renew_header 0 39 sample_header"
  shows "ip4_frag (\<lambda>_. True) 31 (sample_packet 19) =
     Some (Done ([renew_header 0x2000 28 h @ [1, 2, 3, 4, 5, 6, 7, 8], renew_header 1 28 h @ [9, 10, 11, 12, 13, 14, 15, 16], renew_header 2 23 h @ [17, 18, 19]], ERR_OK))"
proof -
  have h: "length h = 20" "IPH_HL_BYTES h = 20" "IPH_OFFSET h = 0"
    using renew_fields(1) [OF sample_header_parts(1)] renew_fields(3,4) [OF sample_header_parts(1), of 0 39 "[]"] sample_header_parts(2)
    by (simp_all add: h_def IP_HLEN_def)
  have s: "sample_packet 19 = [h @ [1, 2, 3, 4, 5], [6, 7, 8, 9, 10, 11, 12, 13, 14, 15, 16, 17, 18, 19]]"
    by (simp add: sample_packet_def h_def upt_rec)
  show ?thesis unfolding s ip4_frag_def
    by (simp add: h IP_HLEN_def Let_def frag_loop.simps IP_OFFMASK_def IP_MF_def)
qed

lemma short_rest_loses:
  defines "h \<equiv> renew_header 0 39 sample_header"
  shows "\<exists>p. receive [(renew_header 0x2000 28 h @ [1, 2, 3, 4, 5, 6, 7, 8], 1), (renew_header 1 28 h @ [9, 10, 11, 12, 13, 14, 15, 16], 1)] reass_static =
      (reass_static, [None, Some p]) \<and> length p = 36"
proof -
  let ?d = "[1, 2, 3, 4, 5, 6, 7, 8, 9, 10, 11, 12, 13, 14, 15, 16] :: bytes"
  have h: "length h = 20" "IPH_HL_BYTES h = IP_HLEN"
    using renew_fields(1) [OF sample_header_parts(1)] renew_fields(4) [OF sample_header_parts(1), of 0 39 "[]"] sample_header_parts(2)
    by (simp_all add: h_def)
  have kc: "j * (1 * 8) < length ?d \<longleftrightarrow> j < 2" for j by auto
  have p: "pieces (chunk (1 * 8) ?d) 2" by (rule fragments_pieces [OF kc]) simp_all
  have c: "\<forall>i<2. carries h (chunk (1 * 8) ?d) 2 i (fragment 1 h ?d 2 i)" using fragment_carries [OF h, of ?d _ 1 2] kc by simp
  have f: "fragment 1 h ?d 2 0 = renew_header 0x2000 28 h @ [1, 2, 3, 4, 5, 6, 7, 8]" "fragment 1 h ?d 2 1 = renew_header 1 28 h @ [9, 10, 11, 12, 13, 14, 15, 16]"
    by (simp_all add: fragment_def chunk_def IP_MF_def IP_OFFMASK_def IP_HLEN_def)
  have "receive (map (\<lambda>i. (fragment 1 h ?d 2 i, 1)) [0, 1]) reass_static =
      (reass_static, replicate (2 - 1) None @ [Some (rebuilt (chunk (1 * 8) ?d) 2 (take IP_HLEN (fragment 1 h ?d 2 0)))])"
    by (rule receive_all [OF p c]) (auto simp: reass_static_def IP_REASS_MAX_PBUFS_def MEMP_NUM_REASSDATA_def)
  moreover have "length (rebuilt (chunk (1 * 8) ?d) 2 (take IP_HLEN (fragment 1 h ?d 2 0))) = 36"
    using renew_fields(1) [OF h(1)] renew_renew [OF h(1)] unfolding rebuilt_def f concat_chunk by (simp add: IP_HLEN_def)
  ultimately show ?thesis unfolding list.map f by simp
qed

end
