(* ===== verification/Lwip_Udp_Correct.thy ===== *)
theory Lwip_Udp_Correct
  imports Lwip_Udp Lwip_Frag_Correct
begin

text \<open>
  The way of a datagram from one stack to another: the header sums are those the other side expects, and what is sent from a port to an address
  and a port reaches the pcb that is bound there.  The pcbs of a stack never share an address and a port.
\<close>

section \<open>Checksums\<close>

lemma inet_chksum_val: "length d < 65536 \<Longrightarrow> unat (inet_chksum at_odd d) = 65535 - oc (lsum d)"
  unfolding inet_chksum_def unat_not16 by (simp only: standard_chksum_val)

lemma pseudo_chksum_val:
  assumes "length (concat (map snd p)) < 65536"
  shows "unat (ip_chksum_pseudo p proto len src dest) =
    65535 - oc (lsum (U32TO8_LITTLE src) + lsum (U32TO8_LITTLE dest) + lsum (concat (map snd p)) + 256 * unat proto + 256 * unat len)"
proof -
  let ?d = "concat (map snd p)"
  have l: "list_all (\<lambda>(_, q). length q < 65536) p" using assms by (induction p) auto
  have a: "unat (pseudo_acc src dest) \<le> 65535" unfolding pseudo_acc_val by (rule oc_le)
  obtain acc sw where c: "chain_chksum p (pseudo_acc src dest) False = (acc, sw)" by fastforce
  have v: "unat acc \<le> 65535" "oc (half sw * unat acc) = oc (unat (pseudo_acc src dest) + lsum ?d)"
    using chain_chksum_val [OF l a c] by simp_all
  have "oc (half sw * unat acc) = oc (lsum (U32TO8_LITTLE src) + lsum (U32TO8_LITTLE dest) + lsum ?d)"
    unfolding v(2) pseudo_acc_val by (rule oc_add)
  from pseudo_end [OF unswap [OF v(1) this], of proto len] show ?thesis
    unfolding ip_chksum_pseudo_def inet_chksum_pseudo_def inet_cksum_pseudo_base_def Let_def c prod.case .
qed

text \<open>A sum and its complement make all ones.\<close>

lemma oc_fill: "0 < n \<Longrightarrow> oc (n + (65535 - oc n)) = 65535"
proof -
  assume n: "0 < n"
  have "(oc n + (65535 - oc n)) = 65535" using oc_le [of n] by simp
  then show ?thesis using oc_add [of n "65535 - oc n"] by (simp add: oc_small)
qed

lemma oc_full: "0 < n \<Longrightarrow> oc n = 65535 \<Longrightarrow> oc (n + 65535) = 65535"
  using oc_add [of n 65535] by (simp add: oc_def)

lemma unat_shift: "unat (drop_bit n w) = unat w div 2 ^ n"
  by (simp only: unat_drop_bit_eq) (simp add: drop_bit_eq_div)

lemma halves: "unat (ucast v :: u8) = unat v mod 256" "unat (ucast (drop_bit 8 v) :: u8) = unat v div 256" for v :: u16
proof -
  show "unat (ucast v :: u8) = unat v mod 256" by (simp add: unsigned_ucast_eq take_bit_eq_mod)
  have "unat v div 256 < 256" using u16_le [of v] by (simp add: div_less_iff_less_mult)
  then have "unat (drop_bit 8 v) mod 256 = unat v div 256" unfolding unat_shift by simp
  moreover have "unat (ucast (drop_bit 8 v) :: u8) = unat (drop_bit 8 v) mod 256" unfolding unsigned_ucast_eq by (simp add: take_bit_eq_mod)
  ultimately show "unat (ucast (drop_bit 8 v) :: u8) = unat v div 256" by simp
qed

lemma lsum_be: "lsum (be16_bytes v @ r) = unat (lwip_htons v) + lsum r"
  using oc_swap [OF u16_le [of v]] unfolding be16_bytes_def append_Cons append_Nil lsum.simps halves(2) unfolding halves(1) unat_htons by simp

lemma lsum_le: "lsum (le16_bytes v @ r) = unat v + lsum r"
  unfolding le16_bytes_def append_Cons append_Nil lsum.simps halves(2) unfolding halves(1) by simp

lemma lsum_even: "even (length a) \<Longrightarrow> lsum (a @ r) = lsum a + lsum r"
  by (induction a rule: lsum.induct) auto

lemma htons_pair: "unat (lwip_htons (ucast b OR push_bit 8 (ucast a))) = unat a + 256 * unat b" for a b :: u8
proof -
  have "ucast (drop_bit 8 (ucast b OR push_bit 8 (ucast a) :: u16)) = a" "ucast (ucast b OR push_bit 8 (ucast a) :: u16) = b"
    by (rule bit_word_eqI, auto simp: bit_simps dest: bit_imp_le_length)+
  then show ?thesis using lsum_be [of "ucast b OR push_bit 8 (ucast a)" "[]"] by (simp add: be16_bytes_def)
qed

text \<open>The two folds at the end of the sum over the header fields.\<close>

lemma inline_fold:
  fixes x :: u32 assumes "unat x \<le> 65535 * 65536"
  shows "unat (ucast (NOT (drop_bit 16 (drop_bit 16 x + (x AND 0xFFFF)) + (drop_bit 16 x + (x AND 0xFFFF)))) :: u16) = 65535 - oc (unat x)"
proof -
  define y where "y = drop_bit 16 x + (x AND 0xFFFF)"
  have y: "unat y = unat x mod 65536 + unat x div 65536" using unat_fold [of x] by (simp add: FOLD_U32T_def y_def)
  define n where "n = unat y"
  have n: "n \<le> 131070" "oc n = oc (unat x)" using assms y oc_fold [of x] by (simp_all add: n_def)
  have "unat (drop_bit 16 y + y) = n div 65536 + n"
  proof -
    have "n div 65536 \<le> n" by simp
    then have "n div 65536 + n < 4294967296" using n(1) by linarith
    then show ?thesis unfolding unat_plus_if' unat_shift n_def by simp
  qed
  then have "unat (ucast (drop_bit 16 y + y) :: u16) = (n div 65536 + n) mod 65536"
    by (simp add: unsigned_ucast_eq take_bit_eq_mod)
  also have "\<dots> = oc n"
  proof (cases "n \<le> 65535")
    case False
    then have "n = 65536 + (n - 65536)" "n - 65536 \<le> 65534" using n(1) by linarith+
    then obtain m where m: "n = 65536 + m" "m \<le> 65534" by blast
    then have "n div 65536 = 1" by (intro div_nat_eqI) simp_all
    then have "(n div 65536 + n) mod 65536 = (Suc m + 65536) mod 65536" using m(1) by simp
    also have "\<dots> = Suc m" using m(2) by (simp only: mod_add_self2) simp
    finally show ?thesis using m by (simp add: oc_def)
  qed (simp add: oc_small)
  finally have "unat (NOT (ucast (drop_bit 16 y + y)) :: u16) = 65535 - oc (unat x)" unfolding unat_not16 n(2) by simp
  moreover have "ucast (NOT (drop_bit 16 y + y)) = NOT (ucast (drop_bit 16 y + y) :: u16)" by (rule bit_word_eqI) (auto simp: bit_simps)
  ultimately show ?thesis unfolding y_def by simp
qed

lemma unat_u16_u32: "unat (ucast x :: u32) = unat x" for x :: u16
  using u16_le [of x] by (simp add: unsigned_ucast_eq take_bit_nat_eq_self)

lemma high_part: "drop_bit 16 x AND 0xFFFF = drop_bit 16 x" for x :: u32
  by (rule bit_word_eqI) (auto simp: and_FFFF bit_simps dest: bit_imp_le_length)

text \<open>The sum of the header without its checksum.\<close>

definition header_sum :: "u8 \<Rightarrow> u8 \<Rightarrow> u8 \<Rightarrow> u16 \<Rightarrow> u16 \<Rightarrow> u32 \<Rightarrow> u32 \<Rightarrow> nat" where
  "header_sum tos ttl proto len ident src dest =
     (0x45 + 256 * unat tos) + unat (lwip_htons len) + unat (lwip_htons ident) + (unat ttl + 256 * unat proto)
       + lsum (U32TO8_LITTLE src) + lsum (U32TO8_LITTLE dest)"

lemma inline_chksum_val:
  "unat (inline_chksum tos ttl proto len ident src dest) = 65535 - oc (header_sum tos ttl proto len ident src dest)"
proof -
  define x where "x = ucast (lwip_htons (ucast proto OR push_bit 8 (ucast ttl))) + (dest AND 0xFFFF) + drop_bit 16 dest
     + ucast (lwip_htons (ucast tos OR push_bit 8 0x45)) + ucast (lwip_htons len) + ucast (lwip_htons ident) + (src AND 0xFFFF) + drop_bit 16 src"
  note b = lsum_U32TO8 [of dest, unfolded high_part] lsum_U32TO8 [of src, unfolded high_part]
  have p: "unat (lwip_htons (ucast tos OR push_bit 8 0x45)) = 0x45 + 256 * unat tos" using htons_pair [where a = "0x45" and b = tos] by simp
  have le: "unat (lwip_htons v) \<le> 65535" for v by (rule u16_le)
  have "unat x = header_sum tos ttl proto len ident src dest"
    using b(2,3,5,6) le [of len] le [of ident] le [of "ucast proto OR push_bit 8 (ucast ttl)"] le [of "ucast tos OR push_bit 8 0x45"]
    unfolding x_def header_sum_def b(1,4) [symmetric] p [symmetric] htons_pair [where a = ttl and b = proto, symmetric]
    by (simp add: unat_plus_if' unat_u16_u32)
  moreover have "header_sum tos ttl proto len ident src dest \<le> 65535 * 65536"
    using b le [of len] le [of ident] u8_lt [of tos] u8_lt [of ttl] u8_lt [of proto] unfolding header_sum_def by linarith
  ultimately show ?thesis using inline_fold [where x = x] unfolding inline_chksum_def Let_def x_def [symmetric] by simp
qed

lemma length_ip_header: "length (ip4_make_header tos ttl proto len ident src dest) = 20"
  by (simp add: ip4_make_header_def be16_bytes_def le16_bytes_def U32TO8_LITTLE_def)

lemma header_chksum_ok: "inet_chksum at_odd (ip4_make_header tos ttl proto len ident src dest) = 0"
proof -
  let ?n = "header_sum tos ttl proto len ident src dest" and ?h = "ip4_make_header tos ttl proto len ident src dest"
  have e: "even (length (U32TO8_LITTLE a))" for a by (simp add: U32TO8_LITTLE_def)
  have z: "lwip_htons 0 = 0" by (simp add: lwip_htons_def)
  have "lsum ?h = ?n + (65535 - oc ?n)"
    unfolding ip4_make_header_def by (simp add: lsum_be lsum_le lsum_even e z inline_chksum_val header_sum_def)
  then have "oc (lsum ?h) = 65535" using oc_fill [of ?n] by (simp add: header_sum_def)
  then show ?thesis using inet_chksum_val [of ?h at_odd] by (simp add: length_ip_header unat_eq_zero)
qed

section \<open>A datagram\<close>

lemma length_udp_header: "length (udp_make_header sp dp len chk) = 8"
  by (simp add: udp_make_header_def be16_bytes_def le16_bytes_def)

lemma udp_header_patch: "patch 6 (le16_bytes chk) (udp_make_header sp dp len 0 @ x) = udp_make_header sp dp len chk @ x"
  by (simp add: udp_make_header_def be16_bytes_def le16_bytes_def numeral_eq_Suc)

text \<open>The checksum the sender puts in.\<close>

definition udp_sum :: "u32 \<Rightarrow> u32 \<Rightarrow> u16 \<Rightarrow> bytes \<Rightarrow> nat" where
  "udp_sum src dst len d = lsum (U32TO8_LITTLE src) + lsum (U32TO8_LITTLE dst) + lsum d + 256 * unat IP_PROTO_UDP + 256 * unat len"

lemma lsum_udp: "lsum (udp_make_header sp dp len chk @ d) = lsum (udp_make_header sp dp len 0 @ d) + unat chk"
  by (simp add: udp_make_header_def lsum_be lsum_le)

lemma udp_chksum_ok:
  fixes c :: u16
  assumes "unat c = 65535 - oc (udp_sum src dst len (udp_make_header sp dp len 0 @ d))" "length d \<le> 65507"
    "concat (map snd q) = udp_make_header sp dp len (if c = 0 then 0xFFFF else c) @ d"
  shows "ip_chksum_pseudo q IP_PROTO_UDP len src dst = 0"
proof -
  let ?n = "udp_sum src dst len (udp_make_header sp dp len 0 @ d)" and ?c = "if c = 0 then 0xFFFF else c"
  have n: "0 < ?n" by (simp add: udp_sum_def IP_PROTO_UDP_def)
  have "oc (?n + unat ?c) = 65535"
  proof (cases "c = 0")
    case True
    then have "oc ?n = 65535" using assms(1) oc_le [of ?n] by simp
    then show ?thesis using oc_full [OF n] True by simp
  next
    case False
    then show ?thesis using oc_fill [OF n] assms(1) by simp
  qed
  moreover have "length (concat (map snd q)) < 65536" unfolding assms(3) using assms(2) by (simp add: length_udp_header)
  note pseudo_chksum_val [OF this, of IP_PROTO_UDP len src dst]
  ultimately have "unat (ip_chksum_pseudo q IP_PROTO_UDP len src dst) = 0"
    unfolding assms(3) lsum_udp [of sp dp len ?c d] udp_sum_def by (simp only: add_ac diff_self_eq_0)
  then show ?thesis by (simp add: unat_eq_zero)
qed

text \<open>A packet with a datagram: its sums are right whatever pbufs it lies in.\<close>

definition datagram :: "u32 \<Rightarrow> u32 \<Rightarrow> u16 \<Rightarrow> u16 \<Rightarrow> bytes \<Rightarrow> bytes \<Rightarrow> bool" where
  "datagram src dst sp dp d pkt \<longleftrightarrow> length d \<le> 65507 \<and>
     (\<exists>tos ttl ident chk. pkt = ip4_make_header tos ttl IP_PROTO_UDP (of_nat (length d + 28)) ident src dst @ udp_make_header sp dp (of_nat (length d + 8)) chk @ d \<and>
        (\<forall>q. concat (map snd q) = udp_make_header sp dp (of_nat (length d + 8)) chk @ d \<longrightarrow>
           chk = 0 \<or> ip_chksum_pseudo q IP_PROTO_UDP (of_nat (length d + 8)) src dst = 0))"

lemma chain_len_concat: "chain_len p = length (concat (map snd p))"
  by (induction p) (auto simp: chain_len_def)

lemma prepend_parts:
  assumes "udp_prepend v h p = Some (q, room)"
  obtains at_odd x r where "q = (at_odd, h @ x) # r" "x @ concat (map snd r) = concat (map snd p)"
    "room = (if p \<noteq> [] \<and> length h \<le> ie_headroom v \<and> length h + chain_len p \<le> 0xFFFF then ie_headroom v - length h else IP_HLEN + PBUF_LINK_HLEN)"
proof (cases "add_header (ie_headroom v) h p")
  case None
  have "(if chain_len p \<noteq> 0 then (False, h) # p else [(False, h)]) = q" "room = IP_HLEN + PBUF_LINK_HLEN"
    using assms None by (auto simp: udp_prepend_def split: if_splits)
  moreover have "\<not> (p \<noteq> [] \<and> length h \<le> ie_headroom v \<and> length h + chain_len p \<le> 0xFFFF)"
    using None by (auto simp: add_header_def split: list.splits prod.splits if_splits)
  ultimately show ?thesis using that [of False "[]" "if chain_len p \<noteq> 0 then p else []"] by (auto simp: chain_len_concat split: if_splits)
next
  case (Some q')
  then have "q = q'" "room = ie_headroom v - length h" using assms by (simp_all add: udp_prepend_def)
  moreover obtain at_odd x r where "p = (at_odd, x) # r" "q' = (at_odd, h @ x) # r" "length h \<le> ie_headroom v \<and> length h + chain_len p \<le> 0xFFFF"
    using Some by (auto simp: add_header_def split: list.splits prod.splits if_splits)
  ultimately show ?thesis using that [of at_odd x r] by simp
qed

lemma send_makes_datagram:
  assumes "us_pcb (ls_udp a) i = Some pcb" "u_local_port pcb \<noteq> 0" "p \<noteq> []" "28 \<le> ie_headroom v \<or> ie_headroom v < 8 \<and> ie_pbuf v" "chain_len p \<le> 65507"
  obtains q v' where "datagram src dst (u_local_port pcb) dp (concat (map snd p)) (concat (map snd q))" "q \<noteq> []" "28 \<le> length (snd (hd q))"
    "udp_sendto_if_src v i p dst dp n src a =
       Option.bind (netif_output v' q dst n ((ls_ip a)\<lparr>ip_id := ip_id (ls_ip a) + 1\<rparr>)) (\<lambda>(ip, err). Some (a\<lparr>ls_ip := ip\<rparr>, err))"
    "ie_output v' = ie_output v" "ie_frag v' = ie_frag v"
proof -
  let ?d = "concat (map snd p)" and ?sp = "u_local_port pcb"
  let ?len = "of_nat (length ?d + 8) :: u16"
  have l: "chain_len p = length ?d" "length ?d \<le> 65507" using assms(5) by (simp_all add: chain_len_concat)
  have b: "bind_first i (ls_udp a) = (ls_udp a, ERR_OK)" using assms(1,2) by (simp add: bind_first_def)
  obtain q room where q: "udp_prepend v (udp_make_header ?sp dp ?len 0) p = Some (q, room)"
    using assms(3,4) l by (cases p) (auto simp: udp_prepend_def add_header_def length_udp_header split: option.splits)
  obtain at_odd x r where x: "q = (at_odd, udp_make_header ?sp dp ?len 0 @ x) # r" "x @ concat (map snd r) = ?d"
    "room = (if p \<noteq> [] \<and> length (udp_make_header ?sp dp ?len 0) \<le> ie_headroom v \<and> length (udp_make_header ?sp dp ?len 0) + chain_len p \<le> 0xFFFF
       then ie_headroom v - length (udp_make_header ?sp dp ?len 0) else IP_HLEN + PBUF_LINK_HLEN)"
    by (rule prepend_parts [OF q])
  have room: "20 \<le> room" using x(3) assms(3,4) l by (auto simp: length_udp_header IP_HLEN_def PBUF_LINK_HLEN_def)
  define c where "c = ip_chksum_pseudo q IP_PROTO_UDP ?len src dst"
  define chk where "chk = (if u_nochksum pcb then 0 else if c = 0 then 0xFFFF else c)"
  let ?h = "ip4_make_header (u_tos pcb) (u_ttl pcb) IP_PROTO_UDP (of_nat (length ?d + 28)) (ip_id (ls_ip a)) src dst"
  let ?u = "udp_make_header ?sp dp ?len chk"
  have c0: "concat (map snd q) = udp_make_header ?sp dp ?len 0 @ ?d" using x(1,2) by simp
  have "unat c = 65535 - oc (udp_sum src dst ?len (udp_make_header ?sp dp ?len 0 @ ?d))"
    using pseudo_chksum_val [of q IP_PROTO_UDP ?len src dst] l(2) unfolding c_def c0 udp_sum_def by (simp add: length_udp_header)
  then have "chk = 0 \<or> ip_chksum_pseudo q' IP_PROTO_UDP ?len src dst = 0" if "concat (map snd q') = ?u @ ?d" for q'
    using udp_chksum_ok [of c src dst ?len ?sp dp ?d q'] that l(2) by (auto simp: chk_def)
  then have "datagram src dst ?sp dp ?d (?h @ ?u @ ?d)" using l(2) unfolding datagram_def by blast
  moreover let ?q = "(at_odd, ?h @ ?u @ x) # r"
  have cq: "concat (map snd ?q) = ?h @ ?u @ ?d" using x(2) by simp
  moreover have "28 \<le> length (snd (hd ?q))" by (simp add: length_ip_header length_udp_header)
  moreover have "udp_sendto_if_src v i p dst dp n src a =
       Option.bind (netif_output (v\<lparr>ie_headroom := room\<rparr>) ?q dst n ((ls_ip a)\<lparr>ip_id := ip_id (ls_ip a) + 1\<rparr>)) (\<lambda>(ip, err). Some (a\<lparr>ls_ip := ip\<rparr>, err))"
  proof -
    let ?p = "(at_odd, ?u @ x) # r"
    have n: "chain_len ?p = length ?d + 8" unfolding chain_len_concat using arg_cong [OF x(2), of length] by (simp add: length_udp_header)
    have e: "chain_len ?p + IP_HLEN = length ?d + 28" unfolding n by (simp add: IP_HLEN_def)
    have "add_header room ?h ?p = Some ?q" using l(2) room n by (simp add: add_header_def length_ip_header)
    then have "ip4_output_if_src (v\<lparr>ie_headroom := room\<rparr>) ?p (Some src) (Some dst) (u_ttl pcb) (u_tos pcb) IP_PROTO_UDP n (ls_ip a) =
        netif_output (v\<lparr>ie_headroom := room\<rparr>) ?q dst n ((ls_ip a)\<lparr>ip_id := ip_id (ls_ip a) + 1\<rparr>)"
      unfolding ip4_output_if_src_def option.case Let_def e by (simp add: IP_PROTO_UDP_def IP_PROTO_TCP_def del: of_nat_add)
    moreover have "(fst (hd q), patch 6 (le16_bytes chk) (snd (hd q))) # tl q = ?p" by (simp add: x(1) udp_header_patch)
    moreover have "udp_sendto_if_src v i p dst dp n src a =
        Option.bind (ip4_output_if_src (v\<lparr>ie_headroom := room\<rparr>) ((fst (hd q), patch 6 (le16_bytes chk) (snd (hd q))) # tl q) (Some src) (Some dst)
          (u_ttl pcb) (u_tos pcb) IP_PROTO_UDP n (ls_ip a)) (\<lambda>(ip, err). Some (a\<lparr>ls_ip := ip\<rparr>, err))"
      unfolding udp_sendto_if_src_def Let_def b prod.case UDP_HLEN_def l(1) chk_def c_def
      using assms(1) q l(2) by (simp del: of_nat_add split del: if_split)
    ultimately show ?thesis by (simp only:)
  qed
  ultimately show ?thesis using that [of ?q "v\<lparr>ie_headroom := room\<rparr>"] by simp
qed

section \<open>The pcbs\<close>

text \<open>Two pcbs that would both take a datagram.\<close>

definition clash :: "udp_pcb \<Rightarrow> udp_pcb \<Rightarrow> bool" where
  "clash q r \<longleftrightarrow> u_local_port q = u_local_port r \<and> (u_local_ip q = u_local_ip r \<or> u_local_ip q = 0 \<or> u_local_ip r = 0)"

definition udp_wf :: "udp \<Rightarrow> bool" where
  "udp_wf u \<longleftrightarrow> distinct (us_list u) \<and> (\<forall>i\<in>set (us_list u). us_pcb u i \<noteq> None) \<and> UDP_LOCAL_PORT_RANGE_START \<le> us_port u \<and>
     (\<forall>i\<in>set (us_list u). \<forall>j\<in>set (us_list u). i \<noteq> j \<longrightarrow> (\<forall>q r. us_pcb u i = Some q \<longrightarrow> us_pcb u j = Some r \<longrightarrow> \<not> clash q r))"

definition takes :: "udp_pcb \<Rightarrow> lnetif \<Rightarrow> u32 \<Rightarrow> u16 \<Rightarrow> bool" where
  "takes q inp dst dp \<longleftrightarrow> u_local_port q = dp \<and> udp_input_local_match q inp False dst"

lemma takes_clash: "takes q inp dst dp \<Longrightarrow> takes r inp dst dp \<Longrightarrow> clash q r"
  by (auto simp: takes_def clash_def udp_input_local_match_def split: if_splits)

lemma find_pcb_none:
  "\<forall>k\<in>set ks. \<forall>q. m k = Some q \<longrightarrow> \<not> takes q inp dst dp \<Longrightarrow> find_pcb m inp False src dst sp dp uncon ks = (None, uncon)"
  by (induction ks) (auto simp: takes_def split: option.splits)

lemma find_pcb_one:
  assumes "m j = Some q" "takes q inp dst dp" "\<forall>k\<in>set ks. \<forall>r. k \<noteq> j \<longrightarrow> m k = Some r \<longrightarrow> \<not> takes r inp dst dp" "distinct ks" "j \<in> set ks"
    "\<not> u_connected q \<or> u_remote_port q = sp \<and> (u_remote_ip q = 0 \<or> u_remote_ip q = src)"
  obtains full uncon where "find_pcb m inp False src dst sp dp None ks = (full, uncon)" "(case full of None \<Rightarrow> uncon | Some i \<Rightarrow> full) = Some j"
    "\<forall>i. full = Some i \<longrightarrow> i = j"
  using assms(3-5)
proof (induction ks arbitrary: thesis)
  case (Cons k ks)
  show ?case
  proof (cases "k = j")
    case True
    then have "\<forall>k\<in>set ks. \<forall>r. m k = Some r \<longrightarrow> \<not> takes r inp dst dp" using Cons.prems(2,3) by auto
    note n = find_pcb_none [where m = m and src = src and sp = sp, OF this]
    show ?thesis
    proof (cases "u_remote_port q = sp \<and> (u_remote_ip q = 0 \<or> u_remote_ip q = src)")
      case True
      then show ?thesis using Cons.prems(1) [of "Some j"] assms(1,2) \<open>k = j\<close> by (simp add: takes_def Let_def)
    next
      case False
      then have "\<not> u_connected q" using assms(6) by blast
      then have "find_pcb m inp False src dst sp dp None (k # ks) = (None, Some j)"
        using n unfolding \<open>k = j\<close> find_pcb.simps assms(1) option.case Let_def if_not_P [OF False] if_P [OF assms(2) [unfolded takes_def]] by simp
      then show ?thesis using Cons.prems(1) [of None "Some j"] by simp
    qed
  next
    case False
    then have e: "find_pcb m inp False src dst sp dp None (k # ks) = find_pcb m inp False src dst sp dp None ks"
      using Cons.prems(2) by (auto simp: takes_def split: option.splits)
    have c: "\<forall>k\<in>set ks. \<forall>r. k \<noteq> j \<longrightarrow> m k = Some r \<longrightarrow> \<not> takes r inp dst dp" "distinct ks" "j \<in> set ks" using Cons.prems(2-4) False by auto
    show ?thesis by (rule Cons.IH [OF _ c]) (rule Cons.prems(1), simp_all only: e)
  qed
qed simp

section \<open>Receiving\<close>

lemma trim_concat: "concat (map snd (chain_trim n p)) = take n (concat (map snd p))"
  by (induction n p rule: chain_trim.induct) auto

lemma trim_hd: "p \<noteq> [] \<Longrightarrow> chain_trim n p \<noteq> [] \<and> fst (hd (chain_trim n p)) = fst (hd p) \<and> snd (hd (chain_trim n p)) = take n (snd (hd p))"
  by (cases p) (auto split: if_splits)

lemma remove_concat: "p \<noteq> [] \<Longrightarrow> n \<le> length (snd (hd p)) \<Longrightarrow> concat (map snd (remove_header n p)) = drop n (concat (map snd p))"
  by (cases p) (auto simp: remove_header_def)

lemma remove_hd: "p \<noteq> [] \<Longrightarrow> remove_header n p \<noteq> [] \<and> length (snd (hd (remove_header n p))) = length (snd (hd p)) - n"
  by (cases p) (auto simp: remove_header_def)

lemma first_part: "p \<noteq> [] \<Longrightarrow> n \<le> length (snd (hd p)) \<Longrightarrow> take n (snd (hd p)) = take n (concat (map snd p))"
  by (cases p) auto

lemma address_at: "U8TO32_LITTLE (drop 12 (ip4_make_header tos ttl proto len ident src dst @ r)) = src"
  "U8TO32_LITTLE (drop 16 (ip4_make_header tos ttl proto len ident src dst @ r)) = dst"
proof -
  let ?h = "ip4_make_header tos ttl proto len ident src dst"
  have "slice 12 4 ?h = U32TO8_LITTLE src" "slice 16 4 ?h = U32TO8_LITTLE dst"
    by (simp_all add: ip4_make_header_def be16_bytes_def le16_bytes_def slice_def U32TO8_LITTLE_def)
  then show "U8TO32_LITTLE (drop 12 (?h @ r)) = src" "U8TO32_LITTLE (drop 16 (?h @ r)) = dst"
    using U8TO32_at [of 12 ?h src r] U8TO32_at [of 16 ?h dst r] by (simp_all add: length_ip_header)
qed

lemma header_fields:
  "drop_bit 4 ((ip4_make_header tos ttl proto len ident src dst @ r) ! 0) = 4" "IPH_HL_BYTES (ip4_make_header tos ttl proto len ident src dst @ r) = 20"
  "IPH_LEN (ip4_make_header tos ttl proto len ident src dst @ r) = len" "IPH_OFFSET (ip4_make_header tos ttl proto len ident src dst @ r) = 0"
  "(ip4_make_header tos ttl proto len ident src dst @ r) ! 9 = proto"
  by (simp_all add: ip4_make_header_def be16_bytes_def le16_bytes_def IPH_HL_BYTES_def IPH_LEN_def IPH_OFFSET_def get_be16_bytes)
    (simp_all add: get_be16_def)

lemma udp_fields:
  "get_be16 ((udp_make_header sp dp len chk @ d) ! 0) ((udp_make_header sp dp len chk @ d) ! 1) = sp"
  "get_be16 ((udp_make_header sp dp len chk @ d) ! 2) ((udp_make_header sp dp len chk @ d) ! 3) = dp"
  "(udp_make_header sp dp len chk @ d) ! 6 \<noteq> 0 \<or> (udp_make_header sp dp len chk @ d) ! 7 \<noteq> 0 \<longleftrightarrow> chk \<noteq> 0"
proof -
  show "get_be16 ((udp_make_header sp dp len chk @ d) ! 0) ((udp_make_header sp dp len chk @ d) ! 1) = sp"
    "get_be16 ((udp_make_header sp dp len chk @ d) ! 2) ((udp_make_header sp dp len chk @ d) ! 3) = dp"
    by (simp_all add: udp_make_header_def be16_bytes_def le16_bytes_def get_be16_bytes)
  have "ucast chk = (0 :: u8) \<and> ucast (drop_bit 8 chk) = (0 :: u8) \<longleftrightarrow> chk = 0"
  proof
    assume "ucast chk = (0 :: u8) \<and> ucast (drop_bit 8 chk) = (0 :: u8)"
    then have "lsum (le16_bytes chk @ []) = 0" by (simp add: le16_bytes_def)
    then show "chk = 0" unfolding lsum_le by (simp add: unat_eq_zero)
  qed simp
  then show "(udp_make_header sp dp len chk @ d) ! 6 \<noteq> 0 \<or> (udp_make_header sp dp len chk @ d) ! 7 \<noteq> 0 \<longleftrightarrow> chk \<noteq> 0"
    by (auto simp: udp_make_header_def be16_bytes_def le16_bytes_def)
qed

lemma own_address:
  assumes "nf_ip n = a" "a \<noteq> 0" "a \<noteq> 0xFFFFFFFF" shows "\<not> ip4_addr_isbroadcast a n"
proof -
  have "NOT a \<noteq> 0"
  proof
    assume "NOT a = 0"
    then have "NOT (NOT a) = NOT 0" by (rule arg_cong)
    then show False using assms(3) by simp
  qed
  then show ?thesis using assms by (simp add: ip4_addr_isbroadcast_def ip4_addr_isbroadcast_u32_def)
qed

text \<open>The part of the receiver behind the checks of the IP header, for a pcb that takes the datagram.\<close>

definition pcb_for :: "udp \<Rightarrow> nat \<Rightarrow> udp_pcb \<Rightarrow> lnetif \<Rightarrow> u32 \<Rightarrow> u16 \<Rightarrow> u32 \<Rightarrow> u16 \<Rightarrow> bool" where
  "pcb_for u j q inp src sp dst dp \<longleftrightarrow> udp_wf u \<and> j \<in> set (us_list u) \<and> us_pcb u j = Some q \<and> takes q inp dst dp \<and>
     (\<not> u_connected q \<or> u_remote_port q = sp \<and> (u_remote_ip q = 0 \<or> u_remote_ip q = src))"

lemma deliver_datagram:
  assumes dg: "datagram src dst sp dp d (concat (map snd p))" and p: "p \<noteq> []" "28 \<le> length (snd (hd p))"
    and dst: "nf_ip inp = dst" "dst \<noteq> 0" "dst \<noteq> 0xFFFFFFFF" and raw: "raw \<noteq> RAW_INPUT_EATEN"
    and q: "pcb_for (ls_udp s) j q inp src sp dst dp" and recv: "u_recv q = Some f"
  obtains s' where "ip4_deliver v raw 20 p inp inp s = Some s'" "ls_ip s' = ip_emit [Udp_recv f d src sp] (ls_ip s)"
proof -
  obtain tos ttl ident chk where k: "length d \<le> 65507"
    "concat (map snd p) = ip4_make_header tos ttl IP_PROTO_UDP (of_nat (length d + 28)) ident src dst @ udp_make_header sp dp (of_nat (length d + 8)) chk @ d"
    "\<forall>q. concat (map snd q) = udp_make_header sp dp (of_nat (length d + 8)) chk @ d \<longrightarrow> chk = 0 \<or> ip_chksum_pseudo q IP_PROTO_UDP (of_nat (length d + 8)) src dst = 0"
    using dg unfolding datagram_def by blast
  let ?h = "ip4_make_header tos ttl IP_PROTO_UDP (of_nat (length d + 28)) ident src dst" and ?u = "udp_make_header sp dp (of_nat (length d + 8)) chk @ d"
  define r where "r = remove_header 20 p"
  have h: "take 20 (snd (hd p)) = ?h" using first_part [OF p(1), of 20] p(2) k(2) by (simp add: length_ip_header)
  have r: "concat (map snd r) = ?u" "r \<noteq> []" "8 \<le> length (snd (hd r))"
    using remove_concat [OF p(1), of 20] remove_hd [OF p(1), of 20] p(2) k(2) by (simp_all add: r_def length_ip_header)
  have chk: "chk = 0 \<or> ip_chksum_pseudo r IP_PROTO_UDP (of_nat (length d + 8)) src dst = 0" using k(3) r(1) by blast
  have nb: "ip4_addr_isbroadcast dst inp = False" using own_address [OF dst] by simp
  have others: "\<forall>k\<in>set (us_list (ls_udp s)). \<forall>r. k \<noteq> j \<longrightarrow> us_pcb (ls_udp s) k = Some r \<longrightarrow> \<not> takes r inp dst dp"
    using q takes_clash unfolding pcb_for_def udp_wf_def by blast
  obtain full uncon where f: "find_pcb (us_pcb (ls_udp s)) inp False src dst sp dp None (us_list (ls_udp s)) = (full, uncon)"
    "(case full of None \<Rightarrow> uncon | Some i \<Rightarrow> full) = Some j" "\<forall>i. full = Some i \<longrightarrow> i = j"
    using find_pcb_one [where m = "us_pcb (ls_udp s)", OF _ _ others] q unfolding pcb_for_def udp_wf_def by blast
  define s1 where "s1 = (case full of None \<Rightarrow> s | Some i \<Rightarrow> s\<lparr>ls_udp := (ls_udp s)\<lparr>us_list := i # remove1 i (us_list (ls_udp s))\<rparr>\<rparr>)"
  have s1: "us_pcb (ls_udp s1) j = Some q" "ls_ip s1 = ls_ip s" using q by (simp_all add: s1_def pcb_for_def split: option.split)
  have a: "U8TO32_LITTLE (drop 12 ?h) = src" "U8TO32_LITTLE (drop 16 ?h) = dst" using address_at [where r = "[]"] by simp_all
  have lu: "length ?u = length d + 8" "drop UDP_HLEN ?u = d" by (simp_all add: length_udp_header UDP_HLEN_def)
  have g: "\<not> (r = [] \<or> length (snd (hd r)) < UDP_HLEN)" using r(2,3) by (simp add: UDP_HLEN_def)
  have ck: "\<not> ((?u ! 6 \<noteq> 0 \<or> ?u ! 7 \<noteq> 0) \<and> ip_chksum_pseudo r IP_PROTO_UDP (of_nat (length d + 8)) src dst \<noteq> 0)"
    unfolding udp_fields using chk by blast
  have "udp_input w r ?h inp inp s = Some (s1\<lparr>ls_ip := ip_emit [Udp_recv f d src sp] (ls_ip s1)\<rparr>)" for w
    unfolding udp_input_def if_not_P [OF g] Let_def a r(1) nb udp_fields f(1) prod.case s1_def [symmetric] f(2) lu if_not_P [OF ck [unfolded udp_fields]]
    using s1(1) recv by simp
  moreover have "?h ! 9 = IP_PROTO_UDP" using header_fields(5) [where r = "[]"] by simp
  ultimately have "ip4_deliver v raw 20 p inp inp s = Some (s1\<lparr>ls_ip := ip_emit [Udp_recv f d src sp] (ls_ip s1)\<rparr>)"
    using raw unfolding ip4_deliver_def Let_def h r_def [symmetric] by simp
  then show ?thesis using that s1(2) by simp
qed

text \<open>The packet arrives whole, possibly with padding behind it.\<close>

lemma input_datagram:
  assumes dg: "datagram src dst sp dp d pkt" and p: "p \<noteq> []" "28 \<le> length (snd (hd p))" "concat (map snd p) = pkt @ z"
    and src: "\<not> ip4_addr_isbroadcast src inp" "\<not> ip4_addr_ismulticast src"
    and dst: "nf_ip inp = dst" "dst \<noteq> 0" "dst \<noteq> 0xFFFFFFFF" "\<not> ip4_addr_ismulticast dst" "netif_is_up inp" and raw: "raw \<noteq> RAW_INPUT_EATEN"
    and q: "pcb_for (ls_udp s) j q inp src sp dst dp" and recv: "u_recv q = Some f"
  obtains s' where "ip4_input v raw split p inp s = Some s'" "ls_ip s' = ip_emit [Udp_recv f d src sp] (ls_ip s)"
proof -
  obtain tos ttl ident chk where k: "length d \<le> 65507"
    "pkt = ip4_make_header tos ttl IP_PROTO_UDP (of_nat (length d + 28)) ident src dst @ udp_make_header sp dp (of_nat (length d + 8)) chk @ d"
    using dg unfolding datagram_def by blast
  let ?h = "ip4_make_header tos ttl IP_PROTO_UDP (of_nat (length d + 28)) ident src dst"
  define p' where "p' = (if length d + 28 < chain_len p then chain_trim (length d + 28) p else p)"
  have lp: "length pkt = length d + 28" by (simp add: k(2) length_ip_header length_udp_header)
  have h: "take 20 (snd (hd p)) = ?h" using first_part [OF p(1), of 20] p(2,3) k(2) by (simp add: length_ip_header)
  then obtain r where h': "snd (hd p) = ?h @ r" by (metis append_take_drop_id)
  have p': "p' \<noteq> []" "28 \<le> length (snd (hd p'))" "concat (map snd p') = pkt" "fst (hd p') = fst (hd p)"
    using trim_hd [OF p(1), of "length d + 28"] trim_concat [of "length d + 28" p] p lp unfolding p'_def chain_len_concat by auto
  have len: "unat (of_nat (length d + 28) :: u16) = length d + 28" using k(1) by (simp add: unat_of_nat del: of_nat_add)
  have g1: "\<not> (p = [] \<or> length (snd (hd p)) < IP_HLEN)" using p(1,2) by (simp add: IP_HLEN_def)
  have g2: "\<not> (20 > length (snd (hd p')) \<or> length d + 28 > chain_len p' \<or> 20 < IP_HLEN)" using p'(2,3) lp by (simp add: chain_len_concat IP_HLEN_def)
  have n: "input_netif dst inp (ls_ip s) = Some inp"
    using dst by (simp add: input_netif_def ip4_input_accept_def)
  obtain s' where s': "ip4_deliver v raw 20 p' inp inp s = Some s'" "ls_ip s' = ip_emit [Udp_recv f d src sp] (ls_ip s)"
    by (rule deliver_datagram [OF dg [folded p'(3)] p'(1,2) dst(1-3) raw q recv])
  have "ip4_input v raw split p inp s = ip4_deliver v raw 20 p' inp inp s"
    unfolding ip4_input_def if_not_P [OF g1] Let_def h' header_fields len p'_def [symmetric] if_not_P [OF g2] address_at n p'(4)
    using header_chksum_ok src p(1) by (simp add: length_ip_header IP_HLEN_def)
  then show ?thesis using that s' by simp
qed

section \<open>Fragments\<close>

text \<open>The header that was summed up field by field is the one the general checksum gives.\<close>

lemma header_renewed:
  "renew_header 0 len (ip4_make_header tos ttl proto len ident src dst) = ip4_make_header tos ttl proto len ident src dst"
proof -
  let ?z = "[0x45, tos] @ be16_bytes len @ be16_bytes ident @ be16_bytes 0 @ [ttl, proto] @ le16_bytes 0 @ U32TO8_LITTLE src @ U32TO8_LITTLE dst"
  have e: "even (length (U32TO8_LITTLE a))" for a by (simp add: U32TO8_LITTLE_def)
  have z: "lwip_htons 0 = 0" by (simp add: lwip_htons_def)
  have l: "length ?z < 65536" by (simp add: be16_bytes_def le16_bytes_def U32TO8_LITTLE_def)
  have "lsum ?z = header_sum tos ttl proto len ident src dst"
    by (simp add: lsum_be lsum_le lsum_even e z header_sum_def)
  then have "unat (inet_chksum False ?z) = unat (inline_chksum tos ttl proto len ident src dst)"
    unfolding inet_chksum_val [OF l] inline_chksum_val by (simp only:)
  then have c: "inet_chksum False ?z = inline_chksum tos ttl proto len ident src dst" by (simp add: word_unat_eq_iff)
  have z0: "IPH_CHKSUM_SET 0 (IPH_LEN_SET len (IPH_OFFSET_SET 0 (ip4_make_header tos ttl proto len ident src dst))) = ?z"
    by (simp add: IPH_CHKSUM_SET_def IPH_LEN_SET_def IPH_OFFSET_SET_def put_be16_def ip4_make_header_def be16_bytes_def le16_bytes_def U32TO8_LITTLE_def)
  have st: "IPH_CHKSUM_SET x ?z = [0x45, tos] @ be16_bytes len @ be16_bytes ident @ be16_bytes 0 @ [ttl, proto] @ le16_bytes x @ U32TO8_LITTLE src @ U32TO8_LITTLE dst" for x
    by (simp add: IPH_CHKSUM_SET_def be16_bytes_def le16_bytes_def)
  show ?thesis unfolding renew_header_def Let_def z0 c st unfolding ip4_make_header_def by (rule refl)
qed

text \<open>The checksum of a header with a new checksum is right.\<close>

lemma renewed_chksum_ok:
  assumes "length h = 20" "drop_bit 4 (h ! 0) = 4"
  shows "inet_chksum at_odd (renew_header v n h) = 0" "drop_bit 4 (renew_header v n h ! 0) = 4"
    "slice 12 4 (renew_header v n h) = slice 12 4 h" "slice 16 4 (renew_header v n h) = slice 16 4 h"
proof -
  obtain a0 a1 a2 a3 a4 a5 a6 a7 a8 a9 b0 b1 b2 b3 b4 b5 b6 b7 b8 b9 where
    h: "h = [a0, a1, a2, a3, a4, a5, a6, a7, a8, a9, b0, b1, b2, b3, b4, b5, b6, b7, b8, b9]" by (rule header_cases [OF assms(1)])
  let ?f = "\<lambda>x y. [a0, a1, ucast (drop_bit 8 n), ucast n, a4, a5, ucast (drop_bit 8 v), ucast v, a8, a9, x, y, b2, b3, b4, b5, b6, b7, b8, b9] :: bytes"
  define c where "c = inet_chksum False (?f 0 0)"
  have r: "renew_header v n h = ?f (ucast c) (ucast (drop_bit 8 c))"
    by (simp add: c_def h renew_header_def Let_def IPH_CHKSUM_SET_def IPH_LEN_SET_def IPH_OFFSET_SET_def put_be16_def)
  have "a0 \<noteq> 0" using assms(2) h by auto
  then have pos: "0 < lsum (?f 0 0)" by (simp add: unat_gt_0)
  have "lsum (?f (ucast c) (ucast (drop_bit 8 c))) = lsum (?f 0 0) + lsum (le16_bytes c @ [])" by (simp add: le16_bytes_def)
  also have "\<dots> = lsum (?f 0 0) + (65535 - oc (lsum (?f 0 0)))"
    using inet_chksum_val [of "?f 0 0" False] unfolding lsum_le c_def by simp
  finally have "oc (lsum (renew_header v n h)) = 65535" unfolding r using oc_fill [OF pos] by (simp only:)
  moreover have "length (renew_header v n h) < 65536" by (simp add: r)
  ultimately show "inet_chksum at_odd (renew_header v n h) = 0" using inet_chksum_val [of "renew_header v n h" at_odd] by (simp add: unat_eq_zero)
  show "drop_bit 4 (renew_header v n h ! 0) = 4" "slice 12 4 (renew_header v n h) = slice 12 4 h" "slice 16 4 (renew_header v n h) = slice 16 4 h"
    unfolding r using assms(2) by (simp_all add: h slice_def)
qed

text \<open>Reports of datagrams that were given up only accumulate.\<close>

definition reports_grow :: "reass \<Rightarrow> reass \<Rightarrow> bool" where
  "reports_grow s t \<longleftrightarrow> (\<exists>xs. rs_exceeded t = rs_exceeded s @ xs)"

lemma grow_refl: "rs_exceeded t = rs_exceeded s \<Longrightarrow> reports_grow s t"
  by (simp add: reports_grow_def)

lemma grow_trans: "reports_grow r s \<Longrightarrow> reports_grow s t \<Longrightarrow> reports_grow r t"
  by (auto simp: reports_grow_def)

lemma grow_free: "reports_grow s (fst (free_complete_datagram i s))"
  by (auto simp: reports_grow_def free_complete_datagram_def dequeue_datagram_def Let_def split: list.split)

lemma grow_remove: "reports_grow s (fst (remove_oldest h n m s))"
proof (induction h n m s rule: remove_oldest.induct)
  case (1 h n m s)
  obtain x others where x: "find_oldest h 0 None 0 (rs_list s) = (x, others)" by fastforce
  show ?case
  proof (cases x)
    case None
    then show ?thesis using x by (simp add: remove_oldest.simps [of h n m s] grow_refl)
  next
    case (Some i)
    obtain s' c where c: "free_complete_datagram i s = (s', c)" by fastforce
    then have g: "reports_grow s s'" using grow_free [of s i] by simp
    have f: "find_oldest h 0 None 0 (rs_list s) = (Some i, others)" using x Some by simp
    show ?thesis
    proof (cases "m + int (unat c) < n \<and> others > 1")
      case True
      then have "reports_grow s' (fst (remove_oldest h n (m + int (unat c)) s'))"
        using 1 [OF f [symmetric] refl c [symmetric] refl refl] by simp
      then show ?thesis using True g grow_trans by (simp add: remove_oldest.simps [of h n m s] f c Let_def)
    next
      case False
      then show ?thesis using g by (auto simp: remove_oldest.simps [of h n m s] f c Let_def)
    qed
  qed
qed

lemma grow_into: "rs_exceeded (fst (reass_into i p c s)) = rs_exceeded s"
  by (auto simp: reass_into_def Let_def drop_new_def dequeue_datagram_def split: outcome.split)

lemma grow_reass: "reports_grow s (fst (ip4_reass p c s))"
proof -
  obtain s1 ok where r: "make_room (take IP_HLEN p) c s = (s1, ok)" by fastforce
  have 1: "reports_grow s s1" using r grow_remove [of s "take IP_HLEN p" "int c" 0]
    by (auto simp: make_room_def Let_def split_beta grow_refl split: if_splits)
  obtain s2 ok2 where e: "enqueue_new_datagram (take IP_HLEN p) c s1 = (s2, ok2)" by fastforce
  have 2: "reports_grow s1 s2" using e grow_remove [of s1 "take IP_HLEN p" "int c" 0]
    by (auto simp: enqueue_new_datagram_def Let_def split_beta reports_grow_def split: if_splits)
  show ?thesis
    using 1 grow_trans [OF 1 2] unfolding ip4_reass_def Let_def r prod.case e
    by (auto simp: reports_grow_def grow_into split: option.split)
qed

text \<open>The chain \<open>p\<close> holds the packet \<open>f\<close>, possibly with padding behind it, and its first pbuf the headers.\<close>

definition holds :: "payload_chain \<Rightarrow> bytes \<Rightarrow> bool" where
  "holds p f \<longleftrightarrow> p \<noteq> [] \<and> min 28 (length f) \<le> length (snd (hd p)) \<and> (\<exists>z. concat (map snd p) = f @ z)"

definition cut_padding :: "bytes \<Rightarrow> payload_chain \<Rightarrow> payload_chain" where
  "cut_padding f p = (if length f < chain_len p then chain_trim (length f) p else p)"

lemma cut_padding:
  assumes "holds p f" shows "cut_padding f p \<noteq> []" "concat (map snd (cut_padding f p)) = f" "min 28 (length f) \<le> length (snd (hd (cut_padding f p)))"
    "fst (hd (cut_padding f p)) = fst (hd p)"
  using assms trim_hd [of p "length f"] trim_concat [of "length f" p] by (auto simp: holds_def cut_padding_def chain_len_concat)

lemma input_fragment:
  assumes f: "f = renew_header t (of_nat (20 + length c)) h @ c" "length c \<le> 65515" "t AND (IP_OFFMASK OR IP_MF) \<noteq> 0"
    and h: "length h = 20" "drop_bit 4 (h ! 0) = 4" "IPH_HL_BYTES h = IP_HLEN" "slice 12 4 h = U32TO8_LITTLE src" "slice 16 4 h = U32TO8_LITTLE dst"
    and p: "holds p f"
    and src: "\<not> ip4_addr_isbroadcast src inp" "\<not> ip4_addr_ismulticast src"
    and dst: "nf_ip inp = dst" "dst \<noteq> 0" "dst \<noteq> 0xFFFFFFFF" "\<not> ip4_addr_ismulticast dst" "netif_is_up inp"
    and r: "ip4_reass f (length (cut_padding f p)) (ip_reass (ls_ip s)) = (r, out)" "rs_exceeded r = rs_exceeded (ip_reass (ls_ip s))"
  shows "ip4_input v raw split p inp s =
    (let s = s\<lparr>ls_ip := (ls_ip s)\<lparr>ip_reass := r\<rparr>\<rparr> in case out of None \<Rightarrow> Some s | Some d \<Rightarrow> ip4_deliver v raw 20 (split d) inp inp s)"
proof -
  let ?h = "renew_header t (of_nat (20 + length c)) h"
  note fields = renew_fields [OF h(1)]
  have lf: "length f = 20 + length c" by (simp add: f(1) fields(1))
  have pp: "p \<noteq> []" "20 \<le> length (snd (hd p))" using p lf by (auto simp: holds_def)
  have "take 20 (snd (hd p)) = ?h" using first_part [OF pp] p f(1) fields(1) by (auto simp: holds_def)
  then obtain x where h': "snd (hd p) = ?h @ x" by (metis append_take_drop_id)
  have cp: "(if length f < chain_len p then chain_trim (length f) p else p) = cut_padding f p" by (simp add: cut_padding_def)
  have len: "unat (IPH_LEN (?h @ x)) = length f" using f(2) unfolding fields lf by (simp add: unat_of_nat del: of_nat_add)
  have hl: "IPH_HL_BYTES (?h @ x) = 20" unfolding fields using h(3) by (simp add: IP_HLEN_def)
  note cut = cut_padding [OF p]
  have g1: "\<not> (p = [] \<or> length (?h @ x) < IP_HLEN)" using pp by (simp add: fields(1) IP_HLEN_def)
  have g2: "\<not> (20 > length (snd (hd (cut_padding f p))) \<or> length f > chain_len (cut_padding f p) \<or> 20 < IP_HLEN)"
    using cut(2,3) lf by (simp add: chain_len_concat IP_HLEN_def)
  have v: "drop_bit 4 ((?h @ x) ! 0) = 4" using renewed_chksum_ok(2) [OF h(1,2)] fields(1) by (simp add: nth_append)
  have a: "U8TO32_LITTLE (drop 12 (?h @ x)) = src" "U8TO32_LITTLE (drop 16 (?h @ x)) = dst"
    using U8TO32_at [of 12 ?h src x] U8TO32_at [of 16 ?h dst x] renewed_chksum_ok(3,4) [OF h(1,2)] h(4,5) fields(1) by simp_all
  have o: "IPH_OFFSET (?h @ x) AND (IP_OFFMASK OR IP_MF) \<noteq> 0" using f(3) by (simp add: fields)
  have ck: "inet_chksum (fst (hd p)) (take 20 (?h @ x)) = 0" using renewed_chksum_ok(1) [OF h(1,2)] fields(1) by simp
  have n: "input_netif dst inp (ls_ip s) = Some inp" using dst by (simp add: input_netif_def ip4_input_accept_def)
  show ?thesis
    unfolding ip4_input_def h' if_not_P [OF g1] Let_def v len hl cp if_not_P [OF g2] cut(2,4) a n ck
    using src o r by simp
qed

fun ip4_inputs :: "ip_env \<Rightarrow> raw_input_state \<Rightarrow> (bytes \<Rightarrow> payload_chain) \<Rightarrow> payload_chain list \<Rightarrow> lnetif \<Rightarrow> lstack \<Rightarrow> lstack option" where
  "ip4_inputs v raw split [] inp s = Some s"
| "ip4_inputs v raw split (p # ps) inp s = Option.bind (ip4_input v raw split p inp s) (ip4_inputs v raw split ps inp)"

lemma grow_receive: "reports_grow s (fst (receive as s))"
proof (induction as arbitrary: s)
  case (Cons a as)
  obtain p c where a: "a = (p, c)" by fastforce
  then show ?case using grow_trans [OF grow_reass [of s p c] Cons [of "fst (ip4_reass p c s)"]] by (simp add: split_beta Let_def)
qed (simp add: grow_refl)

lemma length_receive: "length (snd (receive as u)) = length as"
proof (induction as arbitrary: u)
  case (Cons a as)
  then show ?case by (cases a) (simp add: split_beta Let_def)
qed simp

text \<open>A fragment of a datagram with the header \<open>h\<close>.\<close>

definition is_fragment :: "bytes \<Rightarrow> bytes \<Rightarrow> bool" where
  "is_fragment h f \<longleftrightarrow> (\<exists>t c. f = renew_header t (of_nat (20 + length c)) h @ c \<and> length c \<le> 65515 \<and> t AND (IP_OFFMASK OR IP_MF) \<noteq> 0)"

lemma input_fragments:
  assumes h: "length h = 20" "drop_bit 4 (h ! 0) = 4" "IPH_HL_BYTES h = IP_HLEN" "slice 12 4 h = U32TO8_LITTLE src" "slice 16 4 h = U32TO8_LITTLE dst"
    and src: "\<not> ip4_addr_isbroadcast src inp" "\<not> ip4_addr_ismulticast src"
    and dst: "nf_ip inp = dst" "dst \<noteq> 0" "dst \<noteq> 0xFFFFFFFF" "\<not> ip4_addr_ismulticast dst" "netif_is_up inp"
  shows "list_all2 (\<lambda>p f. holds p f \<and> is_fragment h f) ps fs \<Longrightarrow>
    receive (map2 (\<lambda>p f. (f, length (cut_padding f p))) ps fs) (ip_reass (ls_ip s)) = (r, replicate m None @ [Some d]) \<Longrightarrow>
    rs_exceeded r = rs_exceeded (ip_reass (ls_ip s)) \<Longrightarrow>
    ip4_inputs v raw split ps inp s = ip4_deliver v raw 20 (split d) inp inp (s\<lparr>ls_ip := (ls_ip s)\<lparr>ip_reass := r\<rparr>\<rparr>)"
proof (induction ps arbitrary: fs s m)
  case (Cons p ps)
  obtain f fs' where f: "fs = f # fs'" "holds p f" "is_fragment h f" "list_all2 (\<lambda>p f. holds p f \<and> is_fragment h f) ps fs'"
    using Cons.prems(1) by (cases fs) auto
  obtain t c where t: "f = renew_header t (of_nat (20 + length c)) h @ c" "length c \<le> 65515" "t AND (IP_OFFMASK OR IP_MF) \<noteq> 0"
    using f(3) unfolding is_fragment_def by blast
  obtain r1 out where o: "ip4_reass f (length (cut_padding f p)) (ip_reass (ls_ip s)) = (r1, out)" by fastforce
  let ?as = "map2 (\<lambda>p f. (f, length (cut_padding f p))) ps fs'"
  obtain rr outs where x: "receive ?as r1 = (rr, outs)" by fastforce
  have "receive (map2 (\<lambda>p f. (f, length (cut_padding f p))) (p # ps) fs) (ip_reass (ls_ip s)) = (rr, out # outs)" by (simp add: f(1) o x)
  then have eq: "rr = r" "out # outs = replicate m None @ [Some d]" using Cons.prems(2) by simp_all
  have rest: "receive ?as r1 = (r, tl (replicate m None @ [Some d]))" "out = hd (replicate m None @ [Some d])"
    unfolding eq(2) [symmetric] using x eq(1) by simp_all
  have "reports_grow (ip_reass (ls_ip s)) r1" "reports_grow r1 r" using grow_reass [of "ip_reass (ls_ip s)" f] grow_receive [of r1 ?as] o rest(1) by (metis fst_conv)+
  then obtain xs ys where "rs_exceeded r1 = rs_exceeded (ip_reass (ls_ip s)) @ xs" "rs_exceeded r = rs_exceeded r1 @ ys" unfolding reports_grow_def by blast
  then have e: "rs_exceeded r1 = rs_exceeded (ip_reass (ls_ip s))" using Cons.prems(3) by (metis append.assoc append_is_Nil_conv append_self_conv)
  note step = input_fragment [OF t h f(2) src dst o e, of v raw split]
  show ?case
  proof (cases m)
    case 0
    have "length ?as = 0" using length_receive [of ?as r1] rest(1) 0 by simp
    then have "ps = []" using list_all2_lengthD [OF f(4)] by simp
    moreover have "ip4_inputs v raw split [] inp = Some" by (rule ext) simp
    ultimately show ?thesis using step rest 0 by (simp add: Let_def)
  next
    case (Suc m')
    let ?s = "s\<lparr>ls_ip := (ls_ip s)\<lparr>ip_reass := r1\<rparr>\<rparr>"
    have "ip4_inputs v raw split ps inp ?s = ip4_deliver v raw 20 (split d) inp inp (?s\<lparr>ls_ip := (ls_ip ?s)\<lparr>ip_reass := r\<rparr>\<rparr>)"
      by (rule Cons.IH [OF f(4)]) (use rest(1) Suc e Cons.prems(3) in simp_all)
    then show ?thesis using step rest(2) Suc by (simp add: Let_def)
  qed
qed simp

text \<open>What the cut of a datagram's packet consists of.\<close>

lemma fragments_are: 
  assumes "k = (length d + nfb * 8 - 1) div (nfb * 8)" "0 < nfb" "length d \<le> 65515" "1 < k" "f \<in> set (map (fragment nfb h d k) [0..<k])"
  shows "is_fragment h f"
proof -
  obtain i where i: "i < k" "f = fragment nfb h d k i" using assms(5) by auto
  let ?c = "chunk (nfb * 8) d i"
  define x where "x = (if i = k - 1 then 0 else IP_MF)"
  have x: "x = 0 \<or> x = IP_MF" by (simp add: x_def)
  have "i * (nfb * 8) < length d" using count_chunks [of "nfb * 8" i "length d"] assms(1,2) i(1) by simp
  then have n: "i * nfb < 8192" using assms(3) by simp
  have "((IP_OFFMASK AND of_nat (i * nfb)) OR x) AND (IP_OFFMASK OR IP_MF) \<noteq> 0"
  proof (cases "i = k - 1")
    case True
    then have "0 < i * nfb" using assms(2,4) by simp
    then have "unat (((IP_OFFMASK AND of_nat (i * nfb)) OR x) AND IP_OFFMASK) \<noteq> 0" using offset_field(1) [OF n x] by simp
    then show ?thesis by (auto simp: bit.conj_disj_distrib or_eq_0_iff)
  next
    case False
    then have "((IP_OFFMASK AND of_nat (i * nfb)) OR x) AND IP_MF \<noteq> 0" using offset_field(2) [OF n x] by (simp add: x_def IP_MF_def)
    then show ?thesis by (auto simp: bit.conj_disj_distrib or_eq_0_iff)
  qed
  then show ?thesis unfolding is_fragment_def i(2) fragment_def x_def [symmetric]
    using assms(3) by (intro exI [of _ "(IP_OFFMASK AND of_nat (i * nfb)) OR x"] exI [of _ ?c]) (simp add: IP_HLEN_def length_chunk add.commute)
qed

lemma trim_length: "length (cut_padding f p) \<le> length p"
proof -
  have "length (chain_trim n p) \<le> length p" for n by (induction n p rule: chain_trim.induct) auto
  then show ?thesis by (simp add: cut_padding_def)
qed

lemma datagram_packet:
  assumes "datagram src dst sp dp d (concat (map snd q))" "q \<noteq> []" "28 \<le> length (snd (hd q))"
  obtains tos ttl ident where "ip_packet (map snd q)" "length (concat (map snd q)) = length d + 28"
    "take IP_HLEN (hd (map snd q)) = ip4_make_header tos ttl IP_PROTO_UDP (of_nat (length d + 28)) ident src dst"
proof -
  obtain tos ttl ident chk where k: "length d \<le> 65507"
    "concat (map snd q) = ip4_make_header tos ttl IP_PROTO_UDP (of_nat (length d + 28)) ident src dst @ udp_make_header sp dp (of_nat (length d + 8)) chk @ d"
    using assms(1) unfolding datagram_def by blast
  let ?h = "ip4_make_header tos ttl IP_PROTO_UDP (of_nat (length d + 28)) ident src dst"
  have hd: "hd (map snd q) = snd (hd q)" using assms(2) by (cases q) auto
  have l: "length (concat (map snd q)) = length d + 28" by (simp add: k(2) length_ip_header length_udp_header)
  have h: "take 20 (snd (hd q)) = ?h" using first_part [OF assms(2), of 20] assms(3) k(2) by (simp add: length_ip_header)
  then obtain r where h': "snd (hd q) = ?h @ r" by (metis append_take_drop_id)
  have "ip_packet (map snd q)"
    unfolding ip_packet_def hd l unfolding h' using assms(2) k(1) header_fields(2) header_renewed by (simp add: IP_HLEN_def length_ip_header del: of_nat_add)
  moreover have "take IP_HLEN (hd (map snd q)) = ?h" using h by (simp add: hd IP_HLEN_def)
  ultimately show ?thesis using that l by blast
qed

lemma make_header_slices:
  "slice 12 4 (ip4_make_header tos ttl proto len ident src dst) = U32TO8_LITTLE src" "slice 16 4 (ip4_make_header tos ttl proto len ident src dst) = U32TO8_LITTLE dst"
  by (simp_all add: ip4_make_header_def be16_bytes_def le16_bytes_def slice_def U32TO8_LITTLE_def)

section \<open>Ports are not shared\<close>

text \<open>The calls on a pcb of the pool, and what a datagram that comes in does to the list.\<close>

inductive udp_step :: "udp \<Rightarrow> udp \<Rightarrow> bool" where
  init: "udp_step u (fst (udp_init e u))"
| new: "udp_step u (fst (udp_new_ip_type u))"
| bind: "us_pcb u i \<noteq> None \<Longrightarrow> udp_step u (fst (udp_bind i a p u))"
| bind_netif: "us_pcb u i \<noteq> None \<Longrightarrow> udp_step u (udp_bind_netif i n u)"
| connect: "us_pcb u i \<noteq> None \<Longrightarrow> udp_step u (fst (udp_connect i a p u))"
| disconnect: "us_pcb u i \<noteq> None \<Longrightarrow> udp_step u (udp_disconnect i u)"
| recv: "us_pcb u i \<noteq> None \<Longrightarrow> udp_step u (udp_recv i f u)"
| remove: "us_pcb u i \<noteq> None \<Longrightarrow> udp_step u (udp_remove i u)"
| send: "udp_sendto v i c a p s = Some (s', err) \<Longrightarrow> udp_step (ls_udp s) (ls_udp s')"
| input: "ip4_input v raw split c n s = Some s' \<Longrightarrow> udp_step (ls_udp s) (ls_udp s')"

text \<open>No two pcbs of the list clash, and every pcb that has a port is on the list.\<close>

definition udp_inv :: "udp \<Rightarrow> bool" where
  "udp_inv u \<longleftrightarrow> udp_wf u \<and> (\<forall>i q. us_pcb u i = Some q \<longrightarrow> u_local_port q \<noteq> 0 \<longrightarrow> i \<in> set (us_list u))"

lemma inv_port: "udp_inv u \<Longrightarrow> UDP_LOCAL_PORT_RANGE_START \<le> p \<Longrightarrow> udp_inv (u\<lparr>us_port := p\<rparr>)"
  by (simp add: udp_inv_def udp_wf_def)

lemma inv_new:
  assumes "udp_inv u" "us_pcb u i = None" "u_local_port q = 0" shows "udp_inv (u\<lparr>us_pcb := (us_pcb u)(i \<mapsto> q)\<rparr>)"
proof -
  have "i \<notin> set (us_list u)" using assms by (auto simp: udp_inv_def udp_wf_def)
  then show ?thesis using assms(1,3) unfolding udp_inv_def udp_wf_def by auto
qed

lemma inv_keep:
  assumes "udp_inv u" "\<And>q. u_local_ip (f q) = u_local_ip q" "\<And>q. u_local_port (f q) = u_local_port q"
  shows "udp_inv (upd_pcb i f u)"
proof -
  have c: "clash (f q) r = clash q r" "clash r (f q) = clash r q" for q r using assms(2,3) by (simp_all add: clash_def)
  show ?thesis using assms(1) unfolding udp_inv_def udp_wf_def upd_pcb_def by (auto simp: c assms(3))
qed

lemma inv_order:
  assumes "udp_inv u" "set l = set (us_list u)" "distinct l" shows "udp_inv (u\<lparr>us_list := l\<rparr>)"
  using assms unfolding udp_inv_def udp_wf_def by simp

lemma inv_bind:
  assumes "udp_inv u" "us_pcb u i \<noteq> None" "\<not> bind_conflict i a p u"
  shows "udp_inv (link_pcb i (upd_pcb i (\<lambda>q. q\<lparr>u_local_ip := a, u_local_port := p\<rparr>) u))" (is "udp_inv ?u")
proof -
  obtain q where q: "us_pcb u i = Some q" using assms(2) by auto
  have c: "\<not> clash (q\<lparr>u_local_ip := a, u_local_port := p\<rparr>) r \<and> \<not> clash r (q\<lparr>u_local_ip := a, u_local_port := p\<rparr>)"
    if "j \<in> set (us_list u)" "j \<noteq> i" "us_pcb u j = Some r" for j r
    using assms(3) that by (fastforce simp: bind_conflict_def list_ex_iff clash_def)
  have l: "set (us_list ?u) = insert i (set (us_list u))" "us_port ?u = us_port u"
    "us_pcb ?u = (us_pcb u)(i \<mapsto> q\<lparr>u_local_ip := a, u_local_port := p\<rparr>)"
    using q by (auto simp: link_pcb_def upd_pcb_def)
  have d: "distinct (us_list ?u)" using assms(1) by (auto simp: link_pcb_def upd_pcb_def udp_inv_def udp_wf_def)
  show ?thesis using assms(1) c d unfolding udp_inv_def udp_wf_def l by (auto split: if_splits)
qed

lemma inv_remove:
  assumes "udp_inv u" shows "udp_inv (udp_remove i u)"
proof -
  have "set (remove1 i (us_list u)) = set (us_list u) - {i}" using assms by (simp add: udp_inv_def udp_wf_def)
  then show ?thesis using assms unfolding udp_inv_def udp_wf_def udp_remove_def by (auto split: if_splits)
qed

lemma new_port:
  assumes "UDP_LOCAL_PORT_RANGE_START \<le> us_port u" "new_port_loop n u = (p, u')"
  shows "(p = 0 \<or> \<not> port_taken p u) \<and> UDP_LOCAL_PORT_RANGE_START \<le> us_port u' \<and> u' = u\<lparr>us_port := us_port u'\<rparr>"
  using assms
proof (induction n u rule: new_port_loop.induct)
  case (1 n u)
  define x where "x = (if us_port u = UDP_LOCAL_PORT_RANGE_END then UDP_LOCAL_PORT_RANGE_START else us_port u + 1)"
  have x: "UDP_LOCAL_PORT_RANGE_START \<le> x"
  proof (cases "us_port u = UDP_LOCAL_PORT_RANGE_END")
    case False
    then have "unat (us_port u) \<noteq> unat (0xFFFF :: u16)" unfolding UDP_LOCAL_PORT_RANGE_END_def word_unat_eq_iff .
    then have "unat (us_port u) \<noteq> 65535" by simp
    then have "unat (us_port u + 1) = unat (us_port u) + 1" using unsigned_less [where 'a = nat and w = "us_port u"] by (simp add: unat_word_ariths)
    then show ?thesis using 1(2) False by (simp add: x_def word_le_nat_alt)
  qed (simp add: x_def)
  have t: "port_taken y (u\<lparr>us_port := x\<rparr>) = port_taken y u" for y by (simp add: port_taken_def)
  show ?case
  proof (cases "port_taken x u \<and> \<not> n + 1 > unat (UDP_LOCAL_PORT_RANGE_END - UDP_LOCAL_PORT_RANGE_START)")
    case True
    then have "new_port_loop n u = new_port_loop (n + 1) (u\<lparr>us_port := x\<rparr>)" by (subst new_port_loop.simps) (simp add: x_def [symmetric] t Let_def)
    then show ?thesis using 1(1) [of "u\<lparr>us_port := x\<rparr>"] 1(3) True x by (simp add: x_def [symmetric] t)
  next
    case False
    then show ?thesis using 1(3) x by (subst (asm) new_port_loop.simps) (auto simp: x_def [symmetric] t Let_def split: if_splits)
  qed
qed

lemma not_taken: "\<not> port_taken p u \<Longrightarrow> \<not> bind_conflict i a p u"
  by (auto simp: port_taken_def bind_conflict_def list_ex_iff split: option.splits)

lemma udp_bind_inv:
  assumes "udp_inv u" "us_pcb u i \<noteq> None"
  shows "udp_inv (fst (udp_bind i a p u)) \<and> (snd (udp_bind i a p u) = ERR_OK \<longrightarrow> i \<in> set (us_list (fst (udp_bind i a p u)))) \<and>
    us_pcb (fst (udp_bind i a p u)) i \<noteq> None"
proof (cases "p = 0")
  case True
  obtain x u' where x: "new_port_loop 0 u = (x, u')" by fastforce
  have n: "x = 0 \<or> \<not> port_taken x u" "UDP_LOCAL_PORT_RANGE_START \<le> us_port u'" "u' = u\<lparr>us_port := us_port u'\<rparr>"
    using new_port [OF _ x] assms(1) by (simp_all add: udp_inv_def udp_wf_def)
  have u: "udp_inv u'" using inv_port [OF assms(1) n(2)] n(3) by simp
  have e: "us_pcb u' = us_pcb u" "us_list u' = us_list u" using arg_cong [OF n(3), of us_pcb] arg_cong [OF n(3), of us_list] by simp_all
  have i: "us_pcb u' i \<noteq> None" unfolding e by (rule assms(2))
  have "\<not> bind_conflict i a x u'" if "\<not> port_taken x u"
    using not_taken [OF that] unfolding bind_conflict_def e .
  then show ?thesis using n(1) inv_bind [OF u i] u i
    by (cases "x = 0") (simp_all add: udp_bind_def udp_new_port_def x True link_pcb_def upd_pcb_def)
next
  case False
  then show ?thesis using inv_bind [OF assms] assms by (simp add: udp_bind_def link_pcb_def upd_pcb_def)
qed

lemma bind_first_inv:
  assumes "udp_inv u" "us_pcb u i \<noteq> None"
  shows "udp_inv (fst (bind_first i u)) \<and> (snd (bind_first i u) = ERR_OK \<longrightarrow> i \<in> set (us_list (fst (bind_first i u)))) \<and>
    us_pcb (fst (bind_first i u)) i \<noteq> None"
proof -
  obtain q where q: "us_pcb u i = Some q" using assms(2) by auto
  show ?thesis
  proof (cases "u_local_port q = 0")
    case True
    then show ?thesis using udp_bind_inv [OF assms] q by (simp add: bind_first_def)
  next
    case False
    then show ?thesis using assms q by (simp add: bind_first_def udp_inv_def)
  qed
qed

lemma udp_connect_inv:
  assumes "udp_inv u" "us_pcb u i \<noteq> None" shows "udp_inv (fst (udp_connect i a p u))"
proof -
  obtain u' e where b: "bind_first i u = (u', e)" by fastforce
  note k = bind_first_inv [OF assms, unfolded b fst_conv snd_conv]
  have "udp_inv (upd_pcb i (\<lambda>q. q\<lparr>u_remote_ip := a, u_remote_port := p, u_connected := True\<rparr>) u')" using k by (intro inv_keep) simp_all
  moreover have "us_list (upd_pcb i f u') = us_list u'" for f by (simp add: upd_pcb_def)
  ultimately show ?thesis using k by (simp add: udp_connect_def b link_pcb_def)
qed

lemma udp_init_inv: "udp_inv u \<Longrightarrow> udp_inv (fst (udp_init e u))"
proof -
  assume u: "udp_inv u"
  have "UDP_LOCAL_PORT_RANGE_START \<le> UDP_ENSURE_LOCAL_PORT_RANGE r" for r
  proof -
    have "(r AND 0x3FFF) \<le> (0x3FFF :: u32)" by (rule word_and_le1)
    then have "unat (r AND 0x3FFF) \<le> 0x3FFF" by (simp add: word_le_nat_alt)
    then show ?thesis
      by (simp add: UDP_ENSURE_LOCAL_PORT_RANGE_def UDP_LOCAL_PORT_RANGE_START_def word_le_nat_alt unsigned_ucast_eq take_bit_nat_eq_self unat_word_ariths)
  qed
  then show ?thesis using inv_port [OF u] by (simp add: udp_init_def split: prod.split)
qed

lemma udp_new_inv: "udp_inv u \<Longrightarrow> udp_inv (fst (udp_new_ip_type u))"
  by (auto simp: udp_new_ip_type_def udp_new_def find_Some_iff intro!: inv_new split: option.split)

lemma udp_sendto_inv:
  assumes "udp_inv (ls_udp s)" "udp_sendto v i c a p s = Some (s', err)" shows "udp_inv (ls_udp s')"
proof -
  have src: "udp_inv (ls_udp s')" if "us_pcb (ls_udp s) i \<noteq> None" "udp_sendto_if_src v i c a p n x s = Some (s', err)" for n x
    using bind_first_inv [OF assms(1) that(1)] that(2)
    by (auto simp: udp_sendto_if_src_def Let_def split: prod.splits option.splits if_splits Option.bind_splits)
  show ?thesis using assms src
    by (auto simp: udp_sendto_def udp_sendto_if_def split: option.splits if_splits)
qed

lemma find_pcb_member: "fst (find_pcb m inp b src dst sp dp uncon ks) = Some i \<Longrightarrow> i \<in> set ks"
  by (induction ks arbitrary: uncon) (auto simp: Let_def split: option.splits if_splits)

lemma udp_input_inv:
  assumes "udp_inv (ls_udp s)" "udp_input v p h n inp s = Some s'" shows "udp_inv (ls_udp s')"
proof -
  have front: "udp_inv ((ls_udp s)\<lparr>us_list := i # remove1 i (us_list (ls_udp s))\<rparr>)" if "i \<in> set (us_list (ls_udp s))" for i
    using that assms(1) by (intro inv_order) (auto simp: udp_inv_def udp_wf_def)
  show ?thesis
  proof (cases "p = [] \<or> length (snd (hd p)) < UDP_HLEN")
    case True
    then show ?thesis using assms by (simp add: udp_input_def)
  next
    case False
    let ?d = "concat (map snd p)"
    obtain full uncon where f: "find_pcb (us_pcb (ls_udp s)) inp (ip4_addr_isbroadcast (U8TO32_LITTLE (drop 16 h)) n) (U8TO32_LITTLE (drop 12 h))
      (U8TO32_LITTLE (drop 16 h)) (get_be16 (?d ! 0) (?d ! 1)) (get_be16 (?d ! 2) (?d ! 3)) None (us_list (ls_udp s)) = (full, uncon)" by fastforce
    have m: "i \<in> set (us_list (ls_udp s))" if "full = Some i" for i using find_pcb_member [of "us_pcb (ls_udp s)"] f that by (metis fst_conv)
    show ?thesis using assms(2) False m front assms(1) unfolding udp_input_def Let_def f prod.case
      by (auto split: option.splits if_splits)
  qed
qed

lemma ip4_deliver_inv: "udp_inv (ls_udp s) \<Longrightarrow> ip4_deliver v raw hlen p n inp s = Some s' \<Longrightarrow> udp_inv (ls_udp s')"
  by (auto simp: ip4_deliver_def Let_def intro: udp_input_inv split: if_splits)

lemma ip4_input_inv:
  assumes "udp_inv (ls_udp s)" "ip4_input v raw split p inp s = Some s'" shows "udp_inv (ls_udp s')"
proof -
  have d: "udp_inv (ls_udp t)" if "ip4_deliver v raw hl q n inp (s\<lparr>ls_ip := ip\<rparr>) = Some t" for hl q n ip t
    using ip4_deliver_inv [OF _ that] assms(1) by simp
  have d': "udp_inv (ls_udp t)" if "ip4_deliver v raw hl q n inp s = Some t" for hl q n t
    using ip4_deliver_inv [OF assms(1) that] .
  show ?thesis
  proof (cases "p = [] \<or> length (snd (hd p)) < IP_HLEN")
    case True
    then show ?thesis using assms by (simp add: ip4_input_def)
  next
    case False
    define P where "P = (if unat (IPH_LEN (snd (hd p))) < chain_len p then chain_trim (unat (IPH_LEN (snd (hd p)))) p else p)"
    show ?thesis using assms(2,1) unfolding ip4_input_def Let_def if_not_P [OF False] P_def [symmetric]
      by (auto dest: d d' split: if_splits option.splits prod.splits Option.bind_splits)
  qed
qed

lemma udp_step_inv: "udp_step u u' \<Longrightarrow> udp_inv u \<Longrightarrow> udp_inv u'"
proof (induction rule: udp_step.induct)
  case (bind u i a p)
  then show ?case using udp_bind_inv by blast
next
  case (send v i c a p s s' err)
  then show ?case using udp_sendto_inv by blast
next
  case (input v raw split c n s s')
  then show ?case using ip4_input_inv by blast
qed (simp_all add: udp_init_inv udp_new_inv udp_connect_inv inv_remove, simp_all add: udp_bind_netif_def udp_disconnect_def udp_recv_def inv_keep)

lemma udp_reach_inv: "udp_step\<^sup>*\<^sup>* udp_static u \<Longrightarrow> udp_inv u"
proof (induction rule: rtranclp_induct)
  case base
  show ?case by (simp add: udp_inv_def udp_wf_def udp_static_def)
next
  case (step u u')
  then show ?case using udp_step_inv by blast
qed


text \<open>Two pcbs on port 500 of two addresses.\<close>

definition two_pcbs :: udp where
  "two_pcbs = fst (udp_bind 1 (U8TO32_LITTLE [10, 0, 0, 2]) 500 (fst (udp_bind 0 (U8TO32_LITTLE [10, 0, 0, 1]) 500
     (fst (udp_new_ip_type (fst (udp_new_ip_type udp_static)))))))"

definition pcb_on :: "u32 \<Rightarrow> u16 \<Rightarrow> udp_pcb" where
  "pcb_on a p = \<lparr>u_local_ip = a, u_remote_ip = 0, u_netif_idx = 0, u_tos = 0, u_ttl = UDP_TTL, u_nochksum = False,
     u_connected = False, u_local_port = p, u_remote_port = 0, u_recv = None\<rparr>"

lemma two_news: "fst (udp_new_ip_type (fst (udp_new_ip_type udp_static))) = udp_static\<lparr>us_pcb := [0 \<mapsto> pcb_on 0 0, 1 \<mapsto> pcb_on 0 0]\<rparr>"
  by (simp add: udp_new_ip_type_def udp_new_def udp_static_def MEMP_NUM_UDP_PCB_def pcb_on_def upt_rec [of _ 8] fun_upd_twist)

lemma two_pcbs_eq: "two_pcbs = udp_static\<lparr>us_pcb := [0 \<mapsto> pcb_on (U8TO32_LITTLE [10, 0, 0, 1]) 500, 1 \<mapsto> pcb_on (U8TO32_LITTLE [10, 0, 0, 2]) 500], us_list := [1, 0]\<rparr>"
  unfolding two_pcbs_def two_news
  by (simp add: udp_bind_def bind_conflict_def link_pcb_def upd_pcb_def pcb_on_def udp_static_def U8TO32_LITTLE_def fun_eq_iff)


section \<open>From stack to stack\<close>

lemma datagram_cut:
  assumes dg: "datagram src dst sp dp d (concat (map snd q))" "q \<noteq> []" "28 \<le> length (snd (hd q))"
    and mtu: "28 \<le> mtu" "mtu < length d + 28" "\<forall>i. ok i"
      "let m = (mtu - IP_HLEN) div 8 * 8; l = length d + 8 in l mod m = 0 \<or> (mtu - IP_HLEN) mod 8 < l mod m"
    and src: "\<not> ip4_addr_isbroadcast src inp" "\<not> ip4_addr_ismulticast src"
    and dst: "nf_ip inp = dst" "dst \<noteq> 0" "dst \<noteq> 0xFFFFFFFF" "\<not> ip4_addr_ismulticast dst" "netif_is_up inp"
    and wait: "\<forall>e\<in>set (rs_list (ip_reass (ls_ip b))). slice 12 4 (rd_iphdr e) \<noteq> U32TO8_LITTLE src" "length (rs_list (ip_reass (ls_ip b))) < MEMP_NUM_REASSDATA"
  obtains fs where "ip4_frag ok mtu (map snd q) = Some (Done (fs, ERR_OK))" "\<forall>f\<in>set fs. length f \<le> mtu"
    "\<And>fs' ps. mset fs' = mset fs \<Longrightarrow> list_all2 holds ps fs' \<Longrightarrow> unat (rs_pbufcount (ip_reass (ls_ip b))) + sum_list (map length ps) \<le> IP_REASS_MAX_PBUFS \<Longrightarrow>
       ip4_inputs w raw split ps inp b = ip4_deliver w raw 20 (split (concat (map snd q))) inp inp b"
proof -
  obtain tos ttl ident where k: "ip_packet (map snd q)" "length (concat (map snd q)) = length d + 28"
    "take IP_HLEN (hd (map snd q)) = ip4_make_header tos ttl IP_PROTO_UDP (of_nat (length d + 28)) ident src dst"
    by (rule datagram_packet [OF dg])
  let ?h = "ip4_make_header tos ttl IP_PROTO_UDP (of_nat (length d + 28)) ident src dst" and ?s = "ip_reass (ls_ip b)"
  define x where "x = drop IP_HLEN (concat (map snd q))"
  define n where "n = (mtu - IP_HLEN) div 8 * 8"
  define m where "m = (length x + n - 1) div n"
  define F where "F = fragment ((mtu - IP_HLEN) div 8) (take IP_HLEN (hd (map snd q))) x m"
  have lx: "length x = length d + 8" using k(2) by (simp add: x_def IP_HLEN_def)
  have ld: "length d \<le> 65507" using dg(1) by (simp add: datagram_def)
  have "length x mod n = 0 \<or> (mtu - IP_HLEN) mod 8 < length x mod n" using mtu(4) by (simp add: lx n_def Let_def)
  note sent = cut_sent [OF mtu(3) k(1) mtu(1) n_def x_def this m_def, folded F_def]
  have h: "length ?h = 20" "drop_bit 4 (?h ! 0) = 4" "IPH_HL_BYTES ?h = IP_HLEN" "slice 12 4 ?h = U32TO8_LITTLE src" "slice 16 4 ?h = U32TO8_LITTLE dst"
    using length_ip_header header_fields(1,2) [where r = "[]"] make_header_slices by (simp_all add: IP_HLEN_def)
  have match: "IP_ADDRESSES_AND_ID_MATCH e (hd (map snd q)) = IP_ADDRESSES_AND_ID_MATCH e ?h" for e by (metis match_part(1) k(3))
  have "\<forall>e\<in>set (rs_list ?s). \<not> IP_ADDRESSES_AND_ID_MATCH (rd_iphdr e) (hd (map snd q))"
    unfolding match using wait(1) by (auto simp: IP_ADDRESSES_AND_ID_MATCH_def make_header_slices)
  note came = fragments_back [OF k(1) mtu(1) mtu(2) [folded k(2)] this wait(2) n_def x_def m_def F_def]
  have frag: "is_fragment ?h f" if "f \<in> set (map F [0..<m])" for f
    using fragments_are [of m x "(mtu - IP_HLEN) div 8" f ?h] that mtu(1) came(1) ld lx k(3) by (simp add: m_def n_def F_def IP_HLEN_def div_greater_zero_iff)
  have "ip4_inputs w raw split ps inp b = ip4_deliver w raw 20 (split (concat (map snd q))) inp inp b"
    if a: "mset fs' = mset (map F [0..<m])" "list_all2 holds ps fs'" "unat (rs_pbufcount ?s) + sum_list (map length ps) \<le> IP_REASS_MAX_PBUFS" for fs' ps
  proof -
    let ?as = "map2 (\<lambda>p f. (f, length (cut_padding f p))) ps fs'"
    have ln: "length ps = length fs'" using a(2) by (rule list_all2_lengthD)
    have "map fst ?as = fs'" by (rule nth_equalityI) (simp_all add: ln)
    then have m1: "mset (map fst ?as) = mset (map F [0..<m])" using a(1) by simp
    have "sum_list (map snd ?as) \<le> sum_list (map length ps)"
      using ln by (induction ps fs' rule: list_induct2) (auto intro: add_mono trim_length)
    then have "receive ?as ?s = (?s, replicate (m - 1) None @ [Some (concat (map snd q))])" by (intro came(3) [OF m1]) (use a(3) in linarith)
    moreover have "is_fragment ?h f" if "f \<in> set fs'" for f using frag mset_eq_setD [OF a(1)] that by simp
    then have "list_all2 (\<lambda>p f. holds p f \<and> is_fragment ?h f) ps fs'" using a(2) by (simp add: list_all2_conv_all_nth)
    ultimately show ?thesis using input_fragments [OF h src dst, where ps = ps and fs = fs' and s = b] by simp
  qed
  then show ?thesis by (rule that [OF sent came(2)])
qed

lemma whole_arrival:
  assumes "mset fs' = mset [f]" "list_all2 holds ps fs'"
  obtains p where "ps = [p]" "holds p f"
  using assms by (auto simp: list_all2_Cons2)


text \<open>A query from 10.8.0.2 to port 53 of 10.8.0.1.\<close>

definition sample_netif :: "u32 \<Rightarrow> lnetif" where
  "sample_netif a = \<lparr>nf_num = 0, nf_ip = a, nf_netmask = 0xFFFFFFFF, nf_gw = 0, nf_mtu = 1400, nf_flags = 5\<rparr>"

definition sample_pcb :: "u16 \<Rightarrow> udp_pcb" where
  "sample_pcb port = \<lparr>u_local_ip = 0, u_remote_ip = 0, u_netif_idx = 0, u_tos = 0, u_ttl = UDP_TTL, u_nochksum = False, u_connected = False,
     u_local_port = port, u_remote_port = 0, u_recv = Some 7\<rparr>"

definition sample_stack :: "u32 \<Rightarrow> u16 \<Rightarrow> lstack" where
  "sample_stack a port =
     \<lparr>ls_ip = \<lparr>ip_netifs = [sample_netif a], ip_default = Some (sample_netif a), ip_id = 0, ip_reass = reass_static, ip_events = []\<rparr>,
      ls_udp = \<lparr>us_pcb = [0 \<mapsto> sample_pcb port], us_list = [0], us_port = 0xC000\<rparr>\<rparr>"

definition sample_ip_env :: ip_env where
  "sample_ip_env = \<lparr>ie_headroom = 64, ie_pbuf = True, ie_frag = (\<lambda>_. True), ie_output = (\<lambda>_. ERR_OK)\<rparr>"


end
