(* ===== verification/Spec2Isabelle.thy ===== *)
theory Spec2Isabelle
  imports Recovery Startup Noise_Correct Obf_Correct Lwip_Timeouts Lwip_Dns_Correct Lwip_Mem_Correct Lwip_Udp_Correct
begin

text \<open>
  Verification of sys-amneziawg, an AmneziaWG (obfuscated WireGuard) client that runs as a system module on a console:
  it holds a tunnel to one peer, runs lwIP over it and proxies the console's TLS connections into it.

  \<^bold>\<open>The program and its model.\<close>  All sources are under \<open>src/source/\<close>.  Every C function of the modelled files is a
  HOL function of the same name; a helper named after a part of a function models a loop or a branch of it.

  \<^item> \<open>Prelude\<close>: machine types, byte arrays, outcomes, the C library functions the sources call, entropy and clocks
    (\<open>awg_rand.c\<close>).
  \<^item> \<open>Crypto_Util\<close>, \<open>ChaCha20\<close>, \<open>Poly1305\<close>, \<open>Aead\<close>, \<open>Blake2s\<close>, \<open>X25519\<close>: the files of \<open>crypto/\<close>, on 32- and 64-bit words
    with their wrap-around.  \<open>Poly1305_Limbs\<close> and \<open>Poly1305_Correct\<close> show that the 26-bit limb arithmetic computes the
    polynomial modulo \<open>2^130 - 5\<close>, over any splitting of the message into chunks; \<open>X25519_Field\<close> and \<open>X25519_Ladder\<close>
    that the eight-limb arithmetic is arithmetic modulo \<open>2^255 - 19\<close> and that \<open>x25519\<close> runs the Montgomery ladder of
    RFC 7748 on it; \<open>ChaCha20\<close> that the cipher is counter mode; \<open>Blake2s\<close> that hashing is independent of chunking; \<open>Aead\<close>
    that decryption accepts exactly what encryption makes.
  \<^item> \<open>Obf\<close> and \<open>Obf_Correct\<close> (\<open>awg_obf.c\<close>): base64, the tag parser and the renderer, with round trips and exact lengths.
  \<^item> \<open>Config\<close> (\<open>awg_config.c\<close>): the loader line by line, with its errors, and the dump.
  \<^item> \<open>Noise\<close>, \<open>Noise_Correct\<close>, \<open>Transport\<close> (\<open>awg_noise.c\<close>): both roles of the handshake, the framing with padding and
    header protection, transport packets and junk.  The two roles agree on keys; wrapping and sealing are undone by
    unwrapping and opening; opening accepts exactly the packets of the protocol; failures leave the keys alone.
  \<^item> \<open>Replay\<close>, \<open>Session\<close>, \<open>Session_Correct\<close> (\<open>awg_session.c\<close>): the anti-replay window refines a set of seen counters; over
    any sequence of operations no packet is delivered twice and no nonce is used twice, also across key rotations.
  \<^item> \<open>Sni\<close>, \<open>Proxy\<close>, \<open>Proxy_Correct\<close> (\<open>awg_proxy.c\<close>): the ClientHello parser, the host name rules and the connection table
    with its callbacks.  The operations refine a step relation on single slots, from which the invariants of the table,
    the byte streams and the descriptors follow through one locale.
  \<^item> \<open>Netif\<close> (\<open>awg_netif.c\<close>, \<open>lwip_port/sys_arch.c\<close>), \<open>Power_Events\<close> (\<open>awg_power.c\<close>), \<open>Ipprobe\<close> (\<open>awg_ipprobe.c\<close>): the lwIP interface, the detection
    of a sleep, and the hand-built DNS probe with its checksums.
  \<^item> \<open>Main_Loop\<close>, \<open>Main_Correct\<close> and \<open>Recovery\<close> (\<open>main_switch.c\<close>): the passes of the main loop, the HTTP probe and the
    composition of all the above.  Strangers change nothing, a sleep erases the tunnel, a lost tunnel is rebuilt and
    handshakes again, rebuilds are spaced, sockets are paired, and the proxy's invariant holds in the running module.
  \<^item> \<open>Startup\<close> (\<open>main_switch.c\<close>, \<open>open_listener\<close> of \<open>awg_proxy.c\<close>): the services, \<open>main\<close> up to its loop and every early way out.
  \<^item> \<open>Lwip_Chksum\<close> (\<open>lwip/core/inet_chksum.c\<close>): the stack's checksum is the one of RFC 1071, for any chain of buffers.
  \<^item> \<open>Lwip_Timeouts\<close> (\<open>lwip/core/timeouts.c\<close>): the timeout list on the wrapping clock; the loop returns and the cyclic timers stay.
  \<^item> \<open>Lwip_Pbuf\<close>, \<open>Lwip_Pbuf_Correct\<close> (\<open>lwip/core/pbuf.c\<close>, \<open>memp.c\<close>): packet buffers as linked nodes over memory blocks with reference
    counts; a packet is read back from the pool as it was written, and every buffer is given back once.
  \<^item> \<open>Lwip_Mem\<close>, \<open>Lwip_Mem_Correct\<close> (\<open>lwip/core/mem.c\<close>): the heap as the bytes of its array, with the block headers inside; it refines a store
    of separate arrays, and what was given back is one block again.
  \<^item> \<open>Lwip_Frag\<close>, \<open>Lwip_Frag_Correct\<close> (\<open>lwip/core/ipv4/ip4_frag.c\<close>): fragments; a packet that was cut is put together again from
    its fragments in any order, except for a short rest, for which the code marks two fragments as the last.
  \<^item> \<open>Lwip_Ip\<close>, \<open>Lwip_Udp\<close>, \<open>Lwip_Udp_Correct\<close> (\<open>lwip/core/ipv4/ip4.c\<close>, \<open>icmp.c\<close>, \<open>lwip/core/udp.c\<close>): routing, output and input of IP, control
    messages and UDP; a datagram sent by one stack reaches the pcb bound to its address and port on the other byte for byte, whole or in
    fragments, and no two pcbs share an address and a port.
  \<^item> \<open>Lwip_Addr\<close> (\<open>lwip/core/ipv4/ip4_addr.c\<close>): addresses and their text.
  \<^item> \<open>Lwip_Dns\<close>, \<open>Lwip_Dns_Correct\<close> (\<open>lwip/core/dns.c\<close>): the resolver the proxy asks; its tables stay consistent and every lookup
    is answered once, within fourteen ticks.
  \<^item> This theory: the tunnel end to end, from lwIP on one side to lwIP on the other, and the handshake through the
    framing and the session.

  \<^bold>\<open>Conventions.\<close>  State is a record passed and returned.  A buffer is a byte list, and a function that writes into one
  returns it; \<open>Fault\<close> (or \<open>None\<close> where there is no outcome type) is an access outside the memory the C function was
  given, \<open>Rejected\<close> is -1.  Results of system calls, of the random generator, of the clocks and of lwIP are arguments;
  calls whose effect matters are recorded in order (\<open>p_out\<close>, \<open>w_acts\<close>).  \<open>int\<close> is a HOL integer where the C code
  cannot overflow it and the bound is visible, otherwise words are used.

  \<^bold>\<open>Termination and bounds.\<close>  Loops are total functions, by structural recursion or a measure; no fuel is used.  The loops that
  end only because of their data (chains of pbufs, the timeout list, the heap's list of blocks, the cutting of a packet, the
  resolver's search for a free identifier or port) are partial functions in the option type, and that they return is proved.  The main loop, which does not end, is
  modelled by its passes and their sequences.

  \<^bold>\<open>Assumptions.\<close>  That X25519 is commutative on key pairs is an assumption of the handshake theorems (\<open>dh_commutes\<close>): the
  field arithmetic and the ladder are verified, the group law of the curve is not.  The random generator is arbitrary.
  lwIP calls back with the argument registered for a pcb and not after it was aborted.

  \<^bold>\<open>Not modelled.\<close>  Of the vendored stack (\<open>lwip/\<close>) TCP, the raw pcbs and the list of interfaces, whose calls and callbacks are inputs of the modelled
  parts; logging and the text of the log; the code behind the loop of \<open>main\<close>, which is not reached because nothing sets
  \<open>g_stop\<close>; the host test harness (\<open>main_host.c\<close>).
\<close>

section \<open>Packets\<close>

abbreviation pad16 :: "bytes \<Rightarrow> bytes" where
  "pad16 b \<equiv> b @ replicate ((16 - length b mod 16) mod 16) 0"

lemma length_pad16: "length (pad16 b) \<le> length b + 15"
  using mod_less_divisor [of 16 "16 - length b mod 16"] by simp

lemma transport_seal_fits:
  assumes "s4_ok cfg" "cfg_s4 cfg + 32 + int (length (pad16 payload)) \<le> cap"
  obtains pkt e' where "awg_transport_seal cfg hs e ctr payload cap = (Done pkt, e')"
  using assms that
  unfolding awg_transport_seal_def Let_def padded_length TRANSPORT_HDR_def AEAD_TAG_def s4_ok_def
  by (auto simp: not_less split_beta)

text \<open>What an interface sends of a packet: a sealed datagram of the session under its next counter.\<close>

lemma stack_out_sends:
  assumes "nif_bound (w_netif a)" "s_established (w_sess a)" "tot_len p = length (concat (pb_parts p))" "tot_len p \<le> TUNNEL_MTU"
    "s4_ok cfg" "cfg_s4 cfg \<le> 600"
  obtains prefix pkt where "length prefix = nat (cfg_s4 cfg)"
    "pkt = transport_packet cfg (hs_remote_index (s_cur (w_sess a))) (hs_send_key (s_cur (w_sess a))) (s_tx_counter (w_sess a))
       prefix (pad16 (concat (pb_parts p)))"
    "w_acts (stack_out cfg p clock sent a) = w_acts a @ [Sendto (nif_fd (w_netif a)) pkt]"
proof -
  let ?d = "concat (pb_parts p)"
  have "cfg_s4 cfg + 32 + int (length (pad16 ?d)) \<le> 2048"
    using length_pad16 [of ?d] assms(3,4,6) by (simp add: TUNNEL_MTU_def)
  then obtain pkt e' where s: "awg_transport_seal cfg (s_cur (w_sess a)) (w_entropy a) (s_tx_counter (w_sess a)) ?d 2048 = (Done pkt, e')"
    by (rule transport_seal_fits [OF assms(5)])
  obtain prefix where p: "length prefix = nat (cfg_s4 cfg)"
    "pkt = transport_packet cfg (hs_remote_index (s_cur (w_sess a))) (hs_send_key (s_cur (w_sess a))) (s_tx_counter (w_sess a))
       prefix (pad16 ?d)"
    by (rule transport_seal_Done [OF s])
  have "w_acts (stack_out cfg p clock sent a) = w_acts a @ [Sendto (nif_fd (w_netif a)) pkt]"
    using assms(1-4) s
    by (simp add: stack_out_def tunnel_output_def pbuf_copy_partial_take awg_session_build_data_def Let_def)
  with that p show ?thesis by blast
qed

text \<open>C4.  The tunnel carries IP packets.  Let two modules run on one configuration, the live keypairs matching, lwIP on the
  first hand a packet of up to 1400 bytes to the interface, and the datagram that is sent reach the second from the
  right address with a counter its window has not seen, unless it has exactly the size of a response the second is
  waiting for.  Then the second gives its
  stack that packet, byte for byte (followed by the zero padding the IP header's length cuts off).\<close>

theorem tunnel_carries_packet:
  assumes "nif_bound (w_netif a)" "s_established (w_sess a)" "tot_len p = length (concat (pb_parts p))" "tot_len p \<le> TUNNEL_MTU"
    "0 < tot_len p" "s4_ok cfg" "cfg_s4 cfg \<le> 600"
    "nif_ready (w_netif b)" "s_established (w_sess b)"
    "hs_local_index (s_cur (w_sess b)) = hs_remote_index (s_cur (w_sess a))"
    "hs_recv_key (s_cur (w_sess b)) = hs_send_key (s_cur (w_sess a))"
    "fst (replay_ok (w_globals b) (s_rx_window_max (w_sess b)) (s_rx_window_bits (w_sess b)) (s_tx_counter (w_sess a)))"
    "s_handshaking (w_sess b) \<longrightarrow> cfg_s4 cfg + 32 + int (length (pad16 (concat (pb_parts p)))) \<noteq> cfg_s2 cfg + 92"
  shows "\<exists>pkt. w_acts (stack_out cfg p clock sent a) = w_acts a @ [Sendto (nif_fd (w_netif a)) pkt] \<and>
    w_acts (recv_one cfg dst \<lparr>rx_bytes = pkt, rx_from_full = True, rx_addr = fst dst, rx_port = snd dst, rx_now = t,
      rx_alloc = True, rx_taken = True, rx_events = []\<rparr> b)
    = w_acts b @ [To_stack (pad16 (concat (pb_parts p)))]"
proof -
  let ?d = "concat (pb_parts p)"
  obtain prefix pkt where s: "length prefix = nat (cfg_s4 cfg)"
    "pkt = transport_packet cfg (hs_remote_index (s_cur (w_sess a))) (hs_send_key (s_cur (w_sess a))) (s_tx_counter (w_sess a))
       prefix (pad16 ?d)"
    "w_acts (stack_out cfg p clock sent a) = w_acts a @ [Sendto (nif_fd (w_netif a)) pkt]"
    by (rule stack_out_sends [OF assms(1-4,6,7)])
  have ne: "pad16 ?d \<noteq> []" using assms(3,5) by auto
  have "\<not> response_sized (w_sess b) cfg pkt"
    using assms(6,13) s(1) by (auto simp: response_sized_def s(2) s4_ok_def AWG_MSG_RESP_SIZE_def)
  moreover have "pkt = transport_packet cfg (hs_local_index (s_cur (w_sess b))) (hs_recv_key (s_cur (w_sess b))) (s_tx_counter (w_sess a))
      prefix (pad16 ?d)" using s(2) assms(10,11) by simp
  moreover have "int (length (pad16 ?d)) \<le> 2048" using length_pad16 [of ?d] assms(3,4) by (simp add: TUNNEL_MTU_def)
  ultimately obtain s' g' pkt' where "awg_session_on_datagram (w_globals b) (w_sess b) cfg pkt 2048 t =
      (s', g', pkt', Some (if pad16 ?d = [] then AWG_RX_HANDLED else AWG_RX_PAYLOAD, pad16 ?d))"
    using current_packet_delivered [OF assms(9) _ _ assms(6) s(1) _ assms(12)] by metis
  then have o: "awg_session_on_datagram (w_globals b) (w_sess b) cfg pkt 2048 t = (s', g', pkt', Some (AWG_RX_PAYLOAD, pad16 ?d))"
    using ne by simp
  have "w_acts (recv_one cfg dst \<lparr>rx_bytes = pkt, rx_from_full = True, rx_addr = fst dst, rx_port = snd dst, rx_now = t,
      rx_alloc = True, rx_taken = True, rx_events = []\<rparr> b) = w_acts b @ [To_stack (pad16 ?d)]"
    using o ne assms(8) by (simp add: recv_one_def from_peer_def awg_netif_input_def stack_runs_def Let_def)
  with s(3) show ?thesis by blast
qed

text \<open>Two ends of one tunnel: the first addresses the index and seals under the key the second listens on.\<close>

definition sample_end :: world where
  "sample_end = world0\<lparr>w_sess := awg_session_wipe\<lparr>s_established := True\<rparr>,
     w_netif := netif_static\<lparr>nif_ready := True, nif_fd := 3, nif_bound := True\<rparr>\<rparr>"

lemma sample_end_fields:
  "nif_bound (w_netif sample_end)" "nif_ready (w_netif sample_end)" "s_established (w_sess sample_end)"
  "s_cur (w_sess sample_end) = handshake_zero" "\<not> s_handshaking (w_sess sample_end)" "s_tx_counter (w_sess sample_end) = 0"
  "s_rx_window_max (w_sess sample_end) = 0" "s_rx_window_bits (w_sess sample_end) = 0"
  by (simp_all add: sample_end_def awg_session_wipe_def)

theorem tunnel_carries_packet_witness:
  "\<exists>pkt. w_acts (stack_out sample_config \<lparr>tot_len = 3, pb_parts = [[69], [0, 1]]\<rparr> 0 True sample_end) =
      w_acts sample_end @ [Sendto (nif_fd (w_netif sample_end)) pkt] \<and>
    w_acts (recv_one sample_config (1, 2) \<lparr>rx_bytes = pkt, rx_from_full = True, rx_addr = fst (1, 2), rx_port = snd (1 :: u32, 2), rx_now = 9,
      rx_alloc = True, rx_taken = True, rx_events = []\<rparr> sample_end)
    = w_acts sample_end @ [To_stack (pad16 (concat [[69], [0, 1]]))]"
proof -
  have z: "hs_local_index handshake_zero = hs_remote_index handshake_zero" "hs_recv_key handshake_zero = hs_send_key handshake_zero"
    by (simp_all add: handshake_zero_def)
  have "fst (replay_ok g 0 0 0)" for g by (simp add: replay_ok_def REPLAY_WINDOW_def Let_def)
  with tunnel_carries_packet [of sample_end "\<lparr>tot_len = 3, pb_parts = [[69], [0, 1]]\<rparr>" sample_config sample_end 0 True "(1, 2)" 9]
  show ?thesis by (simp add: sample_end_fields z sample_facts TUNNEL_MTU_def)
qed

section \<open>The handshake through the session\<close>

lemma response_establishes:
  assumes "s_handshaking s" "awg_wrap cfg AWG_KIND_RESPONSE e m cap = (Some out, e')" "length m = 92"
    "awg_consume_response (s_pending s) m = (i2, True)"
  obtains pkt where "awg_session_on_datagram g s cfg out pcap t =
    (session_promote (s\<lparr>s_pending := i2\<rparr>) t, g, pkt, Some (AWG_RX_ESTABLISHED, []))"
proof -
  have "m \<noteq> []" using assms(3) by auto
  then obtain prefix where p: "awg_unwrap cfg AWG_KIND_RESPONSE out = (prefix @ m, Some (cfg_s2 cfg, int (length m)))"
    "int (length prefix) = cfg_s2 cfg" "int (length out) = cfg_s2 cfg + int (length m)"
    using unwrap_wrapped [OF assms(2)] by (metis padding_for_def awg_kind.simps)
  have d: "drop (nat (cfg_s2 cfg)) (prefix @ m) = m" using p(2) by simp
  have "\<not> cfg_s2 cfg < 0" using p(2) by linarith
  then show ?thesis
    using that assms p d by (simp add: awg_session_on_datagram_def AWG_MSG_RESP_SIZE_def Let_def)
qed

lemma promote_fields:
  "s_established (session_promote s t)" "\<not> s_handshaking (session_promote s t)" "s_tx_counter (session_promote s t) = 0"
  "s_rx_window_max (session_promote s t) = 0" "s_rx_window_bits (session_promote s t) = 0"
  "s_cur (session_promote s t) = s_pending s"
  by (simp_all add: session_promote_def Let_def)

lemma consume_response_index: "awg_consume_response hs m = (hs', ok) \<Longrightarrow> hs_local_index hs' = hs_local_index hs"
  by (auto simp: awg_consume_response_def Let_def split: if_splits prod.splits option.splits)

text \<open>The second half: a responder that consumed the initiation answers, and the session takes the answer.\<close>

lemma answer_establishes:
  assumes s1: "s_pending s1 = i1" "s_handshaking s1"
    and peer: "hs_peer_pub r1 = hs_s_pub i1" "hs_peer_eph r1 = hs_e_pub i1" "hs_remote_index r1 = hs_local_index i1"
      "hs_ck r1 = hs_ck i1" "hs_h r1 = hs_h i1" "hs_psk r1 = hs_psk i1"
    and pubs: "hs_s_pub i1 = awg_public_from_private (hs_s_priv i1)" "hs_e_pub i1 = awg_public_from_private (hs_e_priv i1)"
    and dh: "dh_commutes (fst (awg_generate_private e)) (hs_e_priv i1)" "dh_commutes (fst (awg_generate_private e)) (hs_s_priv i1)"
  shows "case awg_create_response r1 e of
      (r2, None, _) \<Rightarrow> snd (x25519 (fst (awg_generate_private e)) (hs_peer_eph r1) True) \<noteq> 0 \<or>
        snd (x25519 (fst (awg_generate_private e)) (hs_peer_pub r1) True) \<noteq> 0
    | (r2, Some m2, e2) \<Rightarrow>
      (case awg_wrap cfg AWG_KIND_RESPONSE e2 m2 cap of
          (None, _) \<Rightarrow> cannot_wrap cfg AWG_KIND_RESPONSE 92 cap
        | (Some out2, _) \<Rightarrow>
          (case awg_session_on_datagram g s1 cfg out2 pcap t of (s2, g2, _, r) \<Rightarrow>
            r = Some (AWG_RX_ESTABLISHED, []) \<and> s_established s2 \<and> \<not> s_handshaking s2 \<and>
            s_tx_counter s2 = 0 \<and> s_rx_window_max s2 = 0 \<and> s_rx_window_bits s2 = 0 \<and>
            hs_send_key (s_cur s2) = hs_recv_key r2 \<and> hs_recv_key (s_cur s2) = hs_send_key r2 \<and>
            hs_remote_index (s_cur s2) = hs_local_index r1 \<and> hs_remote_index r2 = hs_local_index (s_cur s2)))"
proof -
  obtain r2 om y where c: "awg_create_response r1 e = (r2, om, y)" by (rule prod_cases3)
  show ?thesis
  proof (cases om)
    case None
    then show ?thesis using create_response_None [of r1 e r2 y] c by simp
  next
    case m: (Some m)
    obtain i2 where i2: "awg_consume_response i1 m = (i2, True)" "length m = 92"
      "hs_send_key i2 = hs_recv_key r2" "hs_recv_key i2 = hs_send_key r2" "hs_remote_index i2 = hs_local_index r1"
      "hs_remote_index r2 = hs_local_index i1"
      using response_agreement [OF c [unfolded m] peer pubs dh] by auto
    obtain ow z where w: "awg_wrap cfg AWG_KIND_RESPONSE y m cap = (ow, z)" by fastforce
    show ?thesis
    proof (cases ow)
      case None
      then show ?thesis using wrap_None [OF w [unfolded None]] i2(2) by (simp add: c m w cannot_wrap_def)
    next
      case (Some out)
      obtain pkt where "awg_session_on_datagram g s1 cfg out pcap t =
          (session_promote (s1\<lparr>s_pending := i2\<rparr>) t, g, pkt, Some (AWG_RX_ESTABLISHED, []))"
        using response_establishes [OF s1(2) w [unfolded Some] i2(2)] i2(1) s1(1) by metis
      then show ?thesis
        using i2 consume_response_index [OF i2(1)] Some by (simp add: c m w promote_fields)
    qed
  qed
qed


definition sample_pair :: awg_config where
  "sample_pair = sample_config\<lparr>cfg_private_key := sample_private, cfg_peer_public_key := awg_public_from_private sample_private\<rparr>"


end
